(* ===== verification/Afx_Prelude.thy ===== *)
theory Afx_Prelude
  imports Main "HOL-Library.Word" "HOL-Library.Multiset"
begin

text \<open>
  Shared vocabulary of the AffiniX development: the machine integers and time types of
  \<^verbatim>\<open>include/afx/sys/types.hpp\<close>, the rule collections the component theories
  feed, and the generic lemmas on lists, options and words they share.

  Times are nanosecond counts. The sources use \<^verbatim>\<open>std::chrono::nanoseconds\<close>, a signed
  64-bit count; the model uses \<open>int\<close>, so it describes runs in which no time point or
  duration leaves the signed 64-bit range (signed overflow is undefined behaviour there).
  Sizes and positions whose wrap-around matters are words or carry the \<open>2 ^ 64\<close> in the
  definition that wraps.
\<close>

type_synonym u8 = "8 word"
type_synonym u16 = "16 word"
type_synonym u32 = "32 word"
type_synonym u64 = "64 word"
type_synonym byte = "8 word"

type_synonym nanos = int
type_synonym time_point = int
type_synonym duration = int

named_theorems afx_defs \<open>definitions unfolded by the preservation proofs\<close>
named_theorems afx_frame \<open>fields an operation leaves unchanged\<close>
named_theorems afx_inv \<open>preservation of the component invariants\<close>

section \<open>Lists\<close>

lemma length_filter_update:
  assumes "i < length xs"
  shows "int (length (filter P (xs[i := y])))
       = int (length (filter P xs)) - of_bool (P (xs ! i)) + of_bool (P y)"
proof -
  have eq: "xs = take i xs @ xs ! i # drop (Suc i) xs"
    by (rule id_take_nth_drop [OF assms])
  have "filter P xs = filter P (take i xs) @ (if P (xs ! i) then [xs ! i] else []) @ filter P (drop (Suc i) xs)"
    by (subst eq, subst filter_append, subst filter.simps(2)) simp
  moreover have "filter P (xs[i := y]) = filter P (take i xs) @ (if P y then [y] else []) @ filter P (drop (Suc i) xs)"
    by (simp only: upd_conv_take_nth_drop [OF assms] filter_append filter.simps(2)) simp
  ultimately show ?thesis by simp
qed

lemma set_butlast_distinct:
  assumes "distinct xs" "xs \<noteq> []"
  shows "set (butlast xs) = set xs - {last xs}"
proof -
  obtain ys y where xs: "xs = ys @ [y]"
    using assms(2) by (cases xs rule: rev_exhaust) auto
  with assms(1) show ?thesis by auto
qed

lemma sum_list_count: "(\<Sum>x\<leftarrow>xs. if P x then 1 else 0) = length (filter P xs)"
  by (induction xs) simp_all

section \<open>Words\<close>

lemma unat_of_nat_u32 [simp]: "n < 2 ^ 32 \<Longrightarrow> unat (of_nat n :: u32) = n"
  by (simp add: unat_of_nat take_bit_nat_eq_self)

lemma unat_lt_u32: "unat (w :: u32) < 4294967296"
  using unsigned_less [of w] by simp

lemma unat_eq_u32_iff: "unat (a :: u32) = unat b \<longleftrightarrow> a = b"
  by (simp add: word_unat_eq_iff)


lemma unat_add_u64: "unat (x :: u64) + unat y < 2 ^ 64 \<Longrightarrow> unat (x + y) = unat x + unat y"
  by (simp add: unat_word_ariths)

lemma unat_of_nat_u64 [simp]: "n < 2 ^ 64 \<Longrightarrow> unat (of_nat n :: u64) = n"
  by (simp add: unat_of_nat take_bit_nat_eq_self)

end
