(* ===== verification/Handle_Table.thy ===== *)
theory Handle_Table
  imports Afx_Prelude
begin

text \<open>
  Generation-checked handles over a slab of slots:
  \<^verbatim>\<open>include/afx/core/handle_table.hpp\<close>. The event loop keeps its timers, timer
  groups and completion sinks in such tables, and everything outside refers to them by
  handle. A slot is a generation, a liveness flag and the storage (an object while one is
  constructed there); \<open>ht_free\<close> and \<open>ht_deferred\<close> are the two index vectors, whose
  back is the end of the list.
\<close>

section \<open>Data\<close>

record handle =
  h_idx :: u32
  h_gen :: u32

definition handle_valid :: "handle \<Rightarrow> bool" where
  "handle_valid h \<longleftrightarrow> h_gen h \<noteq> 0"

definition null_handle :: handle where
  "null_handle = \<lparr>h_idx = 0, h_gen = 0\<rparr>"

record 'a slot =
  s_gen :: u32
  s_alive :: bool
  s_obj :: "'a option"

record 'a handle_table =
  ht_slots :: "'a slot list"
  ht_first_gen :: u32
  ht_free :: "u32 list"
  ht_deferred :: "u32 list"
  ht_live :: nat

section \<open>Operations\<close>

definition ht_new :: "u32 \<Rightarrow> 'a handle_table" where
  "ht_new g = \<lparr>ht_slots = [], ht_first_gen = (if g \<noteq> 0 then g else 1),
               ht_free = [], ht_deferred = [], ht_live = 0\<rparr>"

text \<open>The slot \<open>emplace\<close> uses: the back of the free list, or a fresh slot at the end.\<close>

definition ht_take_slot :: "'a handle_table \<Rightarrow> u32 \<times> 'a handle_table" where
  "ht_take_slot t =
     (if ht_free t \<noteq> []
      then (last (ht_free t), t\<lparr>ht_free := butlast (ht_free t)\<rparr>)
      else (of_nat (length (ht_slots t)),
            t\<lparr>ht_slots := ht_slots t @ [\<lparr>s_gen = ht_first_gen t, s_alive = False, s_obj = None\<rparr>]\<rparr>))"

definition ht_emplace :: "'a \<Rightarrow> 'a handle_table \<Rightarrow> handle \<times> 'a handle_table" where
  "ht_emplace v t =
     (let (idx, t1) = ht_take_slot t;
          s = ht_slots t1 ! unat idx
      in (\<lparr>h_idx = idx, h_gen = s_gen s\<rparr>,
          t1\<lparr>ht_slots := (ht_slots t1)[unat idx := s\<lparr>s_obj := Some v, s_alive := True\<rparr>],
             ht_live := ht_live t1 + 1\<rparr>))"

definition ht_get :: "'a handle_table \<Rightarrow> handle \<Rightarrow> 'a option" where
  "ht_get t h =
     (if \<not> handle_valid h \<or> unat (h_idx h) \<ge> length (ht_slots t) then None
      else let s = ht_slots t ! unat (h_idx h)
           in if \<not> s_alive s \<or> s_gen s \<noteq> h_gen h then None else s_obj s)"

definition ht_contains :: "'a handle_table \<Rightarrow> handle \<Rightarrow> bool" where
  "ht_contains t h \<longleftrightarrow> ht_get t h \<noteq> None"

text \<open>Writing through the pointer \<open>get\<close> returned.\<close>

definition ht_put :: "handle \<Rightarrow> 'a \<Rightarrow> 'a handle_table \<Rightarrow> 'a handle_table" where
  "ht_put h v t =
     (if ht_get t h = None then t
      else t\<lparr>ht_slots := (ht_slots t)[unat (h_idx h) := (ht_slots t ! unat (h_idx h))\<lparr>s_obj := Some v\<rparr>]\<rparr>)"

definition next_gen :: "u32 \<Rightarrow> u32" where
  "next_gen g = (let g' = g + 1 in if g' = 0 then 1 else g')"

definition ht_release :: "handle \<Rightarrow> 'a handle_table \<Rightarrow> 'a handle_table" where
  "ht_release h t =
     (if ht_get t h = None then t
      else let i = unat (h_idx h); s = ht_slots t ! i
           in t\<lparr>ht_slots := (ht_slots t)[i := \<lparr>s_gen = next_gen (s_gen s), s_alive = False, s_obj = None\<rparr>],
                ht_live := ht_live t - 1,
                ht_deferred := ht_deferred t @ [h_idx h]\<rparr>)"

definition ht_reclaim :: "'a handle_table \<Rightarrow> 'a handle_table" where
  "ht_reclaim t = t\<lparr>ht_free := ht_free t @ ht_deferred t, ht_deferred := []\<rparr>"

definition ht_size :: "'a handle_table \<Rightarrow> nat" where
  "ht_size t = ht_live t"

definition ht_capacity :: "'a handle_table \<Rightarrow> nat" where
  "ht_capacity t = length (ht_slots t)"

text \<open>The objects \<open>for_each\<close> visits, in index order, each with its handle.\<close>

definition ht_entries :: "'a handle_table \<Rightarrow> ('a \<times> handle) list" where
  "ht_entries t =
     concat (map (\<lambda>i. let s = ht_slots t ! i
                      in if s_alive s
                         then (case s_obj s of Some v \<Rightarrow> [(v, \<lparr>h_idx = of_nat i, h_gen = s_gen s\<rparr>)]
                                             | None \<Rightarrow> [])
                         else [])
             [0..<length (ht_slots t)])"

definition ht_clear :: "'a handle_table \<Rightarrow> 'a handle_table" where
  "ht_clear t = t\<lparr>ht_slots := [], ht_free := [], ht_deferred := [], ht_live := 0\<rparr>"

section \<open>The table invariant\<close>

text \<open>
  Generations are never 0, a slot holds an object exactly while it is alive, every dead slot
  waits in exactly one of the two index vectors, and the live counter counts the live slots.
\<close>

definition ht_wf :: "'a handle_table \<Rightarrow> bool" where
  "ht_wf t \<longleftrightarrow>
     ht_first_gen t \<noteq> 0 \<and>
     (\<forall>s \<in> set (ht_slots t). s_gen s \<noteq> 0 \<and> (s_alive s \<longleftrightarrow> s_obj s \<noteq> None)) \<and>
     distinct (ht_free t @ ht_deferred t) \<and>
     (\<forall>i. i \<in> set (ht_free t @ ht_deferred t) \<longleftrightarrow>
          unat i < length (ht_slots t) \<and> \<not> s_alive (ht_slots t ! unat i)) \<and>
     ht_live t = length (filter s_alive (ht_slots t)) \<and>
     length (ht_slots t) < 2 ^ 32"

text \<open>Room for one more object: a reclaimed slot, or an index below \<open>2 ^ 32 - 1\<close>.\<close>

definition ht_room :: "'a handle_table \<Rightarrow> bool" where
  "ht_room t \<longleftrightarrow> ht_free t \<noteq> [] \<or> Suc (length (ht_slots t)) < 2 ^ 32"

lemma next_gen_nonzero [simp]: "next_gen g \<noteq> 0"
  by (simp add: next_gen_def Let_def)

lemma next_gen_neq [simp]: "g \<noteq> 0 \<Longrightarrow> next_gen g \<noteq> g"
  by (auto simp: next_gen_def Let_def)

lemma ht_get_Some_iff:
  "ht_get t h = Some v \<longleftrightarrow>
     h_gen h \<noteq> 0 \<and> unat (h_idx h) < length (ht_slots t) \<and>
     s_alive (ht_slots t ! unat (h_idx h)) \<and> s_gen (ht_slots t ! unat (h_idx h)) = h_gen h \<and>
     s_obj (ht_slots t ! unat (h_idx h)) = Some v"
  by (auto simp: ht_get_def handle_valid_def Let_def)

lemma ht_get_None_iff:
  assumes "ht_wf t"
  shows "ht_get t h = None \<longleftrightarrow>
     h_gen h = 0 \<or> unat (h_idx h) \<ge> length (ht_slots t) \<or>
     \<not> s_alive (ht_slots t ! unat (h_idx h)) \<or> s_gen (ht_slots t ! unat (h_idx h)) \<noteq> h_gen h"
proof -
  have "unat (h_idx h) < length (ht_slots t) \<Longrightarrow>
        s_alive (ht_slots t ! unat (h_idx h)) \<longleftrightarrow> s_obj (ht_slots t ! unat (h_idx h)) \<noteq> None"
    using assms nth_mem by (fastforce simp: ht_wf_def)
  then show ?thesis by (auto simp: ht_get_def handle_valid_def Let_def)
qed

lemma handle_eq_iff: "(h :: handle) = k \<longleftrightarrow> unat (h_idx h) = unat (h_idx k) \<and> h_gen h = h_gen k"
  by (auto simp: unat_eq_u32_iff)

lemma ht_wf_new [simp]: "ht_wf (ht_new g)"
  by (simp add: ht_wf_def ht_new_def)

subsection \<open>Emplace\<close>

lemma ht_wfD:
  assumes "ht_wf t"
  shows ht_wf_gen: "\<And>i. i < length (ht_slots t) \<Longrightarrow> s_gen (ht_slots t ! i) \<noteq> 0"
    and ht_wf_obj: "\<And>i. i < length (ht_slots t) \<Longrightarrow> s_alive (ht_slots t ! i) \<longleftrightarrow> s_obj (ht_slots t ! i) \<noteq> None"
    and ht_wf_dead: "\<And>i. i \<in> set (ht_free t) \<or> i \<in> set (ht_deferred t) \<longleftrightarrow>
          unat i < length (ht_slots t) \<and> \<not> s_alive (ht_slots t ! unat i)"
    and ht_wf_len: "length (ht_slots t) < 2 ^ 32"
    and ht_wf_live: "ht_live t = length (filter s_alive (ht_slots t))"
    and ht_wf_distinct: "distinct (ht_free t)" "distinct (ht_deferred t)" "set (ht_free t) \<inter> set (ht_deferred t) = {}"
    and ht_wf_first: "ht_first_gen t \<noteq> 0"
  using assms nth_mem by (fastforce simp: ht_wf_def)+

lemma ht_wfI:
  assumes "ht_first_gen t \<noteq> 0"
    and "\<And>s. s \<in> set (ht_slots t) \<Longrightarrow> s_gen s \<noteq> 0 \<and> (s_alive s \<longleftrightarrow> s_obj s \<noteq> None)"
    and "distinct (ht_free t @ ht_deferred t)"
    and "\<And>i. i \<in> set (ht_free t) \<or> i \<in> set (ht_deferred t) \<longleftrightarrow>
          unat i < length (ht_slots t) \<and> \<not> s_alive (ht_slots t ! unat i)"
    and "ht_live t = length (filter s_alive (ht_slots t))"
    and "length (ht_slots t) < 2 ^ 32"
  shows "ht_wf t"
  using assms unfolding ht_wf_def by (metis Un_iff set_append)

text \<open>What \<open>emplace\<close> does to the slots, in the two ways it finds one.\<close>

lemma ht_take_slot_spec:
  assumes "ht_wf t" "ht_room t" "ht_take_slot t = (idx, t1)"
  shows "unat idx < length (ht_slots t1) \<and> \<not> s_alive (ht_slots t1 ! unat idx) \<and>
         s_gen (ht_slots t1 ! unat idx) \<noteq> 0 \<and>
         length (ht_slots t) \<le> length (ht_slots t1) \<and> length (ht_slots t1) < 2 ^ 32 \<and>
         (\<forall>i < length (ht_slots t). ht_slots t1 ! i = ht_slots t ! i) \<and>
         (\<forall>i. length (ht_slots t) \<le> i \<and> i < length (ht_slots t1) \<longrightarrow> i = unat idx) \<and>
         filter s_alive (ht_slots t1) = filter s_alive (ht_slots t) \<and>
         ht_live t1 = ht_live t \<and> ht_first_gen t1 = ht_first_gen t \<and>
         ht_deferred t1 = ht_deferred t \<and> distinct (ht_free t1) \<and>
         set (ht_free t1) = set (ht_free t) - {idx} \<and>
         (unat idx < length (ht_slots t) \<longrightarrow> idx \<in> set (ht_free t))"
proof (cases "ht_free t = []")
  case True
  with assms(2) have len: "Suc (length (ht_slots t)) < 2 ^ 32" by (simp add: ht_room_def)
  then have u: "unat (of_nat (length (ht_slots t)) :: u32) = length (ht_slots t)" by simp
  from assms(3) True have eq: "idx = of_nat (length (ht_slots t))"
    "t1 = t\<lparr>ht_slots := ht_slots t @ [\<lparr>s_gen = ht_first_gen t, s_alive = False, s_obj = None\<rparr>]\<rparr>"
    by (simp_all add: ht_take_slot_def)
  show ?thesis
    using True len u ht_wf_first [OF assms(1)] unfolding eq by (simp add: nth_append)
next
  case False
  from assms(3) False have eq: "idx = last (ht_free t)" "t1 = t\<lparr>ht_free := butlast (ht_free t)\<rparr>"
    by (simp_all add: ht_take_slot_def)
  have mem: "last (ht_free t) \<in> set (ht_free t)" using False by simp
  then have "unat (last (ht_free t)) < length (ht_slots t)" "\<not> s_alive (ht_slots t ! unat (last (ht_free t)))"
    using ht_wf_dead [OF assms(1)] by blast+
  then show ?thesis
    using False mem ht_wf_gen [OF assms(1)] ht_wf_len [OF assms(1)] ht_wf_distinct [OF assms(1)]
    unfolding eq by (simp add: set_butlast_distinct distinct_butlast)
qed

lemma ht_wf_emplace:
  assumes wf: "ht_wf t" and room: "ht_room t"
  shows "ht_wf (snd (ht_emplace v t))"
proof -
  obtain idx t1 where ts: "ht_take_slot t = (idx, t1)" by fastforce
  note S = ht_take_slot_spec [OF wf room ts]
  let ?i = "unat idx" and ?s = "ht_slots t1 ! unat idx"
  let ?t2 = "t1\<lparr>ht_slots := (ht_slots t1)[?i := ?s\<lparr>s_obj := Some v, s_alive := True\<rparr>], ht_live := ht_live t1 + 1\<rparr>"
  have eq: "snd (ht_emplace v t) = ?t2" by (simp add: ht_emplace_def ts Let_def)
  have slot: "s_gen s \<noteq> 0 \<and> (s_alive s \<longleftrightarrow> s_obj s \<noteq> None)" if s: "s \<in> set (ht_slots ?t2)" for s
  proof -
    from s obtain j where j: "j < length (ht_slots t1)" "s = (ht_slots ?t2) ! j"
      by (auto simp: in_set_conv_nth)
    show ?thesis
    proof (cases "j = ?i")
      case True
      with j S show ?thesis by simp
    next
      case False
      with j S have "j < length (ht_slots t)" by (metis not_less)
      with False j S wf show ?thesis by (simp add: ht_wf_gen ht_wf_obj)
    qed
  qed
  have live: "int (length (filter s_alive (ht_slots ?t2))) = int (length (filter s_alive (ht_slots t1))) + 1"
    using S by (simp add: length_filter_update)
  have dead: "i \<in> set (ht_free t1) \<or> i \<in> set (ht_deferred t1) \<longleftrightarrow>
      unat i < length (ht_slots ?t2) \<and> \<not> s_alive (ht_slots ?t2 ! unat i)" for i
  proof (cases "i = idx")
    case True
    have "idx \<notin> set (ht_deferred t)"
    proof
      assume "idx \<in> set (ht_deferred t)"
      moreover then have "unat idx < length (ht_slots t)" using ht_wf_dead [OF wf] by blast
      ultimately show False using S ht_wf_distinct(3) [OF wf] by auto
    qed
    with True S show ?thesis by simp
  next
    case False
    then have ne: "unat i \<noteq> unat idx" by (simp add: unat_eq_u32_iff)
    have "i \<in> set (ht_free t1) \<or> i \<in> set (ht_deferred t1) \<longleftrightarrow>
        i \<in> set (ht_free t) \<or> i \<in> set (ht_deferred t)" using S False by auto
    also have "\<dots> \<longleftrightarrow> unat i < length (ht_slots t) \<and> \<not> s_alive (ht_slots t ! unat i)"
      by (rule ht_wf_dead [OF wf])
    also have "\<dots> \<longleftrightarrow> unat i < length (ht_slots t1) \<and> \<not> s_alive (ht_slots t1 ! unat i)"
    proof -
      have "unat i < length (ht_slots t) \<longleftrightarrow> unat i < length (ht_slots t1)"
        using S ne by (meson not_less order_less_le_trans)
      then show ?thesis using S by auto
    qed
    finally show ?thesis using ne by simp
  qed
  from S have fd: "distinct (ht_free t1)" "set (ht_free t1) \<subseteq> set (ht_free t)" "ht_deferred t1 = ht_deferred t"
    by simp_all
  with ht_wf_distinct [OF wf] have "distinct (ht_free t1 @ ht_deferred t1)" by auto
  then have dist: "distinct (ht_free ?t2 @ ht_deferred ?t2)" by simp
  have dead2: "i \<in> set (ht_free ?t2) \<or> i \<in> set (ht_deferred ?t2) \<longleftrightarrow>
      unat i < length (ht_slots ?t2) \<and> \<not> s_alive (ht_slots ?t2 ! unat i)" for i
    using dead [of i] by simp
  have live2: "ht_live ?t2 = length (filter s_alive (ht_slots ?t2))"
    using live S ht_wf_live [OF wf] by simp
  have rest: "ht_first_gen ?t2 \<noteq> 0" "length (ht_slots ?t2) < 2 ^ 32"
    using S ht_wf_first [OF wf] by simp_all
  show ?thesis
    unfolding eq by (rule ht_wfI [OF rest(1) slot dist dead2 live2 rest(2)])
qed

lemma ht_get_emplace:
  assumes wf: "ht_wf t" and room: "ht_room t" and em: "ht_emplace v t = (h, t')"
  shows "ht_get t' h = Some v" and "ht_get t h = None"
    and "\<And>k. k \<noteq> h \<Longrightarrow> ht_get t' k = ht_get t k"
proof -
  obtain idx t1 where ts: "ht_take_slot t = (idx, t1)" by fastforce
  note S = ht_take_slot_spec [OF wf room ts]
  from em have h: "h = \<lparr>h_idx = idx, h_gen = s_gen (ht_slots t1 ! unat idx)\<rparr>"
    and t': "t' = t1\<lparr>ht_slots := (ht_slots t1)[unat idx := (ht_slots t1 ! unat idx)\<lparr>s_obj := Some v, s_alive := True\<rparr>],
             ht_live := ht_live t1 + 1\<rparr>"
    by (simp_all add: ht_emplace_def ts Let_def)
  show "ht_get t' h = Some v" using S by (simp add: ht_get_Some_iff h t')
  show "ht_get t h = None"
    using S by (simp add: ht_get_None_iff [OF wf] h) (metis not_less)
  fix k :: handle assume kh: "k \<noteq> h"
  show "ht_get t' k = ht_get t k"
  proof (cases "unat (h_idx k) = unat idx")
    case True
    with kh h have g: "h_gen k \<noteq> s_gen (ht_slots t1 ! unat idx)" by (auto simp: handle_eq_iff)
    have "ht_get t' k = None" using True g S by (simp add: ht_get_def t' Let_def)
    moreover have "ht_get t k = None"
      using True S by (simp add: ht_get_None_iff [OF wf]) (metis not_less)
    ultimately show ?thesis by simp
  next
    case False
    have len: "unat (h_idx k) < length (ht_slots t1) \<longleftrightarrow> unat (h_idx k) < length (ht_slots t)"
      using S False by (meson not_less order_less_le_trans)
    have eq: "ht_slots t1 ! unat (h_idx k) = ht_slots t ! unat (h_idx k)" if "unat (h_idx k) < length (ht_slots t)"
      using S that by simp
    show ?thesis
      using False len eq by (auto simp: ht_get_def t' Let_def not_less [symmetric])
  qed
qed

subsection \<open>Release and reclaim\<close>

lemma ht_release_live:
  assumes "ht_get t h \<noteq> None"
  shows "ht_release h t =
     t\<lparr>ht_slots := (ht_slots t)[unat (h_idx h) :=
          \<lparr>s_gen = next_gen (s_gen (ht_slots t ! unat (h_idx h))), s_alive = False, s_obj = None\<rparr>],
       ht_live := ht_live t - 1, ht_deferred := ht_deferred t @ [h_idx h]\<rparr>"
  using assms by (auto simp: ht_release_def Let_def)

lemma ht_release_dead [simp]: "ht_get t h = None \<Longrightarrow> ht_release h t = t"
  by (simp add: ht_release_def)

lemma ht_wf_release:
  assumes wf: "ht_wf t"
  shows "ht_wf (ht_release h t)"
proof (cases "ht_get t h")
  case None
  with wf show ?thesis by simp
next
  case (Some v)
  let ?i = "unat (h_idx h)" and ?d = "\<lparr>s_gen = next_gen (s_gen (ht_slots t ! unat (h_idx h))), s_alive = False, s_obj = None :: 'a option\<rparr>"
  let ?t = "ht_release h t"
  from Some have i: "?i < length (ht_slots t)" "s_alive (ht_slots t ! ?i)"
    by (simp_all add: ht_get_Some_iff)
  have eq: "?t = t\<lparr>ht_slots := (ht_slots t)[?i := ?d], ht_live := ht_live t - 1, ht_deferred := ht_deferred t @ [h_idx h]\<rparr>"
    using Some by (simp add: ht_release_live)
  have notin: "h_idx h \<notin> set (ht_free t)" "h_idx h \<notin> set (ht_deferred t)"
    using ht_wf_dead [OF wf, of "h_idx h"] i by auto
  have slot: "s_gen s \<noteq> 0 \<and> (s_alive s \<longleftrightarrow> s_obj s \<noteq> None)" if "s \<in> set (ht_slots ?t)" for s
  proof -
    from that have "s = ?d \<or> s \<in> set (ht_slots t)"
      using set_update_subset_insert [of "ht_slots t" ?i ?d] unfolding eq by auto
    with wf show ?thesis by (auto simp: ht_wf_def)
  qed
  have live: "int (length (filter s_alive (ht_slots ?t))) = int (length (filter s_alive (ht_slots t))) - 1"
    using i unfolding eq by (simp add: length_filter_update)
  have dead: "k \<in> set (ht_free ?t @ ht_deferred ?t) \<longleftrightarrow>
      unat k < length (ht_slots ?t) \<and> \<not> s_alive (ht_slots ?t ! unat k)" for k
  proof (cases "k = h_idx h")
    case True
    with i show ?thesis unfolding eq by simp
  next
    case False
    then have "unat k \<noteq> ?i" by (simp add: unat_eq_u32_iff)
    with False show ?thesis using ht_wf_dead [OF wf, of k] unfolding eq by simp
  qed
  have dist: "distinct (ht_free ?t @ ht_deferred ?t)"
    using ht_wf_distinct [OF wf] notin unfolding eq by auto
  have "ht_live ?t = length (filter s_alive (ht_slots ?t))"
    using live ht_wf_live [OF wf] unfolding eq by simp
  with slot dead dist ht_wf_len [OF wf] ht_wf_first [OF wf] show ?thesis
    unfolding ht_wf_def by (simp add: eq)
qed

lemma ht_get_release:
  assumes "ht_wf t"
  shows "ht_get (ht_release h t) h = None"
    and "k \<noteq> h \<Longrightarrow> ht_get (ht_release h t) k = ht_get t k"
proof -
  have "ht_get (ht_release h t) h = None \<and> (k \<noteq> h \<longrightarrow> ht_get (ht_release h t) k = ht_get t k)"
  proof (cases "ht_get t h")
    case None
    then show ?thesis by simp
  next
    case (Some v)
    then have i: "unat (h_idx h) < length (ht_slots t)" "s_gen (ht_slots t ! unat (h_idx h)) = h_gen h"
      by (simp_all add: ht_get_Some_iff)
    have eq: "ht_release h t =
     t\<lparr>ht_slots := (ht_slots t)[unat (h_idx h) := \<lparr>s_gen = next_gen (h_gen h), s_alive = False, s_obj = None\<rparr>],
       ht_live := ht_live t - 1, ht_deferred := ht_deferred t @ [h_idx h]\<rparr>"
      using Some i by (simp add: ht_release_live)
    have "ht_get (ht_release h t) h = None" using i by (simp add: ht_get_def eq Let_def)
    moreover have "ht_get (ht_release h t) k = ht_get t k" if "k \<noteq> h"
    proof (cases "unat (h_idx k) = unat (h_idx h)")
      case True
      with that have "h_gen k \<noteq> h_gen h" by (simp add: handle_eq_iff)
      with True i show ?thesis by (simp add: ht_get_def eq Let_def)
    next
      case False
      then show ?thesis by (simp add: ht_get_def eq Let_def)
    qed
    ultimately show ?thesis by blast
  qed
  then show "ht_get (ht_release h t) h = None"
    and "k \<noteq> h \<Longrightarrow> ht_get (ht_release h t) k = ht_get t k" by blast+
qed

lemma ht_wf_reclaim: "ht_wf t \<Longrightarrow> ht_wf (ht_reclaim t)"
  by (auto simp: ht_wf_def ht_reclaim_def)

lemma ht_get_reclaim [simp]: "ht_get (ht_reclaim t) h = ht_get t h"
  by (simp add: ht_get_def ht_reclaim_def)

lemma ht_get_put:
  "ht_get (ht_put h v t) k = (if k = h \<and> ht_get t h \<noteq> None then Some v else ht_get t k)"
proof (cases "ht_get t h")
  case None
  then show ?thesis by (simp add: ht_put_def)
next
  case (Some w)
  show ?thesis
  proof (cases "unat (h_idx k) = unat (h_idx h)")
    case True
    with Some show ?thesis
      by (auto simp: ht_put_def ht_get_Some_iff ht_get_def handle_valid_def Let_def unat_eq_u32_iff split: if_splits)
  next
    case False
    then have "k \<noteq> h" by auto
    with Some False show ?thesis by (simp add: ht_put_def ht_get_def Let_def)
  qed
qed

lemma ht_wf_put: 
  assumes wf: "ht_wf t"
  shows "ht_wf (ht_put h v t)"
proof (cases "ht_get t h")
  case None
  with wf show ?thesis by (simp add: ht_put_def)
next
  case (Some w)
  let ?i = "unat (h_idx h)"
  let ?n = "(ht_slots t ! ?i)\<lparr>s_obj := Some v\<rparr>"
  from Some have i: "?i < length (ht_slots t)" "s_alive (ht_slots t ! ?i)"
    by (simp_all add: ht_get_Some_iff)
  have al: "s_alive ((ht_slots t)[?i := ?n] ! j) = s_alive (ht_slots t ! j)" for j
    using i by (cases "j = ?i") simp_all
  have "int (length (filter s_alive ((ht_slots t)[?i := ?n]))) = int (length (filter s_alive (ht_slots t)))"
    using i by (simp add: length_filter_update)
  moreover have "s_gen s \<noteq> 0 \<and> (s_alive s \<longleftrightarrow> s_obj s \<noteq> None)" if "s \<in> set ((ht_slots t)[?i := ?n])" for s
  proof -
    from that have "s = ?n \<or> s \<in> set (ht_slots t)"
      using set_update_subset_insert [of "ht_slots t" ?i ?n] by auto
    with wf i ht_wf_gen [OF wf i(1)] show ?thesis by (auto simp: ht_wf_def)
  qed
  ultimately show ?thesis
    using wf Some al by (simp add: ht_wf_def ht_put_def)
qed

section \<open>The slab interface\<close>

text \<open>
  What the event loop relies on: a table is a finite map from handles to objects. A fresh
  handle is unused, an operation on one handle leaves every other handle alone, and a
  released handle resolves to nothing.
\<close>

locale slab =
  fixes get :: "'t \<Rightarrow> handle \<Rightarrow> 'a option"
    and emplace :: "'a \<Rightarrow> 't \<Rightarrow> handle \<times> 't"
    and put :: "handle \<Rightarrow> 'a \<Rightarrow> 't \<Rightarrow> 't"
    and release :: "handle \<Rightarrow> 't \<Rightarrow> 't"
    and reclaim :: "'t \<Rightarrow> 't"
    and inv :: "'t \<Rightarrow> bool"
    and room :: "'t \<Rightarrow> bool"
  assumes emplace_new: "inv t \<Longrightarrow> room t \<Longrightarrow> get (snd (emplace v t)) (fst (emplace v t)) = Some v"
    and emplace_fresh: "inv t \<Longrightarrow> room t \<Longrightarrow> get t (fst (emplace v t)) = None"
    and emplace_other: "inv t \<Longrightarrow> room t \<Longrightarrow> k \<noteq> fst (emplace v t) \<Longrightarrow> get (snd (emplace v t)) k = get t k"
    and put_get: "get (put h v t) k = (if k = h \<and> get t h \<noteq> None then Some v else get t k)"
    and release_gone: "inv t \<Longrightarrow> get (release h t) h = None"
    and release_other: "inv t \<Longrightarrow> k \<noteq> h \<Longrightarrow> get (release h t) k = get t k"
    and reclaim_get: "get (reclaim t) k = get t k"
    and inv_emplace: "inv t \<Longrightarrow> room t \<Longrightarrow> inv (snd (emplace v t))"
    and inv_put: "inv t \<Longrightarrow> inv (put h v t)"
    and inv_release: "inv t \<Longrightarrow> inv (release h t)"
    and inv_reclaim: "inv t \<Longrightarrow> inv (reclaim t)"
begin

lemma get_emplace_map: "inv t \<Longrightarrow> room t \<Longrightarrow> get (snd (emplace v t)) = (get t)(fst (emplace v t) \<mapsto> v)"
  by (rule ext) (simp add: emplace_new emplace_other)

lemma get_release_map: "inv t \<Longrightarrow> get (release h t) = (get t)(h := None)"
  by (rule ext) (simp add: release_gone release_other)

lemma get_put_map: "get t h \<noteq> None \<Longrightarrow> get (put h v t) = (get t)(h \<mapsto> v)"
  by (rule ext) (simp add: put_get)

lemma put_dead [simp]: "get t h = None \<Longrightarrow> get (put h v t) = get t"
  by (rule ext) (simp add: put_get)

lemma reclaim_map [simp]: "get (reclaim t) = get t"
  by (rule ext) (simp add: reclaim_get)

text \<open>Releasing a list of handles, as the loop's bookkeeping stage does.\<close>

lemma get_release_list: "inv t \<Longrightarrow> get (fold release hs t) = (\<lambda>k. if k \<in> set hs then None else get t k)"
proof (induction hs arbitrary: t)
  case Nil
  then show ?case by simp
next
  case (Cons h hs)
  from Cons.IH [OF inv_release [OF Cons.prems, of h]]
  have "get (fold release hs (release h t)) = (\<lambda>k. if k \<in> set hs then None else get (release h t) k)" .
  also have "\<dots> = (\<lambda>k. if k \<in> set (h # hs) then None else get t k)"
    by (rule ext) (simp add: get_release_map [OF Cons.prems])
  finally show ?case by simp
qed

lemma inv_release_list: "inv t \<Longrightarrow> inv (fold release hs t)"
  by (induction hs arbitrary: t) (simp_all add: inv_release)

end

interpretation htab: slab ht_get ht_emplace ht_put ht_release ht_reclaim ht_wf ht_room
proof (unfold_locales, goal_cases)
  case (1 t v) then show ?case by (metis ht_get_emplace(1) prod.collapse)
next
  case (2 t v) then show ?case by (metis ht_get_emplace(2) prod.collapse)
next
  case (3 t k v) then show ?case by (metis ht_get_emplace(3) prod.collapse)
next
  case (4 h v t k) show ?case by (rule ht_get_put)
next
  case (5 t h) then show ?case by (rule ht_get_release(1))
next
  case (6 t k h) then show ?case by (rule ht_get_release(2))
next
  case (7 t k) show ?case by simp
next
  case (8 t v) then show ?case by (rule ht_wf_emplace)
next
  case (9 t h v) then show ?case by (rule ht_wf_put)
next
  case (10 t h) then show ?case by (rule ht_wf_release)
next
  case (11 t) then show ?case by (rule ht_wf_reclaim)
qed

section \<open>Stale handles\<close>

text \<open>
  The generation of a slot only moves in \<open>release\<close>, one step of \<open>next_gen\<close> at a time. That
  step skips 0 when it wraps, so it cycles through the \<open>2 ^ 32 - 1\<close> non-zero values and
  meets a given generation again only after a full cycle.
\<close>

datatype 'a ht_op = Emplace 'a | Put handle 'a | Release handle | Reclaim

fun ht_step :: "'a ht_op \<Rightarrow> 'a handle_table \<Rightarrow> 'a handle_table" where
  "ht_step (Emplace v) t = snd (ht_emplace v t)"
| "ht_step (Put h v) t = ht_put h v t"
| "ht_step (Release h) t = ht_release h t"
| "ht_step Reclaim t = ht_reclaim t"

definition ht_run :: "'a ht_op list \<Rightarrow> 'a handle_table \<Rightarrow> 'a handle_table" where
  "ht_run ops t = fold ht_step ops t"

lemma next_gen_nat:
  assumes "g \<noteq> 0"
  shows "unat (next_gen g) = unat g mod (2 ^ 32 - 1) + 1"
proof (cases "g + 1 = 0")
  case True
  then have "g = - 1" by (simp only: eq_neg_iff_add_eq_0)
  then have "unat g = 2 ^ 32 - 1" by (simp add: unsigned_minus_1_eq_mask mask_eq_exp_minus_1)
  with True show ?thesis by (simp add: next_gen_def)
next
  case False
  then have s: "unat (g + 1) = unat g + 1" using unatSuc [of g] by (simp add: add.commute)
  moreover have "unat (g + 1) < 4294967296" by (rule unat_lt_u32)
  ultimately have "unat g < 4294967295" by simp
  with False s show ?thesis by (simp add: next_gen_def)
qed

lemma next_gen_iter_nat:
  assumes "g \<noteq> 0"
  shows "(next_gen ^^ k) g \<noteq> 0 \<and> unat ((next_gen ^^ k) g) = (unat g - 1 + k) mod (2 ^ 32 - 1) + 1"
proof (induction k)
  case 0
  have "unat g - 1 < 2 ^ 32 - 1" "0 < unat g" using unat_lt_u32 [of g] assms
    by (auto simp: unat_gt_0)
  then show ?case using assms by simp
next
  case (Suc k)
  let ?g = "(next_gen ^^ k) g"
  have "unat (next_gen ?g) = unat ?g mod (2 ^ 32 - 1) + 1" using Suc by (simp add: next_gen_nat)
  also have "\<dots> = (((unat g - 1 + k) mod (2 ^ 32 - 1)) + 1) mod (2 ^ 32 - 1) + 1"
    using Suc by simp
  also have "\<dots> = (unat g - 1 + Suc k) mod (2 ^ 32 - 1) + 1"
    by (simp only: mod_add_left_eq add.assoc Suc_eq_plus1)
  finally show ?case by simp
qed

lemma next_gen_cycle:
  assumes "g \<noteq> 0"
  shows "(next_gen ^^ k) g = g \<longleftrightarrow> (2 ^ 32 - 1) dvd k"
proof -
  let ?N = "2 ^ 32 - 1 :: nat"
  have lt: "unat g - 1 < ?N" "0 < unat g"
    using unat_lt_u32 [of g] assms by (auto simp: unat_gt_0)
  have "(next_gen ^^ k) g = g \<longleftrightarrow> (unat g - 1 + k) mod ?N = unat g - 1"
    using next_gen_iter_nat [OF assms, of k] lt by (auto simp: word_unat_eq_iff)
  also have "\<dots> \<longleftrightarrow> (unat g - 1 + k) mod ?N = (unat g - 1) mod ?N" using lt by simp
  also have "\<dots> \<longleftrightarrow> ?N dvd k" by (subst mod_eq_dvd_iff_nat) simp_all
  finally show ?thesis .
qed

lemma ht_step_gen:
  assumes "i < length (ht_slots t)"
  shows "i < length (ht_slots (ht_step op t)) \<and>
         (\<exists>k \<le> 1. s_gen (ht_slots (ht_step op t) ! i) = (next_gen ^^ k) (s_gen (ht_slots t ! i)))"
proof (cases op)
  case (Emplace v)
  obtain idx t1 where ts: "ht_take_slot t = (idx, t1)" by fastforce
  have t1: "i < length (ht_slots t1)" "ht_slots t1 ! i = ht_slots t ! i"
    using ts assms by (auto simp: ht_take_slot_def nth_append split: if_splits)
  then have "s_gen ((ht_slots t1)[unat idx := (ht_slots t1 ! unat idx)\<lparr>s_obj := Some v, s_alive := True\<rparr>] ! i)
      = s_gen (ht_slots t ! i)"
    by (cases "i = unat idx") simp_all
  with t1 show ?thesis
    by (auto simp: Emplace ht_emplace_def ts Let_def intro: exI [of _ "0::nat"])
next
  case (Put h v)
  have "s_gen ((ht_slots t)[unat (h_idx h) := (ht_slots t ! unat (h_idx h))\<lparr>s_obj := Some v\<rparr>] ! i) = s_gen (ht_slots t ! i)"
    using assms by (cases "i = unat (h_idx h)") simp_all
  with assms show ?thesis by (auto simp: Put ht_put_def intro: exI [of _ "0::nat"])
next
  case (Release h)
  show ?thesis
  proof (cases "ht_get t h")
    case None
    with assms show ?thesis by (auto simp: Release intro: exI [of _ "0::nat"])
  next
    case (Some v)
    show ?thesis
    proof (cases "i = unat (h_idx h)")
      case True
      with Some assms show ?thesis
        by (auto simp: Release ht_release_live intro: exI [of _ "1::nat"])
    next
      case False
      with Some assms show ?thesis
        by (auto simp: Release ht_release_live intro: exI [of _ "0::nat"])
    qed
  qed
next
  case Reclaim
  with assms show ?thesis by (auto simp: ht_reclaim_def intro: exI [of _ "0::nat"])
qed

lemma ht_run_gen:
  assumes "i < length (ht_slots t)"
  shows "i < length (ht_slots (ht_run ops t)) \<and>
         (\<exists>k \<le> length ops. s_gen (ht_slots (ht_run ops t) ! i) = (next_gen ^^ k) (s_gen (ht_slots t ! i)))"
  using assms
proof (induction ops arbitrary: t)
  case Nil
  then show ?case by (simp add: ht_run_def)
next
  case (Cons op ops)
  let ?t = "ht_step op t"
  obtain k where k: "k \<le> 1" "s_gen (ht_slots ?t ! i) = (next_gen ^^ k) (s_gen (ht_slots t ! i))"
    and i: "i < length (ht_slots ?t)"
    using ht_step_gen [OF Cons.prems] by blast
  from Cons.IH [OF i] obtain m where m: "m \<le> length ops"
      "s_gen (ht_slots (ht_run ops ?t) ! i) = (next_gen ^^ m) (s_gen (ht_slots ?t ! i))"
    and len: "i < length (ht_slots (ht_run ops ?t))" by blast
  have "s_gen (ht_slots (ht_run (op # ops) t) ! i) = (next_gen ^^ (m + k)) (s_gen (ht_slots t ! i))"
    using m k by (simp add: ht_run_def funpow_add)
  moreover have "m + k \<le> length (op # ops)" using m k by simp
  ultimately show ?case using len by (auto simp: ht_run_def)
qed



text \<open>A released slot stays out of circulation until the next \<open>reclaim\<close>.\<close>

fun ht_op_room :: "'a ht_op list \<Rightarrow> 'a handle_table \<Rightarrow> bool" where
  "ht_op_room [] t = True"
| "ht_op_room (op # ops) t = ((case op of Emplace v \<Rightarrow> ht_room t | _ \<Rightarrow> True) \<and> ht_op_room ops (ht_step op t))"

lemma ht_wf_step: "ht_wf t \<Longrightarrow> ht_op_room [op] t \<Longrightarrow> ht_wf (ht_step op t)"
  by (cases op) (simp_all add: ht_wf_emplace ht_wf_put ht_wf_release ht_wf_reclaim)

lemma ht_wf_run: "ht_wf t \<Longrightarrow> ht_op_room ops t \<Longrightarrow> ht_wf (ht_run ops t)"
proof (induction ops arbitrary: t)
  case Nil
  then show ?case by (simp add: ht_run_def)
next
  case (Cons op ops)
  then have "ht_wf (ht_step op t)" by (intro ht_wf_step) simp_all
  with Cons show ?case by (simp add: ht_run_def)
qed

lemma ht_deferred_step:
  assumes "op \<noteq> Reclaim" "i \<in> set (ht_deferred t)"
  shows "i \<in> set (ht_deferred (ht_step op t))"
proof (cases op)
  case (Emplace v)
  with assms show ?thesis by (simp add: ht_emplace_def ht_take_slot_def Let_def split: if_splits)
next
  case (Put h v)
  with assms show ?thesis by (simp add: ht_put_def)
next
  case (Release h)
  with assms show ?thesis by (simp add: ht_release_def Let_def)
next
  case Reclaim
  with assms show ?thesis by simp
qed

lemma ht_deferred_run:
  "Reclaim \<notin> set ops \<Longrightarrow> i \<in> set (ht_deferred t) \<Longrightarrow> i \<in> set (ht_deferred (ht_run ops t))"
proof (induction ops arbitrary: t)
  case Nil
  then show ?case by (simp add: ht_run_def)
next
  case (Cons op ops)
  then have "i \<in> set (ht_deferred (ht_step op t))" by (intro ht_deferred_step) auto
  with Cons show ?case by (simp add: ht_run_def)
qed

lemma ht_take_slot_free:
  assumes "ht_room t" "ht_take_slot t = (idx, t1)" "unat idx < length (ht_slots t)"
  shows "idx \<in> set (ht_free t)"
  using assms by (auto simp: ht_take_slot_def ht_room_def split: if_splits)

lemma ht_emplace_not_deferred:
  assumes wf: "ht_wf t" and room: "ht_room t" and i: "i \<in> set (ht_deferred t)"
  shows "h_idx (fst (ht_emplace v t)) \<noteq> i"
proof
  assume eq: "h_idx (fst (ht_emplace v t)) = i"
  obtain idx t1 where ts: "ht_take_slot t = (idx, t1)" by fastforce
  with eq have idx: "idx = i" by (simp add: ht_emplace_def Let_def)
  have "unat i < length (ht_slots t)" using ht_wf_dead [OF wf, of i] i by blast
  with idx have "i \<in> set (ht_free t)" using ht_take_slot_free [OF room ts] by simp
  with i ht_wf_distinct(3) [OF wf] show False by blast
qed

text \<open>
  reclamation is deferred. After a live handle is released, no sequence of operations
  without a \<open>reclaim\<close> hands its slot out again, so a callback cannot free memory under its
  own caller.
\<close>

theorem released_slot_not_reused_before_reclaim:
  assumes "ht_wf t" and "ht_get t h \<noteq> None"
    and "Reclaim \<notin> set ops" and "ht_op_room ops (ht_release h t)"
    and "ht_room (ht_run ops (ht_release h t))"
  shows "h_idx (fst (ht_emplace v (ht_run ops (ht_release h t)))) \<noteq> h_idx h"
proof -
  have "h_idx h \<in> set (ht_deferred (ht_release h t))" using assms(2) by (simp add: ht_release_live)
  with assms(3) have "h_idx h \<in> set (ht_deferred (ht_run ops (ht_release h t)))"
    by (rule ht_deferred_run)
  with ht_wf_run [OF ht_wf_release [OF assms(1)] assms(4)] assms(5) show ?thesis
    by (rule ht_emplace_not_deferred)
qed

theorem released_slot_not_reused_before_reclaim_witness:
  "h_idx (fst (ht_emplace (3 :: nat) (ht_run [Emplace 2]
     (ht_release \<lparr>h_idx = 0, h_gen = 1\<rparr> (snd (ht_emplace 4 (ht_new 1))))))) \<noteq> 0"
proof -
  let ?t = "snd (ht_emplace (4 :: nat) (ht_new 1))" and ?h = "\<lparr>h_idx = 0, h_gen = 1\<rparr>"
  have t: "?t = \<lparr>ht_slots = [\<lparr>s_gen = 1, s_alive = True, s_obj = Some 4\<rparr>], ht_first_gen = 1,
                 ht_free = [], ht_deferred = [], ht_live = 1\<rparr>"
    by (simp add: ht_emplace_def ht_take_slot_def ht_new_def)
  have "ht_wf ?t" by (rule htab.inv_emplace [OF ht_wf_new]) (simp add: ht_room_def ht_new_def)
  moreover have "ht_get ?t ?h \<noteq> None" unfolding t by (simp add: ht_get_def handle_valid_def)
  moreover have "ht_op_room [Emplace 2] (ht_release ?h ?t)"
    unfolding t by (simp add: ht_release_def ht_get_def handle_valid_def ht_room_def)
  moreover have "ht_room (ht_run [Emplace 2] (ht_release ?h ?t))"
    unfolding t
    by (simp add: ht_release_def ht_get_def handle_valid_def ht_room_def ht_run_def
        ht_emplace_def ht_take_slot_def)
  ultimately show ?thesis
    using released_slot_not_reused_before_reclaim [of ?t ?h "[Emplace 2]" 3] by simp
qed

section \<open>Enumeration and size\<close>

lemma ht_entries_iff:
  assumes "ht_wf t"
  shows "(v, h) \<in> set (ht_entries t) \<longleftrightarrow> ht_get t h = Some v"
proof
  assume "(v, h) \<in> set (ht_entries t)"
  then obtain i where i: "i < length (ht_slots t)" "s_alive (ht_slots t ! i)"
    "s_obj (ht_slots t ! i) = Some v" "h = \<lparr>h_idx = of_nat i, h_gen = s_gen (ht_slots t ! i)\<rparr>"
    by (auto simp: ht_entries_def Let_def split: if_splits option.splits)
  moreover from i ht_wf_len [OF assms] have "unat (of_nat i :: u32) = i" by simp
  ultimately show "ht_get t h = Some v" using ht_wf_gen [OF assms] by (simp add: ht_get_Some_iff)
next
  assume g: "ht_get t h = Some v"
  have "h = \<lparr>h_idx = of_nat (unat (h_idx h)), h_gen = h_gen h\<rparr>" by simp
  with g show "(v, h) \<in> set (ht_entries t)"
    by (auto simp: ht_entries_def Let_def ht_get_Some_iff intro!: bexI [of _ "unat (h_idx h)"])
qed

lemma ht_entries_length:
  assumes "ht_wf t"
  shows "length (ht_entries t) = ht_size t"
proof -
  let ?e = "\<lambda>i. let s = ht_slots t ! i in if s_alive s
        then (case s_obj s of Some v \<Rightarrow> [(v, \<lparr>h_idx = of_nat i :: u32, h_gen = s_gen s\<rparr>)] | None \<Rightarrow> []) else []"
  have "map (length \<circ> ?e) [0..<length (ht_slots t)]
      = map (\<lambda>i. if s_alive (ht_slots t ! i) then 1 else 0) [0..<length (ht_slots t)]"
    using ht_wf_obj [OF assms] by (auto simp: Let_def split: option.splits)
  also have "\<dots> = map (\<lambda>s. if s_alive s then 1 else 0) (ht_slots t)"
    by (rule nth_equalityI) simp_all
  finally have "length (ht_entries t) = sum_list (map (\<lambda>s. if s_alive s then 1 else 0) (ht_slots t))"
    by (simp add: ht_entries_def length_concat o_def)
  also have "\<dots> = length (filter s_alive (ht_slots t))"
    by (rule sum_list_count)
  finally show ?thesis using ht_wf_live [OF assms] by (simp add: ht_size_def)
qed

text \<open>
  \<open>for_each\<close> visits exactly the objects that resolve, each once and under the handle that
  resolves to it, and \<open>size\<close> counts them, in every table built by the operations.
\<close>

theorem for_each_visits_live_objects:
  assumes "ht_op_room ops (ht_new g)"
  shows "set (ht_entries (ht_run ops (ht_new g))) = {(v, h). ht_get (ht_run ops (ht_new g)) h = Some v} \<and>
         length (ht_entries (ht_run ops (ht_new g))) = ht_size (ht_run ops (ht_new g))"
proof -
  have wf: "ht_wf (ht_run ops (ht_new g))" by (rule ht_wf_run [OF ht_wf_new assms])
  show ?thesis using ht_entries_iff [OF wf] ht_entries_length [OF wf] by auto
qed

theorem for_each_visits_live_objects_witness:
  "length (ht_entries (ht_run [Emplace (4 :: nat), Emplace 5, Release \<lparr>h_idx = 0, h_gen = 1\<rparr>] (ht_new 0))) = 1"
proof -
  let ?ops = "[Emplace (4 :: nat), Emplace 5, Release \<lparr>h_idx = 0, h_gen = 1\<rparr>]"
  have r: "ht_op_room ?ops (ht_new 0)"
    by (simp add: ht_room_def ht_new_def ht_emplace_def ht_take_slot_def)
  have "ht_size (ht_run ?ops (ht_new 0)) = 1"
    by (simp add: ht_run_def ht_new_def ht_emplace_def ht_take_slot_def ht_release_def ht_get_def
        handle_valid_def ht_size_def)
  with for_each_visits_live_objects [OF r] show ?thesis by simp
qed

end
