(* ===== verification/Io_Buffer.thy ===== *)
theory Io_Buffer
  imports Afx_Prelude "HOL-Library.Monad_Syntax"
begin

text \<open>
  The contiguous byte buffer of \<^verbatim>\<open>include/afx/core/io_buffer.hpp\<close>: a block of
  \<open>ib_cap\<close> bytes laid out as headroom, readable bytes and writable space. Offsets and sizes are
  \<^verbatim>\<open>std::size_t\<close>; subtraction is written with its wrap-around (\<open>usub\<close>), because one
  branch of the code can reach it. Every \<^verbatim>\<open>memcpy\<close> and \<^verbatim>\<open>memmove\<close> is
  checked against the block it reads or writes, so an access outside the allocation is the
  value \<open>None\<close>, and so is a capacity computation that does not end. Additions of sizes are
  those of \<open>nat\<close>: they stay below \<open>2 ^ 64\<close> for buffers that fit in memory.
\<close>

section \<open>Memory primitives\<close>

definition usub :: "nat \<Rightarrow> nat \<Rightarrow> nat" where
  "usub a b = (if b \<le> a then a - b else a + 2 ^ 64 - b)"

definition mem_read :: "byte list \<Rightarrow> nat \<Rightarrow> nat \<Rightarrow> byte list option" where
  "mem_read m off n = (if off + n \<le> length m then Some (take n (drop off m)) else None)"

definition mem_write :: "byte list \<Rightarrow> nat \<Rightarrow> byte list \<Rightarrow> byte list option" where
  "mem_write m off bs =
     (if off + length bs \<le> length m
      then Some (take off m @ bs @ drop (off + length bs) m) else None)"

lemma usub_le [simp]: "b \<le> a \<Longrightarrow> usub a b = a - b"
  by (simp add: usub_def)

lemma mem_write_length: "mem_write m off bs = Some m' \<Longrightarrow> length m' = length m"
  by (auto simp: mem_write_def split: if_splits)

lemma mem_write_read:
  "mem_write m off bs = Some m' \<Longrightarrow> take (length bs) (drop off m') = bs"
  by (auto simp: mem_write_def split: if_splits)

lemma mem_write_before:
  "mem_write m off bs = Some m' \<Longrightarrow> k + n \<le> off \<Longrightarrow> take n (drop k m') = take n (drop k m)"
  by (auto simp: mem_write_def drop_take min_def split: if_splits)

section \<open>The buffer\<close>

record io_buffer =
  ib_cap :: nat
  ib_buf :: "byte list"
  ib_headroom :: nat
  ib_start :: nat
  ib_size :: nat

definition ib_new :: "nat \<Rightarrow> nat \<Rightarrow> io_buffer" where
  "ib_new cap headroom =
     \<lparr>ib_cap = max cap (headroom + 1), ib_buf = replicate (max cap (headroom + 1)) 0,
      ib_headroom = headroom, ib_start = headroom, ib_size = 0\<rparr>"

definition ib_readable :: "io_buffer \<Rightarrow> byte list" where
  "ib_readable b = take (ib_size b) (drop (ib_start b) (ib_buf b))"

text \<open>The doubling loop of \<open>grow\<close>; \<open>None\<close> when it never ends (a capacity of 0 modulo \<open>2 ^ 64\<close>).\<close>

partial_function (option) grow_cap :: "nat \<Rightarrow> nat \<Rightarrow> nat option" where
  "grow_cap ncap need = (if ncap < need then grow_cap (ncap * 2 mod 2 ^ 64) need else Some ncap)"

definition ib_grow :: "nat \<Rightarrow> io_buffer \<Rightarrow> io_buffer option" where
  "ib_grow need b = do {
     ncap \<leftarrow> grow_cap (if ib_cap b \<noteq> 0 then ib_cap b * 2 mod 2 ^ 64 else 64) need;
     dat \<leftarrow> mem_read (ib_buf b) (ib_start b) (ib_size b);
     nb \<leftarrow> mem_write (replicate ncap 0) (ib_headroom b) dat;
     Some (b\<lparr>ib_buf := nb, ib_cap := ncap, ib_start := ib_headroom b\<rparr>) }"

definition ib_compact :: "io_buffer \<Rightarrow> io_buffer option" where
  "ib_compact b =
     (if ib_start b = ib_headroom b then Some b
      else do {
        dat \<leftarrow> mem_read (ib_buf b) (ib_start b) (ib_size b);
        nb \<leftarrow> mem_write (ib_buf b) (ib_headroom b) dat;
        Some (b\<lparr>ib_buf := nb, ib_start := ib_headroom b\<rparr>) })"

definition ib_ensure_writable :: "nat \<Rightarrow> io_buffer \<Rightarrow> io_buffer option" where
  "ib_ensure_writable at_least b =
     (if usub (usub (ib_cap b) (ib_start b)) (ib_size b) \<ge> at_least then Some b
      else do {
        b1 \<leftarrow> ib_compact b;
        if usub (usub (ib_cap b1) (ib_headroom b1)) (ib_size b1) < at_least
        then ib_grow (ib_headroom b1 + ib_size b1 + at_least) b1
        else Some b1 })"

text \<open>The writable span is an offset into the block and a length.\<close>

definition ib_writable :: "nat \<Rightarrow> io_buffer \<Rightarrow> ((nat \<times> nat) \<times> io_buffer) option" where
  "ib_writable at_least b = do {
     b1 \<leftarrow> ib_ensure_writable at_least b;
     Some ((ib_start b1 + ib_size b1, usub (usub (ib_cap b1) (ib_start b1)) (ib_size b1)), b1) }"

definition ib_commit :: "nat \<Rightarrow> io_buffer \<Rightarrow> io_buffer option" where
  "ib_commit n b =
     (if ib_start b + ib_size b + n \<le> ib_cap b then Some (b\<lparr>ib_size := ib_size b + n\<rparr>) else None)"

definition ib_consume :: "nat \<Rightarrow> io_buffer \<Rightarrow> io_buffer" where
  "ib_consume n b =
     (let n = min n (ib_size b);
          b1 = b\<lparr>ib_start := ib_start b + n, ib_size := ib_size b - n\<rparr>
      in if ib_size b1 = 0 then b1\<lparr>ib_start := ib_headroom b1\<rparr> else b1)"

text \<open>\<open>prepend\<close> returns the offset of the \<open>n\<close> bytes it folded in front of the readable ones.\<close>

definition ib_prepend :: "nat \<Rightarrow> io_buffer \<Rightarrow> (nat \<times> io_buffer) option" where
  "ib_prepend n b = do {
     b1 \<leftarrow> (if ib_start b < n
            then do {
              let new_start = max n (ib_headroom b);
              b1 \<leftarrow> (if new_start + ib_size b > ib_cap b
                     then ib_grow (new_start + ib_size b) b else Some b);
              dat \<leftarrow> mem_read (ib_buf b1) (ib_start b1) (ib_size b1);
              nb \<leftarrow> mem_write (ib_buf b1) new_start dat;
              Some (b1\<lparr>ib_buf := nb, ib_start := new_start\<rparr>) }
            else Some b);
     Some (ib_start b1 - n, b1\<lparr>ib_start := ib_start b1 - n, ib_size := ib_size b1 + n\<rparr>) }"

definition ib_reserve :: "nat \<Rightarrow> io_buffer \<Rightarrow> io_buffer option" where
  "ib_reserve n b = (if n > ib_cap b then ib_grow n b else Some b)"

text \<open>Writing bytes into a span of the block.\<close>

definition ib_store :: "nat \<Rightarrow> byte list \<Rightarrow> io_buffer \<Rightarrow> io_buffer option" where
  "ib_store off bs b = do { m \<leftarrow> mem_write (ib_buf b) off bs; Some (b\<lparr>ib_buf := m\<rparr>) }"

text \<open>
  The pattern every producer uses: ask for room, copy into the writable span, commit
  (\<^verbatim>\<open>Connection::send\<close>, and a receive completion filling the read buffer).
\<close>

definition ib_append :: "byte list \<Rightarrow> io_buffer \<Rightarrow> io_buffer option" where
  "ib_append bs b = do {
     ((off, len), b1) \<leftarrow> ib_writable (length bs) b;
     b2 \<leftarrow> ib_store off bs b1;
     ib_commit (length bs) b2 }"

section \<open>Invariant\<close>

text \<open>
  The invariant of a buffer on which \<open>prepend\<close> is not used: the readable bytes lie inside the
  block and never reach into the headroom.
\<close>

definition ib_wf :: "io_buffer \<Rightarrow> bool" where
  "ib_wf b \<longleftrightarrow> length (ib_buf b) = ib_cap b \<and> ib_headroom b < ib_cap b \<and>
     ib_headroom b \<le> ib_start b \<and> ib_start b + ib_size b \<le> ib_cap b"

text \<open>Room to grow: the block stays below half of the address space.\<close>

definition ib_limit :: "nat \<Rightarrow> io_buffer \<Rightarrow> bool" where
  "ib_limit n b \<longleftrightarrow> ib_cap b < 2 ^ 63 \<and> ib_headroom b + ib_size b + n \<le> 2 ^ 62"

lemma ib_wf_new [simp]: "ib_wf (ib_new cap hr)"
  by (auto simp: ib_wf_def ib_new_def max_def)

lemma ib_readable_new [simp]: "ib_readable (ib_new cap hr) = []"
  by (simp add: ib_readable_def ib_new_def)

lemma ib_readable_length: "ib_wf b \<Longrightarrow> length (ib_readable b) = ib_size b"
  by (auto simp: ib_wf_def ib_readable_def)

lemma grow_cap_returns:
  assumes "0 < ncap" "ncap < 2 ^ 64" "need \<le> 2 ^ 63"
  shows "\<exists>r. grow_cap ncap need = Some r \<and> need \<le> r \<and> ncap \<le> r \<and> (r = ncap \<or> r < 2 * need)"
  using assms
proof (induction "need - ncap" arbitrary: ncap rule: less_induct)
  case less
  show ?case
  proof (cases "ncap < need")
    case False
    with less show ?thesis by (auto simp: grow_cap.simps [of ncap])
  next
    case True
    have m: "ncap * 2 mod 2 ^ 64 = ncap * 2" using True less.prems by simp
    have "need - ncap * 2 < need - ncap" using True less.prems by simp
    then obtain r where "grow_cap (ncap * 2) need = Some r" "need \<le> r" "ncap * 2 \<le> r"
      "r = ncap * 2 \<or> r < 2 * need"
      using less.hyps [of "ncap * 2"] less.prems True by auto
    with True m show ?thesis by (auto simp: grow_cap.simps [of ncap])
  qed
qed

lemma ib_grow_spec:
  assumes "length (ib_buf b) = ib_cap b" "ib_headroom b < ib_cap b" "ib_start b + ib_size b \<le> ib_cap b"
    and "ib_cap b < 2 ^ 63" "need \<le> 2 ^ 63"
  shows "\<exists>b'. ib_grow need b = Some b' \<and> ib_wf b' \<and> ib_readable b' = ib_readable b \<and>
     ib_size b' = ib_size b \<and> ib_headroom b' = ib_headroom b \<and> ib_start b' = ib_headroom b \<and>
     need \<le> ib_cap b' \<and> (ib_cap b' = 2 * ib_cap b \<or> ib_cap b' < 2 * need)"
proof -
  have c: "ib_cap b * 2 mod 2 ^ 64 = ib_cap b * 2" using assms(4) by simp
  obtain r where r: "grow_cap (ib_cap b * 2) need = Some r" "need \<le> r" "ib_cap b * 2 \<le> r"
      "r = ib_cap b * 2 \<or> r < 2 * need"
    using grow_cap_returns [of "ib_cap b * 2" need] assms by auto
  let ?d = "take (ib_size b) (drop (ib_start b) (ib_buf b))"
  have rd: "mem_read (ib_buf b) (ib_start b) (ib_size b) = Some ?d"
    using assms by (simp add: mem_read_def)
  have ld: "length ?d = ib_size b" using assms by simp
  have fit: "ib_headroom b + ib_size b \<le> r" using assms(2,3) r(3) by simp
  obtain nb where nb: "mem_write (replicate r 0) (ib_headroom b) ?d = Some nb"
    using fit ld by (simp add: mem_write_def)
  have eq: "ib_grow need b = Some (b\<lparr>ib_buf := nb, ib_cap := r, ib_start := ib_headroom b\<rparr>)"
    using assms(2) c r rd nb by (simp add: ib_grow_def)
  have "length nb = r" using mem_write_length [OF nb] by simp
  moreover have "take (ib_size b) (drop (ib_headroom b) nb) = ?d"
    using mem_write_read [OF nb] ld by simp
  ultimately show ?thesis
    using eq r fit assms(2) by (auto simp: ib_wf_def ib_readable_def)
qed

lemma ib_compact_spec:
  assumes "ib_wf b"
  shows "\<exists>b'. ib_compact b = Some b' \<and> ib_wf b' \<and> ib_readable b' = ib_readable b \<and>
     ib_size b' = ib_size b \<and> ib_headroom b' = ib_headroom b \<and> ib_start b' = ib_headroom b \<and>
     ib_cap b' = ib_cap b"
proof (cases "ib_start b = ib_headroom b")
  case True
  with assms show ?thesis by (simp add: ib_compact_def)
next
  case False
  let ?d = "take (ib_size b) (drop (ib_start b) (ib_buf b))"
  have rd: "mem_read (ib_buf b) (ib_start b) (ib_size b) = Some ?d"
    using assms by (simp add: mem_read_def ib_wf_def)
  have ld: "length ?d = ib_size b" using assms by (auto simp: ib_wf_def)
  obtain nb where nb: "mem_write (ib_buf b) (ib_headroom b) ?d = Some nb"
    using assms ld by (simp add: mem_write_def ib_wf_def)
  have eq: "ib_compact b = Some (b\<lparr>ib_buf := nb, ib_start := ib_headroom b\<rparr>)"
    using False rd nb by (simp add: ib_compact_def)
  have "take (ib_size b) (drop (ib_headroom b) nb) = ?d"
    using mem_write_read [OF nb] ld by simp
  then show ?thesis
    using assms eq mem_write_length [OF nb] by (simp add: ib_wf_def ib_readable_def)
qed

lemma ib_ensure_writable_spec:
  assumes wf: "ib_wf b" and lim: "ib_limit n b"
  shows "\<exists>b'. ib_ensure_writable n b = Some b' \<and> ib_wf b' \<and> ib_readable b' = ib_readable b \<and>
     ib_size b' = ib_size b \<and> ib_headroom b' = ib_headroom b \<and> ib_start b' + ib_size b' + n \<le> ib_cap b' \<and>
     ib_cap b' < 2 ^ 63"
proof (cases "n \<le> ib_cap b - ib_start b - ib_size b")
  case True
  then show ?thesis using wf lim by (auto simp: ib_ensure_writable_def ib_wf_def ib_limit_def)
next
  case False
  obtain b1 where b1: "ib_compact b = Some b1" "ib_wf b1" "ib_readable b1 = ib_readable b"
    "ib_size b1 = ib_size b" "ib_headroom b1 = ib_headroom b" "ib_start b1 = ib_headroom b" "ib_cap b1 = ib_cap b"
    using ib_compact_spec [OF wf] by blast
  have u: "usub (usub (ib_cap b) (ib_start b)) (ib_size b) = ib_cap b - ib_start b - ib_size b"
    "usub (usub (ib_cap b1) (ib_headroom b1)) (ib_size b1) = ib_cap b1 - ib_headroom b1 - ib_size b1"
    using wf b1 by (auto simp: ib_wf_def)
  show ?thesis
  proof (cases "ib_cap b1 - ib_headroom b1 - ib_size b1 < n")
    case True
    obtain b2 where b2: "ib_grow (ib_headroom b1 + ib_size b1 + n) b1 = Some b2" "ib_wf b2"
      "ib_readable b2 = ib_readable b1" "ib_size b2 = ib_size b1" "ib_headroom b2 = ib_headroom b1"
      "ib_start b2 = ib_headroom b1" "ib_headroom b1 + ib_size b1 + n \<le> ib_cap b2"
      "ib_cap b2 = 2 * ib_cap b1 \<or> ib_cap b2 < 2 * (ib_headroom b1 + ib_size b1 + n)"
      using ib_grow_spec [of b1 "ib_headroom b1 + ib_size b1 + n"] b1 lim
      by (auto simp: ib_wf_def ib_limit_def)
    moreover have "ib_cap b2 < 2 ^ 63" using b2(8) True b1 lim by (auto simp: ib_limit_def)
    ultimately show ?thesis using False True b1 u by (simp add: ib_ensure_writable_def)
  next
    case no: False
    then show ?thesis using False b1 u lim by (auto simp: ib_ensure_writable_def ib_wf_def ib_limit_def)
  qed
qed

lemma ib_append_spec:
  assumes wf: "ib_wf b" and lim: "ib_limit (length bs) b"
  shows "\<exists>b'. ib_append bs b = Some b' \<and> ib_wf b' \<and> ib_readable b' = ib_readable b @ bs \<and>
     ib_headroom b' = ib_headroom b \<and> ib_cap b' < 2 ^ 63"
proof -
  obtain b1 where b1: "ib_ensure_writable (length bs) b = Some b1" "ib_wf b1"
    "ib_readable b1 = ib_readable b" "ib_headroom b1 = ib_headroom b"
    "ib_start b1 + ib_size b1 + length bs \<le> ib_cap b1" "ib_cap b1 < 2 ^ 63"
    using ib_ensure_writable_spec [OF wf lim] by blast
  let ?off = "ib_start b1 + ib_size b1"
  obtain m where m: "mem_write (ib_buf b1) ?off bs = Some m"
    using b1 by (simp add: mem_write_def ib_wf_def)
  have eq: "ib_append bs b = Some (b1\<lparr>ib_buf := m, ib_size := ib_size b1 + length bs\<rparr>)"
    using b1 m by (simp add: ib_append_def ib_writable_def ib_store_def ib_commit_def)
  have "take (ib_size b1 + length bs) (drop (ib_start b1) m)
      = take (ib_size b1) (drop (ib_start b1) m) @ take (length bs) (drop ?off m)"
    by (simp add: take_add add.commute)
  also have "take (ib_size b1) (drop (ib_start b1) m) = ib_readable b1"
    using mem_write_before [OF m] by (simp add: ib_readable_def)
  also have "take (length bs) (drop ?off m) = bs" by (rule mem_write_read [OF m])
  finally show ?thesis
    using eq b1 mem_write_length [OF m] by (simp add: ib_wf_def ib_readable_def)
qed

lemma ib_consume_spec:
  assumes "ib_wf b"
  shows "ib_wf (ib_consume n b)" and "ib_readable (ib_consume n b) = drop n (ib_readable b)"
    and "ib_cap (ib_consume n b) = ib_cap b" and "ib_headroom (ib_consume n b) = ib_headroom b"
proof -
  show "ib_wf (ib_consume n b)" using assms by (auto simp: ib_consume_def ib_wf_def Let_def)
  show "ib_cap (ib_consume n b) = ib_cap b" "ib_headroom (ib_consume n b) = ib_headroom b"
    by (simp_all add: ib_consume_def Let_def)
  have len: "length (ib_readable b) = ib_size b" by (rule ib_readable_length [OF assms])
  show "ib_readable (ib_consume n b) = drop n (ib_readable b)"
  proof (cases "ib_size b \<le> n")
    case True
    with len show ?thesis by (simp add: ib_consume_def ib_readable_def Let_def min_def)
  next
    case False
    then show ?thesis
      by (simp add: ib_consume_def ib_readable_def Let_def min_def drop_take add.commute)
  qed
qed

lemma ib_size_readable: "ib_wf b \<Longrightarrow> ib_size b = length (ib_readable b)"
  by (simp add: ib_readable_length)

section \<open>The byte queue interface\<close>

text \<open>
  What a connection relies on: the buffer is a FIFO of bytes whose append cannot fail while the
  queue fits its bound.
\<close>

locale byte_queue =
  fixes content :: "'b \<Rightarrow> byte list"
    and append :: "byte list \<Rightarrow> 'b \<Rightarrow> 'b option"
    and consume :: "nat \<Rightarrow> 'b \<Rightarrow> 'b"
    and inv :: "'b \<Rightarrow> bool"
    and bound :: "'b \<Rightarrow> nat"
  assumes append_ok: "inv b \<Longrightarrow> length (content b) + length bs \<le> bound b \<Longrightarrow>
      \<exists>b'. append bs b = Some b' \<and> inv b' \<and> content b' = content b @ bs \<and> bound b' = bound b"
    and consume_content: "inv b \<Longrightarrow> content (consume n b) = drop n (content b)"
    and consume_inv: "inv b \<Longrightarrow> inv (consume n b)"
    and consume_bound: "bound (consume n b) = bound b"
begin

lemma appendE:
  assumes "inv b" "length (content b) + length bs \<le> bound b"
  obtains b' where "append bs b = Some b'" "inv b'" "content b' = content b @ bs" "bound b' = bound b"
  using append_ok [OF assms] by blast

text \<open>Appending a list of chunks one by one, as a scatter send does.\<close>

lemma append_chunks:
  assumes "inv b" "length (content b) + length (concat bss) \<le> bound b"
  shows "\<exists>b'. fold (\<lambda>bs ob. Option.bind ob (append bs)) bss (Some b) = Some b' \<and>
             inv b' \<and> content b' = content b @ concat bss \<and> bound b' = bound b"
  using assms
proof (induction bss arbitrary: b)
  case Nil
  then show ?case by simp
next
  case (Cons bs bss)
  obtain b1 where b1: "append bs b = Some b1" "inv b1" "content b1 = content b @ bs" "bound b1 = bound b"
    using appendE [of b bs] Cons.prems by auto
  from Cons.IH [of b1] b1 Cons.prems show ?case by simp
qed

end

definition ib_inv :: "io_buffer \<Rightarrow> bool" where
  "ib_inv b \<longleftrightarrow> ib_wf b \<and> ib_cap b < 2 ^ 63"

definition ib_bound :: "io_buffer \<Rightarrow> nat" where
  "ib_bound b = 2 ^ 62 - ib_headroom b"

interpretation iobuf: byte_queue ib_readable ib_append ib_consume ib_inv ib_bound
proof (unfold_locales, goal_cases)
  case (1 b bs)
  then have wf: "ib_wf b" and lim: "ib_limit (length bs) b \<or> ib_headroom b + ib_size b + length bs > 2 ^ 62"
    by (auto simp: ib_inv_def ib_limit_def)
  show ?case
  proof (cases "ib_headroom b \<le> 2 ^ 62")
    case True
    with 1 wf have "ib_limit (length bs) b"
      by (simp add: ib_inv_def ib_limit_def ib_bound_def ib_readable_length)
    from ib_append_spec [OF wf this] show ?thesis by (auto simp: ib_inv_def ib_bound_def)
  next
    case False
    with 1 have "bs = []" "ib_bound b = 0" "ib_size b = 0"
      using ib_readable_length [OF wf] by (simp_all add: ib_bound_def)
    with wf 1 show ?thesis
      by (auto simp: ib_append_def ib_writable_def ib_ensure_writable_def ib_store_def mem_write_def
          ib_commit_def ib_wf_def ib_inv_def ib_readable_def ib_bound_def)
  qed
next
  case (2 b n) then show ?case by (simp add: ib_inv_def ib_consume_spec)
next
  case (3 b n) then show ?case by (simp add: ib_inv_def ib_consume_spec)
next
  case (4 n b) show ?case by (simp add: ib_bound_def ib_consume_def Let_def)
qed

section \<open>Properties\<close>

datatype ib_op = Append "byte list" | Consume nat | Compact | Reserve nat

fun ib_run :: "ib_op list \<Rightarrow> io_buffer \<Rightarrow> io_buffer option" where
  "ib_run [] b = Some b"
| "ib_run (Append bs # ops) b = Option.bind (ib_append bs b) (ib_run ops)"
| "ib_run (Consume n # ops) b = ib_run ops (ib_consume n b)"
| "ib_run (Compact # ops) b = Option.bind (ib_compact b) (ib_run ops)"
| "ib_run (Reserve n # ops) b = Option.bind (ib_reserve n b) (ib_run ops)"

text \<open>The abstract FIFO the buffer implements.\<close>

fun fifo_run :: "ib_op list \<Rightarrow> byte list \<Rightarrow> byte list" where
  "fifo_run [] q = q"
| "fifo_run (Append bs # ops) q = fifo_run ops (q @ bs)"
| "fifo_run (Consume n # ops) q = fifo_run ops (drop n q)"
| "fifo_run (Compact # ops) q = fifo_run ops q"
| "fifo_run (Reserve n # ops) q = fifo_run ops q"

fun ib_ops_fit :: "nat \<Rightarrow> ib_op list \<Rightarrow> byte list \<Rightarrow> bool" where
  "ib_ops_fit hr [] q = True"
| "ib_ops_fit hr (Append bs # ops) q = (hr + length q + length bs \<le> 2 ^ 62 \<and> ib_ops_fit hr ops (q @ bs))"
| "ib_ops_fit hr (Consume n # ops) q = ib_ops_fit hr ops (drop n q)"
| "ib_ops_fit hr (Compact # ops) q = ib_ops_fit hr ops q"
| "ib_ops_fit hr (Reserve n # ops) q = (n \<le> 2 ^ 62 \<and> ib_ops_fit hr ops q)"

lemma ib_reserve_spec:
  assumes "ib_inv b" "n \<le> 2 ^ 62"
  shows "\<exists>b'. ib_reserve n b = Some b' \<and> ib_inv b' \<and> ib_readable b' = ib_readable b \<and>
     ib_headroom b' = ib_headroom b \<and> n \<le> ib_cap b'"
proof (cases "ib_cap b < n")
  case True
  with assms obtain b' where "ib_grow n b = Some b'" "ib_wf b'" "ib_readable b' = ib_readable b"
    "ib_headroom b' = ib_headroom b" "n \<le> ib_cap b'" "ib_cap b' = 2 * ib_cap b \<or> ib_cap b' < 2 * n"
    using ib_grow_spec [of b n] by (auto simp: ib_inv_def ib_wf_def)
  with True assms show ?thesis by (auto simp: ib_reserve_def ib_inv_def)
next
  case False
  with assms show ?thesis by (simp add: ib_reserve_def)
qed

lemma ib_run_fifo:
  assumes "ib_inv b" "ib_ops_fit (ib_headroom b) ops (ib_readable b)"
  shows "\<exists>b'. ib_run ops b = Some b' \<and> ib_inv b' \<and> ib_readable b' = fifo_run ops (ib_readable b)"
  using assms
proof (induction ops arbitrary: b)
  case Nil
  then show ?case by simp
next
  case (Cons op ops)
  have wf: "ib_wf b" using Cons.prems by (simp add: ib_inv_def)
  show ?case
  proof (cases op)
    case (Append bs)
    with Cons.prems have "ib_limit (length bs) b"
      by (simp add: ib_inv_def ib_limit_def ib_readable_length)
    from ib_append_spec [OF wf this] obtain b1 where
      "ib_append bs b = Some b1" "ib_inv b1" "ib_readable b1 = ib_readable b @ bs" "ib_headroom b1 = ib_headroom b"
      by (auto simp: ib_inv_def)
    with Append Cons.IH [of b1] Cons.prems show ?thesis by simp
  next
    case (Consume n)
    with Cons.IH [of "ib_consume n b"] Cons.prems show ?thesis
      by (simp add: ib_inv_def ib_consume_spec)
  next
    case Compact
    from ib_compact_spec [OF wf] obtain b1 where
      "ib_compact b = Some b1" "ib_wf b1" "ib_readable b1 = ib_readable b" "ib_headroom b1 = ib_headroom b" "ib_cap b1 = ib_cap b"
      by blast
    with Compact Cons.IH [of b1] Cons.prems show ?thesis by (simp add: ib_inv_def)
  next
    case (Reserve n)
    with Cons.prems ib_reserve_spec [of b n] obtain b1 where
      "ib_reserve n b = Some b1" "ib_inv b1" "ib_readable b1 = ib_readable b" "ib_headroom b1 = ib_headroom b"
      by auto
    with Reserve Cons.IH [of b1] Cons.prems show ?thesis by simp
  qed
qed

text \<open>
  C16: from a fresh buffer, every sequence of appends, consumes, compactions and reservations
  whose queue stays below the address-space bound runs to the end: no copy leaves its block,
  the growth loop stops, and the readable bytes are those of the abstract FIFO.
\<close>

theorem io_buffer_is_fifo:
  assumes "max cap (hr + 1) < 2 ^ 63" and "ib_ops_fit hr ops []"
  shows "\<exists>b. ib_run ops (ib_new cap hr) = Some b \<and> ib_readable b = fifo_run ops []"
proof -
  have "ib_inv (ib_new cap hr)" using assms(1) by (simp add: ib_inv_def) (simp add: ib_new_def)
  then show ?thesis
    using ib_run_fifo [of "ib_new cap hr" ops] assms(2) by (auto simp: ib_new_def ib_readable_def)
qed

theorem io_buffer_is_fifo_witness:
  "\<exists>b. ib_run [Append [1, 2, 3], Consume 2, Append [4, 5], Compact, Reserve 100] (ib_new 4 2) = Some b \<and>
       ib_readable b = [3, 4, 5]"
  using io_buffer_is_fifo [of 4 2 "[Append [1, 2, 3], Consume 2, Append [4, 5], Compact, Reserve 100]"]
  by simp

lemma ib_prepend_spec:
  assumes wf: "ib_wf b" and cap: "ib_cap b < 2 ^ 63" and fit: "n + ib_headroom b + ib_size b \<le> 2 ^ 62"
  shows "\<exists>off b'. ib_prepend n b = Some (off, b') \<and> length (ib_buf b') = ib_cap b' \<and>
     off = ib_start b' \<and> ib_size b' = n + ib_size b \<and> off + ib_size b' \<le> ib_cap b' \<and>
     take (ib_size b) (drop (off + n) (ib_buf b')) = ib_readable b"
proof (cases "ib_start b < n")
  case False
  with wf show ?thesis by (auto simp: ib_prepend_def ib_wf_def ib_readable_def)
next
  case True
  let ?ns = "max n (ib_headroom b)"
  have ns: "?ns = n" using True wf by (auto simp: ib_wf_def)
  have "\<exists>b1. (if ?ns + ib_size b > ib_cap b then ib_grow (?ns + ib_size b) b else Some b) = Some b1 \<and>
     ib_wf b1 \<and> ib_readable b1 = ib_readable b \<and> ib_size b1 = ib_size b \<and> ?ns + ib_size b \<le> ib_cap b1"
  proof (cases "?ns + ib_size b > ib_cap b")
    case True
    then show ?thesis
      using ib_grow_spec [of b "?ns + ib_size b"] wf cap fit by (auto simp: ib_wf_def ns)
  next
    case False
    with wf show ?thesis by simp
  qed
  then obtain b1 where b1: "(if ?ns + ib_size b > ib_cap b then ib_grow (?ns + ib_size b) b else Some b) = Some b1"
    "ib_wf b1" "ib_readable b1 = ib_readable b" "ib_size b1 = ib_size b" "?ns + ib_size b \<le> ib_cap b1"
    by blast
  have rd: "mem_read (ib_buf b1) (ib_start b1) (ib_size b1) = Some (ib_readable b)"
    using b1 by (auto simp: mem_read_def ib_wf_def ib_readable_def)
  have lr: "length (ib_readable b) = ib_size b" by (rule ib_readable_length [OF wf])
  obtain nb where nb: "mem_write (ib_buf b1) ?ns (ib_readable b) = Some nb"
    using b1 lr by (auto simp: mem_write_def ib_wf_def)
  have "ib_prepend n b = Some (?ns - n, b1\<lparr>ib_buf := nb, ib_start := ?ns - n, ib_size := ib_size b1 + n\<rparr>)"
    using True b1(1) rd nb by (simp add: ib_prepend_def Let_def)
  then show ?thesis
    using b1 ns mem_write_length [OF nb] mem_write_read [OF nb] lr by (auto simp: ib_wf_def)
qed

text \<open>
  \<open>prepend(n)\<close> hands out exactly the \<open>n\<close> bytes in front of the readable region: writing a
  header of \<open>n\<close> bytes there leaves that header followed by the bytes that were readable, and no
  access leaves the block, whether the header fits the headroom, needs a shift, or needs a larger
  block.
\<close>

theorem prepend_puts_header_in_front:
  assumes "ib_wf b" and "ib_cap b < 2 ^ 63" and "length hdr + ib_headroom b + ib_size b \<le> 2 ^ 62"
  shows "\<exists>off b1 b2. ib_prepend (length hdr) b = Some (off, b1) \<and> ib_store off hdr b1 = Some b2 \<and>
     ib_readable b2 = hdr @ ib_readable b"
proof -
  obtain off b1 where b1: "ib_prepend (length hdr) b = Some (off, b1)" "length (ib_buf b1) = ib_cap b1"
    "off = ib_start b1" "ib_size b1 = length hdr + ib_size b" "off + ib_size b1 \<le> ib_cap b1"
    "take (ib_size b) (drop (off + length hdr) (ib_buf b1)) = ib_readable b"
    using ib_prepend_spec [OF assms] by blast
  obtain m where m: "mem_write (ib_buf b1) off hdr = Some m"
    using b1 by (simp add: mem_write_def)
  then have meq: "m = take off (ib_buf b1) @ hdr @ drop (off + length hdr) (ib_buf b1)"
    by (auto simp: mem_write_def split: if_splits)
  have "drop off m = hdr @ drop (off + length hdr) (ib_buf b1)"
    using b1 by (simp add: meq)
  then have "take (length hdr + ib_size b) (drop off m) = hdr @ ib_readable b"
    using b1 by simp
  then show ?thesis using b1 m by (simp add: ib_store_def ib_readable_def)
qed

theorem prepend_puts_header_in_front_witness:
  "\<exists>off b1 b2. ib_prepend (length [9, 8]) (ib_new 8 1) = Some (off, b1) \<and> ib_store off [9, 8] b1 = Some b2 \<and>
     ib_readable b2 = [9, 8]"
proof -
  have "ib_cap (ib_new 8 1) < 2 ^ 63"
    and "length [9 :: byte, 8] + ib_headroom (ib_new 8 1) + ib_size (ib_new 8 1) \<le> 2 ^ 62"
    by (simp_all add: ib_new_def)
  from prepend_puts_header_in_front [OF ib_wf_new this] show ?thesis by simp
qed

text \<open>
  after a \<open>prepend\<close> has moved the readable bytes into the headroom, \<open>compact\<close> still moves them
  back to the headroom boundary. When the block is too full for that, the copy runs past the end
  of the block: asking for more writable space is then an out-of-bounds write.
\<close>

theorem writable_after_prepend_out_of_bounds:
  assumes "length (ib_buf b) = ib_cap b" and "ib_start b < ib_headroom b"
    and "ib_start b + ib_size b \<le> ib_cap b" and "ib_cap b < ib_headroom b + ib_size b"
    and "ib_cap b < ib_start b + ib_size b + n"
  shows "ib_writable n b = None"
proof -
  have rd: "mem_read (ib_buf b) (ib_start b) (ib_size b) = Some (ib_readable b)"
    using assms by (simp add: mem_read_def ib_readable_def)
  have "length (ib_readable b) = ib_size b" using assms by (simp add: ib_readable_def)
  then have "mem_write (ib_buf b) (ib_headroom b) (ib_readable b) = None"
    using assms by (simp add: mem_write_def)
  with rd assms have "ib_compact b = None" by (simp add: ib_compact_def)
  then show ?thesis using assms by (simp add: ib_writable_def ib_ensure_writable_def)
qed

theorem writable_after_prepend_out_of_bounds_witness:
  "\<exists>b off b1. ib_run [Append [1, 2, 3, 4]] (ib_new 8 4) = Some b \<and> ib_prepend 2 b = Some (off, b1) \<and>
     ib_writable 1 b1 = None"
proof -
  let ?b = "\<lparr>ib_cap = 8, ib_buf = [0, 0, 0, 0, 1, 2, 3, 4], ib_headroom = 4, ib_start = 4, ib_size = 4\<rparr>"
  let ?b1 = "\<lparr>ib_cap = 8, ib_buf = [0, 0, 0, 0, 1, 2, 3, 4], ib_headroom = 4, ib_start = 2, ib_size = 6\<rparr>"
  have "ib_run [Append [1, 2, 3, 4]] (ib_new 8 4) = Some ?b"
    by (simp add: ib_append_def ib_writable_def ib_ensure_writable_def ib_store_def mem_write_def
        ib_commit_def ib_new_def numeral_eq_Suc)
  moreover have "ib_prepend 2 ?b = Some (2, ?b1)" by (simp add: ib_prepend_def)
  moreover have "ib_writable 1 ?b1 = None"
    by (rule writable_after_prepend_out_of_bounds) simp_all
  ultimately show ?thesis by blast
qed

end
