(* ===== verification/Work_Context.thy ===== *)
theory Work_Context
  imports Afx_Prelude
begin

unbundle bit_operations_syntax

text \<open>
  The ambient data that follows a work item across hops:
  \<^verbatim>\<open>include/afx/core/context.hpp\<close> (deadline, trace id, stop token, context), the
  scope object \<^verbatim>\<open>ContextScope\<close> and the context part of
  \<^verbatim>\<open>BasicEventManager::spawn\<close> in \<^verbatim>\<open>include/afx/core/event_manager.hpp\<close>.
\<close>

section \<open>Deadlines\<close>

record deadline =
  dl_t :: time_point
  dl_set :: bool

definition dl_none :: deadline where
  "dl_none = \<lparr>dl_t = 0, dl_set = False\<rparr>"

definition dl_at :: "time_point \<Rightarrow> deadline" where
  "dl_at t = \<lparr>dl_t = t, dl_set = True\<rparr>"

text \<open>\<open>Deadline::in\<close> reads the steady clock; the reading is an argument.\<close>

definition dl_in :: "time_point \<Rightarrow> duration \<Rightarrow> deadline" where
  "dl_in clock_now d = \<lparr>dl_t = clock_now + d, dl_set = True\<rparr>"

definition duration_max :: duration where
  "duration_max = 2 ^ 63 - 1"

definition dl_expired :: "deadline \<Rightarrow> time_point \<Rightarrow> bool" where
  "dl_expired d now \<longleftrightarrow> dl_set d \<and> now \<ge> dl_t d"

definition dl_remaining :: "deadline \<Rightarrow> time_point \<Rightarrow> duration" where
  "dl_remaining d now =
     (if \<not> dl_set d then duration_max else if dl_t d > now then dl_t d - now else 0)"

definition earliest_of :: "deadline \<Rightarrow> deadline \<Rightarrow> deadline" where
  "earliest_of d e =
     (if \<not> dl_set d then e else if \<not> dl_set e then d else \<lparr>dl_t = min (dl_t d) (dl_t e), dl_set = True\<rparr>)"

lemma dl_expired_none [simp]: "\<not> dl_expired dl_none now"
  by (simp add: dl_expired_def dl_none_def)

lemma dl_expired_mono: "dl_expired d now \<Longrightarrow> now \<le> now' \<Longrightarrow> dl_expired d now'"
  by (auto simp: dl_expired_def)

lemma dl_remaining_nonneg: "0 \<le> dl_remaining d now"
  by (simp add: dl_remaining_def duration_max_def)

lemma dl_remaining_zero: "dl_remaining d now = 0 \<longleftrightarrow> dl_expired d now"
  by (auto simp: dl_remaining_def dl_expired_def duration_max_def)

lemma earliest_of_expired: "dl_expired (earliest_of d e) now \<longleftrightarrow> dl_expired d now \<or> dl_expired e now"
  by (auto simp: earliest_of_def dl_expired_def)

lemma earliest_of_remaining:
  assumes "dl_set d \<longrightarrow> dl_t d - now \<le> duration_max" "dl_set e \<longrightarrow> dl_t e - now \<le> duration_max"
  shows "dl_remaining (earliest_of d e) now = min (dl_remaining d now) (dl_remaining e now)"
  using assms by (auto simp: earliest_of_def dl_remaining_def duration_max_def)

lemma earliest_of_assoc: "earliest_of (earliest_of a b) c = earliest_of a (earliest_of b c)"
  by (auto simp: earliest_of_def)

section \<open>Trace ids and stop tokens\<close>

record trace_id =
  tr_hi :: u64
  tr_lo :: u64
  tr_span :: u64

definition trace_none :: trace_id where
  "trace_none = \<lparr>tr_hi = 0, tr_lo = 0, tr_span = 0\<rparr>"

definition trace_valid :: "trace_id \<Rightarrow> bool" where
  "trace_valid t \<longleftrightarrow> tr_hi t \<noteq> 0 \<or> tr_lo t \<noteq> 0"

definition trace_short :: "trace_id \<Rightarrow> u64" where
  "trace_short t = tr_hi t XOR tr_lo t"

text \<open>
  A stop token is a shared pointer to a flag; the flags are a map from the address of the
  shared state, so that all copies of a token see a request.
\<close>

type_synonym stop_token = "nat option"
type_synonym stop_flags = "nat \<Rightarrow> bool"

definition stop_requested :: "stop_flags \<Rightarrow> stop_token \<Rightarrow> bool" where
  "stop_requested fl tok = (case tok of None \<Rightarrow> False | Some a \<Rightarrow> fl a)"

definition stop_source_new :: "nat \<Rightarrow> stop_flags \<Rightarrow> stop_flags" where
  "stop_source_new a fl = fl(a := False)"

definition stop_source_token :: "nat \<Rightarrow> stop_token" where
  "stop_source_token a = Some a"

definition stop_source_request :: "nat \<Rightarrow> stop_flags \<Rightarrow> stop_flags" where
  "stop_source_request a fl = fl(a := True)"

section \<open>Context and the ambient slot\<close>

record context_t =
  cx_deadline :: deadline
  cx_trace :: trace_id
  cx_stop :: stop_token
  cx_priority :: u32

definition cx_empty :: context_t where
  "cx_empty = \<lparr>cx_deadline = dl_none, cx_trace = trace_none, cx_stop = None, cx_priority = 0\<rparr>"

text \<open>
  Per thread: the \<open>ctx_\<close> slot of each event manager (by number) and the thread-local pointer
  \<open>tls_ambient\<close>, which is null or points to one of the slots.
\<close>

record ambient =
  am_slot :: "nat \<Rightarrow> context_t"
  am_tls :: "nat option"

definition ambient_context :: "ambient \<Rightarrow> context_t" where
  "ambient_context a = (case am_tls a of None \<Rightarrow> cx_empty | Some e \<Rightarrow> am_slot a e)"

record context_scope =
  sc_slot :: nat
  sc_prev :: context_t
  sc_tls_prev :: "nat option"
  sc_active :: bool

definition with_context :: "nat \<Rightarrow> context_t \<Rightarrow> ambient \<Rightarrow> context_scope \<times> ambient" where
  "with_context e next a =
     (\<lparr>sc_slot = e, sc_prev = am_slot a e, sc_tls_prev = am_tls a, sc_active = True\<rparr>,
      a\<lparr>am_slot := (am_slot a)(e := next), am_tls := Some e\<rparr>)"

definition scope_restore :: "context_scope \<Rightarrow> ambient \<Rightarrow> context_scope \<times> ambient" where
  "scope_restore sc a =
     (if \<not> sc_active sc then (sc, a)
      else (sc\<lparr>sc_active := False\<rparr>,
            a\<lparr>am_slot := (am_slot a)(sc_slot sc := sc_prev sc), am_tls := sc_tls_prev sc\<rparr>))"

text \<open>The coroutine resumer's pair of hooks: the same exchange with the saved pair held by the caller.\<close>

definition coro_push :: "nat \<Rightarrow> context_t \<Rightarrow> ambient \<Rightarrow> (context_t \<times> nat option) \<times> ambient" where
  "coro_push e next a =
     ((am_slot a e, am_tls a), a\<lparr>am_slot := (am_slot a)(e := next), am_tls := Some e\<rparr>)"

definition coro_pop :: "nat \<Rightarrow> context_t \<times> nat option \<Rightarrow> ambient \<Rightarrow> ambient" where
  "coro_pop e save a = a\<lparr>am_slot := (am_slot a)(e := fst save), am_tls := snd save\<rparr>"

text \<open>The context a spawned root task runs under.\<close>

definition spawn_context :: "context_t \<Rightarrow> context_t \<Rightarrow> context_t" where
  "spawn_context amb ctx =
     (let p = ctx;
          p = (if \<not> trace_valid (cx_trace ctx) then p\<lparr>cx_trace := cx_trace amb\<rparr> else p);
          p = p\<lparr>cx_deadline := earliest_of (cx_deadline amb) (cx_deadline ctx)\<rparr>
      in if cx_stop ctx = None then p\<lparr>cx_stop := cx_stop amb\<rparr> else p)"

text \<open>Work items run inside scopes, and scopes nest: a tree of dispatches.\<close>

datatype dispatch = Dispatch nat context_t "dispatch list" | Resume nat context_t "dispatch list"

primrec run_dispatch :: "dispatch \<Rightarrow> ambient \<Rightarrow> ambient"
  and run_dispatches :: "dispatch list \<Rightarrow> ambient \<Rightarrow> ambient" where
  "run_dispatch (Dispatch e c ds) a =
     (let (sc, a1) = with_context e c a in snd (scope_restore sc (run_dispatches ds a1)))"
| "run_dispatch (Resume e c ds) a =
     (let (save, a1) = coro_push e c a in coro_pop e save (run_dispatches ds a1))"
| "run_dispatches [] a = a"
| "run_dispatches (d # ds) a = run_dispatches ds (run_dispatch d a)"

lemma run_dispatches_same: "(\<And>d a. d \<in> set ds \<Longrightarrow> run_dispatch d a = a) \<Longrightarrow> run_dispatches ds a = a"
  by (induction ds arbitrary: a) simp_all

text \<open>
  C33: nested dispatches restore the ambient context exactly. After any tree of work items and
  coroutine resumptions, over any number of event managers on the thread, every context slot and
  the thread-local pointer are what they were before.
\<close>

theorem dispatch_restores_ambient: "run_dispatch d a = a"
proof (induction d arbitrary: a)
  case (Dispatch e c ds)
  then show ?case by (simp add: with_context_def scope_restore_def run_dispatches_same)
next
  case (Resume e c ds)
  then show ?case by (simp add: coro_push_def coro_pop_def run_dispatches_same)
qed

text \<open>
  a hop can only tighten a deadline. Work spawned under an ambient context has expired as soon
  as either the ambient deadline or its own has, never has more time left than either, and keeps
  the ambient trace and stop token unless it brings its own.
\<close>

theorem spawn_context_only_tightens:
  assumes "dl_set (cx_deadline amb) \<longrightarrow> dl_t (cx_deadline amb) - now \<le> duration_max"
    and "dl_set (cx_deadline ctx) \<longrightarrow> dl_t (cx_deadline ctx) - now \<le> duration_max"
  shows "(dl_expired (cx_deadline (spawn_context amb ctx)) now \<longleftrightarrow>
            dl_expired (cx_deadline amb) now \<or> dl_expired (cx_deadline ctx) now) \<and>
         dl_remaining (cx_deadline (spawn_context amb ctx)) now
           = min (dl_remaining (cx_deadline amb) now) (dl_remaining (cx_deadline ctx) now) \<and>
         cx_trace (spawn_context amb ctx) = (if trace_valid (cx_trace ctx) then cx_trace ctx else cx_trace amb) \<and>
         cx_stop (spawn_context amb ctx) = (if cx_stop ctx = None then cx_stop amb else cx_stop ctx) \<and>
         cx_priority (spawn_context amb ctx) = cx_priority ctx"
  using earliest_of_remaining [OF assms]
  by (simp add: spawn_context_def Let_def earliest_of_expired)

theorem spawn_context_only_tightens_witness:
  "dl_remaining (cx_deadline (spawn_context (cx_empty\<lparr>cx_deadline := dl_at 100\<rparr>) (cx_empty\<lparr>cx_deadline := dl_at 50\<rparr>))) 20 = 30"
  using spawn_context_only_tightens [of "cx_empty\<lparr>cx_deadline := dl_at 100\<rparr>" 20 "cx_empty\<lparr>cx_deadline := dl_at 50\<rparr>"]
  by (simp add: dl_at_def dl_remaining_def duration_max_def)

end
