(* ===== verification/Observability.thy ===== *)
theory Observability
  imports Complex_Main Afx_Prelude
begin

unbundle bit_operations_syntax

text \<open>
  Counters, latency histograms and the flight recorder:
  \<^verbatim>\<open>include/afx/core/stats.hpp\<close> and
  \<^verbatim>\<open>include/afx/core/flight_recorder.hpp\<close>. All counters are 64-bit words
  and wrap as the code's do.
\<close>

section \<open>Counters\<close>

record stats =
  st_iterations :: u64
  st_idle_iterations :: u64
  st_spins :: u64
  st_blocks :: u64
  st_wakeups :: u64
  st_accepts :: u64
  st_conns_opened :: u64
  st_conns_closed :: u64
  st_bytes_in :: u64
  st_bytes_out :: u64
  st_msgs_in :: u64
  st_msgs_out :: u64
  st_frame_errors :: u64
  st_write_hwm_hits :: u64
  st_write_drops :: u64
  st_mailbox_pushes :: u64
  st_mailbox_pops :: u64
  st_mailbox_full :: u64
  st_timers_armed :: u64
  st_timers_fired :: u64
  st_timers_cancelled :: u64
  st_timer_coalesced :: u64
  st_groups_cancelled :: u64
  st_deadline_expired_before_start :: u64
  st_deadline_expired_in_flight :: u64
  st_callback_errors :: u64
  st_internal_errors :: u64
  st_coro_spawned :: u64
  st_coro_completed :: u64
  st_coro_heap_frames :: u64

definition stats_zero :: stats where
  "stats_zero = \<lparr>st_iterations = 0, st_idle_iterations = 0, st_spins = 0, st_blocks = 0, st_wakeups = 0,
     st_accepts = 0, st_conns_opened = 0, st_conns_closed = 0, st_bytes_in = 0, st_bytes_out = 0,
     st_msgs_in = 0, st_msgs_out = 0, st_frame_errors = 0, st_write_hwm_hits = 0, st_write_drops = 0,
     st_mailbox_pushes = 0, st_mailbox_pops = 0, st_mailbox_full = 0, st_timers_armed = 0,
     st_timers_fired = 0, st_timers_cancelled = 0, st_timer_coalesced = 0, st_groups_cancelled = 0,
     st_deadline_expired_before_start = 0, st_deadline_expired_in_flight = 0, st_callback_errors = 0,
     st_internal_errors = 0, st_coro_spawned = 0, st_coro_completed = 0, st_coro_heap_frames = 0\<rparr>"

definition idle_ratio :: "stats \<Rightarrow> real" where
  "idle_ratio s = (if st_iterations s \<noteq> 0 then real (unat (st_idle_iterations s)) / real (unat (st_iterations s)) else 0)"

section \<open>Histogram\<close>

record histogram =
  hg_buckets :: "u64 list"
  hg_count :: u64
  hg_total :: u64
  hg_max :: u64
  hg_min :: u64

definition hist_empty :: histogram where
  "hist_empty = \<lparr>hg_buckets = replicate 64 0, hg_count = 0, hg_total = 0, hg_max = 0, hg_min = NOT 0\<rparr>"

text \<open>\<open>63 - clz(v | 1)\<close>: the position of the highest set bit, found by the shifting loop below.\<close>

function top_bit :: "nat \<Rightarrow> nat" where
  "top_bit v = (if v < 2 then 0 else Suc (top_bit (v div 2)))"
  by pat_completeness auto
termination by (relation "measure id") auto

declare top_bit.simps [simp del]

definition hist_bucket :: "u64 \<Rightarrow> nat" where
  "hist_bucket v = top_bit (unat (v OR 1))"

definition hist_record :: "u64 \<Rightarrow> histogram \<Rightarrow> histogram" where
  "hist_record v h =
     (let b = hist_bucket v
      in h\<lparr>hg_buckets := (hg_buckets h)[b := hg_buckets h ! b + 1],
           hg_count := hg_count h + 1,
           hg_total := hg_total h + v,
           hg_max := (if v > hg_max h then v else hg_max h),
           hg_min := (if v < hg_min h then v else hg_min h)\<rparr>)"

definition hist_max :: "histogram \<Rightarrow> u64" where
  "hist_max h = (if hg_count h \<noteq> 0 then hg_max h else 0)"

definition hist_min :: "histogram \<Rightarrow> u64" where
  "hist_min h = (if hg_count h \<noteq> 0 then hg_min h else 0)"

text \<open>
  \<open>percentile\<close> with the rank \<open>need\<close> already computed: the code's
  \<^verbatim>\<open>uint64_t(p * count_) + 1\<close> is floating-point arithmetic on the caller's fraction.
\<close>

fun hist_scan :: "u64 list \<Rightarrow> nat \<Rightarrow> u64 \<Rightarrow> u64 \<Rightarrow> u64 option" where
  "hist_scan [] b cum need = None"
| "hist_scan (c # cs) b cum need =
     (if cum + c \<ge> need then Some (push_bit b 1) else hist_scan cs (Suc b) (cum + c) need)"

definition hist_percentile :: "u64 \<Rightarrow> histogram \<Rightarrow> u64" where
  "hist_percentile need h =
     (if hg_count h = 0 then 0
      else (case hist_scan (hg_buckets h) 0 0 need of Some v \<Rightarrow> v | None \<Rightarrow> hg_max h))"

definition hist_reset :: "histogram \<Rightarrow> histogram" where
  "hist_reset h = h\<lparr>hg_buckets := replicate 64 0, hg_count := 0, hg_total := 0, hg_max := 0, hg_min := NOT 0\<rparr>"

definition bucket_sums :: "u64 list \<Rightarrow> u64 list \<Rightarrow> u64 list" where
  "bucket_sums bs cs = map (\<lambda>b. bs ! b + cs ! b) [0..<64]"

definition hist_merge :: "histogram \<Rightarrow> histogram \<Rightarrow> histogram" where
  "hist_merge h o2 =
     h\<lparr>hg_buckets := bucket_sums (hg_buckets h) (hg_buckets o2),
       hg_count := hg_count h + hg_count o2,
       hg_total := hg_total h + hg_total o2,
       hg_max := (if hg_max o2 > hg_max h then hg_max o2 else hg_max h),
       hg_min := (if hg_min o2 < hg_min h then hg_min o2 else hg_min h)\<rparr>"

definition hist_of :: "u64 list \<Rightarrow> histogram" where
  "hist_of vs = fold hist_record vs hist_empty"

lemma top_bit_bounds: "0 < v \<Longrightarrow> 2 ^ top_bit v \<le> v \<and> v < 2 ^ Suc (top_bit v)"
proof (induction v rule: top_bit.induct)
  case (1 v)
  show ?case
  proof (cases "v < 2")
    case True
    with 1 show ?thesis by (simp add: top_bit.simps [of v])
  next
    case False
    with 1 have "2 ^ top_bit (v div 2) \<le> v div 2 \<and> v div 2 < 2 ^ Suc (top_bit (v div 2))" by simp
    with False show ?thesis by (auto simp: top_bit.simps [of v])
  qed
qed

lemma unat_or_one_pos: "0 < unat (v OR (1 :: u64))"
proof -
  have "bit (v OR 1) 0" by (simp add: bit_or_iff)
  then have "v OR 1 \<noteq> 0" by (metis bit_0_eq bot_apply bot_bool_def)
  then show ?thesis by (simp add: unat_gt_0)
qed

lemma hist_bucket_lt: "hist_bucket v < 64"
proof -
  have "2 ^ hist_bucket v \<le> unat (v OR 1)"
    using top_bit_bounds [OF unat_or_one_pos] by (simp add: hist_bucket_def)
  also have "\<dots> < 2 ^ 64" using unsigned_less [of "v OR 1"] by simp
  finally show ?thesis by (simp only: power_strict_increasing_iff)
qed

lemma hist_record_fields [simp]:
  "hg_count (hist_record v h) = hg_count h + 1"
  "hg_total (hist_record v h) = hg_total h + v"
  "hg_buckets (hist_record v h) = (hg_buckets h)[hist_bucket v := hg_buckets h ! hist_bucket v + 1]"
  "hg_max (hist_record v h) = max (hg_max h) v" "hg_min (hist_record v h) = min (hg_min h) v"
  by (auto simp: hist_record_def Let_def max_def min_def)

lemma hist_merge_fields [simp]:
  "hg_count (hist_merge h k) = hg_count h + hg_count k"
  "hg_total (hist_merge h k) = hg_total h + hg_total k"
  "hg_buckets (hist_merge h k) = bucket_sums (hg_buckets h) (hg_buckets k)"
  "hg_max (hist_merge h k) = max (hg_max h) (hg_max k)" "hg_min (hist_merge h k) = min (hg_min h) (hg_min k)"
  by (auto simp: hist_merge_def max_def min_def)

lemma hist_record_merge:
  assumes "length (hg_buckets h) = 64" "length (hg_buckets k) = 64"
  shows "hist_record v (hist_merge h k) = hist_merge h (hist_record v k)"
proof -
  have b: "hist_bucket v < 64" by (rule hist_bucket_lt)
  have "(bucket_sums (hg_buckets h) (hg_buckets k))
          [hist_bucket v := bucket_sums (hg_buckets h) (hg_buckets k) ! hist_bucket v + 1]
      = bucket_sums (hg_buckets h) ((hg_buckets k)[hist_bucket v := hg_buckets k ! hist_bucket v + 1])"
    unfolding bucket_sums_def
    by (rule nth_equalityI) (use assms b in \<open>simp_all add: nth_list_update del: upt_rec_numeral\<close>)
  then show ?thesis by (intro histogram.equality) (simp_all add: add.assoc max.assoc min.assoc)
qed

lemma hist_of_length [simp]: "length (hg_buckets (fold hist_record vs h)) = length (hg_buckets h)"
  by (induction vs arbitrary: h) simp_all

lemma hist_merge_empty: "length (hg_buckets h) = 64 \<Longrightarrow> hist_merge h hist_empty = h"
proof -
  assume l: "length (hg_buckets h) = 64"
  then have "bucket_sums (hg_buckets h) (replicate 64 0) = hg_buckets h"
    unfolding bucket_sums_def by (intro nth_equalityI) (simp_all del: upt_rec_numeral)
  moreover have "\<not> hg_min h > NOT 0" by (simp add: not_less)
  ultimately show ?thesis by (simp add: hist_merge_def hist_empty_def)
qed

lemma fold_record_merge:
  "length (hg_buckets h) = 64 \<Longrightarrow> length (hg_buckets k) = 64 \<Longrightarrow>
   fold hist_record vs (hist_merge h k) = hist_merge h (fold hist_record vs k)"
  by (induction vs arbitrary: k) (simp_all add: hist_record_merge)

text \<open>
  merging per-shard histograms loses nothing: the merge of the histograms of two sequences of
  measurements is the histogram of the concatenated sequence, in every field.
\<close>

theorem histogram_merge_concat: "hist_merge (hist_of xs) (hist_of ys) = hist_of (xs @ ys)"
proof -
  have l: "length (hg_buckets (hist_of xs)) = 64" by (simp add: hist_of_def) (simp add: hist_empty_def)
  have "hist_of (xs @ ys) = fold hist_record ys (hist_of xs)" by (simp add: hist_of_def)
  also have "\<dots> = fold hist_record ys (hist_merge (hist_of xs) hist_empty)"
    by (simp add: hist_merge_empty [OF l])
  also have "\<dots> = hist_merge (hist_of xs) (hist_of ys)"
    using l fold_record_merge [of "hist_of xs" hist_empty ys] by (simp add: hist_of_def hist_empty_def)
  finally show ?thesis by simp
qed

lemma unat_or_one_div2: "unat (v OR (1 :: u64)) div 2 = unat v div 2"
proof -
  have "drop_bit 1 (v OR 1) = drop_bit 1 v"
    by (rule bit_eqI) (simp add: bit_drop_bit_eq bit_or_iff bit_1_iff)
  then have "unat ((v OR 1) div 2) = unat (v div 2)" by (simp only: drop_bit_eq_div power_one_right)
  then show ?thesis by (simp only: unat_div_distrib unat_numeral) simp
qed

lemma hist_bucket_le: "hist_bucket v \<le> b \<longleftrightarrow> unat v < 2 ^ Suc b"
proof -
  let ?x = "unat (v OR 1)"
  have x: "2 ^ hist_bucket v \<le> ?x" "?x < 2 ^ Suc (hist_bucket v)"
    using top_bit_bounds [OF unat_or_one_pos [of v]] by (simp_all add: hist_bucket_def)
  have "hist_bucket v \<le> b \<longleftrightarrow> ?x < 2 ^ Suc b"
  proof
    assume "hist_bucket v \<le> b"
    then have "(2 :: nat) ^ Suc (hist_bucket v) \<le> 2 ^ Suc b" by (intro power_increasing) simp_all
    with x show "?x < 2 ^ Suc b" by (meson less_le_trans)
  next
    assume "?x < 2 ^ Suc b"
    with x have "(2 :: nat) ^ hist_bucket v < 2 ^ Suc b" by simp
    then show "hist_bucket v \<le> b" by (simp only: power_strict_increasing_iff less_Suc_eq_le)
  qed
  also have "\<dots> \<longleftrightarrow> ?x div 2 < 2 ^ b" by (simp add: div_less_iff_less_mult mult.commute)
  also have "\<dots> \<longleftrightarrow> unat v < 2 ^ Suc b"
    by (simp add: unat_or_one_div2 div_less_iff_less_mult mult.commute)
  finally show ?thesis .
qed

definition count_below :: "nat \<Rightarrow> u64 list \<Rightarrow> nat" where
  "count_below n vs = length (filter (\<lambda>v. unat v < n) vs)"

lemma count_below_le: "count_below n vs \<le> length vs"
  by (simp add: count_below_def)

definition bucket_count :: "nat \<Rightarrow> u64 list \<Rightarrow> nat" where
  "bucket_count b vs = length (filter (\<lambda>v. hist_bucket v = b) vs)"

lemma fold_record_bucket:
  "length (hg_buckets h) = 64 \<Longrightarrow> b < 64 \<Longrightarrow>
   hg_buckets (fold hist_record vs h) ! b = hg_buckets h ! b + of_nat (bucket_count b vs)"
proof (induction vs arbitrary: h)
  case Nil
  then show ?case by (simp add: bucket_count_def)
next
  case (Cons v vs)
  have "hg_buckets (fold hist_record (v # vs) h) ! b = hg_buckets (hist_record v h) ! b + of_nat (bucket_count b vs)"
    using Cons by simp
  also have "hg_buckets (hist_record v h) ! b = hg_buckets h ! b + (if hist_bucket v = b then 1 else 0)"
    using Cons.prems hist_bucket_lt [of v] by (auto simp: nth_list_update)
  finally show ?case by (simp add: bucket_count_def add.assoc)
qed

lemma count_below_Suc:
  "count_below (2 ^ Suc b) vs = (if b = 0 then 0 else count_below (2 ^ b) vs) + bucket_count b vs"
proof -
  have b: "unat v < 2 ^ Suc b \<longleftrightarrow> (b \<noteq> 0 \<and> unat v < 2 ^ b) \<or> hist_bucket v = b" for v
  proof (cases b)
    case 0
    then show ?thesis using hist_bucket_le [of v 0] by auto
  next
    case (Suc c)
    then show ?thesis using hist_bucket_le [of v b] hist_bucket_le [of v c] by auto
  qed
  have d: "\<not> (b \<noteq> 0 \<and> unat v < 2 ^ b \<and> hist_bucket v = b)" for v
    using hist_bucket_le [of v "b - 1"] by (cases b) auto
  show ?thesis
  proof (induction vs)
    case Nil
    then show ?case by (simp add: count_below_def bucket_count_def)
  next
    case (Cons v vs)
    then show ?case using b [of v] d [of v] by (auto simp: count_below_def bucket_count_def)
  qed
qed

lemma hist_scan_spec:
  assumes "b + length cs = 64" "\<And>i. i < length cs \<Longrightarrow> cs ! i = of_nat (bucket_count (b + i) vs)"
    and "length vs < 2 ^ 64" "unat need \<le> length vs"
    and "cum = of_nat (if b = 0 then 0 else count_below (2 ^ b) vs)"
    and "(if b = 0 then 0 else count_below (2 ^ b) vs) < unat need"
  shows "\<exists>k < 64. hist_scan cs b cum need = Some (push_bit k 1) \<and>
      (if k = 0 then 0 else count_below (2 ^ k) vs) < unat need \<and> unat need \<le> count_below (2 ^ Suc k) vs"
  using assms
proof (induction cs arbitrary: b cum)
  case Nil
  have "count_below (2 ^ 64) vs = length vs"
  proof -
    have "unat v < 2 ^ 64" for v :: u64 using unsigned_less [of v, where ?'a = nat] by simp
    then have "filter (\<lambda>v :: u64. unat v < 2 ^ 64) vs = vs" by (intro filter_True) simp
    then show ?thesis by (simp add: count_below_def)
  qed
  with Nil show ?case by simp
next
  case (Cons c cs)
  have c: "c = of_nat (bucket_count b vs)" using Cons.prems(2) [of 0] by simp
  have sum: "cum + c = of_nat (count_below (2 ^ Suc b) vs)"
    using Cons.prems(5) c by (simp only: count_below_Suc of_nat_add)
  have "count_below (2 ^ Suc b) vs < 2 ^ 64"
    using Cons.prems(3) count_below_le [of "2 ^ Suc b" vs] by simp
  then have un: "unat (cum + c) = count_below (2 ^ Suc b) vs"
    using sum by (simp add: unat_of_nat take_bit_nat_eq_self)
  show ?case
  proof (cases "cum + c \<ge> need")
    case True
    with un have "unat need \<le> count_below (2 ^ Suc b) vs" by (simp add: word_le_nat_alt)
    with True Cons.prems show ?thesis by (intro exI [of _ b]) auto
  next
    case False
    with un have lt: "count_below (2 ^ Suc b) vs < unat need" by (simp add: word_le_nat_alt)
    have "\<exists>k < 64. hist_scan cs (Suc b) (cum + c) need = Some (push_bit k 1) \<and>
      (if k = 0 then 0 else count_below (2 ^ k) vs) < unat need \<and> unat need \<le> count_below (2 ^ Suc k) vs"
    proof (rule Cons.IH)
      show "cs ! i = of_nat (bucket_count (Suc b + i) vs)" if "i < length cs" for i
        using Cons.prems(2) [of "Suc i"] that by simp
    qed (use Cons.prems lt sum in simp_all)
    with False show ?thesis by auto
  qed
qed

text \<open>
  the reported percentile is the floor of the bucket holding the sample of that rank. For a
  rank \<open>need\<close> between 1 and the number of samples, the result is \<open>2 ^ k\<close> where fewer than
  \<open>need\<close> samples are below \<open>2 ^ k\<close> and at least \<open>need\<close> are below \<open>2 ^ (k + 1)\<close> (in bucket
  0, the samples 0 and 1).
\<close>

theorem percentile_brackets_rank:
  assumes "length vs < 2 ^ 64" and "0 < need" and "unat need \<le> length vs"
  shows "\<exists>k < 64. hist_percentile need (hist_of vs) = 2 ^ k \<and>
     (if k = 0 then 0 else count_below (2 ^ k) vs) < unat need \<and> unat need \<le> count_below (2 ^ Suc k) vs"
proof -
  have l: "length (hg_buckets (hist_of vs)) = 64" by (simp add: hist_of_def) (simp add: hist_empty_def)
  have bk: "hg_buckets (hist_of vs) ! i = of_nat (bucket_count i vs)" if "i < 64" for i
    using fold_record_bucket [of hist_empty i vs] that by (simp add: hist_of_def hist_empty_def)
  have cnt: "hg_count (hist_of vs) = of_nat (length vs)"
  proof -
    have "hg_count (fold hist_record vs h) = hg_count h + of_nat (length vs)" for h
      by (induction vs arbitrary: h) simp_all
    then show ?thesis by (simp add: hist_of_def hist_empty_def)
  qed
  have pos: "0 < unat need" using assms(2) by (simp add: word_less_nat_alt)
  have "unat (of_nat (length vs) :: u64) = length vs"
    using assms(1) by (simp add: unat_of_nat take_bit_nat_eq_self)
  with pos assms(3) have ne: "(of_nat (length vs) :: u64) \<noteq> 0" by (metis le_zero_eq not_less unat_0)
  have "\<exists>k < 64. hist_scan (hg_buckets (hist_of vs)) 0 0 need = Some (push_bit k 1) \<and>
    (if k = 0 then 0 else count_below (2 ^ k) vs) < unat need \<and> unat need \<le> count_below (2 ^ Suc k) vs"
    by (rule hist_scan_spec) (use l bk assms pos in simp_all)
  then obtain k where k: "k < 64" "hist_scan (hg_buckets (hist_of vs)) 0 0 need = Some (push_bit k 1)"
    "(if k = 0 then 0 else count_below (2 ^ k) vs) < unat need" "unat need \<le> count_below (2 ^ Suc k) vs"
    by blast
  then have "hist_percentile need (hist_of vs) = 2 ^ k"
    using cnt ne by (simp add: hist_percentile_def push_bit_eq_mult)
  with k show ?thesis by (intro exI [of _ k]) (simp only: simp_thms)
qed

theorem percentile_brackets_rank_witness:
  "\<exists>k < 64. hist_percentile 2 (hist_of [5, 100, 7]) = 2 ^ k \<and>
     (if k = 0 then 0 else count_below (2 ^ k) [5, 100, 7]) < unat (2 :: u64) \<and>
     unat (2 :: u64) \<le> count_below (2 ^ Suc k) [5, 100, 7]"
  by (rule percentile_brackets_rank) simp_all

section \<open>Flight recorder\<close>

datatype event_kind =
    EvAccept | EvRecv | EvFrame | EvSend | EvTimerFire | EvStateChange | EvItcPost | EvItcRun
  | EvWakeup | EvBackpressure | EvDrop | EvDeadlineExpired | EvCallbackError | EvUser

record flight_record =
  fl_tsc :: u64
  fl_kind :: event_kind
  fl_handle :: u32
  fl_a :: u32
  fl_b :: u32
  fl_trace :: u64

definition fl_capacity :: nat where
  "fl_capacity = 4096"

record flight_recorder =
  fr_ring :: "nat \<Rightarrow> flight_record"
  fr_head :: u64

definition fr_new :: flight_recorder where
  "fr_new = \<lparr>fr_ring = (\<lambda>_. \<lparr>fl_tsc = 0, fl_kind = EvAccept, fl_handle = 0, fl_a = 0, fl_b = 0, fl_trace = 0\<rparr>), fr_head = 0\<rparr>"

text \<open>\<open>record\<close> in a build with the recorder enabled; the time stamp is an argument.\<close>

definition fr_record :: "flight_record \<Rightarrow> flight_recorder \<Rightarrow> flight_recorder" where
  "fr_record r fr =
     fr\<lparr>fr_ring := (fr_ring fr)(unat (fr_head fr AND 4095) := r), fr_head := fr_head fr + 1\<rparr>"

definition fr_size :: "flight_recorder \<Rightarrow> nat" where
  "fr_size fr = (if unat (fr_head fr) < fl_capacity then unat (fr_head fr) else fl_capacity)"

text \<open>The records \<open>dump\<close> writes, and the window \<open>snapshot\<close> copies into \<open>cap\<close> entries.\<close>

definition fr_window :: "u64 \<Rightarrow> flight_recorder \<Rightarrow> flight_record list" where
  "fr_window n fr =
     map (\<lambda>i. fr_ring fr (unat ((fr_head fr - n + of_nat i) AND 4095))) [0..<unat n]"

definition fr_dump :: "flight_recorder \<Rightarrow> flight_record list" where
  "fr_dump fr = fr_window (if unat (fr_head fr) < fl_capacity then fr_head fr else 4096) fr"

definition fr_snapshot :: "nat \<Rightarrow> flight_recorder \<Rightarrow> flight_record list" where
  "fr_snapshot cap fr =
     (let n = (if unat (fr_head fr) < fl_capacity then fr_head fr else 4096);
          n = (if unat n > cap then of_nat cap else n)
      in fr_window n fr)"

lemma and_mask_4095: "unat (x AND (4095 :: u64)) = unat x mod 4096"
proof -
  have "(4095 :: u64) = mask 12" by (simp add: mask_eq_exp_minus_1)
  then have "x AND 4095 = take_bit 12 x" by (simp only: take_bit_eq_mask)
  then have "x AND 4095 = x mod 4096" by (simp add: take_bit_eq_mod)
  then show ?thesis by (simp add: unat_mod_distrib del: take_bit_eq_mod)
qed

lemma fr_record_run:
  assumes "unat (fr_head fr) + length rs < 2 ^ 64"
  shows "unat (fr_head (fold fr_record rs fr)) = unat (fr_head fr) + length rs \<and>
    (\<forall>i < length rs. length rs \<le> i + 4096 \<longrightarrow>
        fr_ring (fold fr_record rs fr) ((unat (fr_head fr) + i) mod 4096) = rs ! i)"
  using assms
proof (induction rs rule: rev_induct)
  case Nil
  then show ?case by simp
next
  case (snoc r rs)
  let ?f = "fold fr_record rs fr"
  from snoc have IH: "unat (fr_head ?f) = unat (fr_head fr) + length rs"
    "\<And>i. i < length rs \<Longrightarrow> length rs \<le> i + 4096 \<Longrightarrow> fr_ring ?f ((unat (fr_head fr) + i) mod 4096) = rs ! i"
    by simp_all
  have h: "unat (fr_head ?f + 1) = unat (fr_head ?f) + 1"
    using IH(1) snoc.prems by (simp add: unat_word_ariths)
  have ring: "fr_ring (fr_record r ?f) ((unat (fr_head fr) + i) mod 4096) = (rs @ [r]) ! i"
    if i: "i < Suc (length rs)" "Suc (length rs) \<le> i + 4096" for i
  proof (cases "i = length rs")
    case True
    then show ?thesis using IH(1) by (simp add: fr_record_def and_mask_4095)
  next
    case False
    with i have lt: "i < length rs" by simp
    have "(unat (fr_head fr) + i) mod 4096 \<noteq> (unat (fr_head fr) + length rs) mod 4096"
    proof
      assume "(unat (fr_head fr) + i) mod 4096 = (unat (fr_head fr) + length rs) mod 4096"
      then have "4096 dvd length rs - i" using lt
        by (metis add_diff_cancel_left less_imp_le mod_eq_dvd_iff_nat nat_add_left_cancel_le)
      with lt i show False by (auto dest: dvd_imp_le)
    qed
    with lt i IH show ?thesis by (simp add: fr_record_def and_mask_4095 nth_append)
  qed
  have hd: "fr_head (fr_record r ?f) = fr_head ?f + 1" by (simp add: fr_record_def)
  show ?case using IH(1) h ring by (simp add: hd)
qed

text \<open>
  the flight recorder keeps the most recent events in order. After \<open>rs\<close> has been recorded
  from a fresh recorder, \<open>snapshot\<close> returns the last \<open>min cap (min 4096 (length rs))\<close> of them,
  oldest first, however often the ring has wrapped.
\<close>

theorem snapshot_returns_latest_in_order:
  assumes "length rs < 2 ^ 64" and "fr_head fr = 0" and "cap < 2 ^ 64"
  shows "fr_snapshot cap (fold fr_record rs fr) = drop (length rs - min cap (min 4096 (length rs))) rs"
proof -
  let ?f = "fold fr_record rs fr" and ?n = "min cap (min 4096 (length rs))"
  have H: "unat (fr_head ?f) = length rs"
    "\<And>i. i < length rs \<Longrightarrow> length rs \<le> i + 4096 \<Longrightarrow> fr_ring ?f (i mod 4096) = rs ! i"
    using fr_record_run [of fr rs] assms by simp_all
  have H0: "fr_head ?f = of_nat (length rs)" using H(1) by (metis of_nat_unat ucast_id)
  have snap: "fr_snapshot cap ?f = fr_window (of_nat ?n) ?f"
    using H(1) assms H0 by (auto simp: fr_snapshot_def fl_capacity_def Let_def min_def)
  have n: "unat (of_nat ?n :: u64) = ?n"
    using assms by (simp add: unat_of_nat take_bit_nat_eq_self min_def)
  have idx: "unat (fr_head ?f - of_nat ?n + of_nat i) = length rs - ?n + i" if "i < ?n" for i
  proof -
    have "unat (fr_head ?f - of_nat ?n) = length rs - ?n"
      using H(1) n by (subst unat_sub) (simp_all add: word_le_nat_alt)
    moreover have "unat (of_nat i :: u64) = i" using that assms by (simp add: unat_of_nat take_bit_nat_eq_self)
    moreover have "?n \<le> length rs" by simp
    then have "length rs - ?n + i < 2 ^ 64" using that assms(1) by linarith
    ultimately show ?thesis by (simp only: unat_add_u64)
  qed
  show ?thesis
  proof (rule nth_equalityI)
    show "length (fr_snapshot cap ?f) = length (drop (length rs - ?n) rs)"
      using snap n by (simp add: fr_window_def)
    fix i assume "i < length (fr_snapshot cap ?f)"
    with snap n have i: "i < ?n" by (simp add: fr_window_def)
    have "fr_snapshot cap ?f ! i = fr_ring ?f ((length rs - ?n + i) mod 4096)"
      using snap n i idx [OF i] by (simp add: fr_window_def and_mask_4095)
    also have "\<dots> = rs ! (length rs - ?n + i)" using i by (intro H(2)) auto
    finally show "fr_snapshot cap ?f ! i = drop (length rs - ?n) rs ! i" using i by simp
  qed
qed

definition sample_record :: "u64 \<Rightarrow> flight_record" where
  "sample_record t = \<lparr>fl_tsc = t, fl_kind = EvUser, fl_handle = 0, fl_a = 0, fl_b = 0, fl_trace = 0\<rparr>"

theorem snapshot_returns_latest_in_order_witness:
  "fr_snapshot 2 (fold fr_record [sample_record 1, sample_record 2, sample_record 3]
     \<lparr>fr_ring = (\<lambda>_. sample_record 0), fr_head = 0\<rparr>) = [sample_record 2, sample_record 3]"
  by (subst snapshot_returns_latest_in_order) simp_all

end
