(* ===== verification/Timer_Wheel.thy ===== *)
theory Timer_Wheel
  imports Afx_Prelude Work_Context Handle_Table "HOL-Library.Signed_Division" "HOL-Library.Monad_Syntax"
    "HOL-Library.Sublist"
begin

text \<open>
  The hierarchical timer wheel of \<^verbatim>\<open>include/afx/core/timer_wheel.hpp\<close>: four levels of 256
  buckets. A node is named by a number (its slot in the event manager's timer table) and its fields
  are in the store \<open>wh_node\<close>. A bucket, in the code a circular list through the nodes, is the list
  of its nodes in order (\<^verbatim>\<open>Intrusive_List\<close> relates the two), and a node's
  \<open>tn_linked\<close> says that its \<open>bucket_next\<close> is not null. The wheel is an extensible record: the event
  manager's state extends it, and \<open>fire\<close>, the callback \<open>advance\<close> runs on a due node, may change all
  of it. Ticks are natural numbers; at one tick per millisecond \<open>2 ^ 64\<close> of them are half a
  billion years.
\<close>

section \<open>Nodes\<close>

datatype repeat_mode = FixedRate | FixedDelay

record timer_node =
  tn_expiry :: time_point
  tn_expiry_tick :: nat
  tn_period :: duration
  tn_mode :: repeat_mode
  tn_fn :: nat
  tn_linked :: bool
  tn_group :: handle
  tn_ctx :: context_t
  tn_id :: handle
  tn_cancelled :: bool
  tn_in_heap :: bool
  tn_precise :: bool
  tn_heap_idx :: nat

section \<open>The wheel\<close>

record wheel =
  wh_node :: "nat \<Rightarrow> timer_node"
  wh_tick :: nanos
  wh_now :: nat
  wh_primed :: bool
  wh_count :: nat
  wh_max_ticks :: nat
  wh_bucket :: "nat \<Rightarrow> nat \<Rightarrow> nat list"

abbreviation etick :: "'a wheel_scheme \<Rightarrow> nat \<Rightarrow> nat" where
  "etick w n \<equiv> tn_expiry_tick (wh_node w n)"

abbreviation linked :: "'a wheel_scheme \<Rightarrow> nat \<Rightarrow> bool" where
  "linked w n \<equiv> tn_linked (wh_node w n)"

definition wh_new :: "nanos \<Rightarrow> (nat \<Rightarrow> timer_node) \<Rightarrow> 'a \<Rightarrow> 'a wheel_scheme" where
  "wh_new tk nodes x = \<lparr>wh_node = nodes, wh_tick = tk, wh_now = 0, wh_primed = False, wh_count = 0,
     wh_max_ticks = 4096, wh_bucket = (\<lambda>_ _. []), \<dots> = x\<rparr>"

text \<open>Rounding of time points to ticks; the quotient is C++'s, the result a \<open>uint64_t\<close>.\<close>

definition tick_of :: "nanos \<Rightarrow> time_point \<Rightarrow> nat" where
  "tick_of tk t = nat (((t + tk - 1) sdiv tk) mod 2 ^ 64)"

definition floor_tick :: "nanos \<Rightarrow> time_point \<Rightarrow> nat" where
  "floor_tick tk t = nat ((t sdiv tk) mod 2 ^ 64)"

definition wh_fits :: "nat \<Rightarrow> nat \<Rightarrow> bool" where
  "wh_fits expiry_tick now_tick =
     (if expiry_tick \<le> now_tick then True
      else ((\<lambda>d. d div 256) ^^ 4) (expiry_tick - now_tick) = 0)"

text \<open>The level loop: how often the distance can be shifted right by 8 before it is below 256.\<close>

fun level_of :: "nat \<Rightarrow> nat" where
  "level_of d = (if d < 256 then 0 else Suc (level_of (d div 256)))"

declare level_of.simps [simp del]

definition wh_slot :: "nat \<Rightarrow> nat \<Rightarrow> nat" where
  "wh_slot et l = (et div 256 ^ l) mod 256"

definition wh_insert_node :: "nat \<Rightarrow> nat \<Rightarrow> nat \<Rightarrow> 'a wheel_scheme \<Rightarrow> 'a wheel_scheme" where
  "wh_insert_node n et now_tick w =
     (let l = level_of (et - now_tick); s = wh_slot et l
      in w\<lparr>wh_node := (wh_node w)(n := (wh_node w n)\<lparr>tn_linked := True\<rparr>),
           wh_bucket := (wh_bucket w)(l := (wh_bucket w l)(s := wh_bucket w l s @ [n])),
           wh_count := wh_count w + 1\<rparr>)"

definition wh_insert :: "nat \<Rightarrow> nat \<Rightarrow> 'a wheel_scheme \<Rightarrow> 'a wheel_scheme" where
  "wh_insert n now_tick w =
     wh_insert_node n (if etick w n > now_tick then etick w n else now_tick + 1) now_tick w"

text \<open>\<open>list_unlink\<close> and the count; the node is in at most one bucket.\<close>

definition wh_detach :: "nat \<Rightarrow> 'a wheel_scheme \<Rightarrow> 'a wheel_scheme" where
  "wh_detach n w =
     w\<lparr>wh_node := (wh_node w)(n := (wh_node w n)\<lparr>tn_linked := False\<rparr>),
       wh_bucket := (\<lambda>l s. remove1 n (wh_bucket w l s)),
       wh_count := wh_count w - 1\<rparr>"

definition wh_unlink :: "nat \<Rightarrow> 'a wheel_scheme \<Rightarrow> 'a wheel_scheme" where
  "wh_unlink n w = (if linked w n then wh_detach n w else w)"

definition wh_cascade_node :: "nat \<Rightarrow> nat \<Rightarrow> nat \<Rightarrow> 'a wheel_scheme \<Rightarrow> 'a wheel_scheme" where
  "wh_cascade_node level home n w =
     (let et = (if etick w n > wh_now w then etick w n else wh_now w);
          lvl = level_of (et - wh_now w);
          dst = wh_slot et lvl
      in if lvl \<noteq> level \<or> dst \<noteq> home then wh_insert_node n et (wh_now w) (wh_detach n w) else w)"

definition wh_cascade :: "nat \<Rightarrow> 'a wheel_scheme \<Rightarrow> 'a wheel_scheme" where
  "wh_cascade level w =
     (let home = wh_slot (wh_now w) level
      in fold (wh_cascade_node level home) (wh_bucket w level home) w)"

partial_function (option) wh_expire_slot ::
  "(nat \<Rightarrow> 'a wheel_scheme \<Rightarrow> 'a wheel_scheme option) \<Rightarrow> nat \<Rightarrow> 'a wheel_scheme \<Rightarrow> 'a wheel_scheme option" where
  "wh_expire_slot fire slot w =
     (case wh_bucket w 0 slot of
        [] \<Rightarrow> Some w
      | n # _ \<Rightarrow>
          (let w1 = wh_detach n w
           in if etick w1 n > wh_now w1 then wh_expire_slot fire slot (wh_insert n (wh_now w1) w1)
              else Option.bind (fire n w1) (wh_expire_slot fire slot)))"

text \<open>All queued nodes, level by level and slot by slot, in the order \<open>prime\<close> collects them.\<close>

definition wh_all_nodes :: "'a wheel_scheme \<Rightarrow> nat list" where
  "wh_all_nodes w = concat (map (\<lambda>(l, s). wh_bucket w l s) (List.product [0..<4] [0..<256]))"

definition wh_prime :: "nat \<Rightarrow> 'a wheel_scheme \<Rightarrow> 'a wheel_scheme" where
  "wh_prime target w =
     (let hold = wh_all_nodes w;
          w1 = (fold wh_detach hold w)\<lparr>wh_primed := True, wh_count := 0,
                 wh_now := (if target \<noteq> 0 then target - 1 else 0)\<rparr>;
          min_et = (if target \<noteq> 0 then target else 1)
      in fold (\<lambda>n v. wh_insert_node n (if etick v n > min_et then etick v n else min_et) (wh_now v) v) hold w1)"

definition wh_cascades :: "'a wheel_scheme \<Rightarrow> 'a wheel_scheme" where
  "wh_cascades w =
     fold (\<lambda>l v. if wh_now v mod (256 * 256 ^ (l - 1)) = 0 then wh_cascade l v else v) [1, 2, 3] w"

definition wh_step ::
  "(nat \<Rightarrow> 'a wheel_scheme \<Rightarrow> 'a wheel_scheme option) \<Rightarrow> 'a wheel_scheme \<Rightarrow> 'a wheel_scheme option" where
  "wh_step fire w =
     (let w1 = wh_cascades (w\<lparr>wh_now := wh_now w + 1\<rparr>)
      in wh_expire_slot fire (wh_now w1 mod 256) w1)"

text \<open>The tick loop, by the number of steps the call may still take.\<close>

primrec wh_loop ::
  "(nat \<Rightarrow> 'a wheel_scheme \<Rightarrow> 'a wheel_scheme option) \<Rightarrow> nat \<Rightarrow> nat \<Rightarrow> 'a wheel_scheme \<Rightarrow> 'a wheel_scheme option" where
  "wh_loop fire target 0 w = Some w"
| "wh_loop fire target (Suc k) w =
     (if wh_now w < target then Option.bind (wh_step fire w) (wh_loop fire target k) else Some w)"

definition wh_advance ::
  "(nat \<Rightarrow> 'a wheel_scheme \<Rightarrow> 'a wheel_scheme option) \<Rightarrow> nat \<Rightarrow> 'a wheel_scheme \<Rightarrow> 'a wheel_scheme option" where
  "wh_advance fire target w =
     (let w1 = (if \<not> wh_primed w then wh_prime target w else w)
      in if wh_count w1 = 0
         then Some (if target > wh_now w1 then w1\<lparr>wh_now := target\<rparr> else w1)
         else wh_loop fire target (wh_max_ticks w1) w1)"

definition wh_slot_due :: "nat \<Rightarrow> nat \<Rightarrow> nat \<Rightarrow> nat" where
  "wh_slot_due now l j =
     (let span = 256 ^ l; super = span * 256; wprev = (now div super) * super;
          cand = wprev + j * span
      in if cand \<le> now then cand + super else cand)"

definition wh_next_due :: "'a wheel_scheme \<Rightarrow> nat" where
  "wh_next_due w =
     (if wh_count w = 0 then 2 ^ 64 - 1
      else fold (\<lambda>(l, j) best. if wh_bucket w l j = [] then best
                   else if wh_slot_due (wh_now w) l j < best then wh_slot_due (wh_now w) l j else best)
             (List.product [0..<4] [0..<256]) (2 ^ 64 - 1))"


section \<open>Placement\<close>

text \<open>
  The placement invariant, for a service bound \<open>b\<close> (the next tick to be served): a node with expiry
  tick \<open>e\<close> at level \<open>l\<close> and slot \<open>s\<close> is in the slot that level serves at the start of its block of
  \<open>256 ^ l\<close> ticks, that start has not passed, and it is less than one rotation away. An overdue
  node counts as due at \<open>b\<close>.
\<close>

definition placed :: "nat \<Rightarrow> nat \<Rightarrow> nat \<Rightarrow> nat \<Rightarrow> bool" where
  "placed b e l s \<longleftrightarrow> l < 4 \<and> s = wh_slot (max e b) l \<and> b \<le> max e b div 256 ^ l * 256 ^ l \<and>
     max e b < b + 256 ^ Suc l"

text \<open>The slot is served strictly later than \<open>b\<close>.\<close>

definition later :: "nat \<Rightarrow> nat \<Rightarrow> nat \<Rightarrow> bool" where
  "later b e l \<longleftrightarrow> b < max e b div 256 ^ l * 256 ^ l"

lemma level_of_bounds: "d < 256 ^ Suc (level_of d) \<and> (0 < level_of d \<longrightarrow> 256 ^ level_of d \<le> d)"
proof (induction d rule: level_of.induct)
  case (1 d)
  show ?case
  proof (cases "d < 256")
    case True
    then show ?thesis by (simp add: level_of.simps [of d])
  next
    case False
    let ?l = "level_of (d div 256)"
    have IH: "d div 256 < 256 ^ Suc ?l" "0 < ?l \<longrightarrow> 256 ^ ?l \<le> d div 256"
      using 1 [OF False] by blast+
    have "256 ^ ?l \<le> d div 256"
      using IH(2) False by (cases "?l = 0") (simp_all add: div_greater_zero_iff Suc_le_eq)
    then have "256 * 256 ^ ?l \<le> d" by (simp add: less_eq_div_iff_mult_less_eq mult.commute)
    moreover have "d < 256 * (256 * 256 ^ ?l)"
      using IH(1) by (simp add: div_less_iff_less_mult mult.commute)
    ultimately show ?thesis using False by (simp add: level_of.simps [of d])
  qed
qed

lemma level_of_less: "d < 256 ^ k \<Longrightarrow> 0 < k \<Longrightarrow> level_of d < k"
proof (rule ccontr)
  assume a: "d < 256 ^ k" "0 < k" "\<not> level_of d < k"
  then have "(256 :: nat) ^ k \<le> 256 ^ level_of d" by (intro power_increasing) simp_all
  with a level_of_bounds [of d] show False by simp
qed

lemma wh_fits_iff: "wh_fits e now \<longleftrightarrow> e < now + 256 ^ 4"
proof -
  have "((\<lambda>d :: nat. d div 256) ^^ k) x = x div 256 ^ k" for x k
    by (induction k) (simp_all only: funpow_0 funpow.simps comp_def power_0 div_by_1 power_Suc2 div_mult2_eq id_apply)
  then show ?thesis by (auto simp: wh_fits_def div_eq_0_iff)
qed

lemma block_after:
  assumes "now + 256 ^ l \<le> (et :: nat)"
  shows "now < et div 256 ^ l * 256 ^ l"
proof -
  have "et mod 256 ^ l < 256 ^ l" by simp
  moreover have "et = et div 256 ^ l * 256 ^ l + et mod 256 ^ l" by (simp only: div_mult_mod_eq)
  ultimately show ?thesis using assms by linarith
qed

text \<open>Where \<open>insert_node\<close> puts a node is well placed, and above level 0 strictly later than now.\<close>

lemma insert_node_later:
  assumes "now \<le> et" "0 < level_of (et - now)"
  shows "now < et div 256 ^ level_of (et - now) * 256 ^ level_of (et - now)"
  using level_of_bounds [of "et - now"] assms by (intro block_after) linarith

lemma placed_insert_node:
  assumes b: "b = now \<or> b = Suc now" and et: "et = max e b" and h: "et < now + 256 ^ 4"
  shows "placed b e (level_of (et - now)) (wh_slot et (level_of (et - now)))"
proof -
  let ?l = "level_of (et - now)"
  have ge: "now \<le> et" "b \<le> et" using b et by auto
  have "?l < 4" using h ge by (intro level_of_less) simp_all
  moreover have "b \<le> et div 256 ^ ?l * 256 ^ ?l"
  proof (cases "?l = 0")
    case False
    then show ?thesis using insert_node_later [OF ge(1)] b by auto
  qed (use ge in simp)
  moreover have "et < b + 256 ^ Suc ?l" using level_of_bounds [of "et - now"] ge b by linarith
  ultimately show ?thesis using et by (simp add: placed_def)
qed

text \<open>A slot of level \<open>l\<close> names one block within a rotation.\<close>

lemma placed_same_slot:
  assumes p: "placed b e l s" and al: "b mod 256 ^ l = 0" and s: "s = wh_slot b l"
  shows "max e b < b + 256 ^ l"
proof -
  let ?q = "max e b div 256 ^ l" and ?p = "b div 256 ^ l"
  have b: "b = ?p * 256 ^ l" using al by (metis dvd_div_mult_self mod_0_imp_dvd)
  have ge: "?p \<le> ?q" by (intro div_le_mono) simp
  have "?q * 256 ^ l \<le> max e b" by (rule div_times_less_eq_dividend)
  also have "\<dots> < b + 256 ^ Suc l" using p by (simp add: placed_def)
  also have "\<dots> = (?p + 256) * 256 ^ l" by (subst b) (simp only: power_Suc add_mult_distrib)
  finally have "?q * 256 ^ l < (?p + 256) * 256 ^ l" .
  then have lt: "?q < ?p + 256" by (rule mult_less_cancel2 [THEN iffD1, THEN conjunct2])
  have "?q mod 256 = ?p mod 256" using p s by (simp add: placed_def wh_slot_def)
  then have "256 dvd ?q - ?p" using ge by (simp add: mod_eq_dvd_iff_nat)
  moreover have "?q - ?p < 256" using lt by simp
  ultimately have "?q - ?p = 0" by (auto dest: dvd_imp_le)
  with ge have "?q = ?p" by simp
  moreover have "max e b < 256 ^ l + ?q * 256 ^ l" by (rule dividend_less_div_times) simp
  ultimately show ?thesis using b by simp
qed

lemma placed_later_iff:
  assumes p: "placed b e l s" and n: "b mod 256 ^ l \<noteq> 0 \<or> s \<noteq> wh_slot b l"
  shows "later b e l"
proof -
  let ?q = "max e b div 256 ^ l"
  have le: "b \<le> ?q * 256 ^ l" using p by (simp add: placed_def)
  have "b \<noteq> ?q * 256 ^ l"
  proof
    assume eq: "b = ?q * 256 ^ l"
    then have "b mod 256 ^ l = 0" by (metis mod_mult_self2_is_0)
    moreover have "b div 256 ^ l = ?q" by (metis eq div_mult_self_is_m zero_less_numeral zero_less_power)
    ultimately show False using n p by (simp add: placed_def wh_slot_def)
  qed
  with le show ?thesis by (simp add: later_def)
qed

lemma placed_Suc:
  assumes "placed b e l s" "later b e l"
  shows "placed (Suc b) e l s"
proof -
  have "b < max e b" using assms(2) by (simp add: later_def) (metis div_times_less_eq_dividend less_le_trans)
  then have "max e (Suc b) = max e b" by auto
  with assms show ?thesis by (simp add: placed_def later_def)
qed


section \<open>Structural invariant\<close>

definition members :: "'a wheel_scheme \<Rightarrow> nat set" where
  "members w = {n. \<exists>l s. n \<in> set (wh_bucket w l s)}"

text \<open>Every node is in at most one bucket, once; \<open>tn_linked\<close> and the count agree with the buckets.\<close>

definition wh_wf :: "'a wheel_scheme \<Rightarrow> bool" where
  "wh_wf w \<longleftrightarrow>
     (\<forall>l s. distinct (wh_bucket w l s)) \<and>
     (\<forall>l s l' s' n. n \<in> set (wh_bucket w l s) \<longrightarrow> n \<in> set (wh_bucket w l' s') \<longrightarrow> l = l' \<and> s = s') \<and>
     (\<forall>n. linked w n \<longleftrightarrow> n \<in> members w) \<and>
     finite (members w) \<and> wh_count w = card (members w)"

definition all_placed :: "nat \<Rightarrow> 'a wheel_scheme \<Rightarrow> bool" where
  "all_placed b w \<longleftrightarrow> (\<forall>l s. \<forall>n \<in> set (wh_bucket w l s). placed b (etick w n) l s)"

definition horizon :: "'a wheel_scheme \<Rightarrow> bool" where
  "horizon w \<longleftrightarrow> (\<forall>n \<in> members w. etick w n < wh_now w + 256 ^ 4)"

definition wh_inv :: "'a wheel_scheme \<Rightarrow> bool" where
  "wh_inv w \<longleftrightarrow> wh_wf w \<and> horizon w \<and> all_placed (Suc (wh_now w)) w"

lemma wh_wfD:
  assumes "wh_wf w"
  shows "distinct (wh_bucket w l s)"
    and "n \<in> set (wh_bucket w l s) \<Longrightarrow> n \<in> set (wh_bucket w l' s') \<Longrightarrow> l = l' \<and> s = s'"
    and "linked w n \<longleftrightarrow> n \<in> members w" and "finite (members w)" and "wh_count w = card (members w)"
  using assms by (auto simp: wh_wf_def)

lemma wh_wfI:
  assumes "\<And>l s. distinct (wh_bucket w l s)"
    and "\<And>l s l' s' n. n \<in> set (wh_bucket w l s) \<Longrightarrow> n \<in> set (wh_bucket w l' s') \<Longrightarrow> l = l' \<and> s = s'"
    and "\<And>n. linked w n \<longleftrightarrow> n \<in> members w" and "finite (members w)" and "wh_count w = card (members w)"
  shows "wh_wf w"
  unfolding wh_wf_def using assms by blast

lemma membersI: "n \<in> set (wh_bucket w l s) \<Longrightarrow> n \<in> members w"
  by (auto simp: members_def)

lemma insert_node_fields [simp]:
  "wh_now (wh_insert_node n et now w) = wh_now w"
  "wh_tick (wh_insert_node n et now w) = wh_tick w"
  "wh_primed (wh_insert_node n et now w) = wh_primed w"
  "wh_max_ticks (wh_insert_node n et now w) = wh_max_ticks w"
  "wheel.more (wh_insert_node n et now w) = wheel.more w"
  "etick (wh_insert_node n et now w) m = etick w m"
  "linked (wh_insert_node n et now w) m \<longleftrightarrow> m = n \<or> linked w m"
  "wh_count (wh_insert_node n et now w) = Suc (wh_count w)"
  by (simp_all add: wh_insert_node_def Let_def)

lemma insert_node_bucket:
  "wh_bucket (wh_insert_node n et now w) l s =
     (if l = level_of (et - now) \<and> s = wh_slot et l then wh_bucket w l s @ [n] else wh_bucket w l s)"
  by (simp add: wh_insert_node_def Let_def)

lemma insert_node_members [simp]: "members (wh_insert_node n et now w) = insert n (members w)"
proof -
  let ?v = "wh_insert_node n et now w" and ?l = "level_of (et - now)"
  have "n \<in> set (wh_bucket ?v ?l (wh_slot et ?l))" by (simp add: insert_node_bucket)
  moreover have "set (wh_bucket w l s) \<subseteq> set (wh_bucket ?v l s)" for l s by (auto simp: insert_node_bucket)
  moreover have "set (wh_bucket ?v l s) \<subseteq> insert n (set (wh_bucket w l s))" for l s
    by (auto simp: insert_node_bucket)
  ultimately show ?thesis by (fastforce simp: members_def)
qed

lemma detach_fields [simp]:
  "wh_now (wh_detach n w) = wh_now w"
  "wh_tick (wh_detach n w) = wh_tick w"
  "wh_primed (wh_detach n w) = wh_primed w"
  "wh_max_ticks (wh_detach n w) = wh_max_ticks w"
  "wheel.more (wh_detach n w) = wheel.more w"
  "etick (wh_detach n w) m = etick w m"
  "linked (wh_detach n w) m \<longleftrightarrow> m \<noteq> n \<and> linked w m"
  "wh_count (wh_detach n w) = wh_count w - 1"
  "wh_bucket (wh_detach n w) l s = remove1 n (wh_bucket w l s)"
  by (simp_all add: wh_detach_def)

lemma detach_members: "wh_wf w \<Longrightarrow> members (wh_detach n w) = members w - {n}"
  by (auto simp: members_def wh_wfD(1))

lemma wf_insert_node:
  assumes wf: "wh_wf w" and n: "\<not> linked w n"
  shows "wh_wf (wh_insert_node n et now w)"
proof -
  have new: "n \<notin> set (wh_bucket w l s)" for l s using wh_wfD(3) [OF wf] n membersI by metis
  have "distinct (wh_bucket (wh_insert_node n et now w) l s)" for l s
    using wh_wfD(1) [OF wf] new by (simp add: insert_node_bucket)
  moreover have "l = l' \<and> s = s'"
    if "m \<in> set (wh_bucket (wh_insert_node n et now w) l s)" "m \<in> set (wh_bucket (wh_insert_node n et now w) l' s')"
    for l s l' s' m
    using that new wh_wfD(2) [OF wf, of m l s l' s'] by (cases "m = n") (auto simp: insert_node_bucket split: if_splits)
  moreover have "wh_count (wh_insert_node n et now w) = card (members (wh_insert_node n et now w))"
    using wh_wfD(3-5) [OF wf] n by simp
  ultimately show ?thesis by (intro wh_wfI) (use wh_wfD(3,4) [OF wf] in simp_all)
qed

lemma wf_detach:
  assumes wf: "wh_wf w" and n: "linked w n"
  shows "wh_wf (wh_detach n w)"
proof (rule wh_wfI)
  fix l s l' s' m
  assume "m \<in> set (wh_bucket (wh_detach n w) l s)" "m \<in> set (wh_bucket (wh_detach n w) l' s')"
  then have "m \<in> set (wh_bucket w l s)" "m \<in> set (wh_bucket w l' s')" by (simp_all add: wh_wfD(1) [OF wf])
  then show "l = l' \<and> s = s'" by (rule wh_wfD(2) [OF wf])
next
  fix m
  show "linked (wh_detach n w) m \<longleftrightarrow> m \<in> members (wh_detach n w)"
    using wh_wfD(3) [OF wf, of m] by (simp add: detach_members [OF wf] conj_commute)
next
  show "wh_count (wh_detach n w) = card (members (wh_detach n w))"
    using wh_wfD(3-5) [OF wf] n by (simp add: detach_members [OF wf])
qed (use wh_wfD(1,4) [OF wf] in \<open>simp_all add: detach_members [OF wf]\<close>)

lemma detach_bucket_set: "wh_wf w \<Longrightarrow> set (wh_bucket (wh_detach n w) l s) = set (wh_bucket w l s) - {n}"
  by (simp add: wh_wfD(1))

lemma placed_level: "all_placed b w \<Longrightarrow> n \<in> set (wh_bucket w l s) \<Longrightarrow> l < 4 \<and> s < 256"
proof -
  assume "all_placed b w" "n \<in> set (wh_bucket w l s)"
  then have "placed b (etick w n) l s" by (simp add: all_placed_def)
  then show ?thesis by (simp add: placed_def wh_slot_def)
qed

lemma placed_detach: "wh_wf w \<Longrightarrow> all_placed b w \<Longrightarrow> all_placed b (wh_detach n w)"
  by (auto simp: all_placed_def wh_wfD(1))

lemma placed_insert:
  assumes "all_placed b w" "b = now \<or> b = Suc now" "et = max (etick w n) b" "et < now + 256 ^ 4"
  shows "all_placed b (wh_insert_node n et now w)"
  using assms placed_insert_node [OF assms(2-4)]
  by (auto simp: all_placed_def insert_node_bucket split: if_splits)


section \<open>Cascading\<close>

lemma reinsert_frame:
  assumes wf: "wh_wf w" and n: "linked w n"
  shows "wh_insert_node n et now (wh_detach n w) =
    w\<lparr>wh_bucket := wh_bucket (wh_insert_node n et now (wh_detach n w))\<rparr>"
proof -
  have "0 < wh_count w" using wh_wfD(3-5) [OF wf] n by (auto simp: card_gt_0_iff)
  moreover have "(wh_node w n)\<lparr>tn_linked := True\<rparr> = wh_node w n" using n by simp
  ultimately show ?thesis by (simp add: wh_insert_node_def wh_detach_def Let_def)
qed

lemma cascade_node_spec:
  assumes wf: "wh_wf w" and pl: "all_placed (wh_now w) w"
    and n: "n \<in> set (wh_bucket w level (wh_slot (wh_now w) level))"
    and al: "wh_now w mod 256 ^ level = 0" and l: "0 < level" "level < 4"
  defines "w' \<equiv> wh_cascade_node level (wh_slot (wh_now w) level) n w"
  shows "wh_wf w'" and "all_placed (wh_now w) w'" and "w' = w\<lparr>wh_bucket := wh_bucket w'\<rparr>"
    and "members w' = members w"
    and "wh_bucket w' level (wh_slot (wh_now w) level) = remove1 n (wh_bucket w level (wh_slot (wh_now w) level))"
    and "m \<in> set (wh_bucket w' l s) \<Longrightarrow> m \<in> set (wh_bucket w l s) \<or> (0 < l \<longrightarrow> later (wh_now w) (etick w m) l)"
proof -
  let ?now = "wh_now w" and ?et = "max (etick w n) (wh_now w)"
  let ?lv = "level_of (?et - ?now)"
  have lk: "linked w n" using wh_wfD(3) [OF wf] n membersI by metis
  have p: "placed ?now (etick w n) level (wh_slot ?now level)" using pl n by (auto simp: all_placed_def)
  have d: "?et < ?now + 256 ^ level" using placed_same_slot [OF p al] by simp
  then have "?et - ?now < 256 ^ level" using max.cobounded2 [of ?now "etick w n"] by linarith
  then have lv: "?lv < level" using l by (intro level_of_less) auto
  have "?et = (if etick w n > ?now then etick w n else ?now)" by auto
  then have w': "w' = wh_insert_node n ?et ?now (wh_detach n w)"
    using lv by (simp add: w'_def wh_cascade_node_def Let_def)
  have "(256 :: nat) ^ level \<le> 256 ^ 4" using l by (intro power_increasing) simp_all
  with d have far: "?et < ?now + 256 ^ 4" by linarith
  show "wh_wf w'" unfolding w' by (intro wf_insert_node wf_detach wf lk) simp
  show "all_placed ?now w'" unfolding w' using far by (intro placed_insert placed_detach wf pl) auto
  show "w' = w\<lparr>wh_bucket := wh_bucket w'\<rparr>" unfolding w' by (rule reinsert_frame [OF wf lk])
  show "members w' = members w" using lk wh_wfD(3) [OF wf] by (auto simp: w' detach_members [OF wf])
  show "wh_bucket w' level (wh_slot ?now level) = remove1 n (wh_bucket w level (wh_slot ?now level))"
    using lv by (simp add: w' insert_node_bucket)
  assume m: "m \<in> set (wh_bucket w' l s)"
  have "later ?now (etick w n) ?lv" if "0 < ?lv"
    using insert_node_later [of ?now ?et] that by (simp add: later_def)
  then show "m \<in> set (wh_bucket w l s) \<or> (0 < l \<longrightarrow> later ?now (etick w m) l)"
    using m by (auto simp: w' insert_node_bucket wh_wfD(1) [OF wf] split: if_splits)
qed

text \<open>Walking a bucket cascades all of its nodes: it ends empty, and nothing above level 0 is due.\<close>

lemma cascade_fold:
  assumes "wh_wf w" and "all_placed (wh_now w) w"
    and "wh_bucket w level (wh_slot (wh_now w) level) = xs"
    and "wh_now w mod 256 ^ level = 0" and "0 < level" "level < 4"
  defines "w' \<equiv> fold (wh_cascade_node level (wh_slot (wh_now w) level)) xs w"
  shows "wh_wf w' \<and> all_placed (wh_now w) w' \<and> w' = w\<lparr>wh_bucket := wh_bucket w'\<rparr> \<and> members w' = members w \<and>
    wh_bucket w' level (wh_slot (wh_now w) level) = [] \<and>
    (\<forall>m l s. m \<in> set (wh_bucket w' l s) \<longrightarrow>
       m \<in> set (wh_bucket w l s) \<or> (0 < l \<longrightarrow> later (wh_now w) (etick w m) l))"
  using assms(1-4) unfolding w'_def
proof (induction xs arbitrary: w)
  case (Cons n xs)
  let ?h = "wh_slot (wh_now w) level"
  let ?v = "wh_cascade_node level ?h n w"
  have n: "n \<in> set (wh_bucket w level ?h)" using Cons.prems by simp
  note S = cascade_node_spec [OF Cons.prems(1,2) n Cons.prems(4) assms(5,6)]
  have v: "wh_now ?v = wh_now w" "wh_node ?v = wh_node w" by (subst S(3), simp)+
  have "wh_bucket ?v level (wh_slot (wh_now ?v) level) = xs" using S(5) Cons.prems(3) v by simp
  from Cons.IH [OF S(1) _ this] S(2) v Cons.prems(4)
  have IH: "wh_wf (fold (wh_cascade_node level ?h) xs ?v)" "all_placed (wh_now w) (fold (wh_cascade_node level ?h) xs ?v)"
    "fold (wh_cascade_node level ?h) xs ?v = ?v\<lparr>wh_bucket := wh_bucket (fold (wh_cascade_node level ?h) xs ?v)\<rparr>"
    "members (fold (wh_cascade_node level ?h) xs ?v) = members ?v"
    "wh_bucket (fold (wh_cascade_node level ?h) xs ?v) level ?h = []"
    "\<And>m l s. m \<in> set (wh_bucket (fold (wh_cascade_node level ?h) xs ?v) l s) \<Longrightarrow>
       m \<in> set (wh_bucket ?v l s) \<or> (0 < l \<longrightarrow> later (wh_now w) (etick w m) l)"
    by simp_all
  have fr: "fold (wh_cascade_node level ?h) xs ?v = w\<lparr>wh_bucket := wh_bucket (fold (wh_cascade_node level ?h) xs ?v)\<rparr>"
    by (subst IH(3), subst S(3)) simp
  show ?case using IH(1,2,4,5) fr S(4) IH(6) S(6) by simp blast
qed simp


definition level_later :: "'a wheel_scheme \<Rightarrow> nat \<Rightarrow> bool" where
  "level_later w l \<longleftrightarrow> (\<forall>s. \<forall>m \<in> set (wh_bucket w l s). later (wh_now w) (etick w m) l)"

definition wh_cascade_if :: "nat \<Rightarrow> 'a wheel_scheme \<Rightarrow> 'a wheel_scheme" where
  "wh_cascade_if l v = (if wh_now v mod (256 * 256 ^ (l - 1)) = 0 then wh_cascade l v else v)"

text \<open>The nodes have only changed buckets, and what was served stays served.\<close>

definition rehomed :: "'a wheel_scheme \<Rightarrow> 'a wheel_scheme \<Rightarrow> bool" where
  "rehomed w w' \<longleftrightarrow> wh_wf w' \<and> all_placed (wh_now w) w' \<and> w' = w\<lparr>wh_bucket := wh_bucket w'\<rparr> \<and>
     members w' = members w \<and> (\<forall>k. 0 < k \<longrightarrow> level_later w k \<longrightarrow> level_later w' k)"

lemma rehomed_fields:
  assumes "rehomed w w'"
  shows "wh_now w' = wh_now w" "wh_node w' = wh_node w" "wh_max_ticks w' = wh_max_ticks w"
    "wh_primed w' = wh_primed w" "wh_tick w' = wh_tick w" "wheel.more w' = wheel.more w" "wh_count w' = wh_count w"
proof -
  have "w' = w\<lparr>wh_bucket := wh_bucket w'\<rparr>" using assms by (simp add: rehomed_def)
  then obtain f where "w' = w\<lparr>wh_bucket := f\<rparr>" by blast
  then show "wh_now w' = wh_now w" "wh_node w' = wh_node w" "wh_max_ticks w' = wh_max_ticks w"
    "wh_primed w' = wh_primed w" "wh_tick w' = wh_tick w" "wheel.more w' = wheel.more w" "wh_count w' = wh_count w"
    by simp_all
qed

lemma rehomed_trans:
  assumes "rehomed w v" "rehomed v u"
  shows "rehomed w u"
proof -
  have v: "v = w\<lparr>wh_bucket := wh_bucket v\<rparr>" and u: "u = v\<lparr>wh_bucket := wh_bucket u\<rparr>"
    using assms by (simp_all add: rehomed_def)
  have "u = w\<lparr>wh_bucket := wh_bucket u\<rparr>" by (subst u, subst v) simp
  then show ?thesis using assms rehomed_fields(1) [OF assms(1)] by (simp add: rehomed_def)
qed

lemma placed_unaligned:
  "all_placed (wh_now w) w \<Longrightarrow> wh_now w mod 256 ^ l \<noteq> 0 \<Longrightarrow> level_later w l"
  unfolding level_later_def all_placed_def using placed_later_iff by blast

lemma cascade_level:
  assumes wf: "wh_wf w" and pl: "all_placed (wh_now w) w" and l: "0 < level" "level < 4"
  shows "rehomed w (wh_cascade_if level w) \<and> level_later (wh_cascade_if level w) level"
proof (cases "wh_now w mod 256 ^ level = 0")
  case False
  have "(256 :: nat) * 256 ^ (level - 1) = 256 ^ level" using l(1) by (simp add: power_eq_if)
  with False have "wh_cascade_if level w = w" by (simp add: wh_cascade_if_def)
  then show ?thesis using wf pl placed_unaligned [OF pl False] by (simp add: rehomed_def)
next
  case True
  define w' where "w' = wh_cascade_if level w"
  let ?h = "wh_slot (wh_now w) level"
  have "(256 :: nat) * 256 ^ (level - 1) = 256 ^ level" using l(1) by (simp add: power_eq_if)
  with True have w': "w' = fold (wh_cascade_node level ?h) (wh_bucket w level ?h) w"
    by (simp add: w'_def wh_cascade_if_def wh_cascade_def Let_def)
  note C = cascade_fold [OF wf pl refl True l, folded w']
  then have fr: "w' = w\<lparr>wh_bucket := wh_bucket w'\<rparr>" by blast
  have f: "wh_now w' = wh_now w" "wh_node w' = wh_node w" by (subst fr, simp)+
  have new: "m \<in> set (wh_bucket w' k s) \<Longrightarrow> m \<in> set (wh_bucket w k s) \<or> (0 < k \<longrightarrow> later (wh_now w) (etick w m) k)"
    for m k s using C by blast
  have "later (wh_now w) (etick w m) level" if "m \<in> set (wh_bucket w' level s)" for m s
  proof -
    have "s \<noteq> ?h" using that C by auto
    with that C f show ?thesis by (intro placed_later_iff [of _ _ _ s]) (auto simp: all_placed_def)
  qed
  then have "level_later w' level" by (simp add: level_later_def f)
  moreover have "level_later w k \<longrightarrow> level_later w' k" if "0 < k" for k
    unfolding level_later_def f using new that by blast
  ultimately show ?thesis using C unfolding w'_def [symmetric] rehomed_def by blast
qed

lemma cascades_spec:
  assumes "wh_wf w" and "all_placed (wh_now w) w"
  shows "rehomed w (wh_cascades w)" and "0 < l \<Longrightarrow> level_later (wh_cascades w) l"
proof -
  define w1 where "w1 = wh_cascade_if 1 w"
  define w2 where "w2 = wh_cascade_if 2 w1"
  have w': "wh_cascades w = wh_cascade_if 3 w2"
    by (simp add: w1_def w2_def wh_cascades_def wh_cascade_if_def)
  have C1: "rehomed w w1" "level_later w1 1" using cascade_level [OF assms, of 1] by (simp_all add: w1_def)
  then have C2: "rehomed w1 w2" "level_later w2 2"
    using cascade_level [of w1 2] rehomed_fields(1) [OF C1(1)] by (simp_all add: w2_def rehomed_def)
  then have C3: "rehomed w2 (wh_cascades w)" "level_later (wh_cascades w) 3"
    using cascade_level [of w2 3] rehomed_fields(1) [OF C2(1)] by (simp_all add: w' rehomed_def)
  show R: "rehomed w (wh_cascades w)" by (rule rehomed_trans [OF rehomed_trans [OF C1(1) C2(1)] C3(1)])
  have k: "level_later (wh_cascades w) 1" "level_later (wh_cascades w) 2"
    using C1 C2 C3 by (simp_all add: rehomed_def)
  assume "0 < l"
  then consider "l = 1" | "l = 2" | "l = 3" | "4 \<le> l" by linarith
  then show "level_later (wh_cascades w) l"
  proof cases
    case 4
    have "all_placed (wh_now w) (wh_cascades w)" using R by (simp add: rehomed_def)
    then show ?thesis using placed_level 4 by (force simp: level_later_def)
  qed (use k C3 in simp_all)
qed


section \<open>Expiring a slot\<close>

abbreviation cur :: "'a wheel_scheme \<Rightarrow> nat list" where
  "cur w \<equiv> wh_bucket w 0 (wh_now w mod 256)"

text \<open>
  The state while the current slot drains: what is in it is due, everything else is placed for the
  next tick.
\<close>

definition wh_mid :: "'a wheel_scheme \<Rightarrow> bool" where
  "wh_mid w \<longleftrightarrow> wh_wf w \<and> horizon w \<and>
     (\<forall>l s. \<forall>n \<in> set (wh_bucket w l s).
        if l = 0 \<and> s = wh_now w mod 256 then etick w n \<le> wh_now w
        else placed (Suc (wh_now w)) (etick w n) l s)"

lemma wh_mid_inv: "wh_mid w \<Longrightarrow> cur w = [] \<Longrightarrow> wh_inv w"
  unfolding wh_mid_def wh_inv_def all_placed_def by (metis empty_iff list.set(1))

lemma placed_zero_slot:
  assumes "placed b e 0 s" "s = b mod 256"
  shows "e \<le> b"
  using placed_same_slot [OF assms(1)] assms(2) by (simp add: wh_slot_def)

lemma mid_of_cascades:
  assumes "wh_inv w"
  defines "v \<equiv> wh_cascades (w\<lparr>wh_now := Suc (wh_now w)\<rparr>)"
  shows "wh_mid v" and "rehomed (w\<lparr>wh_now := Suc (wh_now w)\<rparr>) v"
    and "set (cur v) = {n \<in> members w. etick w n \<le> Suc (wh_now w)}"
proof -
  let ?w = "w\<lparr>wh_now := Suc (wh_now w)\<rparr>"
  have "wh_wf ?w" using assms(1) by (simp add: wh_inv_def wh_wf_def members_def)
  moreover have "all_placed (wh_now ?w) ?w" using assms(1) by (simp add: wh_inv_def all_placed_def)
  ultimately have R: "rehomed ?w v" and later: "\<And>l. 0 < l \<Longrightarrow> level_later v l"
    using cascades_spec [of ?w] by (simp_all add: v_def)
  show "rehomed ?w v" by (rule R)
  have now: "wh_now v = Suc (wh_now w)" using rehomed_fields(1) [OF R] by simp
  have pl: "placed (wh_now v) (etick v n) l s" if "n \<in> set (wh_bucket v l s)" for n l s
    using R that now by (auto simp: rehomed_def all_placed_def)
  have lt: "later (wh_now v) (etick v n) l"
    if n: "n \<in> set (wh_bucket v l s)" and ne: "\<not> (l = 0 \<and> s = wh_now v mod 256)" for n l s
  proof (cases "l = 0")
    case True
    then show ?thesis using ne pl [OF n] by (intro placed_later_iff [of _ _ _ s]) (auto simp: wh_slot_def)
  next
    case False
    then show ?thesis using later [of l] n by (auto simp: level_later_def)
  qed
  have C: "if l = 0 \<and> s = wh_now v mod 256 then etick v n \<le> wh_now v else placed (Suc (wh_now v)) (etick v n) l s"
    if n: "n \<in> set (wh_bucket v l s)" for n l s
    using placed_zero_slot pl [OF n] placed_Suc [OF pl [OF n] lt [OF n]] by auto
  have "n \<in> set (cur v)" if n: "n \<in> set (wh_bucket v l s)" "etick v n \<le> wh_now v" for n l s
  proof (rule ccontr)
    assume "n \<notin> set (cur v)"
    with n(1) have "\<not> (l = 0 \<and> s = wh_now v mod 256)" by auto
    from lt [OF n(1) this] n(2) div_times_less_eq_dividend [of "wh_now v" "256 ^ l"] show False
      by (simp add: later_def max_absorb2)
  qed
  moreover have "members v = members w" using R by (simp add: rehomed_def members_def)
  moreover have "etick v n = etick w n" for n using rehomed_fields(2) [OF R] by simp
  moreover have "etick v n \<le> wh_now v" if "n \<in> set (cur v)" for n using C [OF that] by simp
  ultimately show "set (cur v) = {n \<in> members w. etick w n \<le> Suc (wh_now w)}"
    unfolding now [symmetric] by (fastforce simp: members_def)
  note C
  moreover have "horizon v"
    using assms(1) R rehomed_fields(1,2) [OF R] by (fastforce simp: wh_inv_def horizon_def rehomed_def members_def)
  ultimately show "wh_mid v" using R by (simp add: wh_mid_def rehomed_def)
qed

lemma mid_detach: "wh_mid w \<Longrightarrow> linked w n \<Longrightarrow> wh_mid (wh_detach n w)"
  using wf_detach [of w n] by (auto simp: wh_mid_def horizon_def detach_members wh_wfD(1))

lemma mid_insert:
  assumes mid: "wh_mid w" and n: "\<not> linked w n" and fits: "wh_fits (etick w n) (wh_now w)"
  shows "wh_mid (wh_insert n (wh_now w) w)" and "cur (wh_insert n (wh_now w) w) = cur w"
proof -
  let ?now = "wh_now w" and ?et = "max (etick w n) (Suc (wh_now w))"
  let ?l = "level_of (?et - ?now)"
  have "?et = (if etick w n > ?now then etick w n else ?now + 1)" by auto
  then have i: "wh_insert n ?now w = wh_insert_node n ?et ?now w" by (simp add: wh_insert_def)
  have "?et < ?now + 256 ^ 4" using fits by (auto simp: wh_fits_iff)
  then have p: "placed (Suc ?now) (etick w n) ?l (wh_slot ?et ?l)" by (intro placed_insert_node) auto
  have ne: "\<not> (?l = 0 \<and> wh_slot ?et ?l = ?now mod 256)"
  proof
    assume a: "?l = 0 \<and> wh_slot ?et ?l = ?now mod 256"
    with level_of_bounds [of "?et - ?now"] have "?et - ?now < 256" by simp
    moreover have "?et mod 256 = ?now mod 256" using a by (auto simp: wh_slot_def)
    then have "256 dvd ?et - ?now" by (subst (asm) mod_eq_dvd_iff_nat) simp_all
    ultimately have "?et - ?now = 0" by (auto dest: dvd_imp_le)
    then show False by simp
  qed
  show "cur (wh_insert n ?now w) = cur w" using ne by (auto simp: i insert_node_bucket)
  have "wh_wf (wh_insert n ?now w)" unfolding i using mid n by (intro wf_insert_node) (simp_all add: wh_mid_def)
  moreover have "if l = 0 \<and> s = ?now mod 256 then etick w m \<le> ?now else placed (Suc ?now) (etick w m) l s"
    if "m \<in> set (wh_bucket (wh_insert n ?now w) l s)" for m l s
  proof (cases "m \<in> set (wh_bucket w l s)")
    case True
    then show ?thesis using mid by (simp add: wh_mid_def)
  next
    case False
    then have "m = n" "l = ?l" "s = wh_slot ?et ?l"
      using that by (auto simp: i insert_node_bucket split: if_splits)
    then show ?thesis using ne p by auto
  qed
  moreover have "horizon (wh_insert n ?now w)" using mid fits by (auto simp: wh_mid_def horizon_def i wh_fits_iff)
  ultimately show "wh_mid (wh_insert n ?now w)" by (simp add: wh_mid_def i)
qed


section \<open>Anchoring the epoch\<close>

lemma distinct_concat_map:
  "distinct xs \<Longrightarrow> (\<And>x. x \<in> set xs \<Longrightarrow> distinct (f x)) \<Longrightarrow>
   (\<And>x y. x \<in> set xs \<Longrightarrow> y \<in> set xs \<Longrightarrow> x \<noteq> y \<Longrightarrow> set (f x) \<inter> set (f y) = {}) \<Longrightarrow>
   distinct (concat (map f xs))"
proof (induction xs)
  case (Cons x xs)
  then have "set (f x) \<inter> set (f y) = {}" if "y \<in> set xs" for y using that by (metis distinct.simps(2) list.set_intros)
  with Cons show ?case by auto
qed simp

lemma all_nodes_set:
  assumes "all_placed b w"
  shows "set (wh_all_nodes w) = members w"
proof -
  have "n \<in> set (wh_all_nodes w)" if "n \<in> members w" for n
  proof -
    from that obtain l s where n: "n \<in> set (wh_bucket w l s)" by (auto simp: members_def)
    with placed_level [OF assms n] have "(l, s) \<in> set (List.product [0..<4] [0..<256])"
      by (simp del: upt_rec_numeral)
    with n show ?thesis unfolding wh_all_nodes_def by (simp only: set_concat set_map) blast
  qed
  moreover have "set (wh_all_nodes w) \<subseteq> members w"
    by (auto simp: wh_all_nodes_def members_def simp del: upt_rec_numeral)
  ultimately show ?thesis by blast
qed

lemma all_nodes_distinct: "wh_wf w \<Longrightarrow> distinct (wh_all_nodes w)"
  unfolding wh_all_nodes_def
  by (rule distinct_concat_map) (auto simp: wh_wfD(1) distinct_product dest: wh_wfD(2) simp del: upt_rec_numeral)

lemma fold_detach_eq:
  "fold wh_detach xs w =
     w\<lparr>wh_node := (\<lambda>m. if m \<in> set xs then (wh_node w m)\<lparr>tn_linked := False\<rparr> else wh_node w m),
       wh_bucket := (\<lambda>l s. fold remove1 xs (wh_bucket w l s)), wh_count := wh_count w - length xs\<rparr>"
proof (induction xs arbitrary: w)
  case (Cons x xs)
  show ?case
    by (simp add: Cons.IH) (auto simp: wh_detach_def intro!: arg_cong2 [where f = "\<lambda>a b. w\<lparr>wh_node := a, wh_bucket := b,
      wh_count := wh_count w - Suc (length xs)\<rparr>"])
qed simp

lemma fold_detach_wf:
  assumes "wh_wf w" "distinct xs" "set xs \<subseteq> members w"
  shows "wh_wf (fold wh_detach xs w) \<and> members (fold wh_detach xs w) = members w - set xs"
  using assms
proof (induction xs arbitrary: w)
  case (Cons x xs)
  let ?v = "wh_detach x w"
  have wf: "wh_wf ?v" using Cons.prems by (intro wf_detach) (auto simp: wh_wfD(3))
  have "set xs \<subseteq> members ?v" using Cons.prems by (auto simp: detach_members)
  from Cons.IH [OF wf _ this] Cons.prems show ?case by (auto simp: detach_members)
qed simp

definition prime_insert :: "nat \<Rightarrow> nat \<Rightarrow> 'a wheel_scheme \<Rightarrow> 'a wheel_scheme" where
  "prime_insert min_et n v = wh_insert_node n (if etick v n > min_et then etick v n else min_et) (wh_now v) v"

lemma fold_prime_insert_eq:
  "\<exists>f. fold (prime_insert k) xs w =
     w\<lparr>wh_node := (\<lambda>m. if m \<in> set xs then (wh_node w m)\<lparr>tn_linked := True\<rparr> else wh_node w m),
       wh_bucket := f, wh_count := wh_count w + length xs\<rparr>"
proof (induction xs arbitrary: w)
  case Nil
  then show ?case by (intro exI [of _ "wh_bucket w"]) simp
next
  case (Cons x xs)
  define v where "v = prime_insert k x w"
  have v: "v = w\<lparr>wh_node := (wh_node w)(x := (wh_node w x)\<lparr>tn_linked := True\<rparr>), wh_bucket := wh_bucket v,
      wh_count := Suc (wh_count w)\<rparr>"
    by (simp add: v_def prime_insert_def wh_insert_node_def Let_def)
  obtain f where "fold (prime_insert k) xs v =
     v\<lparr>wh_node := (\<lambda>m. if m \<in> set xs then (wh_node v m)\<lparr>tn_linked := True\<rparr> else wh_node v m),
       wh_bucket := f, wh_count := wh_count v + length xs\<rparr>"
    using Cons.IH by blast
  also have "\<dots> = w\<lparr>wh_node := (\<lambda>m. if m \<in> set xs then (wh_node v m)\<lparr>tn_linked := True\<rparr> else wh_node v m),
       wh_bucket := f, wh_count := Suc (wh_count w) + length xs\<rparr>"
    by (subst (1 4) v) simp
  also have "(\<lambda>m. if m \<in> set xs then (wh_node v m)\<lparr>tn_linked := True\<rparr> else wh_node v m)
     = (\<lambda>m. if m \<in> set (x # xs) then (wh_node w m)\<lparr>tn_linked := True\<rparr> else wh_node w m)"
    by (subst v, subst v) auto
  finally show ?case by (intro exI [of _ f]) (simp add: v_def)
qed

lemma fold_prime_insert_wf:
  assumes "wh_wf w" "horizon w" "all_placed (Suc (wh_now w)) w" "distinct xs" "set xs \<inter> members w = {}"
    "\<And>n. n \<in> set xs \<Longrightarrow> etick w n < wh_now w + 256 ^ 4"
  shows "wh_inv (fold (prime_insert (Suc (wh_now w))) xs w) \<and>
    members (fold (prime_insert (Suc (wh_now w))) xs w) = members w \<union> set xs"
  using assms
proof (induction xs arbitrary: w)
  case Nil
  then show ?case by (simp add: wh_inv_def)
next
  case (Cons n xs)
  let ?k = "Suc (wh_now w)" and ?et = "max (etick w n) (Suc (wh_now w))"
  have i: "prime_insert ?k n w = wh_insert_node n ?et (wh_now w) w"
    by (auto simp: prime_insert_def max_def intro!: arg_cong [where f = "\<lambda>e. wh_insert_node n e (wh_now w) w"])
  have "\<not> linked w n" using Cons.prems by (simp add: wh_wfD(3))
  then have 1: "wh_wf (prime_insert ?k n w)" unfolding i using Cons.prems by (intro wf_insert_node)
  have e: "etick w n < wh_now w + 256 ^ 4" using Cons.prems(6) by simp
  have 2: "horizon (prime_insert ?k n w)" using Cons.prems(2) e by (auto simp: i horizon_def)
  have "?et < wh_now w + 256 ^ 4" using e by simp
  then have 3: "all_placed ?k (prime_insert ?k n w)"
    unfolding i using Cons.prems(3) by (intro placed_insert) auto
  from Cons.IH [OF 1 2] 3 Cons.prems(4-6) show ?case by (simp add: i)
qed

lemma prime_spec:
  assumes inv: "wh_inv w" and now: "wh_now w = 0"
  shows "wh_inv (wh_prime target w)" and "members (wh_prime target w) = members w"
    and "\<exists>f. wh_prime target w = w\<lparr>wh_now := target - 1, wh_primed := True, wh_bucket := f\<rparr>"
proof -
  let ?h = "wh_all_nodes w"
  define v where "v = (fold wh_detach ?h w)\<lparr>wh_primed := True, wh_count := 0, wh_now := target - 1\<rparr>"
  have pl: "all_placed (Suc (wh_now w)) w" and wf: "wh_wf w" using inv by (simp_all add: wh_inv_def)
  have hs: "set ?h = members w" and hd: "distinct ?h" using all_nodes_set [OF pl] all_nodes_distinct [OF wf] by simp_all
  have pr: "wh_prime target w = fold (prime_insert (Suc (wh_now v))) ?h v"
  proof -
    have "Suc (wh_now v) = (if target \<noteq> 0 then target else 1)" by (simp add: v_def)
    moreover have "target - 1 = (if target \<noteq> 0 then target - 1 else 0)" by simp
    ultimately show ?thesis unfolding wh_prime_def Let_def prime_insert_def v_def by (simp only:)
  qed
  have F: "wh_wf (fold wh_detach ?h w)" "members (fold wh_detach ?h w) = {}"
    using fold_detach_wf [OF wf hd] hs by simp_all
  have mv: "members v = {}" using F(2) by (simp add: v_def members_def)
  have b: "wh_bucket v l s = []" for l s
    using mv membersI [of _ v l s] by (cases "wh_bucket v l s") auto
  have lv: "\<not> linked v n" for n using wh_wfD(3) [OF F(1), of n] F(2) by (simp add: v_def)
  have "wh_count v = 0" by (simp add: v_def)
  with b lv have wv: "wh_wf v" by (intro wh_wfI) (simp_all add: mv)
  have ev: "etick v n = etick w n" for n by (simp add: v_def fold_detach_eq)
  have nv: "wh_now v = target - 1" by (simp add: v_def)
  have hz: "etick v n < wh_now v + 256 ^ 4" if "n \<in> set ?h" for n
    using inv that now hs by (fastforce simp: wh_inv_def horizon_def ev)
  have I: "wh_inv (fold (prime_insert (Suc (wh_now v))) ?h v) \<and>
     members (fold (prime_insert (Suc (wh_now v))) ?h v) = members v \<union> set ?h"
    by (rule fold_prime_insert_wf [OF wv _ _ hd]) (use mv b hz in \<open>auto simp: horizon_def all_placed_def\<close>)
  then show "wh_inv (wh_prime target w)" "members (wh_prime target w) = members w" using hs mv by (simp_all add: pr)
  obtain f where f: "wh_prime target w = v\<lparr>wh_node := (\<lambda>m. if m \<in> set ?h then (wh_node v m)\<lparr>tn_linked := True\<rparr> else wh_node v m),
       wh_bucket := f, wh_count := wh_count v + length ?h\<rparr>"
    using fold_prime_insert_eq [of "Suc (wh_now v)" ?h v] pr by auto
  have "(\<lambda>m. if m \<in> set ?h then (wh_node v m)\<lparr>tn_linked := True\<rparr> else wh_node v m) = wh_node w"
    using wh_wfD(3) [OF wf] hs by (auto simp: v_def fold_detach_eq)
  moreover have "length ?h = wh_count w" using wh_wfD(5) [OF wf] hs distinct_card [OF hd] by simp
  ultimately show "\<exists>f. wh_prime target w = w\<lparr>wh_now := target - 1, wh_primed := True, wh_bucket := f\<rparr>"
    using f by (intro exI [of _ f]) (simp add: v_def fold_detach_eq)
qed

text \<open>
  What the wheel asks of the code it calls: \<open>idle\<close> holds of the client's state between callbacks,
  \<open>firing n\<close> while node \<open>n\<close> is off the wheel and about to run. A callback must not move the wheel's
  clock, must put nothing into the slot being drained, and must leave the wheel well formed.
\<close>

locale wheel_client =
  fixes fire :: "nat \<Rightarrow> 'a wheel_scheme \<Rightarrow> 'a wheel_scheme option"
    and idle :: "'a wheel_scheme \<Rightarrow> bool"
    and firing :: "nat \<Rightarrow> 'a wheel_scheme \<Rightarrow> bool"
  assumes idle_frame: "idle w \<Longrightarrow> idle (w\<lparr>wh_now := t, wh_primed := p, wh_bucket := f\<rparr>)"
    and idle_detach: "idle w \<Longrightarrow> wh_mid w \<Longrightarrow> linked w n \<Longrightarrow> firing n (wh_detach n w)"
    and fire_ok: "firing n w \<Longrightarrow> wh_mid w \<Longrightarrow> \<not> linked w n \<Longrightarrow> etick w n \<le> wh_now w \<Longrightarrow>
      \<exists>w'. fire n w = Some w' \<and> idle w' \<and> wh_mid w' \<and> wh_now w' = wh_now w \<and> wh_primed w' = wh_primed w \<and>
        subseq (cur w') (cur w)"
begin

lemma expire_slot_ok:
  assumes "wh_mid w" "idle w"
  shows "\<exists>w'. wh_expire_slot fire (wh_now w mod 256) w = Some w' \<and> wh_inv w' \<and> idle w' \<and> wh_now w' = wh_now w \<and>
    wh_primed w' = wh_primed w"
  using assms
proof (induction "length (cur w)" arbitrary: w rule: less_induct)
  case less
  show ?case
  proof (cases "cur w")
    case Nil
    then show ?thesis using less.prems wh_mid_inv by (auto simp: wh_expire_slot.simps)
  next
    case (Cons n ns)
    let ?v = "wh_detach n w"
    have lk: "linked w n" using less.prems(1) Cons membersI [of n w 0 "wh_now w mod 256"] by (auto simp: wh_mid_def wh_wfD(3))
    have due: "etick w n \<le> wh_now w"
      using less.prems(1) Cons unfolding wh_mid_def by (metis list.set_intros(1))
    from mid_detach [OF less.prems(1) lk] idle_detach [OF less.prems(2,1) lk]
    obtain w' where w': "fire n ?v = Some w'" "idle w'" "wh_mid w'" "wh_now w' = wh_now w" "subseq (cur w') (cur ?v)"
      "wh_primed w' = wh_primed w"
      using fire_ok [of n ?v] due by auto
    have "length (cur w') < length (cur w)"
      using list_emb_length [OF w'(5)] Cons w'(4) by simp
    from less.hyps [OF this w'(3,2)] w'(4,6)
    obtain u where "wh_expire_slot fire (wh_now w mod 256) w' = Some u" "wh_inv u" "idle u" "wh_now u = wh_now w"
      "wh_primed u = wh_primed w" by auto
    then show ?thesis using Cons due w'(1) by (subst wh_expire_slot.simps) simp
  qed
qed

lemma step_ok:
  assumes "wh_inv w" "idle w"
  shows "\<exists>w'. wh_step fire w = Some w' \<and> wh_inv w' \<and> idle w' \<and> wh_now w' = Suc (wh_now w) \<and> wh_primed w' = wh_primed w"
proof -
  let ?u = "w\<lparr>wh_now := Suc (wh_now w)\<rparr>"
  let ?v = "wh_cascades ?u"
  note M = mid_of_cascades [OF assms(1)]
  then have "?v = w\<lparr>wh_now := Suc (wh_now w), wh_primed := wh_primed w, wh_bucket := wh_bucket ?v\<rparr>"
    by (simp add: rehomed_def)
  then have "idle ?v" using idle_frame [OF assms(2)] by metis
  from expire_slot_ok [OF M(1) this] rehomed_fields(1,4) [OF M(2)] show ?thesis
    by (simp add: wh_step_def Let_def)
qed

lemma loop_ok:
  "wh_inv w \<Longrightarrow> idle w \<Longrightarrow>
   \<exists>w'. wh_loop fire target k w = Some w' \<and> wh_inv w' \<and> idle w' \<and> wh_primed w' = wh_primed w \<and>
     wh_now w' = max (wh_now w) (min target (wh_now w + k))"
proof (induction k arbitrary: w)
  case (Suc k)
  show ?case
  proof (cases "wh_now w < target")
    case True
    obtain v where v: "wh_step fire w = Some v" "wh_inv v" "idle v" "wh_now v = Suc (wh_now w)" "wh_primed v = wh_primed w"
      using step_ok [OF Suc.prems] by blast
    then show ?thesis using Suc.IH [OF v(2,3)] True by auto
  qed (use Suc.prems in auto)
qed auto

lemma advance_ok:
  assumes inv: "wh_inv w" and idle: "idle w" and pr: "wh_primed w \<or> wh_now w = 0"
  shows "\<exists>w'. wh_advance fire target w = Some w' \<and> wh_inv w' \<and> idle w' \<and> wh_primed w'"
proof -
  define v where "v = (if \<not> wh_primed w then wh_prime target w else w)"
  have v: "wh_inv v \<and> idle v \<and> wh_primed v"
  proof (cases "wh_primed w")
    case False
    obtain f where "wh_prime target w = w\<lparr>wh_now := target - 1, wh_primed := True, wh_bucket := f\<rparr>"
      using prime_spec(3) [OF inv, of target] False pr by auto
    then have "idle (wh_prime target w)" "wh_primed (wh_prime target w)" using idle_frame [OF idle] by simp_all
    then show ?thesis using False pr prime_spec(1) [OF inv] by (simp add: v_def)
  qed (use inv idle in \<open>simp add: v_def\<close>)
  show ?thesis
  proof (cases "wh_count v = 0")
    case True
    have "v\<lparr>wh_now := target\<rparr> = v\<lparr>wh_now := target, wh_primed := wh_primed v, wh_bucket := wh_bucket v\<rparr>" by simp
    then have "idle (v\<lparr>wh_now := target\<rparr>)" using v idle_frame by metis
    moreover have "members v = {}" using True v by (auto simp: wh_inv_def wh_wf_def)
    then have "wh_inv (v\<lparr>wh_now := target\<rparr>)" using v
      by (auto simp: wh_inv_def wh_wf_def members_def horizon_def all_placed_def)
    ultimately show ?thesis using True v by (simp add: wh_advance_def v_def [symmetric] Let_def)
  next
    case False
    then show ?thesis using loop_ok [of v target "wh_max_ticks v"] v
      by (auto simp: wh_advance_def v_def [symmetric] Let_def)
  qed
qed

end


section \<open>Exactness\<close>

text \<open>A callback that only records which node it was called with.\<close>

definition wh_log :: "nat \<Rightarrow> nat list wheel_scheme \<Rightarrow> nat list wheel_scheme option" where
  "wh_log n w = Some (wheel.more_update (\<lambda>l. l @ [n]) w)"

lemma log_fields [simp]:
  "wh_now (wheel.more_update f w) = wh_now w" "wh_bucket (wheel.more_update f w) = wh_bucket w"
  "wh_node (wheel.more_update f w) = wh_node w" "members (wheel.more_update f w) = members w"
  "wheel.more (wheel.more_update f w) = f (wheel.more w)" "wh_primed (wheel.more_update f w) = wh_primed w"
  "wh_max_ticks (wheel.more_update f w) = wh_max_ticks w"
  "wh_mid (wheel.more_update f w) = wh_mid w"
  by (cases w; simp add: members_def wh_mid_def wh_wf_def horizon_def)+


lemma expire_slot_log:
  assumes "wh_mid w"
  shows "\<exists>w'. wh_expire_slot wh_log (wh_now w mod 256) w = Some w' \<and> wh_inv w' \<and>
    wh_now w' = wh_now w \<and> wh_max_ticks w' = wh_max_ticks w \<and> (\<forall>n. etick w' n = etick w n) \<and>
    wheel.more w' = wheel.more w @ cur w \<and> members w' = members w - set (cur w)"
  using assms
proof (induction "cur w" arbitrary: w)
  case Nil
  then show ?case using wh_mid_inv [of w] by (auto simp: wh_expire_slot.simps)
next
  case (Cons n ns)
  let ?v = "wh_detach n w"
  have n: "n \<in> set (cur w)" using Cons.hyps(2) by (metis list.set_intros(1))
  have wf: "wh_wf w" using Cons.prems by (simp add: wh_mid_def)
  have lk: "linked w n" using n membersI wh_wfD(3) [OF wf] by metis
  have due: "etick w n \<le> wh_now w" using Cons.prems n unfolding wh_mid_def by metis
  define u where "u = wheel.more_update (\<lambda>l. l @ [n]) ?v"
  have u: "wh_log n ?v = Some u" by (simp add: wh_log_def u_def)
  have cu: "ns = cur u" "wh_mid u" using mid_detach [OF Cons.prems lk] Cons.hyps(2)
    by (simp_all add: u_def Cons.hyps(2) [symmetric])
  have f: "wh_now u = wh_now w" "wh_max_ticks u = wh_max_ticks w" "\<And>m. etick u m = etick w m"
    "wheel.more u = wheel.more w @ [n]" "members u = members w - {n}"
    by (simp_all add: u_def detach_members [OF wf])
  from Cons.hyps(1) [OF cu] obtain w' where
    "wh_expire_slot wh_log (wh_now w mod 256) u = Some w'" "wh_inv w'" "wh_now w' = wh_now w" 
    "wh_max_ticks w' = wh_max_ticks w" "\<forall>n. etick w' n = etick w n"
    "wheel.more w' = wheel.more w @ [n] @ ns" "members w' = members w - {n} - set ns"
    using cu(1) unfolding f by auto
  moreover have "wh_expire_slot wh_log (wh_now w mod 256) w = wh_expire_slot wh_log (wh_now w mod 256) u"
    using Cons.hyps(2) due u by (subst wh_expire_slot.simps) (simp add: Cons.hyps(2) [symmetric])
  ultimately show ?case by (auto simp: Cons.hyps(2) [symmetric])
qed

lemma step_log:
  assumes "wh_inv w"
  shows "\<exists>w' ns. wh_step wh_log w = Some w' \<and> wh_inv w' \<and> wh_now w' = Suc (wh_now w) \<and>
    (\<forall>n. etick w' n = etick w n) \<and> wheel.more w' = wheel.more w @ ns \<and> distinct ns \<and>
    set ns = {n \<in> members w. etick w n \<le> Suc (wh_now w)} \<and> members w' = members w - set ns"
proof -
  let ?u = "w\<lparr>wh_now := Suc (wh_now w)\<rparr>"
  let ?v = "wh_cascades ?u"
  note M = mid_of_cascades [OF assms]
  note f = rehomed_fields [OF M(2)]
  have mem: "members ?v = members w" using M(2) by (simp add: rehomed_def members_def)
  obtain w' where w': "wh_expire_slot wh_log (wh_now ?v mod 256) ?v = Some w'" "wh_inv w'" "wh_now w' = wh_now ?v"
    "\<forall>n. etick w' n = etick ?v n" "wheel.more w' = wheel.more ?v @ cur ?v" "members w' = members ?v - set (cur ?v)"
    using expire_slot_log [OF M(1)] by blast
  have "distinct (cur ?v)" using M(1) by (simp add: wh_mid_def wh_wfD(1))
  moreover have "wh_step wh_log w = Some w'" using w'(1) by (simp add: wh_step_def Let_def)
  ultimately show ?thesis using w'(2-6) f(1,2,6) M(3) mem by (intro exI [of _ w'] exI [of _ "cur ?v"]) simp
qed

text \<open>
  One run of the tick loop fires, once each and in the order they are due, exactly the nodes whose
  tick has come.
\<close>

lemma loop_log:
  "wh_inv w \<Longrightarrow> wh_now w \<le> target \<Longrightarrow> target \<le> wh_now w + k \<Longrightarrow>
   \<exists>w' ns. wh_loop wh_log target k w = Some w' \<and> wh_inv w' \<and> wh_now w' = target \<and>
    (\<forall>n. etick w' n = etick w n) \<and> wheel.more w' = wheel.more w @ ns \<and> distinct ns \<and>
    set ns = {n \<in> members w. etick w n \<le> target \<and> wh_now w < target} \<and> members w' = members w - set ns \<and>
    sorted_wrt (\<lambda>a b. max (etick w a) (Suc (wh_now w)) \<le> max (etick w b) (Suc (wh_now w))) ns"
proof (induction k arbitrary: w)
  case 0
  then show ?case by (intro exI [of _ w] exI [of _ "[]"]) auto
next
  case (Suc k)
  show ?case
  proof (cases "wh_now w < target")
    case False
    with Suc.prems show ?thesis by (intro exI [of _ w] exI [of _ "[]"]) auto
  next
    case True
    obtain v ns where v: "wh_step wh_log w = Some v" "wh_inv v" "wh_now v = Suc (wh_now w)"
      "\<forall>n. etick v n = etick w n" "wheel.more v = wheel.more w @ ns" "distinct ns"
      "set ns = {n \<in> members w. etick w n \<le> Suc (wh_now w)}" "members v = members w - set ns"
      using step_log [OF Suc.prems(1)] by blast
    have le: "wh_now v \<le> target" "target \<le> wh_now v + k" using v(3) True Suc.prems by simp_all
    obtain u ms where u: "wh_loop wh_log target k v = Some u" "wh_inv u" "wh_now u = target"
      "\<forall>n. etick u n = etick v n" "wheel.more u = wheel.more v @ ms" "distinct ms"
      "set ms = {n \<in> members v. etick v n \<le> target \<and> wh_now v < target}" "members u = members v - set ms"
      "sorted_wrt (\<lambda>a b. max (etick v a) (Suc (wh_now v)) \<le> max (etick v b) (Suc (wh_now v))) ms"
      using Suc.IH [OF v(2) le] by blast
    have big: "Suc (wh_now w) < etick w n" if "n \<in> set ms" for n using that u(7) v(4,7,8) by auto
    have 1: "set (ns @ ms) = {n \<in> members w. etick w n \<le> target \<and> wh_now w < target}"
      using u(7) v(3,4,7,8) True by (auto simp: less_Suc_eq_le)
    have 2: "sorted_wrt (\<lambda>a b. max (etick w a) (Suc (wh_now w)) \<le> max (etick w b) (Suc (wh_now w))) (ns @ ms)"
    proof -
      have "sorted_wrt (\<lambda>a b. max (etick w a) (Suc (wh_now w)) \<le> max (etick w b) (Suc (wh_now w))) ns"
        using v(7) by (intro sorted_wrt_mono_rel [OF _ sorted_wrt_true]) auto
      moreover have "sorted_wrt (\<lambda>a b. max (etick w a) (Suc (wh_now w)) \<le> max (etick w b) (Suc (wh_now w))) ms"
        using big v(3,4) by (intro sorted_wrt_mono_rel [OF _ u(9)]) fastforce
      ultimately show ?thesis using v(7) by (auto simp: sorted_wrt_append)
    qed
    have "distinct (ns @ ms)" using v(6) u(6,7) v(8) by auto
    then show ?thesis using 1 2 u v True by (intro exI [of _ u] exI [of _ "ns @ ms"]) auto
  qed
qed


text \<open>
  C8: the wheel fires exactly what is due, once, in order. Advancing to \<open>target\<close> (within the call's
  tick budget) calls back exactly the queued nodes whose expiry tick is at most \<open>target\<close>, each
  once, in nondecreasing order of due tick (an overdue node being due at the next tick); every other
  node stays queued and the wheel is well formed at \<open>target\<close>. This covers the first call, which
  anchors the epoch.
\<close>

theorem advance_fires_exactly_due:
  assumes inv: "wh_inv w" and pr: "wh_primed w \<or> wh_now w = 0"
    and t: "wh_now w < target" "wh_primed w \<longrightarrow> target \<le> wh_now w + wh_max_ticks w" "0 < wh_max_ticks w"
  shows "\<exists>w' ns. wh_advance wh_log target w = Some w' \<and> wh_inv w' \<and> wh_now w' = target \<and>
    wheel.more w' = wheel.more w @ ns \<and> distinct ns \<and>
    set ns = {n. linked w n \<and> etick w n \<le> target} \<and>
    (\<forall>n. linked w' n \<longleftrightarrow> linked w n \<and> target < etick w n) \<and>
    (wh_primed w \<longrightarrow> sorted_wrt (\<lambda>a b. max (etick w a) (Suc (wh_now w)) \<le> max (etick w b) (Suc (wh_now w))) ns)"
proof -
  define v where "v = (if \<not> wh_primed w then wh_prime target w else w)"
  have P: "wh_node (wh_prime target w) = wh_node w" "wheel.more (wh_prime target w) = wheel.more w"
    "wh_now (wh_prime target w) = target - 1" "wh_max_ticks (wh_prime target w) = wh_max_ticks w" if "\<not> wh_primed w"
  proof -
    from prime_spec(3) [OF inv] that pr obtain f
      where "wh_prime target w = w\<lparr>wh_now := target - 1, wh_primed := True, wh_bucket := f\<rparr>" by blast
    then show "wh_node (wh_prime target w) = wh_node w" "wheel.more (wh_prime target w) = wheel.more w"
      "wh_now (wh_prime target w) = target - 1" "wh_max_ticks (wh_prime target w) = wh_max_ticks w" by simp_all
  qed
  have v: "wh_inv v" "members v = members w" "wh_node v = wh_node w" "wheel.more v = wheel.more w"
    "wh_now v < target" "target \<le> wh_now v + wh_max_ticks v" "wh_primed w \<longrightarrow> v = w"
    using prime_spec(1,2) [OF inv] pr inv t P by (auto simp: v_def)
  have lk: "linked u n \<longleftrightarrow> n \<in> members u" if "wh_inv u" for u :: "nat list wheel_scheme" and n
    using that by (simp add: wh_inv_def wh_wfD(3))
  show ?thesis
  proof (cases "wh_count v = 0")
    case True
    then have e: "members v = {}" using v(1) by (auto simp: wh_inv_def wh_wf_def)
    have nol: "\<not> linked w n" for n using lk [OF inv, of n] e v(2) by simp
    have "wh_inv (v\<lparr>wh_now := target\<rparr>)" using v(1) e
      by (auto simp: wh_inv_def wh_wf_def members_def horizon_def all_placed_def)
    then show ?thesis using True v(3-5) nol
      by (intro exI [of _ "v\<lparr>wh_now := target\<rparr>"] exI [of _ "[]"]) (simp add: wh_advance_def v_def [symmetric] Let_def)
  next
    case False
    obtain w' ns where w': "wh_loop wh_log target (wh_max_ticks v) v = Some w'" "wh_inv w'" "wh_now w' = target"
      "\<forall>n. etick w' n = etick v n" "wheel.more w' = wheel.more v @ ns" "distinct ns"
      "set ns = {n \<in> members v. etick v n \<le> target \<and> wh_now v < target}" "members w' = members v - set ns"
      "sorted_wrt (\<lambda>a b. max (etick v a) (Suc (wh_now v)) \<le> max (etick v b) (Suc (wh_now v))) ns"
      using loop_log [OF v(1) _ v(6)] v(5) by (meson less_imp_le)
    have "wh_advance wh_log target w = Some w'" using False w'(1) by (simp add: wh_advance_def v_def [symmetric] Let_def)
    moreover have "linked w' n \<longleftrightarrow> linked w n \<and> target < etick w n" for n
      using lk [OF w'(2), of n] lk [OF inv, of n] w'(7,8) v(2,3,5) by auto
    moreover have "set ns = {n. linked w n \<and> etick w n \<le> target}" using w'(7) lk [OF inv] v(2,3,5) by auto
    ultimately show ?thesis using w' v by (intro exI [of _ w'] exI [of _ ns]) auto
  qed
qed


lemma wh_inv_new: "(\<And>n. \<not> tn_linked (nodes n)) \<Longrightarrow> wh_inv (wh_new tk nodes x)"
  by (simp add: wh_inv_def wh_wf_def members_def horizon_def all_placed_def wh_new_def)

lemma wh_inv_insert:
  assumes inv: "wh_inv w" and n: "\<not> linked w n" and fits: "wh_fits (etick w n) (wh_now w)"
  shows "wh_inv (wh_insert n (wh_now w) w)"
proof -
  let ?et = "max (etick w n) (Suc (wh_now w))"
  have "?et = (if etick w n > wh_now w then etick w n else wh_now w + 1)" by auto
  then have i: "wh_insert n (wh_now w) w = wh_insert_node n ?et (wh_now w) w" by (simp add: wh_insert_def)
  have e: "etick w n < wh_now w + 256 ^ 4" using fits by (simp add: wh_fits_iff)
  have "wh_wf (wh_insert_node n ?et (wh_now w) w)" using inv n by (intro wf_insert_node) (simp_all add: wh_inv_def)
  moreover have "all_placed (Suc (wh_now w)) (wh_insert_node n ?et (wh_now w) w)"
    using inv e by (intro placed_insert) (auto simp: wh_inv_def)
  moreover have "horizon (wh_insert_node n ?et (wh_now w) w)" using inv e by (auto simp: wh_inv_def horizon_def)
  ultimately show ?thesis by (simp add: wh_inv_def i)
qed

lemma wh_inv_detach: "wh_inv w \<Longrightarrow> linked w n \<Longrightarrow> wh_inv (wh_detach n w)"
  using wf_detach [of w n] placed_detach [of w _ n] by (auto simp: wh_inv_def horizon_def detach_members)

lemma wh_insert_fields [simp]:
  "wh_now (wh_insert n t w) = wh_now w" "wh_primed (wh_insert n t w) = wh_primed w"
  "wh_max_ticks (wh_insert n t w) = wh_max_ticks w" "wh_tick (wh_insert n t w) = wh_tick w"
  "etick (wh_insert n t w) m = etick w m" "wheel.more (wh_insert n t w) = wheel.more w"
  "linked (wh_insert n t w) m \<longleftrightarrow> m = n \<or> linked w m"
  by (simp_all add: wh_insert_def)

definition sample_node :: "nat \<Rightarrow> timer_node" where
  "sample_node e = \<lparr>tn_expiry = 0, tn_expiry_tick = e, tn_period = 0, tn_mode = FixedRate, tn_fn = 0,
     tn_linked = False, tn_group = null_handle, tn_ctx = cx_empty, tn_id = null_handle, tn_cancelled = False,
     tn_in_heap = False, tn_precise = False, tn_heap_idx = 0\<rparr>"

definition sample_wheel :: "nat list wheel_scheme" where
  "sample_wheel = wh_insert 2 0 (wh_insert 1 0 (wh_insert 0 0
     (wh_new 1000000 (\<lambda>n. sample_node ([70000, 3, 300] ! n)) [])))"

lemma sample_wheel_inv: "wh_inv sample_wheel"
  and sample_wheel_fields: "wh_now sample_wheel = 0" "\<not> wh_primed sample_wheel" "wh_max_ticks sample_wheel = 4096"
    "etick sample_wheel n = [70000, 3, 300] ! n" "linked sample_wheel n \<longleftrightarrow> n < 3" "wheel.more sample_wheel = []"
proof -
  let ?w0 = "wh_new 1000000 (\<lambda>n. sample_node ([70000, 3, 300] ! n)) [] :: nat list wheel_scheme"
  let ?w1 = "wh_insert 0 (wh_now ?w0) ?w0"
  let ?w2 = "wh_insert 1 (wh_now ?w1) ?w1"
  have f: "\<not> linked ?w0 n" "wh_now ?w0 = 0" "etick ?w0 n = [70000, 3, 300] ! n" "\<not> wh_primed ?w0"
    "wh_max_ticks ?w0 = 4096" "wheel.more ?w0 = []" for n
    by (simp_all add: wh_new_def sample_node_def)
  have 0: "wh_inv ?w0" by (rule wh_inv_new) (simp add: sample_node_def)
  have 1: "wh_inv ?w1" by (rule wh_inv_insert [OF 0]) (simp_all add: f wh_fits_iff)
  have 2: "wh_inv ?w2" by (rule wh_inv_insert [OF 1]) (simp_all add: f wh_fits_iff)
  have "wh_inv (wh_insert 2 (wh_now ?w2) ?w2)" by (rule wh_inv_insert [OF 2]) (simp_all add: f wh_fits_iff)
  then show "wh_inv sample_wheel" by (simp add: sample_wheel_def f)
  show "wh_now sample_wheel = 0" "\<not> wh_primed sample_wheel" "wh_max_ticks sample_wheel = 4096"
    "etick sample_wheel n = [70000, 3, 300] ! n" "wheel.more sample_wheel = []"
    by (simp_all add: sample_wheel_def f)
  show "linked sample_wheel n \<longleftrightarrow> n < 3" by (auto simp: sample_wheel_def f)
qed

theorem advance_fires_exactly_due_witness:
  "\<exists>w' ns. wh_advance wh_log 300 sample_wheel = Some w' \<and> wh_now w' = 300 \<and> wheel.more w' = ns \<and>
     distinct ns \<and> set ns = {1, 2} \<and> linked w' 0"
proof -
  have s: "{n. linked sample_wheel n \<and> etick sample_wheel n \<le> 300} = {1, 2}"
    by (auto simp: sample_wheel_fields less_Suc_eq numeral_3_eq_3)
  have "linked sample_wheel 0 \<and> 300 < etick sample_wheel 0" by (simp add: sample_wheel_fields)
  moreover obtain w' ns where "wh_advance wh_log 300 sample_wheel = Some w'" "wh_now w' = 300"
    "wheel.more w' = wheel.more sample_wheel @ ns" "distinct ns"
    "set ns = {n. linked sample_wheel n \<and> etick sample_wheel n \<le> 300}"
    "\<forall>n. linked w' n \<longleftrightarrow> linked sample_wheel n \<and> 300 < etick sample_wheel n"
    using advance_fires_exactly_due [OF sample_wheel_inv, of 300] sample_wheel_fields(1-3) by auto
  ultimately show ?thesis using s sample_wheel_fields(6) by (intro exI [of _ w'] exI [of _ ns]) simp
qed

section \<open>Ticks and time\<close>

lemma sdiv_nonneg: "0 \<le> a \<Longrightarrow> 0 < b \<Longrightarrow> (a :: int) sdiv b = a div b"
  by (simp add: signed_divide_int_def sgn_if)

text \<open>
  ticks never make a timer early, and make it late by less than one tick. For non-negative
  times below \<open>2 ^ 63\<close> ns, if the wheel has reached the timer's tick then its deadline has passed,
  and once the deadline is a full tick minus 1 ns in the past the wheel has reached its tick.
\<close>

theorem ticks_never_early:
  assumes "0 < tk" "0 \<le> t" "t + tk < 2 ^ 63" "0 \<le> now" "now < 2 ^ 63"
  shows "(tick_of tk t \<le> floor_tick tk now \<longrightarrow> t \<le> now) \<and>
         (t + tk - 1 \<le> now \<longrightarrow> tick_of tk t \<le> floor_tick tk now)"
proof -
  have le: "x div tk \<le> x" if "0 \<le> x" for x using that assms(1) zdiv_mono2 [of x 1 tk] by simp
  have t: "tick_of tk t = nat ((t + tk - 1) div tk)"
    using assms le [of "t + tk - 1"] pos_imp_zdiv_nonneg_iff [of tk "t + tk - 1"]
    by (simp add: tick_of_def sdiv_nonneg mod_pos_pos_trivial)
  have f: "floor_tick tk now = nat (now div tk)"
    using assms le [of now] pos_imp_zdiv_nonneg_iff [of tk now]
    by (simp add: floor_tick_def sdiv_nonneg mod_pos_pos_trivial)
  have "t \<le> now" if "(t + tk - 1) div tk \<le> now div tk"
  proof -
    have "t + tk - 1 < ((t + tk - 1) div tk) * tk + tk"
      using assms(1) by (metis add.commute mult_div_mod_eq pos_mod_bound add_less_cancel_left mult.commute)
    also have "\<dots> \<le> now div tk * tk + tk" using that assms(1) by simp
    also have "\<dots> \<le> now + tk" using assms(1) by (simp add: mult.commute) (metis minus_mod_eq_mult_div pos_mod_sign diff_le_eq le_add_same_cancel1)
    finally show ?thesis by simp
  qed
  moreover have "(t + tk - 1) div tk \<le> now div tk" if "t + tk - 1 \<le> now" using that assms(1) by (rule zdiv_mono1)
  ultimately show ?thesis
    using t f assms(1,4) pos_imp_zdiv_nonneg_iff [of tk now] by (simp add: nat_le_eq_zle)
qed

theorem ticks_never_early_witness:
  "tick_of 1000000 1500000 = 2 \<and> tick_of 1000000 1500000 \<le> floor_tick 1000000 2500000"
  using ticks_never_early [of 1000000 1500000 2500000] by (simp add: tick_of_def sdiv_nonneg)


section \<open>The next tick with work\<close>

lemma slot_due_after: "now < wh_slot_due now l j"
proof -
  have "now < 256 ^ l * 256 + now div (256 ^ l * 256) * (256 ^ l * 256)" by (rule dividend_less_div_times) simp
  then show ?thesis by (simp add: wh_slot_due_def Let_def)
qed

lemma slot_due_le:
  assumes "now < q * 256 ^ l"
  shows "wh_slot_due now l (q mod 256) \<le> q * 256 ^ l"
proof -
  let ?S = "256 ^ l * (256 :: nat)"
  have "q * 256 ^ l = (q div 256 * 256 + q mod 256) * 256 ^ l" by (simp only: div_mult_mod_eq)
  also have "\<dots> = q div 256 * 256 * 256 ^ l + q mod 256 * 256 ^ l" by (rule add_mult_distrib)
  also have "q div 256 * 256 * 256 ^ l = q div 256 * ?S" by (simp only: ac_simps)
  finally have q: "q * 256 ^ l = q div 256 * ?S + q mod 256 * 256 ^ l" .
  have "q mod 256 * 256 ^ l < ?S" by (simp add: mult.commute)
  then have lt: "q * 256 ^ l < (q div 256 + 1) * ?S" using q by (simp add: add_mult_distrib)
  have ge: "now div ?S \<le> q div 256"
  proof -
    have "now < (q div 256 + 1) * ?S" using assms lt by simp
    then have "now div ?S < q div 256 + 1" by (simp add: div_less_iff_less_mult)
    then show ?thesis by simp
  qed
  show ?thesis
  proof (cases "now div ?S = q div 256")
    case True
    then show ?thesis using q assms by (simp add: wh_slot_due_def Let_def)
  next
    case False
    with ge have "now div ?S + 1 \<le> q div 256" by simp
    then have "(now div ?S + 1) * ?S \<le> q div 256 * ?S" by (rule mult_le_mono1)
    then show ?thesis unfolding q using ge by (simp add: wh_slot_due_def Let_def add_mult_distrib)
  qed
qed

lemma fold_min_le:
  fixes f :: "'b \<Rightarrow> nat" and P :: "'b \<Rightarrow> bool"
  defines "g \<equiv> \<lambda>x best. if P x then best else if f x < best then f x else best"
  shows "fold g xs init \<le> init" and "x \<in> set xs \<Longrightarrow> \<not> P x \<Longrightarrow> fold g xs init \<le> f x"
    and "k < init \<Longrightarrow> (\<And>y. y \<in> set xs \<Longrightarrow> k < f y) \<Longrightarrow> k < fold g xs init"
proof -
  have 1: "fold g xs i \<le> i" for xs i
  proof (induction xs arbitrary: i)
    case (Cons y ys)
    have "g y i \<le> i" by (simp add: g_def)
    with Cons [of "g y i"] show ?case by simp
  qed simp
  then show "fold g xs init \<le> init" .
  show "x \<in> set xs \<Longrightarrow> \<not> P x \<Longrightarrow> fold g xs init \<le> f x"
  proof (induction xs arbitrary: init)
    case (Cons y ys)
    show ?case
    proof (cases "x = y")
      case True
      have "g y init \<le> f x" using True Cons.prems(2) by (simp add: g_def)
      with 1 [of ys "g y init"] show ?thesis by simp
    qed (use Cons in simp)
  qed simp
  show "k < init \<Longrightarrow> (\<And>y. y \<in> set xs \<Longrightarrow> k < f y) \<Longrightarrow> k < fold g xs init"
    by (induction xs arbitrary: init) (simp_all add: g_def)
qed

text \<open>
  a scheduler may jump straight to \<open>next_due_tick\<close>. On a well-formed wheel it is after the
  current tick and at most the tick any queued node is due, so no timer is skipped by moving the
  clock there.
\<close>

theorem next_due_is_lower_bound:
  assumes inv: "wh_inv w" and n: "linked w n" and h: "wh_now w < 2 ^ 64 - 1"
  shows "wh_now w < wh_next_due w \<and> wh_next_due w \<le> max (etick w n) (Suc (wh_now w))"
proof -
  let ?f = "\<lambda>(l, j). wh_slot_due (wh_now w) l j" and ?P = "\<lambda>(l, j). wh_bucket w l j = []"
  let ?xs = "List.product [0..<4] [0..<256]" and ?b = "Suc (wh_now w)"
  have wf: "wh_wf w" and pl: "all_placed ?b w" using inv by (simp_all add: wh_inv_def)
  obtain l s where ls: "n \<in> set (wh_bucket w l s)" using n wh_wfD(3) [OF wf] by (auto simp: members_def)
  have "wh_count w \<noteq> 0" using wh_wfD(3-5) [OF wf] n by auto
  then have nd: "wh_next_due w = fold (\<lambda>x best. if ?P x then best else if ?f x < best then ?f x else best) ?xs (2 ^ 64 - 1)"
    unfolding wh_next_due_def by (simp only: if_False case_prod_unfold)
  have p: "placed ?b (etick w n) l s" using pl ls by (simp add: all_placed_def)
  have m: "(l, s) \<in> set ?xs" using placed_level [OF pl ls] by (simp del: upt_rec_numeral)
  have ne: "\<not> ?P (l, s)" using ls by auto
  let ?q = "max (etick w n) ?b div 256 ^ l"
  have "wh_now w < ?q * 256 ^ l" "s = ?q mod 256" using p by (simp_all add: placed_def wh_slot_def)
  then have "?f (l, s) \<le> ?q * 256 ^ l" using slot_due_le by simp
  also have "\<dots> \<le> max (etick w n) ?b" by (rule div_times_less_eq_dividend)
  finally have "?f (l, s) \<le> max (etick w n) ?b" .
  moreover have "wh_next_due w \<le> ?f (l, s)" unfolding nd by (rule fold_min_le(2) [where f = ?f and P = ?P and x = "(l, s)", OF m ne])
  moreover have "wh_now w < wh_next_due w" unfolding nd using h
    by (intro fold_min_le(3)) (auto simp: slot_due_after)
  ultimately show ?thesis by simp
qed

theorem next_due_is_lower_bound_witness:
  "0 < wh_next_due sample_wheel \<and> wh_next_due sample_wheel \<le> 3"
  using next_due_is_lower_bound [OF sample_wheel_inv, of 1] by (simp add: sample_wheel_fields)

end
