(* ===== verification/Intrusive_List.thy ===== *)
theory Intrusive_List
  imports Timer_Wheel
begin

text \<open>
  The circular doubly linked lists through \<open>TimerNode\<close> in
  \<^verbatim>\<open>include/afx/core/timer_wheel.hpp\<close>, with their pointers. A store maps addresses to the
  \<open>prev\<close> and \<open>next\<close> fields, \<open>None\<close> being null; following a null pointer makes an operation \<open>None\<close>.
  The wheel's buckets and the timer groups use the same code over different fields. The last section
  relates the buckets of the wheel to the lists the wheel model works on.
\<close>

section \<open>Operations\<close>

record 'p links =
  ln_prev :: "'p \<Rightarrow> 'p option"
  ln_next :: "'p \<Rightarrow> 'p option"

definition list_init :: "'p \<Rightarrow> 'p links \<Rightarrow> 'p links" where
  "list_init s st = st\<lparr>ln_prev := (ln_prev st)(s \<mapsto> s), ln_next := (ln_next st)(s \<mapsto> s)\<rparr>"

definition list_empty :: "'p links \<Rightarrow> 'p \<Rightarrow> bool" where
  "list_empty st s \<longleftrightarrow> ln_next st s = Some s"

definition list_push_back :: "'p \<Rightarrow> 'p \<Rightarrow> 'p links \<Rightarrow> 'p links option" where
  "list_push_back s n st =
     (let st1 = st\<lparr>ln_prev := (ln_prev st)(n := ln_prev st s), ln_next := (ln_next st)(n \<mapsto> s)\<rparr>
      in do { p \<leftarrow> ln_prev st1 s;
              Some (st1\<lparr>ln_next := (ln_next st1)(p \<mapsto> n), ln_prev := (ln_prev st1)(s \<mapsto> n)\<rparr>) })"

definition list_unlink :: "'p \<Rightarrow> 'p links \<Rightarrow> 'p links option" where
  "list_unlink n st =
     do { p \<leftarrow> ln_prev st n;
          let st1 = st\<lparr>ln_next := (ln_next st)(p := ln_next st n)\<rparr>;
          q \<leftarrow> ln_next st1 n;
          let st2 = st1\<lparr>ln_prev := (ln_prev st1)(q := ln_prev st1 n)\<rparr>;
          Some (st2\<lparr>ln_prev := (ln_prev st2)(n := None), ln_next := (ln_next st2)(n := None)\<rparr>) }"

definition list_linked :: "'p links \<Rightarrow> 'p \<Rightarrow> bool" where
  "list_linked st n \<longleftrightarrow> ln_next st n \<noteq> None"

definition glist_unlink :: "'p \<Rightarrow> 'p links \<Rightarrow> 'p links option" where
  "glist_unlink n st = (if ln_next st n = None then Some st else list_unlink n st)"

section \<open>Rings\<close>

text \<open>A path of nodes \<open>xs\<close> from \<open>a\<close> to \<open>b\<close>, with both directions of every edge.\<close>

fun path :: "'p links \<Rightarrow> 'p \<Rightarrow> 'p list \<Rightarrow> 'p \<Rightarrow> bool" where
  "path st a [] b \<longleftrightarrow> ln_next st a = Some b \<and> ln_prev st b = Some a"
| "path st a (x # xs) b \<longleftrightarrow> ln_next st a = Some x \<and> ln_prev st x = Some a \<and> path st x xs b"

definition ring :: "'p links \<Rightarrow> 'p \<Rightarrow> 'p list \<Rightarrow> bool" where
  "ring st s xs \<longleftrightarrow> distinct (s # xs) \<and> path st s xs s"

lemma path_append: "path st a (xs @ y # ys) b \<longleftrightarrow> path st a xs y \<and> path st y ys b"
  by (induction xs arbitrary: a) auto

lemma path_frame:
  "(\<And>p. p \<in> set (a # xs) \<Longrightarrow> ln_next st' p = ln_next st p) \<Longrightarrow>
   (\<And>p. p \<in> set (xs @ [b]) \<Longrightarrow> ln_prev st' p = ln_prev st p) \<Longrightarrow> path st' a xs b = path st a xs b"
  by (induction xs arbitrary: a) auto

lemma path_last: "path st a xs b \<Longrightarrow> ln_prev st b = Some (last (a # xs))"
  by (induction xs arbitrary: a) auto

lemma path_first: "path st a xs b \<Longrightarrow> ln_next st a = Some (hd (xs @ [b]))"
  by (cases xs) auto

text \<open>Replacing the first or the last edge of a path.\<close>

lemma path_set_last:
  assumes "path st a xs b" "distinct (a # xs)"
    and "\<And>p. p \<in> set (butlast (a # xs)) \<Longrightarrow> ln_next st' p = ln_next st p"
    and "\<And>p. p \<in> set xs \<Longrightarrow> ln_prev st' p = ln_prev st p"
    and "ln_next st' (last (a # xs)) = Some c" "ln_prev st' c = Some (last (a # xs))"
  shows "path st' a xs c"
  using assms by (induction xs arbitrary: a) (auto split: if_splits)

lemma ring_init: "ring (list_init s st) s []"
  by (simp add: ring_def list_init_def)

lemma ring_empty_iff: "ring st s xs \<Longrightarrow> list_empty st s \<longleftrightarrow> xs = []"
  by (cases xs) (auto simp: ring_def list_empty_def)

lemma ring_frame:
  "ring st t ys \<Longrightarrow> (\<And>p. p \<in> set (t # ys) \<Longrightarrow> ln_next st' p = ln_next st p \<and> ln_prev st' p = ln_prev st p) \<Longrightarrow>
   ring st' t ys"
  unfolding ring_def using path_frame [of t ys st' st t] by auto

lemma ring_linked: "ring st s xs \<Longrightarrow> n \<in> set (s # xs) \<Longrightarrow> list_linked st n"
proof -
  assume r: "ring st s xs" and n: "n \<in> set (s # xs)"
  then obtain ys zs where "s # xs = ys @ n # zs" by (metis split_list)
  then show ?thesis using r
    by (cases ys) (auto simp: ring_def list_linked_def path_append dest: path_first)
qed

lemma ring_push_back:
  assumes r: "ring st s xs" and n: "n \<notin> set (s # xs)"
  shows "\<exists>st'. list_push_back s n st = Some st' \<and> ring st' s (xs @ [n]) \<and>
    (\<forall>p. p \<notin> set (n # s # xs) \<longrightarrow> ln_next st' p = ln_next st p \<and> ln_prev st' p = ln_prev st p) \<and>
    (\<forall>p. list_linked st' p \<longleftrightarrow> list_linked st p \<or> p = n)"
proof -
  let ?l = "last (s # xs)"
  have P: "path st s xs s" "distinct (s # xs)" using r by (simp_all add: ring_def)
  have pl: "ln_prev st s = Some ?l" using path_last [OF P(1)] .
  define st' where "st' = st\<lparr>ln_prev := (ln_prev st)(n \<mapsto> ?l, s \<mapsto> n), ln_next := (ln_next st)(n \<mapsto> s, ?l \<mapsto> n)\<rparr>"
  have l: "?l \<in> set (s # xs)" by (rule last_in_set) simp
  have run: "list_push_back s n st = Some st'"
    using pl n by (auto simp: list_push_back_def Let_def st'_def)
  have "path st' s xs n"
  proof (rule path_set_last [OF P])
    fix p assume "p \<in> set (butlast (s # xs))"
    then have "p \<in> set (s # xs)" "p \<noteq> ?l" using set_butlast_distinct [OF P(2)] by (auto dest: in_set_butlastD)
    then show "ln_next st' p = ln_next st p" using n by (auto simp: st'_def)
  qed (use n l P(2) in \<open>auto simp: st'_def\<close>)
  moreover have "path st' n [] s" using n l by (auto simp: st'_def)
  ultimately have "ring st' s (xs @ [n])" using n P(2) path_append [of st' s xs n "[]" s] by (auto simp: ring_def)
  moreover have "list_linked st ?l" by (rule ring_linked [OF r l])
  ultimately show ?thesis using run l by (auto simp: st'_def list_linked_def)
qed


lemma ring_unlink:
  assumes r: "ring st s xs" and n: "n \<in> set xs"
  shows "\<exists>st'. list_unlink n st = Some st' \<and> ring st' s (remove1 n xs) \<and>
    (\<forall>p. p \<notin> set (s # xs) \<longrightarrow> ln_next st' p = ln_next st p \<and> ln_prev st' p = ln_prev st p) \<and>
    (\<forall>p. list_linked st' p \<longleftrightarrow> list_linked st p \<and> p \<noteq> n)"
proof -
  obtain ys zs where xs: "xs = ys @ n # zs" using n by (metis split_list)
  let ?p = "last (s # ys)" and ?q = "hd (zs @ [s])"
  have d: "distinct (s # ys @ n # zs)" and P: "path st s ys n" "path st n zs s"
    using r by (simp_all add: ring_def xs path_append)
  have pq: "ln_prev st n = Some ?p" "ln_next st n = Some ?q" using path_last [OF P(1)] path_first [OF P(2)] .
  have p: "?p \<in> set (s # ys)" by (rule last_in_set) simp
  have q: "?q \<in> set (zs @ [s])" by (rule hd_in_set) simp
  have ne: "?p \<noteq> n" "?q \<noteq> n" using p q d by (auto simp del: last.simps)
  define st' where "st' = st\<lparr>ln_prev := (ln_prev st)(?q \<mapsto> ?p, n := None), ln_next := (ln_next st)(?p \<mapsto> ?q, n := None)\<rparr>"
  have run: "list_unlink n st = Some st'" using pq ne by (simp add: list_unlink_def Let_def st'_def)
  have 1: "path st' s ys ?q"
  proof (rule path_set_last [OF P(1)])
    fix x assume "x \<in> set (butlast (s # ys))"
    then have "x \<in> set (s # ys)" "x \<noteq> ?p" using set_butlast_distinct [of "s # ys"] d by (auto dest: in_set_butlastD)
    then show "ln_next st' x = ln_next st x" using d by (auto simp: st'_def simp del: last.simps)
  qed (use d p q ne in \<open>auto simp: st'_def simp del: last.simps\<close>)
  have "path st' s (ys @ zs) s"
  proof (cases zs)
    case Nil
    then show ?thesis using 1 by simp
  next
    case (Cons z zs')
    have "path st z zs' s" using P(2) Cons by simp
    moreover have "path st' z zs' s = path st z zs' s"
      by (rule path_frame) (use d p Cons in \<open>auto simp: st'_def simp del: last.simps\<close>)
    ultimately show ?thesis using 1 Cons by (simp add: path_append)
  qed
  moreover have "remove1 n xs = ys @ zs" using d xs by (simp add: remove1_append)
  ultimately have "ring st' s (remove1 n xs)" using d by (auto simp: ring_def)
  moreover have "list_linked st ?p" using r p xs by (intro ring_linked [OF r]) auto
  moreover have "p \<notin> set (s # xs) \<longrightarrow> ln_next st' p = ln_next st p \<and> ln_prev st' p = ln_prev st p" for p
    using p q xs by (auto simp: st'_def simp del: last.simps)
  moreover have "list_linked st' x \<longleftrightarrow> list_linked st x \<and> x \<noteq> n" for x
    using \<open>list_linked st ?p\<close> ne by (auto simp: st'_def list_linked_def)
  ultimately show ?thesis using run by blast
qed


section \<open>Families of lists in one store\<close>

text \<open>
  The interface the wheel and the groups rely on: each operation acts on the represented list as
  \<open>xs @ [n]\<close> or \<open>remove1 n xs\<close> and touches only the nodes of that list.
\<close>

locale list_impl =
  fixes push :: "'p \<Rightarrow> 'p \<Rightarrow> 'st \<Rightarrow> 'st option" and unlink :: "'p \<Rightarrow> 'st \<Rightarrow> 'st option"
    and repr :: "'st \<Rightarrow> 'p \<Rightarrow> 'p list \<Rightarrow> bool" and agree :: "'p set \<Rightarrow> 'st \<Rightarrow> 'st \<Rightarrow> bool"
    and in_list :: "'st \<Rightarrow> 'p \<Rightarrow> bool"
  assumes push_ok: "repr st s xs \<Longrightarrow> n \<notin> set (s # xs) \<Longrightarrow>
      \<exists>st'. push s n st = Some st' \<and> repr st' s (xs @ [n]) \<and> agree (- set (n # s # xs)) st st' \<and>
        (\<forall>p. in_list st' p \<longleftrightarrow> in_list st p \<or> p = n)"
    and unlink_ok: "repr st s xs \<Longrightarrow> n \<in> set xs \<Longrightarrow>
      \<exists>st'. unlink n st = Some st' \<and> repr st' s (remove1 n xs) \<and> agree (- set (s # xs)) st st' \<and>
        (\<forall>p. in_list st' p \<longleftrightarrow> in_list st p \<and> p \<noteq> n)"
    and repr_agree: "repr st s xs \<Longrightarrow> agree A st st' \<Longrightarrow> set (s # xs) \<subseteq> A \<Longrightarrow> repr st' s xs"
begin

lemma push_family:
  assumes fam: "\<forall>b \<in> I. repr st (\<sigma> b) (L b)" and b: "b \<in> I"
    and dis: "\<And>c d. c \<in> I \<Longrightarrow> d \<in> I \<Longrightarrow> c \<noteq> d \<Longrightarrow> set (\<sigma> c # L c) \<inter> set (\<sigma> d # L d) = {}"
    and n: "\<And>c. c \<in> I \<Longrightarrow> n \<notin> set (\<sigma> c # L c)"
  shows "\<exists>st'. push (\<sigma> b) n st = Some st' \<and> (\<forall>c \<in> I. repr st' (\<sigma> c) ((L(b := L b @ [n])) c)) \<and>
    (\<forall>p. in_list st' p \<longleftrightarrow> in_list st p \<or> p = n)"
proof -
  obtain st' where st': "push (\<sigma> b) n st = Some st'" "repr st' (\<sigma> b) (L b @ [n])"
    "agree (- set (n # \<sigma> b # L b)) st st'" "\<forall>p. in_list st' p \<longleftrightarrow> in_list st p \<or> p = n"
    using push_ok [of st "\<sigma> b" "L b" n] fam b n [OF b] by blast
  have "repr st' (\<sigma> c) ((L(b := L b @ [n])) c)" if c: "c \<in> I" for c
  proof (cases "c = b")
    case False
    then have "set (\<sigma> c # L c) \<subseteq> - set (n # \<sigma> b # L b)" using dis [OF c b] n [OF c] by auto
    then show ?thesis using repr_agree [OF _ st'(3)] fam c False by simp
  qed (use st'(2) in simp)
  then show ?thesis using st' by blast
qed

lemma unlink_family:
  assumes fam: "\<forall>b \<in> I. repr st (\<sigma> b) (L b)" and b: "b \<in> I"
    and dis: "\<And>c d. c \<in> I \<Longrightarrow> d \<in> I \<Longrightarrow> c \<noteq> d \<Longrightarrow> set (\<sigma> c # L c) \<inter> set (\<sigma> d # L d) = {}"
    and n: "n \<in> set (L b)"
  shows "\<exists>st'. unlink n st = Some st' \<and> (\<forall>c \<in> I. repr st' (\<sigma> c) (remove1 n (L c))) \<and>
    (\<forall>p. in_list st' p \<longleftrightarrow> in_list st p \<and> p \<noteq> n)"
proof -
  obtain st' where st': "unlink n st = Some st'" "repr st' (\<sigma> b) (remove1 n (L b))"
    "agree (- set (\<sigma> b # L b)) st st'" "\<forall>p. in_list st' p \<longleftrightarrow> in_list st p \<and> p \<noteq> n"
    using unlink_ok [of st "\<sigma> b" "L b" n] fam b n by blast
  have "repr st' (\<sigma> c) (remove1 n (L c))" if c: "c \<in> I" for c
  proof (cases "c = b")
    case False
    then have d: "set (\<sigma> c # L c) \<inter> set (\<sigma> b # L b) = {}" using dis [OF c b] by simp
    then have "set (\<sigma> c # L c) \<subseteq> - set (\<sigma> b # L b)" by auto
    then have "repr st' (\<sigma> c) (L c)" using repr_agree [OF _ st'(3)] fam c by simp
    moreover have "n \<notin> set (L c)" using d n by auto
    ultimately show ?thesis by (simp add: remove1_idem)
  qed (use st'(2) in simp)
  then show ?thesis using st' by blast
qed

end

interpretation ilist: list_impl list_push_back list_unlink ring
  "\<lambda>A st st'. \<forall>p \<in> A. ln_next st' p = ln_next st p \<and> ln_prev st' p = ln_prev st p" list_linked
proof
  fix st s n and xs :: "'p list"
  assume "ring st s xs" "n \<notin> set (s # xs)"
  from ring_push_back [OF this] show "\<exists>st'. list_push_back s n st = Some st' \<and> ring st' s (xs @ [n]) \<and>
    (\<forall>p \<in> - set (n # s # xs). ln_next st' p = ln_next st p \<and> ln_prev st' p = ln_prev st p) \<and>
    (\<forall>p. list_linked st' p \<longleftrightarrow> list_linked st p \<or> p = n)" by (simp only: Compl_iff Ball_def)
next
  fix st s n and xs :: "'p list"
  assume "ring st s xs" "n \<in> set xs"
  from ring_unlink [OF this] show "\<exists>st'. list_unlink n st = Some st' \<and> ring st' s (remove1 n xs) \<and>
    (\<forall>p \<in> - set (s # xs). ln_next st' p = ln_next st p \<and> ln_prev st' p = ln_prev st p) \<and>
    (\<forall>p. list_linked st' p \<longleftrightarrow> list_linked st p \<and> p \<noteq> n)" by (simp only: Compl_iff Ball_def)
qed (blast intro: ring_frame)

section \<open>The wheel's buckets\<close>

datatype wheel_addr = Sentinel nat nat | Node nat

definition wheel_repr :: "wheel_addr links \<Rightarrow> 'a wheel_scheme \<Rightarrow> bool" where
  "wheel_repr st w \<longleftrightarrow>
     (\<forall>(l, s) \<in> {..<4} \<times> {..<256}. ring st (Sentinel l s) (map Node (wh_bucket w l s))) \<and>
     (\<forall>n. list_linked st (Node n) \<longleftrightarrow> linked w n)"

lemma push_unlink_buckets:
  assumes r: "wheel_repr st w" and inv: "wh_inv w"
  shows "\<not> linked w n \<Longrightarrow> level_of (et - now) < 4 \<Longrightarrow>
      \<exists>st'. list_push_back (Sentinel (level_of (et - now)) (wh_slot et (level_of (et - now)))) (Node n) st = Some st' \<and>
        wheel_repr st' (wh_insert_node n et now w)"
    and "linked w n \<Longrightarrow> \<exists>st'. list_unlink (Node n) st = Some st' \<and> wheel_repr st' (wh_detach n w)"
proof -
  let ?I = "{..<4} \<times> {..<256} :: (nat \<times> nat) set" and ?\<sigma> = "\<lambda>(l, s). Sentinel l s"
  let ?L = "\<lambda>(l, s). map Node (wh_bucket w l s)"
  have wf: "wh_wf w" and pl: "all_placed (Suc (wh_now w)) w" using inv by (simp_all add: wh_inv_def)
  have fam: "\<forall>b \<in> ?I. ring st (?\<sigma> b) (?L b)" using r by (auto simp: wheel_repr_def)
  have dis: "set (?\<sigma> c # ?L c) \<inter> set (?\<sigma> d # ?L d) = {}" if "c \<noteq> d" for c d
    using that wh_wfD(2) [OF wf] by (cases c; cases d) auto
  show "\<exists>st'. list_push_back (Sentinel (level_of (et - now)) (wh_slot et (level_of (et - now)))) (Node n) st = Some st' \<and>
        wheel_repr st' (wh_insert_node n et now w)" if n: "\<not> linked w n" and l: "level_of (et - now) < 4"
  proof -
    let ?b = "(level_of (et - now), wh_slot et (level_of (et - now)))"
    have b: "?b \<in> ?I" using l by (simp add: wh_slot_def)
    have "Node n \<notin> set (?\<sigma> c # ?L c)" for c using n wh_wfD(3) [OF wf] by (cases c) (auto dest: membersI)
    from ilist.push_family [where \<sigma> = ?\<sigma> and L = ?L, OF fam b dis this] obtain st'
      where st': "list_push_back (?\<sigma> ?b) (Node n) st = Some st'" "\<forall>c \<in> ?I. ring st' (?\<sigma> c) ((?L(?b := ?L ?b @ [Node n])) c)"
        "\<forall>p. list_linked st' p \<longleftrightarrow> list_linked st p \<or> p = Node n" by blast
    have "ring st' (Sentinel i j) (map Node (wh_bucket (wh_insert_node n et now w) i j))" if "(i, j) \<in> ?I" for i j
      using st'(2) that by (auto simp: insert_node_bucket split: if_splits)
    then show ?thesis using st' r by (auto simp: wheel_repr_def)
  qed
  show "\<exists>st'. list_unlink (Node n) st = Some st' \<and> wheel_repr st' (wh_detach n w)" if n: "linked w n"
  proof -
    obtain l s where ls: "n \<in> set (wh_bucket w l s)" using n wh_wfD(3) [OF wf] by (auto simp: members_def)
    have b: "(l, s) \<in> ?I" using placed_level [OF pl ls] by simp
    have "Node n \<in> set (?L (l, s))" using ls by simp
    from ilist.unlink_family [where \<sigma> = ?\<sigma> and L = ?L, OF fam b dis this] obtain st'
      where st': "list_unlink (Node n) st = Some st'" "\<forall>c \<in> ?I. ring st' (?\<sigma> c) (remove1 (Node n) (?L c))"
        "\<forall>p. list_linked st' p \<longleftrightarrow> list_linked st p \<and> p \<noteq> Node n" by blast
    have "remove1 (Node n) (map Node xs) = map Node (remove1 n xs)" for xs by (induction xs) auto
    then show ?thesis using st' r by (auto simp: wheel_repr_def)
  qed
qed

text \<open>
  C18: the linked lists implement the buckets. If the pointers represent a well-formed wheel, then
  linking a fresh node to the tail of the bucket \<open>insert_node\<close> chooses, and unlinking a queued node,
  follow no null pointer and represent the wheel after \<open>insert_node\<close> and after the unlink.
\<close>

theorem links_implement_buckets:
  assumes "wheel_repr st w" and "wh_inv w"
  shows "(\<not> linked w n \<longrightarrow> level_of (et - now) < 4 \<longrightarrow>
      (\<exists>st'. list_push_back (Sentinel (level_of (et - now)) (wh_slot et (level_of (et - now)))) (Node n) st = Some st' \<and>
        wheel_repr st' (wh_insert_node n et now w))) \<and>
    (linked w n \<longrightarrow> (\<exists>st'. list_unlink (Node n) st = Some st' \<and> wheel_repr st' (wh_detach n w)))"
  using push_unlink_buckets [OF assms] by blast

definition sample_links :: "wheel_addr links" where
  "sample_links =
     \<lparr>ln_prev = (\<lambda>a. case a of Sentinel l s \<Rightarrow> Some a | Node _ \<Rightarrow> None),
      ln_next = (\<lambda>a. case a of Sentinel l s \<Rightarrow> Some a | Node _ \<Rightarrow> None)\<rparr>"

theorem links_implement_buckets_witness:
  "\<exists>st'. list_push_back (Sentinel 0 3) (Node 7) sample_links = Some st' \<and>
     wheel_repr st' (wh_insert_node 7 3 0 (wh_new 1000000 (\<lambda>_. sample_node 3) ()))"
proof -
  let ?w = "wh_new 1000000 (\<lambda>_. sample_node 3) () :: wheel"
  have "wheel_repr sample_links ?w"
    by (auto simp: wheel_repr_def ring_def sample_links_def wh_new_def list_linked_def sample_node_def)
  moreover have "wh_inv ?w" by (rule wh_inv_new) (simp add: sample_node_def)
  moreover have "\<not> linked ?w 7" by (simp add: wh_new_def sample_node_def)
  moreover have "level_of 3 = 0" by (simp add: level_of.simps)
  ultimately show ?thesis using links_implement_buckets [of sample_links ?w 7 3 0] by (simp add: wh_slot_def)
qed

end
