(* ===== verification/Timer_Heap.thy ===== *)
theory Timer_Heap
  imports Timer_Wheel
begin

text \<open>
  The 4-ary min-heap of \<^verbatim>\<open>include/afx/core/timer_wheel.hpp\<close>, which carries \<open>at()\<close> deadlines
  and timers beyond the wheel's horizon. It works on the same nodes as the wheel: \<open>tn_in_heap\<close> and
  \<open>tn_heap_idx\<close> are written on every move, as in the code.
\<close>

section \<open>Operations\<close>

record timers = wheel +
  th_heap :: "nat list"

abbreviation hkey :: "'a wheel_scheme \<Rightarrow> nat \<Rightarrow> time_point" where
  "hkey w n \<equiv> tn_expiry (wh_node w n)"

definition th_before :: "'a timers_scheme \<Rightarrow> nat \<Rightarrow> nat \<Rightarrow> bool" where
  "th_before w a b \<longleftrightarrow> hkey w a < hkey w b"

definition set_heap_idx :: "nat \<Rightarrow> nat \<Rightarrow> 'a timers_scheme \<Rightarrow> 'a timers_scheme" where
  "set_heap_idx n i w = w\<lparr>wh_node := (wh_node w)(n := (wh_node w n)\<lparr>tn_heap_idx := i\<rparr>)\<rparr>"

text \<open>\<open>std::swap(heap_[i], heap_[p])\<close> and the two index writes that follow it.\<close>

definition th_swap :: "nat \<Rightarrow> nat \<Rightarrow> 'a timers_scheme \<Rightarrow> 'a timers_scheme" where
  "th_swap i p w =
     (let w1 = w\<lparr>th_heap := (th_heap w)[i := th_heap w ! p, p := th_heap w ! i]\<rparr>;
          w2 = set_heap_idx (th_heap w1 ! i) i w1
      in set_heap_idx (th_heap w2 ! p) p w2)"

function th_sift_up :: "nat \<Rightarrow> 'a timers_scheme \<Rightarrow> 'a timers_scheme" where
  "th_sift_up i w =
     (if i > 0 then
        (let p = (i - 1) div 4
         in if \<not> th_before w (th_heap w ! i) (th_heap w ! p) then w else th_sift_up p (th_swap i p w))
      else w)"
  by pat_completeness auto
termination by (relation "measure fst") auto

declare th_sift_up.simps [simp del]

definition th_best_child :: "nat \<Rightarrow> 'a timers_scheme \<Rightarrow> nat" where
  "th_best_child i w =
     fold (\<lambda>c best. if th_before w (th_heap w ! c) (th_heap w ! best) then c else best)
       [4 * i + 1..<min (4 * i + 5) (length (th_heap w))] i"

lemma fold_best:
  assumes "\<And>c. c \<in> set cs \<Longrightarrow> P c"
  shows "fold (\<lambda>c best. if f c < f best then c else best) cs i \<in> insert i {c. P c} \<and>
    (\<forall>c \<in> insert i (set cs). (f (fold (\<lambda>c best. if f c < f best then c else best) cs i) :: 'k :: linorder) \<le> f c) \<and>
    (fold (\<lambda>c best. if f c < f best then c else best) cs i \<noteq> i \<longrightarrow>
      fold (\<lambda>c best. if f c < f best then c else best) cs i \<in> set cs \<and>
      f (fold (\<lambda>c best. if f c < f best then c else best) cs i) < f i)"
  using assms
proof (induction cs rule: rev_induct)
  case (snoc c cs)
  let ?b = "fold (\<lambda>c best. if f c < f best then c else best) cs i"
  have "?b \<in> insert i {c. P c}" "\<forall>c \<in> insert i (set cs). f ?b \<le> f c" "?b \<noteq> i \<longrightarrow> ?b \<in> set cs \<and> f ?b < f i"
    using snoc by auto
  then show ?case using snoc.prems by (auto intro: less_imp_le order_trans less_le_trans)
qed simp

lemma th_swap_fields [simp]:
  "th_heap (th_swap i p w) = (th_heap w)[i := th_heap w ! p, p := th_heap w ! i]"
  "hkey (th_swap i p w) n = hkey w n"
  "wh_now (th_swap i p w) = wh_now w" "wh_tick (th_swap i p w) = wh_tick w" "wh_count (th_swap i p w) = wh_count w"
  "wh_bucket (th_swap i p w) = wh_bucket w" "wh_primed (th_swap i p w) = wh_primed w"
  "wh_max_ticks (th_swap i p w) = wh_max_ticks w" "timers.more (th_swap i p w) = timers.more w"
  by (simp_all add: th_swap_def set_heap_idx_def Let_def)

lemma best_child_props:
  "th_best_child i w \<noteq> i \<Longrightarrow> 4 * i + 1 \<le> th_best_child i w \<and> th_best_child i w < 4 * i + 5 \<and>
     th_best_child i w < length (th_heap w) \<and> hkey w (th_heap w ! th_best_child i w) < hkey w (th_heap w ! i)"
  "c = i \<or> (4 * i + 1 \<le> c \<and> c < 4 * i + 5 \<and> c < length (th_heap w)) \<Longrightarrow>
     hkey w (th_heap w ! th_best_child i w) \<le> hkey w (th_heap w ! c)"
  using fold_best [of "[4 * i + 1..<min (4 * i + 5) (length (th_heap w))]" "\<lambda>_. True" "\<lambda>c. hkey w (th_heap w ! c)" i]
  by (auto simp: th_best_child_def th_before_def)

function th_sift_down :: "nat \<Rightarrow> 'a timers_scheme \<Rightarrow> 'a timers_scheme" where
  "th_sift_down i w =
     (let best = th_best_child i w in if best = i then w else th_sift_down best (th_swap i best w))"
  by pat_completeness auto
termination
proof (relation "measure (\<lambda>(i, w). length (th_heap w) - i)", simp, clarsimp)
  fix i and w :: "'a timers_scheme"
  assume "th_best_child i w \<noteq> i"
  with best_child_props(1) [OF this] show "length (th_heap w) - th_best_child i w < length (th_heap w) - i" by linarith
qed

declare th_sift_down.simps [simp del]

definition th_push :: "nat \<Rightarrow> 'a timers_scheme \<Rightarrow> 'a timers_scheme" where
  "th_push n w =
     (let w1 = w\<lparr>wh_node := (wh_node w)(n := (wh_node w n)\<lparr>tn_in_heap := True,
                    tn_heap_idx := length (th_heap w)\<rparr>)\<rparr>;
          w2 = w1\<lparr>th_heap := th_heap w1 @ [n]\<rparr>
      in th_sift_up (tn_heap_idx (wh_node w2 n)) w2)"

definition th_remove :: "nat \<Rightarrow> 'a timers_scheme \<Rightarrow> 'a timers_scheme" where
  "th_remove n w =
     (if \<not> tn_in_heap (wh_node w n) then w
      else let i = tn_heap_idx (wh_node w n);
               l = last (th_heap w);
               w1 = w\<lparr>th_heap := butlast (th_heap w)\<rparr>;
               w2 = w1\<lparr>wh_node := (wh_node w1)(n := (wh_node w1 n)\<lparr>tn_in_heap := False, tn_heap_idx := 2 ^ 64 - 1\<rparr>)\<rparr>
           in if i < length (th_heap w2)
              then th_sift_down i (th_sift_up i (set_heap_idx l i (w2\<lparr>th_heap := (th_heap w2)[i := l]\<rparr>)))
              else w2)"

definition th_top :: "'a timers_scheme \<Rightarrow> nat option" where
  "th_top w = (case th_heap w of [] \<Rightarrow> None | n # _ \<Rightarrow> Some n)"

partial_function (option) th_expire ::
  "(nat \<Rightarrow> 'a timers_scheme \<Rightarrow> 'a timers_scheme option) \<Rightarrow> time_point \<Rightarrow> 'a timers_scheme \<Rightarrow> 'a timers_scheme option" where
  "th_expire fire now w =
     (case th_heap w of
        [] \<Rightarrow> Some w
      | n # _ \<Rightarrow> if hkey w n \<le> now
                 then Option.bind (fire n (th_remove n w)) (th_expire fire now) else Some w)"


section \<open>Heap order\<close>

text \<open>
  \<open>edge\<close>: a node is not before its parent. \<open>hole i\<close>: every edge holds but those at position \<open>i\<close>,
  and the parent of \<open>i\<close> is not after the children of \<open>i\<close>.
\<close>

definition edge :: "(nat \<Rightarrow> 'k :: linorder) \<Rightarrow> nat list \<Rightarrow> nat \<Rightarrow> bool" where
  "edge k xs j \<longleftrightarrow> k (xs ! ((j - 1) div 4)) \<le> k (xs ! j)"

definition heap_ok :: "(nat \<Rightarrow> 'k :: linorder) \<Rightarrow> nat list \<Rightarrow> bool" where
  "heap_ok k xs \<longleftrightarrow> (\<forall>j. 0 < j \<longrightarrow> j < length xs \<longrightarrow> edge k xs j)"

definition hole :: "(nat \<Rightarrow> 'k :: linorder) \<Rightarrow> nat list \<Rightarrow> nat \<Rightarrow> bool" where
  "hole k xs i \<longleftrightarrow>
     (\<forall>j. 0 < j \<longrightarrow> j < length xs \<longrightarrow> j \<noteq> i \<longrightarrow> (j - 1) div 4 \<noteq> i \<longrightarrow> edge k xs j) \<and>
     (0 < i \<longrightarrow> (\<forall>c. 0 < c \<longrightarrow> c < length xs \<longrightarrow> (c - 1) div 4 = i \<longrightarrow> k (xs ! ((i - 1) div 4)) \<le> k (xs ! c)))"

definition children_ok :: "(nat \<Rightarrow> 'k :: linorder) \<Rightarrow> nat list \<Rightarrow> nat \<Rightarrow> bool" where
  "children_ok k xs i \<longleftrightarrow> (\<forall>c. 0 < c \<longrightarrow> c < length xs \<longrightarrow> (c - 1) div 4 = i \<longrightarrow> k (xs ! i) \<le> k (xs ! c))"

lemma parent_less: "0 < (j :: nat) \<Longrightarrow> (j - 1) div 4 < j"
  by linarith

lemma child_range: "0 < (c :: nat) \<Longrightarrow> (c - 1) div 4 = i \<longleftrightarrow> 4 * i + 1 \<le> c \<and> c < 4 * i + 5"
  by auto

lemma swap_nth:
  "i < length xs \<Longrightarrow> p < length xs \<Longrightarrow> i \<noteq> p \<Longrightarrow>
   xs[i := xs ! p, p := xs ! i] ! j = (if j = i then xs ! p else if j = p then xs ! i else xs ! j)"
  by (auto simp: nth_list_update)

lemma hole_swap_up:
  assumes h: "hole k xs i" and i: "0 < i" "i < length xs" and lt: "k (xs ! i) < k (xs ! ((i - 1) div 4))"
  defines "p \<equiv> (i - 1) div 4"
  shows "hole k (xs[i := xs ! p, p := xs ! i]) p \<and> children_ok k (xs[i := xs ! p, p := xs ! i]) p"
proof -
  have p: "p < i" "p < length xs" "i \<noteq> p" using parent_less [OF i(1)] i(2) by (simp_all add: p_def)
  let ?ys = "xs[i := xs ! p, p := xs ! i]"
  note nth = swap_nth [OF i(2) p(2,3)]
  have E: "k (xs ! ((j - 1) div 4)) \<le> k (xs ! j)" if "0 < j" "j < length xs" "j \<noteq> i" "(j - 1) div 4 \<noteq> i" for j
    using h that by (simp add: hole_def edge_def)
  have G: "k (xs ! p) \<le> k (xs ! c)" if "0 < c" "c < length xs" "(c - 1) div 4 = i" for c
    using h that i(1) by (simp add: hole_def p_def)
  have K: "k (xs ! i) < k (xs ! p)" using lt by (simp add: p_def)
  have "children_ok k ?ys p" unfolding children_ok_def
  proof (intro allI impI)
    fix c assume c: "0 < c" "c < length ?ys" "(c - 1) div 4 = p"
    then have "c \<noteq> p" using parent_less by auto
    then show "k (?ys ! p) \<le> k (?ys ! c)" using K E [of c] c p by (cases "c = i") (auto simp: nth)
  qed
  moreover have "edge k ?ys j" if j: "0 < j" "j < length ?ys" "j \<noteq> p" "(j - 1) div 4 \<noteq> p" for j
  proof -
    have "j \<noteq> i" using j(4) by (auto simp: p_def)
    then show ?thesis using j E [of j] G [of j] by (cases "(j - 1) div 4 = i") (auto simp: edge_def nth)
  qed
  moreover have "k (?ys ! ((p - 1) div 4)) \<le> k (?ys ! c)" if c: "0 < p" "0 < c" "c < length ?ys" "(c - 1) div 4 = p" for c
  proof -
    have pp: "(p - 1) div 4 \<noteq> p" "(p - 1) div 4 \<noteq> i" "p \<noteq> c" using parent_less [OF c(1)] parent_less [OF c(2)] p c(4) by auto
    have 1: "k (xs ! ((p - 1) div 4)) \<le> k (xs ! p)" using E [of p] c(1) p pp by auto
    have "k (xs ! p) \<le> k (xs ! c)" if "c \<noteq> i" using E [of c] c that p by auto
    then show ?thesis using 1 pp by (auto simp: nth)
  qed
  ultimately show ?thesis unfolding hole_def by blast
qed

lemma hole_swap_down:
  assumes h: "hole k xs i" and e: "0 < i \<longrightarrow> edge k xs i" and b: "4 * i + 1 \<le> b" "b < 4 * i + 5" "b < length xs"
    and lt: "k (xs ! b) < k (xs ! i)"
    and mn: "\<And>c. 4 * i + 1 \<le> c \<Longrightarrow> c < 4 * i + 5 \<Longrightarrow> c < length xs \<Longrightarrow> k (xs ! b) \<le> k (xs ! c)"
  shows "hole k (xs[i := xs ! b, b := xs ! i]) b \<and> edge k (xs[i := xs ! b, b := xs ! i]) b"
proof -
  let ?ys = "xs[i := xs ! b, b := xs ! i]"
  have ib: "i < length xs" "i \<noteq> b" "(b - 1) div 4 = i" using b by auto
  note nth = swap_nth [OF ib(1) b(3) ib(2)]
  have E: "k (xs ! ((j - 1) div 4)) \<le> k (xs ! j)" if "0 < j" "j < length xs" "j \<noteq> i" "(j - 1) div 4 \<noteq> i" for j
    using h that by (simp add: hole_def edge_def)
  have "edge k ?ys b" using lt ib by (simp add: edge_def nth)
  moreover have "edge k ?ys j" if j: "0 < j" "j < length ?ys" "j \<noteq> b" "(j - 1) div 4 \<noteq> b" for j
  proof (cases "j = i")
    case True
    then have "k (xs ! ((i - 1) div 4)) \<le> k (xs ! b)" using h j b ib by (auto simp: hole_def)
    moreover have "(i - 1) div 4 \<noteq> i" "(i - 1) div 4 \<noteq> b" using True j parent_less [of i] b by auto
    ultimately show ?thesis using True by (simp add: edge_def nth)
  next
    case False
    show ?thesis
    proof (cases "(j - 1) div 4 = i")
      case True
      then show ?thesis using mn [of j] child_range [OF j(1)] j False by (simp add: edge_def nth)
    qed (use E [of j] j False in \<open>simp add: edge_def nth\<close>)
  qed
  moreover have "k (?ys ! ((b - 1) div 4)) \<le> k (?ys ! c)" if c: "0 < c" "c < length ?ys" "(c - 1) div 4 = b" for c
  proof -
    have "c \<noteq> b" "c \<noteq> i" using parent_less [OF c(1)] c(3) b by auto
    then show ?thesis using E [of c] c ib by (simp add: nth)
  qed
  ultimately show ?thesis unfolding hole_def by blast
qed

lemma heap_ok_hole:
  assumes "hole k xs i" "0 < i \<longrightarrow> edge k xs i" "children_ok k xs i"
  shows "heap_ok k xs"
  unfolding heap_ok_def
proof (intro allI impI)
  fix j assume j: "0 < j" "j < length xs"
  show "edge k xs j"
    using assms j by (cases "j = i"; cases "(j - 1) div 4 = i") (auto simp: hole_def children_ok_def edge_def)
qed


section \<open>Invariant\<close>

definition th_idx_ok :: "'a timers_scheme \<Rightarrow> bool" where
  "th_idx_ok w \<longleftrightarrow> distinct (th_heap w) \<and> (\<forall>i < length (th_heap w). tn_heap_idx (wh_node w (th_heap w ! i)) = i) \<and>
     (\<forall>n. tn_in_heap (wh_node w n) \<longleftrightarrow> n \<in> set (th_heap w))"

definition th_inv :: "'a timers_scheme \<Rightarrow> bool" where
  "th_inv w \<longleftrightarrow> th_idx_ok w \<and> heap_ok (hkey w) (th_heap w)"

text \<open>What sifting changes: the order of the heap and the indices.\<close>

definition heap_frame :: "'a timers_scheme \<Rightarrow> 'a timers_scheme \<Rightarrow> bool" where
  "heap_frame w w' \<longleftrightarrow> mset (th_heap w') = mset (th_heap w) \<and>
     (\<exists>f g. w' = w\<lparr>wh_node := (\<lambda>n. (wh_node w n)\<lparr>tn_heap_idx := f n\<rparr>), th_heap := g\<rparr>)"

lemma heap_frameD:
  assumes "heap_frame w w'"
  shows "mset (th_heap w') = mset (th_heap w)" "set (th_heap w') = set (th_heap w)" "length (th_heap w') = length (th_heap w)"
    "hkey w' = hkey w" "etick w' = etick w" "linked w' = linked w"
    "wh_now w' = wh_now w" "wh_tick w' = wh_tick w" "wh_count w' = wh_count w" "wh_bucket w' = wh_bucket w"
    "wh_primed w' = wh_primed w" "wh_max_ticks w' = wh_max_ticks w" "timers.more w' = timers.more w"
    "tn_in_heap (wh_node w' n) = tn_in_heap (wh_node w n)"
proof -
  obtain f g where w': "w' = w\<lparr>wh_node := (\<lambda>n. (wh_node w n)\<lparr>tn_heap_idx := f n\<rparr>), th_heap := g\<rparr>"
    using assms by (auto simp: heap_frame_def)
  show m: "mset (th_heap w') = mset (th_heap w)" using assms by (simp add: heap_frame_def)
  show "set (th_heap w') = set (th_heap w)" using mset_eq_setD [OF m] .
  show "length (th_heap w') = length (th_heap w)" using mset_eq_length [OF m] .
  show "hkey w' = hkey w" "etick w' = etick w" "linked w' = linked w"
    "wh_now w' = wh_now w" "wh_tick w' = wh_tick w" "wh_count w' = wh_count w" "wh_bucket w' = wh_bucket w"
    "wh_primed w' = wh_primed w" "wh_max_ticks w' = wh_max_ticks w" "timers.more w' = timers.more w"
    "tn_in_heap (wh_node w' n) = tn_in_heap (wh_node w n)"
    by (simp_all add: w' fun_eq_iff)
qed

lemma heap_frame_refl [simp]: "heap_frame w w"
proof -
  have "w = w\<lparr>wh_node := (\<lambda>n. (wh_node w n)\<lparr>tn_heap_idx := tn_heap_idx (wh_node w n)\<rparr>), th_heap := th_heap w\<rparr>" by simp
  then show ?thesis unfolding heap_frame_def by (intro conjI exI [of _ "\<lambda>n. tn_heap_idx (wh_node w n)"] exI [of _ "th_heap w"]) simp_all
qed

lemma heap_frame_trans: "heap_frame w v \<Longrightarrow> heap_frame v u \<Longrightarrow> heap_frame w u"
proof -
  assume a: "heap_frame w v" and b: "heap_frame v u"
  from a obtain f g where v: "v = w\<lparr>wh_node := (\<lambda>n. (wh_node w n)\<lparr>tn_heap_idx := f n\<rparr>), th_heap := g\<rparr>"
    by (auto simp: heap_frame_def)
  from b obtain f' g' where "u = v\<lparr>wh_node := (\<lambda>n. (wh_node v n)\<lparr>tn_heap_idx := f' n\<rparr>), th_heap := g'\<rparr>"
    by (auto simp: heap_frame_def)
  then have "u = w\<lparr>wh_node := (\<lambda>n. (wh_node w n)\<lparr>tn_heap_idx := f' n\<rparr>), th_heap := g'\<rparr>" by (simp add: v)
  then show ?thesis using a b unfolding heap_frame_def by metis
qed

lemma swap_ok:
  assumes ix: "th_idx_ok w" and i: "i < length (th_heap w)" "p < length (th_heap w)" "i \<noteq> p"
  shows "th_idx_ok (th_swap i p w)" and "heap_frame w (th_swap i p w)"
proof -
  let ?h = "th_heap w"
  have d: "distinct ?h" using ix by (simp add: th_idx_ok_def)
  have ne: "?h ! i \<noteq> ?h ! p" using d i by (simp add: nth_eq_iff_index_eq)
  have nd: "wh_node (th_swap i p w) n = (wh_node w n)\<lparr>tn_heap_idx :=
      (if n = ?h ! i then p else if n = ?h ! p then i else tn_heap_idx (wh_node w n))\<rparr>" for n
    using i ne by (auto simp: th_swap_def set_heap_idx_def Let_def nth_list_update)
  have m: "mset (?h[i := ?h ! p, p := ?h ! i]) = mset ?h" using i by (simp add: mset_swap)
  show "heap_frame w (th_swap i p w)"
    unfolding heap_frame_def using m nd
    by (intro conjI exI [of _ "\<lambda>n. if n = ?h ! i then p else if n = ?h ! p then i else tn_heap_idx (wh_node w n)"]
        exI [of _ "?h[i := ?h ! p, p := ?h ! i]"])
      (simp_all add: th_swap_def set_heap_idx_def Let_def fun_eq_iff)
  have "tn_heap_idx (wh_node (th_swap i p w) (th_heap (th_swap i p w) ! j)) = j" if "j < length ?h" for j
    using that i ix ne d by (auto simp: nd th_idx_ok_def nth_list_update nth_eq_iff_index_eq)
  moreover have "set (?h[i := ?h ! p, p := ?h ! i]) = set ?h" using mset_eq_setD [OF m] .
  moreover have "distinct (?h[i := ?h ! p, p := ?h ! i])" using d i by (simp add: distinct_swap)
  ultimately show "th_idx_ok (th_swap i p w)" using ix by (simp add: th_idx_ok_def nd)
qed

lemma sift_up_ok:
  "th_idx_ok w \<Longrightarrow> i < length (th_heap w) \<Longrightarrow> hole (hkey w) (th_heap w) i \<Longrightarrow> children_ok (hkey w) (th_heap w) i \<Longrightarrow>
   th_inv (th_sift_up i w) \<and> heap_frame w (th_sift_up i w)"
proof (induction i w rule: th_sift_up.induct)
  case (1 i w)
  let ?p = "(i - 1) div 4"
  show ?case
  proof (cases "0 < i \<and> th_before w (th_heap w ! i) (th_heap w ! ?p)")
    case False
    then have "heap_ok (hkey w) (th_heap w)"
      using 1(2-5) by (intro heap_ok_hole [of _ _ i]) (auto simp: edge_def th_before_def)
    moreover have "th_sift_up i w = w" using False by (subst th_sift_up.simps) (auto simp: Let_def)
    ultimately show ?thesis using 1(2) by (simp add: th_inv_def)
  next
    case True
    then have i: "0 < i" "hkey w (th_heap w ! i) < hkey w (th_heap w ! ?p)" by (simp_all add: th_before_def)
    have p: "?p < length (th_heap w)" "i \<noteq> ?p" using parent_less [OF i(1)] 1(3) by auto
    note S = swap_ok [OF 1(2,3) p]
    note f = heap_frameD [OF S(2)]
    note H = hole_swap_up [OF 1(4) i(1) 1(3) i(2)]
    have "th_inv (th_sift_up ?p (th_swap i ?p w)) \<and> heap_frame (th_swap i ?p w) (th_sift_up ?p (th_swap i ?p w))"
      using True H p(1) f(3,4) S(1) by (intro 1(1)) auto
    moreover have "th_sift_up i w = th_sift_up ?p (th_swap i ?p w)"
      using True by (subst th_sift_up.simps) (simp add: Let_def)
    ultimately show ?thesis using heap_frame_trans [OF S(2)] by auto
  qed
qed

lemma sift_down_ok:
  "th_idx_ok w \<Longrightarrow> i < length (th_heap w) \<Longrightarrow> hole (hkey w) (th_heap w) i \<Longrightarrow> 0 < i \<longrightarrow> edge (hkey w) (th_heap w) i \<Longrightarrow>
   th_inv (th_sift_down i w) \<and> heap_frame w (th_sift_down i w)"
proof (induction i w rule: th_sift_down.induct)
  case (1 i w)
  let ?b = "th_best_child i w"
  show ?case
  proof (cases "?b = i")
    case True
    have "children_ok (hkey w) (th_heap w) i" unfolding children_ok_def
    proof (intro allI impI)
      fix c assume "0 < c" "c < length (th_heap w)" "(c - 1) div 4 = i"
      then show "hkey w (th_heap w ! i) \<le> hkey w (th_heap w ! c)"
        using best_child_props(2) [of c i w] True child_range [of c i] by simp
    qed
    then have "heap_ok (hkey w) (th_heap w)" using 1(2-5) by (intro heap_ok_hole [of _ _ i])
    moreover have "th_sift_down i w = w" using True by (subst th_sift_down.simps) simp
    ultimately show ?thesis using 1(2) by (simp add: th_inv_def)
  next
    case False
    note b = best_child_props(1) [OF False]
    have ib: "?b < length (th_heap w)" "i \<noteq> ?b" using b False by auto
    note S = swap_ok [OF 1(2,3) ib]
    note f = heap_frameD [OF S(2)]
    have H: "hole (hkey w) ((th_heap w)[i := th_heap w ! ?b, ?b := th_heap w ! i]) ?b \<and>
        edge (hkey w) ((th_heap w)[i := th_heap w ! ?b, ?b := th_heap w ! i]) ?b"
      by (rule hole_swap_down [OF 1(4,5)]) (use b best_child_props(2) in blast)+
    have "th_inv (th_sift_down ?b (th_swap i ?b w)) \<and> heap_frame (th_swap i ?b w) (th_sift_down ?b (th_swap i ?b w))"
      using False H ib(1) f(3,4) S(1) by (intro 1(1) refl) auto
    moreover have "th_sift_down i w = th_sift_down ?b (th_swap i ?b w)"
      using False by (subst th_sift_down.simps) (simp add: Let_def)
    ultimately show ?thesis using heap_frame_trans [OF S(2)] by auto
  qed
qed


lemma heap_min: "heap_ok k xs \<Longrightarrow> j < length xs \<Longrightarrow> k (xs ! 0) \<le> k (xs ! j)"
proof (induction j rule: less_induct)
  case (less j)
  show ?case
  proof (cases "j = 0")
    case False
    then have "k (xs ! 0) \<le> k (xs ! ((j - 1) div 4))" using less parent_less [of j] by simp
    also have "\<dots> \<le> k (xs ! j)" using less.prems False by (auto simp: heap_ok_def edge_def)
    finally show ?thesis .
  qed simp
qed

lemma sift_down_noop: "heap_ok (hkey w) (th_heap w) \<Longrightarrow> th_sift_down i w = w"
proof -
  assume h: "heap_ok (hkey w) (th_heap w)"
  have "th_best_child i w = i"
  proof (rule ccontr)
    assume "th_best_child i w \<noteq> i"
    note b = best_child_props(1) [OF this]
    then have "(th_best_child i w - 1) div 4 = i" by (subst child_range) linarith+
    then have "hkey w (th_heap w ! i) \<le> hkey w (th_heap w ! th_best_child i w)"
      using h b unfolding heap_ok_def edge_def by (metis add_is_0 le_zero_eq neq0_conv one_neq_zero)
    with b show False by simp
  qed
  then show ?thesis by (subst th_sift_down.simps) simp
qed

text \<open>\<open>remove\<close>'s repair: sift up, then down, from a position where anything may be wrong.\<close>

lemma fix_hole:
  assumes ix: "th_idx_ok w" and i: "i < length (th_heap w)" and h: "hole (hkey w) (th_heap w) i"
  shows "th_inv (th_sift_down i (th_sift_up i w)) \<and> heap_frame w (th_sift_down i (th_sift_up i w))"
proof (cases "0 < i \<and> th_before w (th_heap w ! i) (th_heap w ! ((i - 1) div 4))")
  case False
  then have "th_sift_up i w = w" by (subst th_sift_up.simps) (auto simp: Let_def)
  moreover have "0 < i \<longrightarrow> edge (hkey w) (th_heap w) i" using False by (auto simp: edge_def th_before_def)
  ultimately show ?thesis using sift_down_ok [OF ix i h] by simp
next
  case True
  let ?p = "(i - 1) div 4"
  have t: "0 < i" "hkey w (th_heap w ! i) < hkey w (th_heap w ! ?p)" using True by (simp_all add: th_before_def)
  have p: "?p < length (th_heap w)" "i \<noteq> ?p" using parent_less [OF t(1)] i by auto
  note S = swap_ok [OF ix i p]
  note f = heap_frameD [OF S(2)]
  have "th_inv (th_sift_up ?p (th_swap i ?p w)) \<and> heap_frame (th_swap i ?p w) (th_sift_up ?p (th_swap i ?p w))"
    using hole_swap_up [OF h t(1) i t(2)] p(1) f(3,4) S(1) by (intro sift_up_ok) auto
  moreover have "th_sift_up i w = th_sift_up ?p (th_swap i ?p w)"
    using True by (subst th_sift_up.simps) (simp add: Let_def)
  ultimately show ?thesis using heap_frame_trans [OF S(2)] sift_down_noop [of "th_sift_up i w"]
    by (auto simp: th_inv_def)
qed


section \<open>Push and remove\<close>

definition heap_only :: "'a timers_scheme \<Rightarrow> 'a timers_scheme \<Rightarrow> bool" where
  "heap_only w w' \<longleftrightarrow> (\<exists>f h g. w' = w\<lparr>wh_node := (\<lambda>n. (wh_node w n)\<lparr>tn_heap_idx := f n, tn_in_heap := h n\<rparr>), th_heap := g\<rparr>)"

lemma heap_onlyI:
  "wh_node w' = (\<lambda>n. (wh_node w n)\<lparr>tn_heap_idx := f n, tn_in_heap := h n\<rparr>) \<Longrightarrow>
   w' = w\<lparr>wh_node := wh_node w', th_heap := th_heap w'\<rparr> \<Longrightarrow> heap_only w w'"
  unfolding heap_only_def by metis

lemma heap_onlyD:
  assumes "heap_only w w'"
  shows "hkey w' = hkey w" "etick w' = etick w" "linked w' = linked w"
    "wh_now w' = wh_now w" "wh_tick w' = wh_tick w" "wh_count w' = wh_count w" "wh_bucket w' = wh_bucket w"
    "wh_primed w' = wh_primed w" "wh_max_ticks w' = wh_max_ticks w" "timers.more w' = timers.more w"
    "wh_node w' n = (wh_node w n)\<lparr>tn_heap_idx := tn_heap_idx (wh_node w' n), tn_in_heap := tn_in_heap (wh_node w' n)\<rparr>"
proof -
  from assms obtain f h g where w': "w' = w\<lparr>wh_node := (\<lambda>n. (wh_node w n)\<lparr>tn_heap_idx := f n, tn_in_heap := h n\<rparr>), th_heap := g\<rparr>"
    by (auto simp: heap_only_def)
  show "hkey w' = hkey w" "etick w' = etick w" "linked w' = linked w"
    "wh_now w' = wh_now w" "wh_tick w' = wh_tick w" "wh_count w' = wh_count w" "wh_bucket w' = wh_bucket w"
    "wh_primed w' = wh_primed w" "wh_max_ticks w' = wh_max_ticks w" "timers.more w' = timers.more w"
    "wh_node w' n = (wh_node w n)\<lparr>tn_heap_idx := tn_heap_idx (wh_node w' n), tn_in_heap := tn_in_heap (wh_node w' n)\<rparr>"
    by (simp_all add: w' fun_eq_iff)
qed

lemma heap_only_trans: "heap_only w v \<Longrightarrow> heap_only v u \<Longrightarrow> heap_only w u"
proof -
  assume "heap_only w v" "heap_only v u"
  then obtain f h g f' h' g' where v: "v = w\<lparr>wh_node := (\<lambda>n. (wh_node w n)\<lparr>tn_heap_idx := f n, tn_in_heap := h n\<rparr>), th_heap := g\<rparr>"
    and "u = v\<lparr>wh_node := (\<lambda>n. (wh_node v n)\<lparr>tn_heap_idx := f' n, tn_in_heap := h' n\<rparr>), th_heap := g'\<rparr>"
    unfolding heap_only_def by blast
  then have "u = w\<lparr>wh_node := (\<lambda>n. (wh_node w n)\<lparr>tn_heap_idx := f' n, tn_in_heap := h' n\<rparr>), th_heap := g'\<rparr>" by simp
  then show ?thesis unfolding heap_only_def by blast
qed

lemma heap_frame_only: "heap_frame w w' \<Longrightarrow> heap_only w w'"
proof -
  assume "heap_frame w w'"
  then obtain f g where "w' = w\<lparr>wh_node := (\<lambda>n. (wh_node w n)\<lparr>tn_heap_idx := f n\<rparr>), th_heap := g\<rparr>"
    by (auto simp: heap_frame_def)
  then show ?thesis unfolding heap_only_def
    by (intro exI [of _ f] exI [of _ "\<lambda>n. tn_in_heap (wh_node w n)"] exI [of _ g]) simp
qed

lemma heap_only_wheel:
  assumes "heap_only w w'"
  shows "wh_inv w' = wh_inv w" "wh_mid w' = wh_mid w" "members w' = members w"
  using heap_onlyD(2-4,6,7) [OF assms]
  by (simp_all add: wh_inv_def wh_mid_def wh_wf_def members_def horizon_def all_placed_def fun_eq_iff)

lemma push_ok:
  assumes inv: "th_inv w" and n: "\<not> tn_in_heap (wh_node w n)"
  shows "th_inv (th_push n w)" and "heap_only w (th_push n w)" and "set (th_heap (th_push n w)) = insert n (set (th_heap w))"
proof -
  let ?xs = "th_heap w" and ?k = "hkey w"
  define b where "b = w\<lparr>wh_node := (wh_node w)(n := (wh_node w n)\<lparr>tn_in_heap := True, tn_heap_idx := length ?xs\<rparr>), th_heap := ?xs @ [n]\<rparr>"
  have p: "th_push n w = th_sift_up (length ?xs) b" by (simp add: th_push_def Let_def b_def)
  have nn: "n \<notin> set ?xs" using inv n by (simp add: th_inv_def th_idx_ok_def)
  have ix: "th_idx_ok b" using inv nn by (auto simp: th_inv_def th_idx_ok_def b_def nth_append less_Suc_eq)
  have k: "hkey b = ?k" by (auto simp: b_def)
  have E: "edge ?k (?xs @ [n]) j" if "0 < j" "j < length ?xs" for j
  proof -
    have "(j - 1) div 4 < length ?xs" using that parent_less [of j] by linarith
    then show ?thesis using inv that by (simp add: th_inv_def heap_ok_def edge_def nth_append)
  qed
  have nc: False if "0 < c" "c < Suc (length ?xs)" "(c - 1) div 4 = length ?xs" for c
    using that parent_less [of c] by linarith
  have "hole ?k (?xs @ [n]) (length ?xs)" unfolding hole_def using E nc by (auto simp: less_Suc_eq)
  moreover have "children_ok ?k (?xs @ [n]) (length ?xs)" unfolding children_ok_def using nc by auto
  ultimately have S: "th_inv (th_push n w) \<and> heap_frame b (th_push n w)"
    unfolding p using ix k by (intro sift_up_ok) (simp_all add: b_def)
  then show "th_inv (th_push n w)" by simp
  show "set (th_heap (th_push n w)) = insert n (set ?xs)" using heap_frameD(2) S by (fastforce simp: b_def)
  have "heap_only w b"
    by (rule heap_onlyI [where f = "\<lambda>m. if m = n then length ?xs else tn_heap_idx (wh_node w m)"
          and h = "\<lambda>m. m = n \<or> tn_in_heap (wh_node w m)"]) (auto simp: b_def)
  then show "heap_only w (th_push n w)" using heap_only_trans heap_frame_only S by blast
qed

lemma hole_replace:
  assumes h: "heap_ok k xs" and i: "i < length xs - 1"
  shows "hole k ((butlast xs)[i := l]) i"
  unfolding hole_def
proof (intro conjI allI impI)
  let ?ys = "(butlast xs)[i := l]"
  have nth: "?ys ! j = xs ! j" if "j < length ?ys" "j \<noteq> i" for j using that by (simp add: nth_butlast)
  have E: "k (xs ! ((j - 1) div 4)) \<le> k (xs ! j)" if "0 < j" "j < length xs" for j
    using h that by (simp add: heap_ok_def edge_def)
  fix j assume j: "0 < j" "j < length ?ys"
  have pj: "(j - 1) div 4 < length ?ys" using parent_less [OF j(1)] j(2) by linarith
  { assume "j \<noteq> i" "(j - 1) div 4 \<noteq> i"
    then show "edge k ?ys j" unfolding edge_def using E [of j] j pj by (simp add: nth_butlast) }
  { assume a: "(j - 1) div 4 = i" "0 < i"
    then have ji: "j \<noteq> i" "(i - 1) div 4 \<noteq> i" using parent_less [OF j(1)] parent_less [of i] by auto
    have pi: "(i - 1) div 4 < length ?ys" using parent_less [OF a(2)] i by simp
    have "k (xs ! ((i - 1) div 4)) \<le> k (xs ! i)" using E a i by simp
    also have "\<dots> \<le> k (xs ! j)" using E [of j] a j by simp
    finally show "k (?ys ! ((i - 1) div 4)) \<le> k (?ys ! j)" using nth [OF pi ji(2)] nth [OF j(2) ji(1)] by simp }
qed

lemma heap_ok_butlast: "heap_ok k xs \<Longrightarrow> heap_ok k (butlast xs)"
  unfolding heap_ok_def edge_def
proof (intro allI impI)
  fix j assume h: "\<forall>j. 0 < j \<longrightarrow> j < length xs \<longrightarrow> k (xs ! ((j - 1) div 4)) \<le> k (xs ! j)"
    and j: "0 < j" "j < length (butlast xs)"
  then have "(j - 1) div 4 < length (butlast xs)" using parent_less [of j] by linarith
  with h j show "k (butlast xs ! ((j - 1) div 4)) \<le> k (butlast xs ! j)" by (simp add: nth_butlast)
qed

lemma set_replace_last:
  assumes "distinct xs" "i < length xs - 1"
  shows "set ((butlast xs)[i := last xs]) = set xs - {xs ! i} \<and> distinct ((butlast xs)[i := last xs])"
proof -
  have ne: "xs \<noteq> []" using assms by auto
  then have b: "butlast xs @ [last xs] = xs" by simp
  have "distinct (butlast xs)" "last xs \<notin> set (butlast xs)"
    using assms(1) ne by (metis b distinct_append not_distinct_conv_prefix distinct.simps(2) Int_iff empty_iff list.set_intros(1))+
  moreover have "butlast xs ! i = xs ! i" using assms(2) by (simp add: nth_butlast)
  moreover have "set xs = insert (last xs) (set (butlast xs))" by (metis b list.simps(15) rotate1.simps(2) set_rotate1)
  moreover have "xs ! i \<noteq> last xs" using assms ne by (simp add: last_conv_nth nth_eq_iff_index_eq)
  ultimately show ?thesis using assms(2)
    by (auto simp: set_update_distinct distinct_list_update)
qed

lemma remove_spec:
  assumes inv: "th_inv w" and n: "tn_in_heap (wh_node w n)"
  shows "th_inv (th_remove n w) \<and> heap_only w (th_remove n w) \<and>
    set (th_heap (th_remove n w)) = set (th_heap w) - {n} \<and> length (th_heap (th_remove n w)) < length (th_heap w)"
proof -
  let ?xs = "th_heap w" and ?k = "hkey w"
  define i where "i = tn_heap_idx (wh_node w n)"
  have D: "distinct ?xs" "\<And>j. j < length ?xs \<Longrightarrow> tn_heap_idx (wh_node w (?xs ! j)) = j" "n \<in> set ?xs"
    and H: "\<And>m. tn_in_heap (wh_node w m) \<longleftrightarrow> m \<in> set ?xs" "heap_ok ?k ?xs"
    using inv n by (simp_all add: th_inv_def th_idx_ok_def)
  have i: "i < length ?xs" "?xs ! i = n" using D by (metis i_def in_set_conv_nth)+
  have ne: "?xs \<noteq> []" using D(3) by auto
  define b where "b = w\<lparr>wh_node := (wh_node w)(n := (wh_node w n)\<lparr>tn_in_heap := False, tn_heap_idx := 2 ^ 64 - 1\<rparr>), th_heap := butlast ?xs\<rparr>"
  define l where "l = last ?xs"
  define c where "c = set_heap_idx l i (b\<lparr>th_heap := (butlast ?xs)[i := l]\<rparr>)"
  have rm: "th_remove n w = (if i < length ?xs - 1 then th_sift_down i (th_sift_up i c) else b)"
    using n by (simp add: th_remove_def Let_def b_def c_def i_def l_def)
  have fb: "heap_only w b"
    by (rule heap_onlyI [where f = "\<lambda>m. if m = n then 2 ^ 64 - 1 else tn_heap_idx (wh_node w m)"
          and h = "\<lambda>m. m \<noteq> n \<and> tn_in_heap (wh_node w m)"]) (auto simp: b_def)
  show ?thesis
  proof (cases "i < length ?xs - 1")
    case False
    with i have l: "?xs ! (length ?xs - 1) = n" by (metis Suc_diff_1 i(1) le_neq_implies_less length_greater_0_conv less_Suc_eq_le ne not_less)
    then have ln: "last ?xs = n" using ne by (simp add: last_conv_nth)
    have sb: "set (butlast ?xs) = set ?xs - {n}" using set_butlast_distinct [OF D(1) ne] ln by simp
    have "th_heap w ! j \<noteq> n" if "j < length ?xs - 1" for j
      using nth_eq_iff_index_eq [OF D(1), of j "length ?xs - 1"] that l by auto
    then have "th_idx_ok b"
      using D(1,2) H(1) sb by (auto simp: th_idx_ok_def b_def distinct_butlast nth_butlast)
    moreover have "hkey b = ?k" by (auto simp: b_def)
    ultimately have "th_inv b" using heap_ok_butlast [OF H(2)] by (simp add: th_inv_def b_def)
    then show ?thesis using False rm fb sb ne by (simp add: b_def)
  next
    case True
    note S = set_replace_last [OF D(1) True]
    have l: "l \<in> set ?xs" "l \<noteq> n" using ne D(1) True i(2) by (auto simp: l_def last_conv_nth nth_eq_iff_index_eq)
    have nd: "wh_node c m = (if m = l then (wh_node w l)\<lparr>tn_heap_idx := i\<rparr> else if m = n
        then (wh_node w n)\<lparr>tn_in_heap := False, tn_heap_idx := 2 ^ 64 - 1\<rparr> else wh_node w m)" for m
      using l by (auto simp: c_def b_def set_heap_idx_def)
    have hc: "th_heap c = (butlast ?xs)[i := l]" by (simp add: c_def set_heap_idx_def)
    have kc: "hkey c = ?k" by (auto simp: nd)
    have "tn_heap_idx (wh_node c (th_heap c ! j)) = j" if j: "j < length ?xs - 1" for j
    proof (cases "j = i")
      case False
      then have "?xs ! j \<noteq> n" "?xs ! j \<noteq> l"
        using j D(1) i ne by (auto simp: l_def last_conv_nth nth_eq_iff_index_eq)
      then show ?thesis using D(2) [of j] j False by (simp add: nd hc nth_butlast)
    qed (use j in \<open>simp add: hc nd\<close>)
    moreover have "tn_in_heap (wh_node c m) \<longleftrightarrow> m \<in> set (th_heap c)" for m
      using S i(2) H(1) l by (auto simp: nd hc l_def)
    ultimately have "th_idx_ok c" using S by (auto simp: th_idx_ok_def hc l_def)
    then have F: "th_inv (th_sift_down i (th_sift_up i c)) \<and> heap_frame c (th_sift_down i (th_sift_up i c))"
      using hole_replace [OF H(2) True] True by (intro fix_hole) (simp_all add: hc kc)
    have "heap_only b c"
      by (rule heap_onlyI [where f = "\<lambda>m. if m = l then i else tn_heap_idx (wh_node b m)"
            and h = "\<lambda>m. tn_in_heap (wh_node b m)"]) (auto simp: c_def set_heap_idx_def)
    then have "heap_only w (th_sift_down i (th_sift_up i c))"
      using F fb heap_only_trans heap_frame_only by blast
    moreover have "set (th_heap (th_sift_down i (th_sift_up i c))) = set ?xs - {n}"
      using heap_frameD(2) F S i(2) by (fastforce simp: hc l_def)
    moreover have "length (th_heap (th_sift_down i (th_sift_up i c))) < length ?xs"
      using heap_frameD(3) F ne by (fastforce simp: hc)
    ultimately show ?thesis using F rm True by simp
  qed
qed


lemma top_min:
  assumes "th_inv w" "th_heap w = n # ns"
  shows "tn_in_heap (wh_node w n)" and "m \<in> set (th_heap w) \<Longrightarrow> hkey w n \<le> hkey w m"
proof -
  show "tn_in_heap (wh_node w n)" using assms by (simp add: th_inv_def th_idx_ok_def)
  assume "m \<in> set (th_heap w)"
  then obtain j where "j < length (th_heap w)" "m = th_heap w ! j" by (metis in_set_conv_nth)
  then show "hkey w n \<le> hkey w m" using heap_min [of "hkey w" "th_heap w" j] assms by (simp add: th_inv_def)
qed

section \<open>Expiry\<close>

text \<open>
  What the heap asks of its callback: it keeps the heap well formed and adds no node that is already
  due (a callback that re-arms itself at a passed deadline would be run again at once, for ever).
\<close>

locale heap_client =
  fixes fire :: "nat \<Rightarrow> 'a timers_scheme \<Rightarrow> 'a timers_scheme option"
    and idle :: "time_point \<Rightarrow> 'a timers_scheme \<Rightarrow> bool"
    and firing :: "time_point \<Rightarrow> nat \<Rightarrow> 'a timers_scheme \<Rightarrow> bool"
  assumes idle_inv: "idle now w \<Longrightarrow> th_inv w"
    and idle_remove: "idle now w \<Longrightarrow> tn_in_heap (wh_node w n) \<Longrightarrow> hkey w n \<le> now \<Longrightarrow> firing now n (th_remove n w)"
    and fire_ok: "firing now n w \<Longrightarrow> th_inv w \<Longrightarrow> hkey w n \<le> now \<Longrightarrow>
      \<exists>w'. fire n w = Some w' \<and> idle now w' \<and>
        {m \<in> set (th_heap w'). hkey w' m \<le> now} \<subseteq> {m \<in> set (th_heap w). hkey w m \<le> now}"
begin

lemma expire_ok:
  assumes "idle now w"
  shows "\<exists>w'. th_expire fire now w = Some w' \<and> idle now w' \<and> (\<forall>m \<in> set (th_heap w'). now < hkey w' m)"
  using assms
proof (induction "card {m \<in> set (th_heap w). hkey w m \<le> now}" arbitrary: w rule: less_induct)
  case less
  have inv: "th_inv w" using idle_inv [OF less.prems] .
  show ?case
  proof (cases "th_heap w")
    case Nil
    then show ?thesis using less.prems by (auto simp: th_expire.simps)
  next
    case (Cons n ns)
    note T = top_min [OF inv Cons]
    show ?thesis
    proof (cases "hkey w n \<le> now")
      case False
      then have "\<forall>m \<in> set (th_heap w). now < hkey w m" using T(2) by fastforce
      then show ?thesis using False Cons less.prems by (auto simp: th_expire.simps)
    next
      case True
      note R = remove_spec [OF inv T(1)]
      have k: "hkey (th_remove n w) m = hkey w m" for m using heap_onlyD(1) [of w "th_remove n w"] R by meson
      obtain v where v: "fire n (th_remove n w) = Some v" "idle now v"
        "{m \<in> set (th_heap v). hkey v m \<le> now} \<subseteq> {m \<in> set (th_heap (th_remove n w)). hkey w m \<le> now}"
        using fire_ok [OF idle_remove [OF less.prems T(1) True]] R k True by auto
      have "{m \<in> set (th_heap v). hkey v m \<le> now} \<subset> {m \<in> set (th_heap w). hkey w m \<le> now}"
        using v(3) R True Cons by auto
      then have "card {m \<in> set (th_heap v). hkey v m \<le> now} < card {m \<in> set (th_heap w). hkey w m \<le> now}"
        by (intro psubset_card_mono) simp
      from less.hyps [OF this v(2)] show ?thesis using v(1) True Cons by (subst th_expire.simps) simp
    qed
  qed
qed

end

definition th_log :: "nat \<Rightarrow> nat list timers_scheme \<Rightarrow> nat list timers_scheme option" where
  "th_log n w = Some (timers.more_update (\<lambda>l. l @ [n]) w)"

lemma th_log_fields [simp]:
  "th_heap (timers.more_update f w) = th_heap w" "wh_node (timers.more_update f w) = wh_node w"
  "timers.more (timers.more_update f w) = f (timers.more w)" "th_inv (timers.more_update f w) = th_inv w"
  by (cases w; simp add: th_inv_def th_idx_ok_def)+

text \<open>
  C19: the heap expires exactly the due timers, in deadline order. Calling back until the top is in
  the future runs every node of the heap with expiry at most \<open>now\<close> once, in nondecreasing order of
  expiry, and leaves a well-formed heap of the others.
\<close>

theorem heap_expires_in_deadline_order:
  assumes "th_inv w"
  shows "\<exists>w' ns. th_expire th_log now w = Some w' \<and> th_inv w' \<and> timers.more w' = timers.more w @ ns \<and>
    distinct ns \<and> set ns = {n. tn_in_heap (wh_node w n) \<and> hkey w n \<le> now} \<and>
    set (th_heap w') = {n. tn_in_heap (wh_node w n) \<and> now < hkey w n} \<and> sorted (map (hkey w) ns)"
  using assms
proof (induction "length (th_heap w)" arbitrary: w rule: less_induct)
  case less
  have mem: "tn_in_heap (wh_node w n) \<longleftrightarrow> n \<in> set (th_heap w)" for n
    using less.prems by (simp add: th_inv_def th_idx_ok_def)
  show ?case
  proof (cases "\<exists>n ns. th_heap w = n # ns \<and> hkey w n \<le> now")
    case False
    have "now < hkey w m" if "m \<in> set (th_heap w)" for m
      using top_min(2) [OF less.prems] that False by (cases "th_heap w") fastforce+
    then have "{n. n \<in> set (th_heap w) \<and> hkey w n \<le> now} = {}" "{n. n \<in> set (th_heap w) \<and> now < hkey w n} = set (th_heap w)"
      by fastforce+
    moreover have "th_expire th_log now w = Some w" using False by (auto simp: th_expire.simps split: list.splits)
    ultimately show ?thesis using less.prems by (intro exI [of _ w] exI [of _ "[]"]) (simp add: mem)
  next
    case True
    then obtain n ns where n: "th_heap w = n # ns" "hkey w n \<le> now" by blast
    note T = top_min [OF less.prems n(1)]
    note R = remove_spec [OF less.prems T(1)]
    have k: "hkey (th_remove n w) = hkey w" "timers.more (th_remove n w) = timers.more w"
      using heap_onlyD(1,10) R by blast+
    then have k1: "hkey (th_remove n w) m = hkey w m" for m by meson
    have mem': "tn_in_heap (wh_node (th_remove n w) m) \<longleftrightarrow> m \<in> set (th_heap w) \<and> m \<noteq> n" for m
      using R by (auto simp: th_inv_def th_idx_ok_def)
    define v where "v = timers.more_update (\<lambda>l. l @ [n]) (th_remove n w)"
    have "length (th_heap v) < length (th_heap w)" "th_inv v" using R by (simp_all add: v_def)
    from less.hyps [OF this] obtain w' ms where ih: "th_expire th_log now v = Some w'" "th_inv w'"
      "timers.more w' = timers.more w @ [n] @ ms" "distinct ms" "set ms = {m. m \<in> set (th_heap w) \<and> m \<noteq> n \<and> hkey w m \<le> now}"
      "set (th_heap w') = {m. m \<in> set (th_heap w) \<and> m \<noteq> n \<and> now < hkey w m}" "sorted (map (hkey w) ms)"
      by (auto simp: v_def k k1 mem')
    have "th_expire th_log now w = Some w'" using n ih(1) by (subst th_expire.simps) (simp add: th_log_def v_def)
    moreover have "sorted (map (hkey w) (n # ms))" using ih(5,7) T(2) by auto
    moreover have "distinct (n # ms)" using ih(4,5) by simp
    moreover have "set (n # ms) = {m. m \<in> set (th_heap w) \<and> hkey w m \<le> now}" using ih(5) n by auto
    moreover have "now < hkey w m \<Longrightarrow> m \<noteq> n" for m using n(2) by auto
    then have "set (th_heap w') = {m. m \<in> set (th_heap w) \<and> now < hkey w m}" unfolding ih(6) by blast
    ultimately show ?thesis using ih(2,3) mem by (intro exI [of _ w'] exI [of _ "n # ms"]) simp
  qed
qed


definition sample_timers :: "nat list timers_scheme" where
  "sample_timers = th_push 2 (th_push 1 (th_push 0
     (wh_new 1000000 (\<lambda>n. (sample_node 0)\<lparr>tn_expiry := [50, 20, 30] ! n\<rparr>) \<lparr>th_heap = [], \<dots> = []\<rparr>)))"

lemma sample_timers_inv: "th_inv sample_timers"
  and sample_timers_in_heap: "tn_in_heap (wh_node sample_timers n) \<longleftrightarrow> n < 3"
  and sample_timers_key: "hkey sample_timers n = [50, 20, 30] ! n"
proof -
  let ?w0 = "wh_new 1000000 (\<lambda>n. (sample_node 0)\<lparr>tn_expiry := [50, 20, 30] ! n\<rparr>) \<lparr>th_heap = [], \<dots> = []\<rparr> :: nat list timers_scheme"
  have 0: "th_inv ?w0" "\<And>n. \<not> tn_in_heap (wh_node ?w0 n)" "hkey ?w0 n = [50, 20, 30] ! n" "th_heap ?w0 = []"
    by (simp_all add: th_inv_def th_idx_ok_def heap_ok_def wh_new_def sample_node_def)
  have mem: "tn_in_heap (wh_node w n) \<longleftrightarrow> n \<in> set (th_heap w)" if "th_inv w" for w :: "nat list timers_scheme" and n
    using that by (simp add: th_inv_def th_idx_ok_def)
  note 1 = push_ok [OF 0(1) 0(2), of 0]
  have n1: "\<not> tn_in_heap (wh_node (th_push 0 ?w0) 1)" unfolding mem [OF 1(1)] using 1(3) 0(4) by simp
  note 2 = push_ok [OF 1(1) n1]
  have n2: "\<not> tn_in_heap (wh_node (th_push 1 (th_push 0 ?w0)) 2)" unfolding mem [OF 2(1)] using 1(3) 2(3) 0(4) by simp
  note 3 = push_ok [OF 2(1) n2]
  show i: "th_inv sample_timers" using 3(1) by (simp add: sample_timers_def)
  show "tn_in_heap (wh_node sample_timers n) \<longleftrightarrow> n < 3"
  proof -
    have "set (th_heap sample_timers) = {2, 1, 0}"
      unfolding sample_timers_def 3(3) 2(3) 1(3) 0(4) by simp
    moreover have "n \<in> {2, 1, 0} \<longleftrightarrow> n < 3" by auto
    ultimately show ?thesis unfolding mem [OF i] by simp
  qed
  have "heap_only ?w0 sample_timers"
    using 1(2) 2(2) 3(2) heap_only_trans unfolding sample_timers_def by blast
  from fun_cong [OF heap_onlyD(1) [OF this], of n] 0(3)
  show "hkey sample_timers n = [50, 20, 30] ! n" by (simp only:)
qed

theorem heap_expires_in_deadline_order_witness:
  "\<exists>w' ns. th_expire th_log 30 sample_timers = Some w' \<and> set ns = {1, 2} \<and> sorted (map (hkey sample_timers) ns) \<and>
     set (th_heap w') = {0}"
proof -
  have "{n. tn_in_heap (wh_node sample_timers n) \<and> hkey sample_timers n \<le> 30} = {1, 2}"
    "{n. tn_in_heap (wh_node sample_timers n) \<and> 30 < hkey sample_timers n} = {0}"
    by (auto simp: sample_timers_in_heap sample_timers_key less_Suc_eq numeral_3_eq_3)
  then show ?thesis using heap_expires_in_deadline_order [OF sample_timers_inv, of 30] by auto
qed

end
