(* ===== verification/Backend_Api.thy ===== *)
theory Backend_Api
  imports Afx_Prelude
begin

text \<open>
  The seam between the event manager and its I/O backends, \<^verbatim>\<open>include/afx/backend/backend.hpp\<close>:
  the 64-bit completion tag, operation kinds, interest sets, completions with their time stamps, and
  the parser of the receive time stamps in \<^verbatim>\<open>include/afx/sys/timestamping.hpp\<close>.
\<close>

section \<open>Completion tags\<close>

unbundle bit_operations_syntax

definition ud_make :: "u8 \<Rightarrow> u32 \<Rightarrow> u32 \<Rightarrow> u64" where
  "ud_make kind slot gen =
     push_bit 56 (ucast kind) OR push_bit 32 (ucast (slot AND 0xFFFFFF)) OR ucast gen"

definition ud_kind :: "u64 \<Rightarrow> u8" where
  "ud_kind raw = ucast (drop_bit 56 raw)"

definition ud_slot :: "u64 \<Rightarrow> u32" where
  "ud_slot raw = ucast (drop_bit 32 raw AND 0xFFFFFF)"

definition ud_gen :: "u64 \<Rightarrow> u32" where
  "ud_gen raw = ucast (raw AND 0xFFFFFFFF)"

datatype op_kind = KNone | KWatch | KRecv | KSend | KAccept | KConnect | KFlushWrite

definition op_code :: "op_kind \<Rightarrow> u8" where
  "op_code k = (case k of KNone \<Rightarrow> 0 | KWatch \<Rightarrow> 1 | KRecv \<Rightarrow> 2 | KSend \<Rightarrow> 3 | KAccept \<Rightarrow> 4 | KConnect \<Rightarrow> 5 | KFlushWrite \<Rightarrow> 6)"

lemma mask_24: "(0xFFFFFF :: 'a :: len word) = mask 24"
  by (simp add: mask_eq_exp_minus_1)

lemma mask_32: "(0xFFFFFFFF :: 'a :: len word) = mask 32"
  by (simp add: mask_eq_exp_minus_1)

lemma ud_kind_make: "ud_kind (ud_make k s g) = k"
  unfolding ud_kind_def ud_make_def mask_24
  by (rule bit_word_eqI) (auto simp: bit_simps dest: bit_imp_le_length)

lemma ud_gen_make: "ud_gen (ud_make k s g) = g"
  unfolding ud_gen_def ud_make_def mask_24 mask_32
  by (rule bit_word_eqI) (auto simp: bit_simps dest: bit_imp_le_length)

lemma ud_slot_make: "ud_slot (ud_make k s g) = take_bit 24 s"
  unfolding ud_slot_def ud_make_def mask_24
  by (rule bit_word_eqI) (auto simp: bit_simps dest: bit_imp_le_length)

text \<open>
  A completion's tag carries the operation kind and the generation of its sink unchanged, and the
  slot exactly when the slot is below \<open>2 ^ 24\<close>: the tag has 24 bits for a slot that the handle table
  counts in 32, so a tag made for a slot beyond that range names another sink.
\<close>

theorem tag_roundtrip:
  "ud_kind (ud_make k s g) = k \<and> ud_gen (ud_make k s g) = g \<and> (ud_slot (ud_make k s g) = s \<longleftrightarrow> unat s < 2 ^ 24)"
proof -
  have "take_bit 24 s = s \<longleftrightarrow> unat s < 2 ^ 24"
    by (metis take_bit_nat_eq_self_iff unsigned_take_bit_eq word_unat_eq_iff)
  then show ?thesis by (simp add: ud_kind_make ud_gen_make ud_slot_make)
qed

text \<open>Two tags are equal exactly when kind and generation agree and the slots agree in their low 24 bits.\<close>

lemma tag_eq_iff:
  "ud_make k s g = ud_make k' s' g' \<longleftrightarrow> k = k' \<and> g = g' \<and> take_bit 24 s = take_bit 24 s'"
proof
  assume "ud_make k s g = ud_make k' s' g'"
  then show "k = k' \<and> g = g' \<and> take_bit 24 s = take_bit 24 s'"
    by (metis ud_kind_make ud_gen_make ud_slot_make)
qed (simp add: ud_make_def mask_24 take_bit_eq_mask [symmetric])

section \<open>Interest sets\<close>

definition i_readable :: u32 where "i_readable = 1"
definition i_writable :: u32 where "i_writable = 2"
definition i_none :: u32 where "i_none = 0"

definition i_or :: "u32 \<Rightarrow> u32 \<Rightarrow> u32" where
  "i_or a b = a OR b"

definition i_has :: "u32 \<Rightarrow> u32 \<Rightarrow> bool" where
  "i_has i f \<longleftrightarrow> i AND f \<noteq> 0"

lemma i_has_or: "i_has (i_or a b) f \<longleftrightarrow> i_has a f \<or> i_has b f"
proof -
  have "(a OR b) AND f = (a AND f) OR (b AND f)" by (rule bit.conj_disj_distrib2)
  then show ?thesis by (simp add: i_has_def i_or_def or_eq_0_iff)
qed

section \<open>Completions\<close>

record timestamps =
  ts_hw :: u64
  ts_sw :: u64
  ts_tsc :: u64

record completion =
  cp_user :: u64
  cp_result :: int
  cp_flags :: u32
  cp_stamps :: timestamps

definition has_hw_stamp :: u32 where "has_hw_stamp = 1"
definition has_sw_stamp :: u32 where "has_sw_stamp = 2"
definition flag_more :: u32 where "flag_more = 4"
definition has_fds :: u32 where "has_fds = 8"
definition fd_trunc :: u32 where "fd_trunc = 16"

text \<open>The readiness masks of a watch completion.\<close>

definition ready_read :: u32 where
  "ready_read = 1"

definition ready_write :: u32 where
  "ready_write = 2"

definition ready_err :: u32 where
  "ready_err = 4"

definition ready_hangup :: u32 where
  "ready_hangup = 8"

text \<open>A size as the 32-bit result of a completion.\<close>

definition res32 :: "nat \<Rightarrow> int" where
  "res32 n = sint (word_of_nat n :: 32 word)"

definition flagged :: "u32 \<Rightarrow> u32 \<Rightarrow> bool" where
  "flagged fs f \<longleftrightarrow> fs AND f \<noteq> 0"

definition cp_empty :: completion where
  "cp_empty = \<lparr>cp_user = 0, cp_result = 0, cp_flags = 0, cp_stamps = \<lparr>ts_hw = 0, ts_sw = 0, ts_tsc = 0\<rparr>\<rparr>"

text \<open>
  A control message: whether it is a \<open>SCM_TIMESTAMPING\<close> message of the socket level, and the seconds and
  nanoseconds of its first and third time spec.
\<close>

record cmsg =
  cm_stamping :: bool
  cm_sw :: "int \<times> int"
  cm_hw :: "int \<times> int"

definition spec_ns :: "int \<times> int \<Rightarrow> u64" where
  "spec_ns ts = of_int (fst ts) * 1000000000 + of_int (snd ts)"

definition parse_cmsg :: "cmsg \<Rightarrow> timestamps \<times> u32 \<Rightarrow> timestamps \<times> u32" where
  "parse_cmsg c st =
     (if \<not> cm_stamping c then st
      else let (stamps, flags) = st;
               sw = spec_ns (cm_sw c); hw = spec_ns (cm_hw c);
               (stamps, flags) = (if sw \<noteq> 0 then (stamps\<lparr>ts_sw := sw\<rparr>, flags OR has_sw_stamp) else (stamps, flags))
           in if hw \<noteq> 0 then (stamps\<lparr>ts_hw := hw\<rparr>, flags OR has_hw_stamp) else (stamps, flags))"

definition parse_rx_timestamping :: "cmsg list \<Rightarrow> timestamps \<Rightarrow> timestamps \<times> u32" where
  "parse_rx_timestamping cs stamps = fold parse_cmsg cs (stamps, 0)"

text \<open>A stamp is reported present only when the field holds a nonzero time.\<close>

definition stamps_ok :: "timestamps \<times> u32 \<Rightarrow> bool" where
  "stamps_ok st \<longleftrightarrow> (flagged (snd st) has_sw_stamp \<longrightarrow> ts_sw (fst st) \<noteq> 0) \<and>
     (flagged (snd st) has_hw_stamp \<longrightarrow> ts_hw (fst st) \<noteq> 0)"

lemma flagged_or [simp]: "flagged (a OR b) f \<longleftrightarrow> flagged a f \<or> flagged b f"
  using i_has_or [of a b f] by (simp add: flagged_def i_has_def i_or_def)

lemma flagged_stamps [simp]:
  "flagged has_sw_stamp has_sw_stamp" "flagged has_hw_stamp has_hw_stamp"
  "\<not> flagged has_sw_stamp has_hw_stamp" "\<not> flagged has_hw_stamp has_sw_stamp" "\<not> flagged 0 f"
  by (simp_all add: flagged_def has_sw_stamp_def has_hw_stamp_def)

lemma parse_cmsg_ok: "stamps_ok st \<Longrightarrow> stamps_ok (parse_cmsg c st)"
  by (cases st) (simp add: parse_cmsg_def stamps_ok_def Let_def)

lemma parse_rx_ok: "stamps_ok (parse_rx_timestamping cs stamps)"
proof -
  have "stamps_ok (fold parse_cmsg cs st)" if "stamps_ok st" for st
    using that by (induction cs arbitrary: st) (simp_all add: parse_cmsg_ok)
  then show ?thesis by (simp add: parse_rx_timestamping_def stamps_ok_def)
qed

end
