(* ===== verification/Event_Manager.thy ===== *)
theory Event_Manager
  imports Timer_Heap Observability Backend_Api
begin

text \<open>
  The state of \<open>BasicEventManager\<close> in \<^verbatim>\<open>include/afx/core/event_manager.hpp\<close> and its public
  operations on one thread: timers and timer groups, deferred and posted work, sinks and pending
  writes, and the guarded dispatch of callbacks. The record extends the timer structures, so the
  event manager's state is one value. A timer's node and a group's member list are addressed by
  their slot in the handle table; the tables themselves carry no payload. User code is a parameter
  \<open>cb\<close>: for a work item and the state it finds, the calls it makes on the event manager, whether
  it throws, and how long it took.
\<close>

section \<open>State\<close>

datatype wait_strategy = WaitBlock | WaitSpinThenBlock | WaitSpin

datatype callback_error_policy = RouteToHandler | CloseConnection | Terminate

record em_config =
  cf_wait :: wait_strategy
  cf_spin_budget :: nanos
  cf_max_itc_batch :: nat
  cf_max_defer_batch :: nat
  cf_on_callback_error :: callback_error_policy
  cf_stall_threshold :: nanos
  cf_mailbox_capacity :: nat

record sink_entry =
  sk_obj :: nat
  sk_ctx :: context_t
  sk_write_pending :: bool

record posted_item =
  pi_fn :: nat
  pi_ctx :: context_t

text \<open>The histograms the loop itself feeds; the timer lateness is a field of its own.\<close>

record latency_metrics =
  lt_iteration :: histogram
  lt_recv_to_handler :: histogram
  lt_nic_to_kernel :: histogram
  lt_kernel_to_dequeue :: histogram
  lt_dequeue_to_handler :: histogram

record em = timers +
  em_config :: em_config
  em_now :: time_point
  em_table :: "unit handle_table"
  em_gtable :: "unit handle_table"
  em_glist :: "nat \<Rightarrow> nat list"
  em_dead :: "handle list"
  em_ctx :: context_t
  em_stats :: stats
  em_recorder :: flight_recorder
  em_lateness :: histogram
  em_tsc :: u64
  em_fired :: bool
  em_sinks :: "sink_entry handle_table"
  em_pending :: "handle list"
  em_mailbox :: "posted_item list"
  em_defer_next :: "nat list"
  em_stop :: bool
  em_blocked :: bool
  em_spin_until :: time_point
  em_mb_blocked :: bool
  em_latency :: latency_metrics
  em_shutting_down :: bool
  em_shutdown_deadline :: time_point

record timer_ctx =
  tc_id :: handle
  tc_scheduled :: time_point
  tc_now :: time_point
  tc_missed :: u32

definition tc_lateness :: "timer_ctx \<Rightarrow> duration" where
  "tc_lateness tc = tc_now tc - tc_scheduled tc"

abbreviation node_of :: "handle \<Rightarrow> nat" where
  "node_of h \<equiv> unat (h_idx h)"

definition set_node :: "nat \<Rightarrow> (timer_node \<Rightarrow> timer_node) \<Rightarrow> em \<Rightarrow> em" where
  "set_node n f w = w\<lparr>wh_node := (wh_node w)(n := f (wh_node w n))\<rparr>"

definition bump :: "(stats \<Rightarrow> stats) \<Rightarrow> em \<Rightarrow> em" where
  "bump f w = w\<lparr>em_stats := f (em_stats w)\<rparr>"

definition em_record :: "event_kind \<Rightarrow> u32 \<Rightarrow> u32 \<Rightarrow> u32 \<Rightarrow> u64 \<Rightarrow> em \<Rightarrow> em" where
  "em_record k h a b tr w =
     w\<lparr>em_recorder := fr_record \<lparr>fl_tsc = em_tsc w, fl_kind = k, fl_handle = h, fl_a = a, fl_b = b, fl_trace = tr\<rparr>
         (em_recorder w)\<rparr>"

section \<open>Timers\<close>

text \<open>A default-constructed \<open>TimerNode\<close>.\<close>

definition fresh_node :: timer_node where
  "fresh_node = \<lparr>tn_expiry = 0, tn_expiry_tick = 0, tn_period = 0, tn_mode = FixedRate, tn_fn = 0,
     tn_linked = False, tn_group = null_handle, tn_ctx = cx_empty, tn_id = null_handle, tn_cancelled = False,
     tn_in_heap = False, tn_precise = False, tn_heap_idx = 2 ^ 64 - 1\<rparr>"

definition insert_timer :: "nat \<Rightarrow> em \<Rightarrow> em" where
  "insert_timer n w0 =
     (let w = set_node n (\<lambda>x. x\<lparr>tn_in_heap := False\<rparr>) w0
      in if wh_fits (etick w n) (wh_now w) \<and> \<not> tn_precise (wh_node w n)
         then wh_insert n (wh_now w) w else th_push n w)"

definition unlink_timer :: "nat \<Rightarrow> em \<Rightarrow> em" where
  "unlink_timer n w = (if tn_in_heap (wh_node w n) then th_remove n w else wh_unlink n w)"

text \<open>\<open>glist_unlink\<close>: a node is a member of at most one group.\<close>

definition group_unlink :: "nat \<Rightarrow> em \<Rightarrow> em" where
  "group_unlink n w = w\<lparr>em_glist := (\<lambda>g. remove1 n (em_glist w g))\<rparr>"

definition em_arm ::
  "time_point \<Rightarrow> duration \<Rightarrow> repeat_mode \<Rightarrow> nat \<Rightarrow> handle \<Rightarrow> bool \<Rightarrow> em \<Rightarrow> handle \<times> em" where
  "em_arm expiry period mode fn g precise w0 =
     (let (tid, tab) = ht_emplace () (em_table w0);
          n = node_of tid;
          w = w0\<lparr>em_table := tab,
                 wh_node := (wh_node w0)(n := fresh_node\<lparr>tn_id := tid, tn_expiry := expiry,
                   tn_expiry_tick := tick_of (wh_tick w0) expiry, tn_period := period, tn_mode := mode,
                   tn_fn := fn, tn_ctx := em_ctx w0, tn_precise := precise\<rparr>)\<rparr>;
          w = (if handle_valid g \<and> ht_get (em_gtable w) g \<noteq> None
               then (set_node n (\<lambda>x. x\<lparr>tn_group := g\<rparr>) w)
                      \<lparr>em_glist := (em_glist w)(node_of g := em_glist w (node_of g) @ [n])\<rparr>
               else w);
          w = insert_timer n w
      in (tid, bump (\<lambda>s. s\<lparr>st_timers_armed := st_timers_armed s + 1\<rparr>) w))"

definition em_after :: "duration \<Rightarrow> nat \<Rightarrow> handle \<Rightarrow> em \<Rightarrow> handle \<times> em" where
  "em_after d fn g w = em_arm (em_now w + d) 0 FixedRate fn g False w"

definition em_at :: "time_point \<Rightarrow> nat \<Rightarrow> handle \<Rightarrow> em \<Rightarrow> handle \<times> em" where
  "em_at t fn g w = em_arm t 0 FixedRate fn g True w"

definition em_every :: "duration \<Rightarrow> nat \<Rightarrow> duration \<Rightarrow> repeat_mode \<Rightarrow> handle \<Rightarrow> em \<Rightarrow> handle \<times> em" where
  "em_every period fn initial_delay mode g w =
     em_arm (em_now w + (if initial_delay \<noteq> 0 then initial_delay else period)) period mode fn g False w"

definition timer_live :: "handle \<Rightarrow> em \<Rightarrow> bool" where
  "timer_live tid w \<longleftrightarrow> ht_get (em_table w) tid \<noteq> None"

definition em_cancel :: "handle \<Rightarrow> em \<Rightarrow> bool \<times> em" where
  "em_cancel tid w =
     (let n = node_of tid
      in if \<not> timer_live tid w \<or> tn_cancelled (wh_node w n) then (False, w)
         else let w1 = set_node n (\<lambda>x. x\<lparr>tn_cancelled := True\<rparr>) w;
                  w2 = unlink_timer n w1;
                  w3 = set_node n (\<lambda>x. x\<lparr>tn_group := null_handle\<rparr>) (group_unlink n w2);
                  w4 = w3\<lparr>em_dead := em_dead w3 @ [tid]\<rparr>
              in (True, bump (\<lambda>s. s\<lparr>st_timers_cancelled := st_timers_cancelled s + 1\<rparr>) w4))"

definition em_reschedule :: "handle \<Rightarrow> duration \<Rightarrow> em \<Rightarrow> bool \<times> em" where
  "em_reschedule tid d w =
     (let n = node_of tid
      in if \<not> timer_live tid w \<or> tn_cancelled (wh_node w n) then (False, w)
         else let w1 = unlink_timer n w;
                  w2 = set_node n (\<lambda>x. x\<lparr>tn_expiry := em_now w + d,
                         tn_expiry_tick := tick_of (wh_tick w) (em_now w + d)\<rparr>) w1
              in (True, insert_timer n w2))"

definition em_time_until :: "handle \<Rightarrow> em \<Rightarrow> duration option" where
  "em_time_until tid w =
     (let n = node_of tid
      in if \<not> timer_live tid w \<or> tn_cancelled (wh_node w n) then None
         else Some (if hkey w n > em_now w then hkey w n - em_now w else 0))"

definition em_make_group :: "em \<Rightarrow> handle \<times> em" where
  "em_make_group w =
     (let (g, tab) = ht_emplace () (em_gtable w)
      in (g, w\<lparr>em_gtable := tab, em_glist := (em_glist w)(node_of g := [])\<rparr>))"

text \<open>One round of the loop of \<open>cancel_group\<close>, on the group's first member.\<close>

definition cancel_member :: "nat \<Rightarrow> em \<Rightarrow> em" where
  "cancel_member n w =
     (let w1 = set_node n (\<lambda>x. x\<lparr>tn_group := null_handle, tn_cancelled := True\<rparr>) (group_unlink n w);
          w2 = unlink_timer n w1
      in w2\<lparr>em_dead := em_dead w2 @ [tn_id (wh_node w2 n)]\<rparr>)"

definition em_cancel_group :: "handle \<Rightarrow> em \<Rightarrow> nat \<times> em" where
  "em_cancel_group g w =
     (if ht_get (em_gtable w) g = None then (0, w)
      else let ms = em_glist w (node_of g);
               w1 = fold cancel_member ms w
           in (length ms,
               bump (\<lambda>s. s\<lparr>st_groups_cancelled := st_groups_cancelled s + (if ms \<noteq> [] then 1 else 0),
                           st_timers_cancelled := st_timers_cancelled s + of_nat (length ms)\<rparr>) w1))"

section \<open>Sinks, deferred and posted work\<close>

definition em_register_sink :: "nat \<Rightarrow> context_t \<Rightarrow> em \<Rightarrow> handle \<times> em" where
  "em_register_sink obj ctx w =
     (let (h, tab) = ht_emplace \<lparr>sk_obj = obj, sk_ctx = ctx, sk_write_pending = False\<rparr> (em_sinks w)
      in (h, w\<lparr>em_sinks := tab\<rparr>))"

definition em_release_sink :: "handle \<Rightarrow> em \<Rightarrow> em" where
  "em_release_sink h w = w\<lparr>em_sinks := ht_release h (em_sinks w)\<rparr>"

definition em_note_write_pending :: "handle \<Rightarrow> em \<Rightarrow> em" where
  "em_note_write_pending h w =
     (case ht_get (em_sinks w) h of
        None \<Rightarrow> w
      | Some s \<Rightarrow> if sk_write_pending s then w
                  else w\<lparr>em_sinks := ht_put h (s\<lparr>sk_write_pending := True\<rparr>) (em_sinks w),
                         em_pending := em_pending w @ [h]\<rparr>)"

definition em_defer :: "nat \<Rightarrow> em \<Rightarrow> em" where
  "em_defer t w = w\<lparr>em_defer_next := em_defer_next w @ [t]\<rparr>"

datatype post_result = PostOk | PostFull | PostClosed

text \<open>\<open>post\<close> from the event manager's own thread, overflow policy \<open>Fail\<close>.\<close>

definition em_post :: "nat \<Rightarrow> em \<Rightarrow> post_result \<times> em" where
  "em_post t w =
     (if length (em_mailbox w) < cf_mailbox_capacity (em_config w)
      then (PostOk, bump (\<lambda>s. s\<lparr>st_mailbox_pushes := st_mailbox_pushes s + 1\<rparr>)
             (w\<lparr>em_mailbox := em_mailbox w @ [\<lparr>pi_fn = t, pi_ctx = em_ctx w\<rparr>]\<rparr>))
      else (PostFull, bump (\<lambda>s. s\<lparr>st_mailbox_full := st_mailbox_full s + 1\<rparr>) w))"

definition em_request_stop :: "em \<Rightarrow> em" where
  "em_request_stop w = w\<lparr>em_stop := True\<rparr>"

section \<open>Callbacks\<close>

datatype em_op =
    OpAfter duration nat handle | OpAt time_point nat handle
  | OpEvery duration nat duration repeat_mode handle
  | OpCancel handle | OpReschedule handle duration | OpMakeGroup | OpCancelGroup handle
  | OpRegisterSink nat context_t | OpReleaseSink handle | OpNoteWrite handle
  | OpDefer nat | OpPost nat | OpStop

fun run_op :: "em_op \<Rightarrow> em \<Rightarrow> em" where
  "run_op (OpAfter d fn g) w = snd (em_after d fn g w)"
| "run_op (OpAt t fn g) w = snd (em_at t fn g w)"
| "run_op (OpEvery p fn d m g) w = snd (em_every p fn d m g w)"
| "run_op (OpCancel tid) w = snd (em_cancel tid w)"
| "run_op (OpReschedule tid d) w = snd (em_reschedule tid d w)"
| "run_op OpMakeGroup w = snd (em_make_group w)"
| "run_op (OpCancelGroup g) w = snd (em_cancel_group g w)"
| "run_op (OpRegisterSink obj ctx) w = snd (em_register_sink obj ctx w)"
| "run_op (OpReleaseSink h) w = em_release_sink h w"
| "run_op (OpNoteWrite h) w = em_note_write_pending h w"
| "run_op (OpDefer t) w = em_defer t w"
| "run_op (OpPost t) w = snd (em_post t w)"
| "run_op OpStop w = em_request_stop w"

datatype work =
    TimerWork nat timer_ctx | TaskWork nat | SinkWork nat completion | FlushWork nat | IdleWork | IterationWork

record outcome =
  oc_ops :: "em_op list"
  oc_throws :: bool
  oc_elapsed :: nanos

type_synonym user_code = "work \<Rightarrow> em \<Rightarrow> outcome"

definition report_stall :: "nanos \<Rightarrow> em \<Rightarrow> em" where
  "report_stall d w =
     em_record EvStateChange 0 (of_int d) 1 0
       (bump (\<lambda>s. s\<lparr>st_internal_errors := st_internal_errors s + 1\<rparr>) w)"

text \<open>\<open>invoke_guarded\<close>; \<open>None\<close> is \<open>std::terminate\<close>.\<close>

definition invoke_guarded :: "outcome \<Rightarrow> em \<Rightarrow> em option" where
  "invoke_guarded out w =
     (let w1 = fold run_op (oc_ops out) w
      in if oc_throws out then
           (let w2 = em_record EvCallbackError 0 0 0 0
                       (bump (\<lambda>s. s\<lparr>st_callback_errors := st_callback_errors s + 1\<rparr>) w1)
            in if cf_on_callback_error (em_config w) = Terminate then None else Some w2)
         else Some w1)"

definition run_guarded :: "user_code \<Rightarrow> context_t \<Rightarrow> work \<Rightarrow> em \<Rightarrow> em option" where
  "run_guarded cb c wk w =
     (let prev = em_ctx w;
          w1 = w\<lparr>em_ctx := c\<rparr>;
          out = cb wk w1
      in do { w2 \<leftarrow> invoke_guarded out w1;
              let w3 = (if cf_stall_threshold (em_config w) > 0 \<and> oc_elapsed out > cf_stall_threshold (em_config w)
                        then report_stall (oc_elapsed out) w2 else w2);
              Some (w3\<lparr>em_ctx := prev\<rparr>) })"

section \<open>Firing a timer\<close>

function catch_up :: "time_point \<Rightarrow> duration \<Rightarrow> time_point \<Rightarrow> time_point \<times> u32" where
  "catch_up nxt period now =
     (if period \<le> 0 \<or> now < nxt then (nxt, 0)
      else (let (x, m) = catch_up (nxt + period) period now in (x, m + 1)))"
  by pat_completeness auto
termination by (relation "measure (\<lambda>(nxt, period, now). nat (now + 1 - nxt))") auto

declare catch_up.simps [simp del]

definition fire_timer :: "user_code \<Rightarrow> nat \<Rightarrow> em \<Rightarrow> em option" where
  "fire_timer cb n w =
     (if tn_cancelled (wh_node w n) then Some (w\<lparr>em_dead := em_dead w @ [tn_id (wh_node w n)]\<rparr>)
      else
        let nd = wh_node w n;
            repeats = tn_period nd > 0;
            tc0 = \<lparr>tc_id = tn_id nd, tc_scheduled = tn_expiry nd, tc_now = em_now w, tc_missed = 0\<rparr>;
            (nxt, missed) = (if repeats \<and> tn_mode nd = FixedRate
                             then catch_up (tn_expiry nd + tn_period nd) (tn_period nd) (em_now w) else (0, 0));
            tc = tc0\<lparr>tc_missed := missed\<rparr>;
            w1 = (if repeats \<and> tn_mode nd = FixedRate
                  then insert_timer n
                         (set_node n (\<lambda>x. x\<lparr>tn_expiry := nxt, tn_expiry_tick := tick_of (wh_tick w) nxt\<rparr>)
                           (bump (\<lambda>s. s\<lparr>st_timer_coalesced := st_timer_coalesced s + ucast missed\<rparr>) w))
                  else w);
            w2 = bump (\<lambda>s. s\<lparr>st_timers_fired := st_timers_fired s + 1\<rparr>) w1;
            w3 = em_record EvTimerFire (h_idx (tn_id nd)) (of_int (tc_lateness tc)) (tc_missed tc)
                   (trace_short (cx_trace (tn_ctx nd))) w2;
            w4 = w3\<lparr>em_lateness := hist_record (of_int (max (tc_lateness tc) 0)) (em_lateness w3)\<rparr>
        in do { w5 \<leftarrow> run_guarded cb (tn_ctx nd) (TimerWork (tn_fn nd) tc) w4;
                let cancelled = tn_cancelled (wh_node w5 n);
                let w6 = (if repeats \<and> tn_mode nd = FixedDelay \<and> \<not> cancelled
                          then insert_timer n
                                 (set_node n (\<lambda>x. x\<lparr>tn_expiry := em_now w5 + tn_period nd,
                                    tn_expiry_tick := tick_of (wh_tick w5) (em_now w5 + tn_period nd)\<rparr>) w5)
                          else w5);
                Some (if \<not> repeats \<and> \<not> cancelled
                      then (group_unlink n w6)\<lparr>em_dead := em_dead w6 @ [tn_id nd]\<rparr> else w6) })"

text \<open>The callback handed to the wheel and the heap; \<open>fired\<close> is the captured local.\<close>

definition fire_lambda :: "user_code \<Rightarrow> nat \<Rightarrow> em \<Rightarrow> em option" where
  "fire_lambda cb n w = fire_timer cb n (w\<lparr>em_fired := True\<rparr>)"

definition expire_timers :: "user_code \<Rightarrow> em \<Rightarrow> em option" where
  "expire_timers cb w0 =
     (let w = w0\<lparr>em_fired := False\<rparr>
      in do { w1 \<leftarrow> wh_advance (fire_lambda cb) (floor_tick (wh_tick w) (em_now w)) w;
              th_expire (fire_lambda cb) (em_now w1) w1 })"

section \<open>Construction and reclamation\<close>

definition em_new :: "em_config \<Rightarrow> nanos \<Rightarrow> u32 \<Rightarrow> time_point \<Rightarrow> em" where
  "em_new cfg tick seed now =
     wh_new tick (\<lambda>_. fresh_node)
       \<lparr>th_heap = [], em_config = cfg, em_now = now, em_table = ht_new seed, em_gtable = ht_new seed,
        em_glist = (\<lambda>_. []), em_dead = [], em_ctx = cx_empty, em_stats = stats_zero, em_recorder = fr_new,
        em_lateness = hist_empty, em_tsc = 0, em_fired = False, em_sinks = ht_new seed, em_pending = [],
        em_mailbox = [], em_defer_next = [], em_stop = False, em_blocked = False, em_spin_until = 0,
        em_mb_blocked = False, em_latency = \<lparr>lt_iteration = hist_empty, lt_recv_to_handler = hist_empty,
          lt_nic_to_kernel = hist_empty, lt_kernel_to_dequeue = hist_empty, lt_dequeue_to_handler = hist_empty\<rparr>,
        em_shutting_down = False, em_shutdown_deadline = 0\<rparr>"

text \<open>The end of \<open>bookkeeping\<close>: timers that died during the iteration give their slot back.\<close>

definition reclaim_timers :: "em \<Rightarrow> em" where
  "reclaim_timers w = w\<lparr>em_table := ht_reclaim (fold ht_release (em_dead w) (em_table w)), em_dead := []\<rparr>"

end
