(* ===== verification/Em_Timers.thy ===== *)
theory Em_Timers
  imports Event_Manager
begin

text \<open>
  Correctness of the event manager's timers: the invariant that ties the timer table, the wheel, the
  heap, the groups and the list of timers to reclaim together, its preservation by every operation
  and by firing, and the termination of the timer stage. The wheel's and the heap's interface locales
  are interpreted on \<open>fire_timer\<close>.
\<close>

section \<open>Invariant\<close>

text \<open>A node that may be scheduled or be in a group: its handle resolves and it is not on its way out.\<close>

definition good :: "unit handle_table \<Rightarrow> (nat \<Rightarrow> timer_node) \<Rightarrow> handle list \<Rightarrow> nat \<Rightarrow> bool" where
  "good tab nd dead n \<longleftrightarrow> node_of (tn_id (nd n)) = n \<and> ht_get tab (tn_id (nd n)) \<noteq> None \<and>
     \<not> tn_cancelled (nd n) \<and> tn_id (nd n) \<notin> set dead"

definition timers_ok ::
  "unit handle_table \<Rightarrow> (nat \<Rightarrow> timer_node) \<Rightarrow> handle list \<Rightarrow> (nat \<Rightarrow> nat list) \<Rightarrow> bool" where
  "timers_ok tab nd dead gl \<longleftrightarrow> ht_wf tab \<and>
     (\<forall>h. ht_get tab h \<noteq> None \<longrightarrow> tn_id (nd (node_of h)) = h) \<and>
     (\<forall>n. tn_linked (nd n) \<or> tn_in_heap (nd n) \<longrightarrow> good tab nd dead n) \<and>
     (\<forall>n. \<not> (tn_linked (nd n) \<and> tn_in_heap (nd n))) \<and>
     (\<forall>g. distinct (gl g)) \<and> (\<forall>g. \<forall>n \<in> set (gl g). good tab nd dead n) \<and>
     (\<forall>h \<in> set dead. ht_get tab h \<noteq> None)"

definition em_ok :: "em \<Rightarrow> bool" where
  "em_ok w \<longleftrightarrow> th_inv w \<and> timers_ok (em_table w) (wh_node w) (em_dead w) (em_glist w)"

text \<open>\<open>m\<close> tells whether a wheel slot is being drained.\<close>

definition wh_state :: "bool \<Rightarrow> 'a wheel_scheme \<Rightarrow> bool" where
  "wh_state m w \<longleftrightarrow> (if m then wh_mid w else wh_inv w)"

definition em_safe :: "bool \<Rightarrow> em \<Rightarrow> bool" where
  "em_safe m w \<longleftrightarrow> wh_state m w \<and> em_ok w"

abbreviation in_heap :: "'a wheel_scheme \<Rightarrow> nat \<Rightarrow> bool" where
  "in_heap w n \<equiv> tn_in_heap (wh_node w n)"

lemma timers_okD:
  assumes "timers_ok tab nd dead gl"
  shows "ht_wf tab" and "ht_get tab h \<noteq> None \<Longrightarrow> tn_id (nd (node_of h)) = h"
    and "tn_linked (nd n) \<Longrightarrow> good tab nd dead n" and "tn_in_heap (nd n) \<Longrightarrow> good tab nd dead n"
    and "\<not> (tn_linked (nd n) \<and> tn_in_heap (nd n))" and "distinct (gl g)"
    and "n \<in> set (gl g) \<Longrightarrow> good tab nd dead n" and "h \<in> set dead \<Longrightarrow> ht_get tab h \<noteq> None"
  using assms by (auto simp: timers_ok_def)

lemma timers_okI:
  assumes "ht_wf tab" and "\<And>h. ht_get tab h \<noteq> None \<Longrightarrow> tn_id (nd (node_of h)) = h"
    and "\<And>n. tn_linked (nd n) \<or> tn_in_heap (nd n) \<Longrightarrow> good tab nd dead n"
    and "\<And>n. \<not> (tn_linked (nd n) \<and> tn_in_heap (nd n))" and "\<And>g. distinct (gl g)"
    and "\<And>g n. n \<in> set (gl g) \<Longrightarrow> good tab nd dead n" and "\<And>h. h \<in> set dead \<Longrightarrow> ht_get tab h \<noteq> None"
  shows "timers_ok tab nd dead gl"
  unfolding timers_ok_def using assms by blast

section \<open>Frames\<close>

text \<open>What scheduling changes: links, heap positions, buckets.\<close>

definition sched_only :: "em \<Rightarrow> em \<Rightarrow> bool" where
  "sched_only w w' \<longleftrightarrow>
     (\<exists>L H X b c h. w' = w\<lparr>wh_node := (\<lambda>k. (wh_node w k)\<lparr>tn_linked := L k, tn_in_heap := H k, tn_heap_idx := X k\<rparr>),
        wh_bucket := b, wh_count := c, th_heap := h\<rparr>)"

lemma sched_onlyD:
  assumes "sched_only w w'"
  shows "em_table w' = em_table w" "em_gtable w' = em_gtable w" "em_glist w' = em_glist w" "em_dead w' = em_dead w"
    "em_now w' = em_now w" "wh_now w' = wh_now w" "wh_tick w' = wh_tick w" "wh_primed w' = wh_primed w"
    "wh_max_ticks w' = wh_max_ticks w" "em_config w' = em_config w" "em_ctx w' = em_ctx w"
    "tn_id (wh_node w' n) = tn_id (wh_node w n)" "tn_cancelled (wh_node w' n) = tn_cancelled (wh_node w n)"
    "etick w' n = etick w n" "hkey w' n = hkey w n" "tn_precise (wh_node w' n) = tn_precise (wh_node w n)"
proof -
  from assms obtain L H X b c h where
    "w' = w\<lparr>wh_node := (\<lambda>k. (wh_node w k)\<lparr>tn_linked := L k, tn_in_heap := H k, tn_heap_idx := X k\<rparr>),
        wh_bucket := b, wh_count := c, th_heap := h\<rparr>" unfolding sched_only_def by blast
  then show "em_table w' = em_table w" "em_gtable w' = em_gtable w" "em_glist w' = em_glist w" "em_dead w' = em_dead w"
    "em_now w' = em_now w" "wh_now w' = wh_now w" "wh_tick w' = wh_tick w" "wh_primed w' = wh_primed w"
    "wh_max_ticks w' = wh_max_ticks w" "em_config w' = em_config w" "em_ctx w' = em_ctx w"
    "tn_id (wh_node w' n) = tn_id (wh_node w n)" "tn_cancelled (wh_node w' n) = tn_cancelled (wh_node w n)"
    "etick w' n = etick w n" "hkey w' n = hkey w n" "tn_precise (wh_node w' n) = tn_precise (wh_node w n)"
    by simp_all
qed

lemma heap_only_sched: "heap_only w w' \<Longrightarrow> sched_only w w'"
proof -
  assume "heap_only w w'"
  then obtain f h g where "w' = w\<lparr>wh_node := (\<lambda>n. (wh_node w n)\<lparr>tn_heap_idx := f n, tn_in_heap := h n\<rparr>), th_heap := g\<rparr>"
    by (auto simp: heap_only_def)
  moreover have "(\<lambda>n. (wh_node w n)\<lparr>tn_heap_idx := f n, tn_in_heap := h n\<rparr>)
      = (\<lambda>k. (wh_node w k)\<lparr>tn_linked := linked w k, tn_in_heap := h k, tn_heap_idx := f k\<rparr>)" by (rule ext) simp
  ultimately have "w' = w\<lparr>wh_node := (\<lambda>k. (wh_node w k)\<lparr>tn_linked := linked w k, tn_in_heap := h k, tn_heap_idx := f k\<rparr>),
        wh_bucket := wh_bucket w, wh_count := wh_count w, th_heap := g\<rparr>" by simp
  then show ?thesis unfolding sched_only_def by (intro exI [of _ "linked w"] exI [of _ h] exI [of _ f] exI)
qed

lemma wheel_only_sched:
  assumes "w' = w\<lparr>wh_node := (wh_node w)(n := (wh_node w n)\<lparr>tn_linked := l\<rparr>), wh_bucket := b, wh_count := c\<rparr>"
  shows "sched_only w w'"
proof -
  have "(wh_node w)(n := (wh_node w n)\<lparr>tn_linked := l\<rparr>) = (\<lambda>k. (wh_node w k)\<lparr>tn_linked := (if k = n then l else linked w k),
      tn_in_heap := in_heap w k, tn_heap_idx := tn_heap_idx (wh_node w k)\<rparr>)" by auto
  then have "w' = w\<lparr>wh_node := (\<lambda>k. (wh_node w k)\<lparr>tn_linked := (if k = n then l else linked w k),
      tn_in_heap := in_heap w k, tn_heap_idx := tn_heap_idx (wh_node w k)\<rparr>), wh_bucket := b, wh_count := c, th_heap := th_heap w\<rparr>"
    using assms by simp
  then show ?thesis unfolding sched_only_def
    by (intro exI [of _ "\<lambda>k. if k = n then l else linked w k"] exI [of _ "in_heap w"]
        exI [of _ "\<lambda>k. tn_heap_idx (wh_node w k)"] exI)
qed

lemma th_inv_cong:
  assumes "th_heap w' = th_heap w" "\<And>n. in_heap w' n = in_heap w n"
    "\<And>n. in_heap w n \<Longrightarrow> hkey w' n = hkey w n \<and> tn_heap_idx (wh_node w' n) = tn_heap_idx (wh_node w n)"
  shows "th_inv w' = th_inv w"
proof -
  have *: "th_idx_ok w' = th_idx_ok w" if "\<forall>n. in_heap w n \<longleftrightarrow> n \<in> set (th_heap w)"
    using assms that by (auto simp: th_idx_ok_def)
  have k: "hkey w' (th_heap w ! i) = hkey w (th_heap w ! i)"
    if "\<forall>n. in_heap w n \<longleftrightarrow> n \<in> set (th_heap w)" "i < length (th_heap w)" for i
    using assms(3) that by simp
  have "heap_ok (hkey w') (th_heap w') = heap_ok (hkey w) (th_heap w)" if a: "\<forall>n. in_heap w n \<longleftrightarrow> n \<in> set (th_heap w)"
  proof -
    have "edge (hkey w') (th_heap w) j = edge (hkey w) (th_heap w) j" if "0 < j" "j < length (th_heap w)" for j
      using k [OF a] that parent_less [of j] by (simp add: edge_def)
    then show ?thesis by (auto simp: heap_ok_def assms(1))
  qed
  then show ?thesis using * assms(1,2) by (auto simp: th_inv_def th_idx_ok_def)
qed

lemma wh_state_cong:
  assumes "wh_bucket w' = wh_bucket w" "wh_count w' = wh_count w" "wh_now w' = wh_now w"
    "\<And>n. linked w' n = linked w n" "\<And>n. linked w n \<Longrightarrow> etick w' n = etick w n"
  shows "wh_state m w' = wh_state m w"
proof -
  have mem: "members w' = members w" using assms(1) by (simp add: members_def)
  have wf: "wh_wf w' = wh_wf w" using assms(1,2,4) mem by (simp add: wh_wf_def)
  have e: "etick w' n = etick w n" if "wh_wf w" "n \<in> set (wh_bucket w l s)" for n l s
    using assms(5) that membersI wh_wfD(3) by metis
  have e2: "etick w' n = etick w n" if "wh_wf w" "n \<in> members w" for n
    using assms(5) that wh_wfD(3) by metis
  show ?thesis
    unfolding wh_state_def wh_mid_def wh_inv_def all_placed_def horizon_def
    using assms(1,3) wf mem e e2 by auto
qed


section \<open>Scheduling a node\<close>

lemma state_insert:
  assumes "wh_state m w" "\<not> linked w n" "wh_fits (etick w n) (wh_now w)"
  shows "wh_state m (wh_insert n (wh_now w) w)" and "m \<Longrightarrow> cur (wh_insert n (wh_now w) w) = cur w"
  using assms mid_insert [of w n] wh_inv_insert [of w n] by (simp_all add: wh_state_def split: if_splits)

lemma state_detach:
  assumes "wh_state m w" "linked w n"
  shows "wh_state m (wh_detach n w)"
  using assms mid_detach [of w n] wh_inv_detach [of w n] by (simp add: wh_state_def split: if_splits)

lemma state_heap_only: "heap_only w w' \<Longrightarrow> wh_state m w' = wh_state m w"
  using heap_only_wheel(1,2) [of w w'] by (simp add: wh_state_def)

lemma subseq_remove1: "subseq (remove1 x xs) xs"
  by (induction xs) auto

lemma unlink_spec:
  assumes th: "th_inv w" and st: "wh_state m w" and ex: "\<not> (linked w n \<and> in_heap w n)"
  defines "w' \<equiv> unlink_timer n w"
  shows "sched_only w w'" and "wh_state m w'" and "th_inv w'" and "linked w' k \<longleftrightarrow> linked w k \<and> k \<noteq> n"
    and "in_heap w' k \<longleftrightarrow> in_heap w k \<and> k \<noteq> n" and "subseq (cur w') (cur w)"
proof -
  have "sched_only w w' \<and> wh_state m w' \<and> th_inv w' \<and> (\<forall>k. linked w' k \<longleftrightarrow> linked w k \<and> k \<noteq> n) \<and>
    (\<forall>k. in_heap w' k \<longleftrightarrow> in_heap w k \<and> k \<noteq> n) \<and> subseq (cur w') (cur w)"
  proof (cases "in_heap w n")
    case True
    note R = remove_spec [OF th True]
    have w': "w' = th_remove n w" using True by (simp add: w'_def unlink_timer_def)
    have ho: "heap_only w w'" using R w' by simp
    note D = heap_onlyD [OF ho]
    have lk: "linked w' k \<longleftrightarrow> linked w k \<and> k \<noteq> n" for k using fun_cong [OF D(3), of k] True ex by auto
    have ih: "in_heap w' k \<longleftrightarrow> in_heap w k \<and> k \<noteq> n" for k
      using R th by (simp add: w' th_inv_def th_idx_ok_def)
    show ?thesis using heap_only_sched [OF ho] state_heap_only [OF ho] st R lk ih D(4,7) by (simp add: w')
  next
    case False
    show ?thesis
    proof (cases "linked w n")
      case True
      have w': "w' = wh_detach n w" using True False by (simp add: w'_def unlink_timer_def wh_unlink_def)
      have so: "sched_only w w'" unfolding w' wh_detach_def by (rule wheel_only_sched) simp
      have nd: "wh_node w' = (wh_node w)(n := (wh_node w n)\<lparr>tn_linked := False\<rparr>)" by (simp add: w' wh_detach_def)
      have ih: "in_heap w' k \<longleftrightarrow> in_heap w k" for k by (simp add: nd)
      have "th_inv w' = th_inv w" by (rule th_inv_cong) (simp_all add: ih nd, simp add: w' wh_detach_def)
      then show ?thesis using so state_detach [OF st True] th ih False by (auto simp: w' subseq_remove1)
    next
      case nl: False
      then have "w' = w" using False by (simp add: w'_def unlink_timer_def wh_unlink_def)
      moreover have "sched_only w w"
        unfolding sched_only_def by (intro exI [of _ "linked w"] exI [of _ "in_heap w"] exI [of _ "\<lambda>k. tn_heap_idx (wh_node w k)"]
            exI [of _ "wh_bucket w"] exI [of _ "wh_count w"] exI [of _ "th_heap w"]) simp
      ultimately show ?thesis using False nl st th by auto
    qed
  qed
  then show "sched_only w w'" and "wh_state m w'" and "th_inv w'" and "linked w' k \<longleftrightarrow> linked w k \<and> k \<noteq> n"
    and "in_heap w' k \<longleftrightarrow> in_heap w k \<and> k \<noteq> n" and "subseq (cur w') (cur w)" by blast+
qed

definition to_wheel :: "nat \<Rightarrow> em \<Rightarrow> bool" where
  "to_wheel n w \<longleftrightarrow> wh_fits (etick w n) (wh_now w) \<and> \<not> tn_precise (wh_node w n)"

lemma insert_spec:
  assumes th: "th_inv w" and st: "wh_state m w" and ex: "\<not> linked w n" "\<not> in_heap w n"
  defines "w' \<equiv> insert_timer n w"
  shows "sched_only w w'" and "wh_state m w'" and "th_inv w'" and "linked w' k \<longleftrightarrow> linked w k \<or> k = n \<and> to_wheel n w"
    and "in_heap w' k \<longleftrightarrow> in_heap w k \<or> k = n \<and> \<not> to_wheel n w" and "m \<Longrightarrow> cur w' = cur w"
proof -
  have "(wh_node w n)\<lparr>tn_in_heap := False\<rparr> = wh_node w n" using ex(2) by (cases "wh_node w n") simp
  then have same: "set_node n (\<lambda>x. x\<lparr>tn_in_heap := False\<rparr>) w = w" by (simp add: set_node_def)
  have "sched_only w w' \<and> wh_state m w' \<and> th_inv w' \<and> (\<forall>k. linked w' k \<longleftrightarrow> linked w k \<or> k = n \<and> to_wheel n w) \<and>
    (\<forall>k. in_heap w' k \<longleftrightarrow> in_heap w k \<or> k = n \<and> \<not> to_wheel n w) \<and> (m \<longrightarrow> cur w' = cur w)"
  proof (cases "to_wheel n w")
    case True
    then have w': "w' = wh_insert n (wh_now w) w" by (simp add: w'_def insert_timer_def Let_def same to_wheel_def)
    have so: "sched_only w w'" unfolding w' wh_insert_def wh_insert_node_def Let_def by (rule wheel_only_sched) simp
    have nd: "wh_node w' = (wh_node w)(n := (wh_node w n)\<lparr>tn_linked := True\<rparr>)"
      by (simp add: w' wh_insert_def wh_insert_node_def Let_def)
    have ih: "in_heap w' k \<longleftrightarrow> in_heap w k" for k by (simp add: nd)
    have "th_inv w' = th_inv w"
      by (rule th_inv_cong) (simp_all add: ih nd, simp add: w' wh_insert_def wh_insert_node_def Let_def)
    then show ?thesis using so state_insert [OF st ex(1)] True th ih by (auto simp: w' to_wheel_def)
  next
    case False
    then have w': "w' = th_push n w" by (auto simp: w'_def insert_timer_def Let_def same to_wheel_def)
    note P = push_ok [OF th ex(2), folded w']
    note D = heap_onlyD [OF P(2)]
    have lk: "linked w' k \<longleftrightarrow> linked w k" for k using fun_cong [OF D(3), of k] .
    have ih: "in_heap w' k \<longleftrightarrow> in_heap w k \<or> k = n" for k
      using P(1,3) th by (auto simp: th_inv_def th_idx_ok_def)
    show ?thesis using heap_only_sched [OF P(2)] state_heap_only [OF P(2)] st P(1) lk ih False D(4,7) by simp
  qed
  then show "sched_only w w'" and "wh_state m w'" and "th_inv w'" and "linked w' k \<longleftrightarrow> linked w k \<or> k = n \<and> to_wheel n w"
    and "in_heap w' k \<longleftrightarrow> in_heap w k \<or> k = n \<and> \<not> to_wheel n w" and "m \<Longrightarrow> cur w' = cur w" by blast+
qed


section \<open>Steps\<close>

definition due :: "em \<Rightarrow> nat set" where
  "due w = {n. in_heap w n \<and> hkey w n \<le> em_now w}"

text \<open>A timer that is off the wheel and the heap while its callback runs.\<close>

definition parked :: "nat \<Rightarrow> em \<Rightarrow> bool" where
  "parked n w \<longleftrightarrow> \<not> linked w n \<and> \<not> in_heap w n \<and> node_of (tn_id (wh_node w n)) = n \<and>
     ht_get (em_table w) (tn_id (wh_node w n)) \<noteq> None \<and>
     (\<not> tn_cancelled (wh_node w n) \<longrightarrow> tn_id (wh_node w n) \<notin> set (em_dead w))"

definition same_ctl :: "em \<Rightarrow> em \<Rightarrow> bool" where
  "same_ctl w w' \<longleftrightarrow> em_now w' = em_now w \<and> wh_now w' = wh_now w \<and> wh_tick w' = wh_tick w \<and>
     wh_primed w' = wh_primed w \<and> wh_max_ticks w' = wh_max_ticks w \<and> em_config w' = em_config w"

definition em_step :: "bool \<Rightarrow> em \<Rightarrow> em \<Rightarrow> bool" where
  "em_step m w w' \<longleftrightarrow> em_safe m w' \<and> same_ctl w w' \<and> (m \<longrightarrow> subseq (cur w') (cur w)) \<and> due w' \<subseteq> due w \<and>
     (\<forall>n. parked n w \<longrightarrow> parked n w' \<and> tn_id (wh_node w' n) = tn_id (wh_node w n))"

lemma em_step_trans [trans]:
  assumes "em_step m u v" "em_step m v w"
  shows "em_step m u w"
proof -
  have "same_ctl u w" using assms by (simp add: em_step_def same_ctl_def)
  moreover have "m \<longrightarrow> subseq (cur w) (cur u)" using assms subseq_order.order_trans unfolding em_step_def by blast
  moreover have "due w \<subseteq> due u" using assms unfolding em_step_def by blast
  moreover have "parked n w \<and> tn_id (wh_node w n) = tn_id (wh_node u n)" if "parked n u" for n
    using assms that unfolding em_step_def by simp
  ultimately show ?thesis using assms(2) by (simp add: em_step_def)
qed

lemma em_step_frame:
  assumes "em_safe m w" and "wh_node w' = wh_node w" "wh_bucket w' = wh_bucket w" "wh_count w' = wh_count w"
    "th_heap w' = th_heap w" "em_table w' = em_table w" "em_dead w' = em_dead w" "em_glist w' = em_glist w" "same_ctl w w'"
  shows "em_step m w w'"
proof -
  have n: "wh_now w' = wh_now w" "em_now w' = em_now w" using assms(9) by (simp_all add: same_ctl_def)
  have "wh_state m w' = wh_state m w" by (rule wh_state_cong) (simp_all add: assms n)
  moreover have "th_inv w' = th_inv w" by (rule th_inv_cong) (simp_all add: assms)
  ultimately have "em_safe m w'" using assms by (simp add: em_safe_def em_ok_def)
  then show ?thesis using assms n by (simp add: em_step_def due_def parked_def)
qed

lemma em_safeD:
  assumes "em_safe m w"
  shows "wh_state m w" "th_inv w" "timers_ok (em_table w) (wh_node w) (em_dead w) (em_glist w)"
  using assms by (simp_all add: em_safe_def em_ok_def)

lemma good_cong:
  "tn_id (nd' n) = tn_id (nd n) \<Longrightarrow> tn_cancelled (nd' n) = tn_cancelled (nd n) \<Longrightarrow> good tab nd' dead n = good tab nd dead n"
  by (simp add: good_def)

lemma bump_step: "em_safe m w \<Longrightarrow> em_step m w (bump f w)"
  by (rule em_step_frame) (simp_all add: bump_def same_ctl_def)

lemma record_step: "em_safe m w \<Longrightarrow> em_step m w (em_record k h a b tr w)"
  by (rule em_step_frame) (simp_all add: em_record_def same_ctl_def)

text \<open>Scheduling an unscheduled node that may be scheduled.\<close>

lemma insert_step:
  assumes safe: "em_safe m w" and ex: "\<not> linked w n" "\<not> in_heap w n"
    and g: "good (em_table w) (wh_node w) (em_dead w) n" and d: "to_wheel n w \<or> em_now w < hkey w n"
  defines "w' \<equiv> insert_timer n w"
  shows "em_safe m w' \<and> same_ctl w w' \<and> (m \<longrightarrow> subseq (cur w') (cur w)) \<and> due w' \<subseteq> due w \<and>
     (\<forall>k. k \<noteq> n \<longrightarrow> parked k w \<longrightarrow> parked k w' \<and> tn_id (wh_node w' k) = tn_id (wh_node w k)) \<and>
     em_glist w' = em_glist w \<and> sched_only w w'"
proof -
  note S = insert_spec [OF em_safeD(2,1) [OF safe] ex, folded w'_def]
  note D = sched_onlyD [OF S(1)]
  note T = em_safeD(3) [OF safe]
  have gd: "good (em_table w) (wh_node w') (em_dead w) k = good (em_table w) (wh_node w) (em_dead w) k" for k
    by (rule good_cong) (simp_all add: D(12,13))
  have "timers_ok (em_table w) (wh_node w') (em_dead w) (em_glist w)"
  proof (rule timers_okI)
    fix k assume "linked w' k \<or> in_heap w' k"
    then have "linked w k \<or> in_heap w k \<or> k = n" using S(4,5) by blast
    then show "good (em_table w) (wh_node w') (em_dead w) k"
      unfolding gd using timers_okD(3,4) [OF T] g by blast
  next
    fix k show "\<not> (linked w' k \<and> in_heap w' k)" using S(4,5) timers_okD(5) [OF T, of k] ex by blast
  next
    fix h assume "ht_get (em_table w) h \<noteq> None"
    then show "tn_id (wh_node w' (node_of h)) = h" using timers_okD(2) [OF T] D(12) by simp
  qed (use timers_okD [OF T] gd in blast)+
  then have "em_safe m w'" using S(2,3) by (simp add: em_safe_def em_ok_def D(1,3,4))
  moreover have "due w' \<subseteq> due w" using S(5) d by (auto simp: due_def D(5,15))
  moreover have "same_ctl w w'" by (simp add: same_ctl_def D)
  moreover have "parked k w' \<and> tn_id (wh_node w' k) = tn_id (wh_node w k)" if "k \<noteq> n" "parked k w" for k
    using that S(4,5) by (auto simp: parked_def D)
  ultimately show ?thesis using S(1,6) D(3) by simp
qed


section \<open>Cancelling\<close>

text \<open>Writing fields that scheduling does not read.\<close>

lemma set_node_fields [simp]:
  "wh_bucket (set_node n f w) = wh_bucket w" "wh_count (set_node n f w) = wh_count w" "wh_now (set_node n f w) = wh_now w"
  "th_heap (set_node n f w) = th_heap w" "em_table (set_node n f w) = em_table w" "em_dead (set_node n f w) = em_dead w"
  "em_glist (set_node n f w) = em_glist w" "em_now (set_node n f w) = em_now w" "wh_tick (set_node n f w) = wh_tick w"
  "wh_primed (set_node n f w) = wh_primed w" "wh_max_ticks (set_node n f w) = wh_max_ticks w"
  "em_config (set_node n f w) = em_config w" "em_gtable (set_node n f w) = em_gtable w"
  "wh_node (set_node n f w) k = (if k = n then f (wh_node w n) else wh_node w k)"
  by (simp_all add: set_node_def)

lemma set_node_keep:
  assumes "\<And>x. tn_linked (f x) = tn_linked x \<and> tn_in_heap (f x) = tn_in_heap x \<and> tn_heap_idx (f x) = tn_heap_idx x \<and>
      tn_expiry (f x) = tn_expiry x \<and> tn_expiry_tick (f x) = tn_expiry_tick x"
  shows "wh_state m (set_node n f w) = wh_state m w" and "th_inv (set_node n f w) = th_inv w"
proof -
  show "wh_state m (set_node n f w) = wh_state m w" by (rule wh_state_cong) (simp_all add: assms)
  show "th_inv (set_node n f w) = th_inv w" by (rule th_inv_cong) (simp_all add: assms)
qed

lemma kill_step:
  assumes safe: "em_safe m w" and tid: "ht_get (em_table w) tid \<noteq> None" "node_of tid = n"
    and st: "wh_state m w'" "th_inv w'" "\<And>k. linked w' k \<longleftrightarrow> linked w k \<and> k \<noteq> n" "\<And>k. in_heap w' k \<longleftrightarrow> in_heap w k \<and> k \<noteq> n"
      "subseq (cur w') (cur w)"
    and nd: "\<And>k. tn_id (wh_node w' k) = tn_id (wh_node w k)" "\<And>k. tn_cancelled (wh_node w' k) \<longleftrightarrow> k = n \<or> tn_cancelled (wh_node w k)"
      "\<And>k. hkey w' k = hkey w k"
    and fr: "em_glist w' = (\<lambda>g. remove1 n (em_glist w g))" "em_dead w' = em_dead w @ [tid]" "em_table w' = em_table w" "same_ctl w w'"
  shows "em_step m w w'"
proof -
  note T = em_safeD(3) [OF safe]
  have id: "tn_id (wh_node w n) = tid" using timers_okD(2) [OF T tid(1)] tid(2) by simp
  have gd: "good (em_table w) (wh_node w') (em_dead w @ [tid]) k"
    if "good (em_table w) (wh_node w) (em_dead w) k" "k \<noteq> n" for k
    using that tid(2) by (auto simp: good_def nd)
  have "timers_ok (em_table w) (wh_node w') (em_dead w @ [tid]) (\<lambda>g. remove1 n (em_glist w g))"
  proof (rule timers_okI)
    fix k assume "linked w' k \<or> in_heap w' k"
    then show "good (em_table w) (wh_node w') (em_dead w @ [tid]) k"
      using st(3,4) timers_okD(3,4) [OF T, of k] gd by blast
  next
    fix g k assume "k \<in> set (remove1 n (em_glist w g))"
    then have "k \<in> set (em_glist w g)" "k \<noteq> n" using timers_okD(6) [OF T, of g] by auto
    then show "good (em_table w) (wh_node w') (em_dead w @ [tid]) k" using gd timers_okD(7) [OF T] by blast
  next
    fix h assume "h \<in> set (em_dead w @ [tid])"
    then show "ht_get (em_table w) h \<noteq> None" using timers_okD(8) [OF T, of h] tid(1) by auto
  next
    fix h assume "ht_get (em_table w) h \<noteq> None"
    then show "tn_id (wh_node w' (node_of h)) = h" using timers_okD(2) [OF T] nd(1) by simp
  qed (use timers_okD(1,5,6) [OF T] st(3,4) in auto)
  then have "em_safe m w'" using st(1,2) fr by (simp add: em_safe_def em_ok_def)
  moreover have "due w' \<subseteq> due w" using st(4) nd(3) fr(4) by (auto simp: due_def same_ctl_def)
  moreover have "parked k w' \<and> tn_id (wh_node w' k) = tn_id (wh_node w k)" if "parked k w" for k
    using that st(3,4) nd fr(2,3) id tid(2) by (auto simp: parked_def)
  ultimately show ?thesis using st(5) fr(4) by (simp add: em_step_def)
qed

lemma cancel_step:
  assumes safe: "em_safe m w"
  shows "em_step m w (snd (em_cancel tid w))"
proof (cases "\<not> timer_live tid w \<or> tn_cancelled (wh_node w (node_of tid))")
  case True
  then have "snd (em_cancel tid w) = w" by (simp add: em_cancel_def)
  then show ?thesis using em_step_frame [OF safe, of w] by (simp add: same_ctl_def)
next
  case False
  let ?n = "node_of tid"
  define w1 where "w1 = set_node ?n (\<lambda>x. x\<lparr>tn_cancelled := True\<rparr>) w"
  define w2 where "w2 = unlink_timer ?n w1"
  define w3 where "w3 = set_node ?n (\<lambda>x. x\<lparr>tn_group := null_handle\<rparr>) (group_unlink ?n w2)"
  have c: "snd (em_cancel tid w) = bump (\<lambda>s. s\<lparr>st_timers_cancelled := st_timers_cancelled s + 1\<rparr>) (w3\<lparr>em_dead := em_dead w3 @ [tid]\<rparr>)"
    using False by (simp add: em_cancel_def Let_def w1_def w2_def w3_def)
  have k1: "wh_state m w1" "th_inv w1" using em_safeD [OF safe] by (simp_all add: w1_def set_node_keep)
  have ex: "\<not> (linked w1 ?n \<and> in_heap w1 ?n)" using timers_okD(5) [OF em_safeD(3) [OF safe], of ?n] by (simp add: w1_def)
  note U = unlink_spec [OF k1(2,1) ex, folded w2_def]
  note D = sched_onlyD [OF U(1)]
  have s3: "wh_state m w3" "th_inv w3"
  proof -
    have "wh_state m (group_unlink ?n w2) = wh_state m w2" by (rule wh_state_cong) (simp_all add: group_unlink_def)
    moreover have "th_inv (group_unlink ?n w2) = th_inv w2" by (rule th_inv_cong) (simp_all add: group_unlink_def)
    ultimately show "wh_state m w3" "th_inv w3" using U(2,3) by (simp_all add: w3_def set_node_keep)
  qed
  have "em_step m w (w3\<lparr>em_dead := em_dead w3 @ [tid]\<rparr>)"
  proof (rule kill_step [OF safe _ refl])
    show "wh_state m (w3\<lparr>em_dead := em_dead w3 @ [tid]\<rparr>)"
      using s3(1) wh_state_cong [of "w3\<lparr>em_dead := em_dead w3 @ [tid]\<rparr>" w3] by simp
    show "th_inv (w3\<lparr>em_dead := em_dead w3 @ [tid]\<rparr>)"
      using s3(2) th_inv_cong [of "w3\<lparr>em_dead := em_dead w3 @ [tid]\<rparr>" w3] by simp
  qed (use False U(4-6) D in \<open>auto simp: timer_live_def w3_def w1_def group_unlink_def same_ctl_def\<close>)
  then have "em_safe m (w3\<lparr>em_dead := em_dead w3 @ [tid]\<rparr>)" "em_step m w (w3\<lparr>em_dead := em_dead w3 @ [tid]\<rparr>)"
    by (simp_all add: em_step_def)
  then show ?thesis unfolding c using bump_step em_step_trans by blast
qed


lemma cancel_member_step:
  assumes safe: "em_safe m w" and g: "good (em_table w) (wh_node w) (em_dead w) n"
  shows "em_step m w (cancel_member n w)" and "em_glist (cancel_member n w) = (\<lambda>g. remove1 n (em_glist w g))"
    and "em_table (cancel_member n w) = em_table w" and "em_dead (cancel_member n w) = em_dead w @ [tn_id (wh_node w n)]"
    and "tn_id (wh_node (cancel_member n w) k) = tn_id (wh_node w k)"
    and "tn_cancelled (wh_node (cancel_member n w) k) \<longleftrightarrow> k = n \<or> tn_cancelled (wh_node w k)"
proof -
  define w1 where "w1 = set_node n (\<lambda>x. x\<lparr>tn_group := null_handle, tn_cancelled := True\<rparr>) (group_unlink n w)"
  define w2 where "w2 = unlink_timer n w1"
  have c: "cancel_member n w = w2\<lparr>em_dead := em_dead w2 @ [tn_id (wh_node w2 n)]\<rparr>"
    by (simp add: cancel_member_def Let_def w1_def w2_def)
  have k1: "wh_state m w1" "th_inv w1"
  proof -
    have "wh_state m (group_unlink n w) = wh_state m w" by (rule wh_state_cong) (simp_all add: group_unlink_def)
    moreover have "th_inv (group_unlink n w) = th_inv w" by (rule th_inv_cong) (simp_all add: group_unlink_def)
    ultimately show "wh_state m w1" "th_inv w1" using em_safeD [OF safe] by (simp_all add: w1_def set_node_keep)
  qed
  have ex: "\<not> (linked w1 n \<and> in_heap w1 n)"
    using timers_okD(5) [OF em_safeD(3) [OF safe], of n] by (simp add: w1_def group_unlink_def)
  note U = unlink_spec [OF k1(2,1) ex, folded w2_def]
  note D = sched_onlyD [OF U(1)]
  show gl: "em_glist (cancel_member n w) = (\<lambda>g. remove1 n (em_glist w g))"
    and tb: "em_table (cancel_member n w) = em_table w" and de: "em_dead (cancel_member n w) = em_dead w @ [tn_id (wh_node w n)]"
    and "tn_id (wh_node (cancel_member n w) k) = tn_id (wh_node w k)"
    and "tn_cancelled (wh_node (cancel_member n w) k) \<longleftrightarrow> k = n \<or> tn_cancelled (wh_node w k)"
    by (auto simp: c D w1_def group_unlink_def)
  show "em_step m w (cancel_member n w)"
  proof (rule kill_step [OF safe])
    show "ht_get (em_table w) (tn_id (wh_node w n)) \<noteq> None" "node_of (tn_id (wh_node w n)) = n"
      using g by (simp_all add: good_def)
    show "wh_state m (cancel_member n w)" unfolding c using U(2) wh_state_cong [of "w2\<lparr>em_dead := em_dead w2 @ [tn_id (wh_node w2 n)]\<rparr>" w2] by simp
    show "th_inv (cancel_member n w)" unfolding c using U(3) th_inv_cong [of "w2\<lparr>em_dead := em_dead w2 @ [tn_id (wh_node w2 n)]\<rparr>" w2] by simp
  qed (use gl tb de U(4-6) D in \<open>auto simp: c w1_def group_unlink_def same_ctl_def\<close>)
qed

lemma cancel_members_step:
  "em_safe m w \<Longrightarrow> distinct ms \<Longrightarrow> (\<And>n. n \<in> set ms \<Longrightarrow> good (em_table w) (wh_node w) (em_dead w) n) \<Longrightarrow>
   em_step m w (fold cancel_member ms w)"
proof (induction ms arbitrary: w)
  case Nil
  then show ?case using em_step_frame [OF Nil(1), of w] by (simp add: same_ctl_def)
next
  case (Cons n ms)
  note C = cancel_member_step [OF Cons.prems(1) Cons.prems(3)]
  have n: "n \<in> set (n # ms)" by simp
  have "em_safe m (cancel_member n w)" using C(1) [OF n] by (simp add: em_step_def)
  moreover have "good (em_table (cancel_member n w)) (wh_node (cancel_member n w)) (em_dead (cancel_member n w)) k"
    if k: "k \<in> set ms" for k
  proof -
    have "k \<noteq> n" using Cons.prems(2) k by auto
    moreover have "good (em_table w) (wh_node w) (em_dead w) k" using Cons.prems(3) k by simp
    moreover have "good (em_table w) (wh_node w) (em_dead w) n" by (rule Cons.prems(3) [OF n])
    ultimately show ?thesis unfolding good_def C(3,4,5,6) [OF n] by auto
  qed
  ultimately have "em_step m (cancel_member n w) (fold cancel_member ms (cancel_member n w))"
    using Cons by simp
  then show ?case using em_step_trans [OF C(1) [OF n]] by simp
qed

lemma cancel_group_step: "em_safe m w \<Longrightarrow> em_step m w (snd (em_cancel_group g w))"
proof -
  assume safe: "em_safe m w"
  note T = em_safeD(3) [OF safe]
  have 1: "em_step m w (fold cancel_member (em_glist w (node_of g)) w)"
    using timers_okD(6,7) [OF T] by (intro cancel_members_step [OF safe]) auto
  then have "em_safe m (fold cancel_member (em_glist w (node_of g)) w)" by (simp add: em_step_def)
  then have "em_step m w (bump f (fold cancel_member (em_glist w (node_of g)) w))" for f
    using 1 bump_step em_step_trans by blast
  moreover have "em_step m w w" using em_step_frame [OF safe, of w] by (simp add: same_ctl_def)
  ultimately show ?thesis by (simp add: em_cancel_group_def Let_def)
qed

section \<open>Rescheduling and arming\<close>

definition sched :: "em \<Rightarrow> nat \<Rightarrow> bool" where
  "sched w n \<longleftrightarrow> linked w n \<or> in_heap w n"

text \<open>Where a node with this expiry would go cannot make the heap's due set grow.\<close>

definition due_safe :: "em \<Rightarrow> time_point \<Rightarrow> bool \<Rightarrow> bool" where
  "due_safe w e precise \<longleftrightarrow> em_now w < e \<or> (wh_fits (tick_of (wh_tick w) e) (wh_now w) \<and> \<not> precise)"

lemma same_ctl_trans: "same_ctl u v \<Longrightarrow> same_ctl v w \<Longrightarrow> same_ctl u w"
  by (simp add: same_ctl_def)

lemma retime_step:
  assumes safe: "em_safe m w" and ex: "\<not> linked w n" "\<not> in_heap w n"
    and g: "good (em_table w) (wh_node w) (em_dead w) n"
    and e: "due_safe w e (tn_precise (wh_node w n))"
  defines "w' \<equiv> insert_timer n (set_node n (\<lambda>x. x\<lparr>tn_expiry := e, tn_expiry_tick := tick_of (wh_tick w) e\<rparr>) w)"
  shows "em_safe m w' \<and> same_ctl w w' \<and> (m \<longrightarrow> subseq (cur w') (cur w)) \<and> due w' \<subseteq> due w \<and>
     (\<forall>k. k \<noteq> n \<longrightarrow> parked k w \<longrightarrow> parked k w' \<and> tn_id (wh_node w' k) = tn_id (wh_node w k)) \<and>
     em_glist w' = em_glist w \<and> em_dead w' = em_dead w \<and> em_table w' = em_table w"
proof -
  define v where "v = set_node n (\<lambda>x. x\<lparr>tn_expiry := e, tn_expiry_tick := tick_of (wh_tick w) e\<rparr>) w"
  note T = em_safeD(3) [OF safe]
  have 1: "wh_state m v = wh_state m w" unfolding v_def by (rule wh_state_cong) (use ex in auto)
  have 2: "th_inv v = th_inv w" unfolding v_def by (rule th_inv_cong) (use ex in auto)
  have gd: "good tab (wh_node v) dead k = good tab (wh_node w) dead k" for tab dead k
    by (rule good_cong) (simp_all add: v_def)
  have 3: "timers_ok (em_table v) (wh_node v) (em_dead v) (em_glist v)"
  proof (rule timers_okI)
    fix k assume "linked v k \<or> in_heap v k"
    then have "linked w k \<or> in_heap w k" by (auto simp: v_def split: if_splits)
    then show "good (em_table v) (wh_node v) (em_dead v) k" unfolding gd using timers_okD(3,4) [OF T] by (auto simp: v_def)
  qed (use timers_okD [OF T] gd in \<open>auto simp: v_def\<close>)
  have sv: "em_safe m v" using 1 2 3 safe by (simp add: em_safe_def em_ok_def)
  have exv: "\<not> linked v n" "\<not> in_heap v n" using ex by (simp_all add: v_def)
  have gv: "good (em_table v) (wh_node v) (em_dead v) n" unfolding gd using g by (simp add: v_def)
  have "to_wheel n v \<or> em_now v < hkey v n" using e by (auto simp: v_def to_wheel_def due_safe_def)
  note I = insert_step [OF sv exv gv this]
  note D = sched_onlyD(1,4) [of v "insert_timer n v"]
  have dv: "due v = due w" "parked k w \<Longrightarrow> k \<noteq> n \<Longrightarrow> parked k v" for k
    using ex by (auto simp: due_def parked_def v_def split: if_splits)
  have "same_ctl w v" "cur v = cur w" by (simp_all add: v_def same_ctl_def)
  then show ?thesis using I dv same_ctl_trans [of w v] D
    by (auto simp: w'_def v_def [symmetric]) (auto simp: v_def)
qed

lemma reschedule_step:
  assumes safe: "em_safe m w"
    and ok: "timer_live tid w \<and> \<not> tn_cancelled (wh_node w (node_of tid)) \<longrightarrow>
      sched w (node_of tid) \<and> due_safe w (em_now w + d) (tn_precise (wh_node w (node_of tid)))"
  shows "em_step m w (snd (em_reschedule tid d w))"
proof (cases "\<not> timer_live tid w \<or> tn_cancelled (wh_node w (node_of tid))")
  case True
  then have "snd (em_reschedule tid d w) = w" by (simp add: em_reschedule_def)
  then show ?thesis using em_step_frame [OF safe, of w] by (simp add: same_ctl_def)
next
  case False
  let ?n = "node_of tid"
  define v where "v = unlink_timer ?n w"
  note T = em_safeD(3) [OF safe]
  note U = unlink_spec [OF em_safeD(2,1) [OF safe] timers_okD(5) [OF T, of ?n], folded v_def]
  note D = sched_onlyD [OF U(1)]
  have g: "good (em_table w) (wh_node w) (em_dead w) ?n"
    using ok False timers_okD(3,4) [OF T, of ?n] by (auto simp: sched_def)
  have gd: "good tab (wh_node v) dead k = good tab (wh_node w) dead k" for tab dead k
    by (rule good_cong) (simp_all add: D(12,13))
  have "timers_ok (em_table v) (wh_node v) (em_dead v) (em_glist v)"
  proof (rule timers_okI)
    fix k assume "linked v k \<or> in_heap v k"
    then have "linked w k \<or> in_heap w k" using U(4,5) by blast
    then show "good (em_table v) (wh_node v) (em_dead v) k" unfolding gd using timers_okD(3,4) [OF T] by (auto simp: D)
  qed (use timers_okD [OF T] gd U(4,5) D in auto)
  then have sv: "em_safe m v" using U(2,3) by (simp add: em_safe_def em_ok_def)
  have gv: "good (em_table v) (wh_node v) (em_dead v) ?n" unfolding gd using g by (simp add: D)
  have ds: "due_safe v (em_now w + d) (tn_precise (wh_node v ?n))" using ok False by (simp add: due_safe_def D)
  note R = retime_step [OF sv _ _ gv ds]
  have R': "em_safe m (snd (em_reschedule tid d w))" "same_ctl v (snd (em_reschedule tid d w))"
    "m \<longrightarrow> subseq (cur (snd (em_reschedule tid d w))) (cur v)" "due (snd (em_reschedule tid d w)) \<subseteq> due v"
    "\<And>k. k \<noteq> ?n \<Longrightarrow> parked k v \<Longrightarrow> parked k (snd (em_reschedule tid d w)) \<and>
       tn_id (wh_node (snd (em_reschedule tid d w)) k) = tn_id (wh_node v k)"
    using R U(4,5) False by (simp_all add: em_reschedule_def Let_def v_def [symmetric] D(7))
  have "due v \<subseteq> due w" using U(5) by (auto simp: due_def D)
  moreover have "same_ctl w v" by (simp add: same_ctl_def D)
  moreover have "k \<noteq> ?n \<and> parked k v" if "parked k w" for k
    using that ok False U(4,5) by (auto simp: parked_def sched_def D)
  ultimately show ?thesis
    unfolding em_step_def using R' same_ctl_trans D(12) subseq_order.order_trans [OF _ U(6)] by (auto simp: D)
qed


lemma ht_get_unique:
  "ht_get t h \<noteq> None \<Longrightarrow> ht_get t k \<noteq> None \<Longrightarrow> node_of h = node_of k \<Longrightarrow> h = k"
  by (auto simp: ht_get_Some_iff handle_eq_iff)

lemma emplace_slot_unused:
  assumes "ht_wf t" "ht_room t" "ht_emplace v t = (h, t')" "node_of k = node_of h"
  shows "ht_get t k = None"
proof (cases "k = h")
  case False
  then have "ht_get t' k = None" using ht_get_emplace(1) [OF assms(1-3)] ht_get_unique [of t' k h] assms(4)
    by (cases "ht_get t' k") auto
  then show ?thesis using ht_get_emplace(3) [OF assms(1-3) False] by simp
qed (use ht_get_emplace(2) [OF assms(1-3)] in simp)

text \<open>The new node, before it is scheduled.\<close>

lemma arm_node:
  assumes safe: "em_safe m w" and em: "ht_emplace () (em_table w) = (tid, tab)" and room: "ht_room (em_table w)"
    and nd: "tn_id nd = tid" "\<not> tn_linked nd" "\<not> tn_in_heap nd" "\<not> tn_cancelled nd"
    and gl: "gl = em_glist w \<or> gl = (em_glist w)(j := em_glist w j @ [node_of tid])"
  defines "v \<equiv> w\<lparr>em_table := tab, wh_node := (wh_node w)(node_of tid := nd), em_glist := gl\<rparr>"
  shows "em_safe m v" and "good (em_table v) (wh_node v) (em_dead v) (node_of tid)" and "due v = due w"
    and "parked k w \<Longrightarrow> k \<noteq> node_of tid \<and> parked k v"
proof -
  let ?n = "node_of tid"
  note T = em_safeD(3) [OF safe]
  note wf = timers_okD(1) [OF T]
  note E = ht_get_emplace [OF wf room em]
  note free = emplace_slot_unused [OF wf room em]
  have ng: "\<not> good (em_table w) (wh_node w) (em_dead w) ?n" using free by (auto simp: good_def)
  have ns: "\<not> linked w ?n" "\<not> in_heap w ?n" using ng timers_okD(3,4) [OF T] by blast+
  have ngl: "?n \<notin> set (em_glist w g)" for g using ng timers_okD(7) [OF T] by blast
  have gk: "good tab (wh_node v) (em_dead w) k" if "good (em_table w) (wh_node w) (em_dead w) k" for k
  proof -
    have kn: "k \<noteq> ?n" using that ng by auto
    then have "tn_id (wh_node w k) \<noteq> tid" using that by (auto simp: good_def)
    then show ?thesis using that kn E(3) by (auto simp: good_def v_def)
  qed
  have td: "tid \<notin> set (em_dead w)" using timers_okD(8) [OF T, of tid] E(2) by blast
  have gn: "good tab (wh_node v) (em_dead w) ?n" using nd E(1) td by (auto simp: good_def v_def)
  have "timers_ok tab (wh_node v) (em_dead w) gl"
  proof (rule timers_okI)
    show "ht_wf tab" using htab.inv_emplace [OF wf room, of "()"] em by simp
  next
    fix h assume h: "ht_get tab h \<noteq> None"
    show "tn_id (wh_node v (node_of h)) = h"
    proof (cases "h = tid")
      case False
      then have l: "ht_get (em_table w) h \<noteq> None" using h E(3) by simp
      with free [of h] have "node_of h \<noteq> ?n" by auto
      with l show ?thesis using timers_okD(2) [OF T] by (simp add: v_def)
    qed (simp add: v_def nd)
  next
    fix k assume "linked v k \<or> in_heap v k"
    then have "linked w k \<or> in_heap w k" using nd by (auto simp: v_def split: if_splits)
    then show "good tab (wh_node v) (em_dead w) k" using gk timers_okD(3,4) [OF T] by blast
  next
    fix g k assume "k \<in> set (gl g)"
    then have "k \<in> set (em_glist w g) \<or> k = ?n" using gl by (auto split: if_splits)
    then show "good tab (wh_node v) (em_dead w) k" using gk gn timers_okD(7) [OF T] by blast
  next
    fix h assume "h \<in> set (em_dead w)"
    then show "ht_get tab h \<noteq> None" using timers_okD(8) [OF T] E(2,3) by metis
  qed (use timers_okD(5,6) [OF T] ngl nd gl in \<open>auto simp: v_def\<close>)
  moreover have "wh_state m v = wh_state m w" by (rule wh_state_cong) (use ns nd in \<open>auto simp: v_def\<close>)
  moreover have "th_inv v = th_inv w" by (rule th_inv_cong) (use ns nd in \<open>auto simp: v_def\<close>)
  ultimately show "em_safe m v" using safe by (simp add: em_safe_def em_ok_def) (simp add: v_def)
  show "good (em_table v) (wh_node v) (em_dead v) ?n" using gn by (simp add: v_def)
  show "due v = due w" using ns nd by (auto simp: due_def v_def split: if_splits)
  assume p: "parked k w"
  then have "k \<noteq> ?n" using free by (auto simp: parked_def)
  moreover from this p E(2,3) have "ht_get tab (tn_id (wh_node w k)) \<noteq> None" by (metis parked_def)
  ultimately show "k \<noteq> ?n \<and> parked k v" using p by (auto simp: parked_def v_def)
qed

lemma arm_step:
  assumes safe: "em_safe m w" and room: "ht_room (em_table w)" and e: "due_safe w e precise"
  shows "em_step m w (snd (em_arm e p mode fn g precise w))"
proof -
  obtain tid tab where em: "ht_emplace () (em_table w) = (tid, tab)" by fastforce
  let ?n = "node_of tid"
  let ?grp = "handle_valid g \<and> ht_get (em_gtable w) g \<noteq> None"
  define nd where "nd = fresh_node\<lparr>tn_id := tid, tn_expiry := e, tn_expiry_tick := tick_of (wh_tick w) e, tn_period := p,
      tn_mode := mode, tn_fn := fn, tn_ctx := em_ctx w, tn_precise := precise, tn_group := (if ?grp then g else null_handle)\<rparr>"
  define gl where "gl = (if ?grp then (em_glist w)(node_of g := em_glist w (node_of g) @ [?n]) else em_glist w)"
  define v where "v = w\<lparr>em_table := tab, wh_node := (wh_node w)(?n := nd), em_glist := gl\<rparr>"
  have arm: "snd (em_arm e p mode fn g precise w) = bump (\<lambda>s. s\<lparr>st_timers_armed := st_timers_armed s + 1\<rparr>) (insert_timer ?n v)"
    by (simp add: em_arm_def em Let_def v_def nd_def gl_def set_node_def fresh_node_def)
  have nd: "tn_id nd = tid" "\<not> tn_linked nd" "\<not> tn_in_heap nd" "\<not> tn_cancelled nd" by (simp_all add: nd_def fresh_node_def)
  have "gl = em_glist w \<or> gl = (em_glist w)(node_of g := em_glist w (node_of g) @ [?n])" by (simp add: gl_def)
  note A = arm_node [OF safe em room nd this, folded v_def]
  have ex: "\<not> linked v ?n" "\<not> in_heap v ?n" using nd by (simp_all add: v_def)
  have "to_wheel ?n v \<or> em_now v < hkey v ?n" using e by (auto simp: v_def nd_def to_wheel_def due_safe_def)
  note I = insert_step [OF A(1) ex A(2) this]
  have "em_step m w (insert_timer ?n v)"
  proof -
    have "same_ctl w v" "cur v = cur w" by (simp_all add: same_ctl_def v_def)
    moreover have "tn_id (wh_node v k) = tn_id (wh_node w k)" if "k \<noteq> ?n" for k using that by (simp add: v_def)
    moreover have "parked k w \<Longrightarrow> parked k (insert_timer ?n v) \<and> tn_id (wh_node (insert_timer ?n v) k) = tn_id (wh_node v k)" for k
      using I A(4) by blast
    ultimately show ?thesis unfolding em_step_def using I A(3,4) same_ctl_trans [of w v] by simp
  qed
  moreover have "em_safe m (insert_timer ?n v)" using I by blast
  ultimately show ?thesis unfolding arm by (intro em_step_trans [OF _ bump_step])
qed


section \<open>Callbacks\<close>

text \<open>
  The calls a callback may make for the timer stage to keep its invariant and to end: a timer it
  reschedules is scheduled (see \<open>reschedule_after_firing_dangles\<close> for what happens otherwise), what
  it arms is not already due on the heap, and the handle tables have room.
\<close>

fun op_ok :: "em_op \<Rightarrow> em \<Rightarrow> bool" where
  "op_ok (OpAfter d fn g) w \<longleftrightarrow> ht_room (em_table w) \<and> due_safe w (em_now w + d) False"
| "op_ok (OpAt t fn g) w \<longleftrightarrow> ht_room (em_table w) \<and> due_safe w t True"
| "op_ok (OpEvery p fn d mode g) w \<longleftrightarrow> ht_room (em_table w) \<and> due_safe w (em_now w + (if d \<noteq> 0 then d else p)) False"
| "op_ok (OpReschedule tid d) w \<longleftrightarrow> (timer_live tid w \<and> \<not> tn_cancelled (wh_node w (node_of tid)) \<longrightarrow>
      sched w (node_of tid) \<and> due_safe w (em_now w + d) (tn_precise (wh_node w (node_of tid))))"
| "op_ok _ w \<longleftrightarrow> True"

fun ops_ok :: "em_op list \<Rightarrow> em \<Rightarrow> bool" where
  "ops_ok [] w \<longleftrightarrow> True"
| "ops_ok (op # ops) w \<longleftrightarrow> op_ok op w \<and> ops_ok ops (run_op op w)"

lemma make_group_step:
  assumes safe: "em_safe m w"
  shows "em_step m w (snd (em_make_group w))"
proof -
  let ?w = "snd (em_make_group w)"
  have f: "wh_node ?w = wh_node w" "wh_bucket ?w = wh_bucket w" "wh_count ?w = wh_count w" "th_heap ?w = th_heap w"
    "em_table ?w = em_table w" "em_dead ?w = em_dead w" "same_ctl w ?w"
    by (simp_all add: em_make_group_def case_prod_unfold Let_def same_ctl_def)
  have "em_glist ?w g = em_glist w g \<or> em_glist ?w g = []" for g
    by (simp add: em_make_group_def case_prod_unfold Let_def)
  then have "timers_ok (em_table w) (wh_node w) (em_dead w) (em_glist ?w)"
    using timers_okD [OF em_safeD(3) [OF safe]] by (intro timers_okI) (metis, metis, metis, metis, metis distinct.simps(1),
      metis empty_iff empty_set, metis)
  moreover have "wh_now ?w = wh_now w" using f(7) by (simp add: same_ctl_def)
  then have "wh_state m ?w = wh_state m w" by (intro wh_state_cong) (simp_all add: f)
  moreover have "th_inv ?w = th_inv w" by (rule th_inv_cong) (simp_all add: f)
  ultimately have "em_safe m ?w" using safe f by (simp add: em_safe_def em_ok_def)
  then show ?thesis using f by (simp add: em_step_def due_def parked_def same_ctl_def)
qed

lemma run_op_step: "em_safe m w \<Longrightarrow> op_ok op w \<Longrightarrow> em_step m w (run_op op w)"
proof (cases op)
  assume safe: "em_safe m w" and ok: "op_ok op w"
  { case OpMakeGroup
    show ?thesis unfolding OpMakeGroup run_op.simps by (rule make_group_step [OF safe]) }
  { case (OpPost t)
    show ?thesis unfolding OpPost
      by (rule em_step_frame [OF safe]) (simp_all add: em_post_def bump_def same_ctl_def) }
  { case (OpNoteWrite h)
    show ?thesis unfolding OpNoteWrite
      by (rule em_step_frame [OF safe]) (simp_all add: em_note_write_pending_def same_ctl_def split: option.splits) }
  { case (OpRegisterSink obj ctx)
    show ?thesis unfolding OpRegisterSink
      by (rule em_step_frame [OF safe]) (simp_all add: em_register_sink_def case_prod_unfold Let_def same_ctl_def) }
  { case (OpReleaseSink h)
    show ?thesis unfolding OpReleaseSink
      by (rule em_step_frame [OF safe]) (simp_all add: em_release_sink_def same_ctl_def) }
  { case (OpDefer t)
    show ?thesis unfolding OpDefer
      by (rule em_step_frame [OF safe]) (simp_all add: em_defer_def same_ctl_def) }
  { case OpStop
    show ?thesis unfolding OpStop
      by (rule em_step_frame [OF safe]) (simp_all add: em_request_stop_def same_ctl_def) }
qed (simp_all add: em_after_def em_at_def em_every_def arm_step cancel_step cancel_group_step reschedule_step)

lemma run_ops_step: "em_safe m w \<Longrightarrow> ops_ok ops w \<Longrightarrow> em_step m w (fold run_op ops w)"
proof (induction ops arbitrary: w)
  case Nil
  then show ?case using em_step_frame [OF Nil(1), of w] by (simp add: same_ctl_def)
next
  case (Cons op ops)
  then have 1: "em_step m w (run_op op w)" using run_op_step by simp
  then have "em_safe m (run_op op w)" by (simp add: em_step_def)
  with Cons 1 show ?case using em_step_trans by fastforce
qed

text \<open>User code restricted to such calls, and to exceptions the policy survives.\<close>

definition outcome_ok :: "outcome \<Rightarrow> em \<Rightarrow> bool" where
  "outcome_ok out w \<longleftrightarrow> ops_ok (oc_ops out) w \<and>
     (oc_throws out \<longrightarrow> cf_on_callback_error (em_config w) \<noteq> Terminate)"

definition well_behaved :: "user_code \<Rightarrow> user_code" where
  "well_behaved cb wk w = (if outcome_ok (cb wk w) w then cb wk w else \<lparr>oc_ops = [], oc_throws = False, oc_elapsed = 0\<rparr>)"

lemma well_behaved_ok: "outcome_ok (well_behaved cb wk w) w"
  by (simp add: well_behaved_def outcome_ok_def)

lemma ctx_step: "em_safe m w \<Longrightarrow> em_step m w (w\<lparr>em_ctx := c\<rparr>)"
  by (rule em_step_frame) (simp_all add: same_ctl_def)

lemma report_stall_step: "em_safe m w \<Longrightarrow> em_step m w (report_stall d w)"
  unfolding report_stall_def by (meson bump_step record_step em_step_trans em_step_def)

lemma em_step_refl: "em_safe m w \<Longrightarrow> em_step m w w"
  by (rule em_step_frame) (simp_all add: same_ctl_def)

lemma em_step_safe: "em_step m w w' \<Longrightarrow> em_safe m w'"
  by (simp add: em_step_def)

lemma run_guarded_step:
  assumes safe: "em_safe m w"
  shows "\<exists>w'. run_guarded (well_behaved cb) c wk w = Some w' \<and> em_step m w w'"
proof -
  let ?w1 = "w\<lparr>em_ctx := c\<rparr>"
  define out where "out = well_behaved cb wk ?w1"
  have ok: "outcome_ok out ?w1" unfolding out_def by (rule well_behaved_ok)
  have 1: "em_step m w ?w1" by (rule ctx_step [OF safe])
  have 2: "em_step m w (fold run_op (oc_ops out) ?w1)"
    using em_step_trans [OF 1 run_ops_step [OF em_step_safe [OF 1]]] ok by (simp add: outcome_ok_def)
  obtain w2 where w2: "invoke_guarded out ?w1 = Some w2" "em_step m w w2"
  proof (cases "oc_throws out")
    case True
    then have "cf_on_callback_error (em_config ?w1) \<noteq> Terminate" using ok by (simp add: outcome_ok_def)
    moreover note em_step_trans [OF 2 bump_step [OF em_step_safe [OF 2]]]
    ultimately show ?thesis using that True record_step em_step_trans em_step_safe
      unfolding invoke_guarded_def Let_def by (metis (no_types, lifting))
  qed (use that 2 in \<open>simp add: invoke_guarded_def\<close>)
  define w3 where "w3 = (if cf_stall_threshold (em_config w) > 0 \<and> oc_elapsed out > cf_stall_threshold (em_config w)
      then report_stall (oc_elapsed out) w2 else w2)"
  have "em_step m w w3" unfolding w3_def using em_step_trans [OF w2(2) report_stall_step [OF em_step_safe [OF w2(2)]]] w2(2) by simp
  then have "em_step m w (w3\<lparr>em_ctx := em_ctx w\<rparr>)" using em_step_trans ctx_step em_step_safe by blast
  moreover have "run_guarded (well_behaved cb) c wk w = Some (w3\<lparr>em_ctx := em_ctx w\<rparr>)"
    using w2(1) by (simp add: run_guarded_def Let_def out_def [symmetric] w3_def)
  ultimately show ?thesis by blast
qed


section \<open>Firing\<close>

lemma catch_up_spec:
  "0 < p \<Longrightarrow> \<exists>k. catch_up nxt p now = (nxt + int k * p, of_nat k) \<and> now < nxt + int k * p \<and>
     (k = 0 \<or> nxt + int (k - 1) * p \<le> now)"
proof (induction nxt p now rule: catch_up.induct)
  case (1 nxt p now)
  show ?case
  proof (cases "now < nxt")
    case True
    then show ?thesis by (intro exI [of _ 0]) (simp add: catch_up.simps [of nxt])
  next
    case False
    then obtain k where k: "catch_up (nxt + p) p now = (nxt + p + int k * p, of_nat k)" "now < nxt + p + int k * p"
      "k = 0 \<or> nxt + p + int (k - 1) * p \<le> now" using 1 by auto
    have "nxt + int (Suc k - 1) * p \<le> now" using k(3) False by (cases k) (auto simp: algebra_simps)
    moreover have "catch_up nxt p now = (nxt + int (Suc k) * p, of_nat (Suc k))"
      using False 1(2) k(1) by (simp add: catch_up.simps [of nxt] algebra_simps)
    ultimately show ?thesis using k(2) by (intro exI [of _ "Suc k"]) (simp add: algebra_simps)
  qed
qed

lemma parked_good: "parked n w \<Longrightarrow> \<not> tn_cancelled (wh_node w n) \<Longrightarrow> good (em_table w) (wh_node w) (em_dead w) n"
  by (simp add: parked_def good_def)

text \<open>A one-shot that has run leaves its group and waits for reclamation.\<close>

lemma retire_safe:
  assumes safe: "em_safe m w" and p: "parked n w"
  defines "w' \<equiv> (group_unlink n w)\<lparr>em_dead := em_dead w @ [tn_id (wh_node w n)]\<rparr>"
  shows "em_safe m w' \<and> same_ctl w w' \<and> cur w' = cur w \<and> due w' = due w"
proof -
  note T = em_safeD(3) [OF safe]
  have f: "wh_node w' = wh_node w" "wh_bucket w' = wh_bucket w" "wh_count w' = wh_count w" "th_heap w' = th_heap w"
    "em_table w' = em_table w" "same_ctl w w'" "wh_now w' = wh_now w"
    by (simp_all add: w'_def group_unlink_def same_ctl_def)
  have n: "node_of (tn_id (wh_node w n)) = n" "ht_get (em_table w) (tn_id (wh_node w n)) \<noteq> None"
    using p by (simp_all add: parked_def)
  have gd: "good (em_table w) (wh_node w) (em_dead w @ [tn_id (wh_node w n)]) k"
    if "good (em_table w) (wh_node w) (em_dead w) k" "k \<noteq> n" for k
    using that n(1) by (auto simp: good_def)
  have "timers_ok (em_table w) (wh_node w) (em_dead w @ [tn_id (wh_node w n)]) (\<lambda>g. remove1 n (em_glist w g))"
  proof (rule timers_okI)
    fix k assume "linked w k \<or> in_heap w k"
    then show "good (em_table w) (wh_node w) (em_dead w @ [tn_id (wh_node w n)]) k"
      using gd timers_okD(3,4) [OF T, of k] p unfolding parked_def by blast
  next
    fix g k assume "k \<in> set (remove1 n (em_glist w g))"
    then have "k \<in> set (em_glist w g)" "k \<noteq> n" using timers_okD(6) [OF T, of g] by auto
    then show "good (em_table w) (wh_node w) (em_dead w @ [tn_id (wh_node w n)]) k" using gd timers_okD(7) [OF T] by blast
  next
    fix h assume "h \<in> set (em_dead w @ [tn_id (wh_node w n)])"
    then show "ht_get (em_table w) h \<noteq> None" using timers_okD(8) [OF T, of h] n(2) by auto
  qed (use timers_okD(1,2,5,6) [OF T] in auto)
  moreover have "wh_state m w' = wh_state m w" by (rule wh_state_cong) (simp_all add: f)
  moreover have "th_inv w' = th_inv w" by (rule th_inv_cong) (simp_all add: f)
  ultimately have "em_safe m w'" using safe f by (simp add: em_safe_def em_ok_def) (simp add: w'_def group_unlink_def)
  then show ?thesis using f by (simp add: due_def same_ctl_def)
qed

definition fired_ok :: "bool \<Rightarrow> em \<Rightarrow> em \<Rightarrow> bool" where
  "fired_ok m w w' \<longleftrightarrow> em_safe m w' \<and> same_ctl w w' \<and> (m \<longrightarrow> subseq (cur w') (cur w)) \<and> due w' \<subseteq> due w"

lemma fired_step: "fired_ok m u v \<Longrightarrow> em_step m v w \<Longrightarrow> fired_ok m u w"
  unfolding fired_ok_def em_step_def using same_ctl_trans subseq_order.order_trans by blast

lemma step_fired: "em_step m u v \<Longrightarrow> fired_ok m v w \<Longrightarrow> fired_ok m u w"
  unfolding fired_ok_def em_step_def using same_ctl_trans subseq_order.order_trans by blast

text \<open>The bookkeeping between scheduling and the callback.\<close>

definition note_fire :: "timer_node \<Rightarrow> timer_ctx \<Rightarrow> em \<Rightarrow> em" where
  "note_fire nd tc w =
     (let w2 = bump (\<lambda>s. s\<lparr>st_timers_fired := st_timers_fired s + 1\<rparr>) w;
          w3 = em_record EvTimerFire (h_idx (tn_id nd)) (of_int (tc_lateness tc)) (tc_missed tc)
                 (trace_short (cx_trace (tn_ctx nd))) w2
      in w3\<lparr>em_lateness := hist_record (of_int (max (tc_lateness tc) 0)) (em_lateness w3)\<rparr>)"

lemma note_fire_step: "em_safe m w \<Longrightarrow> em_step m w (note_fire nd tc w)"
  by (rule em_step_frame) (simp_all add: note_fire_def Let_def em_record_def bump_def same_ctl_def)

lemma guarded_note:
  assumes "em_safe m w"
  shows "\<exists>w'. run_guarded (well_behaved cb) c wk (note_fire nd tc w) = Some w' \<and> em_step m w w'"
proof -
  note 1 = note_fire_step [OF assms, of nd tc]
  obtain w' where "run_guarded (well_behaved cb) c wk (note_fire nd tc w) = Some w'" "em_step m (note_fire nd tc w) w'"
    using run_guarded_step [OF em_step_safe [OF 1]] by blast
  then show ?thesis using em_step_trans [OF 1] by blast
qed


lemma fire_fixed_rate:
  assumes "\<not> tn_cancelled (wh_node w n)" "0 < tn_period (wh_node w n)" "tn_mode (wh_node w n) = FixedRate"
    and "catch_up (hkey w n + tn_period (wh_node w n)) (tn_period (wh_node w n)) (em_now w) = (nxt, missed)"
  shows "fire_timer cb n w =
    (let tc = \<lparr>tc_id = tn_id (wh_node w n), tc_scheduled = hkey w n, tc_now = em_now w, tc_missed = missed\<rparr>;
         v = bump (\<lambda>s. s\<lparr>st_timer_coalesced := st_timer_coalesced s + ucast missed\<rparr>) w
     in run_guarded cb (tn_ctx (wh_node w n)) (TimerWork (tn_fn (wh_node w n)) tc)
          (note_fire (wh_node w n) tc (insert_timer n (set_node n (\<lambda>x. x\<lparr>tn_expiry := nxt,
              tn_expiry_tick := tick_of (wh_tick v) nxt\<rparr>) v))))"
  using assms by (simp add: fire_timer_def Let_def note_fire_def bump_def)

lemma fire_other:
  assumes "\<not> tn_cancelled (wh_node w n)" "\<not> (0 < tn_period (wh_node w n) \<and> tn_mode (wh_node w n) = FixedRate)"
  shows "fire_timer cb n w =
    (let nd = wh_node w n;
         tc = \<lparr>tc_id = tn_id nd, tc_scheduled = tn_expiry nd, tc_now = em_now w, tc_missed = 0\<rparr>
     in do { w5 \<leftarrow> run_guarded cb (tn_ctx nd) (TimerWork (tn_fn nd) tc) (note_fire nd tc w);
             Some (if tn_cancelled (wh_node w5 n) then w5
                   else if 0 < tn_period nd
                   then insert_timer n (set_node n (\<lambda>x. x\<lparr>tn_expiry := em_now w5 + tn_period nd,
                          tn_expiry_tick := tick_of (wh_tick w5) (em_now w5 + tn_period nd)\<rparr>) w5)
                   else (group_unlink n w5)\<lparr>em_dead := em_dead w5 @ [tn_id nd]\<rparr>) })"
  using assms
  by (auto simp: fire_timer_def Let_def note_fire_def intro!: Option.bind_cong [OF refl] split: if_splits)
    (cases "tn_mode (wh_node w n)"; simp)+

lemma fire_timer_ok:
  assumes safe: "em_safe m w" and p: "parked n w" and nc: "\<not> tn_cancelled (wh_node w n)"
  shows "\<exists>w'. fire_timer (well_behaved cb) n w = Some w' \<and> fired_ok m w w'"
proof (cases "0 < tn_period (wh_node w n) \<and> tn_mode (wh_node w n) = FixedRate")
  case True
  obtain nxt missed where cu: "catch_up (hkey w n + tn_period (wh_node w n)) (tn_period (wh_node w n)) (em_now w) = (nxt, missed)"
    by fastforce
  have late: "em_now w < nxt" using catch_up_spec [of "tn_period (wh_node w n)" "hkey w n + tn_period (wh_node w n)" "em_now w"] True cu by auto
  define v where "v = bump (\<lambda>s. s\<lparr>st_timer_coalesced := st_timer_coalesced s + ucast missed\<rparr>) w"
  have 1: "em_step m w v" unfolding v_def by (rule bump_step [OF safe])
  then have pv: "parked n v" using p by (simp add: em_step_def)
  have ncv: "\<not> tn_cancelled (wh_node v n)" using nc by (simp add: v_def bump_def)
  have ds: "due_safe v nxt (tn_precise (wh_node v n))" using late by (simp add: due_safe_def v_def bump_def)
  define u where "u = insert_timer n (set_node n (\<lambda>x. x\<lparr>tn_expiry := nxt, tn_expiry_tick := tick_of (wh_tick v) nxt\<rparr>) v)"
  have "fired_ok m v u"
    using retime_step [OF em_step_safe [OF 1] _ _ parked_good [OF pv ncv] ds] pv
    by (simp add: fired_ok_def u_def parked_def)
  then have wu: "fired_ok m w u" by (rule step_fired [OF 1])
  then have "em_safe m u" by (simp add: fired_ok_def)
  from guarded_note [OF this] fire_fixed_rate [OF nc _ _ cu] True fired_step [OF wu] show ?thesis
    by (fastforce simp: Let_def u_def v_def)
next
  case False
  let ?nd = "wh_node w n"
  let ?tc = "\<lparr>tc_id = tn_id ?nd, tc_scheduled = tn_expiry ?nd, tc_now = em_now w, tc_missed = 0\<rparr>"
  obtain w5 where w5: "run_guarded (well_behaved cb) (tn_ctx ?nd) (TimerWork (tn_fn ?nd) ?tc) (note_fire ?nd ?tc w) = Some w5"
    "em_step m w w5" using guarded_note [OF safe] by blast
  have p5: "parked n w5" "tn_id (wh_node w5 n) = tn_id ?nd" using w5(2) p by (simp_all add: em_step_def)
  note s5 = em_step_safe [OF w5(2)]
  have 1: "fired_ok m w5 w5" using s5 by (simp add: fired_ok_def same_ctl_def)
  have 2: "fired_ok m w5 (insert_timer n (set_node n (\<lambda>x. x\<lparr>tn_expiry := em_now w5 + tn_period ?nd,
      tn_expiry_tick := tick_of (wh_tick w5) (em_now w5 + tn_period ?nd)\<rparr>) w5))"
    if "\<not> tn_cancelled (wh_node w5 n)" "0 < tn_period ?nd"
    using retime_step [OF s5 _ _ parked_good [OF p5(1) that(1)], of "em_now w5 + tn_period ?nd"] p5(1) that(2)
    by (simp add: fired_ok_def parked_def due_safe_def)
  have 3: "fired_ok m w5 ((group_unlink n w5)\<lparr>em_dead := em_dead w5 @ [tn_id ?nd]\<rparr>)"
    using retire_safe [OF s5 p5(1)] p5(2) by (simp add: fired_ok_def)
  show ?thesis using 1 2 3 w5(1) step_fired [OF w5(2)]
    unfolding fire_other [OF nc False] Let_def by (simp split: if_splits)
qed


section \<open>The timer stage\<close>

definition firing :: "time_point \<Rightarrow> nat \<Rightarrow> em \<Rightarrow> bool" where
  "firing t n w \<longleftrightarrow> em_ok w \<and> em_now w = t \<and> parked n w \<and> \<not> tn_cancelled (wh_node w n)"

lemma em_ok_cong:
  assumes "em_ok w" "wh_node w' = wh_node w" "th_heap w' = th_heap w" "em_table w' = em_table w" "em_dead w' = em_dead w"
    "em_glist w' = em_glist w"
  shows "em_ok w'"
  using assms th_inv_cong [of w' w] by (simp add: em_ok_def)

text \<open>Taking a scheduled node off its structure parks it.\<close>

lemma unlinked_firing:
  assumes ok: "em_ok w" and n: "linked w n \<or> in_heap w n"
    and w': "th_inv w'" "em_table w' = em_table w" "em_dead w' = em_dead w" "em_glist w' = em_glist w" "em_now w' = em_now w"
    and nd: "\<And>k. linked w' k \<longleftrightarrow> linked w k \<and> k \<noteq> n" "\<And>k. in_heap w' k \<longleftrightarrow> in_heap w k \<and> k \<noteq> n"
      "\<And>k. tn_id (wh_node w' k) = tn_id (wh_node w k)" "\<And>k. tn_cancelled (wh_node w' k) = tn_cancelled (wh_node w k)"
  shows "firing (em_now w) n w'"
proof -
  have T: "timers_ok (em_table w) (wh_node w) (em_dead w) (em_glist w)" using ok by (simp add: em_ok_def)
  have gd: "good tab (wh_node w') dead k = good tab (wh_node w) dead k" for tab dead k
    by (rule good_cong) (simp_all add: nd)
  have "timers_ok (em_table w) (wh_node w') (em_dead w) (em_glist w)"
  proof (rule timers_okI)
    fix k assume "linked w' k \<or> in_heap w' k"
    then show "good (em_table w) (wh_node w') (em_dead w) k" unfolding gd using nd(1,2) timers_okD(3,4) [OF T] by blast
  qed (use timers_okD [OF T] gd nd in auto)
  then have "em_ok w'" using w' by (simp add: em_ok_def)
  moreover have "good (em_table w) (wh_node w) (em_dead w) n" using n timers_okD(3,4) [OF T] by blast
  then have "parked n w' \<and> \<not> tn_cancelled (wh_node w' n)" using nd w' by (auto simp: good_def parked_def)
  ultimately show ?thesis using w'(5) by (simp add: firing_def)
qed

lemma fire_lambda_ok:
  assumes "firing t n w" and "wh_state m w"
  shows "\<exists>w'. fire_lambda (well_behaved cb) n w = Some w' \<and> fired_ok m w w'"
proof -
  let ?w = "w\<lparr>em_fired := True\<rparr>"
  have s: "em_safe m w" using assms by (simp add: em_safe_def firing_def)
  have 1: "em_step m w ?w" by (rule em_step_frame [OF s]) (simp_all add: same_ctl_def)
  have "parked n ?w" "\<not> tn_cancelled (wh_node ?w n)" using assms(1) by (simp_all add: firing_def parked_def)
  from fire_timer_ok [OF em_step_safe [OF 1] this] step_fired [OF 1] show ?thesis
    by (fastforce simp: fire_lambda_def)
qed

interpretation emw: wheel_client "fire_lambda (well_behaved cb)" "\<lambda>w. em_ok w \<and> em_now w = t" "firing t" for cb t
proof
  fix w :: em and s p f
  assume "em_ok w \<and> em_now w = t"
  then show "em_ok (w\<lparr>wh_now := s, wh_primed := p, wh_bucket := f\<rparr>) \<and> em_now (w\<lparr>wh_now := s, wh_primed := p, wh_bucket := f\<rparr>) = t"
    using em_ok_cong [of w "w\<lparr>wh_now := s, wh_primed := p, wh_bucket := f\<rparr>"] by simp
next
  fix w :: em and n
  assume a: "em_ok w \<and> em_now w = t" and mid: "wh_mid w" and n: "linked w n"
  have st: "wh_state True w" using mid by (simp add: wh_state_def)
  have ex: "\<not> (linked w n \<and> in_heap w n)" using a timers_okD(5) by (auto simp: em_ok_def)
  have th: "th_inv w" using a by (simp add: em_ok_def)
  have d: "wh_detach n w = unlink_timer n w" using n ex by (simp add: unlink_timer_def wh_unlink_def)
  note U = unlink_spec [OF th st ex]
  note D = sched_onlyD [OF U(1)]
  have "firing (em_now w) n (unlink_timer n w)"
    by (rule unlinked_firing [of w]) (use a n U D in simp_all)
  then show "firing t n (wh_detach n w)" using a d by simp
next
  fix n w
  assume f: "firing t n w" and mid: "wh_mid w"
  then obtain w' where w': "fire_lambda (well_behaved cb) n w = Some w'" "fired_ok True w w'"
    using fire_lambda_ok [OF f, of True cb] by (auto simp: wh_state_def)
  then show "\<exists>w'. fire_lambda (well_behaved cb) n w = Some w' \<and> (em_ok w' \<and> em_now w' = t) \<and> wh_mid w' \<and>
      wh_now w' = wh_now w \<and> wh_primed w' = wh_primed w \<and> subseq (cur w') (cur w)"
    using f by (auto simp: fired_ok_def em_safe_def wh_state_def same_ctl_def firing_def)
qed

interpretation emh: heap_client "fire_lambda (well_behaved cb)"
  "\<lambda>t w. em_safe False w \<and> em_now w = t \<and> wh_primed w" "\<lambda>t n w. firing t n w \<and> wh_inv w \<and> wh_primed w" for cb
proof
  fix t and w :: em
  assume "em_safe False w \<and> em_now w = t \<and> wh_primed w"
  then show "th_inv w" by (simp add: em_safe_def em_ok_def)
next
  fix t and w :: em and n
  assume a: "em_safe False w \<and> em_now w = t \<and> wh_primed w" and n: "in_heap w n"
  note S = em_safeD [of False w]
  have ex: "\<not> (linked w n \<and> in_heap w n)" using a S(3) timers_okD(5) by blast
  have d: "th_remove n w = unlink_timer n w" using n by (simp add: unlink_timer_def)
  note U = unlink_spec [OF S(2) S(1) ex]
  note D = sched_onlyD [OF U(1)]
  have "firing (em_now w) n (unlink_timer n w)"
    by (rule unlinked_firing [of w]) (use a n U D in \<open>simp_all add: em_safe_def\<close>)
  then show "firing t n (th_remove n w) \<and> wh_inv (th_remove n w) \<and> wh_primed (th_remove n w)"
    using a d U(2) D(8) by (simp add: wh_state_def)
next
  fix t n w
  assume f: "firing t n w \<and> wh_inv w \<and> wh_primed w" and th: "th_inv w"
  then obtain w' where w': "fire_lambda (well_behaved cb) n w = Some w'" "fired_ok False w w'"
    using fire_lambda_ok [of t n w False cb] by (auto simp: wh_state_def)
  have d: "{m \<in> set (th_heap u). hkey u m \<le> em_now u} = due u" if "th_inv u" for u :: em
    using that by (auto simp: due_def th_inv_def th_idx_ok_def)
  have F: "em_safe False w'" "em_now w' = em_now w" "wh_primed w' = wh_primed w" "due w' \<subseteq> due w"
    using w'(2) by (simp_all add: fired_ok_def same_ctl_def)
  have t: "em_now w = t" using f by (simp add: firing_def)
  have th': "th_inv w'" using F(1) by (simp add: em_safe_def em_ok_def)
  have "{m \<in> set (th_heap w'). hkey w' m \<le> t} \<subseteq> {m \<in> set (th_heap w). hkey w m \<le> t}"
    using d [OF th] d [OF th'] F(2,4) t by simp
  then show "\<exists>w'. fire_lambda (well_behaved cb) n w = Some w' \<and> (em_safe False w' \<and> em_now w' = t \<and> wh_primed w') \<and>
      {m \<in> set (th_heap w'). hkey w' m \<le> t} \<subseteq> {m \<in> set (th_heap w). hkey w m \<le> t}"
    using w'(1) f F(1-3) t by blast
qed


text \<open>The invariant between the stages of an iteration.\<close>

definition em_inv :: "em \<Rightarrow> bool" where
  "em_inv w \<longleftrightarrow> em_safe False w \<and> (wh_primed w \<or> wh_now w = 0)"

lemma timer_stage:
  assumes inv: "em_inv w"
  shows "\<exists>w'. expire_timers (well_behaved cb) w = Some w' \<and> em_inv w' \<and> em_now w' = em_now w \<and>
    (\<forall>n \<in> set (th_heap w'). em_now w < hkey w' n)"
proof -
  let ?w = "w\<lparr>em_fired := False\<rparr>"
  have s: "em_safe False w" using inv by (simp add: em_inv_def)
  have "em_step False w ?w" by (rule em_step_frame [OF s]) (simp_all add: same_ctl_def)
  then have s1: "em_safe False ?w" by (rule em_step_safe)
  have "wh_inv ?w" "em_ok ?w \<and> em_now ?w = em_now w" "wh_primed ?w \<or> wh_now ?w = 0"
    using s1 inv by (simp_all add: em_safe_def wh_state_def em_inv_def)
  then obtain w1 where w1: "wh_advance (fire_lambda (well_behaved cb)) (floor_tick (wh_tick ?w) (em_now ?w)) ?w = Some w1"
    "wh_inv w1" "em_ok w1" "em_now w1 = em_now w" "wh_primed w1"
    using emw.advance_ok [of ?w "em_now w" cb] by blast
  then have "em_safe False w1 \<and> em_now w1 = em_now w1 \<and> wh_primed w1" by (simp add: em_safe_def wh_state_def)
  from emh.expire_ok [OF this, of cb] obtain w2 where
    w2: "th_expire (fire_lambda (well_behaved cb)) (em_now w1) w1 = Some w2" "em_safe False w2" "em_now w2 = em_now w1"
    "wh_primed w2" "\<forall>m \<in> set (th_heap w2). em_now w1 < hkey w2 m" by blast
  have "expire_timers (well_behaved cb) w = Some w2" using w1(1) w2(1) by (simp add: expire_timers_def Let_def)
  then show ?thesis using w2 w1(4) by (simp add: em_inv_def)
qed

lemma well_behaved_id: "(\<And>wk v. outcome_ok (cb wk v) v) \<Longrightarrow> well_behaved cb = cb"
  by (intro ext) (simp add: well_behaved_def)

section \<open>Reclamation\<close>

lemma em_inv_dead: "em_inv w \<Longrightarrow> em_inv (reclaim_timers w)"
proof -
  assume inv: "em_inv w"
  have T: "timers_ok (em_table w) (wh_node w) (em_dead w) (em_glist w)" and th: "th_inv w" and wi: "wh_inv w"
    using inv by (simp_all add: em_inv_def em_safe_def em_ok_def wh_state_def)
  let ?t = "fold ht_release (em_dead w) (em_table w)"
  have rel: "ht_wf (fold ht_release hs t) \<and> (\<forall>h. ht_get (fold ht_release hs t) h = (if h \<in> set hs then None else ht_get t h))"
    if "ht_wf t" for hs and t :: "unit handle_table"
    using that
  proof (induction hs arbitrary: t)
    case (Cons a hs)
    have "ht_wf (ht_release a t)" using Cons.prems by (rule ht_wf_release)
    moreover have "ht_get (ht_release a t) h = (if h = a then None else ht_get t h)" for h
      using ht_get_release [OF Cons.prems] by auto
    ultimately show ?case using Cons.IH [of "ht_release a t"] by auto
  qed simp
  note R = rel [OF timers_okD(1) [OF T], of "em_dead w"]
  have g: "good (ht_reclaim ?t) (wh_node w) [] n" if "good (em_table w) (wh_node w) (em_dead w) n" for n
    using that R by (simp add: good_def)
  have "timers_ok (ht_reclaim ?t) (wh_node w) [] (em_glist w)"
  proof (rule timers_okI)
    show "ht_wf (ht_reclaim ?t)" using R ht_wf_reclaim by blast
    show "tn_id (wh_node w (node_of h)) = h" if "ht_get (ht_reclaim ?t) h \<noteq> None" for h
      using that R timers_okD(2) [OF T] by (simp split: if_splits)
  qed (use timers_okD [OF T] g in auto)
  then have "em_ok (reclaim_timers w)"
    using th th_inv_cong [of "reclaim_timers w" w] by (simp add: em_ok_def reclaim_timers_def)
  moreover have "wh_state False (reclaim_timers w) = wh_state False w"
    by (rule wh_state_cong) (simp_all add: reclaim_timers_def)
  ultimately show ?thesis using inv by (simp add: em_inv_def em_safe_def reclaim_timers_def)
qed


section \<open>Properties\<close>

definition sample_cfg :: em_config where
  "sample_cfg = \<lparr>cf_wait = WaitBlock, cf_spin_budget = 50000, cf_max_itc_batch = 128, cf_max_defer_batch = 256,
     cf_on_callback_error = RouteToHandler, cf_stall_threshold = 0, cf_mailbox_capacity = 4096\<rparr>"

text \<open>A callback that reschedules its own timer.\<close>

definition rearm_self :: user_code where
  "rearm_self wk w = \<lparr>oc_ops = (case wk of TimerWork fn tc \<Rightarrow> [OpReschedule (tc_id tc) 5000000] | _ \<Rightarrow> []),
     oc_throws = False, oc_elapsed = 0\<rparr>"

definition sample_em :: em where
  "sample_em = (snd (em_at 2000000 7 null_handle (em_new sample_cfg 1000000 1 0)))\<lparr>em_now := 3000000\<rparr>"

lemmas arm_defs = em_at_def em_after_def em_arm_def em_new_def wh_new_def insert_timer_def set_node_def bump_def fresh_node_def
  null_handle_def handle_valid_def sample_cfg_def
lemmas slot_defs = ht_get_def ht_emplace_def ht_take_slot_def ht_new_def ht_release_def ht_reclaim_def handle_valid_def
lemmas heap_defs = th_push_def th_sift_up.simps th_remove_def th_sift_down.simps th_top_def set_heap_idx_def
lemmas fire_defs = fire_lambda_def fire_timer_def fresh_node_def run_guarded_def invoke_guarded_def rearm_self_def
  em_reschedule_def timer_live_def group_unlink_def set_node_def insert_timer_def unlink_timer_def wh_unlink_def
  bump_def em_record_def

lemma ht_get_new [simp]: "ht_get (ht_new g) h = None"
  by (simp add: ht_get_def ht_new_def)

lemma em_inv_new: "em_inv (em_new cfg tick seed now)"
proof -
  let ?w = "em_new cfg tick seed now"
  have "wh_inv ?w" unfolding em_new_def by (rule wh_inv_new) (simp add: fresh_node_def)
  moreover have "th_inv ?w"
    by (simp add: th_inv_def th_idx_ok_def heap_ok_def em_new_def wh_new_def fresh_node_def)
  moreover have "timers_ok (em_table ?w) (wh_node ?w) (em_dead ?w) (em_glist ?w)"
    by (rule timers_okI) (simp_all add: em_new_def wh_new_def fresh_node_def ht_get_new)
  ultimately show ?thesis by (simp add: em_inv_def em_safe_def em_ok_def wh_state_def em_new_def wh_new_def)
qed

lemma sample_em_fields:
  "wh_bucket sample_em l s = []" "\<not> wh_primed sample_em" "wh_tick sample_em = 1000000" "em_now sample_em = 3000000"
  "th_heap sample_em = [0]" "em_table sample_em = snd (ht_emplace () (ht_new 1))" "em_dead sample_em = []"
  "em_config sample_em = sample_cfg" "ht_get (em_table sample_em) (tn_id (wh_node sample_em 0)) = Some ()"
  "wh_node sample_em 0 = fresh_node\<lparr>tn_id := \<lparr>h_idx = 0, h_gen = 1\<rparr>, tn_expiry := 2000000, tn_expiry_tick := 2,
     tn_fn := 7, tn_ctx := cx_empty, tn_precise := True, tn_in_heap := True, tn_heap_idx := 0\<rparr>"
  by (simp_all add: sample_em_def arm_defs heap_defs slot_defs tick_of_def signed_divide_int_def Let_def)

lemma sample_em_inv: "em_inv sample_em"
proof -
  let ?v = "em_new sample_cfg 1000000 1 0"
  have s: "em_safe False ?v" using em_inv_new by (simp add: em_inv_def)
  have "op_ok (OpAt 2000000 7 null_handle) ?v"
    by (simp add: due_safe_def ht_room_def em_new_def wh_new_def ht_new_def)
  from run_op_step [OF s this] have "em_step False ?v (snd (em_at 2000000 7 null_handle ?v))" by simp
  then have st: "em_safe False (snd (em_at 2000000 7 null_handle ?v))"
    "wh_now (snd (em_at 2000000 7 null_handle ?v)) = 0"
    by (simp_all add: em_step_def same_ctl_def) (simp add: em_new_def wh_new_def)
  have "em_ok sample_em" unfolding sample_em_def
    by (rule em_ok_cong [of "snd (em_at 2000000 7 null_handle ?v)"]) (use st in \<open>simp_all add: em_safe_def\<close>)
  moreover have "wh_state False sample_em" unfolding sample_em_def
    using st(1) by (subst wh_state_cong [of _ "snd (em_at 2000000 7 null_handle ?v)"]) (simp_all add: em_safe_def)
  ultimately show ?thesis using st(2) by (simp add: em_inv_def em_safe_def sample_em_def)
qed

text \<open>
  C34: A timer stage always ends, and keeps the timers' invariant. When callbacks neither arm timers
  at or before the cached now outside the wheel's reach nor reschedule a timer that is not scheduled, and a
  throwing callback does not meet the terminate policy, \<open>expire_timers\<close> returns; the cached time is
  unchanged, every scheduled timer still resolves through its handle, and no precise timer that is
  due is left in the heap.
\<close>

theorem timer_stage_ends:
  assumes "em_inv w" and "\<forall>wk v. outcome_ok (cb wk v) v"
  shows "\<exists>w'. expire_timers cb w = Some w' \<and> em_inv w' \<and> em_now w' = em_now w \<and>
    (\<forall>n \<in> set (th_heap w'). em_now w < hkey w' n)"
  using timer_stage [OF assms(1), of cb] well_behaved_id [of cb] assms(2) by simp

text \<open>A callback that arms another timer each time it runs.\<close>

definition arm_again :: user_code where
  "arm_again wk w = \<lparr>oc_ops = [OpAfter 5000000 7 null_handle], oc_throws = False, oc_elapsed = 0\<rparr>"

theorem timer_stage_ends_witness:
  "\<exists>w'. expire_timers (well_behaved arm_again) sample_em = Some w' \<and> em_inv w' \<and> em_now w' = 3000000"
proof -
  have "\<forall>wk v. outcome_ok (well_behaved arm_again wk v) v" by (simp add: well_behaved_ok)
  from timer_stage_ends [OF sample_em_inv this] show ?thesis by (auto simp: sample_em_fields)
qed

text \<open>
  Reclamation at the end of an iteration never frees the slot of a scheduled timer: after the
  dead timers are released and their slots returned, the invariant still holds, and every timer
  queued in the wheel or in the heap resolves through its handle.
\<close>

theorem reclaim_spares_scheduled:
  assumes "em_inv w"
  shows "em_inv (reclaim_timers w) \<and> (\<forall>n. linked w n \<or> in_heap w n \<longrightarrow>
    node_of (tn_id (wh_node w n)) = n \<and> ht_get (em_table (reclaim_timers w)) (tn_id (wh_node w n)) \<noteq> None)"
proof -
  let ?w = "reclaim_timers w"
  have inv: "em_inv ?w" by (rule em_inv_dead [OF assms])
  then have T: "timers_ok (em_table ?w) (wh_node ?w) (em_dead ?w) (em_glist ?w)"
    by (simp add: em_inv_def em_safe_def em_ok_def)
  have "wh_node ?w = wh_node w" by (simp add: reclaim_timers_def)
  then show ?thesis using inv timers_okD(3,4) [OF T] by (auto simp: good_def)
qed

theorem reclaim_spares_scheduled_witness:
  "in_heap sample_em 0 \<and> ht_get (em_table (reclaim_timers sample_em)) \<lparr>h_idx = 0, h_gen = 1\<rparr> \<noteq> None"
  using reclaim_spares_scheduled [OF sample_em_inv, THEN conjunct2, THEN spec, of 0]
  by (simp add: sample_em_fields fresh_node_def)

lemma prime_empty:
  assumes "\<And>l s. wh_bucket w l s = []"
  shows "wh_prime target w = w\<lparr>wh_primed := True, wh_count := 0, wh_now := target - 1\<rparr>"
proof -
  have "wh_all_nodes w = []" using assms by (auto simp: wh_all_nodes_def concat_eq_Nil_conv)
  then show ?thesis by (simp add: wh_prime_def)
qed

lemma advance_empty:
  assumes "\<And>l s. wh_bucket w l s = []" "\<not> wh_primed w" "0 < target"
  shows "wh_advance fire target w = Some (w\<lparr>wh_primed := True, wh_count := 0, wh_now := target\<rparr>)"
  using assms prime_empty [of w target] by (simp add: wh_advance_def)


end
