(* ===== verification/Event_Loop.thy ===== *)
theory Event_Loop
  imports Em_Timers
begin

text \<open>
  The stages of one loop iteration, \<open>poll_once\<close> of \<^verbatim>\<open>include/afx/core/event_manager.hpp\<close>: mailbox,
  timers, wait, completions, deferred work, write flush, bookkeeping; the computation of the wait
  timeout and of the next wake-up; the shutdown drain. The clock, the backend's completions and the
  work other threads post while the loop decides to sleep are inputs of an iteration. \<open>None\<close> is
  \<open>std::terminate\<close> or an exception that leaves the iteration. The debug shuffle of unspecified
  orders and the opt-in stage profile are left out.
\<close>

primrec foldo :: "('a \<Rightarrow> 's \<Rightarrow> 's option) \<Rightarrow> 'a list \<Rightarrow> 's \<Rightarrow> 's option" where
  "foldo f [] w = Some w"
| "foldo f (x # xs) w = Option.bind (f x w) (foldo f xs)"

record iteration_input =
  ii_now :: time_point
  ii_late :: "posted_item list"
  ii_wait :: "nanos \<Rightarrow> completion list"
  ii_realtime :: u64
  ii_dequeue :: "u64 \<Rightarrow> u64"
  ii_duration :: nanos

record iteration_info =
  in_mailbox :: bool
  in_timers :: bool
  in_io :: bool
  in_defer :: bool

section \<open>Stages\<close>

subsection \<open>Mailbox\<close>

definition mailbox_item :: "user_code \<Rightarrow> posted_item \<Rightarrow> em \<Rightarrow> em option" where
  "mailbox_item cb it w0 =
     (let w = bump (\<lambda>s. s\<lparr>st_mailbox_pops := st_mailbox_pops s + 1\<rparr>) w0
      in if dl_expired (cx_deadline (pi_ctx it)) (em_now w)
         then Some (em_record EvDeadlineExpired 0 (of_int (dl_remaining (cx_deadline (pi_ctx it)) (em_now w))) 0 0
                (bump (\<lambda>s. s\<lparr>st_deadline_expired_before_start := st_deadline_expired_before_start s + 1\<rparr>) w))
         else run_guarded cb (pi_ctx it) (TaskWork (pi_fn it)) w)"

primrec drain_loop :: "user_code \<Rightarrow> nat \<Rightarrow> em \<Rightarrow> (nat \<times> em) option" where
  "drain_loop cb 0 w = Some (0, w)"
| "drain_loop cb (Suc k) w =
     (case em_mailbox w of
        [] \<Rightarrow> Some (0, w)
      | it # rest \<Rightarrow>
          do { w1 \<leftarrow> mailbox_item cb it (w\<lparr>em_mailbox := rest\<rparr>);
               (n, w2) \<leftarrow> drain_loop cb k w1;
               Some (Suc n, w2) })"

definition drain_mailbox :: "user_code \<Rightarrow> em \<Rightarrow> (bool \<times> em) option" where
  "drain_mailbox cb w = map_option (\<lambda>(n, w'). (n > 0, w')) (drain_loop cb (cf_max_itc_batch (em_config w)) w)"

subsection \<open>Waiting\<close>

definition time_max :: time_point where
  "time_max = 2 ^ 63 - 1"

definition next_deadline_timeout :: "em \<Rightarrow> nanos" where
  "next_deadline_timeout w =
     (let nd = (case th_heap w of [] \<Rightarrow> time_max | n # _ \<Rightarrow> hkey w n);
          wt = (int (wh_now w) + 1) * wh_tick w;
          nd = (if wh_count w \<noteq> 0 \<and> wt < nd then wt else nd)
      in if nd = time_max then 86400 * 10 ^ 9 else if nd > em_now w then nd - em_now w else 0)"

definition may_block :: "em \<Rightarrow> bool" where
  "may_block w \<longleftrightarrow>
     (case cf_wait (em_config w) of WaitSpin \<Rightarrow> False | WaitBlock \<Rightarrow> True
        | WaitSpinThenBlock \<Rightarrow> em_now w \<ge> em_spin_until w) \<and>
     em_defer_next w = [] \<and> em_mailbox w = [] \<and> em_pending w = []"

text \<open>\<open>late\<close>: what other threads push between the first test of the ring and the one after the fence.\<close>

definition wait_timeout :: "posted_item list \<Rightarrow> em \<Rightarrow> nanos \<times> em" where
  "wait_timeout late w =
     (if may_block w then
        (let w1 = w\<lparr>em_mb_blocked := True, em_mailbox := em_mailbox w @ late\<rparr>
         in if em_mailbox w1 \<noteq> [] then (0, w1\<lparr>em_mb_blocked := False\<rparr>)
            else let w2 = bump (\<lambda>s. s\<lparr>st_blocks := st_blocks s + 1\<rparr>) w1;
                     timeout = next_deadline_timeout w2
                 in (if timeout < 0 then 0 else timeout, w2\<lparr>em_blocked := True\<rparr>))
      else (0, bump (\<lambda>s. s\<lparr>st_spins := st_spins s + 1\<rparr>) w))"

definition next_wakeup :: "time_point \<Rightarrow> em \<Rightarrow> time_point \<times> em" where
  "next_wakeup clock w0 =
     (let w = w0\<lparr>em_now := clock\<rparr>;
          nd = (case th_heap w of [] \<Rightarrow> time_max | n # _ \<Rightarrow> hkey w n)
      in (if wh_count w \<noteq> 0 then min nd (int (wh_next_due w) * wh_tick w) else nd, w))"

subsection \<open>Completions\<close>

definition note_stamps :: "iteration_input \<Rightarrow> completion \<Rightarrow> latency_metrics \<Rightarrow> latency_metrics" where
  "note_stamps inp c l0 =
     (let st = cp_stamps c;
          l1 = (if ts_tsc st \<noteq> 0 \<and> ii_dequeue inp (ts_tsc st) \<noteq> 0
                then l0\<lparr>lt_dequeue_to_handler := hist_record (ii_dequeue inp (ts_tsc st)) (lt_dequeue_to_handler l0)\<rparr> else l0)
      in if flagged (cp_flags c) has_sw_stamp then
           (let d = ii_realtime inp - ts_sw st;
                l2 = (if ii_realtime inp > ts_sw st then
                        (let l = l1\<lparr>lt_kernel_to_dequeue := hist_record d (lt_kernel_to_dequeue l1)\<rparr>
                         in if ud_kind (cp_user c) = op_code KRecv
                            then l\<lparr>lt_recv_to_handler := hist_record d (lt_recv_to_handler l)\<rparr> else l)
                      else l1)
            in if flagged (cp_flags c) has_hw_stamp \<and> ts_sw st > ts_hw st
               then l2\<lparr>lt_nic_to_kernel := hist_record (ts_sw st - ts_hw st) (lt_nic_to_kernel l2)\<rparr> else l2)
         else l1)"

definition dispatch_one :: "user_code \<Rightarrow> iteration_input \<Rightarrow> completion \<Rightarrow> em \<Rightarrow> em option" where
  "dispatch_one cb inp c w0 =
     (let w = w0\<lparr>em_latency := note_stamps inp c (em_latency w0)\<rparr>
      in case ht_get (em_sinks w) \<lparr>h_idx = ud_slot (cp_user c), h_gen = ud_gen (cp_user c)\<rparr> of
           None \<Rightarrow> Some w
         | Some s \<Rightarrow> run_guarded cb (sk_ctx s) (SinkWork (sk_obj s) c) w)"

definition dispatch_completions :: "user_code \<Rightarrow> iteration_input \<Rightarrow> completion list \<Rightarrow> em \<Rightarrow> em option" where
  "dispatch_completions cb inp cs w = foldo (dispatch_one cb inp) cs w"

subsection \<open>Deferred work and flushing\<close>

text \<open>\<open>k\<close> more tasks may run in this round.\<close>

fun defer_loop :: "user_code \<Rightarrow> nat \<Rightarrow> nat list \<Rightarrow> em \<Rightarrow> em option" where
  "defer_loop cb k [] w = Some w"
| "defer_loop cb 0 (t # ts) w = defer_loop cb 0 ts (w\<lparr>em_defer_next := em_defer_next w @ [t]\<rparr>)"
| "defer_loop cb (Suc k) (t # ts) w = Option.bind (run_guarded cb (em_ctx w) (TaskWork t) w) (defer_loop cb k ts)"

definition run_deferred :: "user_code \<Rightarrow> em \<Rightarrow> (bool \<times> em) option" where
  "run_deferred cb w =
     (if em_defer_next w = [] then Some (False, w)
      else map_option (Pair True)
             (defer_loop cb (cf_max_defer_batch (em_config w)) (em_defer_next w) (w\<lparr>em_defer_next := []\<rparr>)))"

text \<open>A direct call of user code, with no guard around it.\<close>

definition call_direct :: "user_code \<Rightarrow> work \<Rightarrow> em \<Rightarrow> em option" where
  "call_direct cb wk w =
     (let out = cb wk w in if oc_throws out then None else Some (fold run_op (oc_ops out) w))"

definition flush_one :: "user_code \<Rightarrow> handle \<Rightarrow> em \<Rightarrow> em option" where
  "flush_one cb h w =
     (case ht_get (em_sinks w) h of
        None \<Rightarrow> Some w
      | Some s \<Rightarrow> call_direct cb (FlushWork (sk_obj s))
                    (w\<lparr>em_sinks := ht_put h (s\<lparr>sk_write_pending := False\<rparr>) (em_sinks w)\<rparr>))"

definition flush_writes :: "user_code \<Rightarrow> em \<Rightarrow> em option" where
  "flush_writes cb w = foldo (flush_one cb) (em_pending w) (w\<lparr>em_pending := []\<rparr>)"

subsection \<open>Bookkeeping and the iteration\<close>

definition bookkeeping :: "user_code \<Rightarrow> iteration_input \<Rightarrow> iteration_info \<Rightarrow> em \<Rightarrow> em option" where
  "bookkeeping cb inp info w =
     (let worked = in_mailbox info \<or> in_timers info \<or> in_io info \<or> in_defer info \<or> em_pending w \<noteq> [];
          w1 = (if worked then w\<lparr>em_spin_until := em_now w + cf_spin_budget (em_config w)\<rparr> else w);
          w2 = (if em_blocked w1
                then bump (\<lambda>s. s\<lparr>st_wakeups := st_wakeups s + 1\<rparr>) (w1\<lparr>em_blocked := False\<rparr>) else w1)
      in do { w3 \<leftarrow> (if worked then Some w2
                     else call_direct cb IdleWork
                            (bump (\<lambda>s. s\<lparr>st_idle_iterations := st_idle_iterations s + 1\<rparr>) w2));
              let w4 = w3\<lparr>em_latency := (em_latency w3)\<lparr>lt_iteration :=
                         hist_record (of_int (max (ii_duration inp) 0)) (lt_iteration (em_latency w3))\<rparr>\<rparr>;
              w5 \<leftarrow> call_direct cb IterationWork w4;
              let w6 = reclaim_timers w5;
              Some (w6\<lparr>em_sinks := ht_reclaim (em_sinks w6), em_gtable := ht_reclaim (em_gtable w6)\<rparr>) })"

definition poll_once :: "user_code \<Rightarrow> iteration_input \<Rightarrow> em \<Rightarrow> (bool \<times> em) option" where
  "poll_once cb inp w0 =
     (let w1 = (bump (\<lambda>s. s\<lparr>st_iterations := st_iterations s + 1\<rparr>) w0)\<lparr>em_now := ii_now inp\<rparr>
      in do { (mb, w2) \<leftarrow> drain_mailbox cb w1;
              w3 \<leftarrow> expire_timers cb w2;
              let tm = em_fired w3;
              let (timeout, w4) = wait_timeout (ii_late inp) w3;
              let cs = ii_wait inp timeout;
              let w5 = (if em_blocked w4 then w4\<lparr>em_mb_blocked := False\<rparr> else w4);
              w6 \<leftarrow> dispatch_completions cb inp cs w5;
              (df, w7) \<leftarrow> run_deferred cb w6;
              w8 \<leftarrow> flush_writes cb w7;
              let info = \<lparr>in_mailbox = mb, in_timers = tm, in_io = cs \<noteq> [], in_defer = df\<rparr>;
              w9 \<leftarrow> bookkeeping cb inp info w8;
              Some (mb \<or> tm \<or> cs \<noteq> [] \<or> df, w9) })"

text \<open>\<open>run\<close>: iterations until a stop is requested; the inputs of the iterations are given.\<close>

primrec run_loop :: "user_code \<Rightarrow> iteration_input list \<Rightarrow> em \<Rightarrow> em option" where
  "run_loop cb [] w = Some w"
| "run_loop cb (i # is) w =
     (if em_stop w then Some w else Option.bind (poll_once cb i w) (\<lambda>(_, w'). run_loop cb is w'))"


section \<open>The invariant over an iteration\<close>

text \<open>
  Callbacks that respect the conditions of \<open>outcome_ok\<close>; those the loop calls without a guard do not throw.
\<close>

definition unguarded :: "work \<Rightarrow> bool" where
  "unguarded wk \<longleftrightarrow> (case wk of FlushWork _ \<Rightarrow> True | IdleWork \<Rightarrow> True | IterationWork \<Rightarrow> True | _ \<Rightarrow> False)"

definition calm :: "user_code \<Rightarrow> bool" where
  "calm cb \<longleftrightarrow> (\<forall>wk v. outcome_ok (cb wk v) v \<and> (unguarded wk \<longrightarrow> \<not> oc_throws (cb wk v)))"

definition keeps :: "em \<Rightarrow> em option \<Rightarrow> bool" where
  "keeps w r \<longleftrightarrow> (\<exists>w'. r = Some w' \<and> em_inv w' \<and> em_ctx w' = em_ctx w)"

lemma keepsI: "r = Some w' \<Longrightarrow> em_inv w' \<Longrightarrow> em_ctx w' = em_ctx w \<Longrightarrow> keeps w r"
  by (auto simp: keeps_def)

lemma keeps_bind:
  assumes "keeps w r" and "\<And>w'. r = Some w' \<Longrightarrow> em_inv w' \<Longrightarrow> keeps w' (f w')"
  shows "keeps w (Option.bind r f)"
  using assms by (fastforce simp: keeps_def)

lemma keeps_from: "keeps v r \<Longrightarrow> em_ctx v = em_ctx w \<Longrightarrow> keeps w r"
  by (simp add: keeps_def)

lemma em_inv_cong:
  assumes "em_inv w" "wh_node w' = wh_node w" "wh_bucket w' = wh_bucket w" "wh_count w' = wh_count w" "wh_now w' = wh_now w"
    "wh_primed w' = wh_primed w" "th_heap w' = th_heap w" "em_table w' = em_table w" "em_dead w' = em_dead w"
    "em_glist w' = em_glist w"
  shows "em_inv w'"
proof -
  have "wh_state False w' = wh_state False w" by (rule wh_state_cong) (simp_all add: assms)
  moreover have "em_ok w'" by (rule em_ok_cong [of w]) (use assms in \<open>simp_all add: em_inv_def em_safe_def\<close>)
  ultimately show ?thesis using assms by (simp add: em_inv_def em_safe_def)
qed

lemma step_inv: "em_inv w \<Longrightarrow> em_step False w w' \<Longrightarrow> em_inv w'"
  by (auto simp: em_inv_def em_step_def same_ctl_def)

lemma bump_inv [simp]: "em_inv w \<Longrightarrow> em_inv (bump f w)"
  by (erule em_inv_cong) (simp_all add: bump_def)

lemma record_inv [simp]: "em_inv w \<Longrightarrow> em_inv (em_record k h a b tr w)"
  by (erule em_inv_cong) (simp_all add: em_record_def)

text \<open>Scheduling changes the wheel and the heap only.\<close>

lemma sift_more: "timers.more (th_sift_up i w) = timers.more w" "timers.more (th_sift_down i w) = timers.more w"
proof -
  show "timers.more (th_sift_up i w) = timers.more w"
  proof (induction i w rule: th_sift_up.induct)
    case (1 i w)
    then show ?case by (subst th_sift_up.simps) (simp add: Let_def)
  qed
  show "timers.more (th_sift_down i w) = timers.more w"
  proof (induction i w rule: th_sift_down.induct)
    case (1 i w)
    then show ?case by (subst th_sift_down.simps) (simp add: Let_def)
  qed
qed

lemma insert_timer_more: "timers.more (insert_timer n w) = timers.more w"
  by (simp add: insert_timer_def set_node_def wh_insert_def wh_insert_node_def th_push_def sift_more Let_def)

lemma unlink_timer_more: "timers.more (unlink_timer n w) = timers.more w"
  by (simp add: unlink_timer_def wh_unlink_def wh_detach_def th_remove_def set_heap_idx_def sift_more Let_def)

lemma em_more:
  assumes "timers.more w' = timers.more w"
  shows "em_config w' = em_config w" "em_ctx w' = em_ctx w" "em_mailbox w' = em_mailbox w" "em_sinks w' = em_sinks w"
    "em_defer_next w' = em_defer_next w" "em_pending w' = em_pending w" "em_glist w' = em_glist w" "em_now w' = em_now w"
  using assms by (cases w; cases w'; simp)+

lemmas sched_frame [simp] = em_more [OF insert_timer_more] em_more [OF unlink_timer_more]

lemma cancel_members_frame [simp]:
  "em_config (fold cancel_member ns w) = em_config w" "em_ctx (fold cancel_member ns w) = em_ctx w"
  "em_mailbox (fold cancel_member ns w) = em_mailbox w" "em_sinks (fold cancel_member ns w) = em_sinks w"
  "em_pending (fold cancel_member ns w) = em_pending w" "em_defer_next (fold cancel_member ns w) = em_defer_next w"
  by (induction ns arbitrary: w) (simp_all add: cancel_member_def set_node_def group_unlink_def Let_def)

lemmas op_defs = em_after_def em_at_def em_every_def em_arm_def em_cancel_def em_reschedule_def em_make_group_def
  em_cancel_group_def em_register_sink_def em_release_sink_def em_note_write_pending_def em_defer_def em_post_def
  em_request_stop_def set_node_def bump_def group_unlink_def

text \<open>What a call by user code can do to the work queues: it only appends to the mailbox and to the deferred tasks.\<close>

lemma run_op_frame:
  "em_ctx (run_op op w) = em_ctx w" "em_config (run_op op w) = em_config w"
  "\<exists>xs. em_mailbox (run_op op w) = em_mailbox w @ xs" "\<exists>xs. em_defer_next (run_op op w) = em_defer_next w @ xs"
  by (cases op; simp add: op_defs Let_def case_prod_unfold split: option.splits)+

lemma run_ops_frame:
  "em_ctx (fold run_op ops w) = em_ctx w \<and> em_config (fold run_op ops w) = em_config w \<and>
   (\<exists>xs. em_mailbox (fold run_op ops w) = em_mailbox w @ xs) \<and> (\<exists>xs. em_defer_next (fold run_op ops w) = em_defer_next w @ xs)"
proof (induction ops arbitrary: w)
  case (Cons op ops)
  from run_op_frame [of op w] obtain xs ys where
    "em_mailbox (run_op op w) = em_mailbox w @ xs" "em_defer_next (run_op op w) = em_defer_next w @ ys" by blast
  then show ?case using Cons [of "run_op op w"] run_op_frame(1,2) [of op w] by auto
qed auto

lemma run_guarded_frame:
  assumes "run_guarded cb c wk w = Some w'"
  shows "em_ctx w' = em_ctx w \<and> em_config w' = em_config w \<and>
   (\<exists>xs. em_mailbox w' = em_mailbox w @ xs) \<and> (\<exists>xs. em_defer_next w' = em_defer_next w @ xs)"
  using assms run_ops_frame [of "oc_ops (cb wk (w\<lparr>em_ctx := c\<rparr>))" "w\<lparr>em_ctx := c\<rparr>"]
  by (auto simp: run_guarded_def invoke_guarded_def report_stall_def em_record_def bump_def Let_def split: if_splits)

section \<open>Stages keep the invariant\<close>

lemma guarded_keeps:
  assumes "calm cb" "em_inv w"
  shows "keeps w (run_guarded cb c wk w)"
proof -
  have "well_behaved cb = cb" using assms(1) by (intro well_behaved_id) (simp add: calm_def)
  then obtain w' where "run_guarded cb c wk w = Some w'" "em_step False w w'"
    using run_guarded_step [of False w cb c wk] assms(2) by (auto simp: em_inv_def)
  then show ?thesis using step_inv [OF assms(2)] run_guarded_frame by (blast intro: keepsI)
qed

lemma direct_keeps:
  assumes "calm cb" "em_inv w" "unguarded wk"
  shows "keeps w (call_direct cb wk w)"
proof -
  have "outcome_ok (cb wk w) w" "\<not> oc_throws (cb wk w)" using assms(1,3) by (simp_all add: calm_def)
  then have "em_step False w (fold run_op (oc_ops (cb wk w)) w)" "\<not> oc_throws (cb wk w)"
    using run_ops_step assms(2) by (simp_all add: outcome_ok_def em_inv_def)
  then show ?thesis using run_ops_frame step_inv [OF assms(2)]
    by (intro keepsI [of _ "fold run_op (oc_ops (cb wk w)) w"]) (simp_all add: call_direct_def)
qed

lemma foldo_keeps:
  assumes "\<And>x w. em_inv w \<Longrightarrow> keeps w (f x w)" "em_inv w"
  shows "keeps w (foldo f xs w)"
  using assms(2)
proof (induction xs arbitrary: w)
  case (Cons x xs)
  then show ?case unfolding foldo.simps by (intro keeps_bind assms(1))
qed (simp add: keeps_def)

lemma bump_frame [simp]: "em_ctx (bump f w) = em_ctx w" "em_config (bump f w) = em_config w"
    "em_mailbox (bump f w) = em_mailbox w" "em_defer_next (bump f w) = em_defer_next w" "em_now (bump f w) = em_now w"
    "em_sinks (bump f w) = em_sinks w" "em_pending (bump f w) = em_pending w"
  by (simp_all add: bump_def)

lemma record_frame [simp]: "em_ctx (em_record k h a b tr w) = em_ctx w" "em_config (em_record k h a b tr w) = em_config w"
    "em_mailbox (em_record k h a b tr w) = em_mailbox w" "em_defer_next (em_record k h a b tr w) = em_defer_next w"
  by (simp_all add: em_record_def)

lemma item_keeps:
  assumes "calm cb" "em_inv w"
  shows "keeps w (mailbox_item cb it w)"
  using guarded_keeps [OF assms(1) bump_inv [OF assms(2)]] assms(2) by (simp add: mailbox_item_def keeps_def Let_def)

lemma drain_keeps:
  assumes "calm cb" "em_inv w"
  shows "keeps w (map_option snd (drain_loop cb k w))"
  using assms(2)
proof (induction k arbitrary: w)
  case (Suc k)
  show ?case
  proof (cases "em_mailbox w")
    case (Cons it rest)
    have "em_inv (w\<lparr>em_mailbox := rest\<rparr>)" by (rule em_inv_cong [OF Suc.prems]) simp_all
    from item_keeps [OF assms(1) this] obtain w1 where
      w1: "mailbox_item cb it (w\<lparr>em_mailbox := rest\<rparr>) = Some w1" "em_inv w1" "em_ctx w1 = em_ctx w"
      by (auto simp: keeps_def)
    from Suc.IH [OF w1(2)] show ?thesis using Cons w1 by (auto simp: keeps_def)
  qed (use Suc.prems in \<open>simp add: keeps_def\<close>)
qed (simp add: keeps_def)

lemma expire_ctx:
  assumes "calm cb" "em_inv w"
  shows "\<exists>w'. expire_timers cb w = Some w' \<and> em_inv w'"
proof -
  have "well_behaved cb = cb" using assms(1) by (intro well_behaved_id) (simp add: calm_def)
  then show ?thesis using timer_stage [OF assms(2), of cb] by auto
qed

lemma wait_inv: "em_inv w \<Longrightarrow> em_inv (snd (wait_timeout late w))" "em_ctx (snd (wait_timeout late w)) = em_ctx w"
proof -
  assume inv: "em_inv w"
  show "em_inv (snd (wait_timeout late w))"
    by (rule em_inv_cong [OF inv]) (simp_all add: wait_timeout_def Let_def bump_def)
qed (simp add: wait_timeout_def Let_def)

lemma dispatch_keeps:
  assumes "calm cb" "em_inv w"
  shows "keeps w (dispatch_completions cb inp cs w)"
  unfolding dispatch_completions_def
proof (rule foldo_keeps [OF _ assms(2)])
  fix c and w :: em assume inv: "em_inv w"
  have "em_inv (w\<lparr>em_latency := note_stamps inp c (em_latency w)\<rparr>)" by (rule em_inv_cong [OF inv]) simp_all
  from guarded_keeps [OF assms(1) this] this show "keeps w (dispatch_one cb inp c w)"
    by (simp add: dispatch_one_def keeps_def Let_def split: option.splits)
qed

lemma defer_keeps:
  assumes "calm cb" "em_inv w"
  shows "keeps w (defer_loop cb k ts w)"
  using assms
proof (induction cb k ts w rule: defer_loop.induct)
  case (2 cb t ts w)
  have "em_inv (w\<lparr>em_defer_next := em_defer_next w @ [t]\<rparr>)" by (rule em_inv_cong [OF "2.prems"(2)]) simp_all
  from "2.IH" [OF "2.prems"(1) this] show ?case by (simp add: keeps_def)
next
  case (3 cb k t ts w)
  then show ?case unfolding defer_loop.simps by (intro keeps_bind guarded_keeps)
qed (simp add: keeps_def)

lemma flush_keeps:
  assumes "calm cb" "em_inv w"
  shows "keeps w (flush_writes cb w)"
proof -
  have "keeps w (flush_one cb h w)" if inv: "em_inv w" for h and w :: em
  proof -
    have "em_inv (w\<lparr>em_sinks := x\<rparr>)" for x by (rule em_inv_cong [OF inv]) simp_all
    then have "keeps (w\<lparr>em_sinks := x\<rparr>) (call_direct cb (FlushWork b) (w\<lparr>em_sinks := x\<rparr>))" for x b
      by (rule direct_keeps [OF assms(1)]) (simp add: unguarded_def)
    then show ?thesis using inv by (simp add: flush_one_def keeps_def split: option.splits)
  qed
  moreover have "em_inv (w\<lparr>em_pending := []\<rparr>)" by (rule em_inv_cong [OF assms(2)]) simp_all
  ultimately have "keeps (w\<lparr>em_pending := []\<rparr>) (flush_writes cb w)" unfolding flush_writes_def by (rule foldo_keeps)
  then show ?thesis by (rule keeps_from) simp
qed

lemma bookkeeping_keeps:
  assumes "calm cb" "em_inv w"
  shows "\<exists>w'. bookkeeping cb inp info w = Some w' \<and> em_inv w' \<and> em_dead w' = []"
proof -
  define worked where "worked \<longleftrightarrow> in_mailbox info \<or> in_timers info \<or> in_io info \<or> in_defer info \<or> em_pending w \<noteq> []"
  define w1 where "w1 = (if worked then w\<lparr>em_spin_until := em_now w + cf_spin_budget (em_config w)\<rparr> else w)"
  define w2 where "w2 = (if em_blocked w1
    then bump (\<lambda>s. s\<lparr>st_wakeups := st_wakeups s + 1\<rparr>) (w1\<lparr>em_blocked := False\<rparr>) else w1)"
  have "em_inv w1" by (rule em_inv_cong [OF assms(2)]) (simp_all add: w1_def)
  then have "em_inv w2" by (rule em_inv_cong) (simp_all add: w2_def bump_def)
  then have "keeps w2 (if worked then Some w2 else call_direct cb IdleWork
      (bump (\<lambda>s. s\<lparr>st_idle_iterations := st_idle_iterations s + 1\<rparr>) w2))"
    using direct_keeps [OF assms(1) bump_inv, of w2 IdleWork] by (simp add: keeps_def unguarded_def)
  then obtain w3 where w3: "(if worked then Some w2 else call_direct cb IdleWork
      (bump (\<lambda>s. s\<lparr>st_idle_iterations := st_idle_iterations s + 1\<rparr>) w2)) = Some w3" "em_inv w3"
    by (auto simp: keeps_def)
  define w4 where "w4 = w3\<lparr>em_latency := (em_latency w3)\<lparr>lt_iteration :=
    hist_record (of_int (max (ii_duration inp) 0)) (lt_iteration (em_latency w3))\<rparr>\<rparr>"
  have "em_inv w4" by (rule em_inv_cong [OF w3(2)]) (simp_all add: w4_def)
  then obtain w5 where w5: "call_direct cb IterationWork w4 = Some w5" "em_inv w5"
    using direct_keeps [OF assms(1), of w4 IterationWork] by (auto simp: keeps_def unguarded_def)
  let ?w6 = "reclaim_timers w5"
  let ?w7 = "?w6\<lparr>em_sinks := ht_reclaim (em_sinks ?w6), em_gtable := ht_reclaim (em_gtable ?w6)\<rparr>"
  have "em_inv ?w7" by (rule em_inv_cong [OF em_inv_dead [OF w5(2)]]) simp_all
  moreover have "bookkeeping cb inp info w = Some ?w7"
    unfolding bookkeeping_def Let_def worked_def [symmetric] w1_def [symmetric] w2_def [symmetric]
    using w3(1) w5(1) by (simp add: w4_def)
  ultimately show ?thesis by (auto simp: reclaim_timers_def)
qed

text \<open>
  C2: One loop iteration runs all its stages to the end and keeps the timers' invariant. For any clock
  reading, any completions the backend delivers and any work other threads post meanwhile, when the
  callbacks respect the stated conditions, \<open>poll_once\<close> returns, every scheduled timer
  resolves through its handle and is in exactly one structure, and no dead timer is left to release.
\<close>

theorem poll_once_keeps_invariant:
  assumes "calm cb" "em_inv w"
  shows "\<exists>b w'. poll_once cb inp w = Some (b, w') \<and> em_inv w' \<and> em_dead w' = []"
proof -
  let ?w1 = "(bump (\<lambda>s. s\<lparr>st_iterations := st_iterations s + 1\<rparr>) w)\<lparr>em_now := ii_now inp\<rparr>"
  have "em_inv ?w1" by (rule em_inv_cong [OF assms(2)]) (simp_all add: bump_def)
  from drain_keeps [OF assms(1) this, of "cf_max_itc_batch (em_config ?w1)"] obtain mb w2 where
    w2: "drain_mailbox cb ?w1 = Some (mb, w2)" "em_inv w2" by (fastforce simp: keeps_def drain_mailbox_def)
  obtain w3 where w3: "expire_timers cb w2 = Some w3" "em_inv w3" using expire_ctx [OF assms(1) w2(2)] by blast
  obtain timeout w4 where w4: "wait_timeout (ii_late inp) w3 = (timeout, w4)" by fastforce
  then have "em_inv w4" using wait_inv(1) [OF w3(2), of "ii_late inp"] by simp
  moreover define w5 where "w5 = (if em_blocked w4 then w4\<lparr>em_mb_blocked := False\<rparr> else w4)"
  ultimately have i5: "em_inv w5" by (auto intro: em_inv_cong)
  obtain w6 where w6: "dispatch_completions cb inp (ii_wait inp timeout) w5 = Some w6" "em_inv w6"
    using dispatch_keeps [OF assms(1) i5] by (auto simp: keeps_def)
  have "em_inv (w6\<lparr>em_defer_next := []\<rparr>)" by (rule em_inv_cong [OF w6(2)]) simp_all
  from defer_keeps [OF assms(1) this] w6(2) obtain df w7 where w7: "run_deferred cb w6 = Some (df, w7)" "em_inv w7"
    by (fastforce simp: run_deferred_def keeps_def split: if_splits)
  obtain w8 where w8: "flush_writes cb w7 = Some w8" "em_inv w8"
    using flush_keeps [OF assms(1) w7(2)] by (auto simp: keeps_def)
  obtain w9 where w9: "bookkeeping cb inp \<lparr>in_mailbox = mb, in_timers = em_fired w3,
      in_io = ii_wait inp timeout \<noteq> [], in_defer = df\<rparr> w8 = Some w9" "em_inv w9" "em_dead w9 = []"
    using bookkeeping_keeps [OF assms(1) w8(2)] by blast
  show ?thesis using w2(1) w3(1) w4 w6(1) w7(1) w8(1) w9 by (auto simp: poll_once_def w5_def)
qed

text \<open>Callbacks that do nothing where they would leave the stated conditions.\<close>

definition tamed :: "user_code \<Rightarrow> user_code" where
  "tamed cb wk w = (if outcome_ok (cb wk w) w \<and> (unguarded wk \<longrightarrow> \<not> oc_throws (cb wk w)) then cb wk w
     else \<lparr>oc_ops = [], oc_throws = False, oc_elapsed = 0\<rparr>)"

lemma calm_tamed: "calm (tamed cb)"
  by (simp add: calm_def tamed_def outcome_ok_def)

definition sample_input :: iteration_input where
  "sample_input = \<lparr>ii_now = 3000000, ii_late = [], ii_wait = (\<lambda>_. [cp_empty]), ii_realtime = 0, ii_dequeue = (\<lambda>_. 0), ii_duration = 5\<rparr>"

theorem poll_once_keeps_invariant_witness:
  "\<exists>b w'. poll_once (tamed arm_again) sample_input sample_em = Some (b, w') \<and> em_inv w' \<and> em_dead w' = []"
  by (rule poll_once_keeps_invariant [OF calm_tamed sample_em_inv])

section \<open>Waiting\<close>

text \<open>
  C30: The loop sleeps only when nothing is pending, and never past a timer. A positive timeout means
  that the mailbox was empty after the loop announced that it blocks, that no deferred task and no
  queued write waits, and that the timeout ends by the earliest precise deadline and, when the wheel
  holds timers, by its next tick.
\<close>

theorem sleep_only_when_idle:
  assumes "em_inv w" "wait_timeout late w = (t, w')" "0 < t" "em_now w + 86400 * 10 ^ 9 \<le> time_max"
  shows "em_mailbox w' = [] \<and> em_defer_next w' = [] \<and> em_pending w' = [] \<and> em_mb_blocked w' \<and>
    (\<forall>n \<in> set (th_heap w'). em_now w' + t \<le> hkey w' n) \<and>
    (wh_count w' \<noteq> 0 \<longrightarrow> em_now w' + t \<le> (int (wh_now w') + 1) * wh_tick w')"
proof -
  let ?v = "bump (\<lambda>s. s\<lparr>st_blocks := st_blocks s + 1\<rparr>) (w\<lparr>em_mb_blocked := True, em_mailbox := []\<rparr>)"
  have mb: "may_block w" "late = []" using assms(2,3) by (auto simp: wait_timeout_def Let_def may_block_def split: if_splits)
  then have w': "w' = ?v\<lparr>em_blocked := True\<rparr>" and t: "t = next_deadline_timeout ?v"
    using assms(2,3) by (auto simp: wait_timeout_def Let_def may_block_def split: if_splits)
  have th: "th_inv w" using assms(1) by (simp add: em_inv_def em_safe_def em_ok_def)
  define nd where "nd = (case th_heap w of [] \<Rightarrow> time_max | n # _ \<Rightarrow> hkey w n)"
  define nd' where "nd' = (if wh_count w \<noteq> 0 \<and> (int (wh_now w) + 1) * wh_tick w < nd then (int (wh_now w) + 1) * wh_tick w else nd)"
  have "t = (if nd' = time_max then 86400 * 10 ^ 9 else if nd' > em_now w then nd' - em_now w else 0)"
    by (simp add: t next_deadline_timeout_def nd_def nd'_def bump_def Let_def split: list.splits)
  then have le: "em_now w + t \<le> nd'" using assms(3,4) by (simp split: if_splits)
  have "nd' \<le> hkey w n" if n: "n \<in> set (th_heap w)" for n
  proof -
    obtain m ms where h: "th_heap w = m # ms" using n by (cases "th_heap w") auto
    then have "nd \<le> hkey w n" using top_min(2) [OF th h] n by (auto simp: nd_def)
    then show ?thesis by (auto simp: nd'_def)
  qed
  moreover have "nd' \<le> (int (wh_now w) + 1) * wh_tick w" if "wh_count w \<noteq> 0" using that by (auto simp: nd'_def)
  ultimately show ?thesis using le mb(1) unfolding w' by (auto simp: bump_def may_block_def intro: order_trans)
qed

lemma sample_em_wait: "wait_timeout [] (sample_em\<lparr>em_now := 1500000\<rparr>) =
    (500000, bump (\<lambda>s. s\<lparr>st_blocks := st_blocks s + 1\<rparr>) (sample_em\<lparr>em_now := 1500000, em_mb_blocked := True, em_blocked := True\<rparr>))"
proof -
  have f: "em_mailbox sample_em = []" "em_defer_next sample_em = []" "em_pending sample_em = []" "wh_count sample_em = 0"
    "em_config sample_em = sample_cfg"
    by (simp_all add: sample_em_def arm_defs heap_defs Let_def ht_emplace_def ht_take_slot_def ht_new_def)
  have "sample_em\<lparr>em_mailbox := []\<rparr> = sample_em" using f(1) by (cases sample_em) simp
  then show ?thesis using f
    by (simp add: wait_timeout_def may_block_def sample_cfg_def next_deadline_timeout_def time_max_def bump_def
        sample_em_fields fresh_node_def Let_def)
qed

theorem sleep_only_when_idle_witness:
  "fst (wait_timeout [] (sample_em\<lparr>em_now := 1500000\<rparr>)) = 500000 \<and> em_mb_blocked (snd (wait_timeout [] (sample_em\<lparr>em_now := 1500000\<rparr>)))"
proof -
  have "em_inv (sample_em\<lparr>em_now := 1500000\<rparr>)" by (rule em_inv_cong [OF sample_em_inv]) simp_all
  from sleep_only_when_idle [OF this sample_em_wait] show ?thesis by (simp add: sample_em_wait time_max_def)
qed

section \<open>Posted work\<close>

definition take_item :: "user_code \<Rightarrow> posted_item \<Rightarrow> em \<Rightarrow> em option" where
  "take_item cb it w = mailbox_item cb it (w\<lparr>em_mailbox := tl (em_mailbox w)\<rparr>)"

lemma take_item_queue:
  assumes "take_item cb it w = Some w'"
  shows "\<exists>xs. em_mailbox w' = tl (em_mailbox w) @ xs"
proof -
  let ?v = "bump (\<lambda>s. s\<lparr>st_mailbox_pops := st_mailbox_pops s + 1\<rparr>) (w\<lparr>em_mailbox := tl (em_mailbox w)\<rparr>)"
  show ?thesis
  proof (cases "dl_expired (cx_deadline (pi_ctx it)) (em_now w)")
    case True
    then show ?thesis using assms by (auto simp: take_item_def mailbox_item_def Let_def)
  next
    case False
    then have "run_guarded cb (pi_ctx it) (TaskWork (pi_fn it)) ?v = Some w'"
      using assms by (simp add: take_item_def mailbox_item_def Let_def)
    from run_guarded_frame [OF this] show ?thesis by simp
  qed
qed


definition sample_post :: posted_item where
  "sample_post = \<lparr>pi_fn = 4, pi_ctx = cx_empty\<lparr>cx_deadline := dl_at 5\<rparr>\<rparr>"


section \<open>Deferred work\<close>

primrec defer_rounds :: "user_code \<Rightarrow> nat \<Rightarrow> em \<Rightarrow> em option" where
  "defer_rounds cb 0 w = Some w"
| "defer_rounds cb (Suc k) w = Option.bind (run_deferred cb w) (\<lambda>(_, w'). defer_rounds cb k w')"

text \<open>Task 0 defers itself again; task 1 asks the loop to stop.\<close>

definition greedy :: user_code where
  "greedy wk w = \<lparr>oc_ops = (if wk = TaskWork 0 then [OpDefer 0] else if wk = TaskWork 1 then [OpStop] else []),
     oc_throws = False, oc_elapsed = 0\<rparr>"

text \<open>
  A deferred task beyond the batch limit can wait for ever. The tasks a round leaves over are put
  behind those deferred during the round, so with a batch of one, a task that defers itself again
  keeps the one behind it from ever running.
\<close>

theorem deferred_task_starves:
  "\<exists>w'. defer_rounds greedy k ((em_new (sample_cfg\<lparr>cf_max_defer_batch := 1\<rparr>) 1000000 1 0)\<lparr>em_defer_next := [0, 1]\<rparr>) = Some w' \<and>
     em_defer_next w' = [0, 1] \<and> \<not> em_stop w'"
proof -
  have "\<exists>w'. defer_rounds greedy k w = Some w' \<and> em_defer_next w' = [0, 1] \<and> \<not> em_stop w'"
    if "em_defer_next w = [0, 1]" "\<not> em_stop w" "em_config w = sample_cfg\<lparr>cf_max_defer_batch := 1\<rparr>" for w
    using that
  proof (induction k arbitrary: w)
    case (Suc k)
    have d: "defer_loop greedy 1 [0, 1] v = Option.bind (run_guarded greedy (em_ctx v) (TaskWork 0) v) (defer_loop greedy 0 [1])" for v
      using defer_loop.simps(3) [of greedy 0 0 "[1]" v] by simp
    obtain w' where "run_deferred greedy w = Some (True, w')" "em_defer_next w' = [0, 1]" "\<not> em_stop w'"
      "em_config w' = em_config w"
      using Suc.prems by (simp add: run_deferred_def d run_guarded_def invoke_guarded_def greedy_def sample_cfg_def em_defer_def)
    then show ?case using Suc.IH [of w'] Suc.prems by simp
  qed simp
  then show ?thesis by (simp add: em_new_def wh_new_def)
qed

section \<open>Shutdown\<close>

record shutdown_hooks =
  sh_begin :: "nat \<Rightarrow> em \<Rightarrow> em"
  sh_notify :: "nat \<Rightarrow> em \<Rightarrow> em"
  sh_drained :: "nat \<Rightarrow> em \<Rightarrow> bool"
  sh_shutdown_write :: "nat \<Rightarrow> em \<Rightarrow> em"

text \<open>\<open>fn\<close> names the timer callback that calls \<open>drain_step\<close> again.\<close>

definition drain_step :: "shutdown_hooks \<Rightarrow> nat list \<Rightarrow> nat \<Rightarrow> em \<Rightarrow> em" where
  "drain_step hk owned fn w =
     (if (\<forall>o' \<in> set owned. sh_drained hk o' w) \<or> em_now w \<ge> em_shutdown_deadline w
      then em_request_stop (fold (sh_shutdown_write hk) owned w)
      else snd (em_after 1000000 fn null_handle w))"

definition begin_shutdown :: "shutdown_hooks \<Rightarrow> nat list \<Rightarrow> nat \<Rightarrow> time_point \<Rightarrow> em \<Rightarrow> em" where
  "begin_shutdown hk owned fn deadline w =
     (if em_shutting_down w then w
      else let w1 = fold (sh_begin hk) owned (w\<lparr>em_shutting_down := True\<rparr>);
               w2 = fold (sh_notify hk) owned w1
           in drain_step hk owned fn (w2\<lparr>em_shutdown_deadline := deadline\<rparr>))"

text \<open>The drain timer firing at the given times, as long as the loop is not asked to stop.\<close>

definition drain_at :: "shutdown_hooks \<Rightarrow> nat list \<Rightarrow> nat \<Rightarrow> time_point \<Rightarrow> em \<Rightarrow> em" where
  "drain_at hk owned fn t w = (if em_stop w then w else drain_step hk owned fn (w\<lparr>em_now := t\<rparr>))"

lemma em_after_ctl:
  "em_stop (snd (em_after d fn g w)) = em_stop w \<and> em_shutdown_deadline (snd (em_after d fn g w)) = em_shutdown_deadline w"
proof -
  have "em_stop w' = em_stop v \<and> em_shutdown_deadline w' = em_shutdown_deadline v"
    if "timers.more w' = timers.more v" for v w' :: em using that by (cases v; cases w'; simp)
  from this [OF insert_timer_more] show ?thesis by (simp add: em_after_def em_arm_def bump_def set_node_def case_prod_unfold Let_def)
qed


text \<open>One connection that never drains, and hooks that do nothing.\<close>

definition stuck_hooks :: shutdown_hooks where
  "stuck_hooks = \<lparr>sh_begin = (\<lambda>_ w. w), sh_notify = (\<lambda>_ w. w), sh_drained = (\<lambda>_ _. False), sh_shutdown_write = (\<lambda>_ w. w)\<rparr>"


end
