(* ===== verification/Memory.thy ===== *)
theory Memory
  imports Afx_Prelude "HOL-Library.Monad_Syntax"
begin

text \<open>
  The allocators: the bump arena (\<^verbatim>\<open>include/afx/core/arena.hpp\<close>), the slab pool carved from it
  (\<^verbatim>\<open>include/afx/core/pool.hpp\<close>) and the size-bucketed cache of coroutine frames
  (\<^verbatim>\<open>include/afx/coro/frame_cache.hpp\<close>). Addresses are natural numbers below \<open>2 ^ 64\<close>; the
  arena's arithmetic wraps as \<open>uintptr_t\<close> does. Memory from \<open>operator new\<close> is named by a serial
  number, so two such blocks never overlap each other or the arena. The free lists threaded through
  dead memory are lists.
\<close>

section \<open>Arena\<close>

record arena =
  ar_base :: nat
  ar_size :: nat
  ar_off :: nat

abbreviation two64 :: nat where "two64 \<equiv> 2 ^ 64"

definition ar_new :: "nat \<Rightarrow> nat \<Rightarrow> arena" where
  "ar_new base bytes = \<lparr>ar_base = base, ar_size = bytes, ar_off = 0\<rparr>"

definition ar_alloc :: "nat \<Rightarrow> nat \<Rightarrow> arena \<Rightarrow> nat option \<times> arena" where
  "ar_alloc n align a =
     (let cur = (ar_base a + ar_off a) mod two64;
          al = (cur + align - 1) mod two64 div align * align;
          nxt = (al + two64 - ar_base a + n) mod two64
      in if nxt > ar_size a then (None, a) else (Some al, a\<lparr>ar_off := nxt\<rparr>))"

definition ar_remaining :: "arena \<Rightarrow> nat" where
  "ar_remaining a = ar_size a - ar_off a"

definition ar_owns :: "nat \<Rightarrow> arena \<Rightarrow> bool" where
  "ar_owns p a \<longleftrightarrow> ar_base a \<le> p \<and> p < ar_base a + ar_size a"

text \<open>A region in the lower half of the address space, used up to \<open>off\<close>.\<close>

definition ar_ok :: "arena \<Rightarrow> bool" where
  "ar_ok a \<longleftrightarrow> ar_off a \<le> ar_size a \<and> ar_base a + ar_size a \<le> 2 ^ 63"

lemma align_up:
  assumes "0 < (k :: nat)"
  shows "k dvd (x + k - 1) div k * k" "x \<le> (x + k - 1) div k * k" "(x + k - 1) div k * k < x + k"
proof -
  have e: "(x + k - 1) div k * k + (x + k - 1) mod k = x + k - 1" by simp
  have "(x + k - 1) mod k < k" using assms by simp
  then show "x \<le> (x + k - 1) div k * k" using e assms by linarith
  show "(x + k - 1) div k * k < x + k" using e assms by linarith
qed simp

lemma ar_alloc_cases:
  assumes ok: "ar_ok a" and k: "0 < k" "k \<le> 2 ^ 62" and n: "n \<le> 2 ^ 62"
  obtains (full) "ar_alloc n k a = (None, a)" "ar_size a < ar_off a + n + k"
  | (block) p where "ar_alloc n k a = (Some p, a\<lparr>ar_off := p + n - ar_base a\<rparr>)" "k dvd p" "ar_base a + ar_off a \<le> p"
      "p + n \<le> ar_base a + ar_size a" "ar_ok (a\<lparr>ar_off := p + n - ar_base a\<rparr>)"
proof -
  let ?cur = "ar_base a + ar_off a"
  let ?al = "(?cur + k - 1) div k * k"
  have b: "?cur \<le> 2 ^ 63" using ok by (simp add: ar_ok_def)
  have m: "?cur mod two64 = ?cur" "(?cur + k - 1) mod two64 = ?cur + k - 1" using b k by simp_all
  note A = align_up [OF k(1), of ?cur]
  have ge: "ar_base a \<le> ?al" using A(2) by linarith
  have "?al + n - ar_base a < two64" using A(3) b k n by simp
  moreover have "?al + two64 - ar_base a + n = (?al + n - ar_base a) + two64" using ge by simp
  ultimately have nx: "(?al + two64 - ar_base a + n) mod two64 = ?al + n - ar_base a"
    by (simp only: mod_add_self2 mod_less)
  have eq: "ar_alloc n k a = (if ?al + n - ar_base a > ar_size a then (None, a)
      else (Some ?al, a\<lparr>ar_off := ?al + n - ar_base a\<rparr>))"
    unfolding ar_alloc_def Let_def m nx ..
  show thesis
  proof (cases "?al + n - ar_base a > ar_size a")
    case True
    then have "ar_size a < ar_off a + n + k" using A(3) by linarith
    then show ?thesis using True eq full by simp
  next
    case False
    then have "?al + n \<le> ar_base a + ar_size a" using ge by linarith
    then show ?thesis using False eq block [of ?al] A ok by (simp add: ar_ok_def)
  qed
qed

text \<open>A run of allocations; the blocks handed out, latest first.\<close>

primrec ar_run :: "(nat \<times> nat) list \<Rightarrow> arena \<Rightarrow> (nat \<times> nat) list" where
  "ar_run [] a = []"
| "ar_run (r # rs) a =
     (case ar_alloc (fst r) (snd r) a of
        (None, a') \<Rightarrow> ar_run rs a'
      | (Some p, a') \<Rightarrow> ar_run rs a' @ [(p, fst r)])"

definition apart :: "(nat \<times> nat) \<Rightarrow> (nat \<times> nat) \<Rightarrow> bool" where
  "apart b c \<longleftrightarrow> fst b + snd b \<le> fst c \<or> fst c + snd c \<le> fst b"

text \<open>
  The arena never hands out the same byte twice and never leaves its region: in any run of
  requests, the blocks lie in the region and are pairwise disjoint.
\<close>

theorem arena_blocks_disjoint:
  assumes "ar_ok a" and "\<forall>(n, k) \<in> set rs. 0 < k \<and> k \<le> 2 ^ 62 \<and> n \<le> 2 ^ 62"
  shows "sorted_wrt apart (ar_run rs a) \<and>
    (\<forall>b \<in> set (ar_run rs a). ar_base a + ar_off a \<le> fst b \<and> fst b + snd b \<le> ar_base a + ar_size a)"
  using assms
proof (induction rs arbitrary: a)
  case (Cons r rs)
  obtain n k where r: "r = (n, k)" by fastforce
  have nk: "0 < k" "k \<le> 2 ^ 62" "n \<le> 2 ^ 62" using Cons.prems(2) by (auto simp: r)
  from Cons.prems(1) nk show ?case
  proof (cases rule: ar_alloc_cases)
    case full
    then show ?thesis using Cons by (simp add: r)
  next
    case (block p)
    let ?a = "a\<lparr>ar_off := p + n - ar_base a\<rparr>"
    have IH: "sorted_wrt apart (ar_run rs ?a)"
      "\<forall>b \<in> set (ar_run rs ?a). p + n \<le> fst b \<and> fst b + snd b \<le> ar_base a + ar_size a"
      using Cons.IH [OF block(5)] Cons.prems(2) block(3) by auto
    then have "\<forall>b \<in> set (ar_run rs ?a). apart b (p, n)" by (auto simp: apart_def)
    then show ?thesis using IH block by (auto simp: r sorted_wrt_append)
  qed
qed simp

theorem arena_blocks_disjoint_witness:
  "ar_run [(10, 16), (100, 64), (4000, 8), (5, 1)] (ar_new 4096 4096) = [(4260, 5), (4160, 100), (4096, 10)] \<and>
   sorted_wrt apart [(4260, 5), (4160, 100), (4096, 10)]"
proof -
  have e: "ar_run [(10, 16), (100, 64), (4000, 8), (5, 1)] (ar_new 4096 4096) = [(4260, 5), (4160, 100), (4096, 10)]"
    by (simp add: ar_new_def ar_alloc_def Let_def)
  show ?thesis using arena_blocks_disjoint [of "ar_new 4096 4096" "[(10, 16), (100, 64), (4000, 8), (5, 1)]"]
    unfolding e by (simp add: ar_ok_def ar_new_def)
qed

section \<open>Pool\<close>

text \<open>\<open>sizeof(Slot)\<close>, the chunk header's size and \<open>alignof(T)\<close> are fields; a slot is named by its chunk and index.\<close>

record pool =
  pl_slot :: nat
  pl_hdr :: nat
  pl_align :: nat
  pl_arena :: "arena option"
  pl_objs :: nat
  pl_free :: "(nat \<times> nat) list"
  pl_live :: nat
  pl_arena_chunks :: nat
  pl_heap_chunks :: nat

definition pool_new :: "nat \<Rightarrow> nat \<Rightarrow> nat \<Rightarrow> arena option \<Rightarrow> nat \<Rightarrow> pool" where
  "pool_new slot hdr align a objs =
     \<lparr>pl_slot = slot, pl_hdr = hdr, pl_align = align, pl_arena = a, pl_objs = (if objs > 0 then objs else 1),
      pl_free = [], pl_live = 0, pl_arena_chunks = 0, pl_heap_chunks = 0\<rparr>"

definition pool_chunk :: "pool \<Rightarrow> nat option \<times> arena option" where
  "pool_chunk p =
     (case pl_arena p of
        None \<Rightarrow> (None, None)
      | Some a \<Rightarrow> apsnd Some (ar_alloc (pl_hdr p + pl_objs p * pl_slot p) (pl_align p) a))"

definition pool_grow :: "pool \<Rightarrow> pool" where
  "pool_grow p0 =
     (let (mem, a) = pool_chunk p0;
          c = pl_arena_chunks p0 + pl_heap_chunks p0;
          p = (if mem = None then p0\<lparr>pl_arena := a, pl_heap_chunks := pl_heap_chunks p0 + 1\<rparr>
               else p0\<lparr>pl_arena := a, pl_arena_chunks := pl_arena_chunks p0 + 1\<rparr>)
      in fold (\<lambda>i q. q\<lparr>pl_free := (c, i) # pl_free q\<rparr>) [0..<pl_objs p] p)"

definition pool_construct :: "pool \<Rightarrow> (nat \<times> nat) option \<times> pool" where
  "pool_construct p0 =
     (let p = (if pl_free p0 = [] then pool_grow p0 else p0)
      in case pl_free p of
           [] \<Rightarrow> (None, p)
         | s # r \<Rightarrow> (Some s, p\<lparr>pl_free := r, pl_live := pl_live p + 1\<rparr>))"

definition pool_destroy :: "nat \<times> nat \<Rightarrow> pool \<Rightarrow> pool" where
  "pool_destroy s p = p\<lparr>pl_free := s # pl_free p, pl_live := pl_live p - 1\<rparr>"

definition pool_capacity :: "pool \<Rightarrow> nat" where
  "pool_capacity p = pl_arena_chunks p * pl_objs p + pl_heap_chunks p * pl_objs p"

text \<open>A client: constructs, and destroys one of the objects it holds.\<close>

datatype pool_op = PConstruct | PDestroy nat

fun pool_step :: "pool_op \<Rightarrow> pool \<times> (nat \<times> nat) list \<Rightarrow> pool \<times> (nat \<times> nat) list" where
  "pool_step PConstruct (p, live) =
     (case pool_construct p of (None, p') \<Rightarrow> (p', live) | (Some s, p') \<Rightarrow> (p', s # live))"
| "pool_step (PDestroy i) (p, live) =
     (if i < length live then (pool_destroy (live ! i) p, take i live @ drop (Suc i) live) else (p, live))"

definition pool_inv :: "pool \<Rightarrow> (nat \<times> nat) list \<Rightarrow> bool" where
  "pool_inv p live \<longleftrightarrow> 0 < pl_objs p \<and> distinct (pl_free p @ live) \<and> pl_live p = length live \<and>
     set (pl_free p @ live) = {..<pl_arena_chunks p + pl_heap_chunks p} \<times> {..<pl_objs p}"

lemma fold_push_free: "fold (\<lambda>i q. q\<lparr>pl_free := (c, i) # pl_free q\<rparr>) is p = p\<lparr>pl_free := rev (map (Pair c) is) @ pl_free p\<rparr>"
  by (induction "is" arbitrary: p) simp_all

lemma pool_grow_inv:
  assumes "pool_inv p live"
  shows "pool_inv (pool_grow p) live \<and> pl_free (pool_grow p) \<noteq> []"
proof -
  let ?c = "pl_arena_chunks p + pl_heap_chunks p"
  let ?new = "rev (map (Pair ?c) [0..<pl_objs p])"
  obtain mem a where "pool_chunk p = (mem, a)" by fastforce
  then have g: "pl_free (pool_grow p) = ?new @ pl_free p" "pl_objs (pool_grow p) = pl_objs p" "pl_live (pool_grow p) = pl_live p"
    "pl_arena_chunks (pool_grow p) + pl_heap_chunks (pool_grow p) = Suc ?c"
    by (simp_all add: pool_grow_def fold_push_free)
  have "set (pl_free p @ live) = {..<?c} \<times> {..<pl_objs p}" using assms by (simp add: pool_inv_def)
  moreover have "set ?new = {?c} \<times> {..<pl_objs p}" by auto
  moreover have "distinct ?new" by (simp add: distinct_map inj_on_def)
  ultimately have "distinct (?new @ pl_free p @ live)" "set (?new @ pl_free p @ live) = {..<Suc ?c} \<times> {..<pl_objs p}"
    using assms by (auto simp: pool_inv_def lessThan_Suc)
  then show ?thesis using assms g by (auto simp: pool_inv_def)
qed

lemma pool_step_inv: "pool_inv p live \<Longrightarrow> pool_step op (p, live) = (p', live') \<Longrightarrow> pool_inv p' live'"
proof (cases op)
  case PConstruct
  assume inv: "pool_inv p live" and st: "pool_step op (p, live) = (p', live')"
  define q where "q = (if pl_free p = [] then pool_grow p else p)"
  have q: "pool_inv q live" "pl_free q \<noteq> []" using inv pool_grow_inv by (auto simp: q_def)
  then obtain s r where f: "pl_free q = s # r" by (cases "pl_free q") auto
  then have "p' = q\<lparr>pl_free := r, pl_live := pl_live q + 1\<rparr>" "live' = s # live"
    using st by (simp_all add: PConstruct pool_construct_def q_def [symmetric])
  then show ?thesis using q f by (auto simp: pool_inv_def)
next
  case (PDestroy i)
  assume inv: "pool_inv p live" and st: "pool_step op (p, live) = (p', live')"
  show ?thesis
  proof (cases "i < length live")
    case True
    let ?l = "take i live @ drop (Suc i) live"
    have e: "live = take i live @ live ! i # drop (Suc i) live" using True by (rule id_take_nth_drop)
    have "mset live = add_mset (live ! i) (mset ?l)" by (subst e) simp
    then have "mset (pl_free p @ live) = mset ((live ! i # pl_free p) @ ?l)" by simp
    then have "distinct ((live ! i # pl_free p) @ ?l) = distinct (pl_free p @ live)"
      "set ((live ! i # pl_free p) @ ?l) = set (pl_free p @ live)" by (metis mset_eq_imp_distinct_iff, metis mset_eq_setD)
    moreover have "p' = p\<lparr>pl_free := live ! i # pl_free p, pl_live := pl_live p - 1\<rparr>" "live' = ?l"
      using st True by (simp_all add: PDestroy pool_destroy_def)
    moreover have "length ?l = length live - 1" using True by simp
    ultimately show ?thesis using inv unfolding pool_inv_def by simp
  qed (use inv st in \<open>simp add: PDestroy\<close>)
qed

text \<open>
  A pool never hands out a slot that is in use. From a new pool, after any sequence of
  constructions and of destructions of objects that are held, the slots held are distinct and none of
  them is on the free list, \<open>allocated()\<close> counts them, and \<open>capacity()\<close> is what is held plus what is free.
\<close>

theorem pool_slots_exclusive:
  "case fold pool_step ops (pool_new slot hdr align a objs, []) of (p, live) \<Rightarrow>
     distinct live \<and> set live \<inter> set (pl_free p) = {} \<and> pl_live p = length live \<and>
     pool_capacity p = length live + length (pl_free p)"
proof -
  have run: "pool_inv p live \<Longrightarrow> fold pool_step ops (p, live) = (p', live') \<Longrightarrow> pool_inv p' live'" for p live p' live'
  proof (induction ops arbitrary: p live)
    case (Cons op ops)
    obtain q l where q: "pool_step op (p, live) = (q, l)" by fastforce
    show ?case using Cons.IH [OF pool_step_inv [OF Cons.prems(1) q]] Cons.prems(2) q by simp
  qed simp
  obtain p live where r: "fold pool_step ops (pool_new slot hdr align a objs, []) = (p, live)" by fastforce
  have "pool_inv (pool_new slot hdr align a objs) []" by (simp add: pool_inv_def pool_new_def)
  then have inv: "pool_inv p live" using r by (rule run)
  then have "length (pl_free p @ live) = card (set (pl_free p @ live))" using distinct_card unfolding pool_inv_def by metis
  then have "length (pl_free p) + length live = (pl_arena_chunks p + pl_heap_chunks p) * pl_objs p"
    using inv by (simp add: pool_inv_def)
  then show ?thesis using inv r by (auto simp: pool_inv_def pool_capacity_def distrib_right)
qed

section \<open>Frame cache\<close>

text \<open>
  Headers of carved blocks by address, holding their class; a block's user area starts 16 bytes
  after its header. \<open>OnHeap\<close> blocks come from \<open>operator new\<close>.
\<close>

datatype fptr = InArena nat | OnHeap nat

record frame_cache =
  fc_arena :: "arena option"
  fc_free :: "nat \<Rightarrow> nat list"
  fc_hdr :: "nat \<Rightarrow> nat option"
  fc_heap :: nat
  fc_corrupt :: nat

definition fc_new :: "arena option \<Rightarrow> frame_cache" where
  "fc_new a = \<lparr>fc_arena = a, fc_free = (\<lambda>_. []), fc_hdr = (\<lambda>_. None), fc_heap = 0, fc_corrupt = 0\<rparr>"

text \<open>\<open>fc_heap\<close> is \<open>heap_fallbacks_\<close>, and the serial number of the next heap block.\<close>

definition fc_heap_block :: "frame_cache \<Rightarrow> fptr \<times> frame_cache" where
  "fc_heap_block f = (OnHeap (fc_heap f), f\<lparr>fc_heap := fc_heap f + 1\<rparr>)"

definition fc_slice :: "nat \<Rightarrow> nat \<Rightarrow> nat \<Rightarrow> frame_cache \<Rightarrow> frame_cache" where
  "fc_slice base cls i f =
     (let h = base + i * (cls * 64)
      in f\<lparr>fc_hdr := (fc_hdr f)(h \<mapsto> cls - 1), fc_free := (fc_free f)(cls - 1 := (h + 16) # fc_free f (cls - 1))\<rparr>)"

definition fc_pop :: "nat \<Rightarrow> frame_cache \<Rightarrow> fptr \<times> frame_cache" where
  "fc_pop cls f = (InArena (hd (fc_free f (cls - 1))), f\<lparr>fc_free := (fc_free f)(cls - 1 := tl (fc_free f (cls - 1)))\<rparr>)"

definition fc_carve :: "nat \<Rightarrow> frame_cache \<Rightarrow> fptr \<times> frame_cache" where
  "fc_carve cls f =
     (case fc_arena f of
        None \<Rightarrow> fc_heap_block f
      | Some a \<Rightarrow>
          (case ar_alloc 4096 16 a of
             (None, a') \<Rightarrow> fc_heap_block (f\<lparr>fc_arena := Some a'\<rparr>)
           | (Some base, a') \<Rightarrow>
               fc_pop cls (fold (fc_slice base cls) [0..<4096 div (cls * 64)] (f\<lparr>fc_arena := Some a'\<rparr>))))"

definition fc_alloc :: "nat \<Rightarrow> frame_cache \<Rightarrow> fptr \<times> frame_cache" where
  "fc_alloc n f =
     (let need = n + 16; cls = (need + 63) div 64
      in if cls > 16 then fc_heap_block f
         else if fc_free f (cls - 1) \<noteq> [] then fc_pop cls f else fc_carve cls f)"

definition fc_dealloc :: "fptr \<Rightarrow> frame_cache \<Rightarrow> frame_cache" where
  "fc_dealloc p f =
     (case p of
        OnHeap k \<Rightarrow> f
      | InArena u \<Rightarrow>
          (case fc_hdr f (u - 16) of
             None \<Rightarrow> f\<lparr>fc_corrupt := fc_corrupt f + 1\<rparr>
           | Some c \<Rightarrow> f\<lparr>fc_free := (fc_free f)(c := u # fc_free f c)\<rparr>))"

datatype frame_op = FAlloc nat | FFree nat

fun fc_step :: "frame_op \<Rightarrow> frame_cache \<times> (fptr \<times> nat) list \<Rightarrow> frame_cache \<times> (fptr \<times> nat) list" where
  "fc_step (FAlloc n) (f, live) = (case fc_alloc n f of (p, f') \<Rightarrow> (f', (p, n) # live))"
| "fc_step (FFree i) (f, live) =
     (if i < length live then (fc_dealloc (fst (live ! i)) f, take i live @ drop (Suc i) live) else (f, live))"

abbreviation in_block :: "nat \<Rightarrow> nat \<Rightarrow> nat \<times> nat" where
  "in_block a c \<equiv> (a, (c + 1) * 64)"

definition fc_blocks_ok :: "frame_cache \<Rightarrow> bool" where
  "fc_blocks_ok f \<longleftrightarrow> (\<forall>a c. fc_hdr f a = Some c \<longrightarrow>
       (\<exists>ar. fc_arena f = Some ar \<and> c < 16 \<and> ar_base ar \<le> a \<and> a + (c + 1) * 64 \<le> ar_base ar + ar_off ar)) \<and>
     (\<forall>a b c d. fc_hdr f a = Some c \<longrightarrow> fc_hdr f b = Some d \<longrightarrow> a \<noteq> b \<longrightarrow> apart (in_block a c) (in_block b d)) \<and>
     (\<forall>ar. fc_arena f = Some ar \<longrightarrow> ar_ok ar)"

definition fc_free_ok :: "frame_cache \<Rightarrow> bool" where
  "fc_free_ok f \<longleftrightarrow> (\<forall>c. distinct (fc_free f c)) \<and> (\<forall>c u. u \<in> set (fc_free f c) \<longrightarrow> 16 \<le> u \<and> fc_hdr f (u - 16) = Some c)"

definition fits_block :: "frame_cache \<Rightarrow> nat \<Rightarrow> nat \<Rightarrow> bool" where
  "fits_block f u n \<longleftrightarrow> 16 \<le> u \<and> (\<exists>c. fc_hdr f (u - 16) = Some c \<and> u \<notin> set (fc_free f c) \<and> n + 16 \<le> (c + 1) * 64)"

definition fc_live_ok :: "frame_cache \<Rightarrow> (fptr \<times> nat) list \<Rightarrow> bool" where
  "fc_live_ok f live \<longleftrightarrow> distinct (map fst live) \<and> (\<forall>u n. (InArena u, n) \<in> set live \<longrightarrow> fits_block f u n) \<and>
     (\<forall>k n. (OnHeap k, n) \<in> set live \<longrightarrow> k < fc_heap f)"

definition fc_inv :: "frame_cache \<Rightarrow> (fptr \<times> nat) list \<Rightarrow> bool" where
  "fc_inv f live \<longleftrightarrow> fc_blocks_ok f \<and> fc_free_ok f \<and> fc_live_ok f live"

lemma fc_slices:
  "fold (fc_slice base cls) [0..<m] f =
     f\<lparr>fc_hdr := (\<lambda>a. if \<exists>i < m. a = base + i * (cls * 64) then Some (cls - 1) else fc_hdr f a),
       fc_free := (\<lambda>c. if c = cls - 1 then rev (map (\<lambda>i. base + i * (cls * 64) + 16) [0..<m]) @ fc_free f c else fc_free f c)\<rparr>"
    (is "_ = f\<lparr>fc_hdr := ?h m, fc_free := ?f m\<rparr>")
proof (induction m)
  case (Suc m)
  have 1: "(?h m)(base + m * (cls * 64) \<mapsto> cls - 1) = ?h (Suc m)" by (auto simp: fun_eq_iff less_Suc_eq)
  have 2: "(?f m)(cls - 1 := (base + m * (cls * 64) + 16) # ?f m (cls - 1)) = ?f (Suc m)" by (auto simp: fun_eq_iff)
  have "fold (fc_slice base cls) [0..<Suc m] f = fc_slice base cls m (f\<lparr>fc_hdr := ?h m, fc_free := ?f m\<rparr>)"
    by (simp only: upt_Suc le0 if_True fold_append comp_apply Suc.IH fold.simps id_apply)
  also have "\<dots> = f\<lparr>fc_hdr := (?h m)(base + m * (cls * 64) \<mapsto> cls - 1),
      fc_free := (?f m)(cls - 1 := (base + m * (cls * 64) + 16) # ?f m (cls - 1))\<rparr>"
    by (simp add: fc_slice_def Let_def)
  also have "\<dots> = f\<lparr>fc_hdr := ?h (Suc m), fc_free := ?f (Suc m)\<rparr>" by (simp only: 1 2)
  finally show ?case .
next
  case 0
  have "?h 0 = fc_hdr f" "?f 0 = fc_free f" by auto
  then show ?case by simp
qed

lemma heap_block_inv:
  assumes "fc_inv f live" "fc_heap_block f = (p, f')"
  shows "fc_inv f' ((p, n) # live)"
proof -
  have f': "p = OnHeap (fc_heap f)" "f' = f\<lparr>fc_heap := fc_heap f + 1\<rparr>" using assms(2) by (simp_all add: fc_heap_block_def)
  have "\<forall>k n. (OnHeap k, n) \<in> set live \<longrightarrow> k < fc_heap f" using assms(1) by (simp add: fc_inv_def fc_live_ok_def)
  then have "OnHeap (fc_heap f) \<notin> fst ` set live" by fastforce
  then show ?thesis using assms(1) unfolding f' fc_inv_def
    by (auto simp: fc_blocks_ok_def fc_free_ok_def fc_live_ok_def fits_block_def less_Suc_eq)
qed

lemma pop_inv:
  assumes inv: "fc_inv f live" and ne: "fc_free f (cls - 1) \<noteq> []" and n: "n + 16 \<le> cls * 64" and p: "fc_pop cls f = (p, f')"
  shows "fc_inv f' ((p, n) # live)"
proof -
  obtain u r where q: "fc_free f (cls - 1) = u # r" using ne by (cases "fc_free f (cls - 1)") auto
  have f': "p = InArena u" "f' = f\<lparr>fc_free := (fc_free f)(cls - 1 := r)\<rparr>" using p q by (simp_all add: fc_pop_def)
  have F: "fc_free_ok f" and L: "fc_live_ok f live" and B: "fc_blocks_ok f" using inv by (simp_all add: fc_inv_def)
  have d: "distinct (u # r)" using F q unfolding fc_free_ok_def by metis
  have u: "16 \<le> u" "fc_hdr f (u - 16) = Some (cls - 1)" using F q unfolding fc_free_ok_def by (metis list.set_intros(1))+
  have sub: "set (fc_free f' c) \<subseteq> set (fc_free f c)" for c using q by (auto simp: f')
  have "\<not> fits_block f u m" for m using u q by (simp add: fits_block_def)
  then have new: "InArena u \<notin> fst ` set live" using L unfolding fc_live_ok_def by fastforce
  have "u' \<in> set (fc_free f (cls - 1))" if "u' \<in> set r" for u' using q that by simp
  then have "fc_free_ok f'" using F d unfolding fc_free_ok_def by (auto simp: f')
  moreover have "fits_block f' v m" if "fits_block f v m" for v m
  proof -
    from that obtain c where "16 \<le> v" "fc_hdr f (v - 16) = Some c" "v \<notin> set (fc_free f c)" "m + 16 \<le> (c + 1) * 64"
      by (auto simp: fits_block_def)
    then show ?thesis using sub [of c] unfolding fits_block_def by (intro conjI exI [of _ c]) (auto simp: f')
  qed
  moreover have "fits_block f' u n" using u d n by (simp add: fits_block_def f')
  ultimately show ?thesis using L B new unfolding fc_inv_def fc_live_ok_def
    by (auto simp: f' fc_blocks_ok_def)
qed

lemma slice_inv:
  assumes inv: "fc_inv f live" and f: "fc_arena f = Some a" and cls: "0 < cls" "cls \<le> 16"
    and al: "ar_alloc 4096 16 a = (Some base, a')"
  defines "g \<equiv> fold (fc_slice base cls) [0..<4096 div (cls * 64)] (f\<lparr>fc_arena := Some a'\<rparr>)"
  shows "fc_inv g live" "fc_free g (cls - 1) \<noteq> []"
proof -
  define m where "m = 4096 div (cls * 64)"
  have B: "fc_blocks_ok f" and F: "fc_free_ok f" and L: "fc_live_ok f live" using inv by (simp_all add: fc_inv_def)
  have "ar_ok a" using B f by (simp add: fc_blocks_ok_def)
  then have A: "a' = a\<lparr>ar_off := base + 4096 - ar_base a\<rparr>" "ar_base a + ar_off a \<le> base" "ar_ok a'"
    using al by (auto elim: ar_alloc_cases [of a 16 4096])
  have old: "ar_base a \<le> h \<and> h + (c + 1) * 64 \<le> base \<and> c < 16" if "fc_hdr f h = Some c" for h c
    using B f that A(2) unfolding fc_blocks_ok_def by fastforce
  have mm: "m * (cls * 64) \<le> 4096" unfolding m_def by (rule div_times_less_eq_dividend)
  have m: "i * (cls * 64) + cls * 64 \<le> 4096" if "i < m" for i
    using mult_le_mono1 [of "Suc i" m "cls * 64"] that mm mult_Suc [of i "cls * 64"] by linarith
  have ap: "i * (cls * 64) + cls * 64 \<le> j * (cls * 64)" if "i < j" for i j
    using mult_le_mono1 [of "Suc i" j "cls * 64"] that by simp
  have "cls * 64 \<le> 4096" using cls by simp
  then have m0: "0 < m" using cls by (simp add: m_def div_greater_zero_iff)
  have g: "fc_hdr g = (\<lambda>h. if \<exists>i < m. h = base + i * (cls * 64) then Some (cls - 1) else fc_hdr f h)"
      "fc_free g = (\<lambda>c. if c = cls - 1 then rev (map (\<lambda>i. base + i * (cls * 64) + 16) [0..<m]) @ fc_free f c else fc_free f c)"
      "fc_arena g = Some a'" "fc_heap g = fc_heap f"
    unfolding g_def fc_slices m_def [symmetric] by (auto simp: fun_eq_iff)
  show "fc_free g (cls - 1) \<noteq> []" using m0 by (simp add: g)
  have keep: "fc_hdr g h = Some c" if "fc_hdr f h = Some c" for h c using old [OF that] that by (auto simp: g)
  have split: "fc_hdr f h = Some c \<or> (\<exists>i < m. h = base + i * (cls * 64)) \<and> c = cls - 1" if "fc_hdr g h = Some c" for h c
    using that by (auto simp: g split: if_splits)
  have hi: "h + (c + 1) * 64 \<le> base + 4096 \<and> ar_base a \<le> h \<and> c < 16" if "fc_hdr g h = Some c" for h c
  proof (cases "fc_hdr f h = Some c")
    case False
    with split [OF that] obtain i where i: "i < m" "h = base + i * (cls * 64)" "c = cls - 1" by auto
    then have "(c + 1) * 64 = cls * 64" using cls by simp
    then show ?thesis using m [OF i(1)] i(2,3) cls A(2) by auto
  qed (use old [of h c] in auto)
  have "apart (in_block h c) (in_block k d)" if "fc_hdr g h = Some c" "fc_hdr g k = Some d" "h \<noteq> k" for h k c d
  proof -
    have new: "apart (in_block h c) (in_block k d)"
      if h: "h = base + i * (cls * 64)" "c = cls - 1" and k: "k = base + j * (cls * 64)" "d = cls - 1" for i j
      using that \<open>h \<noteq> k\<close> ap [of i j] ap [of j i] cls by (cases i j rule: linorder_cases) (auto simp: apart_def)
    from split [OF that(1)] split [OF that(2)] show ?thesis
    proof (elim disjE exE conjE)
      assume "fc_hdr f h = Some c" "fc_hdr f k = Some d"
      then show ?thesis using B \<open>h \<noteq> k\<close> unfolding fc_blocks_ok_def by blast
    qed (use old [of h c] old [of k d] new in \<open>auto simp: apart_def\<close>)
  qed
  moreover have "ar_base a' = ar_base a" "ar_base a' + ar_off a' = base + 4096" using A(1,2) by simp_all
  ultimately have B': "fc_blocks_ok g" unfolding fc_blocks_ok_def using hi A(3) by (auto simp: g)
  have nf: "base + i * (cls * 64) + 16 \<notin> set (fc_free f (cls - 1))" for i
    using F old [of "base + i * (cls * 64)"] by (fastforce simp: fc_free_ok_def)
  have F': "fc_free_ok g" unfolding fc_free_ok_def
  proof (intro conjI allI impI)
    have d: "distinct (fc_free f c)" for c using F by (simp add: fc_free_ok_def)
    have "inj_on (\<lambda>i. base + i * (cls * 64) + 16) {0..<m}" using cls by (intro inj_onI) simp
    then have "distinct (rev (map (\<lambda>i. base + i * (cls * 64) + 16) [0..<m]) @ fc_free f (cls - 1))"
      using d [of "cls - 1"] nf by (auto simp: distinct_map)
    then show "distinct (fc_free g c)" for c using d [of c] by (simp only: g split: if_splits) blast
    fix c u assume "u \<in> set (fc_free g c)"
    then consider "u \<in> set (fc_free f c)" | i where "c = cls - 1" "i < m" "u = base + i * (cls * 64) + 16"
      by (auto simp: g split: if_splits)
    then show "16 \<le> u" "fc_hdr g (u - 16) = Some c" using F keep by (cases; auto simp: fc_free_ok_def g)+
  qed
  have "fits_block g u n" if "fits_block f u n" for u n
  proof -
    from that obtain c where c: "16 \<le> u" "fc_hdr f (u - 16) = Some c" "u \<notin> set (fc_free f c)" "n + 16 \<le> (c + 1) * 64"
      by (auto simp: fits_block_def)
    have "u - 16 < base" using old [OF c(2)] by simp
    then show ?thesis using c keep [OF c(2)] unfolding fits_block_def by (auto simp: g)
  qed
  then have "fc_live_ok g live" using L unfolding fc_live_ok_def by (auto simp: g)
  then show "fc_inv g live" using B' F' by (simp add: fc_inv_def)
qed

lemma carve_inv:
  assumes inv: "fc_inv f live" and cls: "0 < cls" "cls \<le> 16" and n: "n + 16 \<le> cls * 64" and p: "fc_carve cls f = (p, f')"
  shows "fc_inv f' ((p, n) # live)"
proof (cases "fc_arena f")
  case None
  then show ?thesis using heap_block_inv [OF inv] p by (simp add: fc_carve_def)
next
  case (Some a)
  have "ar_ok a" using inv Some by (simp add: fc_inv_def fc_blocks_ok_def)
  moreover have "(0 :: nat) < 16" "(16 :: nat) \<le> 2 ^ 62" "(4096 :: nat) \<le> 2 ^ 62" by simp_all
  ultimately show ?thesis
  proof (cases rule: ar_alloc_cases)
    case full
    have same: "f\<lparr>fc_arena := Some a\<rparr> = f" using Some by (cases f) simp
    have "fc_carve cls f = fc_heap_block (f\<lparr>fc_arena := Some a\<rparr>)" using full(1) Some by (simp add: fc_carve_def)
    then show ?thesis using heap_block_inv [OF inv] p unfolding same by simp
  next
    case (block base)
    then show ?thesis using pop_inv [OF slice_inv [OF inv Some cls block(1)] n] p Some by (simp add: fc_carve_def)
  qed
qed

lemma live_ok_subset:
  "fc_live_ok f live \<Longrightarrow> set l \<subseteq> set live \<Longrightarrow> distinct (map fst l) \<Longrightarrow> fc_live_ok f l"
  unfolding fc_live_ok_def by blast

lemma fc_step_inv:
  assumes inv: "fc_inv f live" and st: "fc_step op (f, live) = (f', live')"
  shows "fc_inv f' live'"
proof (cases op)
  case (FAlloc n)
  define cls where "cls = (n + 16 + 63) div 64"
  obtain p where p: "fc_alloc n f = (p, f')" "live' = (p, n) # live" using st FAlloc by (auto split: prod.splits)
  have c: "0 < cls" "n + 16 \<le> cls * 64" unfolding cls_def by (simp add: div_greater_zero_iff, linarith)
  consider "16 < cls" "fc_heap_block f = (p, f')" | "fc_free f (cls - 1) \<noteq> []" "fc_pop cls f = (p, f')"
    | "cls \<le> 16" "fc_carve cls f = (p, f')"
    using p(1) by (auto simp: fc_alloc_def Let_def cls_def split: if_splits)
  then show ?thesis using heap_block_inv [OF inv] pop_inv [OF inv _ c(2)] carve_inv [OF inv c(1) _ c(2)] p(2) by cases auto
next
  case (FFree i)
  show ?thesis
  proof (cases "i < length live")
    case True
    obtain p n where pn: "live ! i = (p, n)" by fastforce
    let ?l = "take i live @ drop (Suc i) live"
    have e: "live = take i live @ (p, n) # drop (Suc i) live" using id_take_nth_drop [OF True] pn by simp
    have L: "fc_live_ok f live" and B: "fc_blocks_ok f" and F: "fc_free_ok f" using inv by (simp_all add: fc_inv_def)
    have f': "f' = fc_dealloc p f" "live' = ?l" using st FFree True pn by simp_all
    have sub: "set ?l \<subseteq> set live" by (subst (3) e) auto
    have "distinct (map fst (take i live @ (p, n) # drop (Suc i) live))" using L e by (simp add: fc_live_ok_def)
    then have d: "distinct (map fst ?l)" "p \<notin> fst ` set ?l" by auto
    have mem: "(p, n) \<in> set live" using True pn nth_mem by fastforce
    show ?thesis
    proof (cases p)
      case (OnHeap k)
      then show ?thesis using B F live_ok_subset [OF L sub d(1)] by (simp add: f' fc_dealloc_def fc_inv_def)
    next
      case (InArena u)
      then have "fits_block f u n" using L mem by (simp add: fc_live_ok_def)
      then obtain c where c: "16 \<le> u" "fc_hdr f (u - 16) = Some c" "u \<notin> set (fc_free f c)" by (auto simp: fits_block_def)
      then have g: "f' = f\<lparr>fc_free := (fc_free f)(c := u # fc_free f c)\<rparr>" using f'(1) InArena by (simp add: fc_dealloc_def)
      have "fits_block f' v m" if "(InArena v, m) \<in> set ?l" for v m
      proof -
        have "fits_block f v m" using L sub that by (auto simp: fc_live_ok_def)
        moreover have "v \<noteq> u" using d(2) that InArena by force
        ultimately show ?thesis by (auto simp: fits_block_def g)
      qed
      moreover have "fc_free_ok f'" using F c by (auto simp: fc_free_ok_def g)
      moreover have "fc_blocks_ok f'" using B by (simp add: fc_blocks_ok_def g)
      moreover have "\<forall>k m. (OnHeap k, m) \<in> set ?l \<longrightarrow> k < fc_heap f'"
        using live_ok_subset [OF L sub d(1)] by (simp add: fc_live_ok_def g)
      ultimately show ?thesis using d(1) unfolding f'(2) fc_inv_def fc_live_ok_def by blast
    qed
  qed (use inv st FFree in simp)
qed

lemma fc_run_inv: "fc_inv f live \<Longrightarrow> fold fc_step ops (f, live) = (f', live') \<Longrightarrow> fc_inv f' live'"
proof (induction ops arbitrary: f live)
  case (Cons op ops)
  obtain g l where g: "fc_step op (f, live) = (g, l)" by fastforce
  show ?case using Cons.IH [OF fc_step_inv [OF Cons.prems(1) g]] Cons.prems(2) g by simp
qed simp

text \<open>
  C32: Live coroutine frames never overlap. From an empty cache over a sound arena, after any sequence of
  allocations and of frees of live frames, two live frames in the arena share no byte, headers included.
\<close>

theorem frames_disjoint:
  assumes "ar_ok a" and "fold fc_step ops (fc_new (Some a), []) = (f, live)"
    and "i < length live" "j < length live" "i \<noteq> j" "live ! i = (InArena u, n)" "live ! j = (InArena v, m)"
  shows "apart (u - 16, n + 16) (v - 16, m + 16)"
proof -
  have "fc_inv (fc_new (Some a)) []" using assms(1)
    by (simp add: fc_inv_def fc_blocks_ok_def fc_free_ok_def fc_live_ok_def fc_new_def)
  then have inv: "fc_inv f live" using assms(2) by (rule fc_run_inv)
  have mem: "(InArena u, n) \<in> set live" "(InArena v, m) \<in> set live" using assms(3-7) by (metis nth_mem)+
  have "fits_block f u n" "fits_block f v m" "distinct (map fst live)" using inv mem by (simp_all add: fc_inv_def fc_live_ok_def)
  then obtain c d where c: "fc_hdr f (u - 16) = Some c" "n + 16 \<le> (c + 1) * 64" "16 \<le> u"
    and d: "fc_hdr f (v - 16) = Some d" "m + 16 \<le> (d + 1) * 64" "16 \<le> v" by (auto simp: fits_block_def)
  have "u \<noteq> v" using \<open>distinct (map fst live)\<close> assms(3-7) by (metis fst_conv length_map nth_eq_iff_index_eq nth_map)
  then have "u - 16 \<noteq> v - 16" using c d by linarith
  then have "apart (in_block (u - 16) c) (in_block (v - 16) d)" using inv c(1) d(1) unfolding fc_inv_def fc_blocks_ok_def by blast
  then show ?thesis using c d by (auto simp: apart_def)
qed

lemma sample_frames:
  "snd (fold fc_step [FAlloc 1000, FAlloc 900] (fc_new (Some (ar_new 4096 65536)), [])) =
     [(InArena 11088, 900), (InArena 7184, 1000)]"
proof -
  let ?a = "ar_new 4096 65536"
  have "ar_alloc 4096 16 ?a = (Some 4096, ?a\<lparr>ar_off := 4096\<rparr>)"
    "ar_alloc 4096 16 (?a\<lparr>ar_off := 4096\<rparr>) = (Some 8192, ?a\<lparr>ar_off := 8192\<rparr>)"
    by (simp_all add: ar_new_def ar_alloc_def Let_def)
  then show ?thesis by (simp add: fc_alloc_def fc_carve_def fc_new_def fc_pop_def fc_slices Let_def) (simp add: upt_conv_Cons)
qed

theorem frames_disjoint_witness:
  "apart (11088 - 16, 900 + 16) (7184 - 16, 1000 + 16)"
proof -
  obtain f live where r: "fold fc_step [FAlloc 1000, FAlloc 900] (fc_new (Some (ar_new 4096 65536)), []) = (f, live)"
    by fastforce
  then have l: "live = [(InArena 11088, 900), (InArena 7184, 1000)]" using sample_frames by simp
  have "ar_ok (ar_new 4096 65536)" by (simp add: ar_ok_def ar_new_def)
  from frames_disjoint [OF this r, of 0 1] show ?thesis by (simp add: l)
qed

end
