(* ===== verification/Itc_Rings.thy ===== *)
theory Itc_Rings
  imports Afx_Prelude "HOL-Library.Sublist"
begin

text \<open>
  The bounded rings of \<^verbatim>\<open>include/afx/itc/spsc_ring.hpp\<close> and \<^verbatim>\<open>mpsc_ring.hpp\<close>. Each ring is
  modelled twice: its operations on 64-bit positions that wrap, run one after the other and related to
  a bounded queue; and its atomic accesses as steps of producers and the consumer that interleave.
  The interleaving is sequentially consistent; the acquire and release orders of the code make the
  slot accesses of one side visible to the other in that order.
\<close>

unbundle bit_operations_syntax

section \<open>Positions\<close>

definition pow2 :: "nat \<Rightarrow> bool" where
  "pow2 c \<longleftrightarrow> (\<exists>k < 64. c = 2 ^ k)"

definition slot_of :: "nat \<Rightarrow> u64 \<Rightarrow> nat" where
  "slot_of cap p = unat (p AND of_nat (cap - 1))"

lemma slot_of_mod: "pow2 cap \<Longrightarrow> slot_of cap p = unat p mod cap"
proof -
  assume "pow2 cap"
  then obtain k where k: "k < 64" "cap = 2 ^ k" by (auto simp: pow2_def)
  have "of_nat (cap - 1) = (mask k :: u64)" using k by (simp add: mask_eq_exp_minus_1 of_nat_diff)
  then have "slot_of cap p = unat (take_bit k p)" by (simp add: slot_of_def take_bit_eq_mask)
  then show ?thesis using k by (simp add: unsigned_take_bit_eq take_bit_nat_def)
qed

lemma pow2_facts:
  assumes "pow2 cap"
  shows "0 < cap" "cap < 2 ^ 64" "cap dvd 2 ^ 64"
proof -
  obtain k where k: "k < 64" "cap = 2 ^ k" using assms by (auto simp: pow2_def)
  show "0 < cap" using k by simp
  show "cap < 2 ^ 64" using k power_strict_increasing [of k 64 "2 :: nat"] by simp
  show "cap dvd 2 ^ 64" using k le_imp_power_dvd [of k 64 "2 :: nat"] by simp
qed

lemma slot_of_add:
  assumes "pow2 cap"
  shows "slot_of cap (p + of_nat i) = (unat p + i) mod cap"
proof -
  have "unat (p + of_nat i) = (unat p + i) mod 2 ^ 64" by (simp add: unat_word_ariths unat_of_nat mod_simps)
  then show ?thesis using pow2_facts(3) [OF assms] by (simp add: slot_of_mod [OF assms] mod_mod_cancel)
qed

text \<open>Positions less than a capacity apart have different slots.\<close>

lemma window_inj:
  assumes "(r :: nat) \<le> p" "p < r + cap" "r \<le> q" "q < r + cap" "p mod cap = q mod cap"
  shows "p = q"
proof -
  have *: "a = b" if "a \<le> b" "a mod cap = b mod cap" "b < a + cap" for a b :: nat
  proof -
    have "cap dvd b - a" using that(1,2) mod_eq_dvd_iff_nat by metis
    moreover have "b - a < cap" using that(1,3) by linarith
    ultimately have "b - a = 0" using nat_dvd_not_less by blast
    then show ?thesis using that(1) by simp
  qed
  show ?thesis using * [of p q] * [of q p] assms by (cases "p \<le> q") auto
qed

section \<open>Interface\<close>

text \<open>Pushing one item after the other until one is refused.\<close>

primrec push_list :: "('a \<Rightarrow> 'r \<Rightarrow> bool \<times> 'r) \<Rightarrow> 'a list \<Rightarrow> 'r \<Rightarrow> nat \<times> 'r" where
  "push_list push [] r = (0, r)"
| "push_list push (v # vs) r = (case push v r of (ok, r') \<Rightarrow> if ok then apfst Suc (push_list push vs r') else (0, r'))"

text \<open>What a client of a ring relies on: pushing appends or refuses, and refuses only when full.\<close>

locale ring_push =
  fixes inv :: "'r \<Rightarrow> bool" and items :: "'r \<Rightarrow> 'a list" and cap :: "'r \<Rightarrow> nat" and push :: "'a \<Rightarrow> 'r \<Rightarrow> bool \<times> 'r"
  assumes push_room: "inv r \<Longrightarrow> length (items r) < cap r \<Longrightarrow>
      \<exists>r'. push v r = (True, r') \<and> inv r' \<and> items r' = items r @ [v] \<and> cap r' = cap r"
    and push_full: "inv r \<Longrightarrow> \<not> length (items r) < cap r \<Longrightarrow> push v r = (False, r)"
begin

lemma push_list_ok:
  assumes "inv r"
  shows "inv (snd (push_list push vs r)) \<and> fst (push_list push vs r) = min (length vs) (cap r - length (items r)) \<and>
    items (snd (push_list push vs r)) = items r @ take (cap r - length (items r)) vs \<and> cap (snd (push_list push vs r)) = cap r"
  using assms
proof (induction vs arbitrary: r)
  case (Cons v vs)
  show ?case
  proof (cases "length (items r) < cap r")
    case True
    then obtain r' where r': "push v r = (True, r')" "inv r'" "items r' = items r @ [v]" "cap r' = cap r"
      using push_room [OF Cons.prems] by blast
    have "cap r - length (items r) = Suc (cap r - length (items r'))" using True r'(3) by simp
    then show ?thesis using Cons.IH [OF r'(2)] r' by simp
  qed (use push_full [OF Cons.prems] Cons.prems in simp)
qed simp

end

section \<open>Single producer, single consumer\<close>

record 'a spsc =
  sp_cap :: nat
  sp_buf :: "nat \<Rightarrow> 'a"
  sp_head :: u64
  sp_tail :: u64

definition spsc_new :: "nat \<Rightarrow> (nat \<Rightarrow> 'a) \<Rightarrow> 'a spsc" where
  "spsc_new cap junk = \<lparr>sp_cap = cap, sp_buf = junk, sp_head = 0, sp_tail = 0\<rparr>"

definition spsc_push :: "'a \<Rightarrow> 'a spsc \<Rightarrow> bool \<times> 'a spsc" where
  "spsc_push v r =
     (if sp_tail r - sp_head r \<ge> of_nat (sp_cap r) then (False, r)
      else (True, r\<lparr>sp_buf := (sp_buf r)(slot_of (sp_cap r) (sp_tail r) := v), sp_tail := sp_tail r + 1\<rparr>))"

definition spsc_push_bulk :: "'a list \<Rightarrow> 'a spsc \<Rightarrow> nat \<times> 'a spsc" where
  "spsc_push_bulk vs r =
     (let room = unat (of_nat (sp_cap r) - (sp_tail r - sp_head r));
          n = (if length vs < room then length vs else room);
          buf = fold (\<lambda>i b. b(slot_of (sp_cap r) (sp_tail r + of_nat i) := vs ! i)) [0..<n] (sp_buf r)
      in (n, r\<lparr>sp_buf := buf, sp_tail := sp_tail r + of_nat n\<rparr>))"

text \<open>The drains return the items handed to the consumer's callback, in order.\<close>

definition spsc_drain :: "nat \<Rightarrow> 'a spsc \<Rightarrow> 'a list \<times> 'a spsc" where
  "spsc_drain mx r =
     (let avail = unat (sp_tail r - sp_head r); n = (if avail < mx then avail else mx)
      in (map (\<lambda>i. sp_buf r (slot_of (sp_cap r) (sp_head r + of_nat i))) [0..<n], r\<lparr>sp_head := sp_head r + of_nat n\<rparr>))"

definition spsc_drain_contiguous :: "nat \<Rightarrow> 'a spsc \<Rightarrow> 'a list \<times> 'a spsc" where
  "spsc_drain_contiguous mx r =
     (let avail = unat (sp_tail r - sp_head r)
      in if avail = 0 then ([], r)
         else let off = slot_of (sp_cap r) (sp_head r);
                  contiguous = sp_cap r - off;
                  n = (if avail < contiguous then avail else contiguous);
                  n = (if n > mx then mx else n)
              in (map (\<lambda>i. sp_buf r (off + i)) [0..<n], r\<lparr>sp_head := sp_head r + of_nat n\<rparr>))"

definition spsc_empty :: "'a spsc \<Rightarrow> bool" where
  "spsc_empty r \<longleftrightarrow> sp_head r = sp_tail r"

definition spsc_size_approx :: "'a spsc \<Rightarrow> nat" where
  "spsc_size_approx r = (if sp_tail r \<ge> sp_head r then unat (sp_tail r - sp_head r) else 0)"

definition spsc_inv :: "'a spsc \<Rightarrow> bool" where
  "spsc_inv r \<longleftrightarrow> pow2 (sp_cap r) \<and> unat (sp_tail r - sp_head r) \<le> sp_cap r"

definition spsc_items :: "'a spsc \<Rightarrow> 'a list" where
  "spsc_items r = map (\<lambda>i. sp_buf r ((unat (sp_head r) + i) mod sp_cap r)) [0..<unat (sp_tail r - sp_head r)]"

lemma spsc_tail: "sp_tail r = sp_head r + of_nat (unat (sp_tail r - sp_head r))"
  by simp

lemma spsc_tail_slot:
  assumes "spsc_inv r"
  shows "slot_of (sp_cap r) (sp_tail r + of_nat i) = (unat (sp_head r) + (unat (sp_tail r - sp_head r) + i)) mod sp_cap r"
proof -
  have "sp_tail r + of_nat i = sp_head r + of_nat (unat (sp_tail r - sp_head r) + i)" by simp
  then show ?thesis using assms slot_of_add [of "sp_cap r"] unfolding spsc_inv_def by metis
qed

lemma spsc_advance:
  assumes "spsc_inv r" "unat (sp_tail r - sp_head r) + n \<le> sp_cap r"
  shows "unat (sp_tail r + of_nat n - sp_head r) = unat (sp_tail r - sp_head r) + n"
proof -
  have c: "sp_cap r < 2 ^ 64" using assms(1) pow2_facts(2) by (auto simp: spsc_inv_def)
  have "sp_tail r + of_nat n - sp_head r = of_nat (unat (sp_tail r - sp_head r) + n)" by simp
  then show ?thesis using assms(2) c by (simp del: of_nat_add unat_of_nat)
qed

text \<open>Writing the next \<open>n\<close> slots and moving the tail appends \<open>n\<close> items.\<close>

lemma spsc_append:
  assumes inv: "spsc_inv r" and n: "unat (sp_tail r - sp_head r) + length vs \<le> sp_cap r"
    and old: "\<And>i. i < unat (sp_tail r - sp_head r) \<Longrightarrow>
      buf ((unat (sp_head r) + i) mod sp_cap r) = sp_buf r ((unat (sp_head r) + i) mod sp_cap r)"
    and new: "\<And>i. i < length vs \<Longrightarrow> buf ((unat (sp_head r) + (unat (sp_tail r - sp_head r) + i)) mod sp_cap r) = vs ! i"
  defines "r' \<equiv> r\<lparr>sp_buf := buf, sp_tail := sp_tail r + of_nat (length vs)\<rparr>"
  shows "spsc_inv r' \<and> spsc_items r' = spsc_items r @ vs"
proof -
  let ?a = "unat (sp_tail r - sp_head r)"
  have a: "unat (sp_tail r' - sp_head r') = ?a + length vs" using spsc_advance [OF inv n] by (simp add: r'_def)
  have "spsc_items r' = spsc_items r @ vs"
  proof (rule nth_equalityI)
    show "length (spsc_items r') = length (spsc_items r @ vs)" using a by (simp add: spsc_items_def)
    fix i assume "i < length (spsc_items r')"
    then have i: "i < ?a + length vs" using a by (simp add: spsc_items_def)
    then have l: "spsc_items r' ! i = buf ((unat (sp_head r) + i) mod sp_cap r)" using a by (simp add: spsc_items_def r'_def)
    show "spsc_items r' ! i = (spsc_items r @ vs) ! i"
    proof (cases "i < ?a")
      case True
      then show ?thesis using l old by (simp add: spsc_items_def nth_append)
    next
      case False
      then have "i = ?a + (i - ?a)" "i - ?a < length vs" using i by simp_all
      then have "buf ((unat (sp_head r) + i) mod sp_cap r) = vs ! (i - ?a)" using new [of "i - ?a"] by simp
      then show ?thesis using l False by (simp add: spsc_items_def nth_append)
    qed
  qed
  then show ?thesis using inv n a by (simp add: spsc_inv_def r'_def)
qed

lemma slot_other:
  assumes "pow2 cap" "i < j" "j < cap"
  shows "(h + i) mod cap \<noteq> (h + j) mod cap"
  using window_inj [of h "h + i" cap "h + j"] assms by auto

lemma spsc_push_cases:
  assumes "spsc_inv r"
  shows "length (spsc_items r) < sp_cap r \<Longrightarrow> spsc_push v r =
      (True, r\<lparr>sp_buf := (sp_buf r)(slot_of (sp_cap r) (sp_tail r) := v), sp_tail := sp_tail r + 1\<rparr>)"
    and "\<not> length (spsc_items r) < sp_cap r \<Longrightarrow> spsc_push v r = (False, r)"
proof -
  have "sp_cap r < 2 ^ 64" using assms pow2_facts(2) by (auto simp: spsc_inv_def)
  then have "sp_tail r - sp_head r \<ge> of_nat (sp_cap r) \<longleftrightarrow> sp_cap r \<le> unat (sp_tail r - sp_head r)"
    by (simp add: word_le_nat_alt)
  moreover have "length (spsc_items r) = unat (sp_tail r - sp_head r)" by (simp add: spsc_items_def)
  ultimately show "length (spsc_items r) < sp_cap r \<Longrightarrow> spsc_push v r =
      (True, r\<lparr>sp_buf := (sp_buf r)(slot_of (sp_cap r) (sp_tail r) := v), sp_tail := sp_tail r + 1\<rparr>)"
    and "\<not> length (spsc_items r) < sp_cap r \<Longrightarrow> spsc_push v r = (False, r)"
    by (simp_all add: spsc_push_def)
qed

interpretation spq: ring_push spsc_inv spsc_items sp_cap spsc_push
proof
  fix r :: "'a spsc" and v
  assume inv: "spsc_inv r" and room: "length (spsc_items r) < sp_cap r"
  let ?a = "unat (sp_tail r - sp_head r)"
  let ?buf = "(sp_buf r)(slot_of (sp_cap r) (sp_tail r) := v)"
  have p: "pow2 (sp_cap r)" and a: "?a < sp_cap r" using inv room by (simp_all add: spsc_inv_def spsc_items_def)
  have s: "slot_of (sp_cap r) (sp_tail r) = (unat (sp_head r) + ?a) mod sp_cap r" using spsc_tail_slot [OF inv, of 0] by simp
  have "spsc_inv (r\<lparr>sp_buf := ?buf, sp_tail := sp_tail r + of_nat (length [v])\<rparr>) \<and>
      spsc_items (r\<lparr>sp_buf := ?buf, sp_tail := sp_tail r + of_nat (length [v])\<rparr>) = spsc_items r @ [v]"
    by (rule spsc_append [OF inv]) (use a s slot_other [OF p _ a, of _ "unat (sp_head r)"] in auto)
  then show "\<exists>r'. spsc_push v r = (True, r') \<and> spsc_inv r' \<and> spsc_items r' = spsc_items r @ [v] \<and> sp_cap r' = sp_cap r"
    using spsc_push_cases(1) [OF inv room] by simp
qed (rule spsc_push_cases(2))

lemma take_upt0: "take m [0..<a] = [0..<min m a]"
  by (rule nth_equalityI) simp_all

lemma fold_slots:
  fixes h a :: nat and vs :: "'a list"
  assumes p: "pow2 cap"
  defines "w n \<equiv> fold (\<lambda>i b. b((h + (a + i)) mod cap := vs ! i)) [0..<n]"
  shows "a + n \<le> cap \<Longrightarrow> (\<forall>i < a. w n buf ((h + i) mod cap) = buf ((h + i) mod cap)) \<and>
    (\<forall>i < n. w n buf ((h + (a + i)) mod cap) = vs ! i)"
proof (induction n)
  case (Suc n)
  have ne: "(h + j) mod cap \<noteq> (h + (a + n)) mod cap" if "j < a + n" for j
    using slot_other [OF p, of j "a + n" h] that Suc.prems by auto
  have step: "w (Suc n) buf = (w n buf)((h + (a + n)) mod cap := vs ! n)" by (simp add: w_def)
  show ?case using Suc ne [of "a + i" for i] ne unfolding step by (auto simp: less_Suc_eq)
qed (simp add: w_def)

lemma spsc_bulk_ok:
  assumes inv: "spsc_inv r"
  shows "fst (spsc_push_bulk vs r) = min (length vs) (sp_cap r - length (spsc_items r)) \<and> spsc_inv (snd (spsc_push_bulk vs r)) \<and>
    spsc_items (snd (spsc_push_bulk vs r)) = spsc_items r @ take (sp_cap r - length (spsc_items r)) vs"
proof -
  let ?a = "unat (sp_tail r - sp_head r)"
  define n where "n = min (length vs) (sp_cap r - ?a)"
  have p: "pow2 (sp_cap r)" and a: "?a \<le> sp_cap r" using inv by (simp_all add: spsc_inv_def)
  have c: "sp_cap r < 2 ^ 64" using pow2_facts(2) [OF p] .
  have "unat (of_nat (sp_cap r) - (sp_tail r - sp_head r)) = sp_cap r - ?a"
    using a c by (subst unat_sub) (simp_all add: word_le_nat_alt)
  then have b: "spsc_push_bulk vs r = (n, r\<lparr>sp_buf := fold (\<lambda>i b. b(slot_of (sp_cap r) (sp_tail r + of_nat i) := vs ! i)) [0..<n] (sp_buf r),
      sp_tail := sp_tail r + of_nat n\<rparr>)" by (simp add: spsc_push_bulk_def n_def min_def Let_def)
  have n: "?a + n \<le> sp_cap r" "length (take n vs) = n" using a by (auto simp: n_def)
  have f: "fold (\<lambda>i b. b(slot_of (sp_cap r) (sp_tail r + of_nat i) := vs ! i)) [0..<n] (sp_buf r) =
      fold (\<lambda>i b. b((unat (sp_head r) + (?a + i)) mod sp_cap r := vs ! i)) [0..<n] (sp_buf r)"
    by (simp only: spsc_tail_slot [OF inv])
  note S = fold_slots [OF p n(1), where h = "unat (sp_head r)" and vs = vs and buf = "sp_buf r"]
  have "spsc_inv (snd (spsc_push_bulk vs r)) \<and> spsc_items (snd (spsc_push_bulk vs r)) = spsc_items r @ take n vs"
    unfolding b f snd_conv using spsc_append [OF inv, of "take n vs"] S n by simp
  moreover have "take n vs = take (sp_cap r - ?a) vs" by (simp add: n_def min_def)
  ultimately show ?thesis using b by (simp add: n_def spsc_items_def)
qed

lemma spsc_advance_head:
  assumes inv: "spsc_inv r" and n: "n \<le> unat (sp_tail r - sp_head r)"
  shows "spsc_inv (r\<lparr>sp_head := sp_head r + of_nat n\<rparr>) \<and> spsc_items (r\<lparr>sp_head := sp_head r + of_nat n\<rparr>) = drop n (spsc_items r)"
proof -
  let ?a = "unat (sp_tail r - sp_head r)" and ?c = "sp_cap r"
  have p: "pow2 ?c" using inv by (simp add: spsc_inv_def)
  have "?a < 2 ^ 64" using unsigned_less [of "sp_tail r - sp_head r"] by simp
  then have "sp_tail r - (sp_head r + of_nat n) = of_nat (?a - n)" using n by (simp add: of_nat_diff algebra_simps)
  then have a: "unat (sp_tail r - (sp_head r + of_nat n)) = ?a - n" using \<open>?a < 2 ^ 64\<close> by simp
  have m: "(unat (sp_head r + of_nat n) + i) mod ?c = (unat (sp_head r) + (n + i)) mod ?c" for i
    using slot_of_add [OF p, of "sp_head r" n] slot_of_mod [OF p] by (metis add.assoc mod_add_left_eq)
  have "spsc_items (r\<lparr>sp_head := sp_head r + of_nat n\<rparr>) = drop n (spsc_items r)"
  proof (rule nth_equalityI)
    fix i assume "i < length (spsc_items (r\<lparr>sp_head := sp_head r + of_nat n\<rparr>))"
    then have i: "i < ?a - n" "n + i < ?a" using a by (simp_all add: spsc_items_def)
    then show "spsc_items (r\<lparr>sp_head := sp_head r + of_nat n\<rparr>) ! i = drop n (spsc_items r) ! i"
      using a m [of i] n by (simp add: spsc_items_def)
  qed (simp add: spsc_items_def a)
  moreover have "?a \<le> ?c" using inv by (simp add: spsc_inv_def)
  then have "?a - n \<le> ?c" by linarith
  ultimately show ?thesis using p a by (simp add: spsc_inv_def)
qed

lemma spsc_drain_ok:
  assumes "spsc_inv r"
  shows "spsc_inv (snd (spsc_drain mx r)) \<and> fst (spsc_drain mx r) = take mx (spsc_items r) \<and>
    spsc_items (snd (spsc_drain mx r)) = drop mx (spsc_items r)"
proof -
  let ?a = "unat (sp_tail r - sp_head r)"
  have p: "pow2 (sp_cap r)" using assms by (simp add: spsc_inv_def)
  have d: "spsc_drain mx r = (map (\<lambda>i. sp_buf r ((unat (sp_head r) + i) mod sp_cap r)) [0..<min mx ?a],
      r\<lparr>sp_head := sp_head r + of_nat (min mx ?a)\<rparr>)" by (simp add: spsc_drain_def slot_of_add [OF p] min_def Let_def)
  have "drop (min mx ?a) (spsc_items r) = drop mx (spsc_items r)" by (simp add: spsc_items_def min_def)
  then show ?thesis using spsc_advance_head [OF assms, of "min mx ?a"] unfolding d by (simp add: spsc_items_def take_map take_upt0)
qed

lemma spsc_contiguous_ok:
  assumes "spsc_inv r"
  shows "\<exists>n \<le> mx. spsc_inv (snd (spsc_drain_contiguous mx r)) \<and> fst (spsc_drain_contiguous mx r) = take n (spsc_items r) \<and>
    spsc_items (snd (spsc_drain_contiguous mx r)) = drop n (spsc_items r) \<and>
    n = min mx (min (length (spsc_items r)) (sp_cap r - unat (sp_head r) mod sp_cap r))"
proof -
  let ?a = "unat (sp_tail r - sp_head r)" and ?off = "unat (sp_head r) mod sp_cap r"
  define n where "n = min mx (min ?a (sp_cap r - ?off))"
  have p: "pow2 (sp_cap r)" using assms by (simp add: spsc_inv_def)
  have off: "?off < sp_cap r" using pow2_facts(1) [OF p] by simp
  have s: "?off + i = (unat (sp_head r) + i) mod sp_cap r" if "i < n" for i
  proof -
    have "i < sp_cap r - ?off" using that by (simp add: n_def)
    then have "?off + i < sp_cap r" by linarith
    then show ?thesis by (simp add: mod_add_left_eq [of "unat (sp_head r)" "sp_cap r" i, symmetric])
  qed
  have "fst (spsc_drain_contiguous mx r) = map (\<lambda>i. sp_buf r ((unat (sp_head r) + i) mod sp_cap r)) [0..<n] \<and>
      snd (spsc_drain_contiguous mx r) = r\<lparr>sp_head := sp_head r + of_nat n\<rparr>"
  proof (cases "?a = 0")
    case False
    let ?m = "if ?a < sp_cap r - ?off then ?a else sp_cap r - ?off"
    have "(if ?m > mx then mx else ?m) = n" by (simp add: n_def min_def)
    then have "spsc_drain_contiguous mx r = (map (\<lambda>i. sp_buf r (?off + i)) [0..<n], r\<lparr>sp_head := sp_head r + of_nat n\<rparr>)"
      using False by (simp only: spsc_drain_contiguous_def slot_of_mod [OF p] Let_def if_False)
    then show ?thesis using s by simp
  qed (simp add: spsc_drain_contiguous_def n_def)
  moreover have "n \<le> ?a" "n \<le> mx" by (simp_all add: n_def)
  ultimately show ?thesis using spsc_advance_head [OF assms \<open>n \<le> ?a\<close>]
    by (intro exI [of _ n]) (simp add: spsc_items_def take_map take_upt0 min_absorb1, simp add: n_def spsc_items_def)
qed

text \<open>
  The single-producer ring is a bounded queue, also when its positions wrap. A bulk push appends
  as many items as fit, a drain hands out the oldest ones in order, a contiguous drain hands out the
  oldest ones up to the end of the buffer, and the ring reports itself empty exactly when nothing is queued.
\<close>

theorem spsc_is_bounded_fifo:
  assumes "spsc_inv r"
  shows "spsc_items (snd (spsc_push_bulk vs r)) = spsc_items r @ take (sp_cap r - length (spsc_items r)) vs \<and>
    fst (spsc_push_bulk vs r) = fst (push_list spsc_push vs r) \<and>
    fst (spsc_drain mx r) = take mx (spsc_items r) \<and> spsc_items (snd (spsc_drain mx r)) = drop mx (spsc_items r) \<and>
    fst (spsc_drain_contiguous mx r) @ spsc_items (snd (spsc_drain_contiguous mx r)) = spsc_items r \<and>
    (spsc_empty r \<longleftrightarrow> spsc_items r = [])"
proof -
  obtain n where "fst (spsc_drain_contiguous mx r) = take n (spsc_items r)"
    "spsc_items (snd (spsc_drain_contiguous mx r)) = drop n (spsc_items r)" using spsc_contiguous_ok [OF assms] by blast
  moreover have "spsc_empty r \<longleftrightarrow> unat (sp_tail r - sp_head r) = 0" by (auto simp: spsc_empty_def unat_eq_zero)
  moreover have "spsc_items r = [] \<longleftrightarrow> unat (sp_tail r - sp_head r) = 0" by (simp add: spsc_items_def)
  ultimately show ?thesis using spsc_bulk_ok [OF assms] spq.push_list_ok [OF assms] spsc_drain_ok [OF assms] by simp
qed

definition sample_ring :: "nat spsc" where
  "sample_ring = \<lparr>sp_cap = 4, sp_buf = (\<lambda>i. 10 + i), sp_head = 2 ^ 64 - 1, sp_tail = 1\<rparr>"

theorem spsc_is_bounded_fifo_witness:
  "spsc_items sample_ring = [13, 10] \<and> spsc_items (snd (spsc_push_bulk [7, 8, 9] sample_ring)) = [13, 10, 7, 8]"
proof -
  have p: "pow2 4" by (simp add: pow2_def) (rule exI [of _ 2], simp)
  then have "spsc_inv sample_ring" by (simp add: spsc_inv_def sample_ring_def)
  moreover have "[0..<2] = [0, 1 :: nat]" by (simp add: upt_conv_Cons)
  then have i: "spsc_items sample_ring = [13, 10]" by (simp add: spsc_items_def sample_ring_def)
  ultimately show ?thesis using spsc_is_bounded_fifo [of sample_ring "[7, 8, 9]"] by (simp add: i) (simp add: sample_ring_def)
qed

subsection \<open>Interleaved accesses\<close>

text \<open>
  Each side's operation in its atomic parts. The producer tests for room with the head it loads, writes the
  slot, and publishes the tail; the consumer loads the tail and claims \<open>n\<close> items, moves them out
  one by one, and publishes the head. \<open>pc_sent\<close> and \<open>pc_got\<close> are the items published and moved out so far.
\<close>

datatype 'a sp_prod = PIdle | PRoom 'a | PWritten 'a

datatype sp_cons = CIdle | CDrain nat nat

record 'a sp_sys =
  ss_ring :: "'a spsc"
  ss_prod :: "'a sp_prod"
  ss_cons :: sp_cons
  ss_sent :: "'a list"
  ss_got :: "'a list"

inductive sp_step :: "'a sp_sys \<Rightarrow> 'a sp_sys \<Rightarrow> bool" where
  push_check: "ss_prod s = PIdle \<Longrightarrow> \<not> sp_tail (ss_ring s) - sp_head (ss_ring s) \<ge> of_nat (sp_cap (ss_ring s)) \<Longrightarrow>
    sp_step s (s\<lparr>ss_prod := PRoom v\<rparr>)"
| push_write: "ss_prod s = PRoom v \<Longrightarrow>
    sp_step s (s\<lparr>ss_ring := (ss_ring s)\<lparr>sp_buf := (sp_buf (ss_ring s))(slot_of (sp_cap (ss_ring s)) (sp_tail (ss_ring s)) := v)\<rparr>,
      ss_prod := PWritten v\<rparr>)"
| push_publish: "ss_prod s = PWritten v \<Longrightarrow>
    sp_step s (s\<lparr>ss_ring := (ss_ring s)\<lparr>sp_tail := sp_tail (ss_ring s) + 1\<rparr>, ss_prod := PIdle, ss_sent := ss_sent s @ [v]\<rparr>)"
| drain_claim: "ss_cons s = CIdle \<Longrightarrow> n = min mx (unat (sp_tail (ss_ring s) - sp_head (ss_ring s))) \<Longrightarrow>
    sp_step s (s\<lparr>ss_cons := CDrain n 0\<rparr>)"
| drain_item: "ss_cons s = CDrain n i \<Longrightarrow> i < n \<Longrightarrow>
    sp_step s (s\<lparr>ss_cons := CDrain n (Suc i),
      ss_got := ss_got s @ [sp_buf (ss_ring s) (slot_of (sp_cap (ss_ring s)) (sp_head (ss_ring s) + of_nat i))]\<rparr>)"
| drain_publish: "ss_cons s = CDrain n n \<Longrightarrow>
    sp_step s (s\<lparr>ss_ring := (ss_ring s)\<lparr>sp_head := sp_head (ss_ring s) + of_nat n\<rparr>, ss_cons := CIdle\<rparr>)"

definition sp_start :: "nat \<Rightarrow> (nat \<Rightarrow> 'a) \<Rightarrow> 'a sp_sys" where
  "sp_start cap junk = \<lparr>ss_ring = spsc_new cap junk, ss_prod = PIdle, ss_cons = CIdle, ss_sent = [], ss_got = []\<rparr>"

text \<open>\<open>H\<close> counts the items whose slots the consumer has given back.\<close>

definition sp_ok :: "'a sp_sys \<Rightarrow> nat \<Rightarrow> bool" where
  "sp_ok s H \<longleftrightarrow> (let r = ss_ring s; c = sp_cap r; T = length (ss_sent s) in
     pow2 c \<and> sp_head r = of_nat H \<and> sp_tail r = of_nat T \<and> H \<le> T \<and> T \<le> H + c \<and>
     (\<forall>j. H \<le> j \<and> j < T \<longrightarrow> sp_buf r (j mod c) = ss_sent s ! j) \<and>
     (case ss_prod s of PIdle \<Rightarrow> True | PRoom v \<Rightarrow> T < H + c | PWritten v \<Rightarrow> T < H + c \<and> sp_buf r (T mod c) = v) \<and>
     (case ss_cons s of CIdle \<Rightarrow> ss_got s = take H (ss_sent s)
        | CDrain n i \<Rightarrow> i \<le> n \<and> H + n \<le> T \<and> ss_got s = take (H + i) (ss_sent s)))"

lemma sp_ok_start: "pow2 cap \<Longrightarrow> sp_ok (sp_start cap junk) 0"
  by (simp add: sp_ok_def sp_start_def spsc_new_def)

lemma sp_distance:
  assumes "pow2 c" "H \<le> T" "T \<le> H + c"
  shows "unat (of_nat T - of_nat H :: u64) = T - H"
proof -
  have "(of_nat T - of_nat H :: u64) = of_nat (T - H)" using assms(2) by (simp add: of_nat_diff)
  moreover have "T - H < 2 ^ 64" using assms pow2_facts(2) [of c] by linarith
  ultimately show ?thesis by simp
qed

lemma sp_slot: "pow2 c \<Longrightarrow> slot_of c (of_nat p) = p mod c"
  using slot_of_add [of c 0 p] by simp

lemma sp_step_ok:
  assumes "sp_step s s'" "sp_ok s H"
  shows "\<exists>H'. sp_ok s' H'"
  using assms
proof (induction rule: sp_step.induct)
  case (push_check s v)
  let ?c = "sp_cap (ss_ring s)" and ?T = "length (ss_sent s)"
  have p: "pow2 ?c" "H \<le> ?T" "?T \<le> H + ?c" "sp_head (ss_ring s) = of_nat H" "sp_tail (ss_ring s) = of_nat ?T"
    using push_check.prems by (simp_all add: sp_ok_def Let_def)
  have "\<not> ?c \<le> ?T - H" using push_check.hyps(2) sp_distance [OF p(1-3)] pow2_facts(2) [OF p(1)] p(4,5)
    by (simp add: word_le_nat_alt)
  then have "?T < H + ?c" by linarith
  then show ?case using push_check by (intro exI [of _ H]) (simp add: sp_ok_def Let_def split: sp_cons.splits)
next
  case (push_write s v)
  let ?c = "sp_cap (ss_ring s)" and ?T = "length (ss_sent s)"
  have p: "pow2 ?c" "?T < H + ?c" "sp_tail (ss_ring s) = of_nat ?T" "H \<le> ?T" using push_write by (simp_all add: sp_ok_def Let_def)
  have "j mod ?c \<noteq> ?T mod ?c" if "H \<le> j" "j < ?T" for j using window_inj [of H j ?c ?T] that p by auto
  then show ?case using push_write p by (intro exI [of _ H]) (simp add: sp_ok_def Let_def sp_slot split: sp_cons.splits)
next
  case (push_publish s v)
  then show ?case
    by (intro exI [of _ H]) (auto simp: sp_ok_def Let_def nth_append less_Suc_eq add.commute split: sp_cons.splits)
next
  case (drain_claim s n mx)
  then have "unat (sp_tail (ss_ring s) - sp_head (ss_ring s)) = length (ss_sent s) - H"
    using sp_distance [of "sp_cap (ss_ring s)" H "length (ss_sent s)"] by (simp add: sp_ok_def Let_def)
  then show ?case using drain_claim by (intro exI [of _ H]) (auto simp: sp_ok_def Let_def)
next
  case (drain_item s n i)
  let ?c = "sp_cap (ss_ring s)"
  have p: "pow2 ?c" "sp_head (ss_ring s) = of_nat H" "H + n \<le> length (ss_sent s)" "ss_got s = take (H + i) (ss_sent s)"
    "\<forall>j. H \<le> j \<and> j < length (ss_sent s) \<longrightarrow> sp_buf (ss_ring s) (j mod ?c) = ss_sent s ! j"
    using drain_item by (simp_all add: sp_ok_def Let_def)
  have "slot_of ?c (sp_head (ss_ring s) + of_nat i) = (H + i) mod ?c" using sp_slot [OF p(1), of "H + i"] p(2) by simp
  moreover have "H + i < length (ss_sent s)" using p(3) drain_item.hyps by linarith
  ultimately show ?case using drain_item p
    by (intro exI [of _ H]) (simp add: sp_ok_def Let_def take_Suc_conv_app_nth)
next
  case (drain_publish s n)
  then show ?case
    by (intro exI [of _ "H + n"]) (auto simp: sp_ok_def Let_def split: sp_prod.splits)
qed

text \<open>
  C17: Without locks, the single-producer ring neither loses, duplicates nor reorders: in every state that
  interleaved accesses of one producer and one consumer reach, what the consumer has moved out is
  the beginning of what the producer has published, and at most a capacity's worth lies between them.
\<close>

theorem spsc_interleaved_fifo:
  assumes "pow2 cap" and "sp_step\<^sup>*\<^sup>* (sp_start cap junk) s"
  shows "prefix (ss_got s) (ss_sent s) \<and> length (ss_sent s) \<le> length (ss_got s) + cap"
proof -
  have c: "sp_cap (ss_ring s) = cap \<and> (\<exists>H. sp_ok s H)" using assms(2)
  proof (induction rule: rtranclp_induct)
    case base
    show ?case using sp_ok_start [OF assms(1)] by (auto simp: sp_start_def spsc_new_def)
  next
    case (step y z)
    then have "sp_cap (ss_ring z) = sp_cap (ss_ring y)" by (auto elim: sp_step.cases)
    then show ?case using step sp_step_ok by auto
  qed
  then obtain H where H: "sp_ok s H" by blast
  then have "\<exists>m. ss_got s = take m (ss_sent s) \<and> H \<le> m \<and> m \<le> length (ss_sent s)"
    by (auto simp: sp_ok_def Let_def split: sp_cons.splits)
  then show ?thesis using H c by (auto simp: sp_ok_def Let_def take_is_prefix)
qed

theorem spsc_interleaved_fifo_witness:
  "\<exists>s. sp_step\<^sup>*\<^sup>* (sp_start 2 (\<lambda>_. 0 :: nat)) s \<and> ss_sent s = [5] \<and> ss_got s = [5] \<and> prefix (ss_got s) (ss_sent s)"
proof -
  let ?s0 = "sp_start 2 (\<lambda>_. 0 :: nat)"
  define s1 where "s1 = ?s0\<lparr>ss_prod := PRoom 5\<rparr>"
  define s2 where "s2 = s1\<lparr>ss_ring := (ss_ring s1)\<lparr>sp_buf := (sp_buf (ss_ring s1))(0 := 5)\<rparr>, ss_prod := PWritten 5\<rparr>"
  define s3 where "s3 = s2\<lparr>ss_ring := (ss_ring s2)\<lparr>sp_tail := 1\<rparr>, ss_prod := PIdle, ss_sent := [5]\<rparr>"
  define s4 where "s4 = s3\<lparr>ss_cons := CDrain 1 0\<rparr>"
  define s5 where "s5 = s4\<lparr>ss_cons := CDrain 1 (Suc 0), ss_got := [5]\<rparr>"
  note d = s1_def s2_def s3_def s4_def s5_def sp_start_def spsc_new_def slot_of_def
  have "sp_step ?s0 s1" unfolding s1_def by (rule push_check) (simp_all add: d)
  moreover have "sp_step s1 s2" using push_write [of s1 5] by (simp add: d)
  moreover have "sp_step s2 s3" using push_publish [of s2 5] by (simp add: d)
  moreover have "sp_step s3 s4" using drain_claim [of s3 1 5] by (simp add: d)
  moreover have "sp_step s4 s5" using drain_item [of s4 1 0] by (simp add: d)
  ultimately have r: "sp_step\<^sup>*\<^sup>* ?s0 s5" by (meson converse_rtranclp_into_rtranclp rtranclp.rtrancl_refl)
  have "pow2 2" by (simp add: pow2_def) (rule exI [of _ 1], simp)
  from spsc_interleaved_fifo [OF this r] r show ?thesis by (intro exI [of _ s5]) (simp add: d)
qed

section \<open>Many producers, single consumer\<close>

record 'a mpsc =
  mp_cap :: nat
  mp_seq :: "nat \<Rightarrow> nat"
  mp_data :: "nat \<Rightarrow> 'a"
  mp_enq :: nat
  mp_deq :: nat

text \<open>
  Positions are natural numbers: the description covers runs of fewer than \<open>2 ^ 63\<close> pushes, in which
  the signed differences of the code are those of the numbers.
\<close>

definition mpsc_new :: "nat \<Rightarrow> 'a \<Rightarrow> 'a mpsc" where
  "mpsc_new cap x = \<lparr>mp_cap = cap, mp_seq = (\<lambda>i. i), mp_data = (\<lambda>_. x), mp_enq = 0, mp_deq = 0\<rparr>"

text \<open>An uncontended push: the claim succeeds at once.\<close>

definition mpsc_push :: "'a \<Rightarrow> 'a mpsc \<Rightarrow> bool \<times> 'a mpsc" where
  "mpsc_push v r =
     (let pos = mp_enq r; c = pos mod mp_cap r
      in if mp_seq r c = pos
         then (True, r\<lparr>mp_enq := pos + 1, mp_data := (mp_data r)(c := v), mp_seq := (mp_seq r)(c := pos + 1)\<rparr>)
         else (False, r))"

definition mpsc_push_bulk :: "'a list \<Rightarrow> 'a mpsc \<Rightarrow> nat \<times> 'a mpsc" where
  "mpsc_push_bulk = push_list mpsc_push"

definition mpsc_pop :: "'a mpsc \<Rightarrow> 'a option \<times> 'a mpsc" where
  "mpsc_pop r =
     (let pos = mp_deq r; c = pos mod mp_cap r
      in if mp_seq r c \<noteq> pos + 1 then (None, r)
         else (Some (mp_data r c), r\<lparr>mp_deq := pos + 1, mp_seq := (mp_seq r)(c := pos + mp_cap r)\<rparr>))"

definition mpsc_empty :: "'a mpsc \<Rightarrow> bool" where
  "mpsc_empty r \<longleftrightarrow> mp_seq r (mp_deq r mod mp_cap r) \<noteq> mp_deq r + 1"

primrec mpsc_drain :: "nat \<Rightarrow> 'a mpsc \<Rightarrow> 'a list \<times> 'a mpsc" where
  "mpsc_drain 0 r = ([], r)"
| "mpsc_drain (Suc n) r = (case mpsc_pop r of (None, r') \<Rightarrow> ([], r') | (Some v, r') \<Rightarrow> apfst (Cons v) (mpsc_drain n r'))"

definition mpsc_items :: "'a mpsc \<Rightarrow> 'a list" where
  "mpsc_items r = map (\<lambda>p. mp_data r (p mod mp_cap r)) [mp_deq r..<mp_enq r]"

definition mpsc_inv :: "'a mpsc \<Rightarrow> bool" where
  "mpsc_inv r \<longleftrightarrow> 2 \<le> mp_cap r \<and> mp_deq r \<le> mp_enq r \<and> mp_enq r \<le> mp_deq r + mp_cap r \<and>
     (\<forall>p. mp_deq r \<le> p \<and> p < mp_enq r \<longrightarrow> mp_seq r (p mod mp_cap r) = p + 1) \<and>
     (\<forall>p. mp_enq r \<le> p \<and> p < mp_deq r + mp_cap r \<longrightarrow> mp_seq r (p mod mp_cap r) = p)"

lemma mpsc_pop_ok:
  assumes inv: "mpsc_inv r"
  shows "mpsc_items r = [] \<Longrightarrow> mpsc_pop r = (None, r)"
    and "mpsc_items r = v # vs \<Longrightarrow> \<exists>r'. mpsc_pop r = (Some v, r') \<and> mpsc_inv r' \<and> mpsc_items r' = vs \<and> mp_cap r' = mp_cap r"
proof -
  let ?d = "mp_deq r" and ?c = "mp_cap r"
  have c: "0 < ?c" "?d \<le> mp_enq r" "mp_enq r \<le> ?d + ?c" using inv by (auto simp: mpsc_inv_def)
  { assume "mpsc_items r = []"
    then have "mp_enq r = ?d" using c(2) by (auto simp: mpsc_items_def)
    then have "mp_seq r (?d mod ?c) = ?d" using inv c(1) by (simp add: mpsc_inv_def)
    then show "mpsc_pop r = (None, r)" by (simp add: mpsc_pop_def) }
  assume v: "mpsc_items r = v # vs"
  then have lt: "?d < mp_enq r" by (cases "?d < mp_enq r") (simp_all add: mpsc_items_def)
  define r' where "r' = r\<lparr>mp_deq := ?d + 1, mp_seq := (mp_seq r)(?d mod ?c := ?d + ?c)\<rparr>"
  have "mpsc_items r = mp_data r (?d mod ?c) # mpsc_items r'" using lt by (simp add: mpsc_items_def r'_def upt_conv_Cons)
  then have vs: "v = mp_data r (?d mod ?c)" "vs = mpsc_items r'" using v by simp_all
  have "p mod ?c \<noteq> ?d mod ?c" if "?d < p" "p < ?d + ?c" for p using window_inj [of ?d p ?c ?d] that c(1) by auto
  then have "mpsc_inv r'" using inv lt c by (auto simp: mpsc_inv_def r'_def less_Suc_eq_le le_less)
  moreover have "mpsc_pop r = (Some v, r')" using inv lt vs by (simp add: mpsc_pop_def mpsc_inv_def r'_def Let_def)
  ultimately show "\<exists>r'. mpsc_pop r = (Some v, r') \<and> mpsc_inv r' \<and> mpsc_items r' = vs \<and> mp_cap r' = mp_cap r"
    using vs by (auto simp: r'_def)
qed

interpretation mpq: ring_push mpsc_inv mpsc_items mp_cap mpsc_push
proof
  fix r :: "'a mpsc" and v
  let ?d = "mp_deq r" and ?e = "mp_enq r" and ?c = "mp_cap r"
  assume inv: "mpsc_inv r" and room: "length (mpsc_items r) < mp_cap r"
  then have lt: "?e < ?d + ?c" "?d \<le> ?e" by (auto simp: mpsc_inv_def mpsc_items_def)
  define r' where "r' = r\<lparr>mp_enq := ?e + 1, mp_data := (mp_data r)(?e mod ?c := v), mp_seq := (mp_seq r)(?e mod ?c := ?e + 1)\<rparr>"
  have ne: "p mod ?c \<noteq> ?e mod ?c" if "?d \<le> p" "p < ?d + ?c" "p \<noteq> ?e" for p using window_inj [of ?d p ?c ?e] that lt by auto
  then have "mpsc_inv r'" using inv lt by (auto simp: mpsc_inv_def r'_def less_Suc_eq)
  moreover have "mpsc_items r' = mpsc_items r @ [v]" using ne lt by (auto simp: mpsc_items_def r'_def)
  moreover have "mpsc_push v r = (True, r')" using inv lt by (simp add: mpsc_push_def mpsc_inv_def r'_def Let_def)
  ultimately show "\<exists>r'. mpsc_push v r = (True, r') \<and> mpsc_inv r' \<and> mpsc_items r' = mpsc_items r @ [v] \<and> mp_cap r' = mp_cap r"
    by (auto simp: r'_def)
next
  fix r :: "'a mpsc" and v
  let ?d = "mp_deq r" and ?e = "mp_enq r" and ?c = "mp_cap r"
  assume inv: "mpsc_inv r" and full: "\<not> length (mpsc_items r) < mp_cap r"
  then have e: "?e = ?d + ?c" "2 \<le> ?c" by (auto simp: mpsc_inv_def mpsc_items_def)
  then have "mp_seq r (?d mod ?c) = ?d + 1" using inv by (simp add: mpsc_inv_def)
  then show "mpsc_push v r = (False, r)" using inv e by (simp add: mpsc_push_def mpsc_inv_def Let_def)
qed

lemma mpsc_drain_ok:
  "mpsc_inv r \<Longrightarrow> \<exists>r'. mpsc_drain n r = (take n (mpsc_items r), r') \<and> mpsc_inv r' \<and> mpsc_items r' = drop n (mpsc_items r)"
proof (induction n arbitrary: r)
  case (Suc n)
  show ?case
  proof (cases "mpsc_items r")
    case Nil
    then show ?thesis using mpsc_pop_ok(1) [OF Suc.prems] Suc.prems by simp
  next
    case (Cons v vs)
    then obtain r' where "mpsc_pop r = (Some v, r')" "mpsc_inv r'" "mpsc_items r' = vs" using mpsc_pop_ok(2) [OF Suc.prems] by blast
    then show ?thesis using Suc.IH [of r'] Cons by auto
  qed
qed simp

text \<open>
  Used by one thread at a time, the multi-producer ring is a bounded queue when its capacity is at
  least two: a bulk push appends what fits, a drain returns the oldest items in order, and \<open>empty()\<close>
  holds exactly when nothing is queued.
\<close>

theorem mpsc_is_bounded_fifo:
  assumes "mpsc_inv r"
  shows "mpsc_items (snd (mpsc_push_bulk vs r)) = mpsc_items r @ take (mp_cap r - length (mpsc_items r)) vs \<and>
    fst (mpsc_drain n r) = take n (mpsc_items r) \<and> mpsc_items (snd (mpsc_drain n r)) = drop n (mpsc_items r) \<and>
    (mpsc_empty r \<longleftrightarrow> mpsc_items r = [])"
proof -
  have "mpsc_empty r \<longleftrightarrow> mpsc_items r = []"
  proof (cases "mpsc_items r")
    case Nil
    then have "mpsc_pop r = (None, r)" by (rule mpsc_pop_ok(1) [OF assms])
    then show ?thesis using Nil by (simp add: mpsc_empty_def mpsc_pop_def Let_def split: if_splits)
  next
    case (Cons v vs)
    then show ?thesis using mpsc_pop_ok(2) [OF assms Cons] by (auto simp: mpsc_empty_def mpsc_pop_def Let_def split: if_splits)
  qed
  then show ?thesis using mpq.push_list_ok [OF assms, of vs] mpsc_drain_ok [OF assms, of n]
    by (auto simp: mpsc_push_bulk_def)
qed

lemma mpsc_inv_new: "2 \<le> cap \<Longrightarrow> mpsc_inv (mpsc_new cap x)"
  by (simp add: mpsc_inv_def mpsc_new_def)

theorem mpsc_is_bounded_fifo_witness:
  "mpsc_items (snd (mpsc_push_bulk [1, 2, 3 :: nat] (mpsc_new 2 0))) = [1, 2] \<and> mpsc_empty (mpsc_new 2 (0 :: nat))"
proof -
  have "mpsc_items (mpsc_new 2 (0 :: nat)) = []" by (simp add: mpsc_items_def mpsc_new_def)
  moreover have "mp_cap (mpsc_new 2 (0 :: nat)) = 2" by (simp add: mpsc_new_def)
  ultimately show ?thesis using mpsc_is_bounded_fifo [OF mpsc_inv_new [of 2 "0 :: nat"], of "[1, 2, 3]"] by simp
qed

text \<open>
  A multi-producer ring of capacity one, a power of two as the constructor asks, accepts a second
  push while the first item is still queued and overwrites it.
\<close>

theorem mpsc_capacity_one_overwrites:
  "case push_list mpsc_push [a, b] (mpsc_new 1 x) of (n, r) \<Rightarrow> n = 2 \<and> mp_data r 0 = b \<and> mpsc_pop r = (None, r)"
  by (simp add: mpsc_push_def mpsc_new_def mpsc_pop_def Let_def)

subsection \<open>Interleaved producers\<close>

text \<open>
  \<open>push_impl\<close> in its atomic parts, for any number of producers: load the enqueue position, load the
  cell's sequence number, claim the position by compare-and-swap, write the cell, publish the sequence number. The
  consumer takes the position, moves the item out, and releases the cell. \<open>ms_sent\<close> lists the items in
  the order their positions were claimed, \<open>ms_got\<close> those moved out.
\<close>

datatype 'a mp_prod = MIdle | MTry 'a nat | MSeen 'a nat | MClaimed 'a nat | MWritten 'a nat

datatype mp_cons = MCIdle | MCTaken | MCRead

record 'a mp_sys =
  ms_ring :: "'a mpsc"
  ms_prod :: "nat \<Rightarrow> 'a mp_prod"
  ms_cons :: mp_cons
  ms_sent :: "'a list"
  ms_got :: "'a list"

definition set_prod :: "nat \<Rightarrow> 'a mp_prod \<Rightarrow> 'a mp_sys \<Rightarrow> 'a mp_sys" where
  "set_prod i x s = s\<lparr>ms_prod := (ms_prod s)(i := x)\<rparr>"

abbreviation cell :: "'a mpsc \<Rightarrow> nat \<Rightarrow> nat" where
  "cell r p \<equiv> p mod mp_cap r"

inductive mp_step :: "'a mp_sys \<Rightarrow> 'a mp_sys \<Rightarrow> bool" where
  load_pos: "ms_prod s i = MIdle \<Longrightarrow> mp_step s (set_prod i (MTry v (mp_enq (ms_ring s))) s)"
| see_seq: "ms_prod s i = MTry v p \<Longrightarrow> mp_seq (ms_ring s) (cell (ms_ring s) p) = p \<Longrightarrow> mp_step s (set_prod i (MSeen v p) s)"
| see_full: "ms_prod s i = MTry v p \<Longrightarrow> mp_seq (ms_ring s) (cell (ms_ring s) p) < p \<Longrightarrow> mp_step s (set_prod i MIdle s)"
| see_passed: "ms_prod s i = MTry v p \<Longrightarrow> mp_seq (ms_ring s) (cell (ms_ring s) p) > p \<Longrightarrow>
    mp_step s (set_prod i (MTry v (mp_enq (ms_ring s))) s)"
| claim: "ms_prod s i = MSeen v p \<Longrightarrow> mp_enq (ms_ring s) = p \<Longrightarrow>
    mp_step s (set_prod i (MClaimed v p) (s\<lparr>ms_ring := (ms_ring s)\<lparr>mp_enq := p + 1\<rparr>, ms_sent := ms_sent s @ [v]\<rparr>))"
| claim_lost: "ms_prod s i = MSeen v p \<Longrightarrow> mp_step s (set_prod i (MTry v (mp_enq (ms_ring s))) s)"
| write_cell: "ms_prod s i = MClaimed v p \<Longrightarrow>
    mp_step s (set_prod i (MWritten v p) (s\<lparr>ms_ring := (ms_ring s)\<lparr>mp_data := (mp_data (ms_ring s))(cell (ms_ring s) p := v)\<rparr>\<rparr>))"
| publish_seq: "ms_prod s i = MWritten v p \<Longrightarrow>
    mp_step s (set_prod i MIdle (s\<lparr>ms_ring := (ms_ring s)\<lparr>mp_seq := (mp_seq (ms_ring s))(cell (ms_ring s) p := p + 1)\<rparr>\<rparr>))"
| take_pos: "ms_cons s = MCIdle \<Longrightarrow> mp_seq (ms_ring s) (cell (ms_ring s) (mp_deq (ms_ring s))) = mp_deq (ms_ring s) + 1 \<Longrightarrow>
    mp_step s (s\<lparr>ms_ring := (ms_ring s)\<lparr>mp_deq := mp_deq (ms_ring s) + 1\<rparr>, ms_cons := MCTaken\<rparr>)"
| move_out: "ms_cons s = MCTaken \<Longrightarrow>
    mp_step s (s\<lparr>ms_got := ms_got s @ [mp_data (ms_ring s) (cell (ms_ring s) (mp_deq (ms_ring s) - 1))], ms_cons := MCRead\<rparr>)"
| release_cell: "ms_cons s = MCRead \<Longrightarrow>
    mp_step s (s\<lparr>ms_ring := (ms_ring s)\<lparr>mp_seq := (mp_seq (ms_ring s))
      (cell (ms_ring s) (mp_deq (ms_ring s) - 1) := mp_deq (ms_ring s) - 1 + mp_cap (ms_ring s))\<rparr>, ms_cons := MCIdle\<rparr>)"

definition mp_start :: "nat \<Rightarrow> 'a \<Rightarrow> 'a mp_sys" where
  "mp_start cap x = \<lparr>ms_ring = mpsc_new cap x, ms_prod = (\<lambda>_. MIdle), ms_cons = MCIdle, ms_sent = [], ms_got = []\<rparr>"

text \<open>The first position whose cell is not released yet.\<close>

definition oldest :: "'a mp_sys \<Rightarrow> nat" where
  "oldest s = (if ms_cons s = MCIdle then mp_deq (ms_ring s) else mp_deq (ms_ring s) - 1)"

definition holds :: "'a mp_prod \<Rightarrow> nat \<Rightarrow> bool" where
  "holds x p \<longleftrightarrow> (\<exists>v. x = MClaimed v p \<or> x = MWritten v p)"

definition mp_counts :: "'a mp_sys \<Rightarrow> bool" where
  "mp_counts s \<longleftrightarrow> (let r = ms_ring s in 2 \<le> mp_cap r \<and> length (ms_sent s) = mp_enq r \<and> mp_deq r \<le> mp_enq r \<and>
     mp_enq r \<le> oldest s + mp_cap r \<and> (ms_cons s \<noteq> MCIdle \<longrightarrow> 0 < mp_deq r) \<and>
     ms_got s = take (if ms_cons s = MCTaken then mp_deq r - 1 else mp_deq r) (ms_sent s))"

definition mp_cells :: "'a mp_sys \<Rightarrow> bool" where
  "mp_cells s \<longleftrightarrow> (let r = ms_ring s in
     (\<forall>p. mp_deq r \<le> p \<and> p < mp_enq r \<longrightarrow>
        mp_seq r (cell r p) = p + 1 \<and> mp_data r (cell r p) = ms_sent s ! p \<or> mp_seq r (cell r p) = p \<and> (\<exists>i. holds (ms_prod s i) p)) \<and>
     (\<forall>p. mp_enq r \<le> p \<and> p < oldest s + mp_cap r \<longrightarrow> mp_seq r (cell r p) = p) \<and>
     (ms_cons s \<noteq> MCIdle \<longrightarrow> mp_seq r (cell r (oldest s)) = oldest s + 1) \<and>
     (ms_cons s = MCTaken \<longrightarrow> mp_data r (cell r (oldest s)) = ms_sent s ! oldest s))"

definition mine :: "'a mp_sys \<Rightarrow> 'a \<Rightarrow> nat \<Rightarrow> bool" where
  "mine s v p \<longleftrightarrow> mp_deq (ms_ring s) \<le> p \<and> p < mp_enq (ms_ring s) \<and> mp_seq (ms_ring s) (cell (ms_ring s) p) = p \<and> ms_sent s ! p = v"

fun prod_ok :: "'a mp_sys \<Rightarrow> 'a mp_prod \<Rightarrow> bool" where
  "prod_ok s MIdle \<longleftrightarrow> True"
| "prod_ok s (MTry v p) \<longleftrightarrow> p \<le> mp_enq (ms_ring s)"
| "prod_ok s (MSeen v p) \<longleftrightarrow> p \<le> mp_enq (ms_ring s) \<and> (p = mp_enq (ms_ring s) \<longrightarrow> mp_seq (ms_ring s) (cell (ms_ring s) p) = p)"
| "prod_ok s (MClaimed v p) \<longleftrightarrow> mine s v p"
| "prod_ok s (MWritten v p) \<longleftrightarrow> mine s v p \<and> mp_data (ms_ring s) (cell (ms_ring s) p) = v"

definition mp_prods :: "'a mp_sys \<Rightarrow> bool" where
  "mp_prods s \<longleftrightarrow> (\<forall>i. prod_ok s (ms_prod s i)) \<and> (\<forall>i j p. holds (ms_prod s i) p \<longrightarrow> holds (ms_prod s j) p \<longrightarrow> i = j)"

definition mp_ok :: "'a mp_sys \<Rightarrow> bool" where
  "mp_ok s \<longleftrightarrow> mp_counts s \<and> mp_cells s \<and> mp_prods s"

lemma mp_ok_start: "2 \<le> cap \<Longrightarrow> mp_ok (mp_start cap x)"
  by (simp add: mp_ok_def mp_counts_def mp_cells_def mp_prods_def mp_start_def mpsc_new_def oldest_def holds_def Let_def)

lemma holds_simps [simp]: "\<not> holds MIdle p" "\<not> holds (MTry v q) p" "\<not> holds (MSeen v q) p"
  "holds (MClaimed v q) p \<longleftrightarrow> p = q" "holds (MWritten v q) p \<longleftrightarrow> p = q"
  by (auto simp: holds_def)

lemma mp_window:
  assumes "mp_ok s" "oldest s \<le> p" "p < oldest s + mp_cap (ms_ring s)" "oldest s \<le> q" "q < oldest s + mp_cap (ms_ring s)" "p \<noteq> q"
  shows "cell (ms_ring s) p \<noteq> cell (ms_ring s) q"
  using window_inj [of "oldest s" p "mp_cap (ms_ring s)" q] assms by auto

lemma oldest_le: "oldest s \<le> mp_deq (ms_ring s)" "mp_deq (ms_ring s) \<le> Suc (oldest s)"
  by (auto simp: oldest_def)

text \<open>A free cell at the enqueue position means that there is room.\<close>

lemma mp_room:
  assumes ok: "mp_ok s" and seq: "mp_seq (ms_ring s) (cell (ms_ring s) (mp_enq (ms_ring s))) = mp_enq (ms_ring s)"
  shows "mp_enq (ms_ring s) < oldest s + mp_cap (ms_ring s)"
proof (rule ccontr)
  let ?r = "ms_ring s"
  assume "\<not> ?thesis"
  then have e: "mp_enq ?r = oldest s + mp_cap ?r" "2 \<le> mp_cap ?r" using ok by (auto simp: mp_ok_def mp_counts_def Let_def)
  then have c: "cell ?r (mp_enq ?r) = cell ?r (oldest s)" by simp
  have "mp_seq ?r (cell ?r (oldest s)) = oldest s \<or> mp_seq ?r (cell ?r (oldest s)) = oldest s + 1"
  proof (cases "ms_cons s = MCIdle")
    case True
    then have "mp_deq ?r \<le> oldest s" "oldest s < mp_enq ?r" using e by (auto simp: oldest_def)
    then show ?thesis using ok by (auto simp: mp_ok_def mp_cells_def Let_def)
  qed (use ok in \<open>simp add: mp_ok_def mp_cells_def Let_def\<close>)
  then show False using seq c e by auto
qed

lemma mp_okD:
  assumes "mp_ok s"
  shows "2 \<le> mp_cap (ms_ring s)" "length (ms_sent s) = mp_enq (ms_ring s)" "mp_deq (ms_ring s) \<le> mp_enq (ms_ring s)"
    "mp_enq (ms_ring s) \<le> oldest s + mp_cap (ms_ring s)" "prod_ok s (ms_prod s i)"
    "holds (ms_prod s i) p \<Longrightarrow> mp_deq (ms_ring s) \<le> p \<and> p < mp_enq (ms_ring s) \<and> mp_seq (ms_ring s) (cell (ms_ring s) p) = p"
    "holds (ms_prod s i) p \<Longrightarrow> holds (ms_prod s j) p \<Longrightarrow> i = j"
proof -
  have P: "mp_prods s" using assms by (simp add: mp_ok_def)
  show "2 \<le> mp_cap (ms_ring s)" "length (ms_sent s) = mp_enq (ms_ring s)" "mp_deq (ms_ring s) \<le> mp_enq (ms_ring s)"
    "mp_enq (ms_ring s) \<le> oldest s + mp_cap (ms_ring s)" using assms by (simp_all add: mp_ok_def mp_counts_def Let_def)
  show p: "prod_ok s (ms_prod s i)" for i using P by (simp add: mp_prods_def)
  show "holds (ms_prod s i) p \<Longrightarrow> mp_deq (ms_ring s) \<le> p \<and> p < mp_enq (ms_ring s) \<and> mp_seq (ms_ring s) (cell (ms_ring s) p) = p"
    using p [of i] by (cases "ms_prod s i") (auto simp: mine_def)
  show "holds (ms_prod s i) p \<Longrightarrow> holds (ms_prod s j) p \<Longrightarrow> i = j" using P unfolding mp_prods_def by blast
qed

text \<open>What each cell holds.\<close>

lemma mp_cellsD:
  assumes "mp_ok s"
  shows "mp_deq (ms_ring s) \<le> p \<Longrightarrow> p < mp_enq (ms_ring s) \<Longrightarrow>
       mp_seq (ms_ring s) (cell (ms_ring s) p) = p + 1 \<and> mp_data (ms_ring s) (cell (ms_ring s) p) = ms_sent s ! p \<or>
       mp_seq (ms_ring s) (cell (ms_ring s) p) = p \<and> (\<exists>i. holds (ms_prod s i) p)"
    "mp_enq (ms_ring s) \<le> p \<Longrightarrow> p < oldest s + mp_cap (ms_ring s) \<Longrightarrow> mp_seq (ms_ring s) (cell (ms_ring s) p) = p"
    "ms_cons s \<noteq> MCIdle \<Longrightarrow> mp_seq (ms_ring s) (cell (ms_ring s) (oldest s)) = oldest s + 1"
    "ms_cons s = MCTaken \<Longrightarrow> mp_data (ms_ring s) (cell (ms_ring s) (oldest s)) = ms_sent s ! oldest s"
  using assms unfolding mp_ok_def mp_cells_def Let_def by blast+

lemma mp_cellsI:
  assumes "\<And>p. mp_deq (ms_ring s) \<le> p \<Longrightarrow> p < mp_enq (ms_ring s) \<Longrightarrow>
       mp_seq (ms_ring s) (cell (ms_ring s) p) = p + 1 \<and> mp_data (ms_ring s) (cell (ms_ring s) p) = ms_sent s ! p \<or>
       mp_seq (ms_ring s) (cell (ms_ring s) p) = p \<and> (\<exists>i. holds (ms_prod s i) p)"
    "\<And>p. mp_enq (ms_ring s) \<le> p \<Longrightarrow> p < oldest s + mp_cap (ms_ring s) \<Longrightarrow> mp_seq (ms_ring s) (cell (ms_ring s) p) = p"
    "ms_cons s \<noteq> MCIdle \<Longrightarrow> mp_seq (ms_ring s) (cell (ms_ring s) (oldest s)) = oldest s + 1"
    "ms_cons s = MCTaken \<Longrightarrow> mp_data (ms_ring s) (cell (ms_ring s) (oldest s)) = ms_sent s ! oldest s"
  shows "mp_cells s"
  unfolding mp_cells_def Let_def using assms by blast

text \<open>Producer \<open>i\<close> moves; the others keep their claims.\<close>

lemma mp_prodsI:
  assumes ok: "mp_ok s" and i: "ms_prod t = (ms_prod s)(i := x)" and x: "prod_ok t x"
    and others: "\<And>j. j \<noteq> i \<Longrightarrow> prod_ok s (ms_prod s j) \<Longrightarrow> prod_ok t (ms_prod s j)"
    and own: "\<And>p j. holds x p \<Longrightarrow> j \<noteq> i \<Longrightarrow> \<not> holds (ms_prod s j) p"
  shows "mp_prods t"
  using mp_okD(5,7) [OF ok] x others own unfolding mp_prods_def i by (auto simp: fun_upd_def split: if_splits)

lemma quiet_ok:
  assumes ok: "mp_ok s" and old: "\<And>p. \<not> holds (ms_prod s i) p" and new: "\<And>p. \<not> holds x p" and x: "prod_ok s x"
  shows "mp_ok (set_prod i x s)"
proof -
  have h: "holds (ms_prod (set_prod i x s) j) p \<longleftrightarrow> holds (ms_prod s j) p" for j p using old new by (simp add: set_prod_def)
  have o: "oldest (set_prod i x s) = oldest s" by (simp add: oldest_def set_prod_def)
  have same: "prod_ok (set_prod i x s) y = prod_ok s y" for y by (cases y) (simp_all add: set_prod_def mine_def)
  have "mp_counts (set_prod i x s)" using ok unfolding mp_ok_def mp_counts_def Let_def o by (simp add: set_prod_def)
  moreover have "mp_cells (set_prod i x s)" using ok unfolding mp_ok_def mp_cells_def Let_def o h by (simp add: set_prod_def)
  moreover have "mp_prods (set_prod i x s)"
    by (rule mp_prodsI [OF ok, of _ i x]) (use x new same in \<open>simp_all add: set_prod_def\<close>)
  ultimately show ?thesis by (simp add: mp_ok_def)
qed

lemma claim_ok:
  assumes ok: "mp_ok s" and i: "ms_prod s i = MSeen v p" and e: "mp_enq (ms_ring s) = p"
  shows "mp_ok (set_prod i (MClaimed v p) (s\<lparr>ms_ring := (ms_ring s)\<lparr>mp_enq := p + 1\<rparr>, ms_sent := ms_sent s @ [v]\<rparr>))"
    (is "mp_ok ?t")
proof -
  let ?r = "ms_ring s"
  have seq: "mp_seq ?r (cell ?r p) = p" using mp_okD(5) [OF ok, of i] i e by simp
  have room: "p < oldest s + mp_cap ?r" using mp_room [OF ok] seq e by simp
  have o: "oldest ?t = oldest s" by (simp add: oldest_def set_prod_def)
  have ex: "j \<noteq> i" if "holds (ms_prod s j) q" for j q using that i by auto
  have len: "length (ms_sent s) = p" using mp_okD(2) [OF ok] e by simp
  have "mp_counts ?t" using ok room e unfolding mp_ok_def mp_counts_def Let_def o by (simp add: set_prod_def)
  moreover have "mp_cells ?t"
  proof (rule mp_cellsI, goal_cases)
    case (1 q)
    show ?case
    proof (cases "q = p")
      case False
      then have "mp_deq ?r \<le> q" "q < mp_enq ?r" using 1 e by (simp_all add: set_prod_def)
      from mp_cellsD(1) [OF ok this] ex [of _ q] this len e show ?thesis by (auto simp: set_prod_def nth_append)
    qed (use seq in \<open>auto simp: set_prod_def\<close>)
  next
    case (2 q)
    then show ?case using mp_cellsD(2) [OF ok, of q] e unfolding o by (simp add: set_prod_def)
  next
    case 3
    then show ?case using mp_cellsD(3) [OF ok] unfolding o by (simp add: set_prod_def)
  next
    case 4
    then have "oldest s < p" using ok e by (auto simp: set_prod_def mp_ok_def mp_counts_def oldest_def Let_def)
    then show ?case using mp_cellsD(4) [OF ok] 4 len unfolding o by (simp add: set_prod_def nth_append)
  qed
  moreover have "mp_prods ?t"
  proof (rule mp_prodsI [OF ok, of _ i "MClaimed v p"])
    show "prod_ok ?t (ms_prod s j)" if "prod_ok s (ms_prod s j)" for j
      using that len e by (cases "ms_prod s j") (auto simp: set_prod_def mine_def nth_append)
    show "\<not> holds (ms_prod s j) q" if "holds (MClaimed v p) q" for q j using that mp_okD(6) [OF ok, of j q] e by auto
  qed (use seq len e mp_okD(3) [OF ok] in \<open>simp_all add: set_prod_def mine_def nth_append\<close>)
  ultimately show ?thesis by (simp add: mp_ok_def)
qed

text \<open>Cells of other positions in the window.\<close>

lemma held_cells:
  assumes ok: "mp_ok s" and p: "holds (ms_prod s i) p"
  shows "mp_deq (ms_ring s) \<le> q \<Longrightarrow> q < mp_enq (ms_ring s) \<Longrightarrow> q \<noteq> p \<Longrightarrow> cell (ms_ring s) q \<noteq> cell (ms_ring s) p"
    "mp_enq (ms_ring s) \<le> q \<Longrightarrow> q < oldest s + mp_cap (ms_ring s) \<Longrightarrow> cell (ms_ring s) q \<noteq> cell (ms_ring s) p"
    "ms_cons s \<noteq> MCIdle \<Longrightarrow> cell (ms_ring s) (oldest s) \<noteq> cell (ms_ring s) p"
proof -
  have b: "mp_deq (ms_ring s) \<le> p" "p < mp_enq (ms_ring s)" "mp_enq (ms_ring s) \<le> oldest s + mp_cap (ms_ring s)"
    "oldest s \<le> mp_deq (ms_ring s)" "2 \<le> mp_cap (ms_ring s)"
    using mp_okD(1,4,6) [OF ok] p oldest_le(1) [of s] by auto
  show "mp_deq (ms_ring s) \<le> q \<Longrightarrow> q < mp_enq (ms_ring s) \<Longrightarrow> q \<noteq> p \<Longrightarrow> cell (ms_ring s) q \<noteq> cell (ms_ring s) p"
    "mp_enq (ms_ring s) \<le> q \<Longrightarrow> q < oldest s + mp_cap (ms_ring s) \<Longrightarrow> cell (ms_ring s) q \<noteq> cell (ms_ring s) p"
    using mp_window [OF ok, of q p] b by auto
  assume "ms_cons s \<noteq> MCIdle"
  then have "oldest s < mp_deq (ms_ring s)" using ok by (auto simp: oldest_def mp_ok_def mp_counts_def Let_def)
  then show "cell (ms_ring s) (oldest s) \<noteq> cell (ms_ring s) p" using mp_window [OF ok, of "oldest s" p] b by auto
qed

lemma write_ok:
  assumes ok: "mp_ok s" and i: "ms_prod s i = MClaimed v p"
  shows "mp_ok (set_prod i (MWritten v p) (s\<lparr>ms_ring := (ms_ring s)\<lparr>mp_data := (mp_data (ms_ring s))(cell (ms_ring s) p := v)\<rparr>\<rparr>))"
    (is "mp_ok ?t")
proof -
  let ?r = "ms_ring s"
  have p: "holds (ms_prod s i) p" "mine s v p" using i mp_okD(5) [OF ok, of i] by simp_all
  note H = held_cells [OF ok p(1)]
  have o: "oldest ?t = oldest s" by (simp add: oldest_def set_prod_def)
  have h: "holds (ms_prod ?t j) q \<longleftrightarrow> holds (ms_prod s j) q" for j q using i by (simp add: set_prod_def)
  have "mp_counts ?t" using ok unfolding mp_ok_def mp_counts_def Let_def o by (simp add: set_prod_def)
  moreover have "mp_cells ?t"
  proof (rule mp_cellsI, goal_cases)
    case (1 q)
    then show ?case unfolding h using mp_cellsD(1) [OF ok, of q] H(1) [of q] p(2) by (cases "q = p") (auto simp: set_prod_def mine_def)
  next
    case 4
    then show ?case using mp_cellsD(4) [OF ok] H(3) unfolding o by (simp add: set_prod_def)
  next
    case (2 q)
    then show ?case using mp_cellsD(2) [OF ok, of q] unfolding o by (simp add: set_prod_def)
  next
    case 3
    then show ?case using mp_cellsD(3) [OF ok] unfolding o by (simp add: set_prod_def)
  qed
  moreover have "mp_prods ?t"
  proof (rule mp_prodsI [OF ok, of _ i "MWritten v p"])
    show "prod_ok ?t (ms_prod s j)" if "j \<noteq> i" "prod_ok s (ms_prod s j)" for j
    proof -
      have "q \<noteq> p" if "holds (ms_prod s j) q" for q using mp_okD(7) [OF ok p(1), of j] that \<open>j \<noteq> i\<close> by auto
      then show ?thesis using that H(1) by (cases "ms_prod s j") (auto simp: set_prod_def mine_def)
    qed
    show "\<not> holds (ms_prod s j) q" if "holds (MWritten v p) q" "j \<noteq> i" for q j using that mp_okD(7) [OF ok p(1), of j] by auto
  qed (use p in \<open>simp_all add: set_prod_def mine_def\<close>)
  ultimately show ?thesis by (simp add: mp_ok_def)
qed

lemma publish_ok:
  assumes ok: "mp_ok s" and i: "ms_prod s i = MWritten v p"
  shows "mp_ok (set_prod i MIdle (s\<lparr>ms_ring := (ms_ring s)\<lparr>mp_seq := (mp_seq (ms_ring s))(cell (ms_ring s) p := p + 1)\<rparr>\<rparr>))"
    (is "mp_ok ?t")
proof -
  let ?r = "ms_ring s"
  have p: "holds (ms_prod s i) p" "mine s v p" "mp_data ?r (cell ?r p) = v" using i mp_okD(5) [OF ok, of i] by simp_all
  note H = held_cells [OF ok p(1)]
  have o: "oldest ?t = oldest s" by (simp add: oldest_def set_prod_def)
  have ex: "j \<noteq> i" if "holds (ms_prod s j) q" "q \<noteq> p" for j q using that i by auto
  have "mp_counts ?t" using ok unfolding mp_ok_def mp_counts_def Let_def o by (simp add: set_prod_def)
  moreover have "mp_cells ?t"
  proof (rule mp_cellsI, goal_cases)
    case (1 q)
    then show ?case using mp_cellsD(1) [OF ok, of q] H(1) [of q] p(2,3) ex [of _ q] by (cases "q = p") (auto simp: set_prod_def mine_def)
  next
    case (2 q)
    then show ?case using mp_cellsD(2) [OF ok, of q] H(2) [of q] unfolding o by (simp add: set_prod_def)
  next
    case 3
    then show ?case using mp_cellsD(3) [OF ok] H(3) unfolding o by (simp add: set_prod_def)
  next
    case 4
    then show ?case using mp_cellsD(4) [OF ok] unfolding o by (simp add: set_prod_def)
  qed
  moreover have "mp_prods ?t"
  proof (rule mp_prodsI [OF ok, of _ i MIdle])
    show "prod_ok ?t (ms_prod s j)" if "j \<noteq> i" "prod_ok s (ms_prod s j)" for j
    proof -
      have "q \<noteq> p" if "holds (ms_prod s j) q" for q using mp_okD(7) [OF ok p(1), of j] that \<open>j \<noteq> i\<close> by auto
      moreover have "cell ?r (mp_enq ?r) \<noteq> cell ?r p" if "mp_seq ?r (cell ?r (mp_enq ?r)) = mp_enq ?r"
        using H(2) mp_room [OF ok that] by simp
      ultimately show ?thesis using that H(1) by (cases "ms_prod s j") (auto simp: set_prod_def mine_def)
    qed
  qed (simp_all add: set_prod_def)
  ultimately show ?thesis by (simp add: mp_ok_def)
qed

lemma take_ok:
  assumes ok: "mp_ok s" and c: "ms_cons s = MCIdle" and seq: "mp_seq (ms_ring s) (cell (ms_ring s) (mp_deq (ms_ring s))) = mp_deq (ms_ring s) + 1"
  shows "mp_ok (s\<lparr>ms_ring := (ms_ring s)\<lparr>mp_deq := mp_deq (ms_ring s) + 1\<rparr>, ms_cons := MCTaken\<rparr>)" (is "mp_ok ?t")
proof -
  let ?r = "ms_ring s" and ?d = "mp_deq (ms_ring s)"
  have o: "oldest ?t = ?d" "oldest s = ?d" using c by (simp_all add: oldest_def)
  have "\<not> mp_enq ?r \<le> ?d" using mp_cellsD(2) [OF ok, of ?d] seq mp_okD(1) [OF ok] o by auto
  then have lt: "?d < mp_enq ?r" by simp
  have d: "mp_data ?r (cell ?r ?d) = ms_sent s ! ?d" using mp_cellsD(1) [OF ok, of ?d] lt seq by auto
  have nd: "Suc ?d \<le> p" if "holds (ms_prod s j) p" for j p
  proof -
    have "?d \<le> p" "mp_seq ?r (cell ?r p) = p" using mp_okD(6) [OF ok that] by simp_all
    then show ?thesis using seq by (cases "p = ?d") auto
  qed
  have "mp_counts ?t" using ok c lt unfolding mp_ok_def mp_counts_def Let_def o by simp
  moreover have "mp_cells ?t"
    by (rule mp_cellsI) (use mp_cellsD(1,2) [OF ok] seq d c in \<open>simp_all add: oldest_def\<close>)
  moreover have "prod_ok ?t (ms_prod s j)" for j
    using mp_okD(5) [OF ok, of j] nd [of j] by (cases "ms_prod s j") (auto simp: mine_def)
  then have "mp_prods ?t" using ok by (simp add: mp_ok_def mp_prods_def)
  ultimately show ?thesis by (simp add: mp_ok_def)
qed

lemma move_ok:
  assumes ok: "mp_ok s" and c: "ms_cons s = MCTaken"
  shows "mp_ok (s\<lparr>ms_got := ms_got s @ [mp_data (ms_ring s) (cell (ms_ring s) (mp_deq (ms_ring s) - 1))], ms_cons := MCRead\<rparr>)" (is "mp_ok ?t")
proof -
  let ?r = "ms_ring s" and ?d = "mp_deq (ms_ring s)"
  have o: "oldest ?t = ?d - 1" "oldest s = ?d - 1" using c by (simp_all add: oldest_def)
  have d: "0 < ?d" "ms_got s = take (?d - 1) (ms_sent s)" "?d \<le> length (ms_sent s)"
    using ok c by (simp_all add: mp_ok_def mp_counts_def Let_def)
  have "mp_data ?r (cell ?r (?d - 1)) = ms_sent s ! (?d - 1)" using mp_cellsD(4) [OF ok c] o by simp
  then have "ms_got s @ [mp_data ?r (cell ?r (?d - 1))] = take ?d (ms_sent s)"
    using d take_Suc_conv_app_nth [of "?d - 1" "ms_sent s"] by simp
  then have "mp_counts ?t" using ok c d unfolding mp_ok_def mp_counts_def Let_def o by simp
  moreover have "mp_cells ?t"
    by (rule mp_cellsI) (use mp_cellsD(1-3) [OF ok] c in \<open>simp_all add: oldest_def\<close>)
  moreover have "prod_ok ?t y = prod_ok s y" for y by (cases y) (simp_all add: mine_def)
  then have "mp_prods ?t" using ok by (simp add: mp_ok_def mp_prods_def)
  ultimately show ?thesis by (simp add: mp_ok_def)
qed

lemma release_ok:
  assumes ok: "mp_ok s" and c: "ms_cons s = MCRead"
  shows "mp_ok (s\<lparr>ms_ring := (ms_ring s)\<lparr>mp_seq := (mp_seq (ms_ring s))
      (cell (ms_ring s) (mp_deq (ms_ring s) - 1) := mp_deq (ms_ring s) - 1 + mp_cap (ms_ring s))\<rparr>, ms_cons := MCIdle\<rparr>)" (is "mp_ok ?t")
proof -
  let ?r = "ms_ring s" and ?d = "mp_deq (ms_ring s)" and ?o = "oldest s"
  have d: "0 < ?d" "?o = ?d - 1" "oldest ?t = ?d" "?d \<le> mp_enq ?r" "mp_enq ?r \<le> ?o + mp_cap ?r"
    using ok c by (auto simp: mp_ok_def mp_counts_def oldest_def Let_def)
  have ne: "cell ?r q \<noteq> cell ?r ?o" if "?d \<le> q" "q < ?o + mp_cap ?r" for q
    using mp_window [OF ok, of q ?o] that d(1,2) by auto
  have "mp_enq ?r \<le> ?d + mp_cap ?r" using d by linarith
  then have "mp_counts ?t" using ok c d unfolding mp_ok_def mp_counts_def Let_def by simp
  moreover have "mp_cells ?t"
  proof (rule mp_cellsI, goal_cases)
    case (1 q)
    then show ?case using mp_cellsD(1) [OF ok, of q] ne [of q] d by auto
  next
    case (2 q)
    show ?case
    proof (cases "q = ?o + mp_cap ?r")
      case False
      then have "q < ?o + mp_cap ?r" "mp_enq ?r \<le> q" using 2 d by auto
      then show ?thesis using mp_cellsD(2) [OF ok, of q] ne [of q] d by auto
    next
      case True
      moreover have "cell ?r (?o + mp_cap ?r) = cell ?r ?o" by simp
      ultimately show ?thesis using d(2) by simp
    qed
  qed (use c in simp_all)
  moreover have "prod_ok ?t (ms_prod s j)" for j
  proof -
    have "cell ?r (mp_enq ?r) \<noteq> cell ?r ?o" if "mp_seq ?r (cell ?r (mp_enq ?r)) = mp_enq ?r"
      using ne [of "mp_enq ?r"] mp_room [OF ok that] d by auto
    then show ?thesis using mp_okD(5) [OF ok, of j] ne d by (cases "ms_prod s j") (auto simp: mine_def)
  qed
  then have "mp_prods ?t" using ok by (simp add: mp_ok_def mp_prods_def)
  ultimately show ?thesis by (simp add: mp_ok_def)
qed

lemma mp_step_ok: "mp_step s t \<Longrightarrow> mp_ok s \<Longrightarrow> mp_ok t"
proof (induction rule: mp_step.induct)
  case (see_seq s i v p)
  then show ?case using mp_okD(5) [OF see_seq.prems, of i] by (intro quiet_ok) auto
next
  case (claim s i v p)
  show ?case by (rule claim_ok [OF claim.prems claim.hyps])
next
  case (publish_seq s i v p)
  show ?case by (rule publish_ok [OF publish_seq.prems publish_seq.hyps])
next
  case (take_pos s)
  show ?case by (rule take_ok [OF take_pos.prems take_pos.hyps])
next
  case (move_out s)
  show ?case by (rule move_ok [OF move_out.prems move_out.hyps])
next
  case (release_cell s)
  show ?case by (rule release_ok [OF release_cell.prems release_cell.hyps])
qed (auto intro: write_ok quiet_ok)

text \<open>
  C9: However many producers interleave, the multi-producer ring delivers every item once and in the
  order in which the positions were claimed: what the consumer has moved out is the beginning of the
  claimed sequence, and no more than a capacity's worth is outstanding.
\<close>

theorem mpsc_interleaved_fifo:
  assumes "2 \<le> cap" and "mp_step\<^sup>*\<^sup>* (mp_start cap x) s"
  shows "prefix (ms_got s) (ms_sent s) \<and> length (ms_sent s) \<le> length (ms_got s) + cap"
proof -
  have inv: "mp_ok s \<and> mp_cap (ms_ring s) = cap" using assms(2)
  proof (induction rule: rtranclp_induct)
    case base
    show ?case using mp_ok_start [OF assms(1)] by (simp add: mp_start_def mpsc_new_def)
  next
    case (step y z)
    from step.hyps(2) have "mp_cap (ms_ring z) = mp_cap (ms_ring y)" by (cases rule: mp_step.cases) (simp_all add: set_prod_def)
    then show ?case using step mp_step_ok by auto
  qed
  then have C: "mp_counts s" by (simp add: mp_ok_def)
  define m where "m = (if ms_cons s = MCTaken then mp_deq (ms_ring s) - 1 else mp_deq (ms_ring s))"
  have "ms_got s = take m (ms_sent s)" "m \<le> length (ms_sent s)" "length (ms_sent s) \<le> oldest s + cap"
    using C inv by (auto simp: mp_counts_def Let_def m_def)
  moreover have "oldest s \<le> m" by (simp add: m_def oldest_def)
  ultimately show ?thesis by (simp add: take_is_prefix)
qed

theorem mpsc_interleaved_fifo_witness:
  "\<exists>s. mp_step\<^sup>*\<^sup>* (mp_start 2 (0 :: nat)) s \<and> ms_sent s = [5] \<and> ms_got s = [5] \<and> prefix (ms_got s) (ms_sent s)"
proof -
  let ?s0 = "mp_start 2 (0 :: nat)"
  define s1 where "s1 = set_prod 1 (MTry 5 0) ?s0"
  define s2 where "s2 = set_prod 1 (MSeen 5 0) s1"
  define s3 where "s3 = set_prod 1 (MClaimed 5 0) (s2\<lparr>ms_ring := (ms_ring s2)\<lparr>mp_enq := 0 + 1\<rparr>, ms_sent := ms_sent s2 @ [5]\<rparr>)"
  define s4 where "s4 = set_prod 1 (MWritten 5 0) (s3\<lparr>ms_ring := (ms_ring s3)\<lparr>mp_data := (mp_data (ms_ring s3))(cell (ms_ring s3) 0 := 5)\<rparr>\<rparr>)"
  define s5 where "s5 = set_prod 1 MIdle (s4\<lparr>ms_ring := (ms_ring s4)\<lparr>mp_seq := (mp_seq (ms_ring s4))(cell (ms_ring s4) 0 := 0 + 1)\<rparr>\<rparr>)"
  define s6 where "s6 = s5\<lparr>ms_ring := (ms_ring s5)\<lparr>mp_deq := mp_deq (ms_ring s5) + 1\<rparr>, ms_cons := MCTaken\<rparr>"
  define s7 where "s7 = s6\<lparr>ms_got := ms_got s6 @ [mp_data (ms_ring s6) (cell (ms_ring s6) (mp_deq (ms_ring s6) - 1))], ms_cons := MCRead\<rparr>"
  note d = s1_def s2_def s3_def s4_def s5_def s6_def s7_def mp_start_def mpsc_new_def set_prod_def
  have "mp_step ?s0 s1" using load_pos [of ?s0 1 5] by (simp add: d)
  moreover have "mp_step s1 s2" unfolding s2_def by (rule see_seq) (simp_all add: d)
  moreover have "mp_step s2 s3" unfolding s3_def by (rule claim) (simp_all add: d)
  moreover have "mp_step s3 s4" unfolding s4_def by (rule write_cell) (simp add: d)
  moreover have "mp_step s4 s5" unfolding s5_def by (rule publish_seq) (simp add: d)
  moreover have "mp_step s5 s6" unfolding s6_def by (rule take_pos) (simp_all add: d)
  moreover have "mp_step s6 s7" unfolding s7_def by (rule move_out) (simp add: d)
  ultimately have r: "mp_step\<^sup>*\<^sup>* ?s0 s7" by (meson converse_rtranclp_into_rtranclp rtranclp.rtrancl_refl)
  from mpsc_interleaved_fifo [OF _ r] r show ?thesis by (intro exI [of _ s7]) (simp add: d)
qed

end
