(* ===== verification/Mailbox.thy ===== *)
theory Mailbox
  imports Work_Context Itc_Rings Backend_Api
begin

text \<open>
  Posting work to an event manager: \<^verbatim>\<open>include/afx/itc/mailbox.hpp\<close> and the posting side of
  \<^verbatim>\<open>include/afx/core/event_manager.hpp\<close>. The ring is the bounded queue that theory \<open>Itc_Rings\<close> shows it to
  be. A task is an optional number; \<open>None\<close> is an empty \<open>Task\<close>, which is also what a move leaves
  behind. The second part is the arm/block protocol between posting threads and a loop about to
  sleep, with the store buffers that make its fences necessary.
\<close>

section \<open>Posting\<close>

datatype overflow_policy = OvFail | OvSpinRetry | OvAbort

datatype mb_result = MbOk | MbFull | MbClosed

record mb_item =
  mi_fn :: "nat option"
  mi_ctx :: context_t

record mailbox =
  mb_ring :: "mb_item list"
  mb_cap :: nat
  mb_blocked :: bool
  mb_dead :: bool
  mb_overflow :: overflow_policy
  mb_pushes :: u64
  mb_full :: u64
  mb_wakes :: nat

definition mb_try_push :: "mb_item \<Rightarrow> mailbox \<Rightarrow> bool \<times> mailbox" where
  "mb_try_push it m = (if length (mb_ring m) < mb_cap m then (True, m\<lparr>mb_ring := mb_ring m @ [it]\<rparr>) else (False, m))"

text \<open>Whichever of the two wake paths is taken, the consumer's backend is woken once.\<close>

definition after_push :: "mailbox \<Rightarrow> mailbox" where
  "after_push m = (if mb_blocked m then m\<lparr>mb_wakes := mb_wakes m + 1\<rparr> else m)"

text \<open>
  \<open>push_one\<close>; \<open>env\<close> is what other threads do to the mailbox before each retry. \<open>None\<close>: still retrying
  when \<open>env\<close> ends, or aborted.
\<close>

fun push_one :: "(mailbox \<Rightarrow> mailbox) list \<Rightarrow> mb_item \<Rightarrow> mailbox \<Rightarrow> (mb_result \<times> mailbox) option" where
  "push_one env it m =
     (case mb_try_push it m of
        (True, m1) \<Rightarrow> Some (MbOk, after_push (m1\<lparr>mb_pushes := mb_pushes m1 + 1\<rparr>))
      | (False, m1) \<Rightarrow>
          (let m2 = m1\<lparr>mb_full := mb_full m1 + 1\<rparr>
           in case mb_overflow m2 of
                OvFail \<Rightarrow> Some (MbFull, m2)
              | OvAbort \<Rightarrow> None
              | OvSpinRetry \<Rightarrow>
                  if mb_dead m2 then Some (MbClosed, m2)
                  else case env of [] \<Rightarrow> None | e # es \<Rightarrow> push_one es it (e m2)))"

declare push_one.simps [simp del]

definition post_with_ctx :: "(mailbox \<Rightarrow> mailbox) list \<Rightarrow> nat option \<Rightarrow> context_t \<Rightarrow> mailbox \<Rightarrow> (mb_result \<times> mailbox) option" where
  "post_with_ctx env t c m =
     (if mb_dead m then Some (MbClosed, m) else push_one env \<lparr>mi_fn = t, mi_ctx = c\<rparr> m)"

text \<open>\<open>post_batch\<close>: how many were posted, what is left in the caller's span, and the mailbox.\<close>

fun batch_loop :: "context_t \<Rightarrow> nat option list \<Rightarrow> mailbox \<Rightarrow> nat \<times> nat option list \<times> mailbox" where
  "batch_loop c [] m = (0, [], m)"
| "batch_loop c (t # ts) m =
     (case mb_try_push \<lparr>mi_fn = t, mi_ctx = c\<rparr> m of
        (False, m1) \<Rightarrow> (0, None # ts, m1)
      | (True, m1) \<Rightarrow> (case batch_loop c ts m1 of (n, left, m2) \<Rightarrow> (Suc n, None # left, m2)))"

definition post_batch :: "context_t \<Rightarrow> nat option list \<Rightarrow> mailbox \<Rightarrow> nat \<times> nat option list \<times> mailbox" where
  "post_batch c ts m =
     (if mb_dead m then (0, ts, m)
      else case batch_loop c ts m of (n, left, m1) \<Rightarrow> (n, left, if n > 0 then after_push m1 else m1))"

text \<open>
  \<open>EventManager::post\<close>. The first attempt moves the task into a temporary item; when it fails, the
  item and the task in it are destroyed, and \<open>post_full\<close> goes on with the moved-from task.
\<close>

fun em_post_spin :: "(mailbox \<Rightarrow> mailbox) list \<Rightarrow> nat option \<Rightarrow> context_t \<Rightarrow> mailbox \<Rightarrow> (mb_result \<times> mailbox) option" where
  "em_post_spin env t c m =
     (case mb_try_push \<lparr>mi_fn = t, mi_ctx = c\<rparr> m of
        (True, m1) \<Rightarrow> Some (MbOk, after_push m1)
      | (False, m1) \<Rightarrow>
          if mb_dead m1 then Some (MbClosed, m1)
          else case env of [] \<Rightarrow> None | e # es \<Rightarrow> em_post_spin es None c (e m1))"

declare em_post_spin.simps [simp del]

definition em_post_thread :: "(mailbox \<Rightarrow> mailbox) list \<Rightarrow> nat option \<Rightarrow> context_t \<Rightarrow> mailbox \<Rightarrow> (mb_result \<times> mailbox) option" where
  "em_post_thread env t c m =
     (case mb_try_push \<lparr>mi_fn = t, mi_ctx = c\<rparr> m of
        (True, m1) \<Rightarrow> Some (MbOk, after_push m1)
      | (False, m1) \<Rightarrow>
          (case mb_overflow m1 of
             OvFail \<Rightarrow> Some (MbFull, m1)
           | OvAbort \<Rightarrow> None
           | OvSpinRetry \<Rightarrow> em_post_spin env None c m1))"


definition sample_box :: "nat \<Rightarrow> overflow_policy \<Rightarrow> mailbox" where
  "sample_box cap pol = \<lparr>mb_ring = [], mb_cap = cap, mb_blocked = True, mb_dead = False, mb_overflow = pol,
     mb_pushes = 0, mb_full = 0, mb_wakes = 0\<rparr>"


text \<open>
  A batch post that meets a full ring loses a task: the first one refused is neither in the ring
  nor left with the caller.
\<close>

theorem post_batch_loses_refused:
  "case post_batch c [Some a, Some b, Some d] (sample_box 1 OvFail) of (n, left, m) \<Rightarrow>
     n = 1 \<and> map mi_fn (mb_ring m) = [Some a] \<and> left = [None, None, Some d]"
  by (simp add: post_batch_def mb_try_push_def sample_box_def after_push_def)

text \<open>
  A post to the event manager itself under the retry policy delivers an empty task once the first attempt
  has met a full ring: whatever the task was, the item that finally enters the ring has none.
\<close>

theorem spin_retry_posts_empty_task:
  assumes "mb_overflow m = OvSpinRetry" "\<not> length (mb_ring m) < mb_cap m" "em_post_thread env (Some a) c m = Some (MbOk, m')"
  shows "\<exists>items. mb_ring m' = items @ [\<lparr>mi_fn = None, mi_ctx = c\<rparr>]"
proof -
  have "\<exists>items. mb_ring m' = items @ [\<lparr>mi_fn = None, mi_ctx = c\<rparr>]" if "em_post_spin env None c m = Some (MbOk, m')" for m env
    using that
  proof (induction env arbitrary: m)
    case Nil
    then show ?case by (subst (asm) em_post_spin.simps) (auto simp: mb_try_push_def after_push_def split: if_splits)
  next
    case (Cons e es)
    show ?case
    proof (cases "length (mb_ring m) < mb_cap m")
      case True
      then show ?thesis using Cons.prems by (subst (asm) em_post_spin.simps) (auto simp: mb_try_push_def after_push_def split: if_splits)
    next
      case False
      then have "em_post_spin es None c (e m) = Some (MbOk, m')"
        using Cons.prems by (subst (asm) em_post_spin.simps) (auto simp: mb_try_push_def split: if_splits)
      then show ?thesis by (rule Cons.IH)
    qed
  qed
  moreover have "em_post_spin env None c m = Some (MbOk, m')" using assms by (simp add: em_post_thread_def mb_try_push_def)
  ultimately show ?thesis by blast
qed

theorem spin_retry_posts_empty_task_witness:
  "\<exists>m' items. em_post_thread [\<lambda>m. m\<lparr>mb_cap := 1\<rparr>] (Some 9) cx_empty (sample_box 0 OvSpinRetry) = Some (MbOk, m') \<and>
     mb_ring m' = items @ [\<lparr>mi_fn = None, mi_ctx = cx_empty\<rparr>]"
proof -
  let ?m = "(sample_box 1 OvSpinRetry)\<lparr>mb_ring := [\<lparr>mi_fn = None, mi_ctx = cx_empty\<rparr>], mb_wakes := 1\<rparr>"
  have r: "em_post_thread [\<lambda>m. m\<lparr>mb_cap := 1\<rparr>] (Some 9) cx_empty (sample_box 0 OvSpinRetry) = Some (MbOk, ?m)"
    by (simp add: em_post_thread_def em_post_spin.simps mb_try_push_def after_push_def sample_box_def)
  have "mb_overflow (sample_box 0 OvSpinRetry) = OvSpinRetry" "\<not> length (mb_ring (sample_box 0 OvSpinRetry)) < mb_cap (sample_box 0 OvSpinRetry)"
    by (simp_all add: sample_box_def)
  from spin_retry_posts_empty_task [OF this r] r show ?thesis by blast
qed

section \<open>Arm/block protocol\<close>

text \<open>
  A posting thread makes its push visible, passes its fence, reads the loop's state and wakes it when it
  reads Blocked; the loop stores Blocked, passes its fence, looks at the ring again, and sleeps when it is empty.
  Stores sit in the storing thread's buffer (\<open>WBuffered\<close>, \<open>ws_arm_buffered\<close>) until they are flushed;
  with \<open>fenced\<close>, a thread's next load waits for that.
\<close>

datatype ws_prod = WIdle | WBuffered | WVisible | WChecked

datatype ws_cons = CRunning | CArmed | CSleeping

record ws =
  ws_items :: nat
  ws_blocked :: bool
  ws_arm_buffered :: bool
  ws_token :: bool
  ws_prod :: "nat \<Rightarrow> ws_prod"
  ws_cons :: ws_cons

inductive ws_step :: "bool \<Rightarrow> ws \<Rightarrow> ws \<Rightarrow> bool" for fenced where
  w_push: "ws_prod s i = WIdle \<Longrightarrow> ws_step fenced s (s\<lparr>ws_prod := (ws_prod s)(i := WBuffered)\<rparr>)"
| w_flush: "ws_prod s i = WBuffered \<Longrightarrow>
    ws_step fenced s (s\<lparr>ws_prod := (ws_prod s)(i := WVisible), ws_items := ws_items s + 1\<rparr>)"
| w_check: "ws_prod s i = WVisible \<Longrightarrow>
    ws_step fenced s (s\<lparr>ws_prod := (ws_prod s)(i := WIdle), ws_token := ws_token s \<or> ws_blocked s\<rparr>)"
| w_check_early: "\<not> fenced \<Longrightarrow> ws_prod s i = WBuffered \<Longrightarrow>
    ws_step fenced s (s\<lparr>ws_prod := (ws_prod s)(i := WChecked), ws_token := ws_token s \<or> ws_blocked s\<rparr>)"
| w_flush_late: "ws_prod s i = WChecked \<Longrightarrow>
    ws_step fenced s (s\<lparr>ws_prod := (ws_prod s)(i := WIdle), ws_items := ws_items s + 1\<rparr>)"
| c_drain: "ws_cons s = CRunning \<Longrightarrow> 0 < ws_items s \<Longrightarrow> ws_step fenced s (s\<lparr>ws_items := ws_items s - 1\<rparr>)"
| c_arm: "ws_cons s = CRunning \<Longrightarrow> ws_step fenced s (s\<lparr>ws_cons := CArmed, ws_arm_buffered := True\<rparr>)"
| c_flush: "ws_arm_buffered s \<Longrightarrow> ws_step fenced s (s\<lparr>ws_arm_buffered := False, ws_blocked := True\<rparr>)"
| c_recheck_work: "ws_cons s = CArmed \<Longrightarrow> fenced \<longrightarrow> \<not> ws_arm_buffered s \<Longrightarrow> 0 < ws_items s \<Longrightarrow>
    ws_step fenced s (s\<lparr>ws_cons := CRunning, ws_blocked := False, ws_arm_buffered := False\<rparr>)"
| c_recheck_empty: "ws_cons s = CArmed \<Longrightarrow> fenced \<longrightarrow> \<not> ws_arm_buffered s \<Longrightarrow> ws_items s = 0 \<Longrightarrow>
    ws_step fenced s (s\<lparr>ws_cons := CSleeping\<rparr>)"
| c_wake: "ws_cons s = CSleeping \<Longrightarrow> ws_token s \<Longrightarrow>
    ws_step fenced s (s\<lparr>ws_cons := CRunning, ws_token := False, ws_blocked := False, ws_arm_buffered := False\<rparr>)"
| c_timeout: "ws_cons s = CSleeping \<Longrightarrow>
    ws_step fenced s (s\<lparr>ws_cons := CRunning, ws_blocked := False, ws_arm_buffered := False\<rparr>)"

definition ws_start :: ws where
  "ws_start = \<lparr>ws_items = 0, ws_blocked = False, ws_arm_buffered = False, ws_token = False, ws_prod = (\<lambda>_. WIdle), ws_cons = CRunning\<rparr>"

definition ws_ok :: "ws \<Rightarrow> bool" where
  "ws_ok s \<longleftrightarrow> (\<forall>i. ws_prod s i \<noteq> WChecked) \<and> (ws_cons s = CRunning \<longrightarrow> \<not> ws_arm_buffered s) \<and>
     (ws_cons s = CArmed \<longrightarrow> ws_blocked s \<or> ws_arm_buffered s) \<and> (ws_cons s = CSleeping \<longrightarrow> ws_blocked s \<and> \<not> ws_arm_buffered s) \<and>
     (ws_cons s = CSleeping \<and> 0 < ws_items s \<longrightarrow> ws_token s \<or> (\<exists>i. ws_prod s i = WVisible))"

lemma ws_step_ok: "ws_step True s t \<Longrightarrow> ws_ok s \<Longrightarrow> ws_ok t"
proof (induction rule: ws_step.induct)
  case (w_push s i)
  have "ws_prod s j = WVisible \<Longrightarrow> j \<noteq> i" for j using w_push.hyps by auto
  then show ?case using w_push by (auto simp: ws_ok_def)
next
  case (w_check s i)
  then show ?case by (auto simp: ws_ok_def)
qed (auto simp: ws_ok_def)


lemma ws_reach:
  "(ws_step True)\<^sup>*\<^sup>* ws_start (ws_start\<lparr>ws_items := 1, ws_blocked := True, ws_token := True, ws_cons := CSleeping\<rparr>)"
proof -
  define s1 where "s1 = ws_start\<lparr>ws_cons := CArmed, ws_arm_buffered := True\<rparr>"
  define s2 where "s2 = s1\<lparr>ws_arm_buffered := False, ws_blocked := True\<rparr>"
  define s3 where "s3 = s2\<lparr>ws_cons := CSleeping\<rparr>"
  define s4 where "s4 = s3\<lparr>ws_prod := (ws_prod s3)(0 := WBuffered)\<rparr>"
  define s5 where "s5 = s4\<lparr>ws_prod := (ws_prod s4)(0 := WVisible), ws_items := ws_items s4 + 1\<rparr>"
  define s6 where "s6 = s5\<lparr>ws_prod := (ws_prod s5)(0 := WIdle), ws_token := ws_token s5 \<or> ws_blocked s5\<rparr>"
  note d = s1_def s2_def s3_def s4_def s5_def s6_def ws_start_def
  have "ws_step True ws_start s1" unfolding s1_def by (rule c_arm) (simp add: d)
  moreover have "ws_step True s1 s2" unfolding s2_def by (rule c_flush) (simp add: d)
  moreover have "ws_step True s2 s3" unfolding s3_def by (rule c_recheck_empty) (simp_all add: d)
  moreover have "ws_step True s3 s4" unfolding s4_def by (rule w_push) (simp add: d)
  moreover have "ws_step True s4 s5" unfolding s5_def by (rule w_flush) (simp add: d)
  moreover have "ws_step True s5 s6" unfolding s6_def by (rule w_check) (simp add: d)
  ultimately have "(ws_step True)\<^sup>*\<^sup>* ws_start s6" by (meson converse_rtranclp_into_rtranclp rtranclp.rtrancl_refl)
  moreover have "(\<lambda>_. WIdle)(0 := WIdle) = (\<lambda>_ :: nat. WIdle)" by (rule ext) simp
  then have "s6 = ws_start\<lparr>ws_items := 1, ws_blocked := True, ws_token := True, ws_cons := CSleeping\<rparr>" by (simp add: d)
  ultimately show ?thesis by simp
qed


text \<open>
  The fences are needed. Without them there is a run after which every post has finished, an item is in the
  ring, and the loop sleeps with no wake-up pending.
\<close>

theorem unfenced_wakeup_lost:
  "\<exists>s. (ws_step False)\<^sup>*\<^sup>* ws_start s \<and> ws_cons s = CSleeping \<and> 0 < ws_items s \<and> (\<forall>i. ws_prod s i = WIdle) \<and> \<not> ws_token s"
proof -
  define s1 where "s1 = ws_start\<lparr>ws_prod := (ws_prod ws_start)(0 := WBuffered)\<rparr>"
  define s2 where "s2 = s1\<lparr>ws_prod := (ws_prod s1)(0 := WChecked), ws_token := ws_token s1 \<or> ws_blocked s1\<rparr>"
  define s3 where "s3 = s2\<lparr>ws_cons := CArmed, ws_arm_buffered := True\<rparr>"
  define s4 where "s4 = s3\<lparr>ws_cons := CSleeping\<rparr>"
  define s5 where "s5 = s4\<lparr>ws_prod := (ws_prod s4)(0 := WIdle), ws_items := ws_items s4 + 1\<rparr>"
  note d = s1_def s2_def s3_def s4_def s5_def ws_start_def
  have "ws_step False ws_start s1" unfolding s1_def by (rule w_push) (simp add: d)
  moreover have "ws_step False s1 s2" unfolding s2_def by (rule w_check_early) (simp_all add: d)
  moreover have "ws_step False s2 s3" unfolding s3_def by (rule c_arm) (simp add: d)
  moreover have "ws_step False s3 s4" unfolding s4_def by (rule c_recheck_empty) (simp_all add: d)
  moreover have "ws_step False s4 s5" unfolding s5_def by (rule w_flush_late) (simp add: d)
  ultimately have "(ws_step False)\<^sup>*\<^sup>* ws_start s5" by (meson converse_rtranclp_into_rtranclp rtranclp.rtrancl_refl)
  moreover have "ws_cons s5 = CSleeping \<and> 0 < ws_items s5 \<and> (\<forall>i. ws_prod s5 i = WIdle) \<and> \<not> ws_token s5" by (simp add: d)
  ultimately show ?thesis by blast
qed

end
