(* ===== verification/Channel.thy ===== *)
theory Channel
  imports Mailbox
begin

text \<open>
  The primitives built on mailboxes and rings: typed channels (\<^verbatim>\<open>include/afx/itc/channel.hpp\<close>), fan-out
  (\<^verbatim>\<open>fan.hpp\<close>), the barrier (\<^verbatim>\<open>barrier.hpp\<close>) and sharded state (\<^verbatim>\<open>sharded.hpp\<close>).
\<close>

section \<open>Channels\<close>

datatype channel_kind = ChSpsc | ChMpsc

record 'a channel =
  ch_kind :: channel_kind
  ch_spsc :: "'a spsc"
  ch_mpsc :: "'a mpsc"
  ch_posted :: bool
  ch_target :: "mailbox option"
  ch_cb :: bool
  ch_out :: "'a list list"

text \<open>The task a channel posts to drain itself, and the number of such tasks waiting in a mailbox.\<close>

definition drain_task :: nat where
  "drain_task = 0"

definition drains_queued :: "mailbox \<Rightarrow> nat" where
  "drains_queued m = length (filter (\<lambda>it. mi_fn it = Some drain_task) (mb_ring m))"

definition channel_new :: "nat \<Rightarrow> channel_kind \<Rightarrow> (nat \<Rightarrow> 'a) \<Rightarrow> 'a channel" where
  "channel_new cap k junk =
     \<lparr>ch_kind = k, ch_spsc = spsc_new (if k = ChSpsc then cap else 2) junk, ch_mpsc = mpsc_new (if k = ChMpsc then cap else 2) (junk 0),
      ch_posted = False, ch_target = None, ch_cb = False, ch_out = []\<rparr>"

definition ch_attach :: "mailbox \<Rightarrow> 'a channel \<Rightarrow> 'a channel" where
  "ch_attach m c = c\<lparr>ch_cb := True, ch_target := Some m\<rparr>"

text \<open>\<open>poke\<close>; the result of the post is not looked at. \<open>None\<close>: the posting thread spins or has aborted.\<close>

definition ch_poke :: "'a channel \<Rightarrow> 'a channel option" where
  "ch_poke c =
     (case ch_target c of
        None \<Rightarrow> Some c
      | Some m \<Rightarrow>
          if ch_posted c then Some c
          else map_option (\<lambda>(_, m'). c\<lparr>ch_posted := True, ch_target := Some m'\<rparr>) (post_with_ctx [] (Some drain_task) cx_empty m))"

definition ch_push :: "'a \<Rightarrow> 'a channel \<Rightarrow> (bool \<times> 'a channel) option" where
  "ch_push v c =
     (let (ok, c1) = (case ch_kind c of
                        ChSpsc \<Rightarrow> apsnd (\<lambda>r. c\<lparr>ch_spsc := r\<rparr>) (spsc_push v (ch_spsc c))
                      | ChMpsc \<Rightarrow> apsnd (\<lambda>r. c\<lparr>ch_mpsc := r\<rparr>) (mpsc_push v (ch_mpsc c)))
      in if ok then map_option (Pair True) (ch_poke c1) else Some (False, c1))"

definition ch_push_bulk :: "'a list \<Rightarrow> 'a channel \<Rightarrow> (nat \<times> 'a channel) option" where
  "ch_push_bulk vs c =
     (let (n, c1) = (case ch_kind c of
                       ChSpsc \<Rightarrow> apsnd (\<lambda>r. c\<lparr>ch_spsc := r\<rparr>) (spsc_push_bulk vs (ch_spsc c))
                     | ChMpsc \<Rightarrow> apsnd (\<lambda>r. c\<lparr>ch_mpsc := r\<rparr>) (mpsc_push_bulk vs (ch_mpsc c)))
      in if n > 0 then map_option (Pair n) (ch_poke c1) else Some (n, c1))"

fun chunks :: "nat \<Rightarrow> 'a list \<Rightarrow> 'a list list" where
  "chunks n xs = (if xs = [] \<or> n = 0 then [] else take n xs # chunks n (drop n xs))"

declare chunks.simps [simp del]

text \<open>\<open>drain\<close> while no producer is active; the loop of the multi-producer case then takes at most a capacity's worth.\<close>

definition ch_drain :: "'a channel \<Rightarrow> 'a channel" where
  "ch_drain c0 =
     (let c = c0\<lparr>ch_posted := False\<rparr>
      in if \<not> ch_cb c then c
         else case ch_kind c of
                ChSpsc \<Rightarrow>
                  (let (batch, r) = spsc_drain_contiguous 1024 (ch_spsc c)
                   in c\<lparr>ch_spsc := r, ch_out := ch_out c @ (if batch = [] then [] else [batch])\<rparr>)
              | ChMpsc \<Rightarrow>
                  (let (vs, r) = mpsc_drain (mp_cap (ch_mpsc c)) (ch_mpsc c)
                   in c\<lparr>ch_mpsc := r, ch_out := ch_out c @ chunks 64 vs\<rparr>))"

lemma concat_chunks: "0 < n \<Longrightarrow> concat (chunks n xs) = xs"
proof (induction n xs rule: chunks.induct)
  case (1 n xs)
  then show ?case by (cases "xs = []") (subst chunks.simps, simp)+
qed

lemma chunks_size: "0 < n \<Longrightarrow> b \<in> set (chunks n xs) \<Longrightarrow> b \<noteq> [] \<and> length b \<le> n"
proof (induction n xs rule: chunks.induct)
  case (1 n xs)
  then show ?case by (cases "xs = []") (subst (asm) (2) chunks.simps, auto)+
qed

text \<open>
  Draining a multi-producer channel delivers everything queued, in order, in batches of one to 64 items.
\<close>

theorem mpsc_channel_delivers_all:
  assumes "mpsc_inv (ch_mpsc c)" "ch_kind c = ChMpsc" "ch_cb c"
  shows "\<exists>bs. ch_out (ch_drain c) = ch_out c @ bs \<and> concat bs = mpsc_items (ch_mpsc c) \<and>
    (\<forall>b \<in> set bs. b \<noteq> [] \<and> length b \<le> 64) \<and> mpsc_items (ch_mpsc (ch_drain c)) = []"
proof -
  let ?r = "ch_mpsc c"
  have "length (mpsc_items ?r) \<le> mp_cap ?r" using assms(1) by (auto simp: mpsc_inv_def mpsc_items_def)
  moreover obtain r' where "mpsc_drain (mp_cap ?r) ?r = (take (mp_cap ?r) (mpsc_items ?r), r')"
    "mpsc_items r' = drop (mp_cap ?r) (mpsc_items ?r)" using mpsc_drain_ok [OF assms(1)] by blast
  ultimately have d: "mpsc_drain (mp_cap ?r) ?r = (mpsc_items ?r, r')" "mpsc_items r' = []" by simp_all
  show ?thesis using assms(2,3) d concat_chunks [of 64 "mpsc_items ?r"] chunks_size [of 64 _ "mpsc_items ?r"]
    by (intro exI [of _ "chunks 64 (mpsc_items ?r)"]) (auto simp: ch_drain_def)
qed

definition sample_channel :: "nat channel" where
  "sample_channel = (channel_new 4 ChMpsc (\<lambda>_. 0))\<lparr>ch_cb := True, ch_mpsc := snd (mpsc_push 7 (mpsc_new 4 0))\<rparr>"

theorem mpsc_channel_delivers_all_witness:
  "concat (ch_out (ch_drain sample_channel)) = [7]"
proof -
  let ?r = "snd (mpsc_push 7 (mpsc_new 4 (0 :: nat)))"
  have "mpsc_inv (mpsc_new 4 (0 :: nat))" by (rule mpsc_inv_new) simp
  moreover have "mpsc_items (mpsc_new 4 (0 :: nat)) = []" by (simp add: mpsc_items_def mpsc_new_def)
  moreover have "mp_cap (mpsc_new 4 (0 :: nat)) = 4" by (simp add: mpsc_new_def)
  ultimately have "mpsc_inv ?r" "mpsc_items ?r = [7]" using mpq.push_room [of "mpsc_new 4 (0 :: nat)" 7] by auto
  then show ?thesis using mpsc_channel_delivers_all [of sample_channel] by (auto simp: sample_channel_def channel_new_def)
qed

text \<open>
  A single-producer channel strands items. Its drain hands out one contiguous stretch only, and by
  then the flag that another drain is needed is cleared: after it, items are queued, no drain is posted, and none will be
  before the next push.
\<close>

theorem spsc_channel_strands_items:
  "\<exists>c1 c2 :: nat channel.
     ch_push_bulk [5, 6] ((ch_attach (sample_box 4 OvFail) (channel_new 4 ChSpsc (\<lambda>_. 0)))
        \<lparr>ch_spsc := (spsc_new 4 (\<lambda>_. 0))\<lparr>sp_head := 3, sp_tail := 3\<rparr>\<rparr>) = Some (2, c1) \<and>
     c2 = ch_drain (c1\<lparr>ch_target := map_option (\<lambda>m. m\<lparr>mb_ring := []\<rparr>) (ch_target c1)\<rparr>) \<and>
     ch_out c2 = [[5]] \<and> spsc_items (ch_spsc c2) = [6] \<and> \<not> ch_posted c2 \<and> map_option drains_queued (ch_target c2) = Some 0"
proof -
  have u: "[0..<2] = [0, 1 :: nat]" by (simp add: upt_conv_Cons)
  show ?thesis
    by (simp add: ch_push_bulk_def channel_new_def ch_attach_def spsc_push_bulk_def spsc_new_def slot_of_def u ch_poke_def
        post_with_ctx_def push_one.simps mb_try_push_def after_push_def sample_box_def ch_drain_def spsc_drain_contiguous_def
        spsc_items_def drains_queued_def Let_def)
qed

definition ch_pushes :: "'a list \<Rightarrow> 'a channel \<Rightarrow> 'a channel option" where
  "ch_pushes vs c = fold (\<lambda>v r. Option.bind r (\<lambda>c. map_option snd (ch_push v c))) vs (Some c)"

lemma pushes_posted:
  assumes "ch_posted c"
  shows "\<exists>c'. ch_pushes vs c = Some c' \<and> ch_target c' = ch_target c \<and> ch_posted c'"
  using assms unfolding ch_pushes_def
proof (induction vs arbitrary: c)
  case (Cons v vs)
  have "\<exists>b c1. ch_push v c = Some (b, c1) \<and> ch_target c1 = ch_target c \<and> ch_posted c1"
    using Cons.prems by (auto simp: ch_push_def ch_poke_def case_prod_unfold Let_def split: channel_kind.splits option.splits)
  then show ?case using Cons.IH by fastforce
qed simp

text \<open>
  A channel whose drain task met a full mailbox is dead for good. The push succeeds and marks a
  drain as posted although none is; from then on no push posts one, whatever happens to the mailbox.
\<close>

theorem channel_dead_after_full_mailbox:
  assumes "ch_target c = Some m" "\<not> ch_posted c" "mb_overflow m = OvFail" "\<not> mb_dead m" "\<not> length (mb_ring m) < mb_cap m"
    and "ch_push v c = Some (True, c')"
  shows "ch_posted c' \<and> map_option mb_ring (ch_target c') = Some (mb_ring m) \<and>
    (\<exists>c''. ch_pushes vs (c'\<lparr>ch_target := Some m'\<rparr>) = Some c'' \<and> ch_target c'' = Some m')"
proof -
  have c': "ch_posted c'" "ch_target c' = Some (m\<lparr>mb_full := mb_full m + 1\<rparr>)"
    using assms by (auto simp: ch_push_def ch_poke_def post_with_ctx_def push_one.simps mb_try_push_def case_prod_unfold Let_def
        split: channel_kind.splits if_splits)
  then show ?thesis using pushes_posted [of "c'\<lparr>ch_target := Some m'\<rparr>" vs] by auto
qed

theorem channel_dead_after_full_mailbox_witness:
  "\<exists>c' c''. ch_push 3 ((ch_attach (sample_box 0 OvFail) (channel_new 4 ChMpsc (\<lambda>_. 0 :: nat)))) = Some (True, c') \<and> ch_posted c' \<and>
     ch_pushes [4, 5] (c'\<lparr>ch_target := Some (sample_box 8 OvFail)\<rparr>) = Some c'' \<and> ch_target c'' = Some (sample_box 8 OvFail)"
proof -
  let ?c = "ch_attach (sample_box 0 OvFail) (channel_new 4 ChMpsc (\<lambda>_. 0 :: nat))"
  obtain c' where p: "ch_push 3 ?c = Some (True, c')"
    by (simp add: ch_push_def channel_new_def ch_attach_def mpsc_push_def mpsc_new_def ch_poke_def
        post_with_ctx_def push_one.simps mb_try_push_def sample_box_def Let_def)
  have "ch_target ?c = Some (sample_box 0 OvFail)" "\<not> ch_posted ?c" "mb_overflow (sample_box 0 OvFail) = OvFail"
    "\<not> mb_dead (sample_box 0 OvFail)" "\<not> length (mb_ring (sample_box 0 OvFail)) < mb_cap (sample_box 0 OvFail)"
    by (simp_all add: ch_attach_def channel_new_def sample_box_def)
  from channel_dead_after_full_mailbox [OF this p] p show ?thesis by blast
qed

section \<open>Fan-out\<close>

datatype fan_mode = RoundRobin | HashKey | Broadcast

record fan =
  fan_size :: nat
  fan_mode :: fan_mode
  fan_rr :: u64

text \<open>\<open>key\<close> is the hash of the item's key, when the fan has a key function.\<close>

definition fan_pick :: "u64 option \<Rightarrow> fan \<Rightarrow> nat \<times> fan" where
  "fan_pick key f =
     (case (fan_mode f, key) of
        (HashKey, Some k) \<Rightarrow> (unat k mod fan_size f, f)
      | _ \<Rightarrow> (unat (fan_rr f) mod fan_size f, f\<lparr>fan_rr := fan_rr f + 1\<rparr>))"

definition fan_dispatch :: "u64 option \<Rightarrow> nat option \<Rightarrow> context_t \<Rightarrow> fan \<Rightarrow> mailbox list \<Rightarrow> (mb_result \<times> fan \<times> mailbox list) option" where
  "fan_dispatch key t c f mbs =
     (if mbs = [] then Some (MbClosed, f, mbs)
      else let (i, f') = fan_pick key f
           in map_option (\<lambda>(r, m). (r, f', mbs[i := m])) (post_with_ctx [] t c (mbs ! i)))"

primrec fan_broadcast :: "nat option \<Rightarrow> context_t \<Rightarrow> mailbox list \<Rightarrow> mailbox list option" where
  "fan_broadcast t c [] = Some []"
| "fan_broadcast t c (m # ms) =
     Option.bind (post_with_ctx [] t c m) (\<lambda>(_, m'). map_option (Cons m') (fan_broadcast t c ms))"

primrec fan_picks :: "nat \<Rightarrow> fan \<Rightarrow> nat list" where
  "fan_picks 0 f = []"
| "fan_picks (Suc k) f = (case fan_pick None f of (i, f') \<Rightarrow> i # fan_picks k f')"

lemma count_list_distinct: "distinct xs \<Longrightarrow> x \<in> set xs \<Longrightarrow> count_list xs x = 1"
  by (induction xs) (auto simp: count_list_0_iff)

lemma fan_picks_eq:
  "unat (fan_rr f) + k \<le> 2 ^ 64 \<Longrightarrow> fan_picks k f = map (\<lambda>j. (unat (fan_rr f) + j) mod fan_size f) [0..<k]"
proof (induction k arbitrary: f)
  case (Suc k)
  let ?g = "f\<lparr>fan_rr := fan_rr f + 1\<rparr>"
  have g: "fan_pick None f = (unat (fan_rr f) mod fan_size f, ?g)" by (simp add: fan_pick_def split: fan_mode.splits)
  have m: "map (\<lambda>j. (n + j) mod q) [0..<Suc k] = n mod q # map (\<lambda>j. (Suc n + j) mod q) [0..<k]" for n q :: nat
    by (simp add: upt_conv_Cons map_Suc_upt [symmetric] del: upt_Suc)
  show ?case
  proof (cases k)
    case (Suc l)
    then have "unat (fan_rr f) + 1 < 2 ^ 64" using Suc.prems by simp
    then have u: "unat (fan_rr ?g) = Suc (unat (fan_rr f))" using unat_add_u64 [of "fan_rr f" 1] by simp
    then show ?thesis using Suc.IH [of ?g] Suc.prems g m by simp
  qed (simp add: g)
qed simp

text \<open>
  Round-robin dispatch is fair: of \<open>k * n\<close> dispatches in a row over \<open>n\<close> mailboxes, each mailbox gets
  exactly \<open>k\<close>, as long as the counter does not wrap in between.
\<close>

theorem fan_round_robin_fair:
  assumes "0 < fan_size f" "i < fan_size f" "unat (fan_rr f) + k * fan_size f \<le> 2 ^ 64"
  shows "count_list (fan_picks (k * fan_size f) f) i = k"
proof -
  let ?n = "fan_size f" and ?s = "unat (fan_rr f)"
  have round: "count_list (map (\<lambda>j. (s + j) mod ?n) [0..<?n]) i = 1" for s
  proof -
    have "inj_on (\<lambda>j. (s + j) mod ?n) {0..<?n}"
      by (rule inj_onI) (use window_inj [of s _ ?n] in \<open>metis add_left_imp_eq atLeastLessThan_iff le_add1 nat_add_left_cancel_less\<close>)
    then have d: "distinct (map (\<lambda>j. (s + j) mod ?n) [0..<?n])" by (simp add: distinct_map)
    have "set (map (\<lambda>j. (s + j) mod ?n) [0..<?n]) \<subseteq> {0..<?n}" using assms(1) by auto
    moreover have "card (set (map (\<lambda>j. (s + j) mod ?n) [0..<?n])) = ?n" using distinct_card [OF d] by simp
    ultimately have "set (map (\<lambda>j. (s + j) mod ?n) [0..<?n]) = {0..<?n}" by (intro card_subset_eq) simp_all
    then have "i \<in> set (map (\<lambda>j. (s + j) mod ?n) [0..<?n])" using assms(2) by simp
    then show ?thesis using d by (simp add: count_list_distinct)
  qed
  have "count_list (map (\<lambda>j. (?s + j) mod ?n) [0..<k * ?n]) i = k" for k
  proof (induction k)
    case (Suc k)
    have "[0..<k * ?n + ?n] = [0..<k * ?n] @ map (\<lambda>j. j + k * ?n) [0..<?n]"
      using upt_add_eq_append [of 0 "k * ?n" ?n] map_add_upt [of "k * ?n" ?n] by (simp only: add.commute add_0 le0)
    moreover have "map ((\<lambda>j. (?s + j) mod ?n) \<circ> (\<lambda>j. j + k * ?n)) [0..<?n] = map (\<lambda>j. (?s + k * ?n + j) mod ?n) [0..<?n]"
      by (simp add: comp_def ac_simps)
    moreover have "Suc k * ?n = k * ?n + ?n" by simp
    ultimately show ?case using Suc round [of "?s + k * ?n"] by (simp only: map_append map_map count_list_append)
  qed simp
  then show ?thesis using fan_picks_eq [OF assms(3)] by simp
qed

theorem fan_round_robin_fair_witness:
  "count_list (fan_picks (2 * 3) \<lparr>fan_size = 3, fan_mode = RoundRobin, fan_rr = 5\<rparr>) 1 = 2"
  using fan_round_robin_fair [of "\<lparr>fan_size = 3, fan_mode = RoundRobin, fan_rr = 5\<rparr>" 1 2] by simp

section \<open>Barrier and sharded state\<close>

text \<open>The shared counter of a barrier and how often \<open>done\<close> has run; one shard's task reports in.\<close>

definition barrier_report :: "nat \<times> nat \<Rightarrow> nat \<times> nat" where
  "barrier_report st = (case st of (remaining, runs) \<Rightarrow> (remaining - 1, if remaining = 1 then runs + 1 else runs))"

text \<open>\<open>arrive_all\<close> on shards of which the given ones accept the post, after the accepted tasks have run.\<close>

definition arrive_all :: "bool list \<Rightarrow> nat \<times> nat" where
  "arrive_all accepted = (if accepted = [] then (0, 0) else fold (\<lambda>ok st. if ok then barrier_report st else st) accepted (length accepted, 0))"

lemma barrier_fold:
  "length (filter (\<lambda>b. b) bs) \<le> r \<Longrightarrow> fold (\<lambda>ok st. if ok then barrier_report st else st) bs (r, n) =
     (r - length (filter (\<lambda>b. b) bs), n + (if 0 < r \<and> length (filter (\<lambda>b. b) bs) = r then 1 else 0))"
proof (induction bs arbitrary: r n)
  case (Cons b bs)
  show ?case
  proof (cases b)
    case True
    then have "length (filter (\<lambda>b. b) bs) \<le> r - 1" "0 < r" using Cons.prems by auto
    then show ?thesis using True Cons.IH [of "r - 1"] by (auto simp: barrier_report_def)
  qed (use Cons in simp)
qed auto

text \<open>
  A barrier completes exactly when every shard accepted its task: \<open>done\<close> then runs once; when one
  mailbox refused the post, which \<open>arrive_all\<close> does not notice, it never runs.
\<close>

theorem barrier_done_iff_all_posted:
  assumes "accepted \<noteq> []"
  shows "snd (arrive_all accepted) = (if \<forall>ok \<in> set accepted. ok then 1 else 0)"
proof -
  have "length (filter (\<lambda>b. b) accepted) = length accepted \<longleftrightarrow> (\<forall>ok \<in> set accepted. ok)"
    by (metis filter_True length_filter_less less_irrefl)
  then show ?thesis using assms barrier_fold [of accepted "length accepted" 0] by (auto simp: arrive_all_def)
qed

theorem barrier_done_iff_all_posted_witness:
  "snd (arrive_all [True, False, True]) = 0 \<and> snd (arrive_all [True, True]) = 1"
  using barrier_done_iff_all_posted [of "[True, False, True]"] barrier_done_iff_all_posted [of "[True, True]"] by simp

text \<open>\<open>map_reduce\<close>: one shard reports its result, when it has a value; \<open>out\<close> collects the calls of \<open>done\<close>.\<close>

definition shard_report :: "('r \<Rightarrow> 'r \<Rightarrow> 'r) \<Rightarrow> 'r option \<Rightarrow> nat \<times> 'r \<times> 'r list \<Rightarrow> nat \<times> 'r \<times> 'r list" where
  "shard_report reduce res st =
     (case st of (remaining, acc, out) \<Rightarrow>
        let acc' = (case res of None \<Rightarrow> acc | Some r \<Rightarrow> reduce acc r)
        in (remaining - 1, acc', if remaining = 1 then out @ [acc'] else out))"

definition map_reduce :: "('r \<Rightarrow> 'r \<Rightarrow> 'r) \<Rightarrow> 'r \<Rightarrow> 'r option list \<Rightarrow> 'r list" where
  "map_reduce reduce zero results = snd (snd (fold (shard_report reduce) results (length results, zero, [])))"

lemma map_reduce_once:
  "results \<noteq> [] \<Longrightarrow> map_reduce reduce zero results = [fold (\<lambda>r acc. reduce acc r) (List.map_filter id results) zero]"
proof -
  have "snd (snd (fold (shard_report reduce) rs (length rs, a, []))) = [fold (\<lambda>r acc. reduce acc r) (List.map_filter id rs) a]"
    if "rs \<noteq> []" for rs a using that
  proof (induction rs arbitrary: a)
    case (Cons r rs)
    show ?case
    proof (cases rs)
      case Nil
      then show ?thesis by (auto simp: shard_report_def List.map_filter_def Let_def split: option.splits)
    next
      case (Cons r' rs')
      then show ?thesis using Cons.IH by (auto simp: shard_report_def List.map_filter_def Let_def split: option.splits)
    qed
  qed simp
  then show "results \<noteq> [] \<Longrightarrow> ?thesis" by (simp add: map_reduce_def)
qed

end
