(* ===== verification/Sys_Base.thy ===== *)
theory Sys_Base
  imports Afx_Prelude
begin

unbundle bit_operations_syntax

text \<open>
  The vocabulary of \<^verbatim>\<open>include/afx/sys/\<close> the networking layer is written in: error values and
  their texts (\<^verbatim>\<open>error.hpp\<close>, \<^verbatim>\<open>error.cpp\<close>), results (\<^verbatim>\<open>result.hpp\<close>) as
  sums with the error on the left, and the byte-order helpers (\<^verbatim>\<open>endian.hpp\<close>) on a
  little-endian machine.
\<close>

section \<open>Errors\<close>

datatype error_category =
  CatOk | CatSys | CatNet | CatFrame | CatConfig | CatItc | CatInternal | CatCancelled

datatype err =
  ErrNone | ErrFull | ErrClosed | ErrStopped | ErrExpired | ErrNotFound | ErrInvalid | ErrWouldBlock
| ErrOverflow | ErrBadMagic | ErrUnsupportedVersion | ErrFrameTooLarge | ErrConnectFailed
| ErrResolveFailed | ErrNoResources | ErrPermissionDenied | ErrUnsupported | ErrTruncated

fun err_code :: "err \<Rightarrow> u16" where
  "err_code ErrNone = 0"
| "err_code ErrFull = 1"
| "err_code ErrClosed = 2"
| "err_code ErrStopped = 3"
| "err_code ErrExpired = 4"
| "err_code ErrNotFound = 5"
| "err_code ErrInvalid = 6"
| "err_code ErrWouldBlock = 7"
| "err_code ErrOverflow = 8"
| "err_code ErrBadMagic = 9"
| "err_code ErrUnsupportedVersion = 10"
| "err_code ErrFrameTooLarge = 11"
| "err_code ErrConnectFailed = 12"
| "err_code ErrResolveFailed = 13"
| "err_code ErrNoResources = 14"
| "err_code ErrPermissionDenied = 15"
| "err_code ErrUnsupported = 16"
| "err_code ErrTruncated = 17"

record error =
  e_code :: u16
  e_category :: error_category

definition e_ok :: "error \<Rightarrow> bool" where
  "e_ok e \<longleftrightarrow> e_category e = CatOk"

definition make_error :: "error_category \<Rightarrow> err \<Rightarrow> error" where
  "make_error c e = \<lparr>e_code = err_code e, e_category = c\<rparr>"

definition errno_error :: "32 word \<Rightarrow> error" where
  "errno_error e = \<lparr>e_code = ucast (e AND 0xFFFF), e_category = CatSys\<rparr>"

definition err_names :: "string list" where
  "err_names = [''none'', ''full'', ''closed'', ''stopped'', ''expired'', ''not found'', ''invalid'',
     ''would block'', ''overflow'', ''bad magic'', ''unsupported version'', ''frame too large'',
     ''connect failed'', ''resolve failed'', ''no resources'', ''permission denied'', ''unsupported'']"

text \<open>The texts of system errors come from the C library's \<^verbatim>\<open>strerror\<close>.\<close>

definition error_message :: "(u16 \<Rightarrow> string) \<Rightarrow> error \<Rightarrow> string" where
  "error_message strerror e =
     (if e_category e = CatSys then strerror (e_code e)
      else if e_category e = CatOk then ''ok''
      else if unat (e_code e) < length err_names then err_names ! unat (e_code e)
      else ''unknown error'')"

section \<open>Results\<close>

type_synonym 'a result = "error + 'a"

text \<open>A \<^verbatim>\<open>Result<void>\<close> stores an error and has a value when that error is the Ok one.\<close>

definition void_result :: "error \<Rightarrow> unit result" where
  "void_result e = (if e_ok e then Inr () else Inl e)"

definition result_of_err :: "err \<Rightarrow> 'a result" where
  "result_of_err e = Inl (make_error CatInternal e)"

definition value_or :: "'a result \<Rightarrow> 'a \<Rightarrow> 'a" where
  "value_or r u = (case r of Inr v \<Rightarrow> v | Inl _ \<Rightarrow> u)"

lemma make_error_ok [simp]: "e_ok (make_error c e) \<longleftrightarrow> c = CatOk"
  by (simp add: e_ok_def make_error_def)

lemma err_code_inj [simp]: "err_code a = err_code b \<longleftrightarrow> a = b"
  by (cases a; cases b) simp_all

lemma make_error_inj [simp]: "make_error c e = make_error c' e' \<longleftrightarrow> c = c' \<and> e = e'"
  by (auto simp: make_error_def)

text \<open>Every framework error but one has a text of its own.\<close>

lemma error_message_known:
  assumes "c \<noteq> CatSys" "c \<noteq> CatOk" "e \<noteq> ErrTruncated"
  shows "error_message s (make_error c e) = err_names ! unat (err_code e)"
  using assms by (cases e) (simp_all add: error_message_def make_error_def err_names_def)

lemma error_message_truncated:
  assumes "c \<noteq> CatSys" "c \<noteq> CatOk"
  shows "error_message s (make_error c ErrTruncated) = ''unknown error''"
  using assms by (simp add: error_message_def make_error_def err_names_def)

section \<open>Byte order\<close>

definition byteswap16 :: "u16 \<Rightarrow> u16" where
  "byteswap16 v = push_bit 8 v OR drop_bit 8 v"

definition le16 :: "u16 \<Rightarrow> u16" where
  "le16 v = v"

definition be16 :: "u16 \<Rightarrow> u16" where
  "be16 v = byteswap16 v"

text \<open>What \<^verbatim>\<open>memcpy\<close> of two bytes into a \<^verbatim>\<open>uint16_t\<close> yields on a little-endian machine.\<close>

definition load16 :: "byte \<Rightarrow> byte \<Rightarrow> u16" where
  "load16 b0 b1 = ucast b0 OR push_bit 8 (ucast b1)"

lemma be16_involution: "be16 (be16 v) = v"
  unfolding be16_def byteswap16_def
  by (rule bit_word_eqI) (auto simp: bit_simps)

lemma be16_load: "unat (be16 (load16 b0 b1)) = 256 * unat b0 + unat b1"
proof -
  have "be16 (load16 b0 b1) = push_bit 8 (ucast b0) OR ucast b1"
    unfolding be16_def byteswap16_def load16_def
    by (rule bit_word_eqI) (auto simp: bit_simps dest: bit_imp_le_length)
  also have "\<dots> = push_bit 8 (ucast b0) + ucast b1"
    by (rule disjunctive_add [symmetric]) (auto simp: bit_simps dest: bit_imp_le_length)
  finally have eq: "be16 (load16 b0 b1) = push_bit 8 (ucast b0) + ucast b1" .
  have "unat b0 < 256" "unat b1 < 256"
    using unsigned_less [of b0] unsigned_less [of b1] by simp_all
  then show ?thesis unfolding eq
    by (simp add: push_bit_eq_mult unat_word_ariths unsigned_ucast_eq take_bit_nat_eq_self)
qed

end
