(* ===== verification/Framing.thy ===== *)
theory Framing
  imports Sys_Base "HOL-Library.Monad_Syntax"
begin

text \<open>
  Framing: \<^verbatim>\<open>include/afx/net/protocol.hpp\<close> (the parse result, the fixed-header framer) and
  the byte protocols of the repository built on it. A framer sees the readable bytes of a
  connection's read buffer and answers with a message and the bytes it used, a request for more
  bytes, or an error; \<open>None\<close> is an access outside the span. Message bodies are views into the
  buffer there and the bytes of the view here.

  The locale \<open>framer_base\<close> states what the read loop needs of a framer and \<open>framer\<close> adds that an
  error, too, does not depend on the bytes that follow; under these laws the messages and the
  error a connection sees depend on the byte stream alone, never on how the transport cut it
  into pieces.
\<close>

section \<open>Parse results\<close>

datatype 'm parse_result = Message 'm nat | NeedMore nat | ParseError error

record 'h frame_view =
  fv_header :: 'h
  fv_body :: "byte list"

section \<open>The fixed-header framer\<close>

text \<open>
  A protocol gives the header's size, the header it reads from that many bytes, its check and
  the size of the body. Sizes are \<^verbatim>\<open>std::size_t\<close>: their sum wraps.
\<close>

record 'h fixed_header_proto =
  kHeaderSize :: nat
  fp_load :: "byte list \<Rightarrow> 'h"
  fp_validate :: "'h \<Rightarrow> unit result"
  fp_body_size :: "'h \<Rightarrow> nat result"

definition fh_parse :: "'h fixed_header_proto \<Rightarrow> byte list \<Rightarrow> 'h frame_view parse_result option" where
  "fh_parse p xs =
     (if length xs < kHeaderSize p then Some (NeedMore (kHeaderSize p - length xs))
      else let h = fp_load p (take (kHeaderSize p) xs) in
        case fp_validate p h of
          Inl e \<Rightarrow> Some (ParseError e)
        | Inr _ \<Rightarrow>
          (case fp_body_size p h of
             Inl e \<Rightarrow> Some (ParseError e)
           | Inr bs \<Rightarrow>
             let total = (kHeaderSize p + bs) mod 2 ^ 64 in
             if length xs < total then Some (NeedMore (total - length xs))
             else if kHeaderSize p + bs \<le> length xs
             then Some (Message \<lparr>fv_header = h, fv_body = take bs (drop (kHeaderSize p) xs)\<rparr> total)
             else None))"

section \<open>The contract of a framer\<close>

text \<open>
  \<open>parse_stream\<close> is the specification of the read loop: take messages off the front of the bytes
  until more are needed or an error stops it. It returns the messages, the bytes left and the
  error.
\<close>

partial_function (option) parse_stream ::
  "(byte list \<Rightarrow> 'm parse_result option) \<Rightarrow> byte list \<Rightarrow> ('m list \<times> byte list \<times> error option) option" where
  "parse_stream p xs =
     Option.bind (p xs) (\<lambda>r. case r of
         NeedMore n \<Rightarrow> Some ([], xs, None)
       | ParseError e \<Rightarrow> Some ([], xs, Some e)
       | Message m c \<Rightarrow>
           Option.bind (parse_stream p (drop c xs)) (\<lambda>(ms, rest, e). Some (m # ms, rest, e)))"

text \<open>The same over a stream that arrives in pieces; nothing is read after an error.\<close>

fun feed :: "(byte list \<Rightarrow> 'm parse_result option) \<Rightarrow> byte list \<Rightarrow> byte list list \<Rightarrow> ('m list \<times> error option) option" where
  "feed p acc [] = Some ([], None)"
| "feed p acc (ch # chs) = do {
     (ms, rest, e) \<leftarrow> parse_stream p (acc @ ch);
     if e = None then do { (ms', e') \<leftarrow> feed p rest chs; Some (ms @ ms', e') }
     else Some (ms, e) }"

definition frames_of :: "(byte list \<Rightarrow> 'm parse_result option) \<Rightarrow> byte list \<Rightarrow> ('m list \<times> error option) option" where
  "frames_of p xs = do { (ms, rest, e) \<leftarrow> parse_stream p xs; Some (ms, e) }"

locale framer_base =
  fixes parse :: "byte list \<Rightarrow> 'm parse_result option"
  assumes defined: "parse xs \<noteq> None"
    and message_bounds: "parse xs = Some (Message m c) \<Longrightarrow> 0 < c \<and> c \<le> length xs"
    and message_stable: "parse xs = Some (Message m c) \<Longrightarrow> parse (xs @ ys) = Some (Message m c)"
    and need_positive: "parse xs = Some (NeedMore n) \<Longrightarrow> 0 < n"
    and need_minimal: "parse xs = Some (NeedMore n) \<Longrightarrow> length ys < n \<Longrightarrow> \<exists>n'. parse (xs @ ys) = Some (NeedMore n')"
begin

lemma parse_cases:
  obtains (message) m c where "parse xs = Some (Message m c)" "0 < c" "c \<le> length xs"
  | (need) n where "parse xs = Some (NeedMore n)" "0 < n"
  | (error) e where "parse xs = Some (ParseError e)"
  using defined [of xs] message_bounds [of xs] need_positive [of xs]
  by (metis not_None_eq parse_result.exhaust)

lemma stream_returns: "\<exists>r. parse_stream parse xs = Some r"
proof (induction xs rule: length_induct)
  case (1 xs)
  show ?case
  proof (cases rule: parse_cases [of xs])
    case (message m c)
    then have "length (drop c xs) < length xs" by simp
    with 1 obtain r where "parse_stream parse (drop c xs) = Some r" by blast
    with message show ?thesis by (cases r) (simp add: parse_stream.simps [of parse xs])
  qed (simp_all add: parse_stream.simps [of parse xs])
qed

lemma stream_consumes:
  "parse_stream parse xs = Some (ms, rest, e) \<Longrightarrow> \<exists>k. k \<le> length xs \<and> rest = drop k xs"
proof (induction xs arbitrary: ms rule: length_induct)
  case (1 xs)
  show ?case
  proof (cases rule: parse_cases [of xs])
    case (message m c)
    with 1 (2) obtain ms' where s: "parse_stream parse (drop c xs) = Some (ms', rest, e)"
      by (auto simp: parse_stream.simps [of parse xs] split: bind_splits)
    have "length (drop c xs) < length xs" using message by simp
    with 1 (1) s obtain k where "k \<le> length (drop c xs)" "rest = drop k (drop c xs)" by blast
    with message(3) show ?thesis by (intro exI [of _ "c + k"]) (simp add: add.commute)
  qed (use 1 (2) in \<open>auto simp: parse_stream.simps [of parse xs] intro: exI [of _ 0]\<close>)
qed

lemma stream_append:
  "parse_stream parse xs = Some (ms, rest, None) \<Longrightarrow>
   parse_stream parse (xs @ ys) =
     map_option (\<lambda>(ms', rest', e). (ms @ ms', rest', e)) (parse_stream parse (rest @ ys))"
proof (induction xs arbitrary: ms rule: length_induct)
  case (1 xs)
  show ?case
  proof (cases rule: parse_cases [of xs])
    case (message m c)
    with 1 (2) obtain ms' where s: "parse_stream parse (drop c xs) = Some (ms', rest, None)"
      and ms: "ms = m # ms'"
      by (auto simp: parse_stream.simps [of parse xs] split: bind_splits)
    have "length (drop c xs) < length xs" using message by simp
    with 1 (1) s have "parse_stream parse (drop c xs @ ys) =
        map_option (\<lambda>(ms'', rest', e). (ms' @ ms'', rest', e)) (parse_stream parse (rest @ ys))" by blast
    with message message_stable [OF message(1), of ys] show ?thesis
      by (cases "parse_stream parse (rest @ ys)")
        (auto simp: parse_stream.simps [of parse "xs @ ys"] ms)
  qed (use 1 (2) in \<open>auto simp: parse_stream.simps [of parse xs] case_prod_beta option.map_ident\<close>)
qed

lemma stream_rest:
  "parse_stream parse xs = Some (ms, rest, None) \<Longrightarrow> parse_stream parse rest = Some ([], rest, None)"
proof (induction xs arbitrary: ms rule: length_induct)
  case (1 xs)
  show ?case
  proof (cases rule: parse_cases [of xs])
    case (message m c)
    with 1 (2) obtain ms' where s: "parse_stream parse (drop c xs) = Some (ms', rest, None)"
      by (auto simp: parse_stream.simps [of parse xs] split: bind_splits)
    have "length (drop c xs) < length xs" using message by simp
    with 1 (1) s show ?thesis by blast
  qed (use 1 (2) in \<open>auto simp: parse_stream.simps [of parse xs] parse_stream.simps [of parse rest]\<close>)
qed

text \<open>A request for \<open>n\<close> more bytes is never an over-estimate: fewer produce no message.\<close>

lemma need_no_frames:
  assumes "parse xs = Some (NeedMore n)" "length ys < n"
  shows "frames_of parse (xs @ ys) = Some ([], None)"
  using need_minimal [OF assms] by (auto simp: frames_of_def parse_stream.simps [of parse "xs @ ys"])

end

locale framer = framer_base +
  assumes error_stable: "parse xs = Some (ParseError e) \<Longrightarrow> parse (xs @ ys) = Some (ParseError e)"
begin

lemma stream_error_append:
  "parse_stream parse xs = Some (ms, rest, Some e) \<Longrightarrow>
   parse_stream parse (xs @ ys) = Some (ms, rest @ ys, Some e)"
proof (induction xs arbitrary: ms rule: length_induct)
  case (1 xs)
  show ?case
  proof (cases rule: parse_cases [of xs])
    case (message m c)
    with 1 (2) obtain ms' where s: "parse_stream parse (drop c xs) = Some (ms', rest, Some e)"
      and ms: "ms = m # ms'"
      by (auto simp: parse_stream.simps [of parse xs] split: bind_splits)
    have "length (drop c xs) < length xs" using message by simp
    with 1 (1) s have "parse_stream parse (drop c xs @ ys) = Some (ms', rest @ ys, Some e)" by blast
    with message message_stable [OF message(1), of ys] show ?thesis
      by (simp add: parse_stream.simps [of parse "xs @ ys"] ms)
  next
    case (error e')
    with 1 (2) error_stable [OF error, of ys] show ?thesis
      by (auto simp: parse_stream.simps [of parse xs] parse_stream.simps [of parse "rest @ ys"])
  qed (use 1 (2) in \<open>auto simp: parse_stream.simps [of parse xs]\<close>)
qed

lemma feed_frames_of:
  assumes "parse_stream parse acc = Some ([], acc, None)"
  shows "feed parse acc chs = frames_of parse (acc @ concat chs)"
  using assms
proof (induction chs arbitrary: acc)
  case Nil
  then show ?case by (simp add: frames_of_def)
next
  case (Cons ch chs)
  obtain ms rest e where s: "parse_stream parse (acc @ ch) = Some (ms, rest, e)"
    using stream_returns [of "acc @ ch"] by (metis prod_cases3)
  show ?case
  proof (cases e)
    case None
    have "parse_stream parse rest = Some ([], rest, None)"
      by (rule stream_rest [OF s [unfolded None]])
    from Cons.IH [OF this] stream_append [OF s [unfolded None], of "concat chs"] s None show ?thesis
      by (cases "parse_stream parse (rest @ concat chs)")
        (auto simp: frames_of_def case_prod_beta)
  next
    case (Some err)
    from stream_error_append [OF s [unfolded Some], of "concat chs"] s Some show ?thesis
      by (simp add: frames_of_def)
  qed
qed

lemma segmentation_irrelevant:
  assumes "concat chs = concat chs'" "parse [] = Some (NeedMore n)"
  shows "feed parse [] chs = feed parse [] chs'"
proof -
  have "parse_stream parse [] = Some ([], [], None)"
    using assms(2) by (simp add: parse_stream.simps)
  from feed_frames_of [OF this] assms(1) show ?thesis by simp
qed

end

section \<open>Fixed-header protocols are framers\<close>

text \<open>
  A header of positive size and body sizes that leave the sum of both within a
  \<^verbatim>\<open>std::size_t\<close> are what the framer needs of a protocol.
\<close>

locale fixed_header =
  fixes p :: "'h fixed_header_proto"
  assumes header_positive: "0 < kHeaderSize p"
    and body_fits: "fp_body_size p h = Inr bs \<Longrightarrow> kHeaderSize p + bs < 2 ^ 64"
begin

lemma fh_parse_message_iff:
  "fh_parse p xs = Some (Message m c) \<longleftrightarrow>
     (\<exists>bs. kHeaderSize p + bs \<le> length xs \<and>
       fp_validate p (fp_load p (take (kHeaderSize p) xs)) = Inr () \<and>
       fp_body_size p (fp_load p (take (kHeaderSize p) xs)) = Inr bs \<and> c = kHeaderSize p + bs \<and>
       m = \<lparr>fv_header = fp_load p (take (kHeaderSize p) xs), fv_body = take bs (drop (kHeaderSize p) xs)\<rparr>)"
  using body_fits by (fastforce simp: fh_parse_def Let_def split: sum.splits if_splits)

lemma fh_parse_error_iff:
  "fh_parse p xs = Some (ParseError e) \<longleftrightarrow>
     kHeaderSize p \<le> length xs \<and>
     (fp_validate p (fp_load p (take (kHeaderSize p) xs)) = Inl e \<or>
      fp_validate p (fp_load p (take (kHeaderSize p) xs)) = Inr () \<and>
      fp_body_size p (fp_load p (take (kHeaderSize p) xs)) = Inl e)"
  by (auto simp: fh_parse_def Let_def split: sum.splits if_splits)

lemma fh_parse_need_iff:
  "fh_parse p xs = Some (NeedMore n) \<longleftrightarrow>
     length xs < kHeaderSize p \<and> n = kHeaderSize p - length xs \<or>
     kHeaderSize p \<le> length xs \<and>
     fp_validate p (fp_load p (take (kHeaderSize p) xs)) = Inr () \<and>
     (\<exists>bs. fp_body_size p (fp_load p (take (kHeaderSize p) xs)) = Inr bs \<and>
        length xs < kHeaderSize p + bs \<and> n = kHeaderSize p + bs - length xs)"
  using body_fits by (fastforce simp: fh_parse_def Let_def split: sum.splits if_splits)

lemma fh_parse_defined: "fh_parse p xs \<noteq> None"
  using body_fits by (fastforce simp: fh_parse_def Let_def split: sum.splits if_splits)

end

sublocale fixed_header \<subseteq> fhf: framer "fh_parse p"
proof
  show "fh_parse p xs \<noteq> None" for xs by (rule fh_parse_defined)
  show "fh_parse p xs = Some (Message m c) \<Longrightarrow> 0 < c \<and> c \<le> length xs" for xs m c
    using header_positive by (auto simp: fh_parse_message_iff)
  show "fh_parse p xs = Some (Message m c) \<Longrightarrow> fh_parse p (xs @ ys) = Some (Message m c)" for xs m c ys
    by (auto simp: fh_parse_message_iff)
  show "fh_parse p xs = Some (NeedMore n) \<Longrightarrow> 0 < n" for xs n
    by (auto simp: fh_parse_need_iff)
  show "\<exists>n'. fh_parse p (xs @ ys) = Some (NeedMore n')"
    if "fh_parse p xs = Some (NeedMore n)" "length ys < n" for xs n ys
    using that by (auto simp: fh_parse_need_iff)
  show "fh_parse p xs = Some (ParseError e) \<Longrightarrow> fh_parse p (xs @ ys) = Some (ParseError e)" for xs e ys
    by (auto simp: fh_parse_error_iff)
qed

context fixed_header
begin

text \<open>Frames written one after the other come back in order, however the stream is cut.\<close>

lemma encoded_frames:
  assumes "\<And>m. m \<in> set ms \<Longrightarrow> \<exists>n. fh_parse p (enc m) = Some (Message m n) \<and> n = length (enc m)"
  shows "parse_stream (fh_parse p) (concat (map enc ms)) = Some (ms, [], None)"
  using assms
proof (induction ms)
  case Nil
  show ?case using header_positive by (simp add: parse_stream.simps fh_parse_def)
next
  case (Cons m ms)
  from Cons.prems [of m] have "fh_parse p (enc m) = Some (Message m (length (enc m)))" by simp
  from fhf.message_stable [OF this] Cons show ?case
    by (simp add: parse_stream.simps [of _ "enc m @ concat (map enc ms)"])
qed

lemma segmentation:
  "\<exists>r. feed (fh_parse p) [] chs = Some r \<and> frames_of (fh_parse p) (concat chs) = Some r"
proof -
  have "parse_stream (fh_parse p) [] = Some ([], [], None)"
    using header_positive by (simp add: parse_stream.simps fh_parse_def)
  from fhf.feed_frames_of [OF this, of chs] fhf.stream_returns [of "concat chs"] show ?thesis
    by (auto simp: frames_of_def)
qed

lemma segmented_frames:
  assumes "\<And>m. m \<in> set ms \<Longrightarrow> \<exists>n. fh_parse p (enc m) = Some (Message m n) \<and> n = length (enc m)"
    and "concat chs = concat (map enc ms)"
  shows "feed (fh_parse p) [] chs = Some (ms, None)"
  using segmentation [of chs] encoded_frames [OF assms(1)] assms(2) by (auto simp: frames_of_def)

end

section \<open>The echo protocol\<close>

record echo_header =
  magic :: u8
  len_be :: u16
  eh_type :: u8

definition echo_load :: "byte list \<Rightarrow> echo_header" where
  "echo_load bs = \<lparr>magic = bs ! 0, len_be = load16 (bs ! 1) (bs ! 2), eh_type = bs ! 3\<rparr>"

definition echo_validate :: "echo_header \<Rightarrow> unit result" where
  "echo_validate h = (if magic h \<noteq> 0xA5 then Inl (make_error CatFrame ErrBadMagic) else Inr ())"

definition echo_body_size :: "echo_header \<Rightarrow> nat result" where
  "echo_body_size h = Inr (unat (be16 (len_be h)))"

definition echo_proto :: "echo_header fixed_header_proto" where
  "echo_proto = \<lparr>kHeaderSize = 4, fp_load = echo_load, fp_validate = echo_validate,
     fp_body_size = echo_body_size\<rparr>"

lemmas echo_defs = echo_proto_def echo_load_def echo_validate_def echo_body_size_def

lemma unat_u16_bound: "unat (w :: u16) < 65536"
  using unsigned_less [of w] by simp

interpretation echo: fixed_header echo_proto
proof
  show "0 < kHeaderSize echo_proto" by (simp add: echo_proto_def)
  show "fp_body_size echo_proto h = Inr bs \<Longrightarrow> kHeaderSize echo_proto + bs < 2 ^ 64" for h bs
    using unat_u16_bound [of "be16 (len_be h)"] by (auto simp: echo_defs)
qed

text \<open>The frame a client writes: the header with the payload's size in network order, the payload.\<close>

definition store16 :: "u16 \<Rightarrow> byte list" where
  "store16 v = [ucast v, ucast (drop_bit 8 v)]"

definition echo_frame :: "byte list \<Rightarrow> byte list" where
  "echo_frame body = 0xA5 # store16 (be16 (of_nat (length body))) @ 0x01 # body"

definition echo_message :: "byte list \<Rightarrow> echo_header frame_view" where
  "echo_message body =
     \<lparr>fv_header = \<lparr>magic = 0xA5, len_be = be16 (of_nat (length body)), eh_type = 0x01\<rparr>, fv_body = body\<rparr>"

lemma load16_store16: "load16 (store16 v ! 0) (store16 v ! 1) = v"
  by (rule bit_word_eqI) (auto simp: load16_def store16_def bit_simps)

lemma echo_frame_parses:
  assumes "length body < 2 ^ 16"
  shows "fh_parse echo_proto (echo_frame body) = Some (Message (echo_message body) (length (echo_frame body)))"
proof -
  let ?l = "be16 (of_nat (length body))"
  have l: "unat (be16 ?l) = length body"
    using assms by (simp add: be16_involution unat_of_nat take_bit_nat_eq_self)
  have "echo_load (take 4 (echo_frame body)) = fv_header (echo_message body)"
    using load16_store16 [of ?l] by (simp add: echo_load_def echo_frame_def echo_message_def store16_def)
  moreover have "echo_validate (fv_header (echo_message body)) = Inr ()"
    and "echo_body_size (fv_header (echo_message body)) = Inr (length body)"
    and "length (echo_frame body) = 4 + length body" and "drop 4 (echo_frame body) = body"
    using l by (simp_all add: echo_defs echo_message_def echo_frame_def store16_def)
  ultimately show ?thesis
    by (simp add: echo.fh_parse_message_iff) (simp add: echo_proto_def echo_message_def)
qed

section \<open>The line protocol\<close>

definition kMaxLine :: nat where
  "kMaxLine = 4096"

fun find_newline :: "byte list \<Rightarrow> nat option" where
  "find_newline [] = None"
| "find_newline (x # xs) = (if x = 10 then Some 0 else map_option Suc (find_newline xs))"

definition line_parse :: "byte list \<Rightarrow> byte list parse_result" where
  "line_parse xs =
     (case find_newline xs of
        Some i \<Rightarrow> Message (take i xs) (i + 1)
      | None \<Rightarrow> if length xs \<ge> kMaxLine then ParseError (make_error CatFrame ErrFrameTooLarge)
                else NeedMore 1)"

lemma find_newline_bound: "find_newline xs = Some i \<Longrightarrow> i < length xs"
  by (induction xs arbitrary: i) (auto split: if_splits)

lemma find_newline_append: "find_newline xs = Some i \<Longrightarrow> find_newline (xs @ ys) = Some i"
  by (induction xs arbitrary: i) (auto split: if_splits)

interpretation line: framer_base "\<lambda>xs. Some (line_parse xs)"
proof
  show "Some (line_parse xs) \<noteq> None" for xs by simp
  show "Some (line_parse xs) = Some (Message m c) \<Longrightarrow> 0 < c \<and> c \<le> length xs" for xs m c
    by (auto simp: line_parse_def dest: find_newline_bound split: option.splits if_splits)
  show "Some (line_parse xs) = Some (Message m c) \<Longrightarrow> Some (line_parse (xs @ ys)) = Some (Message m c)"
    for xs m c ys
    using find_newline_bound [of xs] find_newline_append [of xs _ ys]
    by (cases "find_newline xs") (auto simp: line_parse_def less_imp_le split: if_splits)
  show "Some (line_parse xs) = Some (NeedMore n) \<Longrightarrow> 0 < n" for xs n
    by (auto simp: line_parse_def split: option.splits if_splits)
  show "\<exists>n'. Some (line_parse (xs @ ys)) = Some (NeedMore n')"
    if "Some (line_parse xs) = Some (NeedMore n)" "length ys < n" for xs n ys
    using that by (auto simp: line_parse_def split: option.splits if_splits)
qed

text \<open>
  The line protocol is not a \<open>framer\<close>: whether a long line is an error depends on how the stream
  was cut. In one piece a line of the limit's length is a message; with its newline in a second
  piece it is an error.
\<close>

lemma line_limit_depends_on_cut:
  "feed (\<lambda>xs. Some (line_parse xs)) [] [replicate kMaxLine 65 @ [10]] = Some ([replicate kMaxLine 65], None)"
  "feed (\<lambda>xs. Some (line_parse xs)) [] [replicate kMaxLine 65, [10]] =
     Some ([], Some (make_error CatFrame ErrFrameTooLarge))"
proof -
  have n: "find_newline (replicate k 65) = None" for k
    by (induction k) simp_all
  have f: "find_newline (replicate k 65 @ [10]) = Some k" for k
    by (induction k) simp_all
  show "feed (\<lambda>xs. Some (line_parse xs)) [] [replicate kMaxLine 65 @ [10]] = Some ([replicate kMaxLine 65], None)"
    by (simp add: parse_stream.simps line_parse_def f kMaxLine_def)
  show "feed (\<lambda>xs. Some (line_parse xs)) [] [replicate kMaxLine 65, [10]] =
     Some ([], Some (make_error CatFrame ErrFrameTooLarge))"
    by (simp add: parse_stream.simps line_parse_def n kMaxLine_def)
qed

section \<open>Properties\<close>


text \<open>
  Echo frames survive the wire. Payloads of at most 65535 bytes framed one after the other
  come back as exactly those messages in order, however the stream is cut.
\<close>

theorem echo_stream_roundtrip:
  assumes "\<And>b. b \<in> set bodies \<Longrightarrow> length b < 2 ^ 16"
    and "concat chs = concat (map echo_frame bodies)"
  shows "feed (fh_parse echo_proto) [] chs = Some (map echo_message bodies, None)"
proof (rule echo.segmented_frames [where enc = "\<lambda>m. echo_frame (fv_body m)"])
  show "\<exists>n. fh_parse echo_proto (echo_frame (fv_body m)) = Some (Message m n) \<and> n = length (echo_frame (fv_body m))"
    if "m \<in> set (map echo_message bodies)" for m
    using that assms(1) echo_frame_parses by (auto simp: echo_message_def)
  show "concat chs = concat (map (\<lambda>m. echo_frame (fv_body m)) (map echo_message bodies))"
    using assms(2) by (simp add: comp_def echo_message_def)
qed


theorem echo_stream_roundtrip_witness:
  "feed (fh_parse echo_proto) [] [[0xA5, 0], [2, 1, 42], [43, 0xA5, 0, 0, 1]] =
     Some (map echo_message [[42, 43], []], None)"
  by (rule echo_stream_roundtrip)
    (auto simp: echo_frame_def store16_def be16_def byteswap16_def)

end
