(* ===== verification/Http.thy ===== *)
theory Http
  imports Framing
begin

text \<open>
  The HTTP/1.1 subset of the admin endpoint: \<^verbatim>\<open>include/afx/admin/http.hpp\<close> and
  \<^verbatim>\<open>src/admin/http.cpp\<close>. String views are byte lists; \<^verbatim>\<open>npos\<close> is \<open>None\<close>.
  The protocol is shown to be a \<open>framer\<close>, and a request in the usual form is shown to parse
  back to its parts.
\<close>

section \<open>String views\<close>

definition ascii :: "string \<Rightarrow> byte list" where
  "ascii s = map of_char s"

abbreviation CR :: byte where "CR \<equiv> 13"

abbreviation LF :: byte where "LF \<equiv> 10"

abbreviation SP :: byte where "SP \<equiv> 32"

definition has_prefix :: "byte list \<Rightarrow> byte list \<Rightarrow> bool" where
  "has_prefix p xs \<longleftrightarrow> take (length p) xs = p"

fun find_sub :: "byte list \<Rightarrow> byte list \<Rightarrow> nat option" where
  "find_sub pat [] = (if pat = [] then Some 0 else None)"
| "find_sub pat (x # xs) = (if has_prefix pat (x # xs) then Some 0 else map_option Suc (find_sub pat xs))"

definition find_char :: "byte \<Rightarrow> byte list \<Rightarrow> nat option" where
  "find_char c xs = find_sub [c] xs"

definition rfind_char :: "byte \<Rightarrow> byte list \<Rightarrow> nat option" where
  "rfind_char c xs = map_option (\<lambda>i. length xs - 1 - i) (find_char c (rev xs))"

definition iequals :: "byte list \<Rightarrow> byte list \<Rightarrow> bool" where
  "iequals a b \<longleftrightarrow> length a = length b \<and> list_all2 (\<lambda>x y. or x 0x20 = or y 0x20) a b"

section \<open>Content-Length\<close>

definition is_ows :: "byte \<Rightarrow> bool" where
  "is_ows c \<longleftrightarrow> c = SP \<or> c = 9"

definition trim_ows :: "byte list \<Rightarrow> byte list" where
  "trim_ows v = rev (dropWhile is_ows (rev (dropWhile is_ows v)))"

fun parse_digits :: "nat \<Rightarrow> byte list \<Rightarrow> nat option" where
  "parse_digits n [] = Some n"
| "parse_digits n (c # cs) =
     (if c < 48 \<or> c > 57 then None else parse_digits (n * 10 + (unat c - 48)) cs)"

definition parse_content_length :: "byte list \<Rightarrow> nat option" where
  "parse_content_length v =
     (let v = trim_ows v in if v = [] \<or> length v > 10 then None else parse_digits 0 v)"

section \<open>Requests\<close>

record http_request =
  hr_method :: "byte list"
  hr_path :: "byte list"
  hr_query :: "byte list"
  hr_version :: "byte list"
  hr_body :: "byte list"
  hr_content_length :: nat

record http_proto =
  max_head :: nat
  max_body :: nat

definition http_default :: http_proto where
  "http_default = \<lparr>max_head = 16 * 1024, max_body = 2 ^ 20\<rparr>"

definition bad_request :: error where
  "bad_request = make_error CatFrame ErrInvalid"

definition too_large :: error where
  "too_large = make_error CatFrame ErrFrameTooLarge"

text \<open>
  The loop over the header lines: \<open>rest\<close> is the head from \<^verbatim>\<open>pos\<close> on. \<open>None\<close> is the malformed
  \<open>Content-Length\<close>.
\<close>

function header_loop :: "byte list \<Rightarrow> nat \<Rightarrow> nat option" where
  "header_loop rest cl =
     (if 2 < length rest then
        (case find_sub [CR, LF] rest of
           None \<Rightarrow> Some cl
         | Some nl \<Rightarrow>
           (let h = take nl rest; rest' = drop (nl + 2) rest in
            case find_char 58 h of
              None \<Rightarrow> header_loop rest' cl
            | Some colon \<Rightarrow>
              if iequals (take colon h) (ascii ''content-length'') then
                (case parse_content_length (drop (colon + 1) h) of
                   None \<Rightarrow> None
                 | Some n \<Rightarrow> header_loop rest' n)
              else header_loop rest' cl))
      else Some cl)"
  by pat_completeness auto
termination by (relation "measure (\<lambda>(rest, cl). length rest)") auto

declare header_loop.simps [simp del]

definition split_target :: "byte list \<Rightarrow> byte list \<times> byte list" where
  "split_target target =
     (case find_char 63 target of
        Some q \<Rightarrow> (take q target, drop (q + 1) target)
      | None \<Rightarrow> (target, []))"

text \<open>The request line, \<open>None\<close> when it is malformed.\<close>

definition request_line :: "byte list \<Rightarrow> http_request option" where
  "request_line line =
     (case (find_char SP line, rfind_char SP line) of
        (Some sp1, Some sp2) \<Rightarrow>
          if sp2 = sp1 then None
          else (let target = take (sp2 - sp1 - 1) (drop (sp1 + 1) line);
                    (path, query) = split_target target
                in Some \<lparr>hr_method = take sp1 line, hr_path = path, hr_query = query,
                     hr_version = drop (sp2 + 1) line, hr_body = [], hr_content_length = 0\<rparr>)
      | _ \<Rightarrow> None)"

text \<open>What the head determines: the request line and the announced body size.\<close>

definition parse_head :: "http_proto \<Rightarrow> byte list \<Rightarrow> error + (http_request \<times> nat)" where
  "parse_head p head =
     (case find_sub [CR, LF] head of
        None \<Rightarrow> Inl bad_request
      | Some eol \<Rightarrow>
        (case request_line (take eol head) of
           None \<Rightarrow> Inl bad_request
         | Some req \<Rightarrow>
           (case header_loop (drop (eol + 2) head) 0 of
              None \<Rightarrow> Inl bad_request
            | Some content_length \<Rightarrow>
                if content_length > max_body p then Inl too_large else Inr (req, content_length))))"

definition http_parse :: "http_proto \<Rightarrow> byte list \<Rightarrow> http_request parse_result" where
  "http_parse p xs =
     (let scan = min (length xs) (max_head p) in
      case find_sub [CR, LF, CR, LF] (take scan xs) of
        None \<Rightarrow> if length xs \<ge> max_head p then ParseError too_large else NeedMore 1
      | Some i \<Rightarrow>
        (let head_end = i + 4 in
         case parse_head p (take head_end xs) of
           Inl e \<Rightarrow> ParseError e
         | Inr (req, content_length) \<Rightarrow>
           (let total = head_end + content_length in
            if length xs < total then NeedMore (total - length xs)
            else Message (req\<lparr>hr_content_length := content_length,
                   hr_body := take content_length (drop head_end xs)\<rparr>) total)))"

section \<open>Responses\<close>

text \<open>\<^verbatim>\<open>std::to_string\<close> of a size.\<close>

fun to_digits :: "nat \<Rightarrow> byte list" where
  "to_digits n = (if n < 10 then [of_nat (48 + n)] else to_digits (n div 10) @ [of_nat (48 + n mod 10)])"

declare to_digits.simps [simp del]

definition http_response :: "nat \<Rightarrow> byte list \<Rightarrow> byte list \<Rightarrow> byte list \<Rightarrow> byte list" where
  "http_response status reason content_type body =
     ascii ''HTTP/1.1 '' @ to_digits status @ [SP] @ reason
     @ [CR, LF] @ ascii ''Content-Type: '' @ content_type
     @ [CR, LF] @ ascii ''Content-Length: '' @ to_digits (length body)
     @ [CR, LF] @ ascii ''Connection: close'' @ [CR, LF, CR, LF] @ body"

section \<open>Searching\<close>

lemma find_sub_bound: "find_sub pat xs = Some i \<Longrightarrow> i + length pat \<le> length xs"
proof (induction xs arbitrary: i)
  case (Cons x xs)
  have "has_prefix pat (x # xs) \<Longrightarrow> length pat \<le> length (x # xs)"
    unfolding has_prefix_def by (metis length_take min.cobounded1)
  with Cons show ?case by (auto split: if_splits)
qed (simp split: if_splits)

lemma has_prefix_append: "has_prefix pat xs \<Longrightarrow> has_prefix pat (xs @ ys)"
  unfolding has_prefix_def by (metis append_take_drop_id append.assoc append_eq_conv_conj)

lemma has_prefix_long: "length pat \<le> length xs \<Longrightarrow> has_prefix pat (xs @ ys) \<longleftrightarrow> has_prefix pat xs"
  by (simp add: has_prefix_def)

lemma find_sub_append: "find_sub pat xs = Some i \<Longrightarrow> find_sub pat (xs @ ys) = Some i"
proof (induction xs arbitrary: i)
  case Nil
  then show ?case by (cases ys) (auto simp: has_prefix_def split: if_splits)
next
  case (Cons x xs)
  show ?case
  proof (cases "has_prefix pat (x # xs)")
    case True
    with Cons.prems has_prefix_append [of pat "x # xs" ys] show ?thesis by simp
  next
    case False
    with Cons.prems obtain j where j: "find_sub pat xs = Some j" "i = Suc j" by auto
    from find_sub_bound [OF j(1)] have "length pat \<le> length (x # xs)" by simp
    from has_prefix_long [OF this, of ys] False j Cons.IH [OF j(1)] show ?thesis by simp
  qed
qed

section \<open>The protocol is a framer\<close>

lemma scan_append:
  "take (min (length (xs @ ys)) m) (xs @ ys) = take (min (length xs) m) xs @ take (m - length xs) ys"
  by (auto simp: min_def)

lemma take_drop_within: "j + n \<le> length xs \<Longrightarrow> take n (drop j xs @ ys) = take n (drop j xs)"
  by simp

lemma http_parse_found:
  assumes "find_sub [CR, LF, CR, LF] (take (min (length xs) (max_head p)) xs) = Some i"
  shows "find_sub [CR, LF, CR, LF] (take (min (length (xs @ ys)) (max_head p)) (xs @ ys)) = Some i"
    and "take (i + 4) (xs @ ys) = take (i + 4) xs" and "i + 4 \<le> length xs"
proof -
  show "find_sub [CR, LF, CR, LF] (take (min (length (xs @ ys)) (max_head p)) (xs @ ys)) = Some i"
    unfolding scan_append by (rule find_sub_append [OF assms])
  show "i + 4 \<le> length xs" using find_sub_bound [OF assms] by simp
  then show "take (i + 4) (xs @ ys) = take (i + 4) xs" by simp
qed

interpretation http: framer "\<lambda>xs. Some (http_parse p xs)" for p
proof
  let ?find = "\<lambda>xs. find_sub [CR, LF, CR, LF] (take (min (length xs) (max_head p)) xs)"
  show "Some (http_parse p xs) \<noteq> None" for xs by simp
  show "Some (http_parse p xs) = Some (Message m c) \<Longrightarrow> 0 < c \<and> c \<le> length xs" for xs m c
    by (auto simp: http_parse_def Let_def split: option.splits sum.splits prod.splits if_splits)
  show "Some (http_parse p xs) = Some (NeedMore n) \<Longrightarrow> 0 < n" for xs n
    by (auto simp: http_parse_def Let_def split: option.splits sum.splits prod.splits if_splits)
  fix xs ys
  note found = http_parse_found(1) [of xs p _ ys] http_parse_found(2) [of xs p _ ys]
    http_parse_found(3) [of xs p]
  show "Some (http_parse p xs) = Some (Message m c) \<Longrightarrow> Some (http_parse p (xs @ ys)) = Some (Message m c)"
    for m c
    using found by (cases "?find xs")
      (auto simp: http_parse_def Let_def take_drop_within simp del: take_append
        split: sum.splits prod.splits if_splits)
  show "\<exists>n'. Some (http_parse p (xs @ ys)) = Some (NeedMore n')"
    if "Some (http_parse p xs) = Some (NeedMore n)" "length ys < n" for n
    using that found by (cases "?find xs")
      (auto simp: http_parse_def Let_def simp del: take_append split: sum.splits prod.splits if_splits)
  show "Some (http_parse p xs) = Some (ParseError e) \<Longrightarrow> Some (http_parse p (xs @ ys)) = Some (ParseError e)"
    for e
    using found by (cases "?find xs")
      (auto simp: http_parse_def Let_def split: sum.splits prod.splits if_splits)
qed

section \<open>Requests in the usual form\<close>

definition crlf_lines :: "byte list list \<Rightarrow> byte list" where
  "crlf_lines ls = concat (map (\<lambda>l. l @ [CR, LF]) ls)"

definition header_line :: "byte list \<times> byte list \<Rightarrow> byte list" where
  "header_line h = fst h @ [58, SP] @ snd h"

definition head_lines ::
  "byte list \<Rightarrow> byte list \<Rightarrow> byte list \<Rightarrow> byte list \<Rightarrow> (byte list \<times> byte list) list \<Rightarrow> byte list \<Rightarrow> byte list list" where
  "head_lines m path query v hs body =
     (m @ [SP] @ path @ 63 # query @ SP # v) #
     map header_line (hs @ [(ascii ''Content-Length'', to_digits (length body))])"

definition http_request_text ::
  "byte list \<Rightarrow> byte list \<Rightarrow> byte list \<Rightarrow> byte list \<Rightarrow> (byte list \<times> byte list) list \<Rightarrow> byte list \<Rightarrow> byte list" where
  "http_request_text m path query v hs body =
     crlf_lines (head_lines m path query v hs body) @ [CR, LF] @ body"

lemma find_sub_skip:
  assumes "pat = c # cs" "c \<notin> set a"
  shows "find_sub pat (a @ xs) = map_option (\<lambda>i. length a + i) (find_sub pat xs)"
  using assms
  by (induction a; cases "find_sub pat xs") (auto simp: has_prefix_def)

lemma find_sub_here: "pat \<noteq> [] \<Longrightarrow> find_sub pat (pat @ xs) = Some 0"
  by (cases pat) (simp_all add: has_prefix_def)

lemma find_crlf: "CR \<notin> set a \<Longrightarrow> find_sub [CR, LF] (a @ CR # LF # xs) = Some (length a)"
  using find_sub_skip [of "[CR, LF]" CR "[LF]" a "CR # LF # xs"] find_sub_here [of "[CR, LF]" xs] by simp

lemma find_char_skip: "c \<notin> set a \<Longrightarrow> find_char c (a @ c # xs) = Some (length a)"
  using find_sub_skip [of "[c]" c "[]" a "c # xs"] find_sub_here [of "[c]" xs] by (simp add: find_char_def)

lemma rfind_char_skip: "c \<notin> set b \<Longrightarrow> rfind_char c (a @ c # b) = Some (length a)"
  using find_char_skip [of c "rev b" "rev a"] by (simp add: rfind_char_def)

lemma find_head_end:
  assumes "ls \<noteq> []" "\<And>l. l \<in> set ls \<Longrightarrow> l \<noteq> [] \<and> CR \<notin> set l"
  shows "find_sub [CR, LF, CR, LF] (crlf_lines ls @ CR # LF # xs) = Some (length (crlf_lines ls) - 2)"
  using assms
proof (induction ls rule: induct_list012)
  case (2 l)
  then show ?case
    using find_sub_skip [of "[CR, LF, CR, LF]" CR "[LF, CR, LF]" l "CR # LF # CR # LF # xs"]
      find_sub_here [of "[CR, LF, CR, LF]" xs]
    by (simp add: crlf_lines_def)
next
  case (3 l l' ls)
  let ?r = "crlf_lines (l' # ls) @ CR # LF # xs"
  from 3 (4) [of l'] obtain x xs' where "?r = x # xs'" "x \<noteq> CR" by (cases l') (auto simp: crlf_lines_def)
  then have "find_sub [CR, LF, CR, LF] (CR # LF # ?r) = map_option (\<lambda>i. i + 2) (find_sub [CR, LF, CR, LF] ?r)"
    by (auto simp: has_prefix_def option.map_comp comp_def)
  moreover have "2 \<le> length (crlf_lines (l' # ls))" by (simp add: crlf_lines_def)
  ultimately show ?case
    using 3 find_sub_skip [of "[CR, LF, CR, LF]" CR "[LF, CR, LF]" l "CR # LF # ?r"]
    by (simp add: crlf_lines_def)
qed simp

lemma header_loop_end: "header_loop [CR, LF] cl = Some cl"
  by (simp add: header_loop.simps)

lemma header_line_parts:
  "58 \<notin> set n \<Longrightarrow> find_char 58 (header_line (n, v)) = Some (length n)"
  "take (length n) (header_line (n, v)) = n" "drop (Suc (length n)) (header_line (n, v)) = SP # v"
  "header_line (n, v) \<noteq> []"
  using find_char_skip [of 58 n "SP # v"] by (simp_all add: header_line_def)

lemma header_loop_other:
  assumes "CR \<notin> set (header_line (n, v))" "58 \<notin> set n" "\<not> iequals n (ascii ''content-length'')"
  shows "header_loop (header_line (n, v) @ CR # LF # rest) cl = header_loop rest cl"
  using find_crlf [OF assms(1), of rest] assms(3) assms(2) header_line_parts [of n v]
  by (subst header_loop.simps) simp

lemma header_loop_length:
  assumes "CR \<notin> set (header_line (n, v))" "58 \<notin> set n" "iequals n (ascii ''content-length'')"
    and "parse_content_length (SP # v) = Some k"
  shows "header_loop (header_line (n, v) @ CR # LF # rest) cl = header_loop rest k"
  using find_crlf [OF assms(1), of rest] assms(3,4) assms(2) header_line_parts [of n v]
  by (subst header_loop.simps) simp

lemma parse_digits_append:
  "parse_digits n (xs @ ys) = Option.bind (parse_digits n xs) (\<lambda>k. parse_digits k ys)"
  by (induction xs arbitrary: n) simp_all

lemma digit_unat: "d < 10 \<Longrightarrow> unat (of_nat (48 + d) :: byte) = 48 + d"
  by (subst unat_of_nat) (simp add: take_bit_nat_eq_self)

lemma parse_digit: "d < 10 \<Longrightarrow> parse_digits n [of_nat (48 + d)] = Some (n * 10 + d)"
  using digit_unat [of d] by (simp add: word_less_nat_alt del: of_nat_add)

lemma parse_to_digits: "parse_digits 0 (to_digits n) = Some n"
proof (induction n rule: to_digits.induct)
  case (1 n)
  show ?case
  proof (cases "n < 10")
    case True
    then show ?thesis using parse_digit [of n 0] by (simp add: to_digits.simps [of n])
  next
    case False
    with 1 parse_digit [of "n mod 10" "n div 10"] show ?thesis
      by (simp add: to_digits.simps [of n] parse_digits_append del: of_nat_add)
  qed
qed

lemma to_digits_range: "c \<in> set (to_digits n) \<Longrightarrow> 48 \<le> c \<and> c \<le> 57"
proof (induction n rule: to_digits.induct)
  case (1 n)
  have "d < 10 \<Longrightarrow> (48 :: byte) \<le> of_nat (48 + d) \<and> (of_nat (48 + d) :: byte) \<le> 57" for d
    using digit_unat [of d] by (simp add: word_le_nat_alt del: of_nat_add)
  from this [of n] this [of "n mod 10"] 1 show ?case
    by (auto simp: to_digits.simps [of n] simp del: of_nat_add split: if_splits)
qed

lemma to_digits_length: "n < 10 ^ Suc k \<Longrightarrow> length (to_digits n) \<le> Suc k"
proof (induction k arbitrary: n)
  case (Suc k)
  then have "n div 10 < 10 ^ Suc k" by simp
  with Suc.IH [of "n div 10"] show ?case by (simp add: to_digits.simps [of n])
qed (simp add: to_digits.simps)

lemma to_digits_nonempty: "to_digits n \<noteq> []"
  by (simp add: to_digits.simps)

lemma digits_no_ows: "c \<in> set (to_digits n) \<Longrightarrow> \<not> is_ows c"
  using to_digits_range [of c n] by (auto simp: is_ows_def)

lemma parse_content_length_digits:
  assumes "n < 10 ^ 10"
  shows "parse_content_length (SP # to_digits n) = Some n"
proof -
  have "dropWhile is_ows (SP # to_digits n) = to_digits n"
    using digits_no_ows [of "hd (to_digits n)" n] to_digits_nonempty [of n]
    by (cases "to_digits n") (simp_all add: is_ows_def)
  moreover have "dropWhile is_ows (rev (to_digits n)) = rev (to_digits n)"
    using digits_no_ows [of "last (to_digits n)" n] to_digits_nonempty [of n]
    by (cases "to_digits n" rule: rev_exhaust) simp_all
  ultimately have "trim_ows (SP # to_digits n) = to_digits n" by (simp add: trim_ows_def)
  with parse_to_digits [of n] to_digits_length [of n 9] to_digits_nonempty [of n] assms show ?thesis
    by (simp add: parse_content_length_def)
qed

lemma header_loop_others:
  assumes "\<And>n v. (n, v) \<in> set hs \<Longrightarrow>
      CR \<notin> set (header_line (n, v)) \<and> 58 \<notin> set n \<and> \<not> iequals n (ascii ''content-length'')"
  shows "header_loop (crlf_lines (map header_line hs) @ rest) cl = header_loop rest cl"
  using assms
proof (induction hs)
  case (Cons h hs)
  obtain n v where h: "h = (n, v)" by fastforce
  have "header_loop (crlf_lines (map header_line hs) @ rest) cl = header_loop rest cl"
    by (rule Cons.IH) (use Cons.prems in auto)
  with h Cons.prems [of n v] header_loop_other [of n v "crlf_lines (map header_line hs) @ rest" cl]
  show ?case by (simp add: crlf_lines_def)
qed (simp add: crlf_lines_def)

lemma request_line_parses:
  assumes "SP \<notin> set m" "SP \<notin> set v" "63 \<notin> set path"
  shows "request_line (m @ [SP] @ path @ 63 # query @ SP # v) =
     Some \<lparr>hr_method = m, hr_path = path, hr_query = query, hr_version = v, hr_body = [],
       hr_content_length = 0\<rparr>"
proof -
  let ?t = "path @ 63 # query"
  have "find_char SP (m @ SP # ?t @ SP # v) = Some (length m)"
    by (rule find_char_skip [OF assms(1)])
  moreover have "rfind_char SP ((m @ SP # ?t) @ SP # v) = Some (length (m @ SP # ?t))"
    by (rule rfind_char_skip [OF assms(2)])
  moreover have "split_target ?t = (path, query)"
    using find_char_skip [OF assms(3), of query] by (simp add: split_target_def)
  ultimately show ?thesis by (simp add: request_line_def numeral_3_eq_3)
qed

text \<open>What a request in the usual form must satisfy to be one.\<close>

definition http_wf :: "http_proto \<Rightarrow> byte list \<Rightarrow> byte list \<Rightarrow> byte list \<Rightarrow> byte list \<Rightarrow>
    (byte list \<times> byte list) list \<Rightarrow> byte list \<Rightarrow> bool" where
  "http_wf p m path query v hs body \<longleftrightarrow>
     SP \<notin> set m \<and> SP \<notin> set v \<and> 63 \<notin> set path \<and> CR \<notin> set (m @ path @ query @ v) \<and>
     list_all (\<lambda>(n, v). CR \<notin> set (n @ v) \<and> 58 \<notin> set n \<and> \<not> iequals n (ascii ''content-length'')) hs \<and>
     length (crlf_lines (head_lines m path query v hs body)) + 2 \<le> max_head p \<and>
     length body \<le> max_body p \<and> length body < 10 ^ 10"

lemma content_length_name:
  "iequals (ascii ''Content-Length'') (ascii ''content-length'')"
  "58 \<notin> set (ascii ''Content-Length'')" "CR \<notin> set (ascii ''Content-Length'')"
  by code_simp+

lemma parse_head_line:
  assumes "CR \<notin> set l" "request_line l = Some req" "header_loop r 0 = Some cl" "cl \<le> max_body p"
  shows "parse_head p (l @ CR # LF # r) = Inr (req, cl)"
  using find_crlf [OF assms(1), of r] assms by (simp add: parse_head_def)

lemma parse_head_text:
  assumes "http_wf p m path query v hs body"
  shows "parse_head p (crlf_lines (head_lines m path query v hs body) @ [CR, LF]) =
     Inr (\<lparr>hr_method = m, hr_path = path, hr_query = query, hr_version = v, hr_body = [],
       hr_content_length = 0\<rparr>, length body)"
proof -
  let ?cl = "(ascii ''Content-Length'', to_digits (length body))"
  let ?l = "m @ [SP] @ path @ 63 # query @ SP # v"
  let ?r = "crlf_lines (map header_line (hs @ [?cl])) @ [CR, LF]"
  have tx: "crlf_lines (head_lines m path query v hs body) @ [CR, LF] = ?l @ CR # LF # ?r"
    by (simp add: head_lines_def crlf_lines_def)
  have nocr: "CR \<notin> set ?l" using assms by (auto simp: http_wf_def)
  have "CR \<notin> set (header_line ?cl)"
    using to_digits_range [of CR "length body"] content_length_name(3) by (auto simp: header_line_def)
  from header_loop_length [OF this content_length_name(2,1) parse_content_length_digits, of "[CR, LF]" 0]
  have "header_loop (header_line ?cl @ [CR, LF, CR, LF]) 0 = Some (length body)"
    using assms by (simp add: http_wf_def header_loop_end)
  moreover have "header_loop ?r 0 = header_loop (header_line ?cl @ [CR, LF, CR, LF]) 0"
    using header_loop_others [of hs "header_line ?cl @ [CR, LF, CR, LF]" 0] assms
    by (auto simp: http_wf_def list_all_iff header_line_def crlf_lines_def)
  ultimately have "header_loop ?r 0 = Some (length body)" by simp
  then show ?thesis unfolding tx
    by (intro parse_head_line [OF nocr request_line_parses]) (use assms in \<open>auto simp: http_wf_def\<close>)
qed

lemma head_lines_clean:
  assumes "http_wf p m path query v hs body" "l \<in> set (head_lines m path query v hs body)"
  shows "l \<noteq> [] \<and> CR \<notin> set l"
  using assms to_digits_range [of CR "length body"] content_length_name(3)
  by (auto simp: http_wf_def head_lines_def header_line_def list_all_iff)

section \<open>Properties\<close>

text \<open>
  The HTTP parser is independent of segmentation: on every request stream, cut into any
  pieces, the read loop ends with the requests and the error of the whole stream.
\<close>

theorem http_segmentation:
  assumes "0 < max_head p"
  shows "\<exists>r. feed (\<lambda>xs. Some (http_parse p xs)) [] chs = Some r \<and>
    frames_of (\<lambda>xs. Some (http_parse p xs)) (concat chs) = Some r"
proof -
  have "parse_stream (\<lambda>xs. Some (http_parse p xs)) [] = Some ([], [], None)"
    using assms by (simp add: parse_stream.simps http_parse_def)
  from http.feed_frames_of [OF this, of chs] http.stream_returns [of p "concat chs"] show ?thesis
    by (auto simp: frames_of_def)
qed

theorem http_segmentation_witness:
  "\<exists>r. feed (\<lambda>xs. Some (http_parse http_default xs)) [] [ascii ''GET /st'', ascii ''ats HTTP/1.1''] = Some r \<and>
    frames_of (\<lambda>xs. Some (http_parse http_default xs))
      (concat [ascii ''GET /st'', ascii ''ats HTTP/1.1'']) = Some r"
  by (rule http_segmentation) (simp add: http_default_def)

text \<open>
  C23: Print and parse. A request with any method, path, query, version, headers and body, written
  in the usual form within the limits, parses to exactly those parts and uses exactly its own
  bytes, whatever follows it.
\<close>

theorem http_request_roundtrip:
  assumes "http_wf p m path query v hs body"
  shows "http_parse p (http_request_text m path query v hs body @ rest) =
     Message \<lparr>hr_method = m, hr_path = path, hr_query = query, hr_version = v, hr_body = body,
         hr_content_length = length body\<rparr> (length (http_request_text m path query v hs body))"
proof -
  let ?h = "crlf_lines (head_lines m path query v hs body)"
  let ?xs = "http_request_text m path query v hs body @ rest"
  have ge: "2 \<le> length ?h" by (simp add: head_lines_def crlf_lines_def)
  have xs: "?xs = (?h @ [CR, LF]) @ body @ rest" by (simp add: http_request_text_def)
  have le: "length ?h + 2 \<le> max_head p" "length body \<le> max_body p" using assms by (auto simp: http_wf_def)
  have "take (min (length ?xs) (max_head p)) ?xs
      = (?h @ [CR, LF]) @ take (max_head p - length (?h @ [CR, LF])) (body @ rest)"
    unfolding xs using le(1) by (simp only: take_append) (simp add: min_def)
  moreover have "find_sub [CR, LF, CR, LF] (?h @ CR # LF # r) = Some (length ?h - 2)" for r
    by (rule find_head_end) (use head_lines_clean [OF assms] in \<open>auto simp: head_lines_def\<close>)
  ultimately have f: "find_sub [CR, LF, CR, LF] (take (min (length ?xs) (max_head p)) ?xs) = Some (length ?h - 2)"
    by simp
  have e: "length ?h - 2 + 4 = length (?h @ [CR, LF])" using ge by simp
  have "take (length (?h @ [CR, LF])) ?xs = ?h @ [CR, LF]" "drop (length (?h @ [CR, LF])) ?xs = body @ rest"
    unfolding xs by simp_all
  with f parse_head_text [OF assms] show ?thesis
    unfolding http_parse_def Let_def by (simp only: f e option.case sum.case prod.case)
      (simp add: http_request_text_def)
qed

theorem http_request_roundtrip_witness:
  "http_parse http_default
     (http_request_text (ascii ''POST'') (ascii ''/stop'') (ascii ''g=1'') (ascii ''HTTP/1.1'')
        [(ascii ''Host'', ascii ''a:80'')] (ascii ''now'') @ ascii ''GET'') =
     Message \<lparr>hr_method = ascii ''POST'', hr_path = ascii ''/stop'', hr_query = ascii ''g=1'',
         hr_version = ascii ''HTTP/1.1'', hr_body = ascii ''now'', hr_content_length = length (ascii ''now'')\<rparr>
       (length (http_request_text (ascii ''POST'') (ascii ''/stop'') (ascii ''g=1'') (ascii ''HTTP/1.1'')
        [(ascii ''Host'', ascii ''a:80'')] (ascii ''now'')))"
  by (rule http_request_roundtrip)
    (simp add: http_wf_def ascii_def head_lines_def crlf_lines_def header_line_def http_default_def
      iequals_def to_digits.simps)

text \<open>
  The name comparison folds more than letter case: a carriage return has the code of the minus
  sign without the folded bit, so it is accepted in its place.
\<close>

lemma iequals_accepts_cr: "iequals (ascii ''content'' @ [CR] @ ascii ''length'') (ascii ''content-length'')"
  by code_simp

end
