(* ===== verification/Connection.thy ===== *)
theory Connection
  imports Framing Io_Buffer Backend_Api
begin

text \<open>
  A TCP connection: \<^verbatim>\<open>include/afx/net/connection.hpp\<close> and the flow-control types of
  \<^verbatim>\<open>include/afx/net/socket.hpp\<close>. The connection's own members are fields of \<open>conn\<close>; what it
  asks of the event manager, the kernel and the application is appended to \<open>cn_log\<close> in the order
  of the calls.

  Application code (handlers and a session coroutine) is a list of calls on the connection it
  makes when it is run, chosen from everything the connection holds at that moment. In state
  \<open>Closing\<close> or \<open>Closed\<close> every such call returns at once (\<open>run_actions_closing\<close>), so what \<open>on_close\<close> and
  a coroutine woken by the teardown do to the connection is nothing.

  A read is armed on a span of the read buffer's block, kept as offset and length; its completion
  finds the bytes stored there. Undefined behaviour of the buffer or the framer is \<open>None\<close>.
  Flight-recorder entries are left out.
\<close>

section \<open>Types\<close>

datatype conn_state = Connecting | Established | ShutdownWrite | Closing | Closed

datatype close_reason =
  PeerFin | LocalClose | FrameError | IdleTimeout | WriteOverflowed | SocketError | ConnectFailed
| ShutdownClose | HeldOverflow

datatype write_overflow = Disconnect | DropNewest | DropOldest | StopReading

record flow_control =
  write_high_watermark :: nat
  write_low_watermark :: nat
  on_overflow :: write_overflow
  auto_pause_reads :: bool

datatype send_result = Sent | Queued | Backpressured | Dropped | SendClosed

record conn_params =
  cp_flow :: flow_control
  cp_idle_read_timeout :: duration
  cp_read_buffer_size :: nat
  cp_timestamping :: bool
  cp_fd_passing :: bool

text \<open>Calls of the connection on its surroundings.\<close>

datatype 'm conn_event =
  EvSubmitRecv int nat nat | EvSubmitSend int nat nat | EvCancelRecv | EvDetach int | EvCloseFd int
| EvShutdownWr int | EvSetTimestamping int | EvSetFdInbox int | EvCancelTimer | EvArmTimer duration
| EvCancelGroup | EvNoteWritePending | EvReleaseSink | EvOnOpen | EvOnMessages "'m list"
| EvOnClose close_reason | EvOnError error | EvOnWritable | EvOnFds "int list"
| EvNotify close_reason bool | EvResumeRecv "'m list result" | EvResumeSend send_result

record conn_stats =
  st_bytes_in :: nat
  st_bytes_out :: nat
  st_frame_errors :: nat
  st_msgs_in :: nat
  st_write_hwm_hits :: nat
  st_write_drops :: nat
  st_conns_closed :: nat

text \<open>The state of a session coroutine that owns the connection's pacing.\<close>

record 'm coro_state =
  co_recv_parked :: bool
  co_send_parked :: "byte list option"
  co_held :: "'m list"
  co_delivered :: "'m list"
  co_armed :: bool
  co_on :: bool

record 'm conn =
  cn_coro :: "'m coro_state"
  cn_fd :: int
  cn_params :: conn_params
  cn_read_buf :: io_buffer
  cn_write_buf :: io_buffer
  cn_write_inflight :: nat
  cn_parse_need :: nat
  cn_backpressured :: bool
  cn_read_paused :: bool
  cn_state :: conn_state
  cn_group :: bool
  cn_idle_timer :: bool
  cn_batch :: "'m list"
  cn_fd_inbox :: "int list"
  cn_recv_span :: "(nat \<times> nat) option"
  cn_em_running :: bool
  cn_stats :: conn_stats
  cn_log :: "'m conn_event list"

datatype action =
  ASend "byte list" | ASendScatter "byte list list" | AShutdownWrite | AClose close_reason
| ASendFds "byte list" "nat result" | ARecvReady | AAwaitRecv | AUnawaitRecv
| AAwaitSend "byte list" | AUnawaitSend

text \<open>A callback that is not set is \<open>None\<close>.\<close>

record 'm handlers =
  on_messages :: "('m list \<Rightarrow> 'm conn \<Rightarrow> action list) option"
  on_open :: "('m conn \<Rightarrow> action list) option"
  on_close :: bool
  on_error :: "(error \<Rightarrow> 'm conn \<Rightarrow> action list) option"
  on_writable :: "('m conn \<Rightarrow> action list) option"
  on_fds :: "(int list \<Rightarrow> 'm conn \<Rightarrow> action list) option"
  proto :: "byte list \<Rightarrow> 'm parse_result option"
  session :: "'m list \<Rightarrow> 'm conn \<Rightarrow> action list"
  session_sent :: "send_result \<Rightarrow> 'm conn \<Rightarrow> action list"

definition kCoroHeldCap :: nat where
  "kCoroHeldCap = 256"

definition batch_capacity :: nat where
  "batch_capacity = 64"

definition EAGAIN :: int where
  "EAGAIN = 11"

definition ECANCELED :: int where
  "ECANCELED = 125"

definition emit :: "'m conn_event \<Rightarrow> 'm conn \<Rightarrow> 'm conn" where
  "emit e c = c\<lparr>cn_log := cn_log c @ [e]\<rparr>"

definition no_stats :: conn_stats where
  "no_stats = \<lparr>st_bytes_in = 0, st_bytes_out = 0, st_frame_errors = 0, st_msgs_in = 0,
     st_write_hwm_hits = 0, st_write_drops = 0, st_conns_closed = 0\<rparr>"

definition no_coro :: "'m coro_state" where
  "no_coro = \<lparr>co_recv_parked = False, co_send_parked = None, co_held = [], co_delivered = [],
     co_armed = False, co_on = False\<rparr>"

definition conn_new :: "int \<Rightarrow> conn_params \<Rightarrow> bool \<Rightarrow> 'm conn" where
  "conn_new fd params running =
     \<lparr>cn_coro = no_coro, cn_fd = fd, cn_params = params,
      cn_read_buf = ib_new (cp_read_buffer_size params) 64, cn_write_buf = ib_new (2 ^ 16) 64,
      cn_write_inflight = 0, cn_parse_need = 0, cn_backpressured = False, cn_read_paused = False,
      cn_state = Connecting, cn_group = True, cn_idle_timer = False, cn_batch = [], cn_fd_inbox = [],
      cn_recv_span = None, cn_em_running = running, cn_stats = no_stats, cn_log = []\<rparr>"

section \<open>Teardown\<close>

definition coro_unawait_recv :: "'m conn \<Rightarrow> 'm conn" where
  "coro_unawait_recv c = c\<lparr>cn_coro := (cn_coro c)\<lparr>co_recv_parked := False\<rparr>\<rparr>"

definition coro_unawait_send :: "'m conn \<Rightarrow> 'm conn" where
  "coro_unawait_send c = c\<lparr>cn_coro := (cn_coro c)\<lparr>co_send_parked := None\<rparr>\<rparr>"

definition release_fd :: "'m conn \<Rightarrow> 'm conn" where
  "release_fd c =
     (if 0 \<le> cn_fd c
      then (emit (EvCloseFd (cn_fd c)) (emit (EvDetach (cn_fd c)) c))\<lparr>cn_fd := - 1\<rparr> else c)"

definition release_group :: "'m conn \<Rightarrow> 'm conn" where
  "release_group c = (if cn_group c then (emit EvCancelGroup c)\<lparr>cn_group := False\<rparr> else c)"

text \<open>Waiters are woken once the state is \<open>Closed\<close>.\<close>

definition wake_waiters :: "'m conn \<Rightarrow> 'm conn" where
  "wake_waiters c =
     (let c = (if co_recv_parked (cn_coro c)
               then emit (EvResumeRecv (Inl (make_error CatNet ErrClosed))) (coro_unawait_recv c) else c)
      in if co_send_parked (cn_coro c) \<noteq> None
         then emit (EvResumeSend SendClosed) (coro_unawait_send c) else c)"

definition teardown :: "'m handlers \<Rightarrow> close_reason \<Rightarrow> 'm conn \<Rightarrow> 'm conn" where
  "teardown H r c =
     (let c = release_group (release_fd c);
          c = c\<lparr>cn_stats := (cn_stats c)\<lparr>st_conns_closed := st_conns_closed (cn_stats c) + 1\<rparr>\<rparr>;
          c = (if on_close H then emit (EvOnClose r) c else c);
          c = (emit EvReleaseSink c)\<lparr>cn_state := Closed\<rparr>;
          c = wake_waiters c
      in emit (EvNotify r (cn_em_running c)) c)"

definition conn_close :: "'m handlers \<Rightarrow> close_reason \<Rightarrow> 'm conn \<Rightarrow> 'm conn" where
  "conn_close H r c =
     (if cn_state c = Closing \<or> cn_state c = Closed then c else teardown H r (c\<lparr>cn_state := Closing\<rparr>))"

text \<open>The destructor: a connection that still has its descriptor gives it back.\<close>

definition conn_destroy :: "'m conn \<Rightarrow> 'm conn" where
  "conn_destroy c = release_group (release_fd c)"

section \<open>Arming reads and the idle timer\<close>

definition arm_recv :: "'m conn \<Rightarrow> 'm conn option" where
  "arm_recv c =
     (if cn_read_paused c \<or> cn_state c \<noteq> Established then Some c
      else do {
        ((off, len), b) \<leftarrow> ib_writable (max (cn_parse_need c) 4096) (cn_read_buf c);
        Some (emit (EvSubmitRecv (cn_fd c) off len)
          (c\<lparr>cn_read_buf := b, cn_recv_span := Some (off, len)\<rparr>)) })"

definition arm_drain_recv :: "'m conn \<Rightarrow> 'm conn option" where
  "arm_drain_recv c =
     (if cn_fd c < 0 then Some c
      else do {
        ((off, len), b) \<leftarrow> ib_writable 4096 (cn_read_buf c);
        Some (emit (EvSubmitRecv (cn_fd c) off len)
          (c\<lparr>cn_read_buf := b, cn_recv_span := Some (off, len)\<rparr>)) })"

definition rearm_recv :: "'m conn \<Rightarrow> 'm conn option" where
  "rearm_recv c =
     (if co_on (cn_coro c) then
        (if co_armed (cn_coro c) then Some c
         else arm_recv (c\<lparr>cn_coro := (cn_coro c)\<lparr>co_armed := True\<rparr>\<rparr>))
      else arm_recv c)"

definition arm_idle_timer :: "'m conn \<Rightarrow> 'm conn" where
  "arm_idle_timer c =
     (if cp_idle_read_timeout (cn_params c) = 0 then c
      else (let c = (if cn_idle_timer c then emit EvCancelTimer c else c)
            in (emit (EvArmTimer (cp_idle_read_timeout (cn_params c))) c)\<lparr>cn_idle_timer := True\<rparr>))"

text \<open>The idle timer's callback resolves the connection's id and closes it.\<close>

definition resolves :: "'m conn \<Rightarrow> bool" where
  "resolves c \<longleftrightarrow> cn_state c \<noteq> Closed"

definition idle_fired :: "'m handlers \<Rightarrow> 'm conn \<Rightarrow> 'm conn" where
  "idle_fired H c = (if resolves c then conn_close H IdleTimeout c else c)"

section \<open>Sending\<close>

abbreviation flow :: "'m conn \<Rightarrow> flow_control" where
  "flow c \<equiv> cp_flow (cn_params c)"

definition pause_reads :: "'m conn \<Rightarrow> 'm conn" where
  "pause_reads c = emit EvCancelRecv (c\<lparr>cn_read_paused := True\<rparr>)"

definition count_hwm :: "'m conn \<Rightarrow> 'm conn" where
  "count_hwm c = c\<lparr>cn_stats := (cn_stats c)\<lparr>st_write_hwm_hits := st_write_hwm_hits (cn_stats c) + 1\<rparr>\<rparr>"

definition count_drop :: "'m conn \<Rightarrow> 'm conn" where
  "count_drop c = c\<lparr>cn_stats := (cn_stats c)\<lparr>st_write_drops := st_write_drops (cn_stats c) + 1\<rparr>\<rparr>"

definition check_write_watermark :: "'m conn \<Rightarrow> 'm conn" where
  "check_write_watermark c =
     (if \<not> cn_backpressured c \<and> ib_size (cn_write_buf c) \<ge> write_high_watermark (flow c)
      then (let c = count_hwm (c\<lparr>cn_backpressured := True\<rparr>)
            in if auto_pause_reads (flow c) then pause_reads c else c)
      else c)"

text \<open>Copy into the write queue.\<close>

definition queue_bytes :: "byte list \<Rightarrow> 'm conn \<Rightarrow> 'm conn option" where
  "queue_bytes bs c = do { b \<leftarrow> ib_append bs (cn_write_buf c); Some (c\<lparr>cn_write_buf := b\<rparr>) }"

fun queue_parts :: "byte list list \<Rightarrow> 'm conn \<Rightarrow> 'm conn option" where
  "queue_parts [] c = Some c"
| "queue_parts (p # ps) c = do { c \<leftarrow> queue_bytes p c; queue_parts ps c }"

definition drop_oldest :: "nat \<Rightarrow> 'm conn \<Rightarrow> 'm conn" where
  "drop_oldest n c = c\<lparr>cn_write_buf := ib_consume n (cn_write_buf c)\<rparr>"

definition apply_overflow :: "'m handlers \<Rightarrow> byte list \<Rightarrow> 'm conn \<Rightarrow> (send_result \<times> 'm conn) option" where
  "apply_overflow H bs c =
     (let c = count_hwm c in
      case on_overflow (flow c) of
        Disconnect \<Rightarrow> Some (SendClosed, conn_close H WriteOverflowed c)
      | DropNewest \<Rightarrow> Some (Dropped, count_drop c)
      | DropOldest \<Rightarrow> do {
          c \<leftarrow> queue_bytes bs (drop_oldest (length bs) (count_drop c));
          Some (Queued, emit EvNoteWritePending c) }
      | StopReading \<Rightarrow> do {
          c \<leftarrow> queue_bytes bs (pause_reads c);
          Some (Backpressured, emit EvNoteWritePending c) })"

definition apply_overflow_parts ::
  "'m handlers \<Rightarrow> byte list list \<Rightarrow> 'm conn \<Rightarrow> (send_result \<times> 'm conn) option" where
  "apply_overflow_parts H ps c =
     (let c = count_hwm c in
      case on_overflow (flow c) of
        Disconnect \<Rightarrow> Some (SendClosed, conn_close H WriteOverflowed c)
      | DropNewest \<Rightarrow> Some (Dropped, count_drop c)
      | DropOldest \<Rightarrow> do {
          c \<leftarrow> queue_parts ps (fold (\<lambda>p. drop_oldest (length p)) ps (count_drop c));
          Some (Queued, emit EvNoteWritePending c) }
      | StopReading \<Rightarrow> do {
          c \<leftarrow> queue_parts ps (pause_reads c);
          Some (Backpressured, emit EvNoteWritePending c) })"

definition conn_send :: "'m handlers \<Rightarrow> byte list \<Rightarrow> 'm conn \<Rightarrow> (send_result \<times> 'm conn) option" where
  "conn_send H bs c =
     (if cn_state c \<noteq> Established then Some (SendClosed, c)
      else if ib_size (cn_write_buf c) + length bs > write_high_watermark (flow c)
      then apply_overflow H bs c
      else do {
        c \<leftarrow> queue_bytes bs c;
        Some (Queued, check_write_watermark (emit EvNoteWritePending c)) })"

definition send_scatter :: "'m handlers \<Rightarrow> byte list list \<Rightarrow> 'm conn \<Rightarrow> (send_result \<times> 'm conn) option" where
  "send_scatter H ps c =
     (if cn_state c \<noteq> Established then Some (SendClosed, c)
      else if ib_size (cn_write_buf c) + sum_list (map length ps) > write_high_watermark (flow c)
      then apply_overflow_parts H ps c
      else do {
        c \<leftarrow> queue_parts ps c;
        Some (Queued, check_write_watermark (emit EvNoteWritePending c)) })"

definition shutdown_wr :: "'m conn \<Rightarrow> 'm conn" where
  "shutdown_wr c = emit (EvShutdownWr (cn_fd c)) c"

definition shutdown_write :: "'m conn \<Rightarrow> 'm conn" where
  "shutdown_write c =
     (if cn_state c \<noteq> Established then c
      else (let c = arm_idle_timer (c\<lparr>cn_state := ShutdownWrite\<rparr>)
            in if cn_write_inflight c = 0 \<and> ib_size (cn_write_buf c) = 0 \<and> 0 \<le> cn_fd c
               then shutdown_wr c else c))"

text \<open>
  \<open>send_fds\<close>: \<open>r\<close> is what \<^verbatim>\<open>sendmsg\<close> returned, the payload bytes it took or its error.
\<close>

definition conn_send_fds ::
  "'m handlers \<Rightarrow> byte list \<Rightarrow> nat result \<Rightarrow> 'm conn \<Rightarrow> (unit result \<times> 'm conn) option" where
  "conn_send_fds H payload r c =
     (if cn_state c \<noteq> Established then Some (Inl (make_error CatNet ErrClosed), c)
      else if cn_write_inflight c \<noteq> 0 \<or> ib_size (cn_write_buf c) \<noteq> 0
      then Some (Inl (make_error CatNet ErrWouldBlock), c)
      else case r of
        Inl e \<Rightarrow> Some (Inl e, c)
      | Inr n \<Rightarrow>
        (let c = c\<lparr>cn_stats := (cn_stats c)\<lparr>st_bytes_out := st_bytes_out (cn_stats c) + n\<rparr>\<rparr>
         in if n < length payload
            then do { (_, c) \<leftarrow> conn_send H (drop n payload) c; Some (Inr (), c) }
            else Some (Inr (), c)))"

section \<open>Coroutine sessions\<close>

definition enable_coro :: "'m conn \<Rightarrow> 'm conn" where
  "enable_coro c = c\<lparr>cn_coro := (cn_coro c)\<lparr>co_on := True\<rparr>\<rparr>"

definition coro_recv_ready :: "'m conn \<Rightarrow> bool \<times> 'm conn" where
  "coro_recv_ready c =
     (if co_held (cn_coro c) = [] then (False, c)
      else (True, c\<lparr>cn_coro := (cn_coro c)\<lparr>co_delivered := co_held (cn_coro c), co_held := []\<rparr>\<rparr>))"

definition coro_await_recv :: "'m conn \<Rightarrow> 'm conn option" where
  "coro_await_recv c =
     (let c = c\<lparr>cn_coro := (cn_coro c)\<lparr>co_recv_parked := True\<rparr>\<rparr>
      in if co_armed (cn_coro c) then Some c
         else arm_recv (c\<lparr>cn_coro := (cn_coro c)\<lparr>co_armed := True\<rparr>\<rparr>))"

definition coro_await_send :: "byte list \<Rightarrow> 'm conn \<Rightarrow> 'm conn" where
  "coro_await_send bs c = c\<lparr>cn_coro := (cn_coro c)\<lparr>co_send_parked := Some bs\<rparr>\<rparr>"

section \<open>Application calls\<close>

text \<open>A call goes through the connection's id: on a closed connection it does nothing.\<close>

definition run_action :: "'m handlers \<Rightarrow> action \<Rightarrow> 'm conn \<Rightarrow> 'm conn option" where
  "run_action H a c =
     (if cn_state c = Closing \<or> cn_state c = Closed then Some c
      else case a of
        ASend bs \<Rightarrow> map_option snd (conn_send H bs c)
      | ASendScatter ps \<Rightarrow> map_option snd (send_scatter H ps c)
      | AShutdownWrite \<Rightarrow> Some (shutdown_write c)
      | AClose r \<Rightarrow> Some (conn_close H r c)
      | ASendFds payload r \<Rightarrow> map_option snd (conn_send_fds H payload r c)
      | ARecvReady \<Rightarrow> Some (snd (coro_recv_ready c))
      | AAwaitRecv \<Rightarrow> coro_await_recv c
      | AUnawaitRecv \<Rightarrow> Some (coro_unawait_recv c)
      | AAwaitSend bs \<Rightarrow> Some (coro_await_send bs c)
      | AUnawaitSend \<Rightarrow> Some (coro_unawait_send c))"

fun run_actions :: "'m handlers \<Rightarrow> action list \<Rightarrow> 'm conn \<Rightarrow> 'm conn option" where
  "run_actions H [] c = Some c"
| "run_actions H (a # as) c = do { c \<leftarrow> run_action H a c; run_actions H as c }"

text \<open>Calling a callback: record the call, then run what it does.\<close>

definition call_back ::
  "'m handlers \<Rightarrow> ('m conn \<Rightarrow> action list) option \<Rightarrow> 'm conn_event \<Rightarrow> 'm conn \<Rightarrow> 'm conn option" where
  "call_back H f e c = (case f of None \<Rightarrow> Some c | Some g \<Rightarrow> (let c = emit e c in run_actions H (g c) c))"

section \<open>Receiving\<close>

definition dispatch_batch :: "'m handlers \<Rightarrow> 'm conn \<Rightarrow> 'm conn option" where
  "dispatch_batch H c =
     (let c = c\<lparr>cn_stats := (cn_stats c)\<lparr>st_msgs_in := st_msgs_in (cn_stats c) + 1\<rparr>\<rparr> in
      if co_on (cn_coro c) then
        (if co_recv_parked (cn_coro c)
         then call_back H (Some (session H (cn_batch c))) (EvResumeRecv (Inr (cn_batch c))) (coro_unawait_recv c)
         else if length (co_held (cn_coro c)) + length (cn_batch c) \<le> kCoroHeldCap
         then Some (c\<lparr>cn_coro := (cn_coro c)\<lparr>co_held := co_held (cn_coro c) @ cn_batch c\<rparr>\<rparr>)
         else Some (conn_close H HeldOverflow c))
      else call_back H (map_option (\<lambda>f. f (cn_batch c)) (on_messages H)) (EvOnMessages (cn_batch c)) c)"

definition frame_error :: "'m handlers \<Rightarrow> error \<Rightarrow> 'm conn \<Rightarrow> 'm conn option" where
  "frame_error H e c =
     (let c = c\<lparr>cn_stats := (cn_stats c)\<lparr>st_frame_errors := st_frame_errors (cn_stats c) + 1\<rparr>\<rparr>
      in do {
        c \<leftarrow> call_back H (map_option (\<lambda>f. f e) (on_error H)) (EvOnError e) c;
        Some (conn_close H FrameError c) })"

text \<open>
  The parse loop; the flag tells a \<^verbatim>\<open>break\<close> (true) from a \<^verbatim>\<open>return\<close> (false). \<open>None\<close> also
  stands for a loop that does not end, with a framer that produces messages from no bytes.
\<close>

definition take_message :: "'m \<Rightarrow> nat \<Rightarrow> 'm conn \<Rightarrow> 'm conn" where
  "take_message m k c =
     c\<lparr>cn_batch := cn_batch c @ [m], cn_read_buf := ib_consume k (cn_read_buf c), cn_parse_need := 0\<rparr>"

partial_function (option) parse_loop :: "'m handlers \<Rightarrow> 'm conn \<Rightarrow> (bool \<times> 'm conn) option" where
  "parse_loop H c =
     Option.bind (proto H (ib_readable (cn_read_buf c))) (\<lambda>r. case r of
         NeedMore n \<Rightarrow> Some (True, c\<lparr>cn_parse_need := n\<rparr>)
       | ParseError e \<Rightarrow> Option.bind (frame_error H e c) (\<lambda>c. Some (False, c))
       | Message m k \<Rightarrow>
           (let c = take_message m k c in
            if length (cn_batch c) = batch_capacity
            then Option.bind (dispatch_batch H c) (\<lambda>c.
                   let c = c\<lparr>cn_batch := []\<rparr> in
                   if cn_state c \<noteq> Established then Some (False, c) else parse_loop H c)
            else parse_loop H c))"

definition deliver_fds :: "'m handlers \<Rightarrow> u32 \<Rightarrow> 'm conn \<Rightarrow> 'm conn option" where
  "deliver_fds H flags c = do {
     c \<leftarrow> (if flagged flags fd_trunc
           then call_back H (map_option (\<lambda>f. f (make_error CatNet ErrTruncated)) (on_error H))
                  (EvOnError (make_error CatNet ErrTruncated))
                  (c\<lparr>cn_stats := (cn_stats c)\<lparr>st_frame_errors := st_frame_errors (cn_stats c) + 1\<rparr>\<rparr>)
           else Some c);
     c \<leftarrow> (case on_fds H of
             Some f \<Rightarrow> call_back H (Some (f (cn_fd_inbox c))) (EvOnFds (cn_fd_inbox c)) c
           | None \<Rightarrow> Some (fold (\<lambda>fd. emit (EvCloseFd fd)) (cn_fd_inbox c) c));
     Some (c\<lparr>cn_fd_inbox := []\<rparr>) }"

text \<open>A completion on a connection that is no longer \<open>Established\<close>.\<close>

definition on_recv_draining :: "'m handlers \<Rightarrow> int \<Rightarrow> 'm conn \<Rightarrow> 'm conn option" where
  "on_recv_draining H res c =
     (if co_on (cn_coro c) \<or> cn_state c \<noteq> ShutdownWrite then Some c
      else if res = 0 then Some (conn_close H PeerFin c)
      else if res < 0 \<and> res \<noteq> - EAGAIN \<and> res \<noteq> - ECANCELED then Some (conn_close H SocketError c)
      else arm_drain_recv (arm_idle_timer c))"

text \<open>What follows the parse loop.\<close>

definition after_parse :: "'m handlers \<Rightarrow> 'm conn \<Rightarrow> 'm conn option" where
  "after_parse H c = do {
     c \<leftarrow> (if cn_batch c \<noteq> [] then dispatch_batch H c else Some c);
     if cn_state c = Established \<and> \<not> co_on (cn_coro c) then arm_recv c
     else if cn_state c = ShutdownWrite \<and> \<not> co_on (cn_coro c) then arm_drain_recv c
     else Some c }"

definition on_recv :: "'m handlers \<Rightarrow> int \<Rightarrow> u32 \<Rightarrow> 'm conn \<Rightarrow> 'm conn option" where
  "on_recv H res flags c =
     (let c = (if co_on (cn_coro c) then c\<lparr>cn_coro := (cn_coro c)\<lparr>co_armed := False\<rparr>\<rparr> else c) in
      if cn_state c \<noteq> Established then on_recv_draining H res c
      else if res < 0 then
        (if res = - EAGAIN \<or> res = - ECANCELED then rearm_recv c else Some (conn_close H SocketError c))
      else if res = 0 then Some (conn_close H PeerFin c)
      else do {
        b \<leftarrow> ib_commit (nat res) (cn_read_buf c);
        let c = c\<lparr>cn_read_buf := b,
               cn_stats := (cn_stats c)\<lparr>st_bytes_in := st_bytes_in (cn_stats c) + nat res\<rparr>\<rparr>;
        c \<leftarrow> (if flagged flags (or has_fds fd_trunc) then deliver_fds H flags c else Some c);
        (go, c) \<leftarrow> parse_loop H ((arm_idle_timer c)\<lparr>cn_batch := []\<rparr>);
        if go then after_parse H c else Some c })"

text \<open>
  The completion of an armed read: the bytes stand in the span the read was armed on.
\<close>

definition recv_done :: "'m handlers \<Rightarrow> byte list \<Rightarrow> 'm conn \<Rightarrow> 'm conn option" where
  "recv_done H bs c =
     (case cn_recv_span c of
        None \<Rightarrow> None
      | Some (off, len) \<Rightarrow>
          if length bs \<le> len then do {
            b \<leftarrow> ib_store off bs (cn_read_buf c);
            on_recv H (int (length bs)) 0 (c\<lparr>cn_read_buf := b, cn_recv_span := None\<rparr>) }
          else None)"

section \<open>Writing\<close>

definition flush_write :: "'m conn \<Rightarrow> 'm conn" where
  "flush_write c =
     (if cn_write_inflight c \<noteq> 0 \<or> ib_size (cn_write_buf c) = 0 then c
      else if cn_state c \<noteq> Established \<and> cn_state c \<noteq> ShutdownWrite then c
      else emit (EvSubmitSend (cn_fd c) (ib_start (cn_write_buf c)) (ib_size (cn_write_buf c)))
             (c\<lparr>cn_write_inflight := ib_size (cn_write_buf c)\<rparr>))"

text \<open>
  The waiter is read again after the retry; a retry that closed the connection has already woken
  it and left a null handle (\<open>None\<close>).
\<close>

definition coro_writable :: "'m handlers \<Rightarrow> 'm conn \<Rightarrow> 'm conn option" where
  "coro_writable H c =
     (case co_send_parked (cn_coro c) of
        None \<Rightarrow> Some c
      | Some bs \<Rightarrow> do {
          (r, c) \<leftarrow> conn_send H bs c;
          if r = Backpressured then Some c
          else if co_send_parked (cn_coro c) = None then None
          else call_back H (Some (session_sent H r)) (EvResumeSend r) (coro_unawait_send c) })"

definition write_drained :: "'m handlers \<Rightarrow> 'm conn \<Rightarrow> 'm conn option" where
  "write_drained H c =
     (if cn_backpressured c \<and> ib_size (cn_write_buf c) \<le> write_low_watermark (flow c)
      then do {
        let c = c\<lparr>cn_backpressured := False\<rparr>;
        c \<leftarrow> (if cn_read_paused c then rearm_recv (c\<lparr>cn_read_paused := False\<rparr>) else Some c);
        if co_on (cn_coro c) then coro_writable H c
        else if cn_state c = Established then call_back H (on_writable H) EvOnWritable c
        else Some c }
      else Some c)"

definition on_sent :: "'m handlers \<Rightarrow> int \<Rightarrow> 'm conn \<Rightarrow> 'm conn option" where
  "on_sent H res c =
     (let c = c\<lparr>cn_write_inflight := 0\<rparr> in
      if res < 0 then (if res = - ECANCELED then Some c else Some (conn_close H SocketError c))
      else do {
        let c = c\<lparr>cn_write_buf := ib_consume (nat res) (cn_write_buf c),
               cn_stats := (cn_stats c)\<lparr>st_bytes_out := st_bytes_out (cn_stats c) + nat res\<rparr>\<rparr>;
        let c = (if cn_state c = ShutdownWrite \<and> ib_size (cn_write_buf c) = 0 \<and> 0 \<le> cn_fd c
                 then shutdown_wr c else c);
        c \<leftarrow> write_drained H c;
        Some (if ib_size (cn_write_buf c) \<noteq> 0 then emit EvNoteWritePending c else c) })"

section \<open>Establishing and dispatch\<close>

definition conn_start :: "'m handlers \<Rightarrow> 'm conn \<Rightarrow> 'm conn option" where
  "conn_start H c = do {
     let c = c\<lparr>cn_state := Established\<rparr>;
     let c = (if cp_timestamping (cn_params c) then emit (EvSetTimestamping (cn_fd c)) c else c);
     let c = (if cp_fd_passing (cn_params c) then emit (EvSetFdInbox (cn_fd c)) c else c);
     c \<leftarrow> call_back H (on_open H) EvOnOpen c;
     rearm_recv (arm_idle_timer c) }"

definition on_connect_result :: "'m handlers \<Rightarrow> int \<Rightarrow> 'm conn \<Rightarrow> 'm conn option" where
  "on_connect_result H res c =
     (if cn_state c \<noteq> Connecting then Some c
      else if res < 0 then
        (if res = - ECANCELED then Some c else Some (conn_close H ConnectFailed c))
      else conn_start H c)"

definition on_completion :: "'m handlers \<Rightarrow> op_kind \<Rightarrow> int \<Rightarrow> u32 \<Rightarrow> 'm conn \<Rightarrow> 'm conn option" where
  "on_completion H kind res flags c =
     (case kind of
        KConnect \<Rightarrow> on_connect_result H res c
      | KRecv \<Rightarrow> on_recv H res flags c
      | KSend \<Rightarrow> on_sent H res c
      | KFlushWrite \<Rightarrow> Some (flush_write c)
      | _ \<Rightarrow> Some c)"

text \<open>The tasks a cross-thread handle posts.\<close>

definition handle_send :: "'m handlers \<Rightarrow> byte list \<Rightarrow> 'm conn \<Rightarrow> 'm conn option" where
  "handle_send H bs c = (if resolves c then map_option snd (conn_send H bs c) else Some c)"

definition handle_close :: "'m handlers \<Rightarrow> 'm conn \<Rightarrow> 'm conn" where
  "handle_close H c = (if resolves c then conn_close H LocalClose c else c)"

end
