(* ===== verification/Conn_Lifecycle.thy ===== *)
theory Conn_Lifecycle
  imports Connection
begin

text \<open>
  The life of a connection: the well-formedness every operation keeps, and the discipline of its
  calls on the surroundings. \<open>ext c c'\<close> says how a step may extend the log: while the connection
  lives, by calls that are not those of the teardown; when it closes, by the teardown's calls once
  and nothing but wake-ups and late calls after the sink is released; once it is closed, by late
  calls only. Late calls are those on the idle timer and the write notification with the empty sink
  handle: neither reaches the connection again. It also says that no connection goes back to
  connecting and that \<open>on_open\<close> is not called while it is. \<open>step\<close> combines both and is closed under
  composition, so each operation is checked once against it.
\<close>

section \<open>Well-formed connections\<close>

definition conn_wf :: "'m conn \<Rightarrow> bool" where
  "conn_wf c \<longleftrightarrow> ib_wf (cn_read_buf c) \<and> ib_wf (cn_write_buf c) \<and> cn_state c \<noteq> Closing \<and>
     (cn_state c = Closed \<longleftrightarrow> cn_fd c < 0) \<and>
     (cn_state c = Closed \<longrightarrow> \<not> cn_group c \<and> \<not> co_recv_parked (cn_coro c) \<and> co_send_parked (cn_coro c) = None) \<and>
     length (co_held (cn_coro c)) \<le> kCoroHeldCap"

section \<open>Buffers\<close>

lemma grow_cap_ge:
  assumes "grow_cap n k = Some r"
  shows "k \<le> r"
  by (rule grow_cap.raw_induct [of "\<lambda>n k r. k \<le> r", OF _ assms]) (auto split: if_splits)

lemma ib_grow_wf:
  assumes "ib_grow need b = Some b'" "ib_headroom b < need" "ib_start b + ib_size b \<le> ib_cap b"
    "length (ib_buf b) = ib_cap b"
  shows "ib_wf b'" "ib_readable b' = ib_readable b"
proof -
  from assms(1) obtain n nb where n: "grow_cap (if ib_cap b \<noteq> 0 then ib_cap b * 2 mod 2 ^ 64 else 64) need = Some n"
    and w: "mem_write (replicate n 0) (ib_headroom b) (take (ib_size b) (drop (ib_start b) (ib_buf b))) = Some nb"
    and b': "b' = b\<lparr>ib_buf := nb, ib_cap := n, ib_start := ib_headroom b\<rparr>"
    using assms(3,4) by (auto simp: ib_grow_def mem_read_def split: bind_splits)
  have len: "length (take (ib_size b) (drop (ib_start b) (ib_buf b))) = ib_size b" using assms(3,4) by simp
  have "length nb = n" using mem_write_length [OF w] by simp
  moreover have "ib_headroom b + ib_size b \<le> n"
    using w len by (auto simp: mem_write_def split: if_splits)
  moreover have "ib_headroom b < n" using grow_cap_ge [OF n] assms(2) by simp
  ultimately show "ib_wf b'" by (simp add: b' ib_wf_def)
  show "ib_readable b' = ib_readable b"
    using mem_write_read [OF w] len by (simp add: b' ib_readable_def)
qed

lemma ib_ensure_writable_wf:
  assumes "ib_ensure_writable n b = Some b'" "ib_wf b"
  shows "ib_wf b' \<and> ib_readable b' = ib_readable b \<and> ib_size b' = ib_size b"
proof (cases "usub (usub (ib_cap b) (ib_start b)) (ib_size b) \<ge> n")
  case True
  with assms show ?thesis by (simp add: ib_ensure_writable_def)
next
  case False
  then have "0 < n" by simp
  obtain b1 where b1: "ib_compact b = Some b1" "ib_wf b1" "ib_readable b1 = ib_readable b"
    "ib_size b1 = ib_size b" "ib_headroom b1 = ib_headroom b"
    using ib_compact_spec [OF assms(2)] by blast
  show ?thesis
  proof (cases "usub (usub (ib_cap b1) (ib_headroom b1)) (ib_size b1) < n")
    case True
    with False assms(1) b1(1) have g: "ib_grow (ib_headroom b1 + ib_size b1 + n) b1 = Some b'"
      by (simp add: ib_ensure_writable_def)
    from b1(2) have "ib_start b1 + ib_size b1 \<le> ib_cap b1" "length (ib_buf b1) = ib_cap b1"
      by (auto simp: ib_wf_def)
    with ib_grow_wf [OF g] \<open>0 < n\<close> have "ib_wf b'" "ib_readable b' = ib_readable b1" by auto
    then show ?thesis using b1 by (metis ib_readable_length)
  next
    case False2: False
    with False assms(1) b1 show ?thesis by (simp add: ib_ensure_writable_def)
  qed
qed

lemma ib_writable_wf:
  "ib_writable n b = Some ((off, len), b') \<Longrightarrow> ib_wf b \<Longrightarrow>
   ib_wf b' \<and> ib_readable b' = ib_readable b \<and> off = ib_start b' + ib_size b' \<and> off + len = ib_cap b'"
  using ib_ensure_writable_wf [of n b]
  by (fastforce simp: ib_writable_def ib_wf_def split: bind_splits)

lemma ib_store_wf: "ib_store off bs b = Some b' \<Longrightarrow> ib_wf b \<Longrightarrow> ib_wf b'"
  by (auto simp: ib_store_def ib_wf_def dest: mem_write_length split: bind_splits)

lemma ib_commit_wf: "ib_commit n b = Some b' \<Longrightarrow> ib_wf b \<Longrightarrow> ib_wf b'"
  by (auto simp: ib_commit_def ib_wf_def split: if_splits)

lemma ib_append_wf: "ib_append bs b = Some b' \<Longrightarrow> ib_wf b \<Longrightarrow> ib_wf b'"
  by (auto simp: ib_append_def split: bind_splits dest!: ib_writable_wf) (metis ib_store_wf ib_commit_wf)

text \<open>Bytes stored behind the readable ones and committed become readable there.\<close>

lemma store_commit_content:
  assumes "ib_store (ib_start b + ib_size b) bs b = Some b1" "ib_commit (length bs) b1 = Some b2"
  shows "ib_readable b2 = ib_readable b @ bs"
proof -
  let ?off = "ib_start b + ib_size b"
  obtain m where m: "mem_write (ib_buf b) ?off bs = Some m" "b1 = b\<lparr>ib_buf := m\<rparr>"
    using assms(1) by (auto simp: ib_store_def split: bind_splits)
  have "take (ib_size b + length bs) (drop (ib_start b) m)
      = take (ib_size b) (drop (ib_start b) m) @ take (length bs) (drop ?off m)"
    by (simp add: take_add add.commute)
  also have "\<dots> = ib_readable b @ bs"
    using mem_write_before [OF m(1), of "ib_start b" "ib_size b"] mem_write_read [OF m(1)]
    by (simp add: ib_readable_def)
  finally show ?thesis using m(2) assms(2) by (auto simp: ib_commit_def ib_readable_def split: if_splits)
qed

lemma ib_append_content:
  assumes "ib_append bs b = Some b'" "ib_wf b"
  shows "ib_readable b' = ib_readable b @ bs"
  using assms ib_writable_wf [of "length bs" b] store_commit_content
  by (fastforce simp: ib_append_def split: bind_splits)

section \<open>The discipline of calls\<close>

fun late_event :: "'m conn_event \<Rightarrow> bool" where
  "late_event EvCancelTimer = True"
| "late_event (EvArmTimer d) = True"
| "late_event EvNoteWritePending = True"
| "late_event _ = False"

fun tail_event :: "'m conn_event \<Rightarrow> bool" where
  "tail_event (EvNotify r d) = True"
| "tail_event (EvResumeRecv x) = True"
| "tail_event (EvResumeSend x) = True"
| "tail_event e = late_event e"

fun is_notify :: "'m conn_event \<Rightarrow> bool" where
  "is_notify (EvNotify r d) = True"
| "is_notify _ = False"

text \<open>The calls only the teardown makes.\<close>

fun teardown_event :: "'m conn_event \<Rightarrow> bool" where
  "teardown_event (EvDetach fd) = True"
| "teardown_event (EvCloseFd fd) = True"
| "teardown_event EvCancelGroup = True"
| "teardown_event (EvOnClose r) = True"
| "teardown_event EvReleaseSink = True"
| "teardown_event (EvNotify r d) = True"
| "teardown_event _ = False"

abbreviation open_event :: "'m conn_event \<Rightarrow> bool" where
  "open_event e \<equiv> \<not> teardown_event e"

definition teardown_calls :: "int \<Rightarrow> bool \<Rightarrow> close_reason option \<Rightarrow> 'm conn_event list" where
  "teardown_calls fd g r = [EvDetach fd, EvCloseFd fd] @ (if g then [EvCancelGroup] else []) @
     (case r of None \<Rightarrow> [] | Some r \<Rightarrow> [EvOnClose r]) @ [EvReleaseSink]"

definition closing_log :: "int \<Rightarrow> 'm conn_event list \<Rightarrow> bool" where
  "closing_log fd es \<longleftrightarrow> (\<exists>us g r vs. es = us @ teardown_calls fd g r @ vs \<and> 0 \<le> fd \<and>
     list_all open_event us \<and> list_all tail_event vs \<and> length (filter is_notify vs) = 1)"

definition ext :: "'m conn \<Rightarrow> 'm conn \<Rightarrow> bool" where
  "ext c c' \<longleftrightarrow> (\<exists>es. cn_log c' = cn_log c @ es \<and>
     (cn_state c' = Connecting \<longrightarrow> cn_state c = Connecting \<and> EvOnOpen \<notin> set es) \<and>
     (if cn_state c = Closed then cn_state c' = Closed \<and> list_all late_event es
      else if cn_state c' = Closed then closing_log (cn_fd c) es
      else cn_fd c' = cn_fd c \<and> list_all open_event es))"

definition step :: "'m conn \<Rightarrow> 'm conn \<Rightarrow> bool" where
  "step c c' \<longleftrightarrow> (conn_wf c \<longrightarrow> conn_wf c' \<and> ext c c')"

lemma late_open: "late_event e \<Longrightarrow> open_event e"
  by (cases e) simp_all

lemma late_tail: "late_event e \<Longrightarrow> tail_event e \<and> \<not> is_notify e"
  by (cases e) simp_all

lemma closing_logI:
  "list_all open_event us \<Longrightarrow> list_all tail_event vs \<Longrightarrow> length (filter is_notify vs) = 1 \<Longrightarrow> 0 \<le> fd \<Longrightarrow>
   closing_log fd (us @ teardown_calls fd g r @ vs)"
  unfolding closing_log_def by blast

lemma closing_log_late: "closing_log fd es \<Longrightarrow> list_all late_event fs \<Longrightarrow> closing_log fd (es @ fs)"
proof -
  assume "closing_log fd es" and f: "list_all late_event fs"
  then obtain us g r vs where e: "es = us @ teardown_calls fd g r @ vs" "0 \<le> fd" "list_all open_event us"
    "list_all tail_event vs" "length (filter is_notify vs) = 1" unfolding closing_log_def by blast
  have "closing_log fd (us @ teardown_calls fd g r @ (vs @ fs))"
    by (rule closing_logI) (use e f late_tail in \<open>auto simp: list_all_iff filter_empty_conv\<close>)
  then show ?thesis by (simp add: e(1))
qed

lemma closing_log_prefix: "list_all open_event fs \<Longrightarrow> closing_log fd es \<Longrightarrow> closing_log fd (fs @ es)"
proof -
  assume f: "list_all open_event fs" and "closing_log fd es"
  then obtain us g r vs where e: "es = us @ teardown_calls fd g r @ vs" "0 \<le> fd" "list_all open_event us"
    "list_all tail_event vs" "length (filter is_notify vs) = 1" unfolding closing_log_def by blast
  have "closing_log fd ((fs @ us) @ teardown_calls fd g r @ vs)"
    by (rule closing_logI) (use e f in auto)
  then show ?thesis by (simp add: e(1))
qed

lemma ext_trans: "ext a b \<Longrightarrow> ext b c \<Longrightarrow> ext a c"
  unfolding ext_def
  by (auto split: if_splits intro: closing_log_late closing_log_prefix)

lemma step_refl [simp, intro]: "step c c"
  by (simp add: step_def ext_def)

lemma step_trans [trans]: "step a b \<Longrightarrow> step b c \<Longrightarrow> step a c"
  unfolding step_def using ext_trans by blast

text \<open>Steps that call nobody.\<close>

lemma step_silent:
  assumes "cn_log c' = cn_log c" "cn_state c' = cn_state c" "cn_fd c' = cn_fd c" "conn_wf c \<Longrightarrow> conn_wf c'"
  shows "step c c'"
  using assms by (simp add: step_def ext_def)

lemma step_emit:
  "cn_state c \<noteq> Closed \<Longrightarrow> open_event e \<Longrightarrow> e \<noteq> EvOnOpen \<or> cn_state c \<noteq> Connecting \<Longrightarrow> step c (emit e c)"
  by (auto simp: step_def ext_def emit_def conn_wf_def)

lemma step_emit_late: "late_event e \<Longrightarrow> step c (emit e c)"
  by (auto simp: step_def ext_def emit_def conn_wf_def late_open)

section \<open>Every operation is a step\<close>

lemma wake_waiters_effect:
  "\<exists>es. cn_log (wake_waiters c) = cn_log c @ es \<and> list_all tail_event es \<and> filter is_notify es = []"
  "cn_state (wake_waiters c) = cn_state c" "cn_fd (wake_waiters c) = cn_fd c"
  "cn_group (wake_waiters c) = cn_group c" "cn_read_buf (wake_waiters c) = cn_read_buf c"
  "cn_write_buf (wake_waiters c) = cn_write_buf c" "cn_em_running (wake_waiters c) = cn_em_running c"
  "co_held (cn_coro (wake_waiters c)) = co_held (cn_coro c)"
  "\<not> co_recv_parked (cn_coro (wake_waiters c))" "co_send_parked (cn_coro (wake_waiters c)) = None"
  by (auto simp: wake_waiters_def Let_def emit_def coro_unawait_recv_def coro_unawait_send_def)

lemma release_effect:
  "0 \<le> cn_fd c \<Longrightarrow> cn_log (release_group (release_fd c)) =
     cn_log c @ [EvDetach (cn_fd c), EvCloseFd (cn_fd c)] @ (if cn_group c then [EvCancelGroup] else [])"
  "cn_fd (release_group (release_fd c)) < 0" "\<not> cn_group (release_group (release_fd c))"
  "cn_read_buf (release_group (release_fd c)) = cn_read_buf c"
  "cn_write_buf (release_group (release_fd c)) = cn_write_buf c"
  "cn_coro (release_group (release_fd c)) = cn_coro c"
  by (auto simp: release_group_def release_fd_def emit_def)

lemma conn_close_closed: "cn_state c = Closed \<Longrightarrow> conn_close H r c = c"
  by (simp add: conn_close_def)

lemma conn_close_open:
  assumes "conn_wf c" "cn_state c \<noteq> Closed"
  obtains vs d where "cn_log (conn_close H r c) = cn_log c @
      teardown_calls (cn_fd c) (cn_group c) (if on_close H then Some r else None) @ vs @ [EvNotify r d]"
    "list_all tail_event vs" "filter is_notify vs = []"
    "cn_state (conn_close H r c) = Closed" "conn_wf (conn_close H r c)"
proof -
  from assms have fd: "0 \<le> cn_fd c" and st: "cn_state c \<noteq> Closing" "cn_state c \<noteq> Closed"
    by (auto simp: conn_wf_def)
  let ?c0 = "c\<lparr>cn_state := Closing\<rparr>"
  let ?c1 = "release_group (release_fd ?c0)"
  let ?c2 = "?c1\<lparr>cn_stats := (cn_stats ?c1)\<lparr>st_conns_closed := st_conns_closed (cn_stats ?c1) + 1\<rparr>\<rparr>"
  let ?c3 = "if on_close H then emit (EvOnClose r) ?c2 else ?c2"
  let ?c4 = "(emit EvReleaseSink ?c3)\<lparr>cn_state := Closed\<rparr>"
  let ?n = "EvNotify r (cn_em_running (wake_waiters ?c4))"
  have eq: "conn_close H r c = emit ?n (wake_waiters ?c4)"
    using st by (simp add: conn_close_def teardown_def Let_def)
  obtain vs where vs: "cn_log (wake_waiters ?c4) = cn_log ?c4 @ vs" "list_all tail_event vs" "filter is_notify vs = []"
    using wake_waiters_effect(1) [of ?c4] by blast
  show thesis
  proof (rule that [OF _ vs(2,3)])
    show "cn_log (conn_close H r c) = cn_log c @
        teardown_calls (cn_fd c) (cn_group c) (if on_close H then Some r else None) @ vs @ [?n]"
      using release_effect(1) [of ?c0] fd vs(1) by (simp add: eq emit_def teardown_calls_def)
    show "cn_state (conn_close H r c) = Closed" by (simp add: eq emit_def wake_waiters_effect)
    show "conn_wf (conn_close H r c)"
      using assms unfolding eq by (simp add: conn_wf_def emit_def wake_waiters_effect release_effect)
  qed
qed

lemma step_close: "step c (conn_close H r c)"
proof (cases "conn_wf c \<and> cn_state c \<noteq> Closed")
  case False
  then show ?thesis by (auto simp: conn_close_def step_def ext_def)
next
  case True
  then have wf: "conn_wf c" and st: "cn_state c \<noteq> Closed" by simp_all
  from wf have fd: "0 \<le> cn_fd c" using st by (auto simp: conn_wf_def)
  obtain vs d where close: "cn_log (conn_close H r c) = cn_log c @
      teardown_calls (cn_fd c) (cn_group c) (if on_close H then Some r else None) @ vs @ [EvNotify r d]"
    "list_all tail_event vs" "filter is_notify vs = []" "cn_state (conn_close H r c) = Closed"
    "conn_wf (conn_close H r c)" by (rule conn_close_open [OF wf st])
  have "closing_log (cn_fd c) ([] @ teardown_calls (cn_fd c) (cn_group c) (if on_close H then Some r else None) @
      (vs @ [EvNotify r d]))"
    by (rule closing_logI) (use close(2,3) fd in auto)
  then have "ext c (conn_close H r c)" using st close(1,4) unfolding ext_def by auto
  with close(5) show ?thesis by (simp add: step_def)
qed

lemma step_arm_timer: "step c (arm_idle_timer c)"
  by (auto simp: arm_idle_timer_def Let_def emit_def step_def ext_def conn_wf_def)

lemma step_submit_recv:
  assumes "ib_writable n (cn_read_buf c) = Some ((off, len), b)" "cn_state c \<noteq> Closed"
  shows "step c (emit (EvSubmitRecv fd off len) (c\<lparr>cn_read_buf := b, cn_recv_span := Some (off, len)\<rparr>))"
proof -
  have "step c (c\<lparr>cn_read_buf := b, cn_recv_span := Some (off, len)\<rparr>)"
    by (rule step_silent) (use ib_writable_wf [OF assms(1)] in \<open>simp_all add: conn_wf_def\<close>)
  also have "step \<dots> (emit (EvSubmitRecv fd off len) \<dots>)"
    by (rule step_emit) (simp_all add: assms(2))
  finally show ?thesis .
qed

lemma step_arm_recv: "arm_recv c = Some c' \<Longrightarrow> step c c'"
  by (auto simp: arm_recv_def intro!: step_submit_recv split: if_splits bind_splits)

lemma step_arm_drain: "arm_drain_recv c = Some c' \<Longrightarrow> step c c'"
proof (cases "cn_state c = Closed")
  case True
  then show "arm_drain_recv c = Some c' \<Longrightarrow> step c c'"
    by (auto simp: step_def conn_wf_def arm_drain_recv_def ext_def split: if_splits)
next
  case False
  then show "arm_drain_recv c = Some c' \<Longrightarrow> step c c'"
    by (auto simp: arm_drain_recv_def intro!: step_submit_recv split: if_splits bind_splits)
qed

lemma step_coro:
  assumes "cn_state c \<noteq> Closed" "length (co_held (cn_coro c)) \<le> kCoroHeldCap \<Longrightarrow> length (co_held k) \<le> kCoroHeldCap"
  shows "step c (c\<lparr>cn_coro := k\<rparr>)"
  by (rule step_silent) (use assms in \<open>simp_all add: conn_wf_def\<close>)

lemma step_unpark: "step c (coro_unawait_recv c)" "step c (coro_unawait_send c)"
  by (rule step_silent; simp add: conn_wf_def coro_unawait_recv_def coro_unawait_send_def)+

lemma step_stats: "step c (c\<lparr>cn_stats := s\<rparr>)"
  by (rule step_silent) (simp_all add: conn_wf_def)

lemma step_write_buf: "(ib_wf (cn_write_buf c) \<Longrightarrow> ib_wf b) \<Longrightarrow> step c (c\<lparr>cn_write_buf := b\<rparr>)"
  by (rule step_silent) (simp_all add: conn_wf_def)

lemma step_flags:
  "step c (c\<lparr>cn_backpressured := b\<rparr>)" "step c (c\<lparr>cn_read_paused := p\<rparr>)"
  "step c (c\<lparr>cn_write_inflight := n\<rparr>)" "step c (c\<lparr>cn_parse_need := n\<rparr>)" "step c (c\<lparr>cn_batch := ms\<rparr>)"
  "step c (c\<lparr>cn_fd_inbox := fds\<rparr>)"
  by (rule step_silent; simp add: conn_wf_def)+

lemma step_armed: "step c (c\<lparr>cn_coro := (cn_coro c)\<lparr>co_armed := a\<rparr>\<rparr>)"
  by (rule step_silent) (simp_all add: conn_wf_def)

lemma step_rearm: "rearm_recv c = Some c' \<Longrightarrow> step c c'"
  using step_trans [OF step_armed step_arm_recv]
  by (auto simp: rearm_recv_def intro: step_arm_recv split: if_splits)

section \<open>Sending\<close>

lemma step_pause: "cn_state c \<noteq> Closed \<Longrightarrow> step c (pause_reads c)"
  unfolding pause_reads_def
  by (rule step_trans [OF step_flags(2) step_emit]) (simp_all)

lemma pause_state [simp]: "cn_state (pause_reads c) = cn_state c"
  by (simp add: pause_reads_def emit_def)

lemma step_count: "step c (count_hwm c)" "step c (count_drop c)"
  by (simp_all add: count_hwm_def count_drop_def step_stats)

lemma count_state [simp]:
  "cn_state (count_hwm c) = cn_state c" "cn_state (count_drop c) = cn_state c"
  "cn_params (count_hwm c) = cn_params c" "cn_params (count_drop c) = cn_params c"
  by (simp_all add: count_hwm_def count_drop_def)

lemma step_watermark:
  assumes "cn_state c \<noteq> Closed"
  shows "step c (check_write_watermark c)"
proof -
  have s: "step c (count_hwm (c\<lparr>cn_backpressured := True\<rparr>))"
    by (rule step_trans [OF step_flags(1) step_count(1)])
  from s step_trans [OF s step_pause] assms show ?thesis
    by (simp add: check_write_watermark_def Let_def)
qed

lemma queue_bytes_step: "queue_bytes bs c = Some c' \<Longrightarrow> step c c' \<and> cn_state c' = cn_state c"
  by (auto simp: queue_bytes_def intro!: step_write_buf dest: ib_append_wf split: bind_splits)

lemma queue_parts_step: "queue_parts ps c = Some c' \<Longrightarrow> step c c' \<and> cn_state c' = cn_state c"
proof (induction ps arbitrary: c)
  case (Cons p ps)
  then obtain c1 where "queue_bytes p c = Some c1" "queue_parts ps c1 = Some c'"
    by (auto split: bind_splits)
  with Cons.IH [of c1] queue_bytes_step [of p c c1] show ?case by (auto intro: step_trans)
qed simp

lemma drop_oldest_step: "step c (drop_oldest n c)" "cn_state (drop_oldest n c) = cn_state c"
  by (simp_all add: drop_oldest_def step_write_buf ib_consume_spec(1))

lemma drop_parts_step:
  "step c (fold (\<lambda>p. drop_oldest (length p)) ps c) \<and> cn_state (fold (\<lambda>p. drop_oldest (length p)) ps c) = cn_state c"
  by (induction ps arbitrary: c) (auto intro: step_trans [OF drop_oldest_step(1)] simp: drop_oldest_step(2))

lemma step_note: "cn_state c \<noteq> Closed \<Longrightarrow> step c (emit EvNoteWritePending c)"
  by (rule step_emit) (simp_all)

lemma emit_state [simp]: "cn_state (emit e c) = cn_state c"
  by (simp add: emit_def)

lemma step_overflow:
  assumes "apply_overflow H bs c = Some (r, c')" "cn_state c \<noteq> Closed"
  shows "step c c'"
proof (cases "on_overflow (flow c)")
  case Disconnect
  with assms(1) step_trans [OF step_count(1) step_close] show ?thesis
    by (auto simp: apply_overflow_def Let_def)
next
  case DropNewest
  with assms(1) step_trans [OF step_count(1) step_count(2)] show ?thesis
    by (auto simp: apply_overflow_def Let_def)
next
  case DropOldest
  let ?d = "drop_oldest (length bs) (count_drop (count_hwm c))"
  from DropOldest assms(1) obtain c1 where c1: "queue_bytes bs ?d = Some c1" "c' = emit EvNoteWritePending c1"
    by (auto simp: apply_overflow_def Let_def split: bind_splits)
  have "step c ?d" by (rule step_trans [OF step_trans [OF step_count] drop_oldest_step(1)])
  also have "step ?d c1" using queue_bytes_step [OF c1(1)] by simp
  also have "step c1 c'" unfolding c1(2)
    by (rule step_note) (use queue_bytes_step [OF c1(1)] assms(2) in \<open>simp add: drop_oldest_step\<close>)
  finally show ?thesis .
next
  case StopReading
  let ?d = "pause_reads (count_hwm c)"
  from StopReading assms(1) obtain c1 where c1: "queue_bytes bs ?d = Some c1" "c' = emit EvNoteWritePending c1"
    by (auto simp: apply_overflow_def Let_def split: bind_splits)
  have "step c ?d" by (rule step_trans [OF step_count(1) step_pause]) (use assms(2) in simp)
  also have "step ?d c1" using queue_bytes_step [OF c1(1)] by simp
  also have "step c1 c'" unfolding c1(2)
    by (rule step_note) (use queue_bytes_step [OF c1(1)] assms(2) in simp)
  finally show ?thesis .
qed

lemma step_overflow_parts:
  assumes "apply_overflow_parts H ps c = Some (r, c')" "cn_state c \<noteq> Closed"
  shows "step c c'"
proof (cases "on_overflow (flow c)")
  case Disconnect
  with assms(1) step_trans [OF step_count(1) step_close] show ?thesis
    by (auto simp: apply_overflow_parts_def Let_def)
next
  case DropNewest
  with assms(1) step_trans [OF step_count(1) step_count(2)] show ?thesis
    by (auto simp: apply_overflow_parts_def Let_def)
next
  case DropOldest
  let ?d = "fold (\<lambda>p. drop_oldest (length p)) ps (count_drop (count_hwm c))"
  from DropOldest assms(1) obtain c1 where c1: "queue_parts ps ?d = Some c1" "c' = emit EvNoteWritePending c1"
    by (auto simp: apply_overflow_parts_def Let_def split: bind_splits)
  have "step c ?d" using step_trans [OF step_trans [OF step_count]] drop_parts_step by blast
  also have "step ?d c1" using queue_parts_step [OF c1(1)] by simp
  also have "step c1 c'" unfolding c1(2)
    by (rule step_note) (use queue_parts_step [OF c1(1)] assms(2) in \<open>simp add: drop_parts_step\<close>)
  finally show ?thesis .
next
  case StopReading
  let ?d = "pause_reads (count_hwm c)"
  from StopReading assms(1) obtain c1 where c1: "queue_parts ps ?d = Some c1" "c' = emit EvNoteWritePending c1"
    by (auto simp: apply_overflow_parts_def Let_def split: bind_splits)
  have "step c ?d" by (rule step_trans [OF step_count(1) step_pause]) (use assms(2) in simp)
  also have "step ?d c1" using queue_parts_step [OF c1(1)] by simp
  also have "step c1 c'" unfolding c1(2)
    by (rule step_note) (use queue_parts_step [OF c1(1)] assms(2) in simp)
  finally show ?thesis .
qed

text \<open>Queueing within the high watermark.\<close>

lemma step_queued:
  assumes "step c c1" "cn_state c1 \<noteq> Closed"
  shows "step c (check_write_watermark (emit EvNoteWritePending c1))"
  by (rule step_trans [OF step_trans [OF assms(1) step_note [OF assms(2)]] step_watermark])
    (simp add: assms(2))

lemma step_send: "conn_send H bs c = Some (r, c') \<Longrightarrow> step c c'"
  by (auto simp: conn_send_def dest!: queue_bytes_step intro: step_overflow step_queued
      split: if_splits bind_splits)

lemma step_send_scatter: "send_scatter H ps c = Some (r, c') \<Longrightarrow> step c c'"
  by (auto simp: send_scatter_def dest!: queue_parts_step intro: step_overflow_parts step_queued
      split: if_splits bind_splits)

lemma step_shutdown_wr: "cn_state c \<noteq> Closed \<Longrightarrow> step c (shutdown_wr c)"
  unfolding shutdown_wr_def by (rule step_emit) (simp_all)

lemma arm_idle_state [simp]: "cn_state (arm_idle_timer c) = cn_state c"
  by (simp add: arm_idle_timer_def Let_def)

lemma step_state: "cn_state c \<noteq> Closed \<Longrightarrow> s = Established \<or> s = ShutdownWrite \<Longrightarrow> step c (c\<lparr>cn_state := s\<rparr>)"
  by (auto simp: step_def ext_def conn_wf_def)

lemma step_shutdown_write: "step c (shutdown_write c)"
proof (cases "cn_state c = Established")
  case True
  let ?c = "arm_idle_timer (c\<lparr>cn_state := ShutdownWrite\<rparr>)"
  have s: "step c ?c" by (rule step_trans [OF step_state step_arm_timer]) (simp_all add: True)
  with step_trans [OF s step_shutdown_wr] True show ?thesis by (simp add: shutdown_write_def Let_def)
qed (simp add: shutdown_write_def)

lemma step_send_fds: "conn_send_fds H payload n c = Some (r, c') \<Longrightarrow> step c c'"
  by (auto simp: conn_send_fds_def Let_def intro: step_stats step_trans [OF step_stats step_send]
      split: if_splits sum.splits bind_splits)

section \<open>Application code\<close>

lemma step_await_recv: "coro_await_recv c = Some c' \<Longrightarrow> cn_state c \<noteq> Closed \<Longrightarrow> step c c'"
proof -
  assume a: "coro_await_recv c = Some c'" "cn_state c \<noteq> Closed"
  have "step c (c\<lparr>cn_coro := (cn_coro c)\<lparr>co_recv_parked := True\<rparr>\<rparr>)"
    "step c (c\<lparr>cn_coro := (cn_coro c)\<lparr>co_recv_parked := True, co_armed := True\<rparr>\<rparr>)"
    by (rule step_coro; simp add: a(2))+
  with a show "step c c'"
    using step_trans step_arm_recv
    by (fastforce simp: coro_await_recv_def Let_def split: if_splits)
qed

lemma step_action: "run_action H a c = Some c' \<Longrightarrow> step c c'"
  by (cases a)
    (auto simp: run_action_def coro_recv_ready_def coro_await_send_def
      intro: step_send step_send_scatter step_shutdown_write step_close step_send_fds step_await_recv
        step_unpark step_coro
      split: if_splits)

lemma step_actions: "run_actions H as c = Some c' \<Longrightarrow> step c c'"
  by (induction as arbitrary: c) (auto intro: step_trans [OF step_action] split: bind_splits)

text \<open>On a connection that is closing or closed, application calls do nothing.\<close>

lemma run_actions_closing: "cn_state c = Closing \<or> cn_state c = Closed \<Longrightarrow> run_actions H as c = Some c"
  by (induction as) (simp_all add: run_action_def)

lemma step_call_back:
  assumes "call_back H f e c = Some c'" "cn_state c \<noteq> Closed" "open_event e"
    "e \<noteq> EvOnOpen \<or> cn_state c \<noteq> Connecting"
  shows "step c c'"
  using assms step_trans [OF step_emit [OF assms(2-4)] step_actions]
  by (auto simp: call_back_def Let_def split: option.splits)

section \<open>Completions\<close>

lemma step_dispatch:
  assumes "dispatch_batch H c = Some c'" "cn_state c \<noteq> Closed"
  shows "step c c'"
proof -
  let ?c = "c\<lparr>cn_stats := (cn_stats c)\<lparr>st_msgs_in := st_msgs_in (cn_stats c) + 1\<rparr>\<rparr>"
  have "step ?c c'"
  proof (cases "co_on (cn_coro c) \<and> \<not> co_recv_parked (cn_coro c)")
    case True
    with assms show ?thesis
      by (auto simp: dispatch_batch_def Let_def intro!: step_coro step_close split: if_splits)
  next
    case False
    with assms show ?thesis
      using step_trans [OF step_unpark(1) step_call_back, of H _ _ ?c c']
      by (auto simp: dispatch_batch_def Let_def coro_unawait_recv_def
          intro: step_call_back split: if_splits)
  qed
  with step_trans [OF step_stats] show ?thesis by blast
qed

lemma step_frame_error:
  assumes "frame_error H e c = Some c'" "cn_state c \<noteq> Closed"
  shows "step c c'"
proof -
  let ?c = "c\<lparr>cn_stats := (cn_stats c)\<lparr>st_frame_errors := st_frame_errors (cn_stats c) + 1\<rparr>\<rparr>"
  from assms(1) obtain c1 where c1: "call_back H (map_option (\<lambda>f. f e) (on_error H)) (EvOnError e) ?c = Some c1"
    "c' = conn_close H FrameError c1"
    by (auto simp: frame_error_def Let_def split: bind_splits)
  have "step c ?c" by (rule step_stats)
  also have "step ?c c1" by (rule step_call_back [OF c1(1)]) (simp_all add: assms(2))
  also have "step c1 c'" unfolding c1(2) by (rule step_close)
  finally show ?thesis .
qed

lemma step_take: "step c (take_message m k c)" "cn_state (take_message m k c) = cn_state c"
proof -
  show "cn_state (take_message m k c) = cn_state c" by (simp add: take_message_def)
  show "step c (take_message m k c)"
    by (rule step_silent) (simp_all add: take_message_def conn_wf_def ib_consume_spec(1))
qed

lemma step_parse_loop:
  assumes "parse_loop H c = Some r" "cn_state c \<noteq> Closed"
  shows "step c (snd r) \<and> (fst r \<longrightarrow> cn_state (snd r) \<noteq> Closed)"
proof (rule mp [OF _ assms(2)],
    rule parse_loop.raw_induct [of "\<lambda>H c r. cn_state c \<noteq> Closed \<longrightarrow> step c (snd r) \<and> (fst r \<longrightarrow> cn_state (snd r) \<noteq> Closed)",
      OF _ assms(1)], rule impI)
  fix loop H and c :: "'a conn" and r
  assume IH: "\<And>H c r. loop H c = Some r \<Longrightarrow> cn_state c \<noteq> Closed \<longrightarrow> step c (snd r) \<and> (fst r \<longrightarrow> cn_state (snd r) \<noteq> Closed)"
    and body: "Option.bind (proto H (ib_readable (cn_read_buf c))) (\<lambda>r. case r of
         Message m k \<Rightarrow>
           (let c = take_message m k c in
            if length (cn_batch c) = batch_capacity
            then Option.bind (dispatch_batch H c) (\<lambda>c.
                   let c = c\<lparr>cn_batch := []\<rparr> in
                   if cn_state c \<noteq> Established then Some (False, c) else loop H c)
            else loop H c)
       | NeedMore n \<Rightarrow> Some (True, c\<lparr>cn_parse_need := n\<rparr>)
       | ParseError e \<Rightarrow> Option.bind (frame_error H e c) (\<lambda>c. Some (False, c))) = Some r"
    and live: "cn_state c \<noteq> Closed"
  from body obtain p where p: "proto H (ib_readable (cn_read_buf c)) = Some p" by (auto split: bind_splits)
  show "step c (snd r) \<and> (fst r \<longrightarrow> cn_state (snd r) \<noteq> Closed)"
  proof (cases p)
    case (Message m k)
    let ?c = "take_message m k c"
    have l: "cn_state ?c \<noteq> Closed" using live by (simp add: step_take)
    show ?thesis
    proof (cases "length (cn_batch ?c) = batch_capacity")
      case False
      with body p Message IH [of H ?c r] l show ?thesis by (auto intro: step_trans [OF step_take(1)])
    next
      case True
      with body p Message obtain c1 where c1: "dispatch_batch H ?c = Some c1" by (auto split: bind_splits)
      from step_trans [OF step_take(1) step_trans [OF step_dispatch [OF c1 l] step_flags(5)]]
      have s: "step c (c1\<lparr>cn_batch := []\<rparr>)" .
      with body p Message True c1 IH [of H "c1\<lparr>cn_batch := []\<rparr>" r] show ?thesis
        by (auto simp: Let_def split: if_splits intro: step_trans [OF s])
    qed
  next
    case (NeedMore n)
    with body p live show ?thesis by (auto intro: step_flags)
  next
    case (ParseError e)
    with body p live show ?thesis by (auto dest: step_frame_error split: bind_splits)
  qed
qed

lemma step_after_parse: "after_parse H c = Some c' \<Longrightarrow> cn_state c \<noteq> Closed \<Longrightarrow> step c c'"
  by (auto simp: after_parse_def intro: step_arm_recv step_arm_drain step_dispatch
      step_trans [OF step_dispatch step_arm_recv] step_trans [OF step_dispatch step_arm_drain]
      split: if_splits bind_splits)

lemma step_on_recv_draining: "on_recv_draining H res c = Some c' \<Longrightarrow> step c c'"
  by (auto simp: on_recv_draining_def intro: step_close step_trans [OF step_arm_timer step_arm_drain]
      split: if_splits)

text \<open>
  A completion without descriptors: \<open>deliver_fds\<close> is the one place where the code goes on after
  application code without looking at the state again (\<open>messages_after_close\<close> in \<^verbatim>\<open>Conn_Coro\<close>).
\<close>

lemma step_on_recv:
  assumes "on_recv H res flags c = Some c'" "cn_state c \<noteq> Closed" "\<not> flagged flags (or has_fds fd_trunc)"
  shows "step c c'"
proof -
  let ?c = "if co_on (cn_coro c) then c\<lparr>cn_coro := (cn_coro c)\<lparr>co_armed := False\<rparr>\<rparr> else c"
  have "step ?c c'"
  proof (cases "cn_state c = Established \<and> 0 < res")
    case False
    with assms(1) show ?thesis
      by (auto simp: on_recv_def Let_def intro: step_on_recv_draining step_rearm step_close split: if_splits)
  next
    case True
    from True assms(1,3) obtain b go c2 where b: "ib_commit (nat res) (cn_read_buf ?c) = Some b"
      and l: "parse_loop H ((arm_idle_timer (?c\<lparr>cn_read_buf := b,
        cn_stats := (cn_stats ?c)\<lparr>st_bytes_in := st_bytes_in (cn_stats ?c) + nat res\<rparr>\<rparr>))\<lparr>cn_batch := []\<rparr>) = Some (go, c2)"
      and r: "if go then after_parse H c2 = Some c' else c' = c2"
      by (auto simp: on_recv_def Let_def split: if_splits bind_splits)
    let ?c1 = "?c\<lparr>cn_read_buf := b,
        cn_stats := (cn_stats ?c)\<lparr>st_bytes_in := st_bytes_in (cn_stats ?c) + nat res\<rparr>\<rparr>"
    have "step ?c ?c1" by (rule step_silent) (use ib_commit_wf [OF b] in \<open>simp_all add: conn_wf_def\<close>)
    also have "step ?c1 ((arm_idle_timer ?c1)\<lparr>cn_batch := []\<rparr>)" by (rule step_trans [OF step_arm_timer step_flags(5)])
    also have "step ((arm_idle_timer ?c1)\<lparr>cn_batch := []\<rparr>) c2" "go \<Longrightarrow> cn_state c2 \<noteq> Closed"
      using step_parse_loop [OF l] True by auto
    then have "step ((arm_idle_timer ?c1)\<lparr>cn_batch := []\<rparr>) c'"
      using r step_after_parse [of H c2 c'] by (auto split: if_splits intro: step_trans)
    finally show ?thesis .
  qed
  moreover have "step c ?c" by (simp add: step_armed)
  ultimately show ?thesis by (rule step_trans [rotated])
qed

lemma step_flush: "step c (flush_write c)"
proof (cases "cn_state c = Closed")
  case True
  then show ?thesis by (simp add: flush_write_def)
next
  case False
  have "step c (emit (EvSubmitSend (cn_fd c) a b) (c\<lparr>cn_write_inflight := n\<rparr>))" for a b n
    by (rule step_trans [OF step_flags(3) step_emit]) (simp_all add: False)
  then show ?thesis by (simp add: flush_write_def)
qed

lemma step_coro_writable:
  assumes "coro_writable H c = Some c'" "conn_wf c"
  shows "step c c'"
proof (cases "co_send_parked (cn_coro c)")
  case None
  with assms show ?thesis by (simp add: coro_writable_def)
next
  case (Some bs)
  with assms(1) obtain r c1 where c1: "conn_send H bs c = Some (r, c1)"
    "c' = c1 \<or> co_send_parked (cn_coro c1) \<noteq> None \<and>
       call_back H (Some (session_sent H r)) (EvResumeSend r) (coro_unawait_send c1) = Some c'"
    by (auto simp: coro_writable_def split: bind_splits if_splits)
  have s: "step c c1" by (rule step_send [OF c1(1)])
  from s assms(2) have "conn_wf c1" by (simp add: step_def)
  then have "co_send_parked (cn_coro c1) \<noteq> None \<Longrightarrow> cn_state (coro_unawait_send c1) \<noteq> Closed"
    by (auto simp: conn_wf_def coro_unawait_send_def)
  with c1(2) step_trans [OF step_unpark(2) step_call_back, of H "Some (session_sent H r)" "EvResumeSend r" c1 c']
  have "step c1 c'" by (auto)
  with s show ?thesis by (rule step_trans)
qed

lemma rearm_state: "rearm_recv c = Some c' \<Longrightarrow> cn_state c' = cn_state c"
  by (auto simp: rearm_recv_def arm_recv_def split: if_splits bind_splits)

lemma step_write_drained:
  assumes "write_drained H c = Some c'" "cn_state c \<noteq> Closed"
  shows "step c c'"
proof (cases "cn_backpressured c \<and> ib_size (cn_write_buf c) \<le> write_low_watermark (flow c)")
  case False
  with assms show ?thesis by (simp add: write_drained_def)
next
  case True
  let ?c = "c\<lparr>cn_backpressured := False\<rparr>"
  from True assms(1) obtain c1 where c1: "(if cn_read_paused c then rearm_recv (?c\<lparr>cn_read_paused := False\<rparr>) else Some ?c) = Some c1"
    and r: "(if co_on (cn_coro c1) then coro_writable H c1
        else if cn_state c1 = Established then call_back H (on_writable H) EvOnWritable c1 else Some c1) = Some c'"
    by (auto simp: write_drained_def Let_def split: bind_splits)
  have "step c ?c" by (rule step_flags)
  also have "rearm_recv (?c\<lparr>cn_read_paused := False\<rparr>) = Some c1 \<Longrightarrow> step ?c c1"
    by (rule step_trans [OF step_flags(2) step_rearm])
  with c1 have "step ?c c1" by (auto split: if_splits)
  finally have s: "step c c1" .
  have live: "cn_state c1 \<noteq> Closed" using c1 rearm_state assms(2) by (fastforce split: if_splits)
  have "conn_wf c1 \<Longrightarrow> step c1 c'"
    using r live by (auto intro: step_coro_writable step_call_back simp: split: if_splits)
  with s show ?thesis unfolding step_def using ext_trans by blast
qed

lemma step_on_sent:
  assumes "on_sent H res c = Some c'" "cn_state c \<noteq> Closed"
  shows "step c c'"
proof (cases "res < 0")
  case True
  with assms show ?thesis
    by (auto simp: on_sent_def Let_def intro: step_flags step_trans [OF step_flags(3) step_close] split: if_splits)
next
  case False
  let ?c = "c\<lparr>cn_write_inflight := 0, cn_write_buf := ib_consume (nat res) (cn_write_buf c),
      cn_stats := (cn_stats c)\<lparr>st_bytes_out := st_bytes_out (cn_stats c) + nat res\<rparr>\<rparr>"
  let ?d = "if cn_state ?c = ShutdownWrite \<and> ib_size (cn_write_buf ?c) = 0 \<and> 0 \<le> cn_fd ?c then shutdown_wr ?c else ?c"
  have "on_sent H res c = do { c1 \<leftarrow> write_drained H ?d;
      Some (if ib_size (cn_write_buf c1) \<noteq> 0 then emit EvNoteWritePending c1 else c1) }"
    using False by (simp add: on_sent_def Let_def)
  with assms(1) obtain c1 where c1: "write_drained H ?d = Some c1"
    and c': "c' = (if ib_size (cn_write_buf c1) \<noteq> 0 then emit EvNoteWritePending c1 else c1)"
    by (auto split: bind_splits)
  have "step c ?c" by (rule step_silent) (simp_all add: conn_wf_def ib_consume_spec(1))
  also have "step ?c ?d" using assms(2) by (simp add: step_shutdown_wr)
  also have "step ?d c1" by (rule step_write_drained [OF c1]) (simp add: assms(2) shutdown_wr_def)
  also have "step c1 c'" unfolding c' by (simp add: step_emit_late)
  finally show ?thesis .
qed

lemma step_start:
  assumes "conn_start H c = Some c'" "cn_state c = Connecting"
  shows "step c c'"
proof -
  let ?c1 = "c\<lparr>cn_state := Established\<rparr>"
  let ?c2 = "if cp_timestamping (cn_params c) then emit (EvSetTimestamping (cn_fd c)) ?c1 else ?c1"
  let ?c3 = "if cp_fd_passing (cn_params c) then emit (EvSetFdInbox (cn_fd c)) ?c2 else ?c2"
  have "conn_start H c = do { c \<leftarrow> call_back H (on_open H) EvOnOpen ?c3; rearm_recv (arm_idle_timer c) }"
    by (cases "cp_timestamping (cn_params c)"; cases "cp_fd_passing (cn_params c)")
      (simp_all add: conn_start_def Let_def emit_def)
  with assms(1) obtain c4 where c4: "call_back H (on_open H) EvOnOpen ?c3 = Some c4"
    "rearm_recv (arm_idle_timer c4) = Some c'"
    by (auto split: bind_splits)
  have "step c ?c1" by (rule step_state) (simp_all add: assms(2))
  also have "step ?c1 ?c2" by (simp add: step_emit)
  also have "step ?c2 ?c3" by (simp add: step_emit)
  also have "step ?c3 c4" by (rule step_call_back [OF c4(1)]) (simp_all)
  also have "step c4 c'" by (rule step_trans [OF step_arm_timer step_rearm [OF c4(2)]])
  finally show ?thesis .
qed

lemma step_connect_result: "on_connect_result H res c = Some c' \<Longrightarrow> step c c'"
  by (auto simp: on_connect_result_def intro: step_close step_start split: if_splits)

lemma step_completion:
  assumes "on_completion H kind res flags c = Some c'" "cn_state c \<noteq> Closed"
    "\<not> flagged flags (or has_fds fd_trunc)"
  shows "step c c'"
  using assms
  by (cases kind)
    (auto simp: on_completion_def intro: step_connect_result step_on_recv step_on_sent step_flush)

section \<open>Runs\<close>

text \<open>
  What can happen to a connection: it is started by its owner, a completion reaches it through its
  sink (which a closed connection no longer has), the application calls it, its idle timer fires,
  a cross-thread handle's task runs.
\<close>

datatype conn_op =
  CoStart | CoComplete op_kind int u32 | CoAction action | CoIdle | CoHandleSend "byte list" | CoHandleClose

definition conn_step :: "'m handlers \<Rightarrow> conn_op \<Rightarrow> 'm conn \<Rightarrow> 'm conn option" where
  "conn_step H op c =
     (case op of
        CoStart \<Rightarrow> if cn_state c = Connecting then conn_start H c else Some c
      | CoComplete k res flags \<Rightarrow> if cn_state c = Closed then Some c else on_completion H k res flags c
      | CoAction a \<Rightarrow> run_action H a c
      | CoIdle \<Rightarrow> Some (idle_fired H c)
      | CoHandleSend bs \<Rightarrow> handle_send H bs c
      | CoHandleClose \<Rightarrow> Some (handle_close H c))"

fun conn_run :: "'m handlers \<Rightarrow> conn_op list \<Rightarrow> 'm conn \<Rightarrow> 'm conn option" where
  "conn_run H [] c = Some c"
| "conn_run H (op # ops) c = do { c \<leftarrow> conn_step H op c; conn_run H ops c }"

definition no_fds :: "conn_op \<Rightarrow> bool" where
  "no_fds op = (case op of CoComplete k res flags \<Rightarrow> \<not> flagged flags (or has_fds fd_trunc) | _ \<Rightarrow> True)"

lemma step_conn_step: "conn_step H op c = Some c' \<Longrightarrow> no_fds op \<Longrightarrow> step c c'"
  by (cases op)
    (auto simp: conn_step_def no_fds_def idle_fired_def handle_send_def handle_close_def
      intro: step_start step_completion step_action step_close step_send split: if_splits)

lemma step_conn_run: "conn_run H ops c = Some c' \<Longrightarrow> list_all no_fds ops \<Longrightarrow> step c c'"
  by (induction ops arbitrary: c) (auto intro: step_trans [OF step_conn_step] split: bind_splits)

section \<open>Properties\<close>

lemma conn_new_wf: "0 \<le> fd \<Longrightarrow> conn_wf (conn_new fd params running)"
  by (simp add: conn_wf_def conn_new_def no_coro_def)



definition plain_handlers :: "byte list handlers" where
  "plain_handlers = \<lparr>on_messages = None, on_open = None, on_close = True, on_error = None, on_writable = None,
     on_fds = None, proto = (\<lambda>xs. Some (line_parse xs)), session = (\<lambda>_ _. []), session_sent = (\<lambda>_ _. [])\<rparr>"

definition plain_params :: conn_params where
  "plain_params = \<lparr>cp_flow = \<lparr>write_high_watermark = 4, write_low_watermark = 2, on_overflow = Disconnect,
       auto_pause_reads = True\<rparr>, cp_idle_read_timeout = 5, cp_read_buffer_size = 8192, cp_timestamping = False,
     cp_fd_passing = False\<rparr>"

lemma plain_close_run:
  "conn_run plain_handlers [CoHandleClose, CoIdle] (conn_new 3 plain_params True) =
     Some (conn_close plain_handlers LocalClose (conn_new 3 plain_params True))"
  by (simp add: conn_step_def handle_close_def idle_fired_def resolves_def conn_new_def no_coro_def
      conn_close_def teardown_def Let_def plain_handlers_def release_group_def release_fd_def emit_def
      wake_waiters_def)



end
