(* ===== verification/Conn_Streams.thy ===== *)
theory Conn_Streams
  imports Conn_Lifecycle
begin

text \<open>
  The byte stream a connection reads: in callback mode the messages handed to the application are
  the frames of the received bytes, in order and once each, however the transport cut them.
\<close>

section \<open>What application calls leave alone\<close>

fun delivered :: "'m conn_event list \<Rightarrow> 'm list" where
  "delivered [] = []"
| "delivered (EvOnMessages ms # es) = ms @ delivered es"
| "delivered (e # es) = delivered es"

lemma delivered_append [simp]: "delivered (es @ fs) = delivered es @ delivered fs"
  by (induction es rule: delivered.induct) simp_all

fun plain_action :: "action \<Rightarrow> bool" where
  "plain_action (ASend bs) = True"
| "plain_action (ASendScatter ps) = True"
| "plain_action AShutdownWrite = True"
| "plain_action (AClose r) = True"
| "plain_action (ASendFds p r) = True"
| "plain_action _ = False"

text \<open>The part of a connection that belongs to its reading side.\<close>

definition reader :: "'m conn \<Rightarrow> io_buffer \<times> 'm list \<times> nat \<times> (nat \<times> nat) option \<times> 'm coro_state \<times> conn_params \<times> 'm list" where
  "reader c = (cn_read_buf c, cn_batch c, cn_parse_need c, cn_recv_span c, cn_coro c, cn_params c, delivered (cn_log c))"

definition same_reader :: "'m conn \<Rightarrow> 'm conn \<Rightarrow> bool" where
  "same_reader c c' \<longleftrightarrow> cn_coro c = no_coro \<longrightarrow> reader c' = reader c"

lemma same_reader_trans [trans]: "same_reader a b \<Longrightarrow> same_reader b c \<Longrightarrow> same_reader a c"
  by (auto simp: same_reader_def reader_def)

lemma same_readerI:
  assumes "cn_read_buf c' = cn_read_buf c" "cn_batch c' = cn_batch c" "cn_parse_need c' = cn_parse_need c"
    "cn_recv_span c' = cn_recv_span c" "cn_coro c' = cn_coro c" "cn_params c' = cn_params c"
    "delivered (cn_log c') = delivered (cn_log c)"
  shows "same_reader c c'"
  using assms by (simp add: same_reader_def reader_def)

lemma reader_emit: "delivered [e] = [] \<Longrightarrow> same_reader c (emit e c)"
  by (rule same_readerI) (simp_all add: emit_def)

lemma reader_wake: "same_reader c (wake_waiters c)"
  by (auto simp: same_reader_def wake_waiters_def no_coro_def)

lemma reader_release: "same_reader c (release_group (release_fd c))"
  by (rule same_readerI) (simp_all add: release_group_def release_fd_def emit_def)

lemma reader_close: "same_reader c (conn_close H r c)"
proof -
  let ?c1 = "release_group (release_fd (c\<lparr>cn_state := Closing\<rparr>))"
  let ?c2 = "?c1\<lparr>cn_stats := (cn_stats ?c1)\<lparr>st_conns_closed := st_conns_closed (cn_stats ?c1) + 1\<rparr>\<rparr>"
  let ?c3 = "if on_close H then emit (EvOnClose r) ?c2 else ?c2"
  let ?c4 = "(emit EvReleaseSink ?c3)\<lparr>cn_state := Closed\<rparr>"
  have "same_reader c (c\<lparr>cn_state := Closing\<rparr>)" by (simp add: same_readerI)
  also have "same_reader (c\<lparr>cn_state := Closing\<rparr>) ?c1" by (rule reader_release)
  also have "same_reader ?c1 ?c2" by (simp add: same_readerI)
  also have "same_reader ?c2 ?c4" by (simp add: same_readerI emit_def)
  also have "same_reader ?c4 (emit (EvNotify r (cn_em_running (wake_waiters ?c4))) (wake_waiters ?c4))"
    by (rule same_reader_trans [OF reader_wake reader_emit]) simp
  finally show ?thesis by (cases "on_close H") (simp_all add: conn_close_def teardown_def Let_def same_readerI)
qed

lemma reader_small:
  "same_reader c (count_hwm c)" "same_reader c (count_drop c)" "same_reader c (pause_reads c)"
  "same_reader c (check_write_watermark c)" "same_reader c (drop_oldest n c)"
  "same_reader c (emit EvNoteWritePending c)" "same_reader c (arm_idle_timer c)" "same_reader c (shutdown_wr c)"
  by (auto intro!: same_readerI simp: count_hwm_def count_drop_def pause_reads_def check_write_watermark_def
      Let_def drop_oldest_def emit_def arm_idle_timer_def shutdown_wr_def)

lemma reader_queue: "queue_bytes bs c = Some c' \<Longrightarrow> same_reader c c'"
  by (auto simp: queue_bytes_def intro!: same_readerI split: bind_splits)

lemma reader_queue_parts: "queue_parts ps c = Some c' \<Longrightarrow> same_reader c c'"
  by (induction ps arbitrary: c)
    (auto simp: same_readerI intro: same_reader_trans [OF reader_queue] split: bind_splits)

lemma reader_drop_parts: "same_reader c (fold (\<lambda>p. drop_oldest (length p)) ps c)"
  by (induction ps arbitrary: c) (auto simp: same_readerI intro: same_reader_trans [OF reader_small(5)])

lemma reader_queued:
  "same_reader c d \<Longrightarrow> queue_bytes bs d = Some c' \<Longrightarrow> same_reader c (emit EvNoteWritePending c')"
  "same_reader c d \<Longrightarrow> queue_parts ps d = Some c' \<Longrightarrow> same_reader c (emit EvNoteWritePending c')"
  using same_reader_trans reader_queue reader_queue_parts reader_small(6) by blast+

lemma reader_drops:
  "same_reader c (conn_close H r (count_hwm c))" "same_reader c (count_drop (count_hwm c))"
  "same_reader c (drop_oldest n (count_drop (count_hwm c)))"
  "same_reader c (fold (\<lambda>p. drop_oldest (length p)) ps (count_drop (count_hwm c)))"
  "same_reader c (pause_reads (count_hwm c))"
  using same_reader_trans reader_small(1,2,3,5) reader_close reader_drop_parts by blast+

lemma reader_overflow: "apply_overflow H bs c = Some (r, c') \<Longrightarrow> same_reader c c'"
  by (auto simp: apply_overflow_def Let_def reader_drops intro: reader_queued(1) [OF reader_drops(3)]
      reader_queued(1) [OF reader_drops(5)] split: write_overflow.splits bind_splits)

lemma reader_overflow_parts: "apply_overflow_parts H ps c = Some (r, c') \<Longrightarrow> same_reader c c'"
  by (auto simp: apply_overflow_parts_def Let_def reader_drops intro: reader_queued(2) [OF reader_drops(4)]
      reader_queued(2) [OF reader_drops(5)] split: write_overflow.splits bind_splits)

lemma reader_refl [simp]: "same_reader c c"
  by (simp add: same_readerI)

lemma reader_send: "conn_send H bs c = Some (r, c') \<Longrightarrow> same_reader c c'"
  using same_reader_trans [OF reader_queued(1) [OF reader_refl] reader_small(4)]
  by (auto simp: conn_send_def intro: reader_overflow split: if_splits bind_splits)

lemma reader_scatter: "send_scatter H ps c = Some (r, c') \<Longrightarrow> same_reader c c'"
  using same_reader_trans [OF reader_queued(2) [OF reader_refl] reader_small(4)]
  by (auto simp: send_scatter_def intro: reader_overflow_parts split: if_splits bind_splits)

lemma reader_send_fds: "conn_send_fds H p n c = Some (r, c') \<Longrightarrow> same_reader c c'"
proof -
  assume a: "conn_send_fds H p n c = Some (r, c')"
  have s: "same_reader c (c\<lparr>cn_stats := s\<rparr>)" for s by (simp add: same_readerI)
  from a show ?thesis
    by (auto simp: conn_send_fds_def Let_def same_readerI intro: same_reader_trans [OF s reader_send]
        split: if_splits sum.splits bind_splits)
qed

lemma reader_shutdown_write: "same_reader c (shutdown_write c)"
proof -
  have "same_reader c (c\<lparr>cn_state := ShutdownWrite\<rparr>)" by (simp add: same_readerI)
  from same_reader_trans [OF this reader_small(7)] same_reader_trans [OF same_reader_trans [OF this reader_small(7)] reader_small(8)]
  show ?thesis by (simp add: shutdown_write_def Let_def)
qed

lemma reader_action: "plain_action a \<Longrightarrow> run_action H a c = Some c' \<Longrightarrow> same_reader c c'"
  by (cases a)
    (auto simp: run_action_def same_readerI
      intro: reader_send reader_scatter reader_shutdown_write reader_close reader_send_fds split: if_splits)

lemma reader_actions: "list_all plain_action as \<Longrightarrow> run_actions H as c = Some c' \<Longrightarrow> same_reader c c'"
  by (induction as arbitrary: c)
    (auto simp: same_readerI intro: same_reader_trans [OF reader_action] split: bind_splits)

section \<open>Reading\<close>

text \<open>
  Callback mode with a handler that sends and closes as it likes. \<open>never_stuck\<close> asks that its calls
  return: they do unless a queue of more than \<open>2 ^ 61\<close> bytes is requested.
\<close>

definition plain_reader :: "'m handlers \<Rightarrow> ('m list \<Rightarrow> 'm conn \<Rightarrow> action list) \<Rightarrow> bool" where
  "plain_reader H f \<longleftrightarrow> on_messages H = Some f \<and> (\<forall>ms c. list_all plain_action (f ms c))"

definition never_stuck :: "'m handlers \<Rightarrow> bool" where
  "never_stuck H \<longleftrightarrow>
     (\<forall>f ms c. on_messages H = Some f \<longrightarrow> conn_wf c \<longrightarrow> run_actions H (f ms c) c \<noteq> None) \<and>
     (\<forall>f e c. on_error H = Some f \<longrightarrow> conn_wf c \<longrightarrow> run_actions H (f e c) c \<noteq> None)"

text \<open>A framer that never asks for more than \<open>2 ^ 60\<close> bytes at once.\<close>

definition modest :: "'m handlers \<Rightarrow> bool" where
  "modest H \<longleftrightarrow> (\<forall>xs n. proto H xs = Some (NeedMore n) \<longrightarrow> n \<le> 2 ^ 60)"

lemma wf_emit: "conn_wf (emit e c) = conn_wf c"
  by (simp add: conn_wf_def emit_def)

lemma dispatch_reads:
  assumes H: "plain_reader H f" "never_stuck H"
    and c: "conn_wf c" "cn_state c = Established" "cn_coro c = no_coro"
  shows "\<exists>c'. dispatch_batch H c = Some c' \<and> conn_wf c' \<and> cn_read_buf c' = cn_read_buf c \<and>
     cn_parse_need c' = cn_parse_need c \<and> cn_batch c' = cn_batch c \<and> cn_coro c' = no_coro \<and>
     cn_recv_span c' = cn_recv_span c \<and>
     delivered (cn_log c') = delivered (cn_log c) @ cn_batch c"
proof -
  let ?c = "emit (EvOnMessages (cn_batch c)) (c\<lparr>cn_stats := (cn_stats c)\<lparr>st_msgs_in := st_msgs_in (cn_stats c) + 1\<rparr>\<rparr>)"
  have d: "dispatch_batch H c = run_actions H (f (cn_batch c) ?c) ?c"
    using H(1) c(3) by (simp add: dispatch_batch_def plain_reader_def call_back_def Let_def no_coro_def emit_def)
  have "conn_wf ?c" using c(1) by (simp add: emit_def conn_wf_def)
  with H have "run_actions H (f (cn_batch c) ?c) ?c \<noteq> None"
    unfolding never_stuck_def plain_reader_def by blast
  then obtain c' where r: "run_actions H (f (cn_batch c) ?c) ?c = Some c'" by blast
  from H(1) have "same_reader ?c c'" by (intro reader_actions [OF _ r]) (simp add: plain_reader_def)
  moreover have "conn_wf c'" using step_actions [OF r] \<open>conn_wf ?c\<close> by (simp add: step_def)
  ultimately show ?thesis
    using c(3) d r by (auto simp: same_reader_def reader_def emit_def)
qed

lemma frame_error_closes:
  assumes "never_stuck H" "conn_wf c"
  shows "\<exists>c'. frame_error H e c = Some c' \<and> conn_wf c' \<and> cn_state c' = Closed"
proof -
  let ?c = "c\<lparr>cn_stats := (cn_stats c)\<lparr>st_frame_errors := st_frame_errors (cn_stats c) + 1\<rparr>\<rparr>"
  have wf: "conn_wf ?c" using assms(2) by (simp add: conn_wf_def)
  have "\<exists>c1. call_back H (map_option (\<lambda>f. f e) (on_error H)) (EvOnError e) ?c = Some c1 \<and> conn_wf c1"
  proof (cases "on_error H")
    case (Some f)
    let ?d = "emit (EvOnError e) ?c"
    from Some assms(1) wf obtain c1 where "run_actions H (f e ?d) ?d = Some c1"
      by (force simp: never_stuck_def wf_emit)
    with Some step_actions [OF this] wf show ?thesis by (auto simp: call_back_def Let_def step_def wf_emit)
  qed (use wf in \<open>simp add: call_back_def\<close>)
  then obtain c1 where c1: "call_back H (map_option (\<lambda>f. f e) (on_error H)) (EvOnError e) ?c = Some c1" "conn_wf c1"
    by blast
  have "conn_wf (conn_close H FrameError c1)" using step_close c1(2) unfolding step_def by blast
  moreover have "cn_state (conn_close H FrameError c1) = Closed"
    using c1(2) by (simp add: conn_close_def teardown_def Let_def conn_wf_def wake_waiters_effect)
  ultimately show ?thesis using c1 by (simp add: frame_error_def Let_def)
qed

abbreviation rd :: "'m conn \<Rightarrow> byte list" where
  "rd c \<equiv> ib_readable (cn_read_buf c)"

text \<open>What the parse loop has done when the connection is still up.\<close>

definition parsed :: "'m handlers \<Rightarrow> 'm conn \<Rightarrow> 'm conn \<Rightarrow> bool" where
  "parsed H c c' \<longleftrightarrow> cn_coro c' = no_coro \<and> cn_recv_span c' = cn_recv_span c \<and>
     proto H (rd c') = Some (NeedMore (cn_parse_need c')) \<and>
     ib_cap (cn_read_buf c') = ib_cap (cn_read_buf c) \<and>
     (\<exists>ms. parse_stream (proto H) (rd c) = Some (ms, rd c', None) \<and>
       delivered (cn_log c') @ cn_batch c' = delivered (cn_log c) @ cn_batch c @ ms)"

lemma parsed_message:
  assumes "proto H (rd c) = Some (Message m k)" "parsed H d c'" "rd d = drop k (rd c)"
    "cn_recv_span d = cn_recv_span c" "ib_cap (cn_read_buf d) = ib_cap (cn_read_buf c)" "delivered (cn_log d) @ cn_batch d = delivered (cn_log c) @ cn_batch c @ [m]"
  shows "parsed H c c'"
proof -
  from assms(2) obtain ms where ms: "parse_stream (proto H) (rd d) = Some (ms, rd c', None)"
    "delivered (cn_log c') @ cn_batch c' = delivered (cn_log d) @ cn_batch d @ ms"
    by (auto simp: parsed_def)
  have "parse_stream (proto H) (rd c) = Some (m # ms, rd c', None)"
    using ms(1) assms(1,3) by (simp add: parse_stream.simps [of "proto H" "rd c"])
  moreover have "delivered (cn_log c') @ cn_batch c' = delivered (cn_log c) @ cn_batch c @ m # ms"
    using ms(2) assms(6) by (metis append.assoc append_Cons append_Nil)
  ultimately show ?thesis using assms(2,4,5) by (auto simp: parsed_def)
qed

lemma framer_cases [consumes 1, case_names message need error]:
  assumes "framer_base p"
  obtains m c where "p xs = Some (Message m c)" "0 < c" "c \<le> length xs"
  | n where "p xs = Some (NeedMore n)" "0 < n"
  | e where "p xs = Some (ParseError e)"
  using framer_base.parse_cases [OF assms, of xs] by blast

lemma parse_loop_reads:
  assumes fr: "framer_base (proto H)" and H: "plain_reader H f" "never_stuck H"
  shows "conn_wf c \<Longrightarrow> cn_state c = Established \<Longrightarrow> cn_coro c = no_coro \<Longrightarrow> length (cn_batch c) < batch_capacity \<Longrightarrow>
    \<exists>go c'. parse_loop H c = Some (go, c') \<and> conn_wf c' \<and> (go \<longleftrightarrow> cn_state c' = Established) \<and> (go \<longrightarrow> parsed H c c')"
proof (induction "length (rd c)" arbitrary: c rule: less_induct)
  case less
  note wf = less.prems(1)
  from fr show ?case
  proof (cases rule: framer_cases [where xs = "rd c"])
    case (need n)
    then have "parsed H c (c\<lparr>cn_parse_need := n\<rparr>)"
      using less.prems by (simp add: parsed_def parse_stream.simps [of "proto H" "rd c"])
    with need less.prems show ?thesis
      by (intro exI [of _ True] exI [of _ "c\<lparr>cn_parse_need := n\<rparr>"]) (simp add: parse_loop.simps [of H c] conn_wf_def)
  next
    case (error e)
    with frame_error_closes [OF H(2) wf, of e] show ?thesis
      by (auto simp: parse_loop.simps [of H c])
  next
    case (message m k)
    let ?c = "take_message m k c"
    have ib: "ib_wf (cn_read_buf c)" using wf by (simp add: conn_wf_def)
    have t: "rd ?c = drop k (rd c)" "cn_recv_span ?c = cn_recv_span c"
      "ib_cap (cn_read_buf ?c) = ib_cap (cn_read_buf c)" "cn_batch ?c = cn_batch c @ [m]"
      "cn_log ?c = cn_log c" "cn_state ?c = Established" "cn_coro ?c = no_coro"
      using less.prems by (simp_all add: take_message_def ib_consume_spec [OF ib])
    have wf1: "conn_wf ?c" using step_take(1) [of c m k] wf by (simp add: step_def)
    have less_len: "length (drop k (rd c)) < length (rd c)" using message by simp
    show ?thesis
    proof (cases "length (cn_batch ?c) = batch_capacity")
      case False
      have "length (cn_batch ?c) < batch_capacity" using False t(4) less.prems(4) by simp
      from less.hyps [of ?c, OF _ wf1 t(6,7) this] less_len t(1) obtain go c' where
        r: "parse_loop H ?c = Some (go, c')" "conn_wf c'" "go \<longleftrightarrow> cn_state c' = Established" "go \<longrightarrow> parsed H ?c c'"
        by auto
      from r(4) have "go \<longrightarrow> parsed H c c'"
        using parsed_message [OF message(1) _ t(1,2,3), of c'] t(4,5) by simp
      with r False message(1) show ?thesis by (simp add: parse_loop.simps [of H c])
    next
      case True
      obtain c1 where d: "dispatch_batch H ?c = Some c1" "conn_wf c1" "cn_read_buf c1 = cn_read_buf ?c"
        "cn_coro c1 = no_coro" "cn_recv_span c1 = cn_recv_span ?c"
        "delivered (cn_log c1) = delivered (cn_log c) @ cn_batch c @ [m]"
        using dispatch_reads [OF H wf1 t(6,7)] t(4,5) by auto
      let ?d = "c1\<lparr>cn_batch := []\<rparr>"
      have wfd: "conn_wf ?d" using d(2) by (simp add: conn_wf_def)
      show ?thesis
      proof (cases "cn_state c1 = Established")
        case down: False
        with True d wfd message(1) show ?thesis
          by (intro exI [of _ False] exI [of _ ?d]) (simp add: parse_loop.simps [of H c] Let_def)
      next
        case up: True
        have "length (rd ?d) < length (rd c)" "length (cn_batch ?d) < batch_capacity"
          using d(3) t(1) less_len by (simp_all add: batch_capacity_def)
        from less.hyps [OF this(1) wfd _ _ this(2)] up d(4) obtain go c' where
          r: "parse_loop H ?d = Some (go, c')" "conn_wf c'" "go \<longleftrightarrow> cn_state c' = Established" "go \<longrightarrow> parsed H ?d c'"
          by auto
        from r(4) have "go \<longrightarrow> parsed H c c'"
          using parsed_message [OF message(1), of ?d c'] t(1,2,3) d by simp
        with r True up d(1) message(1) show ?thesis by (simp add: parse_loop.simps [of H c] Let_def)
      qed
    qed
  qed
qed

text \<open>
  Arming and completing reads. \<open>armed c\<close>: a read is outstanding on the tail of the read buffer.
  \<open>roomy B c\<close>: the read buffer is small enough for \<open>B\<close> more bytes to be found.
\<close>

definition armed :: "'m conn \<Rightarrow> bool" where
  "armed c \<longleftrightarrow> (\<exists>len. cn_recv_span c = Some (ib_start (cn_read_buf c) + ib_size (cn_read_buf c), len) \<and>
     ib_start (cn_read_buf c) + ib_size (cn_read_buf c) + len = ib_cap (cn_read_buf c))"

definition recv_room :: "'m conn \<Rightarrow> nat" where
  "recv_room c = (case cn_recv_span c of None \<Rightarrow> 0 | Some (off, len) \<Rightarrow> len)"

definition reading :: "'m conn \<Rightarrow> bool" where
  "reading c \<longleftrightarrow> conn_wf c \<and> cn_state c = Established \<and> cn_coro c = no_coro"

lemma arm_recv_reads:
  assumes "arm_recv c = Some c'" "reading c"
  shows "reading c'" "rd c' = rd c" "cn_read_paused c' = cn_read_paused c"
    "delivered (cn_log c') = delivered (cn_log c)" "\<not> cn_read_paused c \<Longrightarrow> armed c'"
proof -
  have "reading c' \<and> rd c' = rd c \<and> cn_read_paused c' = cn_read_paused c \<and>
    delivered (cn_log c') = delivered (cn_log c) \<and> (\<not> cn_read_paused c \<longrightarrow> armed c')"
  proof (cases "cn_read_paused c")
    case True
    with assms show ?thesis by (simp add: arm_recv_def)
  next
    case False
    with assms obtain off len b where b: "ib_writable (max (cn_parse_need c) 4096) (cn_read_buf c) = Some ((off, len), b)"
      and c': "c' = emit (EvSubmitRecv (cn_fd c) off len) (c\<lparr>cn_read_buf := b, cn_recv_span := Some (off, len)\<rparr>)"
      by (auto simp: arm_recv_def reading_def split: bind_splits)
    have "conn_wf c'" using step_arm_recv [OF assms(1)] assms(2) by (simp add: step_def reading_def)
    with ib_writable_wf [OF b] assms(2) False show ?thesis
      by (auto simp: c' emit_def reading_def armed_def conn_wf_def)
  qed
  then show "reading c'" "rd c' = rd c" "cn_read_paused c' = cn_read_paused c"
    "delivered (cn_log c') = delivered (cn_log c)" "\<not> cn_read_paused c \<Longrightarrow> armed c'" by auto
qed

text \<open>The bytes of a completed read become readable behind the ones already there.\<close>

lemma fill_commit:
  assumes "ib_wf b" "ib_start b + ib_size b + length bs \<le> ib_cap b"
  shows "\<exists>b1 b2. ib_store (ib_start b + ib_size b) bs b = Some b1 \<and> ib_commit (length bs) b1 = Some b2 \<and>
     ib_wf b2 \<and> ib_readable b2 = ib_readable b @ bs"
proof -
  obtain b1 where b1: "ib_store (ib_start b + ib_size b) bs b = Some b1"
    using assms by (simp add: ib_store_def mem_write_def ib_wf_def)
  obtain b2 where b2: "ib_commit (length bs) b1 = Some b2"
    using b1 assms(2) by (auto simp: ib_store_def ib_commit_def split: bind_splits)
  from store_commit_content [OF b1 b2] ib_commit_wf [OF b2 ib_store_wf [OF b1 assms(1)]] b1 b2 show ?thesis by blast
qed

definition stream_step :: "'m handlers \<Rightarrow> byte list \<Rightarrow> 'm conn \<Rightarrow> 'm conn \<Rightarrow> bool" where
  "stream_step H bs c c' \<longleftrightarrow> reading c' \<and> (\<exists>ms. parse_stream (proto H) (rd c @ bs) = Some (ms, rd c', None) \<and>
     delivered (cn_log c') = delivered (cn_log c) @ ms)"

lemma after_parse_reads:
  assumes H: "plain_reader H f" "never_stuck H" and p: "parsed H c0 c" and c: "conn_wf c" "cn_state c = Established"
  obtains c1 where "dispatch_batch H c = Some c1" "cn_batch c \<noteq> []" "conn_wf c1"
      "after_parse H c = (if cn_state c1 = Established then arm_recv c1 else if cn_state c1 = ShutdownWrite then arm_drain_recv c1 else Some c1)"
      "cn_read_buf c1 = cn_read_buf c" "cn_coro c1 = no_coro" "cn_parse_need c1 = cn_parse_need c"
      "delivered (cn_log c1) = delivered (cn_log c) @ cn_batch c"
  | "cn_batch c = []" "after_parse H c = arm_recv c"
proof (cases "cn_batch c = []")
  case True
  with p c that(2) show ?thesis by (simp add: after_parse_def parsed_def no_coro_def)
next
  case False
  have k: "cn_coro c = no_coro" using p by (simp add: parsed_def)
  from dispatch_reads [OF H c k] obtain c1 where d: "dispatch_batch H c = Some c1" "conn_wf c1"
    "cn_read_buf c1 = cn_read_buf c" "cn_coro c1 = no_coro" "cn_parse_need c1 = cn_parse_need c"
    "delivered (cn_log c1) = delivered (cn_log c) @ cn_batch c" by blast
  with False that(1) show ?thesis by (simp add: after_parse_def no_coro_def)
qed

lemma ib_writable_returns:
  assumes "ib_wf b" "ib_cap b \<le> 2 ^ 61" "n \<le> 2 ^ 60"
  shows "ib_writable n b \<noteq> None"
proof -
  have "ib_limit n b" using assms by (auto simp: ib_limit_def ib_wf_def)
  with ib_ensure_writable_spec [OF assms(1)] show ?thesis by (fastforce simp: ib_writable_def)
qed

lemma arms_return:
  assumes "conn_wf c" "ib_cap (cn_read_buf c) \<le> 2 ^ 61"
  shows "cn_parse_need c \<le> 2 ^ 60 \<Longrightarrow> arm_recv c \<noteq> None" "arm_drain_recv c \<noteq> None"
  using ib_writable_returns [of "cn_read_buf c" "max (cn_parse_need c) 4096"]
    ib_writable_returns [of "cn_read_buf c" 4096] assms
  by (auto simp: arm_recv_def arm_drain_recv_def conn_wf_def)

lemma arm_drain_state: "arm_drain_recv c = Some c' \<Longrightarrow> cn_state c' = cn_state c"
  by (auto simp: arm_drain_recv_def split: if_splits bind_splits)

lemma arm_recv_done:
  assumes "reading c" "ib_cap (cn_read_buf c) \<le> 2 ^ 61" "cn_parse_need c \<le> 2 ^ 60"
  shows "\<exists>c'. arm_recv c = Some c' \<and> reading c' \<and> rd c' = rd c \<and> delivered (cn_log c') = delivered (cn_log c) \<and>
     (\<not> cn_read_paused c' \<longrightarrow> armed c')"
proof -
  obtain c' where c': "arm_recv c = Some c'" using arms_return(1) [of c] assms by (auto simp: reading_def)
  with arm_recv_reads [OF c' assms(1)] show ?thesis by auto
qed

lemma after_parse_done:
  assumes H: "plain_reader H f" "never_stuck H" and need: "modest H"
    and p: "parsed H c0 c" and c: "conn_wf c" "cn_state c = Established" and cap: "ib_cap (cn_read_buf c) \<le> 2 ^ 61"
  shows "\<exists>c'. after_parse H c = Some c' \<and> (cn_state c' = Established \<longrightarrow> reading c' \<and> rd c' = rd c \<and>
     delivered (cn_log c') = delivered (cn_log c) @ cn_batch c \<and> (\<not> cn_read_paused c' \<longrightarrow> armed c'))"
proof -
  have n: "cn_parse_need c \<le> 2 ^ 60" using p need by (auto simp: parsed_def modest_def)
  from H p c show ?thesis
  proof (cases rule: after_parse_reads [consumes 5])
    case (1 c1)
    show ?thesis
    proof (cases "cn_state c1 = Established")
      case True
      with 1 c have "reading c1" by (simp add: reading_def)
      from arm_recv_done [OF this] 1 cap n True show ?thesis by auto
    next
      case False
      show ?thesis
      proof (cases "cn_state c1 = ShutdownWrite")
        case True
        obtain c' where c': "arm_drain_recv c1 = Some c'" using arms_return(2) [of c1] 1 cap by auto
        with True 1 False arm_drain_state [OF c'] show ?thesis by auto
      next
        case no: False
        with False 1 show ?thesis by simp
      qed
    qed
  next
    case 2
    have "reading c" using c p by (simp add: reading_def parsed_def)
    from arm_recv_done [OF this cap n] 2 show ?thesis by auto
  qed
qed

lemma on_recv_data:
  assumes "reading c" "0 < n" "ib_commit n (cn_read_buf c) = Some b"
    and "c1 = (arm_idle_timer (c\<lparr>cn_read_buf := b,
        cn_stats := (cn_stats c)\<lparr>st_bytes_in := st_bytes_in (cn_stats c) + n\<rparr>\<rparr>))\<lparr>cn_batch := []\<rparr>"
  shows "on_recv H (int n) 0 c = do { (go, c) \<leftarrow> parse_loop H c1; if go then after_parse H c else Some c }"
  using assms by (simp add: on_recv_def reading_def no_coro_def flagged_def Let_def)

text \<open>
  One completed read on a connection in callback mode: the completion is handled to its end, and
  if the connection is still up, the frames of the bytes on hand have been delivered.
\<close>

lemma recv_done_reads:
  assumes fr: "framer_base (proto H)" and H: "plain_reader H f" "never_stuck H"
    and need: "modest H"
    and c: "reading c" "armed c" "ib_cap (cn_read_buf c) \<le> 2 ^ 61" and bs: "bs \<noteq> []" "length bs \<le> recv_room c"
  shows "\<exists>c'. recv_done H bs c = Some c' \<and> (cn_state c' = Established \<longrightarrow>
     stream_step H bs c c' \<and> (\<not> cn_read_paused c' \<longrightarrow> armed c'))"
proof -
  obtain len where sp: "cn_recv_span c = Some (ib_start (cn_read_buf c) + ib_size (cn_read_buf c), len)"
    "ib_start (cn_read_buf c) + ib_size (cn_read_buf c) + len = ib_cap (cn_read_buf c)"
    using c(2) by (auto simp: armed_def)
  have "ib_wf (cn_read_buf c)" using c(1) by (simp add: reading_def conn_wf_def)
  then obtain b1 b where b: "ib_store (ib_start (cn_read_buf c) + ib_size (cn_read_buf c)) bs (cn_read_buf c) = Some b1"
    "ib_commit (length bs) b1 = Some b" "ib_wf b" "ib_readable b = rd c @ bs"
    using fill_commit [of "cn_read_buf c" bs] bs sp by (auto simp: recv_room_def)
  have cap: "ib_cap b = ib_cap (cn_read_buf c)"
    using b(1,2) by (auto simp: ib_store_def ib_commit_def split: bind_splits if_splits)
  let ?c0 = "c\<lparr>cn_read_buf := b1, cn_recv_span := None\<rparr>"
  define c1 where "c1 = (arm_idle_timer (?c0\<lparr>cn_read_buf := b,
        cn_stats := (cn_stats ?c0)\<lparr>st_bytes_in := st_bytes_in (cn_stats ?c0) + length bs\<rparr>\<rparr>))\<lparr>cn_batch := []\<rparr>"
  have c0: "reading ?c0" "ib_commit (length bs) (cn_read_buf ?c0) = Some b"
    using c(1) b(1,2) \<open>ib_wf (cn_read_buf c)\<close> by (auto simp: reading_def conn_wf_def dest: ib_store_wf)
  have c1: "conn_wf c1" "cn_state c1 = Established" "cn_coro c1 = no_coro" "cn_batch c1 = []" "rd c1 = rd c @ bs"
    "delivered (cn_log c1) = delivered (cn_log c)" "ib_cap (cn_read_buf c1) = ib_cap (cn_read_buf c)"
    using c(1) b(3,4) cap by (auto simp: c1_def reading_def conn_wf_def arm_idle_timer_def Let_def emit_def)
  have eq: "recv_done H bs c = do { (go, c) \<leftarrow> parse_loop H c1; if go then after_parse H c else Some c }"
    using sp(1) b(1) bs on_recv_data [OF c0(1) _ c0(2) c1_def, of H] by (simp add: recv_done_def recv_room_def)
  obtain go c2 where l: "parse_loop H c1 = Some (go, c2)" "conn_wf c2" "go \<longleftrightarrow> cn_state c2 = Established"
    "go \<longrightarrow> parsed H c1 c2"
    using parse_loop_reads [OF fr H c1(1,2,3)] c1(4) by (auto simp: batch_capacity_def)
  show ?thesis
  proof (cases go)
    case False
    with l eq show ?thesis by simp
  next
    case True
    with l have p: "parsed H c1 c2" and up: "cn_state c2 = Established" by auto
    have "ib_cap (cn_read_buf c2) \<le> 2 ^ 61" using p c1(7) c(3) by (simp add: parsed_def)
    from after_parse_done [OF H need p l(2) up this] obtain c' where c': "after_parse H c2 = Some c'"
      "cn_state c' = Established \<longrightarrow> reading c' \<and> rd c' = rd c2 \<and>
       delivered (cn_log c') = delivered (cn_log c2) @ cn_batch c2 \<and> (\<not> cn_read_paused c' \<longrightarrow> armed c')" by blast
    from p obtain ms where ms: "parse_stream (proto H) (rd c1) = Some (ms, rd c2, None)"
      "delivered (cn_log c2) @ cn_batch c2 = delivered (cn_log c1) @ cn_batch c1 @ ms" by (auto simp: parsed_def)
    with c1 True eq l(1) c' show ?thesis by (auto simp: stream_step_def)
  qed
qed

section \<open>Received streams\<close>

text \<open>Completed reads one after the other, while the connection is up.\<close>

fun recv_all :: "'m handlers \<Rightarrow> byte list list \<Rightarrow> 'm conn \<Rightarrow> 'm conn option" where
  "recv_all H [] c = Some c"
| "recv_all H (ch # chs) c =
     (if cn_state c = Established then Option.bind (recv_done H ch c) (recv_all H chs) else Some c)"

text \<open>Every chunk fits the read that is armed when it arrives.\<close>

fun fitting :: "'m handlers \<Rightarrow> byte list list \<Rightarrow> 'm conn \<Rightarrow> bool" where
  "fitting H [] c = True"
| "fitting H (ch # chs) c \<longleftrightarrow> (cn_state c = Established \<longrightarrow>
     \<not> cn_read_paused c \<and> ib_cap (cn_read_buf c) \<le> 2 ^ 61 \<and> ch \<noteq> [] \<and> length ch \<le> recv_room c \<and>
     (\<forall>c'. recv_done H ch c = Some c' \<longrightarrow> fitting H chs c'))"

lemma recv_all_frames:
  assumes fr: "framer_base (proto H)" and H: "plain_reader H f" "never_stuck H" "modest H"
  shows "reading c \<Longrightarrow> (\<not> cn_read_paused c \<longrightarrow> armed c) \<Longrightarrow> fitting H chs c \<Longrightarrow>
     parse_stream (proto H) xs = Some (ms, rd c, None) \<Longrightarrow> delivered (cn_log c) = ms \<Longrightarrow>
     \<exists>c'. recv_all H chs c = Some c' \<and> (cn_state c' = Established \<longrightarrow>
       parse_stream (proto H) (xs @ concat chs) = Some (delivered (cn_log c'), rd c', None))"
proof (induction chs arbitrary: c xs ms)
  case (Cons ch chs)
  have up: "cn_state c = Established" using Cons.prems(1) by (simp add: reading_def)
  from Cons.prems(2,3) up have f: "armed c" "ib_cap (cn_read_buf c) \<le> 2 ^ 61" "ch \<noteq> []" "length ch \<le> recv_room c"
    by auto
  obtain c1 where c1: "recv_done H ch c = Some c1" "cn_state c1 = Established \<longrightarrow> stream_step H ch c c1 \<and>
      (\<not> cn_read_paused c1 \<longrightarrow> armed c1)"
    using recv_done_reads [OF fr H(1,2,3) Cons.prems(1) f] by blast
  show ?case
  proof (cases "cn_state c1 = Established")
    case False
    then have "recv_all H chs c1 = Some c1" by (cases chs) simp_all
    with c1 up False show ?thesis by simp
  next
    case True
    with c1(2) obtain ms1 where s: "reading c1" "\<not> cn_read_paused c1 \<longrightarrow> armed c1"
      "parse_stream (proto H) (rd c @ ch) = Some (ms1, rd c1, None)" "delivered (cn_log c1) = ms @ ms1"
      using Cons.prems(5) by (auto simp: stream_step_def)
    have "parse_stream (proto H) (xs @ ch) = Some (ms @ ms1, rd c1, None)"
      using framer_base.stream_append [OF fr Cons.prems(4), of ch] s(3) by simp
    from Cons.IH [OF s(1,2) _ this s(4)] Cons.prems(3) c1(1) up show ?thesis by auto
  qed
qed simp

section \<open>Property\<close>


definition picky_handlers :: "echo_header frame_view handlers" where
  "picky_handlers = \<lparr>on_messages = Some (\<lambda>ms c. if length ms = 10 then [AClose LocalClose] else []), on_open = None,
     on_close = True, on_error = None, on_writable = None, on_fds = None, proto = fh_parse echo_proto,
     session = (\<lambda>_ _. []), session_sent = (\<lambda>_ _. [])\<rparr>"

definition fresh_conn :: "echo_header frame_view conn" where
  "fresh_conn = (conn_new 3 plain_params True)\<lparr>cn_state := Established, cn_recv_span := Some (64, 8128)\<rparr>"

lemma picky_facts:
  "proto picky_handlers = fh_parse echo_proto"
  "plain_reader picky_handlers (\<lambda>ms c. if length ms = 10 then [AClose LocalClose] else [])"
  "never_stuck picky_handlers" "modest picky_handlers"
proof -
  have n: "n \<le> 2 ^ 60" if "fh_parse echo_proto xs = Some (NeedMore n)" for xs n
    using that unat_u16_bound [of "be16 (len_be (echo_load (take 4 xs)))"]
    unfolding echo.fh_parse_need_iff by (auto simp: echo_proto_def echo_body_size_def)
  show "proto picky_handlers = fh_parse echo_proto"
    "plain_reader picky_handlers (\<lambda>ms c. if length ms = 10 then [AClose LocalClose] else [])"
    "never_stuck picky_handlers" "modest picky_handlers"
    using n by (auto simp: picky_handlers_def plain_reader_def never_stuck_def modest_def run_action_def)
qed

lemma fresh_conn_facts:
  "reading fresh_conn" "armed fresh_conn" "rd fresh_conn = []" "delivered (cn_log fresh_conn) = []"
  by (simp_all add: fresh_conn_def reading_def armed_def conn_wf_def conn_new_def no_coro_def plain_params_def
      ib_new_def ib_wf_def ib_readable_def)

lemma fresh_conn_fits: "ch \<noteq> [] \<Longrightarrow> length ch \<le> 8000 \<Longrightarrow> fitting H [ch] fresh_conn"
  by (simp add: fresh_conn_def conn_new_def recv_room_def ib_new_def plain_params_def)


end
