(* ===== verification/Conn_Writes.thy ===== *)
theory Conn_Writes
  imports Conn_Streams
begin

text \<open>
  The sending side of a connection against the wire. A submitted send takes a snapshot of the
  queue, as the copying back ends do; its completion reports how much of the snapshot the kernel
  took. Accepted bytes are those for which \<open>send\<close> answered \<open>Queued\<close> or \<open>Backpressured\<close>.
\<close>

abbreviation wq :: "'m conn \<Rightarrow> byte list" where
  "wq c \<equiv> ib_readable (cn_write_buf c)"

record 'm wire =
  wi_conn :: "'m conn"
  wi_accepted :: "byte list"
  wi_snapshot :: "byte list"
  wi_sent :: "byte list"

datatype wire_op = WSend "byte list" | WFlush | WSent nat

fun wire_step :: "'m handlers \<Rightarrow> wire_op \<Rightarrow> 'm wire \<Rightarrow> 'm wire option" where
  "wire_step H (WSend bs) w = do {
     (r, c) \<leftarrow> conn_send H bs (wi_conn w);
     Some (w\<lparr>wi_conn := c, wi_accepted := wi_accepted w @ (if r = Queued \<or> r = Backpressured then bs else [])\<rparr>) }"
| "wire_step H WFlush w =
     (let c = flush_write (wi_conn w)
      in Some (w\<lparr>wi_conn := c,
           wi_snapshot := (if cn_write_inflight (wi_conn w) = 0 then take (cn_write_inflight c) (wq c) else wi_snapshot w)\<rparr>))"
| "wire_step H (WSent n) w =
     (if cn_state (wi_conn w) = Closed \<or> cn_write_inflight (wi_conn w) = 0 \<or> n > cn_write_inflight (wi_conn w) then Some w
      else do {
        c \<leftarrow> on_sent H (int n) (wi_conn w);
        Some (w\<lparr>wi_conn := c, wi_sent := wi_sent w @ take n (wi_snapshot w), wi_snapshot := []\<rparr>) })"

fun wire_run :: "'m handlers \<Rightarrow> wire_op list \<Rightarrow> 'm wire \<Rightarrow> 'm wire option" where
  "wire_run H [] w = Some w"
| "wire_run H (op # ops) w = Option.bind (wire_step H op w) (wire_run H ops)"

text \<open>
  A connection in callback mode without a writable callback, under a policy that never discards
  queued bytes, with watermarks a buffer can hold.
\<close>

definition wire_params :: "'m handlers \<Rightarrow> 'm conn \<Rightarrow> bool" where
  "wire_params H c \<longleftrightarrow> on_writable H = None \<and> cn_coro c = no_coro \<and> on_overflow (flow c) \<noteq> DropOldest"

definition wire_inv :: "'m handlers \<Rightarrow> 'm wire \<Rightarrow> bool" where
  "wire_inv H w \<longleftrightarrow> conn_wf (wi_conn w) \<and> wire_params H (wi_conn w) \<and>
     wi_accepted w = wi_sent w @ wq (wi_conn w) \<and>
     wi_snapshot w = take (cn_write_inflight (wi_conn w)) (wq (wi_conn w)) \<and>
     cn_write_inflight (wi_conn w) \<le> length (wq (wi_conn w))"

section \<open>The queue under each operation\<close>

text \<open>What closing leaves of the sending side.\<close>

definition writer :: "'m conn \<Rightarrow> io_buffer \<times> nat \<times> conn_params" where
  "writer c = (cn_write_buf c, cn_write_inflight c, cn_params c)"

lemma writer_close: "writer (conn_close H r c) = writer c"
  by (simp add: writer_def conn_close_def teardown_def Let_def wake_waiters_def release_group_def
      release_fd_def emit_def coro_unawait_recv_def coro_unawait_send_def)

lemma writer_small [simp]:
  "writer (count_hwm c) = writer c" "writer (count_drop c) = writer c" "writer (pause_reads c) = writer c"
  "writer (emit e c) = writer c" "writer (check_write_watermark c) = writer c" "writer (shutdown_wr c) = writer c"
  by (simp_all add: writer_def count_hwm_def count_drop_def pause_reads_def emit_def check_write_watermark_def
      shutdown_wr_def Let_def)

lemma writer_arm: "arm_recv c = Some c' \<Longrightarrow> writer c' = writer c"
  by (auto simp: arm_recv_def writer_def emit_def split: if_splits bind_splits)

lemma writer_rearm: "rearm_recv c = Some c' \<Longrightarrow> writer c' = writer c"
  by (auto simp: rearm_recv_def writer_def dest!: writer_arm split: if_splits)

lemma queue_bytes_content:
  assumes "queue_bytes bs c = Some c'" "conn_wf c"
  shows "wq c' = wq c @ bs" "cn_write_inflight c' = cn_write_inflight c" "cn_params c' = cn_params c"
  using assms ib_append_content [of bs "cn_write_buf c"]
  by (auto simp: queue_bytes_def conn_wf_def split: bind_splits)

lemma send_queue:
  assumes "conn_send H bs c = Some (r, c')" "conn_wf c" "on_overflow (flow c) \<noteq> DropOldest"
  shows "wq c' = wq c @ (if r = Queued \<or> r = Backpressured then bs else []) \<and>
     cn_write_inflight c' = cn_write_inflight c \<and> cn_params c' = cn_params c"
proof (cases "cn_state c = Established")
  case False
  with assms(1) show ?thesis by (auto simp: conn_send_def)
next
  case up: True
  show ?thesis
  proof (cases "ib_size (cn_write_buf c) + length bs > write_high_watermark (flow c)")
    case False
    with up assms(1) obtain c1 where c1: "queue_bytes bs c = Some c1" "r = Queued"
      "c' = check_write_watermark (emit EvNoteWritePending c1)"
      by (auto simp: conn_send_def split: bind_splits)
    have "writer c' = writer c1" by (simp add: c1(3))
    with queue_bytes_content [OF c1(1) assms(2)] c1(2) show ?thesis by (simp add: writer_def)
  next
    case True
    with up assms(1) have o: "apply_overflow H bs c = Some (r, c')" by (simp add: conn_send_def)
    have w: "writer (conn_close H WriteOverflowed (count_hwm c)) = writer c" by (simp add: writer_close)
    show ?thesis
    proof (cases "on_overflow (flow c)")
      case StopReading
      let ?d = "pause_reads (count_hwm c)"
      from o StopReading obtain c1 where c1: "queue_bytes bs ?d = Some c1" "r = Backpressured"
        "c' = emit EvNoteWritePending c1"
        by (auto simp: apply_overflow_def Let_def split: bind_splits)
      have "writer ?d = writer c" "writer c' = writer c1" by (simp_all add: c1(3))
      moreover have "conn_wf ?d"
        using step_trans [OF step_count(1) step_pause, of c] up assms(2) by (simp add: step_def)
      ultimately show ?thesis using queue_bytes_content [OF c1(1)] c1(2) by (simp add: writer_def)
    qed (use o w assms(3) in \<open>auto simp: apply_overflow_def Let_def writer_def count_drop_def count_hwm_def\<close>)
  qed
qed

text \<open>Without a writable callback, draining touches the reading side only.\<close>

lemma rearm_plain: "rearm_recv d = Some c \<Longrightarrow> cn_coro d = no_coro \<Longrightarrow> cn_coro c = no_coro \<and> writer c = writer d"
  using writer_rearm [of d c]
  by (auto simp: rearm_recv_def arm_recv_def no_coro_def emit_def split: if_splits bind_splits)

lemma write_drained_writer:
  assumes "write_drained H c = Some c'" "on_writable H = None" "cn_coro c = no_coro"
  shows "writer c' = writer c" "cn_coro c' = no_coro"
proof -
  have "writer c' = writer c \<and> cn_coro c' = no_coro"
  proof (cases "cn_backpressured c \<and> ib_size (cn_write_buf c) \<le> write_low_watermark (flow c)")
    case False
    with assms show ?thesis by (simp add: write_drained_def)
  next
    case True
    let ?c = "c\<lparr>cn_backpressured := False\<rparr>"
    from True assms(1) obtain c1 where c1: "(if cn_read_paused c then rearm_recv (?c\<lparr>cn_read_paused := False\<rparr>) else Some ?c) = Some c1"
      and r: "(if co_on (cn_coro c1) then coro_writable H c1
        else if cn_state c1 = Established then call_back H (on_writable H) EvOnWritable c1 else Some c1) = Some c'"
      by (auto simp: write_drained_def Let_def split: bind_splits)
    have "writer (?c\<lparr>cn_read_paused := False\<rparr>) = writer c" "writer ?c = writer c" by (simp_all add: writer_def)
    with c1 assms(3) rearm_plain [of "?c\<lparr>cn_read_paused := False\<rparr>" c1]
    have "writer c1 = writer c \<and> cn_coro c1 = no_coro" by (auto split: if_splits)
    with r assms(2) show ?thesis by (auto simp: call_back_def no_coro_def split: if_splits)
  qed
  then show "writer c' = writer c" "cn_coro c' = no_coro" by auto
qed

lemma on_sent_queue:
  assumes "on_sent H (int n) c = Some c'" "on_writable H = None" "cn_coro c = no_coro" "conn_wf c"
  shows "wq c' = drop n (wq c)" "cn_write_inflight c' = 0" "cn_params c' = cn_params c" "cn_coro c' = no_coro"
proof -
  let ?c = "c\<lparr>cn_write_inflight := 0, cn_write_buf := ib_consume n (cn_write_buf c),
      cn_stats := (cn_stats c)\<lparr>st_bytes_out := st_bytes_out (cn_stats c) + n\<rparr>\<rparr>"
  let ?d = "if cn_state ?c = ShutdownWrite \<and> ib_size (cn_write_buf ?c) = 0 \<and> 0 \<le> cn_fd ?c then shutdown_wr ?c else ?c"
  have "on_sent H (int n) c = do { c1 \<leftarrow> write_drained H ?d;
      Some (if ib_size (cn_write_buf c1) \<noteq> 0 then emit EvNoteWritePending c1 else c1) }"
    by (simp add: on_sent_def Let_def)
  with assms(1) obtain c1 where c1: "write_drained H ?d = Some c1"
    and c': "c' = (if ib_size (cn_write_buf c1) \<noteq> 0 then emit EvNoteWritePending c1 else c1)"
    by (auto split: bind_splits)
  have d: "writer ?d = writer ?c" by simp
  have k: "cn_coro ?d = no_coro" using assms(3) by (simp add: shutdown_wr_def emit_def)
  have "writer c' = writer c1" "cn_coro c' = cn_coro c1" by (simp_all add: c' emit_def writer_def)
  with write_drained_writer [OF c1 assms(2) k] d assms(4)
  show "wq c' = drop n (wq c)" "cn_write_inflight c' = 0" "cn_params c' = cn_params c" "cn_coro c' = no_coro"
    by (simp_all add: writer_def conn_wf_def ib_consume_spec(2))
qed

lemma flush_queue:
  "wq (flush_write c) = wq c" "cn_params (flush_write c) = cn_params c" "cn_coro (flush_write c) = cn_coro c"
  "cn_write_inflight c \<noteq> 0 \<Longrightarrow> cn_write_inflight (flush_write c) = cn_write_inflight c"
  "conn_wf c \<Longrightarrow> cn_write_inflight c \<le> length (wq c) \<Longrightarrow> cn_write_inflight (flush_write c) \<le> length (wq c)"
  by (simp_all add: flush_write_def emit_def conn_wf_def ib_readable_length)

lemma wire_step_inv:
  assumes "wire_step H op w = Some w'" "wire_inv H w"
  shows "wire_inv H w'"
proof (cases op)
  case (WSend bs)
  with assms(1) obtain r c where c: "conn_send H bs (wi_conn w) = Some (r, c)"
    "w' = w\<lparr>wi_conn := c, wi_accepted := wi_accepted w @ (if r = Queued \<or> r = Backpressured then bs else [])\<rparr>"
    by (auto split: bind_splits)
  have wf: "conn_wf c" using step_send [OF c(1)] assms(2) by (simp add: step_def wire_inv_def)
  have "cn_coro c = no_coro"
    using reader_send [OF c(1)] assms(2) by (auto simp: same_reader_def reader_def wire_inv_def wire_params_def)
  with send_queue [OF c(1)] assms(2) wf show ?thesis
    by (auto simp: c(2) wire_inv_def wire_params_def)
next
  case WFlush
  with assms show ?thesis
    using step_flush [of "wi_conn w"] flush_queue [of "wi_conn w"]
    by (auto simp: wire_inv_def wire_params_def Let_def step_def)
next
  case (WSent n)
  show ?thesis
  proof (cases "cn_state (wi_conn w) = Closed \<or> cn_write_inflight (wi_conn w) = 0 \<or> n > cn_write_inflight (wi_conn w)")
    case True
    with WSent assms show ?thesis by simp
  next
    case False
    with WSent assms(1) obtain c where c: "on_sent H (int n) (wi_conn w) = Some c"
      "w' = w\<lparr>wi_conn := c, wi_sent := wi_sent w @ take n (wi_snapshot w), wi_snapshot := []\<rparr>"
      by (auto split: bind_splits)
    have wf: "conn_wf c" using step_on_sent [OF c(1)] assms(2) False by (simp add: step_def wire_inv_def)
    with on_sent_queue [OF c(1)] assms(2) False show ?thesis
      by (auto simp: c(2) wire_inv_def wire_params_def min_def)
  qed
qed

lemma wire_run_inv: "wire_run H ops w = Some w' \<Longrightarrow> wire_inv H w \<Longrightarrow> wire_inv H w'"
  by (induction ops arbitrary: w) (auto dest: wire_step_inv split: bind_splits)

section \<open>Overflow\<close>

lemma overflow_send:
  assumes "cn_state c = Established" "ib_size (cn_write_buf c) + length bs > write_high_watermark (flow c)"
  shows "conn_send H bs c = apply_overflow H bs c"
  using assms by (simp add: conn_send_def)

lemma stop_reading_send:
  assumes "cn_state c = Established" "conn_wf c" "on_overflow (flow c) = StopReading"
    and "ib_size (cn_write_buf c) + length bs > write_high_watermark (flow c)"
    and "ib_append bs (cn_write_buf c) = Some b"
  shows "conn_send H bs c =
     Some (Backpressured, emit EvNoteWritePending ((pause_reads (count_hwm c))\<lparr>cn_write_buf := b\<rparr>))"
  using assms(3,5) overflow_send [OF assms(1,4), of H]
  by (simp add: apply_overflow_def Let_def queue_bytes_def count_hwm_def pause_reads_def emit_def)

lemma on_sent_all:
  assumes "conn_wf c" "cn_state c = Established" "length (wq c) \<le> n"
    and "d = c\<lparr>cn_write_inflight := 0, cn_write_buf := ib_consume n (cn_write_buf c),
      cn_stats := (cn_stats c)\<lparr>st_bytes_out := st_bytes_out (cn_stats c) + n\<rparr>\<rparr>"
  shows "on_sent H (int n) c = do { c1 \<leftarrow> write_drained H d;
      Some (if ib_size (cn_write_buf c1) \<noteq> 0 then emit EvNoteWritePending c1 else c1) }"
    "wq d = []" "ib_size (cn_write_buf d) = 0"
proof -
  have wf: "ib_wf (cn_write_buf c)" using assms(1) by (simp add: conn_wf_def)
  show "on_sent H (int n) c = do { c1 \<leftarrow> write_drained H d;
      Some (if ib_size (cn_write_buf c1) \<noteq> 0 then emit EvNoteWritePending c1 else c1) }"
    using assms(2,4) by (simp add: on_sent_def Let_def)
  show q: "wq d = []" using assms(3,4) by (simp add: ib_consume_spec(2) [OF wf])
  have "ib_wf (cn_write_buf d)" using assms(4) by (simp add: ib_consume_spec(1) [OF wf])
  from ib_readable_length [OF this] q show "ib_size (cn_write_buf d) = 0" by simp
qed

text \<open>The retry of a parked send queues the bytes it is parked with.\<close>

lemma coro_retry_requeues:
  assumes "cn_state e = Established" "co_send_parked (cn_coro e) = Some bs" "ib_size (cn_write_buf e) = 0"
    "length bs < write_high_watermark (flow e)" "ib_append bs (cn_write_buf e) = Some b"
    "\<And>r d. session_sent H r d = []"
  shows "\<exists>c2. coro_writable H e = Some c2 \<and> wq c2 = ib_readable b"
proof -
  let ?g = "check_write_watermark (emit EvNoteWritePending (e\<lparr>cn_write_buf := b\<rparr>))"
  have "conn_send H bs e = Some (Queued, ?g)"
    using assms by (simp add: conn_send_def queue_bytes_def)
  moreover have g: "co_send_parked (cn_coro ?g) = Some bs" "wq ?g = ib_readable b"
    using assms(2) by (simp_all add: check_write_watermark_def Let_def count_hwm_def pause_reads_def emit_def)
  ultimately have "coro_writable H e = Some (emit (EvResumeSend Queued) (coro_unawait_send ?g))"
    using assms(2,6) by (simp add: coro_writable_def call_back_def Let_def)
  with g(2) show ?thesis by (simp add: emit_def coro_unawait_send_def)
qed

section \<open>Properties\<close>


text \<open>
  \<open>DropOldest\<close> loses accepted bytes. When a send is in flight and another overflows the queue
  (with no more bytes than are queued), the bytes just reported as \<open>Queued\<close> are gone as soon as the
  send in flight completes: the eviction shortens the queue and the completion consumes its whole
  length again.
\<close>

theorem drop_oldest_loses_queued:
  assumes "cn_state c = Established" "conn_wf c" "on_overflow (flow c) = DropOldest" "cn_coro c = no_coro"
    and "cn_write_inflight c = length (wq c)" "length bs \<le> length (wq c)"
    and "length (wq c) + length bs > write_high_watermark (flow c)"
    and "ib_append bs (ib_consume (length bs) (cn_write_buf c)) \<noteq> None"
    and "\<not> cn_backpressured c"
  shows "\<exists>c1 c2. conn_send H bs c = Some (Queued, c1) \<and> on_sent H (int (cn_write_inflight c1)) c1 = Some c2 \<and> wq c2 = []"
proof -
  have wf: "ib_wf (cn_write_buf c)" using assms(2) by (simp add: conn_wf_def)
  obtain b where b: "ib_append bs (ib_consume (length bs) (cn_write_buf c)) = Some b" using assms(8) by blast
  have rb: "ib_readable b = drop (length bs) (wq c) @ bs"
    using ib_append_content [OF b] ib_consume_spec [OF wf] by simp
  let ?c1 = "emit EvNoteWritePending (c\<lparr>cn_write_buf := b, cn_stats := (cn_stats c)\<lparr>st_write_hwm_hits := st_write_hwm_hits (cn_stats c) + 1,
      st_write_drops := st_write_drops (cn_stats c) + 1\<rparr>\<rparr>)"
  have s: "conn_send H bs c = Some (Queued, ?c1)"
    using assms(1,3,7) b ib_readable_length [OF wf]
    by (simp add: conn_send_def apply_overflow_def Let_def queue_bytes_def count_hwm_def count_drop_def
        drop_oldest_def emit_def)
  have wf1: "conn_wf ?c1" using step_send [OF s] assms(2) by (simp add: step_def)
  have k: "cn_write_inflight ?c1 = length (wq c)" "cn_state ?c1 = Established" "\<not> cn_backpressured ?c1"
    "length (wq ?c1) \<le> length (wq c)"
    using assms rb by (simp_all add: emit_def)
  let ?d = "?c1\<lparr>cn_write_inflight := 0, cn_write_buf := ib_consume (length (wq c)) (cn_write_buf ?c1),
      cn_stats := (cn_stats ?c1)\<lparr>st_bytes_out := st_bytes_out (cn_stats ?c1) + length (wq c)\<rparr>\<rparr>"
  note o = on_sent_all [OF wf1 k(2,4) refl]
  have "write_drained H ?d = Some ?d" using k(3) by (simp add: write_drained_def)
  with o k(1) have "on_sent H (int (cn_write_inflight ?c1)) ?c1 = Some ?d" by simp
  with s o(2) show ?thesis by blast
qed

text \<open>
  \<open>StopReading\<close> stops reading for good. An overflowing send on a connection that is not yet
  over its watermark pauses the reads; when the whole queue has drained the reads are still paused
  and nothing has been called to resume them.
\<close>

theorem stop_reading_never_resumes:
  assumes "cn_state c = Established" "conn_wf c" "on_overflow (flow c) = StopReading" "\<not> cn_backpressured c"
    and "ib_size (cn_write_buf c) + length bs > write_high_watermark (flow c)"
    and "ib_append bs (cn_write_buf c) \<noteq> None"
  shows "\<exists>c1 c2. conn_send H bs c = Some (Backpressured, c1) \<and>
     on_sent H (int (length (wq c1))) (flush_write c1) = Some c2 \<and>
     wq c2 = [] \<and> cn_read_paused c2 \<and> cn_log c2 = cn_log (flush_write c1)"
proof -
  obtain b where b: "ib_append bs (cn_write_buf c) = Some b" using assms(6) by blast
  let ?c1 = "emit EvNoteWritePending ((pause_reads (count_hwm c))\<lparr>cn_write_buf := b\<rparr>)"
  have s: "conn_send H bs c = Some (Backpressured, ?c1)"
    by (rule stop_reading_send [OF assms(1-3,5) b])
  have wf1: "conn_wf ?c1" using step_send [OF s] assms(2) by (simp add: step_def)
  let ?f = "flush_write ?c1" and ?n = "length (wq ?c1)"
  have wf2: "conn_wf ?f" using step_flush [of ?c1] wf1 by (simp add: step_def)
  have k: "cn_state ?f = Established" "\<not> cn_backpressured ?f" "cn_read_paused ?f" "length (wq ?f) \<le> ?n"
    using assms(1,4) by (simp_all add: flush_write_def emit_def pause_reads_def count_hwm_def)
  let ?d = "?f\<lparr>cn_write_inflight := 0, cn_write_buf := ib_consume ?n (cn_write_buf ?f),
      cn_stats := (cn_stats ?f)\<lparr>st_bytes_out := st_bytes_out (cn_stats ?f) + ?n\<rparr>\<rparr>"
  note o = on_sent_all [OF wf2 k(1,4) refl]
  have "write_drained H ?d = Some ?d" using k(2) by (simp add: write_drained_def)
  with o have "on_sent H (int ?n) ?f = Some ?d" by simp
  with s o(2) k(3) show ?thesis by (intro exI [of _ ?c1] exI [of _ ?d]) simp
qed

text \<open>
  A coroutine's send is doubled. Under \<open>StopReading\<close> an overflowing send queues its bytes and
  answers \<open>Backpressured\<close>; the awaiter then parks with the same bytes, and the drained queue is
  answered by sending them again: after everything accepted has gone out, the bytes are queued a
  second time.
\<close>

theorem coroutine_send_doubled:
  assumes "cn_state c = Established" "conn_wf c" "on_overflow (flow c) = StopReading" "cn_backpressured c"
    and "co_on (cn_coro c)" "co_armed (cn_coro c)" "\<And>r d. session_sent H r d = []"
    and "ib_size (cn_write_buf c) + length bs > write_high_watermark (flow c)"
    and "length bs < write_high_watermark (flow c)" "ib_limit (length bs) (cn_write_buf c)"
  shows "\<exists>c1 c2. conn_send H bs c = Some (Backpressured, c1) \<and>
     on_sent H (int (length (wq c1))) (flush_write (coro_await_send bs c1)) = Some c2 \<and> wq c2 = bs"
proof -
  have wf: "ib_wf (cn_write_buf c)" using assms(2) by (simp add: conn_wf_def)
  obtain b where b: "ib_append bs (cn_write_buf c) = Some b" "ib_wf b" "ib_readable b = wq c @ bs"
    "ib_headroom b = ib_headroom (cn_write_buf c)" "ib_cap b < 2 ^ 63"
    using ib_append_spec [OF wf assms(10)] by blast
  let ?c1 = "emit EvNoteWritePending ((pause_reads (count_hwm c))\<lparr>cn_write_buf := b\<rparr>)"
  have s: "conn_send H bs c = Some (Backpressured, ?c1)"
    by (rule stop_reading_send [OF assms(1-3,8) b(1)])
  have wf1: "conn_wf ?c1" using step_send [OF s] assms(2) by (simp add: step_def)
  let ?f = "flush_write (coro_await_send bs ?c1)" and ?n = "length (wq ?c1)"
  have "conn_wf (coro_await_send bs ?c1)"
    using wf1 assms(1) by (simp add: coro_await_send_def conn_wf_def emit_def pause_reads_def count_hwm_def)
  then have wf2: "conn_wf ?f" using step_flush [of "coro_await_send bs ?c1"] by (simp add: step_def)
  have k: "cn_state ?f = Established" "cn_backpressured ?f" "cn_read_paused ?f" "length (wq ?f) \<le> ?n"
    "co_send_parked (cn_coro ?f) = Some bs" "co_on (cn_coro ?f)" "co_armed (cn_coro ?f)" "cn_params ?f = cn_params c"
    "cn_write_buf ?f = b"
    using assms(1,4,5,6)
    by (simp_all add: flush_write_def emit_def pause_reads_def count_hwm_def coro_await_send_def)
  let ?d = "?f\<lparr>cn_write_inflight := 0, cn_write_buf := ib_consume ?n (cn_write_buf ?f),
      cn_stats := (cn_stats ?f)\<lparr>st_bytes_out := st_bytes_out (cn_stats ?f) + ?n\<rparr>\<rparr>"
  let ?e = "?d\<lparr>cn_backpressured := False, cn_read_paused := False\<rparr>"
  note o = on_sent_all [OF wf2 k(1,4) refl]
  have "ib_limit (length bs) (ib_consume ?n b)"
    using assms(10) b(4,5) ib_consume_spec [OF b(2), of ?n] o(3) k(9) by (auto simp: ib_limit_def)
  with ib_append_spec [OF ib_consume_spec(1) [OF b(2)]] obtain b' where
    b': "ib_append bs (ib_consume ?n b) = Some b'" "ib_readable b' = ib_readable (ib_consume ?n b) @ bs" by blast
  have q: "ib_readable b' = bs" using b'(2) o(2) k(9) by simp
  obtain c2 where c2: "coro_writable H ?e = Some c2" "wq c2 = bs"
    using coro_retry_requeues [of ?e bs b' H] k o(3) b'(1) assms(7,9) q by auto
  moreover have "rearm_recv ?e = Some ?e" using k(6,7) by (simp add: rearm_recv_def)
  ultimately have "write_drained H ?d = Some c2"
    using k o(3) by (simp add: write_drained_def Let_def)
  with o(1) c2(2) have "\<exists>c2. on_sent H (int ?n) ?f = Some c2 \<and> wq c2 = bs"
    by (auto simp: emit_def)
  with s show ?thesis by blast
qed

section \<open>Witnesses\<close>

definition sample_wb :: "byte list \<Rightarrow> io_buffer" where
  "sample_wb q = \<lparr>ib_cap = 16, ib_buf = q @ replicate (16 - length q) 0, ib_headroom = 0, ib_start = 0,
     ib_size = length q\<rparr>"

definition sample_conn :: "write_overflow \<Rightarrow> byte list \<Rightarrow> byte list conn" where
  "sample_conn pol q = (conn_new 3 (plain_params\<lparr>cp_flow := \<lparr>write_high_watermark = 4, write_low_watermark = 2,
       on_overflow = pol, auto_pause_reads = True\<rparr>\<rparr>) True)
     \<lparr>cn_state := Established, cn_write_buf := sample_wb q\<rparr>"

lemma sample_wb_wf: "length q < 16 \<Longrightarrow> ib_wf (sample_wb q)"
  by (simp add: ib_wf_def sample_wb_def)

lemma sample_conn_wf: "length q < 16 \<Longrightarrow> conn_wf (sample_conn pol q)"
  by (simp add: sample_conn_def conn_wf_def conn_new_def no_coro_def sample_wb_wf)

lemma sample_size [simp]: "ib_size (sample_wb q) = length q" "ib_readable (sample_wb q) = q"
  by (simp_all add: sample_wb_def ib_readable_def)

lemma sample_append:
  assumes "length q + length bs \<le> 16"
  shows "ib_append bs (sample_wb q) = Some (sample_wb (q @ bs))"
proof -
  have "length bs \<le> 16 - length q" using assms by simp
  with assms show ?thesis
    by (simp add: ib_append_def ib_writable_def ib_ensure_writable_def ib_store_def ib_commit_def mem_write_def
        sample_wb_def)
qed

lemmas sample_defs = sample_conn_def conn_new_def plain_params_def plain_handlers_def


theorem drop_oldest_loses_queued_witness:
  "\<exists>c1 c2. conn_send plain_handlers [5, 6] ((sample_conn DropOldest [1, 2, 3])\<lparr>cn_write_inflight := 3\<rparr>) = Some (Queued, c1) \<and>
     on_sent plain_handlers (int (cn_write_inflight c1)) c1 = Some c2 \<and> wq c2 = []"
proof -
  let ?c = "(sample_conn DropOldest [1, 2, 3])\<lparr>cn_write_inflight := 3\<rparr>"
  have wf: "conn_wf ?c" using sample_conn_wf [of "[1, 2, 3]" DropOldest] by (simp add: conn_wf_def)
  have "ib_append [5, 6] (ib_consume 2 (sample_wb [1, 2, 3])) \<noteq> None" by code_simp
  then show ?thesis
    by (intro drop_oldest_loses_queued [OF _ wf]) (simp_all add: sample_defs numeral_2_eq_2)
qed

theorem stop_reading_never_resumes_witness:
  "\<exists>c1 c2. conn_send plain_handlers [5, 6] (sample_conn StopReading [1, 2, 3]) = Some (Backpressured, c1) \<and>
     on_sent plain_handlers (int (length (wq c1))) (flush_write c1) = Some c2 \<and>
     wq c2 = [] \<and> cn_read_paused c2 \<and> cn_log c2 = cn_log (flush_write c1)"
  by (intro stop_reading_never_resumes [OF _ sample_conn_wf]) (simp_all add: sample_defs sample_append)

theorem coroutine_send_doubled_witness:
  "\<exists>c1 c2. conn_send plain_handlers [5, 6] ((sample_conn StopReading [1, 2, 3])\<lparr>cn_backpressured := True,
        cn_coro := no_coro\<lparr>co_on := True, co_armed := True\<rparr>\<rparr>) = Some (Backpressured, c1) \<and>
     on_sent plain_handlers (int (length (wq c1))) (flush_write (coro_await_send [5, 6] c1)) = Some c2 \<and> wq c2 = [5, 6]"
proof -
  let ?c = "(sample_conn StopReading [1, 2, 3])\<lparr>cn_backpressured := True, cn_coro := no_coro\<lparr>co_on := True, co_armed := True\<rparr>\<rparr>"
  have wf: "conn_wf ?c"
    using sample_conn_wf [of "[1, 2, 3]" StopReading] by (simp add: conn_wf_def no_coro_def sample_conn_def conn_new_def)
  have "ib_limit 2 (sample_wb [1, 2, 3])" by (simp add: ib_limit_def sample_wb_def)
  then show ?thesis
    by (intro coroutine_send_doubled [OF _ wf]) (simp_all add: sample_defs numeral_2_eq_2)
qed

end
