(* ===== verification/Conn_Coro.thy ===== *)
theory Conn_Coro
  imports Conn_Writes
begin

text \<open>
  Coroutine sessions: a session that parks again while the parse loop is still running arms the
  next read on the tail of a buffer the loop goes on consuming. The framer here is the smallest
  one, every byte a message; the session's only act is to ask for the next batch. The last section
  is the other place where the read path trusts application code: descriptors are handed out
  before the bytes they came with are parsed.
\<close>

section \<open>Consuming while a read is armed\<close>

lemma ib_consume_consume:
  "ib_wf b \<Longrightarrow> k + j \<le> ib_size b \<Longrightarrow> ib_consume j (ib_consume k b) = ib_consume (k + j) b"
  by (auto simp: ib_consume_def Let_def ib_wf_def)

lemma ib_consume_fields:
  "k < ib_size b \<Longrightarrow> ib_start (ib_consume k b) = ib_start b + k"
  "ib_size (ib_consume k b) = ib_size b - k" "ib_buf (ib_consume k b) = ib_buf b"
  "ib_cap (ib_consume k b) = ib_cap b" "ib_headroom (ib_consume k b) = ib_headroom b"
  "ib_size b \<le> k \<Longrightarrow> ib_start (ib_consume k b) = ib_headroom b"
  by (auto simp: ib_consume_def Let_def)

text \<open>
  A read armed on the tail, the buffer consumed to the end (which moves its start back to the
  front), the read completed: what becomes readable are the old bytes.
\<close>

lemma replay_buffer:
  assumes "ib_wf b" "ib_start b = ib_headroom b" "ib_readable b = ds" "length es \<le> length ds"
    "ib_start b + ib_size b + length es \<le> ib_cap b"
  shows "\<exists>b1 b2. ib_store (ib_start b + ib_size b) es (ib_consume (length ds) b) = Some b1 \<and>
     ib_commit (length es) b1 = Some b2 \<and> ib_wf b2 \<and> ib_readable b2 = take (length es) ds"
proof -
  let ?c = "ib_consume (length ds) b"
  have sz: "ib_size b = length ds" using ib_readable_length [OF assms(1)] assms(3) by simp
  have c: "ib_start ?c = ib_headroom b" "ib_size ?c = 0" "ib_buf ?c = ib_buf b" "ib_cap ?c = ib_cap b"
    using sz by (simp_all add: ib_consume_fields)
  have len: "length (ib_buf b) = ib_cap b" using assms(1) by (simp add: ib_wf_def)
  obtain m where m: "mem_write (ib_buf b) (ib_start b + ib_size b) es = Some m"
    using assms(5) len by (simp add: mem_write_def)
  have "take (length es) (drop (ib_headroom b) m) = take (length es) (drop (ib_headroom b) (ib_buf b))"
    by (rule mem_write_before [OF m]) (use assms sz in simp)
  also have "\<dots> = take (length es) ds"
    using assms(2,3,4) sz unfolding ib_readable_def by (metis min.absorb1 take_take)
  finally have r: "take (length es) (drop (ib_headroom b) m) = take (length es) ds" .
  have b1: "ib_store (ib_start b + ib_size b) es ?c = Some (?c\<lparr>ib_buf := m\<rparr>)"
    using m c by (simp add: ib_store_def)
  have b2: "ib_commit (length es) (?c\<lparr>ib_buf := m\<rparr>) = Some (?c\<lparr>ib_buf := m, ib_size := length es\<rparr>)"
    using c assms(2,5) by (simp add: ib_commit_def)
  have "ib_wf (?c\<lparr>ib_buf := m, ib_size := length es\<rparr>)"
    using ib_commit_wf [OF b2 ib_store_wf [OF b1 ib_consume_spec(1) [OF assms(1)]]] .
  with b1 b2 r c show ?thesis by (auto simp: ib_readable_def)
qed

section \<open>The parse loop on single-byte messages\<close>

definition byte_proto :: "byte list \<Rightarrow> byte parse_result option" where
  "byte_proto xs = Some (case xs of [] \<Rightarrow> NeedMore 1 | x # _ \<Rightarrow> Message x 1)"

definition byte_session :: "byte handlers" where
  "byte_session = \<lparr>on_messages = None, on_open = None, on_close = True, on_error = None, on_writable = None,
     on_fds = None, proto = byte_proto, session = (\<lambda>_ _. [AAwaitRecv]), session_sent = (\<lambda>_ _. [])\<rparr>"

definition ate :: "nat \<Rightarrow> byte conn \<Rightarrow> byte conn" where
  "ate k c = c\<lparr>cn_batch := cn_batch c @ take k (rd c), cn_read_buf := ib_consume k (cn_read_buf c), cn_parse_need := 0\<rparr>"

lemma byte_loop_one:
  assumes "ib_wf (cn_read_buf c)" "rd c \<noteq> []" "Suc (length (cn_batch c)) \<noteq> batch_capacity"
  shows "parse_loop byte_session c = parse_loop byte_session (ate 1 c)"
proof -
  obtain x xs where x: "rd c = x # xs" using assms(2) by (cases "rd c") auto
  have "take_message x 1 c = ate 1 c" by (simp add: take_message_def ate_def x)
  with x assms(3) show ?thesis
    by (subst parse_loop.simps) (simp add: byte_session_def byte_proto_def take_message_def ate_def)
qed

lemma ate_ate:
  assumes "ib_wf (cn_read_buf c)" "k + j \<le> length (rd c)"
  shows "ate j (ate k c) = ate (k + j) c"
  using assms ib_consume_consume [of "cn_read_buf c" k j] ib_readable_length [OF assms(1)]
  by (simp add: ate_def ib_consume_spec(2) take_add)

lemma byte_loop_run:
  assumes "ib_wf (cn_read_buf c)" "0 < k" "k \<le> length (rd c)" "length (cn_batch c) + k < batch_capacity"
  shows "parse_loop byte_session c = parse_loop byte_session (ate k c)"
  using assms(2-4)
proof (induction k)
  case (Suc k)
  show ?case
  proof (cases "k = 0")
    case True
    with Suc assms(1) byte_loop_one [of c] show ?thesis by fastforce
  next
    case False
    have wf: "ib_wf (cn_read_buf (ate k c))" using assms(1) by (simp add: ate_def ib_consume_spec(1))
    have r: "rd (ate k c) = drop k (rd c)" using assms(1) by (simp add: ate_def ib_consume_spec(2))
    have "length (cn_batch (ate k c)) = length (cn_batch c) + k" using Suc.prems by (simp add: ate_def)
    then have "parse_loop byte_session (ate k c) = parse_loop byte_session (ate 1 (ate k c))"
      using Suc.prems r by (intro byte_loop_one [OF wf]) auto
    with Suc False ate_ate [OF assms(1), of k 1] show ?thesis by simp
  qed
qed simp

lemma byte_loop_end:
  assumes "ib_wf (cn_read_buf c)" "0 < length (rd c)" "length (cn_batch c) + length (rd c) < batch_capacity"
  shows "parse_loop byte_session c = Some (True, (ate (length (rd c)) c)\<lparr>cn_parse_need := 1\<rparr>)"
proof -
  have "rd (ate (length (rd c)) c) = []" using assms(1) by (simp add: ate_def ib_consume_spec(2))
  then have "parse_loop byte_session (ate (length (rd c)) c) = Some (True, (ate (length (rd c)) c)\<lparr>cn_parse_need := 1\<rparr>)"
    by (subst parse_loop.simps) (simp add: byte_session_def byte_proto_def)
  with byte_loop_run [OF assms(1,2) _ assms(3)] show ?thesis by simp
qed

section \<open>A session that parks in the middle of a read\<close>

text \<open>Waking the parked session with the batch; it parks again.\<close>

lemma byte_dispatch:
  assumes "co_on (cn_coro c)" "co_recv_parked (cn_coro c)" "cn_state c = Established"
    and "d = emit (EvResumeRecv (Inr (cn_batch c))) (c\<lparr>cn_stats := (cn_stats c)\<lparr>st_msgs_in := st_msgs_in (cn_stats c) + 1\<rparr>\<rparr>)"
  shows "dispatch_batch byte_session c =
     (if co_armed (cn_coro c) then Some d else arm_recv (d\<lparr>cn_coro := (cn_coro d)\<lparr>co_armed := True\<rparr>\<rparr>))"
proof -
  have r: "run_actions byte_session [] = Some" by (rule HOL.ext) simp
  have k: "(cn_coro c)\<lparr>co_recv_parked := True\<rparr> = cn_coro c" using assms(2) by simp
  show ?thesis
    using assms r
    by (cases "cn_coro c") (simp add: dispatch_batch_def call_back_def Let_def byte_session_def run_action_def coro_await_recv_def
      coro_unawait_recv_def emit_def)
qed

text \<open>Arming on a buffer with room leaves the buffer as it is.\<close>

lemma arm_recv_room:
  assumes "cn_state c = Established" "\<not> cn_read_paused c" "cn_parse_need c \<le> 4096" "ib_wf (cn_read_buf c)"
    "ib_start (cn_read_buf c) + ib_size (cn_read_buf c) + 4096 \<le> ib_cap (cn_read_buf c)"
  shows "arm_recv c = (let off = ib_start (cn_read_buf c) + ib_size (cn_read_buf c); len = ib_cap (cn_read_buf c) - off
     in Some (emit (EvSubmitRecv (cn_fd c) off len) (c\<lparr>cn_recv_span := Some (off, len)\<rparr>)))"
proof -
  have "usub (usub (ib_cap (cn_read_buf c)) (ib_start (cn_read_buf c))) (ib_size (cn_read_buf c))
      = ib_cap (cn_read_buf c) - (ib_start (cn_read_buf c) + ib_size (cn_read_buf c))"
    using assms(4) by (auto simp: ib_wf_def usub_def)
  moreover have "4096 \<le> ib_cap (cn_read_buf c) - (ib_start (cn_read_buf c) + ib_size (cn_read_buf c))"
    using assms(5) by simp
  ultimately show ?thesis
    using assms by (simp add: arm_recv_def ib_writable_def ib_ensure_writable_def Let_def max_def)
qed

definition session_up :: "byte conn \<Rightarrow> bool" where
  "session_up c \<longleftrightarrow> ib_wf (cn_read_buf c) \<and> cn_state c = Established \<and> co_on (cn_coro c) \<and>
     co_recv_parked (cn_coro c) \<and> \<not> cn_read_paused c \<and> cp_idle_read_timeout (cn_params c) = 0"

text \<open>The loop up to the first full batch.\<close>

lemma byte_loop_first:
  assumes wf: "ib_wf (cn_read_buf c)" and ba: "cn_batch c = []" and len: "64 \<le> length (rd c)"
  shows "parse_loop byte_session c = Option.bind (dispatch_batch byte_session (ate 64 c)) (\<lambda>c.
      let c = c\<lparr>cn_batch := []\<rparr> in if cn_state c \<noteq> Established then Some (False, c) else parse_loop byte_session c)"
proof -
  have run: "parse_loop byte_session c = parse_loop byte_session (ate 63 c)"
    by (rule byte_loop_run [OF wf]) (use len ba in \<open>simp_all add: batch_capacity_def\<close>)
  obtain x xs where x: "drop 63 (rd c) = x # xs" using len by (cases "drop 63 (rd c)") auto
  have r: "rd (ate 63 c) = x # xs" using wf x by (simp add: ate_def ib_consume_spec(2))
  have "take_message x 1 (ate 63 c) = ate 1 (ate 63 c)" by (simp add: take_message_def ate_def r [unfolded ate_def, simplified])
  also have "\<dots> = ate 64 c" using ate_ate [OF wf, of 63 1] len by simp
  finally have t: "take_message x 1 (ate 63 c) = ate 64 c" .
  have "length (cn_batch (ate 64 c)) = 64" using len ba by (simp add: ate_def)
  with r t have "parse_loop byte_session (ate 63 c) = Option.bind (dispatch_batch byte_session (ate 64 c)) (\<lambda>c.
      let c = c\<lparr>cn_batch := []\<rparr> in if cn_state c \<noteq> Established then Some (False, c) else parse_loop byte_session c)"
    by (subst parse_loop.simps) (simp add: byte_session_def byte_proto_def batch_capacity_def)
  with run show ?thesis by simp
qed

text \<open>The loop on more than one batch: the session is woken once and the next read is armed.\<close>

lemma byte_loop_two_batches:
  assumes up: "session_up c" and na: "\<not> co_armed (cn_coro c)" and ba: "cn_batch c = []"
    and len: "64 < length (rd c)" "length (rd c) < 128"
    and room: "ib_start (cn_read_buf c) + ib_size (cn_read_buf c) + 4096 \<le> ib_cap (cn_read_buf c)"
  defines "off \<equiv> ib_start (cn_read_buf c) + ib_size (cn_read_buf c)"
  shows "\<exists>d. parse_loop byte_session c = Some (True, d) \<and> session_up d \<and> co_armed (cn_coro d) \<and>
     cn_batch d = drop 64 (rd c) \<and> cn_read_buf d = ib_consume (length (rd c)) (cn_read_buf c) \<and>
     cn_recv_span d = Some (off, ib_cap (cn_read_buf c) - off)"
proof -
  have wf: "ib_wf (cn_read_buf c)" using up by (simp add: session_up_def)
  have sz: "ib_size (cn_read_buf c) = length (rd c)" using ib_readable_length [OF wf] by simp
  let ?b = "ib_consume 64 (cn_read_buf c)"
  have b: "ib_wf ?b" "ib_start ?b + ib_size ?b = off" "ib_cap ?b = ib_cap (cn_read_buf c)" "ib_readable ?b = drop 64 (rd c)"
    using wf sz len by (simp_all add: ib_consume_spec ib_consume_fields off_def)
  let ?a = "ate 64 c"
  define e where "e = emit (EvResumeRecv (Inr (cn_batch ?a)))
      (?a\<lparr>cn_stats := (cn_stats ?a)\<lparr>st_msgs_in := st_msgs_in (cn_stats ?a) + 1\<rparr>\<rparr>)"
  define g where "g = e\<lparr>cn_coro := (cn_coro e)\<lparr>co_armed := True\<rparr>\<rparr>"
  have g: "cn_read_buf g = ?b" "cn_state g = Established" "session_up g" "co_armed (cn_coro g)" "cn_parse_need g = 0"
    using up b(1) by (simp_all add: g_def e_def session_up_def ate_def emit_def)
  have disp: "dispatch_batch byte_session ?a = arm_recv g"
    using byte_dispatch [of ?a, OF _ _ _ e_def] up na by (simp add: session_up_def ate_def g_def)
  define f where "f = (emit (EvSubmitRecv (cn_fd g) off (ib_cap ?b - off)) (g\<lparr>cn_recv_span := Some (off, ib_cap ?b - off)\<rparr>))\<lparr>cn_batch := []\<rparr>"
  have f: "cn_read_buf f = ?b" "cn_batch f = []" "cn_state f = Established" "session_up f" "co_armed (cn_coro f)"
    "cn_recv_span f = Some (off, ib_cap ?b - off)"
    using g by (simp_all add: f_def session_up_def emit_def)
  have "arm_recv g = Some (emit (EvSubmitRecv (cn_fd g) off (ib_cap ?b - off)) (g\<lparr>cn_recv_span := Some (off, ib_cap ?b - off)\<rparr>))"
    using arm_recv_room [of g] g room b by (simp add: session_up_def off_def Let_def)
  with byte_loop_first [OF wf ba] len(1) disp g(2) have "parse_loop byte_session c = parse_loop byte_session f"
    by (simp add: Let_def f_def)
  also have "\<dots> = Some (True, (ate (length (rd f)) f)\<lparr>cn_parse_need := 1\<rparr>)"
    by (rule byte_loop_end) (use f(1,2) b(1,4) len in \<open>simp_all add: batch_capacity_def\<close>)
  finally have l: "parse_loop byte_session c = \<dots>" .
  have "ib_consume (length (rd c) - 64) ?b = ib_consume (length (rd c)) (cn_read_buf c)"
    using ib_consume_consume [OF wf, of 64 "length (rd c) - 64"] sz len by simp
  with l f b ib_consume_spec(1) [OF wf, of "length (rd c)"] show ?thesis
    by (intro exI [of _ "(ate (length (rd f)) f)\<lparr>cn_parse_need := 1\<rparr>"])
      (simp add: ate_def session_up_def ib_consume_spec)
qed

text \<open>A completed read of a session up to its parse loop.\<close>

lemma session_recv:
  assumes up: "session_up c" and bs: "bs \<noteq> []" "length bs \<le> len" and sp: "cn_recv_span c = Some (off, len)"
    and st: "ib_store off bs (cn_read_buf c) = Some b1" "ib_commit (length bs) b1 = Some b2"
  obtains c1 where "recv_done byte_session bs c = Option.bind (parse_loop byte_session c1)
        (\<lambda>(go, c). if go then after_parse byte_session c else Some c)"
    "session_up c1" "\<not> co_armed (cn_coro c1)" "cn_batch c1 = []" "cn_read_buf c1 = b2" "cn_log c1 = cn_log c"
proof
  let ?c = "c\<lparr>cn_read_buf := b1, cn_recv_span := None, cn_coro := (cn_coro c)\<lparr>co_armed := False\<rparr>\<rparr>"
  let ?c1 = "?c\<lparr>cn_read_buf := b2, cn_stats := (cn_stats c)\<lparr>st_bytes_in := st_bytes_in (cn_stats c) + length bs\<rparr>, cn_batch := []\<rparr>"
  show "recv_done byte_session bs c = Option.bind (parse_loop byte_session ?c1)
        (\<lambda>(go, c). if go then after_parse byte_session c else Some c)"
    using up bs sp st
    by (simp add: recv_done_def on_recv_def Let_def session_up_def flagged_def arm_idle_timer_def)
  show "session_up ?c1"
    using up ib_commit_wf [OF st(2) ib_store_wf [OF st(1)]] by (simp add: session_up_def)
qed simp_all

lemma session_after_parse:
  assumes "session_up c" "cn_batch c \<noteq> []"
    and "d = emit (EvResumeRecv (Inr (cn_batch c))) (c\<lparr>cn_stats := (cn_stats c)\<lparr>st_msgs_in := st_msgs_in (cn_stats c) + 1\<rparr>\<rparr>)"
  shows "after_parse byte_session c =
     (if co_armed (cn_coro c) then Some d else arm_recv (d\<lparr>cn_coro := (cn_coro d)\<lparr>co_armed := True\<rparr>\<rparr>))"
proof -
  have k: "cn_coro c' = cn_coro c" if "arm_recv c = Some c'" for c c' :: "byte conn"
    using that by (auto simp: arm_recv_def emit_def split: if_splits bind_splits)
  have on: "co_on (cn_coro d)" using assms(1,3) by (simp add: session_up_def emit_def)
  let ?g = "d\<lparr>cn_coro := (cn_coro d)\<lparr>co_armed := True\<rparr>\<rparr>"
  have "dispatch_batch byte_session c = (if co_armed (cn_coro c) then Some d else arm_recv ?g)"
    by (rule byte_dispatch [OF _ _ _ assms(3)]) (use assms(1) in \<open>simp_all add: session_up_def\<close>)
  moreover have "Option.bind (arm_recv ?g) (\<lambda>c. if cn_state c = Established \<and> \<not> co_on (cn_coro c) then arm_recv c
      else if cn_state c = ShutdownWrite \<and> \<not> co_on (cn_coro c) then arm_drain_recv c else Some c) = arm_recv ?g"
  proof (cases "arm_recv ?g")
    case (Some c')
    with k [OF Some] on show ?thesis by simp
  qed simp
  ultimately show ?thesis using assms(2) on by (simp add: after_parse_def)
qed

text \<open>A read of less than a batch: the session is woken with it and the next read is armed.\<close>

lemma session_short_read:
  assumes up: "session_up c" "\<not> co_armed (cn_coro c)" "cn_batch c = []"
    and xs: "0 < length (rd c)" "length (rd c) < 64"
    and room: "ib_headroom (cn_read_buf c) + 4096 \<le> ib_cap (cn_read_buf c)"
  shows "\<exists>c'. Option.bind (parse_loop byte_session c) (\<lambda>(go, c). if go then after_parse byte_session c else Some c) = Some c' \<and>
     EvResumeRecv (Inr (rd c)) \<in> set (drop (length (cn_log c)) (cn_log c'))"
proof -
  have wf: "ib_wf (cn_read_buf c)" using up(1) by (simp add: session_up_def)
  define d where "d = (ate (length (rd c)) c)\<lparr>cn_parse_need := 1\<rparr>"
  have l: "parse_loop byte_session c = Some (True, d)"
    using byte_loop_end [OF wf xs(1)] up(3) xs(2) by (simp add: d_def batch_capacity_def)
  have d: "session_up d" "cn_batch d = rd c" "\<not> co_armed (cn_coro d)" "cn_log d = cn_log c" "cn_parse_need d = 1"
    "cn_read_buf d = ib_consume (length (rd c)) (cn_read_buf c)"
    using up wf by (simp_all add: d_def ate_def session_up_def ib_consume_spec(1))
  define e where "e = emit (EvResumeRecv (Inr (cn_batch d))) (d\<lparr>cn_stats := (cn_stats d)\<lparr>st_msgs_in := st_msgs_in (cn_stats d) + 1\<rparr>\<rparr>)"
  define g where "g = e\<lparr>cn_coro := (cn_coro e)\<lparr>co_armed := True\<rparr>\<rparr>"
  have g: "cn_state g = Established" "\<not> cn_read_paused g" "cn_parse_need g = 1" "cn_read_buf g = cn_read_buf d"
    "ib_wf (cn_read_buf g)" "cn_log g = cn_log c @ [EvResumeRecv (Inr (rd c))]"
    using d by (simp_all add: g_def e_def session_up_def emit_def)
  have "ib_start (cn_read_buf g) + ib_size (cn_read_buf g) + 4096 \<le> ib_cap (cn_read_buf g)"
    using g(4) d(6) room ib_readable_length [OF wf] by (simp add: ib_consume_fields)
  with arm_recv_room [OF g(1,2) _ g(5)] g(3) obtain h where h: "arm_recv g = Some h" "\<exists>x. cn_log h = cn_log g @ [x]"
    by (auto simp: Let_def emit_def)
  have "after_parse byte_session d = Some h"
    using session_after_parse [OF d(1) _ e_def] d(2,3) xs(1) h(1) by (auto simp: g_def)
  with l h(2) g(6) show ?thesis by auto
qed

text \<open>The first of the two reads: the session has been woken twice and a read is armed behind the old bytes.\<close>

lemma session_long_read:
  assumes up: "session_up c" "\<not> co_armed (cn_coro c)" "cn_batch c = []"
    and ds: "rd c = ds" "64 < length ds" "length ds < 128"
    and room: "ib_start (cn_read_buf c) + ib_size (cn_read_buf c) + 4096 \<le> ib_cap (cn_read_buf c)"
  defines "off \<equiv> ib_start (cn_read_buf c) + ib_size (cn_read_buf c)"
  shows "\<exists>c'. Option.bind (parse_loop byte_session c) (\<lambda>(go, c). if go then after_parse byte_session c else Some c) = Some c' \<and>
     session_up c' \<and> cn_read_buf c' = ib_consume (length ds) (cn_read_buf c) \<and>
     cn_recv_span c' = Some (off, ib_cap (cn_read_buf c) - off)"
proof -
  obtain d where d: "parse_loop byte_session c = Some (True, d)" "session_up d" "co_armed (cn_coro d)"
    "cn_batch d = drop 64 ds" "cn_read_buf d = ib_consume (length ds) (cn_read_buf c)"
    "cn_recv_span d = Some (off, ib_cap (cn_read_buf c) - off)"
    using byte_loop_two_batches [OF up _ _ room] ds by (auto simp: off_def)
  define e where "e = emit (EvResumeRecv (Inr (cn_batch d))) (d\<lparr>cn_stats := (cn_stats d)\<lparr>st_msgs_in := st_msgs_in (cn_stats d) + 1\<rparr>\<rparr>)"
  have "after_parse byte_session d = Some e"
    using session_after_parse [OF d(2) _ e_def] d(3,4) ds(2) by simp
  with d show ?thesis by (auto simp: e_def emit_def session_up_def)
qed

section \<open>Property\<close>

text \<open>
  A session can be handed old bytes. A read brings more than one full batch and ends on a
  message boundary; the session, woken with the first batch, asks for the next one at once. The
  read this arms points behind the bytes still being parsed, the parse consumes them and moves
  the buffer's start back to the front, and when the next bytes arrive the session is woken with
  the first bytes of the previous read instead of them.
\<close>

theorem session_reads_old_bytes:
  assumes up: "session_up c" "co_armed (cn_coro c)"
    and b: "rd c = []" "ib_start (cn_read_buf c) = ib_headroom (cn_read_buf c)"
    and sp: "cn_recv_span c = Some (ib_start (cn_read_buf c), len)"
    and ds: "64 < length ds" "length ds < 128" "length ds \<le> len"
    and room: "ib_start (cn_read_buf c) + length ds + 4096 \<le> ib_cap (cn_read_buf c)"
    and es: "es \<noteq> []" "length es < 64"
  shows "\<exists>c1 c2. recv_done byte_session ds c = Some c1 \<and> recv_done byte_session es c1 = Some c2 \<and>
     EvResumeRecv (Inr (take (length es) ds)) \<in> set (drop (length (cn_log c1)) (cn_log c2))"
proof -
  let ?b = "cn_read_buf c"
  have wf: "ib_wf ?b" using up(1) by (simp add: session_up_def)
  have sz: "ib_size ?b = 0" using ib_readable_length [OF wf] b(1) by simp
  obtain b1 b2 where b2: "ib_store (ib_start ?b) ds ?b = Some b1" "ib_commit (length ds) b1 = Some b2" "ib_wf b2"
    "ib_readable b2 = ds"
    using fill_commit [OF wf, of ds] sz b(1) room by auto
  have b2f: "ib_start b2 = ib_headroom b2" "ib_size b2 = length ds" "ib_cap b2 = ib_cap ?b" "ib_start b2 = ib_start ?b"
    using b2(1,2) b(2) sz by (auto simp: ib_store_def ib_commit_def split: bind_splits if_splits)
  have "ds \<noteq> []" using ds(1) by auto
  then obtain c0 where c0: "recv_done byte_session ds c =
      Option.bind (parse_loop byte_session c0) (\<lambda>(go, c). if go then after_parse byte_session c else Some c)"
    "session_up c0" "\<not> co_armed (cn_coro c0)" "cn_batch c0 = []" "cn_read_buf c0 = b2"
    by (rule session_recv [OF up(1) _ ds(3) sp b2(1,2)])
  let ?off = "ib_start b2 + ib_size b2"
  obtain c1 where c1: "recv_done byte_session ds c = Some c1" "session_up c1"
    "cn_read_buf c1 = ib_consume (length ds) b2" "cn_recv_span c1 = Some (?off, ib_cap b2 - ?off)"
    using session_long_read [OF c0(2-4), of ds] c0(1,5) b2(4) b2f ds room by auto
  obtain b3 b4 where b4: "ib_store ?off es (cn_read_buf c1) = Some b3" "ib_commit (length es) b3 = Some b4" "ib_wf b4"
    "ib_readable b4 = take (length es) ds"
    using replay_buffer [OF b2(3) b2f(1) b2(4), of es] b2f room ds es c1(3) by auto
  have "length es \<le> ib_cap b2 - ?off" using room b2f es(2) by simp
  then obtain c2 where c2: "recv_done byte_session es c1 =
      Option.bind (parse_loop byte_session c2) (\<lambda>(go, c). if go then after_parse byte_session c else Some c)"
    "session_up c2" "\<not> co_armed (cn_coro c2)" "cn_batch c2 = []" "cn_read_buf c2 = b4" "cn_log c2 = cn_log c1"
    by (rule session_recv [OF c1(2) es(1) _ c1(4) b4(1,2)])
  have "ib_headroom b4 + 4096 \<le> ib_cap b4"
    using b4(1,2) c1(3) b2f room by (auto simp: ib_store_def ib_commit_def ib_consume_fields split: bind_splits if_splits)
  with session_short_read [OF c2(2-4)] c2(1,5,6) b4(4) es ds c1(1) show ?thesis by auto
qed

definition session_conn :: "byte conn" where
  "session_conn = (conn_new 3 (plain_params\<lparr>cp_idle_read_timeout := 0\<rparr>) True)
     \<lparr>cn_state := Established, cn_coro := no_coro\<lparr>co_on := True, co_recv_parked := True, co_armed := True\<rparr>,
      cn_recv_span := Some (64, 8128)\<rparr>"

theorem session_reads_old_bytes_witness:
  "\<exists>c1 c2. recv_done byte_session (replicate 65 7) session_conn = Some c1 \<and> recv_done byte_session [9] c1 = Some c2 \<and>
     EvResumeRecv (Inr (take (length [9 :: byte]) (replicate 65 7))) \<in> set (drop (length (cn_log c1)) (cn_log c2))"
  by (rule session_reads_old_bytes [where len = 8128])
    (simp_all add: session_conn_def session_up_def conn_new_def plain_params_def no_coro_def ib_new_def
      ib_readable_def ib_wf_def)

section \<open>Descriptors before bytes\<close>

lemma parse_one_byte:
  assumes "proto H = byte_proto" "ib_wf (cn_read_buf c)" "rd c = [x]" "cn_batch c = []"
  shows "parse_loop H c = Some (True, (take_message x 1 c)\<lparr>cn_parse_need := 1\<rparr>)"
proof -
  let ?d = "take_message x 1 c"
  have d: "rd ?d = []" "cn_batch ?d = [x]" using assms(2-4) by (simp_all add: take_message_def ib_consume_spec(2))
  have "parse_loop H ?d = Some (True, ?d\<lparr>cn_parse_need := 1\<rparr>)"
    by (subst parse_loop.simps) (simp add: assms(1) d [simplified] byte_proto_def)
  with d(2) [simplified] show ?thesis
    by (subst parse_loop.simps) (simp add: assms(1,3) byte_proto_def batch_capacity_def)
qed

lemma close_releases_sink:
  assumes "conn_wf c" "cn_state c = Established"
  shows "EvReleaseSink \<in> set (cn_log (conn_close H r c))" "cn_state (conn_close H r c) = Closed"
proof -
  show closed: "cn_state (conn_close H r c) = Closed"
    using assms(2) by (simp add: conn_close_def teardown_def Let_def wake_waiters_effect)
  have "ext c (conn_close H r c)" using step_close [of c H r] assms(1) by (simp add: step_def)
  with closed assms(2) show "EvReleaseSink \<in> set (cn_log (conn_close H r c))"
    by (auto simp: ext_def closing_log_def teardown_calls_def split: if_splits)
qed

text \<open>
  Messages after the close. A handler that closes the connection when it receives descriptors
  is handed the messages of the same read afterwards, when the sink is already released.
\<close>

theorem messages_after_close:
  assumes c: "conn_wf c" "cn_state c = Established" "cn_coro c = no_coro"
    and b: "ib_commit 1 (cn_read_buf c) = Some b" "ib_readable b = [x]"
    and H: "proto H = byte_proto" "on_fds H = Some (\<lambda>fds c. [AClose LocalClose])" "on_messages H = Some (\<lambda>ms c. [])"
  shows "\<exists>c' us. on_recv H 1 has_fds c = Some c' \<and> cn_log c' = us @ [EvOnMessages [x]] \<and> EvReleaseSink \<in> set us"
proof -
  let ?c1 = "c\<lparr>cn_read_buf := b, cn_stats := (cn_stats c)\<lparr>st_bytes_in := st_bytes_in (cn_stats c) + 1\<rparr>\<rparr>"
  let ?c2 = "emit (EvOnFds (cn_fd_inbox c)) ?c1"
  have wfb: "ib_wf b" using ib_commit_wf [OF b(1)] c(1) by (simp add: conn_wf_def)
  have c2: "conn_wf ?c2" "cn_state ?c2 = Established" using c wfb by (simp_all add: conn_wf_def emit_def)
  let ?c3 = "(conn_close H LocalClose ?c2)\<lparr>cn_fd_inbox := []\<rparr>"
  have fl: "flagged has_fds (or has_fds fd_trunc)" "\<not> flagged has_fds fd_trunc"
    by (simp_all add: flagged_def has_fds_def fd_trunc_def)
  have dl: "deliver_fds H has_fds ?c1 = Some ?c3"
    using H(2) c2(2) fl(2) by (simp add: deliver_fds_def call_back_def Let_def run_action_def)
  have same: "cn_read_buf ?c3 = b" "cn_coro ?c3 = no_coro"
    using reader_close [of ?c2 H LocalClose] c(3) by (auto simp: same_reader_def reader_def emit_def)
  let ?c4 = "(arm_idle_timer ?c3)\<lparr>cn_batch := []\<rparr>"
  have c4: "cn_read_buf ?c4 = b" "cn_coro ?c4 = no_coro" "cn_batch ?c4 = []" "cn_state ?c4 = Closed" "EvReleaseSink \<in> set (cn_log ?c4)"
    using same close_releases_sink [OF c2, of H LocalClose] by (simp_all add: arm_idle_timer_def Let_def emit_def)
  define d where "d = (take_message x 1 ?c4)\<lparr>cn_parse_need := 1\<rparr>"
  have l: "parse_loop H ?c4 = Some (True, d)"
    unfolding d_def by (rule parse_one_byte [OF H(1)]) (use c4 wfb b(2) in simp_all)
  have d: "cn_batch d = [x]" "cn_coro d = no_coro" "cn_state d = Closed" "EvReleaseSink \<in> set (cn_log d)"
    using c4 by (simp_all add: d_def take_message_def)
  have "after_parse H d = Some (emit (EvOnMessages [x]) (d\<lparr>cn_stats := (cn_stats d)\<lparr>st_msgs_in := st_msgs_in (cn_stats d) + 1\<rparr>\<rparr>))"
    using d H(3) by (simp add: after_parse_def dispatch_batch_def call_back_def Let_def no_coro_def emit_def)
  moreover have "on_recv H 1 has_fds c = after_parse H d"
    using c b(1) dl l fl(1) by (simp add: on_recv_def Let_def no_coro_def)
  ultimately show ?thesis using d(4) by (auto simp: emit_def)
qed

definition fds_handlers :: "byte handlers" where
  "fds_handlers = byte_session\<lparr>on_fds := Some (\<lambda>fds c. [AClose LocalClose]), on_messages := Some (\<lambda>ms c. [])\<rparr>"

definition fds_conn :: "byte conn" where
  "fds_conn = (conn_new 3 plain_params True)\<lparr>cn_state := Established, cn_read_buf := (sample_wb [7])\<lparr>ib_size := 0\<rparr>\<rparr>"

theorem messages_after_close_witness:
  "\<exists>c' us. on_recv fds_handlers 1 has_fds fds_conn = Some c' \<and> cn_log c' = us @ [EvOnMessages [7]] \<and> EvReleaseSink \<in> set us"
  by (rule messages_after_close [where b = "sample_wb [7]"])
    (simp_all add: fds_conn_def fds_handlers_def byte_session_def conn_wf_def conn_new_def no_coro_def ib_commit_def
      sample_wb_def ib_wf_def ib_new_def ib_readable_def)

end
