(* ===== verification/Conn_Owner.thy ===== *)
theory Conn_Owner
  imports Conn_Lifecycle "HOL-Library.AList" "HOL-Library.Multiset"
begin

text \<open>
  What the owners of connections, client and server, share: socket addresses as their family and
  bytes, the events of one operation of a connection, and how those events are laid out.
\<close>

record sock_addr =
  sa_family :: int
  sa_bytes :: "byte list"

definition AF_INET6 :: int where
  "AF_INET6 = 10"

definition AF_UNIX :: int where
  "AF_UNIX = 1"

definition new_events :: "'m conn \<Rightarrow> 'm conn \<Rightarrow> 'm conn_event list" where
  "new_events c c' = drop (length (cn_log c)) (cn_log c')"

section \<open>The events of an operation\<close>

lemma ext_new: "ext c c' \<Longrightarrow> cn_log c' = cn_log c @ new_events c c'"
  by (auto simp: ext_def new_events_def)

lemma ext_events:
  assumes "ext c c'"
  shows "cn_state c' = Connecting \<Longrightarrow> cn_state c = Connecting \<and> EvOnOpen \<notin> set (new_events c c')"
    "cn_state c = Closed \<Longrightarrow> cn_state c' = Closed \<and> list_all late_event (new_events c c')"
    "cn_state c \<noteq> Closed \<Longrightarrow> cn_state c' = Closed \<Longrightarrow> closing_log (cn_fd c) (new_events c c')"
    "cn_state c \<noteq> Closed \<Longrightarrow> cn_state c' \<noteq> Closed \<Longrightarrow> list_all open_event (new_events c c')"
  using assms by (auto simp: ext_def new_events_def split: if_splits)

fun reasons :: "'m conn_event list \<Rightarrow> close_reason list" where
  "reasons [] = []"
| "reasons (EvNotify r d # es) = r # reasons es"
| "reasons (e # es) = reasons es"

lemma reasons_append [simp]: "reasons (es @ fs) = reasons es @ reasons fs"
  by (induction es rule: reasons.induct) simp_all

lemma reasons_none: "filter is_notify es = [] \<Longrightarrow> reasons es = []"
  by (induction es rule: reasons.induct) simp_all

lemma reasons_mem: "r \<in> set (reasons es) \<longleftrightarrow> (\<exists>d. EvNotify r d \<in> set es)"
  by (induction es rule: reasons.induct) auto

text \<open>A closing operation: its open events, then the teardown, which queues one notification.\<close>

lemma closing_split:
  assumes "closing_log fd es"
  obtains us ts r where "es = us @ ts" "list_all open_event us" "EvOnOpen \<notin> set ts" "reasons us = []" "reasons ts = [r]"
proof -
  obtain us g q vs where es: "es = us @ teardown_calls fd g q @ vs" "list_all open_event us" "list_all tail_event vs"
    "length (filter is_notify vs) = 1" using assms unfolding closing_log_def by blast
  have u: "reasons us = []" using es(2) by (induction us rule: reasons.induct) simp_all
  have t: "reasons (teardown_calls fd g q) = []" by (cases q) (simp_all add: teardown_calls_def)
  have "length (reasons vs) = length (filter is_notify vs)" by (induction vs rule: reasons.induct) simp_all
  with es(4) obtain r where r: "reasons vs = [r]" by (auto simp: length_Suc_conv)
  have "EvOnOpen \<notin> set vs" using es(3) by (auto simp: list_all_iff dest: bspec)
  moreover have "EvOnOpen \<notin> set (teardown_calls fd g q)" by (cases q) (simp_all add: teardown_calls_def)
  ultimately show thesis using that [of us "teardown_calls fd g q @ vs" r] es u t r by simp
qed

section \<open>Who holds a descriptor\<close>

text \<open>
  The contract an owner relies on: a component that holds one descriptor keeps it while it is not
  shut, gives it back exactly once, in the step that shuts it, and closes nothing else.
  \<open>closes c c'\<close> are the descriptors closed in the step from \<open>c\<close> to \<open>c'\<close>.
\<close>

definition held :: "('c \<Rightarrow> bool) \<Rightarrow> ('c \<Rightarrow> int) \<Rightarrow> (nat \<times> 'c) list \<Rightarrow> int multiset" where
  "held shut fd_of cs = mset (map (fd_of \<circ> snd) (filter (\<lambda>p. \<not> shut (snd p)) cs))"

lemma held_simps [simp]:
  "held shut fd_of [] = {#}"
  "held shut fd_of ((i, c) # cs) = (if shut c then held shut fd_of cs else add_mset (fd_of c) (held shut fd_of cs))"
  "held shut fd_of (cs @ ds) = held shut fd_of cs + held shut fd_of ds"
  by (simp_all add: held_def)

locale fd_holder =
  fixes ok :: "'c \<Rightarrow> bool" and shut :: "'c \<Rightarrow> bool" and fd_of :: "'c \<Rightarrow> int"
    and closes :: "'c \<Rightarrow> 'c \<Rightarrow> int list" and can :: "'c \<Rightarrow> 'c \<Rightarrow> bool"
  assumes keeps_ok: "can c c' \<Longrightarrow> ok c \<Longrightarrow> ok c'"
    and stays_open: "can c c' \<Longrightarrow> ok c \<Longrightarrow> \<not> shut c' \<Longrightarrow> \<not> shut c \<and> fd_of c' = fd_of c \<and> closes c c' = []"
    and shuts: "can c c' \<Longrightarrow> ok c \<Longrightarrow> \<not> shut c \<Longrightarrow> shut c' \<Longrightarrow> closes c c' = [fd_of c]"
    and stays_shut: "can c c' \<Longrightarrow> ok c \<Longrightarrow> shut c \<Longrightarrow> closes c c' = []"
begin

lemma one_step:
  assumes "can c c'" "ok c"
  shows "held shut fd_of [(i, c)] = mset (closes c c') + held shut fd_of [(i, c')]"
  using stays_open [OF assms] shuts [OF assms] stays_shut [OF assms] by auto

lemma held_update:
  assumes "can c c'" "ok c"
  shows "map_of cs i = Some c \<Longrightarrow> held shut fd_of cs = mset (closes c c') + held shut fd_of (AList.update i c' cs)"
proof (induction cs)
  case (Cons p cs)
  then show ?case using one_step [OF assms] by (cases p) (auto simp: ac_simps split: if_splits)
qed simp

lemma held_delete_shut:
  "map_of cs i = Some c \<Longrightarrow> shut c \<Longrightarrow> distinct (map fst cs) \<Longrightarrow> held shut fd_of (AList.delete i cs) = held shut fd_of cs"
proof (induction cs)
  case (Cons p cs)
  have "filter (\<lambda>(k', _). i \<noteq> k') cs = cs" if "i \<notin> fst ` set cs" using that by (intro filter_True) force
  with Cons show ?case by (cases p) (auto split: if_splits simp: AList.delete_eq)
qed simp

end

fun closed_fds :: "'m conn_event list \<Rightarrow> int list" where
  "closed_fds [] = []"
| "closed_fds (EvCloseFd fd # es) = fd # closed_fds es"
| "closed_fds (e # es) = closed_fds es"

lemma closed_fds_append [simp]: "closed_fds (es @ fs) = closed_fds es @ closed_fds fs"
  by (induction es rule: closed_fds.induct) simp_all

lemma closed_fds_open: "list_all open_event es \<Longrightarrow> closed_fds es = []"
  by (induction es rule: closed_fds.induct) simp_all

lemma closed_fds_tail: "list_all tail_event es \<Longrightarrow> closed_fds es = []"
  by (induction es rule: closed_fds.induct) simp_all

lemma closed_fds_closing:
  assumes "closing_log fd es"
  shows "closed_fds es = [fd]"
proof -
  obtain us g r vs where "es = us @ teardown_calls fd g r @ vs" "list_all open_event us" "list_all tail_event vs"
    using assms unfolding closing_log_def by blast
  moreover have "closed_fds (teardown_calls fd g r) = [fd]" by (cases r) (simp_all add: teardown_calls_def)
  ultimately show ?thesis by (simp add: closed_fds_open closed_fds_tail)
qed

interpretation conn_fds: fd_holder conn_wf "\<lambda>c. cn_state c = Closed" cn_fd "\<lambda>c c'. closed_fds (new_events c c')" step
proof
  fix c c' :: "'m conn" assume "step c c'" "conn_wf c"
  then have ex: "ext c c'" by (simp add: step_def)
  show "conn_wf c'" using \<open>step c c'\<close> \<open>conn_wf c\<close> by (simp add: step_def)
  show "cn_state c' \<noteq> Closed \<Longrightarrow> cn_state c \<noteq> Closed \<and> cn_fd c' = cn_fd c \<and> closed_fds (new_events c c') = []"
    using ex ext_events(2,4) [OF ex] by (auto simp: ext_def closed_fds_open split: if_splits)
  show "cn_state c \<noteq> Closed \<Longrightarrow> cn_state c' = Closed \<Longrightarrow> closed_fds (new_events c c') = [cn_fd c]"
    using closed_fds_closing ext_events(3) [OF ex] by blast
  show "cn_state c = Closed \<Longrightarrow> closed_fds (new_events c c') = []"
    using ext_events(2) [OF ex] closed_fds_open [of "new_events c c'"] by (auto simp: list_all_iff late_open)
qed

end
