(* ===== verification/Tcp_Client.thy ===== *)
theory Tcp_Client
  imports Conn_Owner Work_Context Complex_Main
begin

text \<open>
  The TCP client (\<^verbatim>\<open>include/afx/net/tcp_client.hpp\<close>): the backoff cursor, sequential
  failover over the resolved addresses, the staggered attempts of Happy Eyeballs, the reaction to a
  connection that goes away, and the drain hooks. A connection is the one of
  \<^verbatim>\<open>Connection\<close>, named by a number that stands for its fresh sink handle; what it calls on
  its handlers and its owner is read off its log and handed to the client in order. Socket creation,
  the pool, name resolution and the random draws are parameters (\<open>client_env\<close>), a \<^verbatim>\<open>double\<close>
  is a real, timers and deferred notifications are lists the event manager drains. The steps of a
  running client are the relation \<open>client_step\<close>.
\<close>

section \<open>Backoff\<close>

datatype client_state = Disconnected | ClConnecting | Connected | ReconnectWait

record backoff =
  bo_initial :: duration
  bo_max :: duration
  bo_jitter :: real
  bo_current :: duration

definition backoff_next :: "backoff \<Rightarrow> duration \<times> backoff" where
  "backoff_next b =
     (let d = (if bo_current b \<noteq> 0 then bo_current b else bo_initial b)
      in (d, b\<lparr>bo_current := min (d * 2) (bo_max b)\<rparr>))"

definition backoff_reset :: "backoff \<Rightarrow> backoff" where
  "backoff_reset b = b\<lparr>bo_current := 0\<rparr>"

text \<open>The jitter multiplies by a draw \<open>u\<close> and truncates towards zero.\<close>

definition jittered :: "real \<Rightarrow> real \<Rightarrow> duration \<Rightarrow> duration" where
  "jittered j u d =
     (if 0 < j then (let x = real_of_int d * u in if 0 \<le> x then \<lfloor>x\<rfloor> else \<lceil>x\<rceil>) else d)"

section \<open>Configuration and state\<close>

record client_config =
  cc_connect_timeout :: duration
  cc_reconnect :: backoff
  cc_auto_reconnect :: bool
  cc_happy_eyeballs :: bool
  cc_he_stagger :: duration
  cc_resolver :: bool
  cc_unix_target :: "sock_addr option"
  cc_params :: conn_params

text \<open>
  \<open>ce_create n\<close> and \<open>ce_pool n\<close> are the outcomes of the \<open>n\<close>-th attempt to create a socket and of
  constructing its connection, \<open>ce_jitter n\<close> the \<open>n\<close>-th random draw.
\<close>

record 'm client_env =
  ce_handlers :: "'m handlers"
  ce_on_shutdown :: bool
  ce_parse :: "sock_addr option"
  ce_getaddrinfo :: "sock_addr list option"
  ce_create :: "nat \<Rightarrow> sock_addr \<Rightarrow> int result"
  ce_pool :: "nat \<Rightarrow> bool"
  ce_jitter :: "nat \<Rightarrow> real"

datatype client_timer = TReconnect | TConnectDeadline nat | THeDeadline | TStagger

datatype client_call =
  ClState client_state | ClSubmitConnect nat int sock_addr | ClCloseFd int | ClResolve duration
| ClOnError error | ClOnClose nat close_reason | ClOnShutdown nat

text \<open>An object of the pool carries whether it was given the handlers of an attempt.\<close>

record 'm client =
  cl_cfg :: client_config
  cl_conn :: "nat option"
  cl_pending :: "nat list"
  cl_closing :: "nat list"
  cl_addrs :: "sock_addr list"
  cl_he_addrs :: "sock_addr list"
  cl_addr_idx :: nat
  cl_he_next :: nat
  cl_he_won :: bool
  cl_resolving :: bool
  cl_state :: client_state
  cl_group :: nat
  cl_he_group :: "nat option"
  cl_objs :: "nat \<rightharpoonup> bool \<times> 'm conn"
  cl_next_id :: nat
  cl_groups :: nat
  cl_tries :: nat
  cl_draws :: nat
  cl_timers :: "(nat \<times> client_timer \<times> duration) list"
  cl_notify :: "(nat \<times> close_reason) list"
  cl_deadline :: deadline
  cl_now :: time_point
  cl_log :: "client_call list"

definition client_new :: "client_config \<Rightarrow> 'm client" where
  "client_new cfg =
     \<lparr>cl_cfg = cfg, cl_conn = None, cl_pending = [], cl_closing = [], cl_addrs = [], cl_he_addrs = [],
      cl_addr_idx = 0, cl_he_next = 0, cl_he_won = False, cl_resolving = False, cl_state = Disconnected,
      cl_group = 0, cl_he_group = None, cl_objs = Map.empty, cl_next_id = 0, cl_groups = 1, cl_tries = 0,
      cl_draws = 0, cl_timers = [], cl_notify = [], cl_deadline = dl_none, cl_now = 0, cl_log = []\<rparr>"

section \<open>State, timers and the pool\<close>

definition cl_say :: "client_call \<Rightarrow> 'm client \<Rightarrow> 'm client" where
  "cl_say e cl = cl\<lparr>cl_log := cl_log cl @ [e]\<rparr>"

definition set_state :: "client_state \<Rightarrow> 'm client \<Rightarrow> 'm client" where
  "set_state s cl = (if cl_state cl = s then cl else cl_say (ClState s) (cl\<lparr>cl_state := s\<rparr>))"

definition cl_after :: "duration \<Rightarrow> client_timer \<Rightarrow> nat \<Rightarrow> 'm client \<Rightarrow> 'm client" where
  "cl_after d t g cl = cl\<lparr>cl_timers := cl_timers cl @ [(g, t, d)]\<rparr>"

definition cl_cancel_group :: "nat \<Rightarrow> 'm client \<Rightarrow> 'm client" where
  "cl_cancel_group g cl = cl\<lparr>cl_timers := filter (\<lambda>(h, _). h \<noteq> g) (cl_timers cl)\<rparr>"

definition connect_budget :: "'m client \<Rightarrow> duration" where
  "connect_budget cl =
     (let budget = cc_connect_timeout (cl_cfg cl)
      in if dl_set (cl_deadline cl) then min budget (dl_remaining (cl_deadline cl) (cl_now cl)) else budget)"

definition schedule_reconnect :: "'m client_env \<Rightarrow> 'm client \<Rightarrow> 'm client" where
  "schedule_reconnect E cl =
     (if \<not> cc_auto_reconnect (cl_cfg cl) then cl
      else let cl = set_state ReconnectWait cl;
               (d, b) = backoff_next (cc_reconnect (cl_cfg cl));
               d = jittered (bo_jitter b) (ce_jitter E (cl_draws cl)) d;
               cl = cl\<lparr>cl_cfg := (cl_cfg cl)\<lparr>cc_reconnect := b\<rparr>,
                      cl_draws := (if 0 < bo_jitter b then Suc (cl_draws cl) else cl_draws cl)\<rparr>
           in cl_after d TReconnect (cl_group cl) cl)"

definition on_connected :: "'m client \<Rightarrow> 'm client" where
  "on_connected cl =
     set_state Connected (cl\<lparr>cl_cfg := (cl_cfg cl)\<lparr>cc_reconnect := backoff_reset (cc_reconnect (cl_cfg cl))\<rparr>\<rparr>)"

definition cl_construct :: "bool \<Rightarrow> int \<Rightarrow> 'm client \<Rightarrow> 'm client" where
  "cl_construct he fd cl =
     cl\<lparr>cl_objs := (cl_objs cl)(cl_next_id cl \<mapsto> (he, conn_new fd (cc_params (cl_cfg cl)) True)),
        cl_next_id := Suc (cl_next_id cl)\<rparr>"

definition cl_destroy :: "nat \<Rightarrow> 'm client \<Rightarrow> 'm client" where
  "cl_destroy i cl = cl\<lparr>cl_objs := (cl_objs cl)(i := None)\<rparr>"

section \<open>Handlers\<close>

text \<open>
  \<open>start\<close> wraps the user's \<open>on_open\<close>, so the callback is always set; the wrapper's own work is
  \<open>on_connected\<close>.
\<close>

definition optional :: "('a \<Rightarrow> action list) option \<Rightarrow> 'a \<Rightarrow> action list" where
  "optional f x = (case f of None \<Rightarrow> [] | Some g \<Rightarrow> g x)"

definition client_handlers :: "'m client_env \<Rightarrow> 'm handlers" where
  "client_handlers E = (ce_handlers E)\<lparr>on_open := Some (optional (on_open (ce_handlers E)))\<rparr>"

text \<open>
  The handlers of an attempt forward the hooks; \<open>on_open\<close> is \<open>he_win\<close>, which runs the user's
  callback on the winner only and closes an attempt that completes second. \<open>on_fds\<close> is not
  forwarded.
\<close>

definition build_attempt_handlers :: "'m client_env \<Rightarrow> nat \<Rightarrow> 'm client \<Rightarrow> 'm handlers" where
  "build_attempt_handlers E i cl =
     (let H = ce_handlers E in
      \<lparr>on_messages = Some (\<lambda>b c. case on_messages H of None \<Rightarrow> [] | Some f \<Rightarrow> f b c),
       on_open = Some (\<lambda>c. if i \<notin> set (cl_pending cl) then []
                           else if cl_he_won cl then [AClose LocalClose] else optional (on_open H) c),
       on_close = True,
       on_error = Some (\<lambda>e c. case on_error H of None \<Rightarrow> [] | Some f \<Rightarrow> f e c),
       on_writable = Some (optional (on_writable H)),
       on_fds = None, proto = proto H, session = session H, session_sent = session_sent H\<rparr>)"

definition handlers_for :: "'m client_env \<Rightarrow> bool \<Rightarrow> nat \<Rightarrow> 'm client \<Rightarrow> 'm handlers" where
  "handlers_for E he i cl = (if he then build_attempt_handlers E i cl else client_handlers E)"

definition he_lost :: "'m client_env \<Rightarrow> nat \<Rightarrow> close_reason \<Rightarrow> 'm client \<Rightarrow> 'm client" where
  "he_lost E i r cl =
     (if cl_conn cl = Some i \<and> on_close (ce_handlers E) then cl_say (ClOnClose i r) cl else cl)"

text \<open>The calls of a teardown that reach the client.\<close>

definition gone_call :: "'m client_env \<Rightarrow> bool \<Rightarrow> nat \<Rightarrow> 'm conn_event \<Rightarrow> 'm client \<Rightarrow> 'm client" where
  "gone_call E he i e cl =
     (case e of
        EvOnClose r \<Rightarrow> if he then he_lost E i r cl else cl_say (ClOnClose i r) cl
      | EvNotify r d \<Rightarrow> cl\<lparr>cl_notify := cl_notify cl @ [(i, r)]\<rparr>
      | _ \<Rightarrow> cl)"

definition cl_close :: "'m client_env \<Rightarrow> close_reason \<Rightarrow> nat \<Rightarrow> 'm client \<Rightarrow> 'm client" where
  "cl_close E r i cl =
     (case cl_objs cl i of
        None \<Rightarrow> cl
      | Some (he, c) \<Rightarrow>
          let c' = conn_close (handlers_for E he i cl) r c
          in fold (gone_call E he i) (new_events c c') (cl\<lparr>cl_objs := (cl_objs cl)(i \<mapsto> (he, c'))\<rparr>))"

section \<open>Sequential failover\<close>

definition connect_fd :: "'m client_env \<Rightarrow> nat \<Rightarrow> int \<Rightarrow> sock_addr \<Rightarrow> 'm client \<Rightarrow> 'm client" where
  "connect_fd E n raw target cl =
     (let cl = (case cl_conn cl of
                  None \<Rightarrow> cl
                | Some old \<Rightarrow> (cl_destroy old (cl_close E LocalClose old cl))\<lparr>cl_conn := None\<rparr>)
      in if \<not> ce_pool E n then schedule_reconnect E (cl_say (ClCloseFd raw) cl)
         else let i = cl_next_id cl;
                  cl = set_state ClConnecting ((cl_construct False raw cl)\<lparr>cl_conn := Some i\<rparr>);
                  cl = cl_say (ClSubmitConnect i raw target) cl
              in cl_after (connect_budget cl) (TConnectDeadline i) (cl_group cl) cl)"

function connect_next :: "'m client_env \<Rightarrow> 'm client \<Rightarrow> 'm client" where
  "connect_next E cl =
     (if length (cl_addrs cl) \<le> cl_addr_idx cl then schedule_reconnect E (set_state Disconnected cl)
      else let target = cl_addrs cl ! cl_addr_idx cl;
               n = cl_tries cl;
               cl' = cl\<lparr>cl_addr_idx := Suc (cl_addr_idx cl), cl_tries := Suc n\<rparr>
           in case ce_create E n target of
                Inl _ \<Rightarrow> connect_next E cl'
              | Inr raw \<Rightarrow> connect_fd E n raw target cl')"
  by pat_completeness auto
termination
  by (relation "measure (\<lambda>(E, cl). length (cl_addrs cl) - cl_addr_idx cl)") auto

declare connect_next.simps [simp del]

section \<open>Happy Eyeballs\<close>

fun he_interleave :: "'a list \<Rightarrow> 'a list \<Rightarrow> 'a list" where
  "he_interleave [] [] = []"
| "he_interleave (a # v6) [] = a # he_interleave v6 []"
| "he_interleave [] (b # v4) = b # he_interleave [] v4"
| "he_interleave (a # v6) (b # v4) = a # b # he_interleave v6 v4"

definition he_order :: "sock_addr list \<Rightarrow> sock_addr list" where
  "he_order addrs =
     he_interleave (filter (\<lambda>a. sa_family a = AF_INET6) addrs) (filter (\<lambda>a. sa_family a \<noteq> AF_INET6) addrs)"

definition he_started :: "nat \<Rightarrow> int \<Rightarrow> sock_addr \<Rightarrow> 'm client \<Rightarrow> 'm client" where
  "he_started i raw target cl =
     cl_say (ClSubmitConnect i raw target)
       (set_state ClConnecting ((cl_construct True raw cl)\<lparr>cl_pending := cl_pending cl @ [i]\<rparr>))"

text \<open>
  A launch that fails falls through to \<open>he_attempt_done\<close>, which launches the next candidate when
  nothing is in flight.
\<close>

function he_launch :: "'m client_env \<Rightarrow> 'm client \<Rightarrow> 'm client"
  and he_attempt_done :: "'m client_env \<Rightarrow> 'm client \<Rightarrow> 'm client" where
  "he_launch E cl =
     (if cl_he_won cl \<or> length (cl_he_addrs cl) \<le> cl_he_next cl then cl
      else let target = cl_he_addrs cl ! cl_he_next cl;
               n = cl_tries cl;
               cl' = cl\<lparr>cl_he_next := Suc (cl_he_next cl), cl_tries := Suc n\<rparr>
           in case ce_create E n target of
                Inl _ \<Rightarrow> he_attempt_done E cl'
              | Inr raw \<Rightarrow>
                  if \<not> ce_pool E n then he_attempt_done E (cl_say (ClCloseFd raw) cl')
                  else he_started (cl_next_id cl') raw target cl')"
| "he_attempt_done E cl =
     (if cl_he_won cl \<or> cl_pending cl \<noteq> [] then cl
      else if cl_he_next cl < length (cl_he_addrs cl) then he_launch E cl
      else schedule_reconnect E (set_state Disconnected cl))"
  by pat_completeness auto
termination
  by (relation "measure (\<lambda>x. case x of
        Inl (E, cl) \<Rightarrow> 2 * (length (cl_he_addrs cl) - cl_he_next cl)
      | Inr (E, cl) \<Rightarrow> Suc (2 * (length (cl_he_addrs cl) - cl_he_next cl)))") (auto simp: cl_say_def)

declare he_launch.simps [simp del] he_attempt_done.simps [simp del]

definition arm_stagger :: "'m client \<Rightarrow> 'm client" where
  "arm_stagger cl =
     (if cl_he_won cl \<or> length (cl_he_addrs cl) \<le> cl_he_next cl then cl
      else cl_after (cc_he_stagger (cl_cfg cl)) TStagger (case cl_he_group cl of None \<Rightarrow> 0 | Some g \<Rightarrow> g) cl)"

definition he_begin :: "'m client_env \<Rightarrow> 'm client \<Rightarrow> 'm client" where
  "he_begin E cl =
     (let g = cl_groups cl;
          cl = cl\<lparr>cl_he_won := False, cl_he_next := 0, cl_he_group := Some g, cl_groups := Suc g,
                 cl_he_addrs := he_order (cl_addrs cl)\<rparr>
      in if cl_he_addrs cl = [] then schedule_reconnect E (set_state Disconnected cl)
         else arm_stagger (he_launch E (cl_after (connect_budget cl) THeDeadline g cl)))"

definition begin_connect :: "'m client_env \<Rightarrow> 'm client \<Rightarrow> 'm client" where
  "begin_connect E cl =
     (let cl = cl\<lparr>cl_addr_idx := 0\<rparr>
      in if cc_happy_eyeballs (cl_cfg cl) \<and> 1 < length (cl_addrs cl) then he_begin E cl
         else connect_next E cl)"

definition he_lose :: "'m client_env \<Rightarrow> nat \<Rightarrow> 'm client \<Rightarrow> 'm client" where
  "he_lose E i cl = cl_close E LocalClose i (cl\<lparr>cl_closing := cl_closing cl @ [i]\<rparr>)"

text \<open>The user's \<open>on_open\<close>, and the close of a late attempt, are in \<open>build_attempt_handlers\<close>.\<close>

definition he_win :: "'m client_env \<Rightarrow> nat \<Rightarrow> 'm client \<Rightarrow> 'm client" where
  "he_win E i cl =
     (if cl_he_won cl \<or> i \<notin> set (cl_pending cl) then cl
      else let losers = remove1 i (cl_pending cl);
               cl = cl\<lparr>cl_he_won := True, cl_conn := Some i, cl_pending := []\<rparr>;
               cl = fold (he_lose E) losers cl;
               cl = (case cl_he_group cl of
                       None \<Rightarrow> cl | Some g \<Rightarrow> (cl_cancel_group g cl)\<lparr>cl_he_group := None\<rparr>)
           in on_connected cl)"

definition he_timeout :: "'m client_env \<Rightarrow> 'm client \<Rightarrow> 'm client" where
  "he_timeout E cl =
     fold (cl_close E ConnectFailed) (cl_pending cl) (cl\<lparr>cl_he_next := length (cl_he_addrs cl)\<rparr>)"

section \<open>A connection that is gone\<close>

definition reclaim_attempt :: "'m client_env \<Rightarrow> nat \<Rightarrow> 'm client \<Rightarrow> bool \<times> 'm client" where
  "reclaim_attempt E i cl =
     (if i \<in> set (cl_pending cl)
      then (True, he_attempt_done E ((cl_destroy i cl)\<lparr>cl_pending := remove1 i (cl_pending cl)\<rparr>))
      else if i \<in> set (cl_closing cl)
      then (True, (cl_destroy i cl)\<lparr>cl_closing := remove1 i (cl_closing cl)\<rparr>)
      else (False, cl))"

definition on_conn_gone :: "'m client_env \<Rightarrow> nat \<Rightarrow> close_reason \<Rightarrow> 'm client \<Rightarrow> 'm client" where
  "on_conn_gone E i r cl =
     (let (ours, cl) = (if cl_conn cl = Some i then (True, (cl_destroy i cl)\<lparr>cl_conn := None\<rparr>)
                        else reclaim_attempt E i cl)
      in if \<not> ours then cl
         else if r = ConnectFailed
         then (if \<not> cc_happy_eyeballs (cl_cfg cl) \<or> cl_he_addrs cl = [] then connect_next E cl else cl)
         else if cl_state cl \<noteq> Disconnected then schedule_reconnect E cl
         else cl)"

section \<open>Start and resolution\<close>

definition resolve_target :: "'m client_env \<Rightarrow> sock_addr list result" where
  "resolve_target E =
     (case ce_parse E of
        Some a \<Rightarrow> Inr [a]
      | None \<Rightarrow>
          (case ce_getaddrinfo E of
             None \<Rightarrow> Inl (make_error CatNet ErrResolveFailed)
           | Some out \<Rightarrow> if out = [] then Inl (make_error CatNet ErrResolveFailed) else Inr out))"

definition client_start :: "'m client_env \<Rightarrow> 'm client \<Rightarrow> unit result \<times> 'm client" where
  "client_start E cl =
     (if cl_conn cl \<noteq> None \<or> cl_resolving cl \<or> cl_pending cl \<noteq> [] \<or> cl_closing cl \<noteq> [] then (Inr (), cl)
      else
        let cl = cl\<lparr>cl_group := cl_groups cl, cl_groups := Suc (cl_groups cl)\<rparr> in
        case cc_unix_target (cl_cfg cl) of
          Some a \<Rightarrow> (Inr (), begin_connect E (cl\<lparr>cl_addrs := [a]\<rparr>))
        | None \<Rightarrow>
            (case ce_parse E of
               Some a \<Rightarrow> (Inr (), begin_connect E (cl\<lparr>cl_addrs := [a]\<rparr>))
             | None \<Rightarrow>
                 if cc_resolver (cl_cfg cl)
                 then (Inr (), cl_say (ClResolve (connect_budget cl))
                         ((set_state ClConnecting cl)\<lparr>cl_resolving := True\<rparr>))
                 else (case resolve_target E of
                         Inl e \<Rightarrow> (Inl e, cl)
                       | Inr as \<Rightarrow> (Inr (), begin_connect E (cl\<lparr>cl_addrs := as\<rparr>)))))"

definition on_resolved :: "'m client_env \<Rightarrow> sock_addr list result \<Rightarrow> 'm client \<Rightarrow> 'm client" where
  "on_resolved E r cl =
     (let cl = cl\<lparr>cl_resolving := False\<rparr> in
      case r of
        Inl e \<Rightarrow>
          let cl = (if on_error (ce_handlers E) \<noteq> None then cl_say (ClOnError e) cl else cl)
          in schedule_reconnect E (set_state Disconnected cl)
      | Inr as \<Rightarrow> begin_connect E (cl\<lparr>cl_addrs := as\<rparr>))"

section \<open>Timers, connection events, drain hooks\<close>

fun fire :: "'m client_env \<Rightarrow> client_timer \<Rightarrow> 'm client \<Rightarrow> 'm client" where
  "fire E TReconnect cl = begin_connect E cl"
| "fire E (TConnectDeadline i) cl =
     (case cl_objs cl i of
        Some (he, c) \<Rightarrow> if cn_state c = Connecting then cl_close E ConnectFailed i cl else cl
      | None \<Rightarrow> cl)"
| "fire E THeDeadline cl = he_timeout E cl"
| "fire E TStagger cl = arm_stagger (he_launch E cl)"

definition client_call :: "'m client_env \<Rightarrow> bool \<Rightarrow> nat \<Rightarrow> 'm conn_event \<Rightarrow> 'm client \<Rightarrow> 'm client" where
  "client_call E he i e cl =
     (case e of
        EvOnOpen \<Rightarrow> if he then he_win E i cl else on_connected cl
      | _ \<Rightarrow> gone_call E he i e cl)"

definition client_op :: "'m client_env \<Rightarrow> nat \<Rightarrow> conn_op \<Rightarrow> 'm client \<Rightarrow> 'm client option" where
  "client_op E i op cl =
     (case cl_objs cl i of
        None \<Rightarrow> Some cl
      | Some (he, c) \<Rightarrow>
          map_option
            (\<lambda>c'. fold (client_call E he i) (new_events c c') (cl\<lparr>cl_objs := (cl_objs cl)(i \<mapsto> (he, c'))\<rparr>))
            (conn_step (handlers_for E he i cl) op c))"

definition hooks_notify :: "'m client_env \<Rightarrow> 'm client \<Rightarrow> 'm client" where
  "hooks_notify E cl =
     (case cl_conn cl of
        Some i \<Rightarrow> if ce_on_shutdown E then cl_say (ClOnShutdown i) cl else cl
      | None \<Rightarrow> cl)"

definition hooks_drained :: "'m client \<Rightarrow> bool" where
  "hooks_drained cl =
     (case cl_conn cl of
        None \<Rightarrow> True
      | Some i \<Rightarrow> (case cl_objs cl i of Some (_, c) \<Rightarrow> ib_size (cn_write_buf c) = 0 | None \<Rightarrow> True))"

definition hooks_shutdown_write :: "'m client \<Rightarrow> 'm client" where
  "hooks_shutdown_write cl =
     (case cl_conn cl of
        None \<Rightarrow> cl
      | Some i \<Rightarrow>
          (case cl_objs cl i of
             Some (he, c) \<Rightarrow> cl\<lparr>cl_objs := (cl_objs cl)(i \<mapsto> (he, shutdown_write c))\<rparr>
           | None \<Rightarrow> cl))"

text \<open>
  The destructor runs when the event manager has stopped: a close then notifies the client at once.
\<close>

definition close_stopped :: "'m client_env \<Rightarrow> close_reason \<Rightarrow> nat \<Rightarrow> 'm client \<Rightarrow> 'm client" where
  "close_stopped E r i cl =
     (let cl' = cl_close E r i cl
      in fold (\<lambda>(j, q). on_conn_gone E j q) (drop (length (cl_notify cl)) (cl_notify cl'))
           (cl'\<lparr>cl_notify := cl_notify cl\<rparr>))"

definition client_destroy :: "'m client_env \<Rightarrow> 'm client \<Rightarrow> 'm client" where
  "client_destroy E cl =
     (let pend = cl_pending cl;
          clos = cl_closing cl;
          cl = cl\<lparr>cl_pending := [], cl_closing := []\<rparr>;
          cl = fold (\<lambda>i cl. cl_destroy i (close_stopped E ShutdownClose i cl)) pend cl;
          cl = fold cl_destroy clos cl;
          cl = (case cl_conn cl of
                  None \<Rightarrow> cl
                | Some i \<Rightarrow> (cl_destroy i (close_stopped E ShutdownClose i cl))\<lparr>cl_conn := None\<rparr>);
          cl = cl_cancel_group (cl_group cl) cl
      in case cl_he_group cl of None \<Rightarrow> cl | Some g \<Rightarrow> cl_cancel_group g cl)"

definition enumerate_impl :: "'m client \<Rightarrow> (string \<times> nat) list" where
  "enumerate_impl cl =
     (case cl_conn cl of Some i \<Rightarrow> [(''client'', i)] | None \<Rightarrow> []) @
     map (Pair ''client-he'') (cl_pending cl) @ map (Pair ''client-he-closing'') (cl_closing cl)"

section \<open>Runs\<close>

text \<open>
  A step of the event manager on a started client: an event of one of its connections, the next
  deferred notification, a timer that fires, the resolver's answer, or the passing of time. The
  application does not close a connection that is open with the reason of a failed connect.
\<close>

definition fair_op :: "conn_op \<Rightarrow> 'm conn \<Rightarrow> 'm conn \<Rightarrow> bool" where
  "fair_op op c c' \<longleftrightarrow>
     no_fds op \<and>
     (cn_state c \<noteq> Connecting \<or> EvOnOpen \<in> set (new_events c c') \<longrightarrow>
        (\<forall>d. EvNotify ConnectFailed d \<notin> set (new_events c c')))"

inductive client_step :: "'m client_env \<Rightarrow> 'm client \<Rightarrow> 'm client \<Rightarrow> bool" for E where
  op: "client_op E i op cl = Some cl' \<Longrightarrow>
       (\<And>he c c'. cl_objs cl i = Some (he, c) \<Longrightarrow>
          conn_step (handlers_for E he i cl) op c = Some c' \<Longrightarrow> fair_op op c c') \<Longrightarrow>
       client_step E cl cl'"
| notify: "cl_notify cl = (i, r) # ns \<Longrightarrow> client_step E cl (on_conn_gone E i r (cl\<lparr>cl_notify := ns\<rparr>))"
| timer: "t \<in> set (cl_timers cl) \<Longrightarrow>
          client_step E cl (fire E (fst (snd t)) (cl\<lparr>cl_timers := remove1 t (cl_timers cl)\<rparr>))"
| resolved: "cl_resolving cl \<Longrightarrow> client_step E cl (on_resolved E r cl)"
| time: "client_step E cl (cl\<lparr>cl_now := now, cl_deadline := d\<rparr>)"

inductive client_reach :: "'m client_env \<Rightarrow> client_config \<Rightarrow> 'm client \<Rightarrow> bool" for E cfg where
  start: "client_start E ((client_new cfg)\<lparr>cl_now := now, cl_deadline := d\<rparr>) = (Inr (), cl) \<Longrightarrow>
          client_reach E cfg cl"
| step: "client_reach E cfg cl \<Longrightarrow> client_step E cl cl' \<Longrightarrow> client_reach E cfg cl'"

end
