(* ===== verification/Client_Inv.thy ===== *)
theory Client_Inv
  imports Tcp_Client "HOL-Library.Multiset"
begin

text \<open>
  The invariant of a running client with automatic reconnection and that its operations keep it:
  every connection the client waits for is bounded by a deadline or its end is announced, and while
  there is no such connection a reconnect is armed. The first section has the arithmetic of the
  backoff and the order of the attempts.
\<close>

section \<open>Backoff and the order of attempts\<close>

lemma backoff_next_reset: "backoff_next (backoff_reset b) = (bo_initial b, b\<lparr>bo_current := min (bo_initial b * 2) (bo_max b)\<rparr>)"
  by (simp add: backoff_next_def backoff_reset_def Let_def)

text \<open>The cursor after \<open>n\<close> failures since the last successful connect.\<close>

primrec backoff_after :: "nat \<Rightarrow> backoff \<Rightarrow> backoff" where
  "backoff_after 0 b = backoff_reset b"
| "backoff_after (Suc n) b = snd (backoff_next (backoff_after n b))"

lemma backoff_cursor:
  assumes "0 < bo_initial b" "bo_initial b \<le> bo_max b"
  shows "backoff_after (Suc n) b = b\<lparr>bo_current := min (bo_initial b * 2 ^ Suc n) (bo_max b)\<rparr>"
proof (induction n)
  case 0
  show ?case by (simp add: backoff_next_reset)
next
  case (Suc n)
  let ?c = "min (bo_initial b * 2 ^ Suc n) (bo_max b)"
  have "0 < bo_initial b * 2 ^ Suc n" using assms(1) by simp
  with assms have pos: "?c \<noteq> 0" by linarith
  have "backoff_after (Suc (Suc n)) b = snd (backoff_next (b\<lparr>bo_current := ?c\<rparr>))"
    using Suc.IH by (simp only: backoff_after.simps(2) [of "Suc n"])
  also have "\<dots> = b\<lparr>bo_current := min (?c * 2) (bo_max b)\<rparr>"
    using pos by (simp add: backoff_next_def Let_def)
  also have "min (?c * 2) (bo_max b) = min (bo_initial b * 2 ^ Suc (Suc n)) (bo_max b)"
    using assms by (simp add: min_def) 
  finally show ?case .
qed

lemma backoff_delay:
  assumes "0 < bo_initial b" "bo_initial b \<le> bo_max b"
  shows "fst (backoff_next (backoff_after n b)) = min (bo_initial b * 2 ^ n) (bo_max b)"
proof (cases n)
  case 0
  with assms show ?thesis by (simp add: backoff_next_reset)
next
  case (Suc m)
  have "0 < bo_initial b * 2 ^ n" using assms by simp
  with assms have "min (bo_initial b * 2 ^ n) (bo_max b) \<noteq> 0" by linarith
  then show ?thesis
    unfolding Suc by (simp add: backoff_cursor [OF assms] backoff_next_def Let_def del: backoff_after.simps)
qed

lemma jittered_bounds:
  assumes "0 \<le> d" "0 \<le> j" "j \<le> 1" "1 - j \<le> u" "u \<le> 1 + j"
  shows "real_of_int d * (1 - j) - 1 < real_of_int (jittered j u d) \<and>
         real_of_int (jittered j u d) \<le> real_of_int d * (1 + j)"
proof (cases "0 < j")
  case False
  with assms(2) show ?thesis by (simp add: jittered_def)
next
  case True
  have x: "real_of_int d * (1 - j) \<le> real_of_int d * u" "real_of_int d * u \<le> real_of_int d * (1 + j)"
    using assms by (auto intro: mult_left_mono)
  have "0 \<le> real_of_int d * u" using assms by simp
  then have "jittered j u d = \<lfloor>real_of_int d * u\<rfloor>" using True by (simp add: jittered_def Let_def)
  with x show ?thesis by linarith
qed

lemma he_interleave_mset: "mset (he_interleave xs ys) = mset xs + mset ys"
  by (induction xs ys rule: he_interleave.induct) simp_all

lemma he_interleave_nth:
  "i < min (length xs) (length ys) \<Longrightarrow>
   he_interleave xs ys ! (2 * i) = xs ! i \<and> he_interleave xs ys ! (2 * i + 1) = ys ! i"
proof (induction xs ys arbitrary: i rule: he_interleave.induct)
  case (4 a v6 b v4)
  then show ?case by (cases i) simp_all
qed simp_all

lemma he_interleave_filter:
  assumes "list_all P xs" "list_all (\<lambda>y. \<not> P y) ys"
  shows "filter P (he_interleave xs ys) = xs \<and> filter (\<lambda>y. \<not> P y) (he_interleave xs ys) = ys"
  using assms by (induction xs ys rule: he_interleave.induct) simp_all

section \<open>The invariant of a running client\<close>

definition tracked :: "'m client \<Rightarrow> nat \<Rightarrow> bool" where
  "tracked cl i \<longleftrightarrow> cl_conn cl = Some i \<or> i \<in> set (cl_pending cl)"

definition armed :: "'m client \<Rightarrow> client_timer \<Rightarrow> bool" where
  "armed cl t \<longleftrightarrow> (\<exists>g d. (g, t, d) \<in> set (cl_timers cl))"

definition he_mode :: "'m client \<Rightarrow> bool" where
  "he_mode cl \<longleftrightarrow> cc_happy_eyeballs (cl_cfg cl) \<and> 1 < length (cl_addrs cl)"

text \<open>The objects of the pool and the notifications about them.\<close>

definition objs_ok :: "'m client \<Rightarrow> bool" where
  "objs_ok cl \<longleftrightarrow>
     (\<forall>i he c. cl_objs cl i = Some (he, c) \<longrightarrow> i < cl_next_id cl \<and> conn_wf c \<and> he = he_mode cl) \<and>
     (\<forall>i r. (i, r) \<in> set (cl_notify cl) \<longrightarrow> i < cl_next_id cl) \<and>
     (\<forall>i r he c. (i, r) \<in> set (cl_notify cl) \<longrightarrow> cl_objs cl i = Some (he, c) \<longrightarrow> cn_state c = Closed) \<and>
     (\<forall>i. tracked cl i \<longrightarrow> (\<exists>he c. cl_objs cl i = Some (he, c))) \<and>
     (\<forall>i he c. \<not> he_mode cl \<longrightarrow> cl_objs cl i = Some (he, c) \<longrightarrow> cl_conn cl = Some i)"

text \<open>A connection the client waits for ends by itself, by a deadline, or its end is announced.\<close>

definition waits_ok :: "'m client \<Rightarrow> bool" where
  "waits_ok cl \<longleftrightarrow>
     (\<forall>i he c. tracked cl i \<longrightarrow> cl_objs cl i = Some (he, c) \<longrightarrow> cn_state c = Closed \<longrightarrow>
        (\<exists>r. (i, r) \<in> set (cl_notify cl))) \<and>
     (\<forall>i c. tracked cl i \<longrightarrow> cl_objs cl i = Some (True, c) \<longrightarrow> cn_state c = Connecting \<longrightarrow>
        i \<in> set (cl_pending cl) \<and> armed cl THeDeadline) \<and>
     (\<forall>i c. tracked cl i \<longrightarrow> cl_objs cl i = Some (False, c) \<longrightarrow> cn_state c = Connecting \<longrightarrow>
        armed cl (TConnectDeadline i))"

definition attempts_ok :: "'m client \<Rightarrow> bool" where
  "attempts_ok cl \<longleftrightarrow>
     (he_mode cl \<longrightarrow> (\<forall>i. cl_conn cl = Some i \<longrightarrow> (i, ConnectFailed) \<notin> set (cl_notify cl))) \<and>
     (\<forall>i. cl_conn cl = Some i \<longrightarrow> i \<notin> set (cl_pending cl)) \<and> distinct (cl_pending cl) \<and>
     (\<not> cl_he_won cl \<and> cl_he_next cl < length (cl_he_addrs cl) \<longrightarrow> armed cl THeDeadline) \<and>
     (cl_he_won cl \<longrightarrow> cl_pending cl = []) \<and> (cl_he_addrs cl \<noteq> [] \<longrightarrow> he_mode cl) \<and>
     (\<not> he_mode cl \<longrightarrow> cl_pending cl = []) \<and>
     (cl_pending cl \<noteq> [] \<or> cl_closing cl \<noteq> [] \<longrightarrow> cl_he_addrs cl \<noteq> [])"

definition cl_base :: "'m client \<Rightarrow> bool" where
  "cl_base cl \<longleftrightarrow> cc_auto_reconnect (cl_cfg cl) \<and> \<not> cl_resolving cl \<and> objs_ok cl \<and> waits_ok cl \<and> attempts_ok cl"

definition driven :: "'m client \<Rightarrow> bool" where
  "driven cl \<longleftrightarrow> armed cl TReconnect \<or> (\<exists>i. tracked cl i)"

definition cl_inv :: "'m client \<Rightarrow> bool" where
  "cl_inv cl \<longleftrightarrow> cl_base cl \<and> cl_state cl \<noteq> Disconnected \<and> driven cl"

lemmas inv_defs = cl_base_def objs_ok_def waits_ok_def attempts_ok_def tracked_def armed_def he_mode_def

text \<open>The fields the three readings of a client do not look at.\<close>

lemma he_mode_simps [simp]:
  "he_mode (cl\<lparr>cl_conn := x0\<rparr>) = he_mode cl" "he_mode (cl\<lparr>cl_pending := x1\<rparr>) = he_mode cl"
  "he_mode (cl\<lparr>cl_closing := x2\<rparr>) = he_mode cl" "he_mode (cl\<lparr>cl_he_addrs := x3\<rparr>) = he_mode cl"
  "he_mode (cl\<lparr>cl_addr_idx := x4\<rparr>) = he_mode cl" "he_mode (cl\<lparr>cl_he_next := x5\<rparr>) = he_mode cl"
  "he_mode (cl\<lparr>cl_he_won := x6\<rparr>) = he_mode cl" "he_mode (cl\<lparr>cl_resolving := x7\<rparr>) = he_mode cl"
  "he_mode (cl\<lparr>cl_state := x8\<rparr>) = he_mode cl" "he_mode (cl\<lparr>cl_he_group := x9\<rparr>) = he_mode cl"
  "he_mode (cl\<lparr>cl_objs := x10\<rparr>) = he_mode cl" "he_mode (cl\<lparr>cl_next_id := x11\<rparr>) = he_mode cl"
  "he_mode (cl\<lparr>cl_groups := x12\<rparr>) = he_mode cl" "he_mode (cl\<lparr>cl_tries := x13\<rparr>) = he_mode cl"
  "he_mode (cl\<lparr>cl_notify := x14\<rparr>) = he_mode cl" "he_mode (cl\<lparr>cl_log := x15\<rparr>) = he_mode cl"
  "he_mode (cl\<lparr>cl_now := x16\<rparr>) = he_mode cl" "he_mode (cl\<lparr>cl_deadline := x17\<rparr>) = he_mode cl"
  "he_mode (cl\<lparr>cl_group := x18\<rparr>) = he_mode cl" "he_mode (cl\<lparr>cl_timers := x19\<rparr>) = he_mode cl"
  by (simp_all add: he_mode_def)

lemma armed_simps [simp]:
  "armed (cl\<lparr>cl_conn := x0\<rparr>) = armed cl" "armed (cl\<lparr>cl_pending := x1\<rparr>) = armed cl"
  "armed (cl\<lparr>cl_closing := x2\<rparr>) = armed cl" "armed (cl\<lparr>cl_he_addrs := x3\<rparr>) = armed cl"
  "armed (cl\<lparr>cl_addr_idx := x4\<rparr>) = armed cl" "armed (cl\<lparr>cl_he_next := x5\<rparr>) = armed cl"
  "armed (cl\<lparr>cl_he_won := x6\<rparr>) = armed cl" "armed (cl\<lparr>cl_resolving := x7\<rparr>) = armed cl"
  "armed (cl\<lparr>cl_state := x8\<rparr>) = armed cl" "armed (cl\<lparr>cl_he_group := x9\<rparr>) = armed cl"
  "armed (cl\<lparr>cl_objs := x10\<rparr>) = armed cl" "armed (cl\<lparr>cl_next_id := x11\<rparr>) = armed cl"
  "armed (cl\<lparr>cl_groups := x12\<rparr>) = armed cl" "armed (cl\<lparr>cl_tries := x13\<rparr>) = armed cl"
  "armed (cl\<lparr>cl_notify := x14\<rparr>) = armed cl" "armed (cl\<lparr>cl_log := x15\<rparr>) = armed cl"
  "armed (cl\<lparr>cl_now := x16\<rparr>) = armed cl" "armed (cl\<lparr>cl_deadline := x17\<rparr>) = armed cl"
  "armed (cl\<lparr>cl_group := x18\<rparr>) = armed cl" "armed (cl\<lparr>cl_addrs := x19\<rparr>) = armed cl"
  by (simp_all add: armed_def fun_eq_iff)

lemma tracked_simps [simp]:
  "tracked (cl\<lparr>cl_closing := x0\<rparr>) = tracked cl" "tracked (cl\<lparr>cl_he_addrs := x1\<rparr>) = tracked cl"
  "tracked (cl\<lparr>cl_addr_idx := x2\<rparr>) = tracked cl" "tracked (cl\<lparr>cl_he_next := x3\<rparr>) = tracked cl"
  "tracked (cl\<lparr>cl_he_won := x4\<rparr>) = tracked cl" "tracked (cl\<lparr>cl_resolving := x5\<rparr>) = tracked cl"
  "tracked (cl\<lparr>cl_state := x6\<rparr>) = tracked cl" "tracked (cl\<lparr>cl_he_group := x7\<rparr>) = tracked cl"
  "tracked (cl\<lparr>cl_objs := x8\<rparr>) = tracked cl" "tracked (cl\<lparr>cl_next_id := x9\<rparr>) = tracked cl"
  "tracked (cl\<lparr>cl_groups := x10\<rparr>) = tracked cl" "tracked (cl\<lparr>cl_tries := x11\<rparr>) = tracked cl"
  "tracked (cl\<lparr>cl_notify := x12\<rparr>) = tracked cl" "tracked (cl\<lparr>cl_log := x13\<rparr>) = tracked cl"
  "tracked (cl\<lparr>cl_now := x14\<rparr>) = tracked cl" "tracked (cl\<lparr>cl_deadline := x15\<rparr>) = tracked cl"
  "tracked (cl\<lparr>cl_group := x16\<rparr>) = tracked cl" "tracked (cl\<lparr>cl_timers := x17\<rparr>) = tracked cl"
  "tracked (cl\<lparr>cl_addrs := x18\<rparr>) = tracked cl"
  by (simp_all add: tracked_def fun_eq_iff)

lemma say_fields [simp]:
  "cl_cfg (cl_say e cl) = cl_cfg cl" "cl_conn (cl_say e cl) = cl_conn cl"
  "cl_pending (cl_say e cl) = cl_pending cl" "cl_closing (cl_say e cl) = cl_closing cl"
  "cl_addrs (cl_say e cl) = cl_addrs cl" "cl_he_addrs (cl_say e cl) = cl_he_addrs cl"
  "cl_addr_idx (cl_say e cl) = cl_addr_idx cl" "cl_he_next (cl_say e cl) = cl_he_next cl"
  "cl_he_won (cl_say e cl) = cl_he_won cl" "cl_resolving (cl_say e cl) = cl_resolving cl"
  "cl_group (cl_say e cl) = cl_group cl" "cl_he_group (cl_say e cl) = cl_he_group cl"
  "cl_objs (cl_say e cl) = cl_objs cl" "cl_next_id (cl_say e cl) = cl_next_id cl"
  "cl_groups (cl_say e cl) = cl_groups cl" "cl_tries (cl_say e cl) = cl_tries cl"
  "cl_draws (cl_say e cl) = cl_draws cl" "cl_timers (cl_say e cl) = cl_timers cl"
  "cl_notify (cl_say e cl) = cl_notify cl" "cl_deadline (cl_say e cl) = cl_deadline cl"
  "cl_now (cl_say e cl) = cl_now cl" "cl_state (cl_say e cl) = cl_state cl"
  by (simp_all add: cl_say_def)

lemma set_state_fields [simp]:
  "cl_cfg (set_state s cl) = cl_cfg cl" "cl_conn (set_state s cl) = cl_conn cl"
  "cl_pending (set_state s cl) = cl_pending cl" "cl_closing (set_state s cl) = cl_closing cl"
  "cl_addrs (set_state s cl) = cl_addrs cl" "cl_he_addrs (set_state s cl) = cl_he_addrs cl"
  "cl_addr_idx (set_state s cl) = cl_addr_idx cl" "cl_he_next (set_state s cl) = cl_he_next cl"
  "cl_he_won (set_state s cl) = cl_he_won cl" "cl_resolving (set_state s cl) = cl_resolving cl"
  "cl_group (set_state s cl) = cl_group cl" "cl_he_group (set_state s cl) = cl_he_group cl"
  "cl_objs (set_state s cl) = cl_objs cl" "cl_next_id (set_state s cl) = cl_next_id cl"
  "cl_groups (set_state s cl) = cl_groups cl" "cl_tries (set_state s cl) = cl_tries cl"
  "cl_draws (set_state s cl) = cl_draws cl" "cl_timers (set_state s cl) = cl_timers cl"
  "cl_notify (set_state s cl) = cl_notify cl" "cl_deadline (set_state s cl) = cl_deadline cl"
  "cl_now (set_state s cl) = cl_now cl"
  by (simp_all add: set_state_def)

lemma after_fields [simp]:
  "cl_cfg (cl_after d t g cl) = cl_cfg cl" "cl_conn (cl_after d t g cl) = cl_conn cl"
  "cl_pending (cl_after d t g cl) = cl_pending cl" "cl_closing (cl_after d t g cl) = cl_closing cl"
  "cl_addrs (cl_after d t g cl) = cl_addrs cl" "cl_he_addrs (cl_after d t g cl) = cl_he_addrs cl"
  "cl_addr_idx (cl_after d t g cl) = cl_addr_idx cl" "cl_he_next (cl_after d t g cl) = cl_he_next cl"
  "cl_he_won (cl_after d t g cl) = cl_he_won cl" "cl_resolving (cl_after d t g cl) = cl_resolving cl"
  "cl_state (cl_after d t g cl) = cl_state cl" "cl_group (cl_after d t g cl) = cl_group cl"
  "cl_he_group (cl_after d t g cl) = cl_he_group cl" "cl_objs (cl_after d t g cl) = cl_objs cl"
  "cl_next_id (cl_after d t g cl) = cl_next_id cl" "cl_groups (cl_after d t g cl) = cl_groups cl"
  "cl_tries (cl_after d t g cl) = cl_tries cl" "cl_draws (cl_after d t g cl) = cl_draws cl"
  "cl_notify (cl_after d t g cl) = cl_notify cl" "cl_deadline (cl_after d t g cl) = cl_deadline cl"
  "cl_now (cl_after d t g cl) = cl_now cl"
  by (simp_all add: cl_after_def)

lemma objs_waits_cong:
  assumes "cl_base cl" "cl_objs cl' = cl_objs cl" "cl_next_id cl' = cl_next_id cl" "cl_notify cl' = cl_notify cl"
    "cl_conn cl' = cl_conn cl" "cl_pending cl' = cl_pending cl"
    "he_mode cl' = he_mode cl" "\<And>t. armed cl t \<Longrightarrow> armed cl' t"
  shows "objs_ok cl' \<and> waits_ok cl'"
proof
  have t: "tracked cl' = tracked cl" by (simp add: tracked_def assms fun_eq_iff)
  show "objs_ok cl'" using assms(1) by (simp add: cl_base_def objs_ok_def t assms(2-7))
  show "waits_ok cl'"
    using assms(1) assms(8) unfolding cl_base_def waits_ok_def t assms(2-7) by presburger
qed

lemma base_cong:
  assumes "cl_base cl" "cl_objs cl' = cl_objs cl" "cl_next_id cl' = cl_next_id cl" "cl_notify cl' = cl_notify cl"
    "cl_conn cl' = cl_conn cl" "cl_pending cl' = cl_pending cl"
    "he_mode cl' = he_mode cl" "\<And>t. armed cl t \<Longrightarrow> armed cl' t"
    "cl_resolving cl' = cl_resolving cl" "cc_auto_reconnect (cl_cfg cl') = cc_auto_reconnect (cl_cfg cl)"
    "cl_closing cl' = cl_closing cl" "cl_he_won cl' = cl_he_won cl" "cl_he_next cl' = cl_he_next cl"
    "cl_he_addrs cl' = cl_he_addrs cl"
  shows "cl_base cl'"
proof -
  have "attempts_ok cl'"
    using assms(1) assms(8) unfolding cl_base_def attempts_ok_def assms(2-7) assms(11-14) by presburger
  with objs_waits_cong [OF assms(1-8)] show ?thesis using assms(1) by (simp add: cl_base_def assms(9,10))
qed

lemma armed_timers: "set (cl_timers cl) \<subseteq> set (cl_timers cl') \<Longrightarrow> armed cl t \<Longrightarrow> armed cl' t"
  by (auto simp: armed_def)

lemma after_simps [simp]:
  "armed (cl_after d t g cl) u \<longleftrightarrow> u = t \<or> armed cl u" "tracked (cl_after d t g cl) = tracked cl"
  "he_mode (cl_after d t g cl) = he_mode cl"
  by (auto simp: armed_def tracked_def he_mode_def cl_after_def fun_eq_iff)

lemma base_after: "cl_base cl \<Longrightarrow> cl_base (cl_after d t g cl)"
  by (erule base_cong) (simp_all add: cl_after_def he_mode_def armed_def, blast)

lemma base_say: "cl_base cl \<Longrightarrow> cl_base (cl_say e cl)"
  by (erule base_cong) (simp_all add: cl_say_def he_mode_def armed_def)

lemma say_simps [simp]:
  "he_mode (cl_say e cl) = he_mode cl"
  "tracked (cl_say e cl) = tracked cl" "armed (cl_say e cl) = armed cl" "driven (cl_say e cl) = driven cl"
  by (simp_all add: cl_say_def he_mode_def tracked_def armed_def driven_def fun_eq_iff)

lemma base_state: "cl_base cl \<Longrightarrow> cl_base (set_state s cl)"
  by (erule base_cong) (simp_all add: set_state_def cl_say_def he_mode_def armed_def)

lemma set_state_simps [simp]:
  "cl_state (set_state s cl) = s" "he_mode (set_state s cl) = he_mode cl"
  "tracked (set_state s cl) = tracked cl" "armed (set_state s cl) = armed cl" "driven (set_state s cl) = driven cl"
  by (simp_all add: set_state_def cl_say_def he_mode_def tracked_def armed_def driven_def fun_eq_iff)

lemma base_cfg:
  "cl_base cl \<Longrightarrow> cl_base (cl\<lparr>cl_cfg := (cl_cfg cl)\<lparr>cc_reconnect := b\<rparr>\<rparr>)"
  "cl_base cl \<Longrightarrow> cl_base (cl\<lparr>cl_cfg := (cl_cfg cl)\<lparr>cc_reconnect := b\<rparr>, cl_draws := n\<rparr>)"
  by (erule base_cong; simp add: he_mode_def armed_def)+

lemma schedule_eq:
  assumes "cc_auto_reconnect (cl_cfg cl)"
  shows "\<exists>d g b n. schedule_reconnect E cl =
      cl_after d TReconnect g
        ((set_state ReconnectWait cl)\<lparr>cl_cfg := (cl_cfg (set_state ReconnectWait cl))\<lparr>cc_reconnect := b\<rparr>, cl_draws := n\<rparr>)"
  by (simp only: schedule_reconnect_def Let_def case_prod_beta assms not_True_eq_False if_False) blast

lemma schedule_inv: "cl_base cl \<Longrightarrow> cl_inv (schedule_reconnect E cl)"
proof -
  assume b: "cl_base cl"
  then obtain d g b' n where eq: "schedule_reconnect E cl =
      cl_after d TReconnect g
        ((set_state ReconnectWait cl)\<lparr>cl_cfg := (cl_cfg (set_state ReconnectWait cl))\<lparr>cc_reconnect := b'\<rparr>, cl_draws := n\<rparr>)"
    using schedule_eq [of cl E] by (auto simp: cl_base_def)
  have "cl_base (schedule_reconnect E cl)"
    unfolding eq by (rule base_after, rule base_cfg, rule base_state, rule b)
  moreover have "cl_state (schedule_reconnect E cl) = ReconnectWait" unfolding eq by simp
  moreover have "driven (schedule_reconnect E cl)" unfolding eq by (simp add: driven_def)
  ultimately show ?thesis by (simp add: cl_inv_def)
qed

section \<open>Closing and destroying\<close>

lemma gone_call_eq:
  "gone_call E he i e cl =
     cl\<lparr>cl_notify := cl_notify cl @ map (Pair i) (reasons [e]), cl_log := cl_log (gone_call E he i e cl)\<rparr>"
  by (cases e) (simp_all add: gone_call_def he_lost_def cl_say_def)

lemma fold_gone:
  "\<exists>L. fold (gone_call E he i) es cl = cl\<lparr>cl_notify := cl_notify cl @ map (Pair i) (reasons es), cl_log := L\<rparr>"
proof (induction es arbitrary: cl)
  case Nil
  show ?case by (rule exI [of _ "cl_log cl"]) simp
next
  case (Cons e es)
  define cl1 where "cl1 = gone_call E he i e cl"
  have cl1: "cl1 = cl\<lparr>cl_notify := cl_notify cl @ map (Pair i) (reasons [e]), cl_log := cl_log cl1\<rparr>"
    unfolding cl1_def by (rule gone_call_eq)
  obtain L where L: "fold (gone_call E he i) es cl1 =
      cl1\<lparr>cl_notify := cl_notify cl1 @ map (Pair i) (reasons es), cl_log := L\<rparr>"
    using Cons.IH by blast
  have r: "reasons (e # es) = reasons [e] @ reasons es" using reasons_append [of "[e]" es] by simp
  have "fold (gone_call E he i) (e # es) cl = fold (gone_call E he i) es cl1" by (simp add: cl1_def)
  also have "\<dots> = cl\<lparr>cl_notify := cl_notify cl @ map (Pair i) (reasons (e # es)), cl_log := L\<rparr>"
    unfolding L r by (subst (1 2) cl1) simp
  finally show ?case by blast
qed

lemma cl_close_cases:
  assumes "cl_objs cl i = Some (he, c)" "conn_wf c"
  obtains (closed) "cn_state c = Closed" "cl_close E r i cl = cl"
  | (opened) L c' where "cn_state c \<noteq> Closed" "conn_wf c'" "cn_state c' = Closed"
      "cl_close E r i cl =
         cl\<lparr>cl_objs := (cl_objs cl)(i \<mapsto> (he, c')), cl_notify := cl_notify cl @ [(i, r)], cl_log := L\<rparr>"
proof (cases "cn_state c = Closed")
  case True
  then have "cl_close E r i cl = cl"
    using assms(1) by (simp add: cl_close_def conn_close_closed new_events_def fun_upd_idem)
  with True closed show ?thesis by blast
next
  case False
  let ?c' = "conn_close (handlers_for E he i cl) r c"
  obtain vs d where l: "cn_log ?c' = cn_log c @
      teardown_calls (cn_fd c) (cn_group c) (if on_close (handlers_for E he i cl) then Some r else None) @ vs @ [EvNotify r d]"
    "filter is_notify vs = []" "cn_state ?c' = Closed" "conn_wf ?c'"
    by (rule conn_close_open [OF assms(2) False, of "handlers_for E he i cl" r])
  have "reasons (new_events c ?c') = [r]"
    by (simp add: new_events_def l(1) teardown_calls_def reasons_none [OF l(2)])
  then obtain L where "cl_close E r i cl =
      cl\<lparr>cl_objs := (cl_objs cl)(i \<mapsto> (he, ?c')), cl_notify := cl_notify cl @ [(i, r)], cl_log := L\<rparr>"
    using fold_gone [of E he i "new_events c ?c'" "cl\<lparr>cl_objs := (cl_objs cl)(i \<mapsto> (he, ?c'))\<rparr>"]
    by (auto simp: cl_close_def Let_def assms(1))
  with False l(3,4) opened show ?thesis by blast
qed

lemma cl_close_open:
  assumes "cl_objs cl i = Some (he, c)" "conn_wf c" "cn_state c \<noteq> Closed"
  obtains L c' where "cl_close E r i cl =
    cl\<lparr>cl_objs := (cl_objs cl)(i \<mapsto> (he, c')), cl_notify := cl_notify cl @ [(i, r)], cl_log := L\<rparr>"
  using assms(1,2)
proof (cases rule: cl_close_cases [where E = E and r = r])
  case (opened L c')
  from that [OF opened(4)] show ?thesis .
qed (use assms(3) in simp)

lemma base_obj:
  assumes "cl_base cl" "cl_objs cl i = Some (he, c)"
  shows "conn_wf c" "i < cl_next_id cl" "he = he_mode cl"
  using assms unfolding cl_base_def objs_ok_def by blast+

lemma base_notice:
  assumes "cl_base cl" "(i, r) \<in> set (cl_notify cl)"
  shows "i < cl_next_id cl" "cl_objs cl i = Some (he, c) \<Longrightarrow> cn_state c = Closed"
  using assms unfolding cl_base_def objs_ok_def by blast+

lemma base_tracked: "cl_base cl \<Longrightarrow> tracked cl i \<Longrightarrow> \<exists>he c. cl_objs cl i = Some (he, c)"
  unfolding cl_base_def objs_ok_def by blast

lemma base_single: "cl_base cl \<Longrightarrow> \<not> he_mode cl \<Longrightarrow> cl_objs cl i = Some (he, c) \<Longrightarrow> cl_conn cl = Some i"
  unfolding cl_base_def objs_ok_def by blast

lemma base_waits:
  assumes "cl_base cl" "tracked cl i"
  shows "cl_objs cl i = Some (he, c) \<Longrightarrow> cn_state c = Closed \<Longrightarrow> \<exists>r. (i, r) \<in> set (cl_notify cl)"
    "cl_objs cl i = Some (True, c) \<Longrightarrow> cn_state c = Connecting \<Longrightarrow> i \<in> set (cl_pending cl) \<and> armed cl THeDeadline"
    "cl_objs cl i = Some (False, c) \<Longrightarrow> cn_state c = Connecting \<Longrightarrow> armed cl (TConnectDeadline i)"
  using assms unfolding cl_base_def waits_ok_def by blast+

lemma objs_okI:
  assumes "\<And>i he c. cl_objs cl i = Some (he, c) \<Longrightarrow> i < cl_next_id cl \<and> conn_wf c \<and> he = he_mode cl"
    "\<And>i r. (i, r) \<in> set (cl_notify cl) \<Longrightarrow> i < cl_next_id cl"
    "\<And>i r he c. (i, r) \<in> set (cl_notify cl) \<Longrightarrow> cl_objs cl i = Some (he, c) \<Longrightarrow> cn_state c = Closed"
    "\<And>i. tracked cl i \<Longrightarrow> \<exists>he c. cl_objs cl i = Some (he, c)"
    "\<And>i he c. \<not> he_mode cl \<Longrightarrow> cl_objs cl i = Some (he, c) \<Longrightarrow> cl_conn cl = Some i"
  shows "objs_ok cl"
  unfolding objs_ok_def by (intro conjI allI impI; (rule assms; assumption)?) (use assms(1) in blast)+

lemma waits_okI:
  assumes "\<And>i he c. tracked cl i \<Longrightarrow> cl_objs cl i = Some (he, c) \<Longrightarrow> cn_state c = Closed \<Longrightarrow> \<exists>r. (i, r) \<in> set (cl_notify cl)"
    "\<And>i c. tracked cl i \<Longrightarrow> cl_objs cl i = Some (True, c) \<Longrightarrow> cn_state c = Connecting \<Longrightarrow>
       i \<in> set (cl_pending cl) \<and> armed cl THeDeadline"
    "\<And>i c. tracked cl i \<Longrightarrow> cl_objs cl i = Some (False, c) \<Longrightarrow> cn_state c = Connecting \<Longrightarrow> armed cl (TConnectDeadline i)"
  shows "waits_ok cl"
  unfolding waits_ok_def using assms by blast

lemma baseI: "cc_auto_reconnect (cl_cfg cl) \<Longrightarrow> \<not> cl_resolving cl \<Longrightarrow> objs_ok cl \<Longrightarrow> waits_ok cl \<Longrightarrow> attempts_ok cl \<Longrightarrow> cl_base cl"
  by (simp add: cl_base_def)

lemma base_closed:
  assumes "cl_base cl" "cl_objs cl i = Some (he, c)" "conn_wf c'" "cn_state c' = Closed"
    "r \<noteq> ConnectFailed \<or> \<not> he_mode cl \<or> cl_conn cl \<noteq> Some i"
  shows "cl_base (cl\<lparr>cl_objs := (cl_objs cl)(i \<mapsto> (he, c')), cl_notify := cl_notify cl @ [(i, r)], cl_log := L\<rparr>)"
    (is "cl_base ?cl")
proof -
  have t: "tracked ?cl = tracked cl" "he_mode ?cl = he_mode cl" "armed ?cl = armed cl"
    by (auto simp: tracked_def he_mode_def armed_def fun_eq_iff)
  note b = base_obj [OF assms(1)] base_obj [OF assms(1,2)] base_notice [OF assms(1)] base_tracked [OF assms(1)]
    base_single [OF assms(1)] base_waits [OF assms(1)]
  have "objs_ok ?cl"
  proof (rule objs_okI)
    fix j e q assume "cl_objs ?cl j = Some (e, q)"
    then show "j < cl_next_id ?cl \<and> conn_wf q \<and> e = he_mode ?cl"
      using assms(2,3) b(1-3) [of j e q] b(4-6) unfolding t by (cases "j = i") auto
  next
    fix j q assume "(j, q) \<in> set (cl_notify ?cl)"
    then show "j < cl_next_id ?cl" using b(5,7) by auto
  next
    fix j q e k assume "(j, q) \<in> set (cl_notify ?cl)" "cl_objs ?cl j = Some (e, k)"
    then show "cn_state k = Closed" using b(8) assms(4) by (auto split: if_splits)
  next
    fix j assume "tracked ?cl j"
    then show "\<exists>e k. cl_objs ?cl j = Some (e, k)" using b(9) unfolding t by auto
  next
    fix j e k assume "\<not> he_mode ?cl" "cl_objs ?cl j = Some (e, k)"
    then show "cl_conn ?cl = Some j"
      using b(10) [of j e k] b(10) [OF _ assms(2)] unfolding t by (cases "j = i") auto
  qed
  moreover have "waits_ok ?cl"
  proof (rule waits_okI)
    fix j e k assume "tracked ?cl j" "cl_objs ?cl j = Some (e, k)" "cn_state k = Closed"
    then show "\<exists>q. (j, q) \<in> set (cl_notify ?cl)" using b(11) [of j e k] unfolding t by (auto split: if_splits)
  next
    fix j k assume "tracked ?cl j" "cl_objs ?cl j = Some (True, k)" "cn_state k = Connecting"
    then show "j \<in> set (cl_pending ?cl) \<and> armed ?cl THeDeadline"
      using b(12) [of j k] assms(4) unfolding t by (auto split: if_splits)
  next
    fix j k assume "tracked ?cl j" "cl_objs ?cl j = Some (False, k)" "cn_state k = Connecting"
    then show "armed ?cl (TConnectDeadline j)"
      using b(13) [of j k] assms(4) unfolding t by (auto split: if_splits)
  qed
  moreover have "attempts_ok ?cl" using assms(1,5) unfolding cl_base_def attempts_ok_def t by auto
  ultimately show ?thesis using assms(1) by (simp add: cl_base_def)
qed

lemma base_close:
  assumes "cl_base cl" "r \<noteq> ConnectFailed \<or> \<not> he_mode cl \<or> cl_conn cl \<noteq> Some i"
  shows "cl_base (cl_close E r i cl)"
proof (cases "cl_objs cl i")
  case None
  then show ?thesis using assms(1) by (simp add: cl_close_def)
next
  case (Some p)
  then obtain he c where o: "cl_objs cl i = Some (he, c)" by (cases p) simp
  from o base_obj(1) [OF assms(1) o] show ?thesis
    by (cases rule: cl_close_cases [where E = E and r = r]) (use assms(1) in \<open>simp_all add: base_closed [OF assms(1) o _ _ assms(2)]\<close>)
qed

text \<open>What a close leaves alone.\<close>

lemma close_frame:
  assumes "cl_base cl"
  shows "\<exists>objs L ns. cl_close E r i cl = cl\<lparr>cl_objs := objs, cl_notify := cl_notify cl @ ns, cl_log := L\<rparr> \<and>
     dom objs = dom (cl_objs cl) \<and> (\<forall>j q. (j, q) \<in> set ns \<longrightarrow> j = i \<and> q = r)"
proof (cases "cl_objs cl i")
  case None
  then show ?thesis
    by (intro exI [of _ "cl_objs cl"] exI [of _ "cl_log cl"] exI [of _ "[]"]) (simp add: cl_close_def)
next
  case (Some p)
  then obtain he c where o: "cl_objs cl i = Some (he, c)" by (cases p) simp
  from o base_obj(1) [OF assms o] show ?thesis
  proof (cases rule: cl_close_cases [where E = E and r = r])
    case closed
    then show ?thesis
      by (intro exI [of _ "cl_objs cl"] exI [of _ "cl_log cl"] exI [of _ "[]"]) simp
  next
    case (opened L c')
    then show ?thesis
      by (intro exI [of _ "(cl_objs cl)(i \<mapsto> (he, c'))"] exI [of _ L] exI [of _ "[(i, r)]"]) (use o in auto)
  qed
qed

lemma objs_waits_drop:
  assumes "cl_base cl" "cl_objs cl' = (cl_objs cl)(i := None)" "he_mode cl' = he_mode cl" "armed cl' = armed cl"
    "cl_notify cl' = cl_notify cl" "cl_next_id cl' = cl_next_id cl"
    "\<And>j. j \<noteq> i \<Longrightarrow> cl_conn cl' = Some j \<longleftrightarrow> cl_conn cl = Some j"
    "\<And>j. j \<noteq> i \<Longrightarrow> j \<in> set (cl_pending cl') \<longleftrightarrow> j \<in> set (cl_pending cl)" "\<not> tracked cl' i"
  shows "objs_ok cl' \<and> waits_ok cl'"
proof
  have tr: "tracked cl' j \<Longrightarrow> tracked cl j \<and> j \<noteq> i" for j
    using assms(7) [of j] assms(8) [of j] assms(9) by (auto simp: tracked_def)
  show "objs_ok cl'"
  proof (rule objs_okI)
    fix j e q assume "cl_objs cl' j = Some (e, q)"
    then show "j < cl_next_id cl' \<and> conn_wf q \<and> e = he_mode cl'"
      using base_obj [OF assms(1), of j e q] by (simp add: assms(2-6) split: if_splits)
  next
    fix j q assume "(j, q) \<in> set (cl_notify cl')"
    then show "j < cl_next_id cl'" using base_notice(1) [OF assms(1), of j q] by (simp add: assms(2-6))
  next
    fix j q e k assume "(j, q) \<in> set (cl_notify cl')" "cl_objs cl' j = Some (e, k)"
    then show "cn_state k = Closed"
      using base_notice(2) [OF assms(1), of j q e k] by (simp add: assms(2-6) split: if_splits)
  next
    fix j assume "tracked cl' j"
    then show "\<exists>e k. cl_objs cl' j = Some (e, k)" using base_tracked [OF assms(1), of j] tr [of j] by (simp add: assms(2))
  next
    fix j e k assume "\<not> he_mode cl'" "cl_objs cl' j = Some (e, k)"
    then show "cl_conn cl' = Some j"
      using base_single [OF assms(1), of j e k] assms(7) [of j] by (simp add: assms(2,3) split: if_splits)
  qed
  show "waits_ok cl'"
  proof (rule waits_okI)
    fix j e k assume "tracked cl' j" "cl_objs cl' j = Some (e, k)" "cn_state k = Closed"
    then show "\<exists>q. (j, q) \<in> set (cl_notify cl')"
      using base_waits(1) [OF assms(1), of j e k] tr [of j] by (simp add: assms(2,5))
  next
    fix j k assume "tracked cl' j" "cl_objs cl' j = Some (True, k)" "cn_state k = Connecting"
    then show "j \<in> set (cl_pending cl') \<and> armed cl' THeDeadline"
      using base_waits(2) [OF assms(1), of j k] tr [of j] assms(8) [of j] by (simp add: assms(2,4))
  next
    fix j k assume "tracked cl' j" "cl_objs cl' j = Some (False, k)" "cn_state k = Connecting"
    then show "armed cl' (TConnectDeadline j)"
      using base_waits(3) [OF assms(1), of j k] tr [of j] by (simp add: assms(2,4))
  qed
qed

lemma base_drop_conn:
  assumes "cl_base cl" "cl_conn cl = Some i"
  shows "cl_base ((cl_destroy i cl)\<lparr>cl_conn := None\<rparr>)" (is "cl_base ?cl")
proof -
  have t: "he_mode ?cl = he_mode cl" "armed ?cl = armed cl" by (auto simp: he_mode_def armed_def cl_destroy_def fun_eq_iff)
  have "i \<notin> set (cl_pending cl)" using assms by (auto simp: cl_base_def attempts_ok_def)
  then have "objs_ok ?cl \<and> waits_ok ?cl"
    by (intro objs_waits_drop [OF assms(1), where i = i]) (use assms(2) in \<open>auto simp: tracked_def cl_destroy_def\<close>)
  moreover have "attempts_ok ?cl" using assms unfolding cl_base_def attempts_ok_def t by (simp add: cl_destroy_def)
  ultimately show ?thesis using assms(1) by (simp add: cl_base_def cl_destroy_def)
qed

lemma base_drop_pending:
  assumes "cl_base cl" "i \<in> set (cl_pending cl)"
  shows "cl_base ((cl_destroy i cl)\<lparr>cl_pending := remove1 i (cl_pending cl)\<rparr>)" (is "cl_base ?cl")
proof -
  have t: "he_mode ?cl = he_mode cl" "armed ?cl = armed cl" by (auto simp: he_mode_def armed_def cl_destroy_def fun_eq_iff)
  have d: "distinct (cl_pending cl)" "cl_conn cl \<noteq> Some i" using assms by (auto simp: cl_base_def attempts_ok_def)
  then have "objs_ok ?cl \<and> waits_ok ?cl"
    by (intro objs_waits_drop [OF assms(1), where i = i]) (auto simp: tracked_def cl_destroy_def)
  moreover have "attempts_ok ?cl" using assms d unfolding cl_base_def attempts_ok_def t by (auto simp: cl_destroy_def)
  ultimately show ?thesis using assms(1) by (simp add: cl_base_def cl_destroy_def)
qed

lemma base_drop_closing:
  assumes "cl_base cl" "\<not> tracked cl i"
  shows "cl_base ((cl_destroy i cl)\<lparr>cl_closing := remove1 i (cl_closing cl)\<rparr>)" (is "cl_base ?cl")
proof -
  have t: "he_mode ?cl = he_mode cl" "armed ?cl = armed cl" by (auto simp: he_mode_def armed_def cl_destroy_def fun_eq_iff)
  have "objs_ok ?cl \<and> waits_ok ?cl"
    by (intro objs_waits_drop [OF assms(1), where i = i]) (use assms(2) in \<open>auto simp: tracked_def cl_destroy_def\<close>)
  moreover have "attempts_ok ?cl" using assms unfolding cl_base_def attempts_ok_def t by (auto simp: cl_destroy_def)
  ultimately show ?thesis using assms(1) by (simp add: cl_base_def cl_destroy_def)
qed

section \<open>Connecting\<close>

text \<open>A socket the kernel creates has a non-negative descriptor.\<close>

definition kernel_fds :: "'m client_env \<Rightarrow> bool" where
  "kernel_fds E \<longleftrightarrow> (\<forall>n a fd. ce_create E n a = Inr fd \<longrightarrow> 0 \<le> fd)"

lemma conn_new_state [simp]: "cn_state (conn_new fd p b) = Connecting"
  by (simp add: conn_new_def)

lemma base_construct:
  assumes "cl_base cl" "\<not> he_mode cl" "cl_conn cl = None" "0 \<le> raw"
  shows "cl_base ((cl_construct False raw cl)\<lparr>cl_conn := Some (cl_next_id cl),
           cl_timers := cl_timers cl @ [(g, TConnectDeadline (cl_next_id cl), d)]\<rparr>)" (is "cl_base ?cl")
proof (rule baseI)
  have o: "cl_objs cl = Map.empty"
  proof
    fix i show "cl_objs cl i = None"
      using base_single [OF assms(1,2), of i] assms(3) by (cases "cl_objs cl i") auto
  qed
  have pe: "cl_pending cl = []" and ha: "cl_he_addrs cl = []" and cz: "cl_closing cl = []"
    using assms(1,2) by (auto simp: cl_base_def attempts_ok_def)
  show "objs_ok ?cl"
    by (rule objs_okI)
      (auto simp: tracked_def pe o cl_construct_def assms conn_new_wf dest: base_notice(1) [OF assms(1)] split: if_splits)
  show "waits_ok ?cl"
    by (rule waits_okI) (auto simp: tracked_def pe o cl_construct_def armed_def split: if_splits)
  show "attempts_ok ?cl" by (simp add: attempts_ok_def cl_construct_def assms(2) pe ha cz)
qed (use assms(1) in \<open>simp_all add: cl_base_def cl_construct_def\<close>)

lemma drop_old:
  fixes E :: "'m client_env"
  assumes "cl_base cl" "\<not> he_mode cl"
  defines "cl1 \<equiv> case cl_conn cl of None \<Rightarrow> cl
       | Some old \<Rightarrow> (cl_destroy old (cl_close E LocalClose old cl))\<lparr>cl_conn := None\<rparr>"
  shows "cl_base cl1 \<and> \<not> he_mode cl1 \<and> cl_conn cl1 = None"
proof (cases "cl_conn cl")
  case None
  then show ?thesis using assms by simp
next
  case (Some old)
  have b: "cl_base (cl_close E LocalClose old cl)" by (rule base_close [OF assms(1)]) simp
  obtain objs L ns where c: "cl_close E LocalClose old cl = cl\<lparr>cl_objs := objs, cl_notify := cl_notify cl @ ns, cl_log := L\<rparr>"
    using close_frame [OF assms(1)] by blast
  have "cl_base cl1" unfolding cl1_def Some option.case by (rule base_drop_conn [OF b]) (simp add: c Some)
  then show ?thesis using assms(2) by (simp add: cl1_def Some c cl_destroy_def)
qed

lemma connect_fd_inv:
  assumes "cl_base cl" "\<not> he_mode cl" "0 \<le> raw"
  shows "cl_inv (connect_fd E n raw target cl)"
proof -
  define cl1 where "cl1 = (case cl_conn cl of None \<Rightarrow> cl
       | Some old \<Rightarrow> (cl_destroy old (cl_close E LocalClose old cl))\<lparr>cl_conn := None\<rparr>)"
  have b: "cl_base cl1" "\<not> he_mode cl1" "cl_conn cl1 = None"
    using drop_old [OF assms(1,2), of E] by (simp_all add: cl1_def)
  show ?thesis
  proof (cases "ce_pool E n")
    case False
    then have "connect_fd E n raw target cl = schedule_reconnect E (cl_say (ClCloseFd raw) cl1)"
      by (simp add: connect_fd_def Let_def cl1_def)
    then show ?thesis by (simp add: schedule_inv base_say b(1))
  next
    case True
    let ?i = "cl_next_id cl1"
    define cl2 where "cl2 = cl_say (ClSubmitConnect ?i raw target)
        (set_state ClConnecting ((cl_construct False raw cl1)\<lparr>cl_conn := Some ?i\<rparr>))"
    have eq: "connect_fd E n raw target cl = cl_after (connect_budget cl2) (TConnectDeadline ?i) (cl_group cl2) cl2"
      using True by (simp add: connect_fd_def Let_def cl1_def cl2_def)
    have "cl_base (connect_fd E n raw target cl)" unfolding eq
      by (rule base_cong [OF base_construct [OF b assms(3), of "cl_group cl2" "connect_budget cl2"]])
        (simp_all add: cl2_def cl_after_def cl_construct_def he_mode_def armed_def)
    moreover have "cl_state (connect_fd E n raw target cl) \<noteq> Disconnected" unfolding eq by (simp add: cl2_def)
    moreover have "driven (connect_fd E n raw target cl)"
      unfolding eq driven_def by (auto simp: cl2_def tracked_def)
    ultimately show ?thesis by (simp add: cl_inv_def)
  qed
qed

lemma connect_next_inv: "kernel_fds E \<Longrightarrow> cl_base cl \<Longrightarrow> \<not> he_mode cl \<Longrightarrow> cl_inv (connect_next E cl)"
proof (induction E cl rule: connect_next.induct)
  case (1 E cl)
  define cl' where "cl' = cl\<lparr>cl_addr_idx := Suc (cl_addr_idx cl), cl_tries := Suc (cl_tries cl)\<rparr>"
  let ?t = "cl_addrs cl ! cl_addr_idx cl"
  have b: "cl_base cl'" by (rule base_cong [OF 1(3)]) (simp_all add: cl'_def)
  have m: "\<not> he_mode cl'" using 1(4) by (simp add: cl'_def)
  show ?case
  proof (cases "length (cl_addrs cl) \<le> cl_addr_idx cl")
    case True
    then show ?thesis by (subst connect_next.simps) (simp add: schedule_inv base_state 1(3))
  next
    case more: False
    show ?thesis
    proof (cases "ce_create E (cl_tries cl) ?t")
      case (Inl e)
      with more have "connect_next E cl = connect_next E cl'" by (subst connect_next.simps) (simp add: Let_def cl'_def)
      moreover have "cl_inv (connect_next E cl')"
        using 1(1) [OF more refl refl refl, of e] Inl 1(2) b m by (simp add: cl'_def)
      ultimately show ?thesis by simp
    next
      case (Inr raw)
      with more have "connect_next E cl = connect_fd E (cl_tries cl) raw ?t cl'"
        by (subst connect_next.simps) (simp add: Let_def cl'_def)
      moreover have "0 \<le> raw" using 1(2) Inr by (auto simp: kernel_fds_def)
      ultimately show ?thesis by (simp add: connect_fd_inv b m)
    qed
  qed
qed

text \<open>An attempt of Happy Eyeballs runs under the deadline of its set.\<close>

lemma base_attempt:
  assumes "cl_base cl" "he_mode cl" "armed cl THeDeadline" "\<not> cl_he_won cl" "0 \<le> raw" "cl_he_addrs cl \<noteq> []"
  shows "cl_base ((cl_construct True raw cl)\<lparr>cl_pending := cl_pending cl @ [cl_next_id cl]\<rparr>)" (is "cl_base ?cl")
proof (rule baseI)
  let ?i = "cl_next_id cl"
  have t: "he_mode ?cl = he_mode cl" "armed ?cl = armed cl" "cl_conn ?cl = cl_conn cl" "cl_notify ?cl = cl_notify cl"
    by (simp_all add: he_mode_def armed_def cl_construct_def fun_eq_iff)
  have new: "cl_objs cl ?i = None" using base_obj(2) [OF assms(1), of ?i] by (cases "cl_objs cl ?i") auto
  have tr: "tracked ?cl j \<longleftrightarrow> j = ?i \<or> tracked cl j" for j by (auto simp: tracked_def cl_construct_def)
  have old: "tracked cl j \<Longrightarrow> j \<noteq> ?i" for j using base_tracked [OF assms(1), of j] new by auto
  show "objs_ok ?cl"
  proof (rule objs_okI)
    fix j e q assume "cl_objs ?cl j = Some (e, q)"
    then show "j < cl_next_id ?cl \<and> conn_wf q \<and> e = he_mode ?cl"
      using base_obj [OF assms(1), of j e q] assms(2,5) unfolding t
      by (cases "j = ?i") (auto simp: cl_construct_def conn_new_wf)
  next
    fix j q assume "(j, q) \<in> set (cl_notify ?cl)"
    then show "j < cl_next_id ?cl" using base_notice(1) [OF assms(1), of j q] by (simp add: t cl_construct_def)
  next
    fix j q e k assume "(j, q) \<in> set (cl_notify ?cl)" "cl_objs ?cl j = Some (e, k)"
    then show "cn_state k = Closed"
      using base_notice [OF assms(1), of j q] unfolding t by (cases "j = ?i") (auto simp: cl_construct_def)
  next
    fix j assume "tracked ?cl j"
    then show "\<exists>e k. cl_objs ?cl j = Some (e, k)"
      using base_tracked [OF assms(1), of j] unfolding tr by (cases "j = ?i") (auto simp: cl_construct_def)
  qed (use assms(2) t in simp)
  show "waits_ok ?cl"
  proof (rule waits_okI)
    fix j e k assume "tracked ?cl j" "cl_objs ?cl j = Some (e, k)" "cn_state k = Closed"
    then show "\<exists>q. (j, q) \<in> set (cl_notify ?cl)"
      using base_waits(1) [OF assms(1), of j e k] unfolding tr t by (cases "j = ?i") (auto simp: cl_construct_def)
  next
    fix j k assume "tracked ?cl j" "cl_objs ?cl j = Some (True, k)" "cn_state k = Connecting"
    then show "j \<in> set (cl_pending ?cl) \<and> armed ?cl THeDeadline"
      using base_waits(2) [OF assms(1), of j k] assms(3) unfolding tr t by (cases "j = ?i") (auto simp: cl_construct_def)
  next
    fix j k assume "tracked ?cl j" "cl_objs ?cl j = Some (False, k)"
    then show "armed ?cl (TConnectDeadline j)"
      using base_obj(3) [OF assms(1), of j False k] assms(2) by (cases "j = ?i") (auto simp: cl_construct_def)
  qed
  have "?i \<notin> set (cl_pending cl)" "cl_conn cl \<noteq> Some ?i" using old [of ?i] by (auto simp: tracked_def)
  then show "attempts_ok ?cl"
    using assms(1-4,6) unfolding cl_base_def attempts_ok_def t by (auto simp: cl_construct_def)
qed (use assms(1) in \<open>simp_all add: cl_base_def cl_construct_def\<close>)

lemma base_armed: "cl_base cl \<Longrightarrow> \<not> cl_he_won cl \<Longrightarrow> cl_he_next cl < length (cl_he_addrs cl) \<Longrightarrow> armed cl THeDeadline"
  by (simp add: cl_base_def attempts_ok_def)

lemma he_started_inv:
  assumes "cl_base cl" "he_mode cl" "armed cl THeDeadline" "\<not> cl_he_won cl" "0 \<le> raw" "cl_he_addrs cl \<noteq> []"
  shows "cl_inv (he_started (cl_next_id cl) raw target cl)"
proof -
  have "cl_base (he_started (cl_next_id cl) raw target cl)"
    unfolding he_started_def by (intro base_say base_state base_attempt assms)
  then show ?thesis by (auto simp: cl_inv_def he_started_def driven_def tracked_def)
qed

lemma launch_inv:
  "kernel_fds E \<Longrightarrow> cl_base cl \<Longrightarrow> he_mode cl \<Longrightarrow>
     cl_inv cl \<or> \<not> cl_he_won cl \<and> cl_he_next cl < length (cl_he_addrs cl) \<and> cl_pending cl = [] \<Longrightarrow>
     cl_inv (he_launch E cl)"
  "kernel_fds E \<Longrightarrow> cl_base cl \<Longrightarrow> he_mode cl \<Longrightarrow> cl_inv cl \<or> \<not> cl_he_won cl \<and> cl_pending cl = [] \<Longrightarrow>
     cl_inv (he_attempt_done E cl)"
proof (induction E cl and E cl rule: he_launch_he_attempt_done.induct)
  case (1 E cl)
  define cl' where "cl' = cl\<lparr>cl_he_next := Suc (cl_he_next cl), cl_tries := Suc (cl_tries cl)\<rparr>"
  let ?t = "cl_he_addrs cl ! cl_he_next cl" and ?n = "cl_tries cl"
  show ?case
  proof (cases "cl_he_won cl \<or> length (cl_he_addrs cl) \<le> cl_he_next cl")
    case True
    then show ?thesis using 1(6) by (subst he_launch.simps) auto
  next
    case go: False
    have armed: "armed cl THeDeadline" using base_armed [OF 1(4)] go by simp
    have "objs_ok cl' \<and> waits_ok cl'" by (rule objs_waits_cong [OF 1(4)]) (simp_all add: cl'_def)
    moreover have "attempts_ok cl'" using 1(4) go unfolding cl_base_def attempts_ok_def by (simp add: cl'_def armed)
    ultimately have b: "cl_base cl'" using 1(4) by (simp add: cl_base_def cl'_def)
    have m: "he_mode cl'" "armed cl' THeDeadline" "\<not> cl_he_won cl'" "cl_he_addrs cl' \<noteq> []"
      using 1(5) armed go by (auto simp: cl'_def)
    have d: "cl_inv cl' \<or> \<not> cl_he_won cl' \<and> cl_pending cl' = []"
      using 1(6) b go by (auto simp: cl_inv_def driven_def cl'_def)
    show ?thesis
    proof (cases "ce_create E ?n ?t")
      case (Inl e)
      with go have "he_launch E cl = he_attempt_done E cl'" by (subst he_launch.simps) (simp add: Let_def cl'_def)
      moreover have "cl_inv (he_attempt_done E cl')"
        using 1(1) [OF go refl refl refl, of e] Inl 1(3) b m d by (simp add: cl'_def)
      ultimately show ?thesis by simp
    next
      case (Inr raw)
      have raw: "0 \<le> raw" using 1(3) Inr by (auto simp: kernel_fds_def)
      show ?thesis
      proof (cases "ce_pool E ?n")
        case True
        with go Inr have "he_launch E cl = he_started (cl_next_id cl') raw ?t cl'"
          by (subst he_launch.simps) (simp add: Let_def cl'_def)
        then show ?thesis by (simp add: he_started_inv b m raw)
      next
        case False
        let ?c = "cl_say (ClCloseFd raw) cl'"
        have "he_launch E cl = he_attempt_done E ?c"
          using go Inr False by (subst he_launch.simps) (simp add: Let_def cl'_def)
        moreover have "cl_inv ?c \<or> \<not> cl_he_won ?c \<and> cl_pending ?c = []" using d by (auto simp: cl_inv_def base_say)
        ultimately show ?thesis
          using 1(2) [OF go refl refl refl Inr] False 1(3) base_say [OF b] m by (simp add: cl'_def)
      qed
    qed
  qed
next
  case (2 E cl)
  show ?case
  proof (cases "cl_he_won cl \<or> cl_pending cl \<noteq> []")
    case True
    then show ?thesis using 2(5) by (subst he_attempt_done.simps) auto
  next
    case False
    then show ?thesis
      using 2 by (subst he_attempt_done.simps) (auto intro: schedule_inv base_state)
  qed
qed

lemma inv_after: "cl_inv cl \<Longrightarrow> cl_inv (cl_after d t g cl)"
  by (auto simp: cl_inv_def driven_def base_after)

lemma stagger_inv: "cl_inv cl \<Longrightarrow> cl_inv (arm_stagger cl)"
  by (simp add: arm_stagger_def inv_after)

lemma he_order_length: "length (he_order as) = length as"
proof -
  have "size (mset (he_order as)) = size (mset as)"
    by (simp add: he_order_def he_interleave_mset flip: multiset_partition)
  then show ?thesis by simp
qed

lemma he_begin_inv:
  assumes "kernel_fds E" "cl_base cl" "he_mode cl" "cl_pending cl = [] \<or> cl_state cl \<noteq> Disconnected"
  shows "cl_inv (he_begin E cl)"
proof -
  let ?g = "cl_groups cl"
  define cl1 where "cl1 = cl\<lparr>cl_he_won := False, cl_he_next := 0, cl_he_group := Some ?g, cl_groups := Suc ?g,
                 cl_he_addrs := he_order (cl_addrs cl)\<rparr>"
  define cl2 where "cl2 = cl_after (connect_budget cl1) THeDeadline ?g cl1"
  have "length (he_order (cl_addrs cl)) > 1" using assms(3) by (simp add: he_order_length he_mode_def)
  then have ne: "cl_he_addrs cl1 \<noteq> []" "he_order (cl_addrs cl) \<noteq> []" by (auto simp: cl1_def)
  then have eq: "he_begin E cl = arm_stagger (he_launch E cl2)" by (simp add: he_begin_def Let_def cl1_def cl2_def)
  have "objs_ok cl2 \<and> waits_ok cl2"
    by (rule objs_waits_cong [OF assms(2)]) (simp_all add: cl2_def cl1_def)
  moreover have "attempts_ok cl2"
    using assms(2,3) ne(2) unfolding cl_base_def attempts_ok_def by (simp add: cl2_def cl1_def)
  ultimately have b: "cl_base cl2" using assms(2) by (simp add: cl_base_def cl2_def cl1_def)
  have m: "he_mode cl2" using assms(3) by (simp add: cl2_def cl1_def)
  have "cl_inv cl2 \<or> \<not> cl_he_won cl2 \<and> cl_he_next cl2 < length (cl_he_addrs cl2) \<and> cl_pending cl2 = []"
  proof (cases "cl_pending cl = []")
    case True
    then show ?thesis using ne by (simp add: cl2_def cl1_def)
  next
    case False
    then obtain i where "i \<in> set (cl_pending cl)" by (cases "cl_pending cl") auto
    then have "tracked cl2 i" by (simp add: tracked_def cl2_def cl1_def)
    moreover have "cl_state cl2 \<noteq> Disconnected" using assms(4) False by (simp add: cl2_def cl1_def)
    ultimately show ?thesis using b by (auto simp: cl_inv_def driven_def)
  qed
  then show ?thesis unfolding eq by (intro stagger_inv launch_inv(1) assms(1) b m)
qed

lemma begin_connect_inv:
  assumes "kernel_fds E" "cl_base cl" "cl_pending cl = [] \<or> cl_state cl \<noteq> Disconnected"
  shows "cl_inv (begin_connect E cl)"
proof -
  have "cl_base (cl\<lparr>cl_addr_idx := 0\<rparr>)" by (rule base_cong [OF assms(2)]) simp_all
  then show ?thesis
    using he_begin_inv [OF assms(1), of "cl\<lparr>cl_addr_idx := 0\<rparr>"] connect_next_inv [OF assms(1), of "cl\<lparr>cl_addr_idx := 0\<rparr>"]
      assms(3) by (auto simp: begin_connect_def Let_def he_mode_def)
qed

section \<open>A connection that is gone\<close>

lemma base_pop:
  assumes "cl_base cl" "cl_notify cl = (i, r) # ns" "\<not> tracked cl i"
  shows "cl_base (cl\<lparr>cl_notify := ns\<rparr>)" (is "cl_base ?cl")
proof (rule baseI)
  note b = base_obj [OF assms(1)] base_tracked [OF assms(1)] base_single [OF assms(1)]
  show "objs_ok ?cl"
  proof (rule objs_okI)
    fix j q assume "(j, q) \<in> set (cl_notify ?cl)"
    then show "j < cl_next_id ?cl" using base_notice(1) [OF assms(1), of j q] assms(2) by simp
  next
    fix j q e k assume "(j, q) \<in> set (cl_notify ?cl)" "cl_objs ?cl j = Some (e, k)"
    then show "cn_state k = Closed" using base_notice(2) [OF assms(1), of j q e k] assms(2) by simp
  qed (use b in auto)
  show "waits_ok ?cl"
  proof (rule waits_okI)
    fix j e k assume "tracked ?cl j" "cl_objs ?cl j = Some (e, k)" "cn_state k = Closed"
    then show "\<exists>q. (j, q) \<in> set (cl_notify ?cl)"
      using base_waits(1) [OF assms(1), of j e k] assms(2,3) by auto
  qed (use base_waits(2,3) [OF assms(1)] in auto)
  show "attempts_ok ?cl" using assms(1,2) unfolding cl_base_def attempts_ok_def by simp
qed (use assms(1) in \<open>simp_all add: cl_base_def\<close>)

lemma schedule_fields [simp]:
  "cl_he_addrs (schedule_reconnect E cl) = cl_he_addrs cl" "he_mode (schedule_reconnect E cl) = he_mode cl"
  "cc_happy_eyeballs (cl_cfg (schedule_reconnect E cl)) = cc_happy_eyeballs (cl_cfg cl)"
  by (simp_all add: schedule_reconnect_def Let_def case_prod_beta he_mode_def)

lemma launch_fields:
  "cl_he_addrs (he_launch E cl) = cl_he_addrs cl \<and>
   cc_happy_eyeballs (cl_cfg (he_launch E cl)) = cc_happy_eyeballs (cl_cfg cl)"
  "cl_he_addrs (he_attempt_done E cl) = cl_he_addrs cl \<and>
   cc_happy_eyeballs (cl_cfg (he_attempt_done E cl)) = cc_happy_eyeballs (cl_cfg cl)"
proof (induction E cl and E cl rule: he_launch_he_attempt_done.induct)
  case (1 E cl)
  then show ?case
    by (subst (1 2) he_launch.simps)
      (auto simp: Let_def he_started_def cl_construct_def split: sum.splits)
next
  case (2 E cl)
  then show ?case by (subst (1 2) he_attempt_done.simps) auto
qed

text \<open>Forgetting a connection together with the notification about it.\<close>

lemma gone_conn_inv:
  assumes "kernel_fds E" "cl_inv cl" "cl_notify cl = (i, r) # ns" "cl_conn cl = Some i"
  shows "cl_inv (on_conn_gone E i r (cl\<lparr>cl_notify := ns\<rparr>))"
proof -
  have b: "cl_base cl" and st: "cl_state cl \<noteq> Disconnected" using assms(2) by (simp_all add: cl_inv_def)
  define cl1 where "cl1 = (cl_destroy i cl)\<lparr>cl_conn := None\<rparr>"
  define cl2 where "cl2 = cl1\<lparr>cl_notify := ns\<rparr>"
  have b1: "cl_base cl1" unfolding cl1_def by (rule base_drop_conn [OF b assms(4)])
  have "i \<notin> set (cl_pending cl)" using b assms(4) by (auto simp: cl_base_def attempts_ok_def)
  then have "\<not> tracked cl1 i" by (simp add: tracked_def cl1_def cl_destroy_def)
  then have b2: "cl_base cl2"
    unfolding cl2_def by (intro base_pop [OF b1, of i r]) (simp_all add: cl1_def cl_destroy_def assms(3))
  have f: "he_mode cl2 = he_mode cl" "cl_he_addrs cl2 = cl_he_addrs cl" "cl_state cl2 = cl_state cl"
    "cl_cfg cl2 = cl_cfg cl" by (simp_all add: cl2_def cl1_def cl_destroy_def)
  have eq: "on_conn_gone E i r (cl\<lparr>cl_notify := ns\<rparr>) =
      (if r = ConnectFailed then if \<not> cc_happy_eyeballs (cl_cfg cl) \<or> cl_he_addrs cl = [] then connect_next E cl2 else cl2
       else schedule_reconnect E cl2)"
  proof -
    have "cl2 = (cl_destroy i (cl\<lparr>cl_notify := ns\<rparr>))\<lparr>cl_conn := None\<rparr>"
      by (simp add: cl2_def cl1_def cl_destroy_def)
    with st assms(4) show ?thesis by (simp add: on_conn_gone_def) (auto simp: cl_destroy_def)
  qed
  show ?thesis
  proof (cases "r = ConnectFailed")
    case False
    then show ?thesis by (simp add: eq schedule_inv b2)
  next
    case True
    then have "\<not> he_mode cl" using b assms(3,4) by (auto simp: cl_base_def attempts_ok_def)
    moreover have "cl_he_addrs cl = []" using b calculation by (auto simp: cl_base_def attempts_ok_def)
    ultimately show ?thesis using connect_next_inv [OF assms(1) b2] True unfolding eq by (simp add: f)
  qed
qed

lemma gone_pending_inv:
  assumes "kernel_fds E" "cl_inv cl" "cl_notify cl = (i, r) # ns" "i \<in> set (cl_pending cl)"
  shows "cl_inv (on_conn_gone E i r (cl\<lparr>cl_notify := ns\<rparr>))"
proof -
  have b: "cl_base cl" and st: "cl_state cl \<noteq> Disconnected" using assms(2) by (simp_all add: cl_inv_def)
  define cl1 where "cl1 = (cl_destroy i cl)\<lparr>cl_pending := remove1 i (cl_pending cl)\<rparr>"
  define cl2 where "cl2 = cl1\<lparr>cl_notify := ns\<rparr>"
  define cl3 where "cl3 = he_attempt_done E cl2"
  have b1: "cl_base cl1" unfolding cl1_def by (rule base_drop_pending [OF b assms(4)])
  have a: "cl_conn cl \<noteq> Some i" "distinct (cl_pending cl)" "\<not> cl_he_won cl" "he_mode cl" "cl_he_addrs cl \<noteq> []"
    using b assms(4) by (auto simp: cl_base_def attempts_ok_def)
  then have "\<not> tracked cl1 i" by (simp add: tracked_def cl1_def cl_destroy_def)
  then have b2: "cl_base cl2"
    unfolding cl2_def by (intro base_pop [OF b1, of i r]) (simp_all add: cl1_def cl_destroy_def assms(3))
  have f: "he_mode cl2" "cl_he_addrs cl2 = cl_he_addrs cl" "cl_state cl2 = cl_state cl" "cl_cfg cl2 = cl_cfg cl"
    "\<not> cl_he_won cl2" using a by (simp_all add: cl2_def cl1_def cl_destroy_def)
  have "cl_inv cl2 \<or> \<not> cl_he_won cl2 \<and> cl_pending cl2 = []"
    using b2 st f by (cases "cl_pending cl2") (auto simp: cl_inv_def driven_def tracked_def)
  then have i3: "cl_inv cl3" unfolding cl3_def by (rule launch_inv(2) [OF assms(1) b2 f(1)])
  have h3: "cl_he_addrs cl3 \<noteq> []" "cc_happy_eyeballs (cl_cfg cl3)"
    using launch_fields(2) [of E cl2] f a by (auto simp: cl3_def he_mode_def)
  have "on_conn_gone E i r (cl\<lparr>cl_notify := ns\<rparr>) =
      (if r = ConnectFailed then cl3 else if cl_state cl3 \<noteq> Disconnected then schedule_reconnect E cl3 else cl3)"
  proof -
    have "cl2 = (cl_destroy i (cl\<lparr>cl_notify := ns\<rparr>))\<lparr>cl_pending := remove1 i (cl_pending cl)\<rparr>"
      by (simp add: cl2_def cl1_def cl_destroy_def)
    with a(1) assms(4) h3 show ?thesis by (simp add: on_conn_gone_def reclaim_attempt_def cl3_def)
  qed
  with i3 show ?thesis by (auto simp: schedule_inv cl_inv_def [of cl3])
qed

lemma gone_other_inv:
  assumes "kernel_fds E" "cl_inv cl" "cl_notify cl = (i, r) # ns" "\<not> tracked cl i"
  shows "cl_inv (on_conn_gone E i r (cl\<lparr>cl_notify := ns\<rparr>))"
proof -
  have b: "cl_base cl" and st: "cl_state cl \<noteq> Disconnected" and dr: "driven cl" using assms(2) by (simp_all add: cl_inv_def)
  have nt: "cl_conn cl \<noteq> Some i" "i \<notin> set (cl_pending cl)" using assms(4) by (auto simp: tracked_def)
  define cl0 where "cl0 = cl\<lparr>cl_notify := ns\<rparr>"
  have b0: "cl_base cl0" unfolding cl0_def by (rule base_pop [OF b assms(3,4)])
  define cl1 where "cl1 = (cl_destroy i cl0)\<lparr>cl_closing := remove1 i (cl_closing cl0)\<rparr>"
  have b1: "cl_base cl1" unfolding cl1_def by (rule base_drop_closing [OF b0]) (simp add: cl0_def assms(4))
  have i1: "cl_inv cl1" "cl_inv cl0"
    using b0 b1 st dr by (simp_all add: cl_inv_def driven_def cl1_def cl0_def cl_destroy_def)
  have f: "he_mode cl1 = he_mode cl" "cl_he_addrs cl1 = cl_he_addrs cl" "cl_cfg cl1 = cl_cfg cl"
    "cl_state cl1 = cl_state cl" by (simp_all add: cl1_def cl0_def cl_destroy_def)
  show ?thesis
  proof (cases "i \<in> set (cl_closing cl)")
    case False
    then have "on_conn_gone E i r cl0 = cl0"
      using nt by (simp add: on_conn_gone_def reclaim_attempt_def cl0_def)
    then show ?thesis using i1(2) by (simp add: cl0_def)
  next
    case True
    then have "cl_he_addrs cl \<noteq> []" "he_mode cl" using b by (auto simp: cl_base_def attempts_ok_def)
    moreover have "on_conn_gone E i r cl0 = (if r = ConnectFailed
        then (if \<not> cc_happy_eyeballs (cl_cfg cl1) \<or> cl_he_addrs cl1 = [] then connect_next E cl1 else cl1)
        else if cl_state cl1 \<noteq> Disconnected then schedule_reconnect E cl1 else cl1)"
    proof -
      have "cl_conn cl0 \<noteq> Some i" "i \<notin> set (cl_pending cl0)" "i \<in> set (cl_closing cl0)"
        using True nt by (simp_all add: cl0_def)
      then show ?thesis by (simp only: on_conn_gone_def reclaim_attempt_def cl1_def [symmetric]) simp
    qed
    ultimately have "on_conn_gone E i r cl0 = (if r = ConnectFailed then cl1
        else if cl_state cl1 \<noteq> Disconnected then schedule_reconnect E cl1 else cl1)"
      using f by (simp add: he_mode_def)
    with i1(1) schedule_inv [OF b1, of E] show ?thesis by (simp add: cl0_def [symmetric])
  qed
qed

lemma gone_inv:
  assumes "kernel_fds E" "cl_inv cl" "cl_notify cl = (i, r) # ns"
  shows "cl_inv (on_conn_gone E i r (cl\<lparr>cl_notify := ns\<rparr>))"
proof (cases "tracked cl i")
  case False
  then show ?thesis by (rule gone_other_inv [OF assms])
next
  case True
  then show ?thesis using gone_conn_inv [OF assms] gone_pending_inv [OF assms] by (auto simp: tracked_def)
qed

section \<open>Closing several connections\<close>

text \<open>\<open>shut is cl cl'\<close>: \<open>cl'\<close> is \<open>cl\<close> with some connections of \<open>is\<close> closed for the reason \<open>r\<close>.\<close>

definition shut :: "close_reason \<Rightarrow> nat set \<Rightarrow> 'm client \<Rightarrow> 'm client \<Rightarrow> bool" where
  "shut r is cl cl' \<longleftrightarrow>
     (\<exists>objs ns L. cl' = cl\<lparr>cl_objs := objs, cl_notify := cl_notify cl @ ns, cl_log := L\<rparr> \<and>
        (\<forall>j q. (j, q) \<in> set ns \<longrightarrow> j \<in> is \<and> q = r \<and> cl_objs cl j \<noteq> None) \<and>
        (\<forall>j. j \<notin> is \<longrightarrow> objs j = cl_objs cl j) \<and>
        (\<forall>j. objs j = None \<longleftrightarrow> cl_objs cl j = None) \<and>
        (\<forall>j he c. objs j = Some (he, c) \<longrightarrow> j \<in> is \<longrightarrow>
           conn_wf c \<and> cn_state c = Closed \<and>
           (\<exists>c0. cl_objs cl j = Some (he, c0) \<and> (cn_state c0 = Closed \<or> (\<exists>q. (j, q) \<in> set ns)))))"

lemma shut_close:
  assumes "\<And>he c. cl_objs cl i = Some (he, c) \<Longrightarrow> conn_wf c"
  shows "shut r {i} cl (cl_close E r i cl)"
proof (cases "cl_objs cl i")
  case None
  then show ?thesis
    unfolding shut_def
    by (intro exI [of _ "cl_objs cl"] exI [of _ "[] :: (nat \<times> close_reason) list"] exI [of _ "cl_log cl"]) (auto simp: cl_close_def)
next
  case (Some p)
  then obtain he c where o: "cl_objs cl i = Some (he, c)" by (cases p) simp
  have wf: "conn_wf c" by (rule assms [OF o])
  from o wf show ?thesis
  proof (cases rule: cl_close_cases [where E = E and r = r])
    case closed
    then show ?thesis
      unfolding shut_def
      by (intro exI [of _ "cl_objs cl"] exI [of _ "[] :: (nat \<times> close_reason) list"] exI [of _ "cl_log cl"]) (use o wf in auto)
  next
    case (opened L c')
    then show ?thesis
      unfolding shut_def
      by (intro exI [of _ "(cl_objs cl)(i \<mapsto> (he, c'))"] exI [of _ "[(i, r)]"] exI [of _ L]) (use o in auto)
  qed
qed

lemma shut_trans:
  assumes "shut r A cl cl1" "shut r B cl1 cl2"
  shows "shut r (A \<union> B) cl cl2"
proof -
  obtain o1 n1 L1 where 1: "cl1 = cl\<lparr>cl_objs := o1, cl_notify := cl_notify cl @ n1, cl_log := L1\<rparr>"
    "\<And>j q. (j, q) \<in> set n1 \<Longrightarrow> j \<in> A \<and> q = r \<and> cl_objs cl j \<noteq> None" "\<And>j. j \<notin> A \<Longrightarrow> o1 j = cl_objs cl j"
    "\<And>j. o1 j = None \<longleftrightarrow> cl_objs cl j = None"
    "\<And>j he c. o1 j = Some (he, c) \<Longrightarrow> j \<in> A \<Longrightarrow> conn_wf c \<and> cn_state c = Closed \<and>
       (\<exists>c0. cl_objs cl j = Some (he, c0) \<and> (cn_state c0 = Closed \<or> (\<exists>q. (j, q) \<in> set n1)))"
    using assms(1) unfolding shut_def by blast
  obtain o2 n2 L2 where 2: "cl2 = cl1\<lparr>cl_objs := o2, cl_notify := cl_notify cl1 @ n2, cl_log := L2\<rparr>"
    "\<And>j q. (j, q) \<in> set n2 \<Longrightarrow> j \<in> B \<and> q = r \<and> o1 j \<noteq> None" "\<And>j. j \<notin> B \<Longrightarrow> o2 j = o1 j"
    "\<And>j. o2 j = None \<longleftrightarrow> o1 j = None"
    "\<And>j he c. o2 j = Some (he, c) \<Longrightarrow> j \<in> B \<Longrightarrow> conn_wf c \<and> cn_state c = Closed \<and>
       (\<exists>c0. o1 j = Some (he, c0) \<and> (cn_state c0 = Closed \<or> (\<exists>q. (j, q) \<in> set n2)))"
    using assms(2) unfolding shut_def 1(1) by auto
  show ?thesis
    unfolding shut_def
  proof (rule exI [of _ o2], rule exI [of _ "n1 @ n2"], rule exI [of _ L2], intro conjI allI impI)
    show "cl2 = cl\<lparr>cl_objs := o2, cl_notify := cl_notify cl @ (n1 @ n2), cl_log := L2\<rparr>" by (simp add: 1(1) 2(1))
  next
    fix j he c assume o: "o2 j = Some (he, c)" and j: "j \<in> A \<union> B"
    have "conn_wf c \<and> cn_state c = Closed"
      using 1(5) [of j he c] 2(5) [OF o] 2(3) [of j] o j by (cases "j \<in> B") auto
    then show "conn_wf c" "cn_state c = Closed" by simp_all
    show "\<exists>c0. cl_objs cl j = Some (he, c0) \<and> (cn_state c0 = Closed \<or> (\<exists>q. (j, q) \<in> set (n1 @ n2)))"
    proof (cases "j \<in> B")
      case True
      then obtain c1 where c1: "o1 j = Some (he, c1)" "cn_state c1 = Closed \<or> (\<exists>q. (j, q) \<in> set n2)"
        using 2(5) [OF o] by blast
      then show ?thesis using 1(5) [OF c1(1)] 1(3) [of j] by (cases "j \<in> A") auto
    next
      case False
      then show ?thesis using 2(3) [of j] o j 1(5) [of j he c] by auto
    qed
  qed (use 1 2 in auto)
qed

lemma shut_frame:
  assumes "shut r is cl cl'"
  shows "cl_conn cl' = cl_conn cl" "cl_pending cl' = cl_pending cl" "cl_timers cl' = cl_timers cl"
    "cl_state cl' = cl_state cl" "cl_cfg cl' = cl_cfg cl" "cl_next_id cl' = cl_next_id cl"
    "cl_he_won cl' = cl_he_won cl" "cl_he_next cl' = cl_he_next cl" "cl_he_addrs cl' = cl_he_addrs cl"
    "cl_resolving cl' = cl_resolving cl" "cl_closing cl' = cl_closing cl" "cl_addrs cl' = cl_addrs cl"
    "cl_he_group cl' = cl_he_group cl"
  using assms unfolding shut_def by auto

lemma shut_objs:
  assumes "shut r is cl cl'"
  shows "j \<notin> is \<Longrightarrow> cl_objs cl' j = cl_objs cl j" "cl_objs cl' j = None \<longleftrightarrow> cl_objs cl j = None"
    "cl_objs cl' j = Some (he, c) \<Longrightarrow> j \<in> is \<Longrightarrow> conn_wf c \<and> cn_state c = Closed \<and> (\<exists>c0. cl_objs cl j = Some (he, c0) \<and>
       (cn_state c0 = Closed \<or> (\<exists>q. (j, q) \<in> set (cl_notify cl'))))"
    "(j, q) \<in> set (cl_notify cl') \<Longrightarrow> (j, q) \<in> set (cl_notify cl) \<or> j \<in> is \<and> q = r \<and> cl_objs cl j \<noteq> None"
    "(j, q) \<in> set (cl_notify cl) \<Longrightarrow> (j, q) \<in> set (cl_notify cl')"
proof -
  obtain objs ns L where f: "cl' = cl\<lparr>cl_objs := objs, cl_notify := cl_notify cl @ ns, cl_log := L\<rparr>"
    "\<forall>j q. (j, q) \<in> set ns \<longrightarrow> j \<in> is \<and> q = r \<and> cl_objs cl j \<noteq> None" "\<forall>j. j \<notin> is \<longrightarrow> objs j = cl_objs cl j"
    "\<forall>j. objs j = None \<longleftrightarrow> cl_objs cl j = None"
    "\<forall>j he c. objs j = Some (he, c) \<longrightarrow> j \<in> is \<longrightarrow> conn_wf c \<and> cn_state c = Closed \<and>
       (\<exists>c0. cl_objs cl j = Some (he, c0) \<and> (cn_state c0 = Closed \<or> (\<exists>q. (j, q) \<in> set ns)))"
    using assms unfolding shut_def by blast
  show "j \<notin> is \<Longrightarrow> cl_objs cl' j = cl_objs cl j" "cl_objs cl' j = None \<longleftrightarrow> cl_objs cl j = None"
    "(j, q) \<in> set (cl_notify cl') \<Longrightarrow> (j, q) \<in> set (cl_notify cl) \<or> j \<in> is \<and> q = r \<and> cl_objs cl j \<noteq> None"
    "(j, q) \<in> set (cl_notify cl) \<Longrightarrow> (j, q) \<in> set (cl_notify cl')"
    using f(1-4) by auto
  assume "cl_objs cl' j = Some (he, c)" "j \<in> is"
  then have "objs j = Some (he, c)" by (simp add: f(1))
  then show "conn_wf c \<and> cn_state c = Closed \<and> (\<exists>c0. cl_objs cl j = Some (he, c0) \<and>
       (cn_state c0 = Closed \<or> (\<exists>q. (j, q) \<in> set (cl_notify cl'))))"
    using f(5) \<open>j \<in> is\<close> by (fastforce simp: f(1))
qed

lemma shut_wf:
  assumes "shut r is cl cl'" "\<And>j he c. cl_objs cl j = Some (he, c) \<Longrightarrow> conn_wf c" "cl_objs cl' j = Some (he, c)"
  shows "conn_wf c"
  using shut_objs(1) [OF assms(1), of j] shut_objs(3) [OF assms(1,3)] assms(2) [of j he c] assms(3)
  by (cases "j \<in> is") auto

lemma shut_refl: "shut r {} cl cl"
  unfolding shut_def
  by (intro exI [of _ "cl_objs cl"] exI [of _ "[] :: (nat \<times> close_reason) list"] exI [of _ "cl_log cl"]) simp

lemma shut_fold:
  "(\<And>j he c. cl_objs cl j = Some (he, c) \<Longrightarrow> conn_wf c) \<Longrightarrow> shut r (set is) cl (fold (cl_close E r) is cl)"
proof (induction "is" arbitrary: cl)
  case Nil
  show ?case by (simp add: shut_refl)
next
  case (Cons i "is")
  have 1: "shut r {i} cl (cl_close E r i cl)" by (rule shut_close) (rule Cons.prems)
  have "shut r (set is) (cl_close E r i cl) (fold (cl_close E r) is (cl_close E r i cl))"
    by (rule Cons.IH) (rule shut_wf [OF 1 Cons.prems])
  from shut_trans [OF 1 this] show ?case by simp
qed

lemma base_shut:
  assumes "cl_base cl" "shut r is cl0 cl'"
    and same: "cl_objs cl0 = cl_objs cl" "cl_next_id cl0 = cl_next_id cl" "cl_notify cl0 = cl_notify cl"
      "cl_conn cl0 = cl_conn cl" "cl_pending cl0 = cl_pending cl" "cl_closing cl0 = cl_closing cl"
      "cl_resolving cl0 = cl_resolving cl" "cl_cfg cl0 = cl_cfg cl" "cl_addrs cl0 = cl_addrs cl"
      "cl_he_addrs cl0 = cl_he_addrs cl" "cl_he_won cl0 = cl_he_won cl"
    and r: "r \<noteq> ConnectFailed \<or> \<not> he_mode cl \<or> (\<forall>i\<in>is. cl_conn cl \<noteq> Some i)"
    and he: "\<And>j c. tracked cl j \<Longrightarrow> j \<notin> is \<Longrightarrow> cl_objs cl j = Some (True, c) \<Longrightarrow> cn_state c = Connecting \<Longrightarrow>
        armed cl0 THeDeadline"
    and seq: "\<And>j c. tracked cl j \<Longrightarrow> j \<notin> is \<Longrightarrow> cl_objs cl j = Some (False, c) \<Longrightarrow> cn_state c = Connecting \<Longrightarrow>
        armed cl0 (TConnectDeadline j)"
    and set: "\<not> cl_he_won cl \<Longrightarrow> cl_he_next cl0 < length (cl_he_addrs cl) \<Longrightarrow> armed cl0 THeDeadline"
  shows "cl_base cl'"
proof (rule baseI)
  note f = shut_frame [OF assms(2), unfolded same] and o = shut_objs [OF assms(2), unfolded same]
  have t: "tracked cl' = tracked cl" "he_mode cl' = he_mode cl" "armed cl' = armed cl0"
    by (auto simp: tracked_def he_mode_def armed_def f fun_eq_iff)
  show "objs_ok cl'"
  proof (rule objs_okI)
    fix j e q assume c: "cl_objs cl' j = Some (e, q)"
    obtain q0 where q0: "cl_objs cl j = Some (e, q0)" "j \<notin> is \<Longrightarrow> q0 = q"
      using o(1) [of j] o(3) [OF c] c by (cases "j \<in> is") auto
    then show "j < cl_next_id cl' \<and> conn_wf q \<and> e = he_mode cl'"
      using base_obj [OF assms(1) q0(1)] o(3) [OF c] by (cases "j \<in> is") (auto simp: t f)
  next
    fix j q assume "(j, q) \<in> set (cl_notify cl')" 
    from o(4) [OF this] show "j < cl_next_id cl'"
      using base_notice(1) [OF assms(1), of j q] base_obj(2) [OF assms(1), of j] by (auto simp: f)
  next
    fix j q e k assume n: "(j, q) \<in> set (cl_notify cl')" and k: "cl_objs cl' j = Some (e, k)"
    show "cn_state k = Closed"
      using o(1) [of j] o(3) [OF k] o(4) [OF n] k base_notice(2) [OF assms(1), of j q e k] by (cases "j \<in> is") auto
  next
    fix j assume "tracked cl' j"
    then show "\<exists>e k. cl_objs cl' j = Some (e, k)"
      using base_tracked [OF assms(1), of j] o(2) [of j] unfolding t by auto
  next
    fix j e k assume "\<not> he_mode cl'" "cl_objs cl' j = Some (e, k)"
    then show "cl_conn cl' = Some j"
      using o(2) [of j] base_single [OF assms(1), of j] unfolding t f by (cases "cl_objs cl j") auto
  qed
  show "waits_ok cl'"
  proof (rule waits_okI)
    fix j e k assume tr: "tracked cl' j" and k: "cl_objs cl' j = Some (e, k)" and "cn_state k = Closed"
    then show "\<exists>q. (j, q) \<in> set (cl_notify cl')"
      using o(1) [of j] o(3) [OF k] base_waits(1) [OF assms(1), of j] o(5) [of j] unfolding t
      by (cases "j \<in> is") (auto, blast+)
  next
    fix j k assume tr: "tracked cl' j" and k: "cl_objs cl' j = Some (True, k)" and s: "cn_state k = Connecting"
    then show "j \<in> set (cl_pending cl') \<and> armed cl' THeDeadline"
      using o(1) [of j] o(3) [OF k] base_waits(2) [OF assms(1), of j k] he [of j k] unfolding t f
      by (cases "j \<in> is") auto
  next
    fix j k assume tr: "tracked cl' j" and k: "cl_objs cl' j = Some (False, k)" and s: "cn_state k = Connecting"
    then show "armed cl' (TConnectDeadline j)"
      using o(1) [of j] o(3) [OF k] seq [of j k] unfolding t by (cases "j \<in> is") auto
  qed
  have "he_mode cl \<longrightarrow> (\<forall>i. cl_conn cl = Some i \<longrightarrow> (i, ConnectFailed) \<notin> set (cl_notify cl'))"
    using assms(1) r o(4) [of _ ConnectFailed] unfolding cl_base_def attempts_ok_def by blast
  then show "attempts_ok cl'"
    using assms(1) set unfolding cl_base_def attempts_ok_def t f by blast
qed (use assms(1) shut_frame [OF assms(2)] same in \<open>simp_all add: cl_base_def\<close>)

section \<open>Timers\<close>

lemma armed_other: "u \<noteq> t \<Longrightarrow> armed cl u \<Longrightarrow> armed (cl\<lparr>cl_timers := remove1 (g, t, d) (cl_timers cl)\<rparr>) u"
  by (auto simp: armed_def)

lemma base_wf: "cl_base cl \<Longrightarrow> cl_objs cl j = Some (he, c) \<Longrightarrow> conn_wf c"
  by (rule base_obj)

lemma timer_he_inv:
  assumes "cl_inv cl"
  shows "cl_inv (he_timeout E (cl\<lparr>cl_timers := remove1 (g, THeDeadline, d) (cl_timers cl)\<rparr>))" (is "cl_inv ?cl'")
proof -
  have b: "cl_base cl" and st: "cl_state cl \<noteq> Disconnected" and dr: "driven cl" using assms by (simp_all add: cl_inv_def)
  let ?t = "cl\<lparr>cl_timers := remove1 (g, THeDeadline, d) (cl_timers cl)\<rparr>"
  let ?cl0 = "?t\<lparr>cl_he_next := length (cl_he_addrs cl)\<rparr>"
  have s: "shut ConnectFailed (set (cl_pending cl)) ?cl0 ?cl'"
    using shut_fold [of ?cl0 ConnectFailed "cl_pending cl" E] base_wf [OF b] by (simp add: he_timeout_def)
  have "cl_base ?cl'"
  proof (rule base_shut [OF b s])
    show "ConnectFailed \<noteq> ConnectFailed \<or> \<not> he_mode cl \<or> (\<forall>i\<in>set (cl_pending cl). cl_conn cl \<noteq> Some i)"
      using b by (auto simp: cl_base_def attempts_ok_def)
  next
    fix j c assume "tracked cl j" "j \<notin> set (cl_pending cl)" "cl_objs cl j = Some (True, c)" "cn_state c = Connecting"
    then show "armed ?cl0 THeDeadline" using base_waits(2) [OF b, of j c] by blast
  next
    fix j c assume "tracked cl j" "cl_objs cl j = Some (False, c)" "cn_state c = Connecting"
    then show "armed ?cl0 (TConnectDeadline j)"
      using base_waits(3) [OF b, of j c] armed_other [of "TConnectDeadline j" THeDeadline cl g d] by simp
  qed simp_all
  moreover have "driven ?cl'"
    using dr shut_frame(1-3) [OF s] armed_other [of TReconnect THeDeadline cl g d]
    by (auto simp: driven_def tracked_def armed_def)
  ultimately show ?thesis using st shut_frame(4) [OF s] by (simp add: cl_inv_def)
qed

lemma timer_connect_inv:
  assumes "cl_inv cl"
  shows "cl_inv (fire E (TConnectDeadline i) (cl\<lparr>cl_timers := remove1 (g, TConnectDeadline i, d) (cl_timers cl)\<rparr>))"
    (is "cl_inv ?cl'")
proof -
  have b: "cl_base cl" and st: "cl_state cl \<noteq> Disconnected" and dr: "driven cl" using assms by (simp_all add: cl_inv_def)
  let ?t = "cl\<lparr>cl_timers := remove1 (g, TConnectDeadline i, d) (cl_timers cl)\<rparr>"
  define c where "c \<longleftrightarrow> (\<exists>he c. cl_objs cl i = Some (he, c) \<and> cn_state c = Connecting)"
  have s: "shut ConnectFailed (if c then {i} else {}) ?t ?cl'"
    using shut_close [of ?t i ConnectFailed E] base_wf [OF b, of i]
    by (auto simp: c_def shut_refl split: option.splits prod.splits)
  have "cl_base ?cl'"
  proof (rule base_shut [OF b s])
    show "ConnectFailed \<noteq> ConnectFailed \<or> \<not> he_mode cl \<or> (\<forall>j\<in>(if c then {i} else {}). cl_conn cl \<noteq> Some j)"
    proof (cases "he_mode cl \<and> cl_conn cl = Some i \<and> c")
      case True
      then obtain k where k: "cl_objs cl i = Some (True, k)" "cn_state k = Connecting"
        using base_obj(3) [OF b, of i] by (auto simp: c_def)
      then have "i \<in> set (cl_pending cl)" using base_waits(2) [OF b, of i k] True by (simp add: tracked_def)
      then show ?thesis using b True by (auto simp: cl_base_def attempts_ok_def)
    qed auto
  next
    fix j k assume "tracked cl j" "cl_objs cl j = Some (True, k)" "cn_state k = Connecting"
    then show "armed ?t THeDeadline"
      using base_waits(2) [OF b, of j k] armed_other [of THeDeadline "TConnectDeadline i" cl g d] by simp
  next
    fix j k assume k: "tracked cl j" "j \<notin> (if c then {i} else {})" "cl_objs cl j = Some (False, k)" "cn_state k = Connecting"
    then have "j \<noteq> i" by (auto simp: c_def split: if_splits)
    with k show "armed ?t (TConnectDeadline j)"
      using base_waits(3) [OF b, of j k] armed_other [of "TConnectDeadline j" "TConnectDeadline i" cl g d] by simp
  next
    assume "\<not> cl_he_won cl" "cl_he_next ?t < length (cl_he_addrs cl)"
    then show "armed ?t THeDeadline"
      using base_armed [OF b] armed_other [of THeDeadline "TConnectDeadline i" cl g d] by simp
  qed simp_all
  moreover have "driven ?cl'"
    using dr shut_frame(1-3) [OF s] armed_other [of TReconnect "TConnectDeadline i" cl g d]
    by (auto simp: driven_def tracked_def armed_def)
  ultimately show ?thesis using st shut_frame(4) [OF s] by (simp add: cl_inv_def)
qed

lemma base_remove:
  assumes "cl_base cl" "t = TReconnect \<or> t = TStagger"
  shows "cl_base (cl\<lparr>cl_timers := remove1 (g, t, d) (cl_timers cl)\<rparr>)" (is "cl_base ?t")
proof (rule base_shut [OF assms(1) shut_refl [of PeerFin ?t]])
  fix j k assume "tracked cl j" "cl_objs cl j = Some (True, k)" "cn_state k = Connecting"
  then show "armed ?t THeDeadline"
    using base_waits(2) [OF assms(1), of j k] armed_other [of THeDeadline t cl g d] assms(2) by auto
next
  fix j k assume "tracked cl j" "cl_objs cl j = Some (False, k)" "cn_state k = Connecting"
  then show "armed ?t (TConnectDeadline j)"
    using base_waits(3) [OF assms(1), of j k] armed_other [of "TConnectDeadline j" t cl g d] assms(2) by auto
next
  assume "\<not> cl_he_won cl" "cl_he_next ?t < length (cl_he_addrs cl)"
  then show "armed ?t THeDeadline"
    using base_armed [OF assms(1)] armed_other [of THeDeadline t cl g d] assms(2) by auto
qed simp_all

lemma timer_inv:
  assumes "kernel_fds E" "cl_inv cl"
  shows "cl_inv (fire E t (cl\<lparr>cl_timers := remove1 (g, t, d) (cl_timers cl)\<rparr>))"
proof -
  have b: "cl_base cl" and st: "cl_state cl \<noteq> Disconnected" and dr: "driven cl" using assms(2) by (simp_all add: cl_inv_def)
  show ?thesis
  proof (cases t)
    case TReconnect
    then show ?thesis
      using begin_connect_inv [OF assms(1) base_remove [OF b, of TReconnect g d]] st by simp
  next
    case (TConnectDeadline i)
    then show ?thesis using timer_connect_inv [OF assms(2)] by blast
  next
    case THeDeadline
    then show ?thesis using timer_he_inv [OF assms(2)] by simp
  next
    case TStagger
    let ?t = "cl\<lparr>cl_timers := remove1 (g, TStagger, d) (cl_timers cl)\<rparr>"
    have i: "cl_inv ?t"
      using base_remove [OF b, of TStagger g d] st dr armed_other [of TReconnect TStagger cl g d]
      by (auto simp: cl_inv_def driven_def)
    have "cl_inv (he_launch E ?t)"
    proof (cases "he_mode cl")
      case True
      with i show ?thesis by (intro launch_inv(1) assms(1)) (simp_all add: cl_inv_def [of ?t])
    next
      case False
      then have "cl_he_addrs cl = []" using b by (auto simp: cl_base_def attempts_ok_def)
      then have "he_launch E ?t = ?t" by (subst he_launch.simps) simp
      with i show ?thesis by simp
    qed
    then show ?thesis using TStagger by (simp add: stagger_inv)
  qed
qed

end
