(* ===== verification/Client_Runs.thy ===== *)
theory Client_Runs
  imports Client_Inv
begin

text \<open>
  Runs of a client: the events of its connections, the start, and what follows for every reachable
  state.
\<close>

section \<open>Events of a connection\<close>

text \<open>The open events of a connection before its teardown, then the teardown.\<close>

lemma client_call_gone: "e \<noteq> EvOnOpen \<Longrightarrow> client_call E he i e = gone_call E he i e"
  by (cases e) (simp_all add: client_call_def fun_eq_iff)

lemma fold_call_gone: "EvOnOpen \<notin> set es \<Longrightarrow> fold (client_call E he i) es cl = fold (gone_call E he i) es cl"
proof (induction es arbitrary: cl)
  case (Cons e es)
  then have "e \<noteq> EvOnOpen" "EvOnOpen \<notin> set es" by auto
  then show ?case using Cons.IH by (simp add: client_call_gone)
qed simp

lemma gone_open: "open_event e \<Longrightarrow> gone_call E he i e cl = cl"
  by (cases e) (simp_all add: gone_call_def)

lemma close_fields: "\<exists>o' n L. cl_close E r i cl = cl\<lparr>cl_objs := o', cl_notify := n, cl_log := L\<rparr>"
proof (cases "cl_objs cl i")
  case None
  then show ?thesis
    by (intro exI [of _ "cl_objs cl"] exI [of _ "cl_notify cl"] exI [of _ "cl_log cl"]) (simp add: cl_close_def)
next
  case (Some p)
  then obtain he c where o: "cl_objs cl i = Some (he, c)" by (cases p) simp
  let ?c' = "conn_close (handlers_for E he i cl) r c"
  show ?thesis
    using fold_gone [of E he i "new_events c ?c'" "cl\<lparr>cl_objs := (cl_objs cl)(i \<mapsto> (he, ?c'))\<rparr>"]
    by (auto simp: cl_close_def Let_def o)
qed

lemma lose_fields:
  "\<exists>k o' n L. fold (he_lose E) js cl = cl\<lparr>cl_closing := k, cl_objs := o', cl_notify := n, cl_log := L\<rparr>"
proof (induction js arbitrary: cl)
  case Nil
  show ?case
    by (intro exI [of _ "cl_closing cl"] exI [of _ "cl_objs cl"] exI [of _ "cl_notify cl"] exI [of _ "cl_log cl"]) simp
next
  case (Cons j js)
  obtain o' n L where "he_lose E j cl = cl\<lparr>cl_closing := cl_closing cl @ [j], cl_objs := o', cl_notify := n, cl_log := L\<rparr>"
    using close_fields [of E LocalClose j "cl\<lparr>cl_closing := cl_closing cl @ [j]\<rparr>"] by (auto simp: he_lose_def)
  with Cons.IH [of "he_lose E j cl"] show ?case by auto
qed

lemma he_win_won: "\<not> cl_he_won cl \<Longrightarrow> i \<in> set (cl_pending cl) \<Longrightarrow> cl_he_won (he_win E i cl)"
  using lose_fields [of E "remove1 i (cl_pending cl)" "cl\<lparr>cl_he_won := True, cl_conn := Some i, cl_pending := []\<rparr>"]
  by (auto simp: he_win_def Let_def on_connected_def cl_cancel_group_def split: option.splits)

lemma he_win_twice: "he_win E i (he_win E i cl) = he_win E i cl"
proof (cases "cl_he_won cl \<or> i \<notin> set (cl_pending cl)")
  case True
  then have "he_win E i cl = cl" by (simp add: he_win_def)
  then show ?thesis by simp
next
  case False
  then have "cl_he_won (he_win E i cl)" using he_win_won by blast
  then show ?thesis unfolding he_win_def [of E i "he_win E i cl"] by simp
qed

lemma fold_open_he:
  "list_all open_event us \<Longrightarrow> fold (client_call E True i) us cl = (if EvOnOpen \<in> set us then he_win E i cl else cl)"
proof (induction us arbitrary: cl)
  case (Cons e us)
  show ?case
  proof (cases "e = EvOnOpen")
    case True
    then have "client_call E True i e cl = he_win E i cl" by (simp add: client_call_def)
    then show ?thesis using Cons True by (simp add: he_win_twice)
  next
    case False
    then have "client_call E True i e cl = cl" using Cons.prems by (simp add: client_call_gone gone_open)
    then show ?thesis using Cons False by auto
  qed
qed simp

definition merely_connected :: "'m client \<Rightarrow> 'm client \<Rightarrow> bool" where
  "merely_connected cl cl' \<longleftrightarrow>
     (\<exists>b s L. cl' = cl\<lparr>cl_cfg := (cl_cfg cl)\<lparr>cc_reconnect := b\<rparr>, cl_state := s, cl_log := L\<rparr> \<and>
        (s = cl_state cl \<or> s = Connected))"

lemma merely_connected_refl: "merely_connected cl cl"
  unfolding merely_connected_def
  by (intro exI [of _ "cc_reconnect (cl_cfg cl)"] exI [of _ "cl_state cl"] exI [of _ "cl_log cl"]) simp

lemma merely_connected_on: "merely_connected cl (on_connected cl)"
  unfolding merely_connected_def
  by (intro exI [of _ "backoff_reset (cc_reconnect (cl_cfg cl))"] exI [of _ Connected] exI [of _ "cl_log (on_connected cl)"])
    (simp add: on_connected_def set_state_def cl_say_def)

lemma merely_connected_trans:
  assumes "merely_connected x y" "merely_connected y z"
  shows "merely_connected x z"
proof -
  obtain b s L where y: "y = x\<lparr>cl_cfg := (cl_cfg x)\<lparr>cc_reconnect := b\<rparr>, cl_state := s, cl_log := L\<rparr>"
    "s = cl_state x \<or> s = Connected" using assms(1) unfolding merely_connected_def by blast
  obtain b' s' L' where z: "z = y\<lparr>cl_cfg := (cl_cfg y)\<lparr>cc_reconnect := b'\<rparr>, cl_state := s', cl_log := L'\<rparr>"
    "s' = cl_state y \<or> s' = Connected" using assms(2) unfolding merely_connected_def by blast
  show ?thesis
    unfolding merely_connected_def by (rule exI [of _ b'], rule exI [of _ s'], rule exI [of _ L']) (use y z in auto)
qed

lemma fold_open_seq: "list_all open_event us \<Longrightarrow> merely_connected cl (fold (client_call E False i) us cl)"
proof (induction us arbitrary: cl)
  case Nil
  show ?case by (simp add: merely_connected_refl)
next
  case (Cons e us)
  have "merely_connected cl (client_call E False i e cl)"
  proof (cases "e = EvOnOpen")
    case True
    then show ?thesis by (simp add: client_call_def merely_connected_on)
  next
    case False
    then show ?thesis using Cons.prems by (simp add: client_call_gone gone_open merely_connected_refl)
  qed
  moreover have "merely_connected (client_call E False i e cl) (fold (client_call E False i) us (client_call E False i e cl))"
    by (rule Cons.IH) (use Cons.prems in simp)
  ultimately show ?case using merely_connected_trans by (simp, blast)
qed

text \<open>The effect of the events of one operation on the client.\<close>

lemma fold_events:
  assumes "ext c c'"
  obtains cl' L where "fold (client_call E he i) (new_events c c') cl =
      cl'\<lparr>cl_notify := cl_notify cl' @ map (Pair i) (reasons (new_events c c')), cl_log := L\<rparr>"
    "if he then cl' = (if EvOnOpen \<in> set (new_events c c') then he_win E i cl else cl) else merely_connected cl cl'"
    "if cn_state c \<noteq> Closed \<and> cn_state c' = Closed then \<exists>r. reasons (new_events c c') = [r] else reasons (new_events c c') = []"
proof -
  let ?es = "new_events c c'"
  have late: "list_all late_event xs \<Longrightarrow> list_all open_event xs" for xs :: "'a conn_event list"
    by (auto simp: list_all_iff late_open)
  have none: "list_all open_event xs \<Longrightarrow> reasons xs = []" for xs :: "'a conn_event list"
    by (induction xs rule: reasons.induct) simp_all
  show thesis
  proof (cases "cn_state c \<noteq> Closed \<and> cn_state c' = Closed")
    case False
    then have o: "list_all open_event ?es" using ext_events(2,4) [OF assms] late by blast
    define cl' where "cl' = fold (client_call E he i) ?es cl"
    have "if he then cl' = (if EvOnOpen \<in> set ?es then he_win E i cl else cl) else merely_connected cl cl'"
      unfolding cl'_def using fold_open_he [OF o] fold_open_seq [OF o] by (cases he) simp_all
    then show thesis using that [of "cl_log cl'" cl'] False none [OF o] by (simp add: cl'_def)
  next
    case True
    then have "closing_log (cn_fd c) ?es" using ext_events(3) [OF assms] by blast
    then obtain us ts r where es: "?es = us @ ts" "list_all open_event us" "EvOnOpen \<notin> set ts" "reasons us = []" "reasons ts = [r]"
      by (rule closing_split)
    define cl' where "cl' = fold (client_call E he i) us cl"
    have "if he then cl' = (if EvOnOpen \<in> set ?es then he_win E i cl else cl) else merely_connected cl cl'"
      unfolding cl'_def using fold_open_he [OF es(2)] fold_open_seq [OF es(2)] es(1,3) by (cases he) simp_all
    moreover obtain L where "fold (client_call E he i) ?es cl =
        cl'\<lparr>cl_notify := cl_notify cl' @ map (Pair i) (reasons ts), cl_log := L\<rparr>"
      using fold_gone [of E he i ts cl'] by (auto simp: es(1) cl'_def fold_call_gone [OF es(3)])
    ultimately show thesis using that [of L cl'] True es by simp
  qed
qed

lemma base_live:
  assumes "cl_base cl" "cl_objs cl i = Some (he, c)" "conn_wf c'" "cn_state c = Closed \<longleftrightarrow> cn_state c' = Closed"
    "cn_state c' = Connecting \<Longrightarrow> cn_state c = Connecting"
  shows "cl_base (cl\<lparr>cl_objs := (cl_objs cl)(i \<mapsto> (he, c'))\<rparr>)" (is "cl_base ?cl")
proof (rule baseI)
  show "objs_ok ?cl"
  proof (rule objs_okI)
    fix j e q assume "cl_objs ?cl j = Some (e, q)"
    then show "j < cl_next_id ?cl \<and> conn_wf q \<and> e = he_mode ?cl"
      using base_obj [OF assms(1), of j e q] base_obj [OF assms(1,2)] assms(3) by (cases "j = i") auto
  next
    fix j q assume "(j, q) \<in> set (cl_notify ?cl)"
    then show "j < cl_next_id ?cl" using base_notice(1) [OF assms(1), of j q] by simp
  next
    fix j q e k assume "(j, q) \<in> set (cl_notify ?cl)" "cl_objs ?cl j = Some (e, k)"
    then show "cn_state k = Closed"
      using base_notice(2) [OF assms(1), of j q] assms(2,4) by (cases "j = i") auto
  next
    fix j assume "tracked ?cl j"
    then show "\<exists>e k. cl_objs ?cl j = Some (e, k)" using base_tracked [OF assms(1), of j] by auto
  next
    fix j e k assume "\<not> he_mode ?cl" "cl_objs ?cl j = Some (e, k)"
    then show "cl_conn ?cl = Some j" using base_single [OF assms(1)] assms(2) by (cases "j = i") auto
  qed
  show "waits_ok ?cl"
  proof (rule waits_okI)
    fix j e k assume "tracked ?cl j" "cl_objs ?cl j = Some (e, k)" "cn_state k = Closed"
    then show "\<exists>q. (j, q) \<in> set (cl_notify ?cl)"
      using base_waits(1) [OF assms(1), of j] assms(2,4) by (cases "j = i") auto
  next
    fix j k assume "tracked ?cl j" "cl_objs ?cl j = Some (True, k)" "cn_state k = Connecting"
    then show "j \<in> set (cl_pending ?cl) \<and> armed ?cl THeDeadline"
      using base_waits(2) [OF assms(1), of j] assms(2,5) by (cases "j = i") auto
  next
    fix j k assume "tracked ?cl j" "cl_objs ?cl j = Some (False, k)" "cn_state k = Connecting"
    then show "armed ?cl (TConnectDeadline j)"
      using base_waits(3) [OF assms(1), of j] assms(2,5) by (cases "j = i") auto
  qed
  show "attempts_ok ?cl" using assms(1) unfolding cl_base_def attempts_ok_def by simp
qed (use assms(1) in \<open>simp_all add: cl_base_def\<close>)

lemma base_won:
  assumes "cl_base cl" "he_mode cl" "cl_objs cl i = Some (True, c)" "cn_state c \<noteq> Closed"
    and c': "conn_wf c'" "cn_state c' \<noteq> Connecting" "cn_state c' = Closed \<longleftrightarrow> ns \<noteq> []"
      "\<And>j q. (j, q) \<in> set ns \<Longrightarrow> j = i \<and> q \<noteq> ConnectFailed"
    and shut: "shut LocalClose J cl1 cl2" "i \<notin> J" "cl_objs cl1 = (cl_objs cl)(i \<mapsto> (True, c'))"
      "cl_notify cl1 = cl_notify cl"
    and cl': "cl_objs cl' = cl_objs cl2" "cl_notify cl' = cl_notify cl2 @ ns" "cl_conn cl' = Some i" "cl_pending cl' = []"
      "cl_he_won cl'" "cl_he_addrs cl' = cl_he_addrs cl" "cl_he_addrs cl \<noteq> []" "cl_next_id cl' = cl_next_id cl" "he_mode cl'"
      "cc_auto_reconnect (cl_cfg cl')" "\<not> cl_resolving cl'"
  shows "cl_base cl'"
proof (rule baseI)
  note o = shut_objs [OF shut(1), unfolded shut(3,4)]
  have i: "cl_objs cl' i = Some (True, c')" "(i, q) \<notin> set (cl_notify cl2)" for q
    using o(1) [OF shut(2)] o(4) [of i q] shut(2) base_notice(2) [OF assms(1), of i q] assms(3,4) by (auto simp: cl')
  have tr: "tracked cl' = (\<lambda>j. j = i)" by (auto simp: tracked_def cl' fun_eq_iff)
  show "objs_ok cl'"
  proof (rule objs_okI)
    fix j e q assume j: "cl_objs cl' j = Some (e, q)"
    show "j < cl_next_id cl' \<and> conn_wf q \<and> e = he_mode cl'"
    proof (cases "j = i")
      case True
      then show ?thesis using j i(1) c'(1) base_obj(2) [OF assms(1,3)] by (simp add: cl')
    next
      case False
      then obtain q0 where "cl_objs cl j = Some (e, q0)" "j \<notin> J \<Longrightarrow> q0 = q"
        using o(1) [of j] o(3) [OF j [unfolded cl'(1)]] j by (cases "j \<in> J") (auto simp: cl')
      then show ?thesis
        using base_obj [OF assms(1), of j e q0] o(3) [OF j [unfolded cl'(1)]] assms(2) by (cases "j \<in> J") (auto simp: cl')
    qed
  next
    fix j q assume "(j, q) \<in> set (cl_notify cl')"
    then show "j < cl_next_id cl'"
      using o(4) [of j q] base_notice(1) [OF assms(1), of j q] c'(4) [of j q] base_obj(2) [OF assms(1), of j] base_obj(2) [OF assms(1,3)]
      by (auto simp: cl' split: if_splits)
  next
    fix j q e k assume n: "(j, q) \<in> set (cl_notify cl')" and k: "cl_objs cl' j = Some (e, k)"
    show "cn_state k = Closed"
    proof (cases "j = i")
      case True
      then show ?thesis using n k i c'(3) by (auto simp: cl')
    next
      case False
      then have "(j, q) \<in> set (cl_notify cl2)" using n c'(4) by (auto simp: cl')
      then show ?thesis
        using o(4) [of j q] o(1) [of j] o(3) [OF k [unfolded cl'(1)]] k False base_notice(2) [OF assms(1), of j q e k]
        by (cases "j \<in> J") (auto simp: cl')
    qed
  qed (use i(1) cl'(9) in \<open>auto simp: tr\<close>)
  have "\<exists>q. (i, q) \<in> set ns" if closed: "cn_state c' = Closed"
  proof -
    from closed c'(3) obtain j q where q: "(j, q) \<in> set ns" by (cases ns) auto
    with c'(4) [OF q] show ?thesis by auto
  qed
  then show "waits_ok cl'" by (intro waits_okI) (use i(1) c'(2) in \<open>auto simp: tr cl'\<close>)
  show "attempts_ok cl'" unfolding attempts_ok_def using cl'(7) cl'(9) c'(4) i(2) by (auto simp: cl')
qed (use cl' in simp_all)

lemma shut_closing: "shut r A cl cl' \<Longrightarrow> shut r A (cl\<lparr>cl_closing := k\<rparr>) (cl'\<lparr>cl_closing := k\<rparr>)"
  unfolding shut_def
  by (elim exE, rule_tac x = objs in exI, rule_tac x = ns in exI, rule_tac x = L in exI) simp

lemma shut_lose:
  "(\<And>j he c. cl_objs cl j = Some (he, c) \<Longrightarrow> conn_wf c) \<Longrightarrow>
   shut LocalClose (set js) (cl\<lparr>cl_closing := cl_closing cl @ js\<rparr>) (fold (he_lose E) js cl)"
proof (induction js arbitrary: cl)
  case Nil
  show ?case by (simp add: shut_refl)
next
  case (Cons j js)
  let ?cl1 = "he_lose E j cl" and ?k = "cl_closing cl @ j # js"
  have 1: "shut LocalClose {j} (cl\<lparr>cl_closing := cl_closing cl @ [j]\<rparr>) ?cl1"
    unfolding he_lose_def by (rule shut_close) (use Cons.prems in simp)
  have k: "cl_closing ?cl1 @ js = ?k" using shut_frame(11) [OF 1] by simp
  have "shut LocalClose (set js) (?cl1\<lparr>cl_closing := cl_closing ?cl1 @ js\<rparr>) (fold (he_lose E) js ?cl1)"
    by (rule Cons.IH) (rule shut_wf [OF 1], use Cons.prems in simp)
  moreover have "shut LocalClose {j} (cl\<lparr>cl_closing := ?k\<rparr>) (?cl1\<lparr>cl_closing := ?k\<rparr>)"
    using shut_closing [OF 1, of ?k] by simp
  ultimately show ?case using shut_trans unfolding k by fastforce
qed

lemma he_win_fields:
  fixes E :: "'m client_env"
  assumes "\<not> cl_he_won cl" "i \<in> set (cl_pending cl)" "\<And>j he c. cl_objs cl j = Some (he, c) \<Longrightarrow> conn_wf c"
  obtains cl1 cl2 :: "'m client" where "shut LocalClose (set (remove1 i (cl_pending cl))) cl1 cl2" "cl_objs cl1 = cl_objs cl"
    "cl_notify cl1 = cl_notify cl" "cl_objs (he_win E i cl) = cl_objs cl2" "cl_notify (he_win E i cl) = cl_notify cl2"
    "cl_conn (he_win E i cl) = Some i" "cl_pending (he_win E i cl) = []" "cl_he_won (he_win E i cl)"
    "cl_he_addrs (he_win E i cl) = cl_he_addrs cl" "cl_next_id (he_win E i cl) = cl_next_id cl"
    "he_mode (he_win E i cl) = he_mode cl" "cl_resolving (he_win E i cl) = cl_resolving cl"
    "cc_auto_reconnect (cl_cfg (he_win E i cl)) = cc_auto_reconnect (cl_cfg cl)" "cl_state (he_win E i cl) = Connected"
proof -
  let ?js = "remove1 i (cl_pending cl)"
  define cl0 where "cl0 = cl\<lparr>cl_he_won := True, cl_conn := Some i, cl_pending := []\<rparr>"
  define cl1 where "cl1 = cl0\<lparr>cl_closing := cl_closing cl0 @ ?js\<rparr>"
  define cl2 where "cl2 = fold (he_lose E) ?js cl0"
  have s: "shut LocalClose (set ?js) cl1 cl2"
    unfolding cl1_def cl2_def by (rule shut_lose) (use assms(3) in \<open>simp add: cl0_def\<close>)
  note f = shut_frame [OF s]
  have w: "he_win E i cl = on_connected (case cl_he_group cl2 of None \<Rightarrow> cl2
      | Some g \<Rightarrow> (cl_cancel_group g cl2)\<lparr>cl_he_group := None\<rparr>)"
    unfolding he_win_def Let_def cl2_def cl0_def using assms(1,2) by simp
  show thesis
    by (rule that [OF s]; cases "cl_he_group cl2";
        simp add: w f cl1_def cl0_def on_connected_def cl_cancel_group_def he_mode_def)
qed

lemma base_notify_log: "cl_base cl \<Longrightarrow> cl_base (cl\<lparr>cl_log := L\<rparr>)"
  by (erule base_cong) simp_all

lemma merely_base:
  assumes "merely_connected cl cl'" "cl_base (cl\<lparr>cl_notify := ns\<rparr>)"
  shows "cl_base (cl'\<lparr>cl_notify := ns, cl_log := L\<rparr>)"
proof -
  obtain b s L' where "cl' = cl\<lparr>cl_cfg := (cl_cfg cl)\<lparr>cc_reconnect := b\<rparr>, cl_state := s, cl_log := L'\<rparr>"
    using assms(1) unfolding merely_connected_def by blast
  then show ?thesis by (intro base_cong [OF assms(2)]) (simp_all add: he_mode_def armed_def)
qed

text \<open>An operation that does not promote an attempt.\<close>

lemma op_plain_base:
  assumes "cl_base cl" "cl_objs cl i = Some (he, c)" "conn_wf c'" "ext c c'" "fair_op op c c'"
    and rs: "if cn_state c \<noteq> Closed \<and> cn_state c' = Closed then \<exists>r. reasons (new_events c c') = [r] else reasons (new_events c c') = []"
  shows "cl_base (cl\<lparr>cl_objs := (cl_objs cl)(i \<mapsto> (he, c')),
           cl_notify := cl_notify cl @ map (Pair i) (reasons (new_events c c'))\<rparr>)"
proof (cases "cn_state c \<noteq> Closed \<and> cn_state c' = Closed")
  case False
  then have "cn_state c = Closed \<longleftrightarrow> cn_state c' = Closed" using ext_events(2) [OF assms(4)] by blast
  then show ?thesis
    using base_live [OF assms(1-3)] ext_events(1) [OF assms(4)] rs False by simp
next
  case True
  then obtain r where r: "reasons (new_events c c') = [r]" using rs by auto
  then obtain d where d: "EvNotify r d \<in> set (new_events c c')" using reasons_mem [of r "new_events c c'"] by auto
  have "r \<noteq> ConnectFailed \<or> \<not> he_mode cl \<or> cl_conn cl \<noteq> Some i"
  proof (cases "he_mode cl \<and> cl_conn cl = Some i")
    case he: True
    then have "he" using base_obj(3) [OF assms(1,2)] by simp
    then have "cn_state c \<noteq> Connecting"
      using base_waits(2) [OF assms(1), of i c] assms(1,2) he by (auto simp: tracked_def cl_base_def attempts_ok_def)
    then show ?thesis using assms(5) d by (auto simp: fair_op_def)
  qed auto
  from base_closed [OF assms(1-3) conjunct2 [OF True] this, of "cl_log cl"] show ?thesis by (simp add: r)
qed

lemma op_win_inv:
  fixes E :: "'m client_env"
  assumes "cl_base cl" "cl_objs cl i = Some (True, c)" "conn_wf c'" "ext c c'" "fair_op op c c'"
    and rs: "if cn_state c \<noteq> Closed \<and> cn_state c' = Closed then \<exists>r. reasons (new_events c c') = [r] else reasons (new_events c c') = []"
    and op: "EvOnOpen \<in> set (new_events c c')" "\<not> cl_he_won cl" "i \<in> set (cl_pending cl)"
  defines "w \<equiv> he_win E i (cl\<lparr>cl_objs := (cl_objs cl)(i \<mapsto> (True, c'))\<rparr>)"
  shows "cl_inv (w\<lparr>cl_notify := cl_notify w @ map (Pair i) (reasons (new_events c c')), cl_log := L\<rparr>)" (is "cl_inv ?cl'")
proof -
  let ?cl0 = "cl\<lparr>cl_objs := (cl_objs cl)(i \<mapsto> (True, c'))\<rparr>" and ?ns = "map (Pair i) (reasons (new_events c c'))"
  have wf: "cl_objs ?cl0 j = Some (he, k) \<Longrightarrow> conn_wf k" for j he k
    using base_wf [OF assms(1), of j he k] assms(3) by (cases "j = i") auto
  have op0: "\<not> cl_he_won ?cl0" "i \<in> set (cl_pending ?cl0)" using op(2,3) by simp_all
  obtain cl1 cl2 where f: "shut LocalClose (set (remove1 i (cl_pending ?cl0))) cl1 cl2" "cl_objs cl1 = cl_objs ?cl0"
    "cl_notify cl1 = cl_notify ?cl0" "cl_objs w = cl_objs cl2" "cl_notify w = cl_notify cl2"
    "cl_conn w = Some i" "cl_pending w = []" "cl_he_won w"
    "cl_he_addrs w = cl_he_addrs ?cl0" "cl_next_id w = cl_next_id ?cl0"
    "he_mode w = he_mode ?cl0" "cl_resolving w = cl_resolving ?cl0"
    "cc_auto_reconnect (cl_cfg w) = cc_auto_reconnect (cl_cfg ?cl0)" "cl_state w = Connected"
    unfolding w_def by (rule he_win_fields [OF op0 wf])
  have m: "he_mode cl" using base_obj(3) [OF assms(1,2)] by simp
  have a: "distinct (cl_pending cl)" "cl_he_addrs cl \<noteq> []" "cc_auto_reconnect (cl_cfg cl)" "\<not> cl_resolving cl"
    using assms(1) op(3) by (auto simp: cl_base_def attempts_ok_def)
  have open_: "cn_state c \<noteq> Closed"
    using ext_events(2) [OF assms(4)] op(1) by (fastforce simp: list_all_iff)
  have "cl_base ?cl'"
  proof (rule base_won [OF assms(1) m assms(2) open_ assms(3), where ns = ?ns and J = "set (remove1 i (cl_pending cl))" and ?cl1.0 = cl1 and ?cl2.0 = cl2])
    show "cn_state c' \<noteq> Connecting" using ext_events(1) [OF assms(4)] op(1) by blast
    show "cn_state c' = Closed \<longleftrightarrow> ?ns \<noteq> []" using rs open_ by (auto split: if_splits)
    show "j = i \<and> q \<noteq> ConnectFailed" if "(j, q) \<in> set ?ns" for j q
      using that assms(5) op(1) reasons_mem [of q "new_events c c'"] by (auto simp: fair_op_def)
  qed (use f m a in simp_all)
  moreover have "driven ?cl'" using f(6) by (auto simp: driven_def tracked_def)
  ultimately show ?thesis using f(14) by (simp add: cl_inv_def)
qed

lemma op_inv:
  assumes "cl_inv cl" "client_op E i op cl = Some cl'"
    "\<And>he c c'. cl_objs cl i = Some (he, c) \<Longrightarrow> conn_step (handlers_for E he i cl) op c = Some c' \<Longrightarrow> fair_op op c c'"
  shows "cl_inv cl'"
proof (cases "cl_objs cl i")
  case None
  then show ?thesis using assms(1,2) by (simp add: client_op_def)
next
  case (Some p)
  then obtain he c where o: "cl_objs cl i = Some (he, c)" by (cases p) simp
  have b: "cl_base cl" and st: "cl_state cl \<noteq> Disconnected" and dr: "driven cl" using assms(1) by (simp_all add: cl_inv_def)
  obtain c' where c': "conn_step (handlers_for E he i cl) op c = Some c'"
    and cl': "cl' = fold (client_call E he i) (new_events c c') (cl\<lparr>cl_objs := (cl_objs cl)(i \<mapsto> (he, c'))\<rparr>)"
    using assms(2) o by (auto simp: client_op_def)
  have fair: "fair_op op c c'" by (rule assms(3) [OF o c'])
  have wf: "conn_wf c" by (rule base_obj(1) [OF b o])
  have stp: "step c c'" using step_conn_step [OF c'] fair by (simp add: fair_op_def)
  then have wf': "conn_wf c'" and ex: "ext c c'" using wf by (simp_all add: step_def)
  let ?cl0 = "cl\<lparr>cl_objs := (cl_objs cl)(i \<mapsto> (he, c'))\<rparr>" and ?rs = "reasons (new_events c c')"
  obtain clx L where x: "cl' = clx\<lparr>cl_notify := cl_notify clx @ map (Pair i) ?rs, cl_log := L\<rparr>"
    "if he then clx = (if EvOnOpen \<in> set (new_events c c') then he_win E i ?cl0 else ?cl0) else merely_connected ?cl0 clx"
    and rs: "if cn_state c \<noteq> Closed \<and> cn_state c' = Closed then \<exists>r. ?rs = [r] else ?rs = []"
    unfolding cl' by (rule fold_events [OF ex])
  have plain: "cl_base (?cl0\<lparr>cl_notify := cl_notify cl @ map (Pair i) ?rs\<rparr>)"
    using op_plain_base [OF b o wf' ex fair rs] by simp
  have drv: "driven (clx\<lparr>cl_notify := n, cl_log := L\<rparr>) \<and> cl_state clx \<noteq> Disconnected"
    if "clx = ?cl0 \<or> merely_connected ?cl0 clx" for n
    using that st dr by (auto simp: merely_connected_def driven_def tracked_def armed_def)
  consider "\<not> he" | "he" "clx = ?cl0" | "he" "EvOnOpen \<in> set (new_events c c')" "\<not> cl_he_won cl" "i \<in> set (cl_pending cl)"
    using x(2) by (auto simp: he_win_def split: if_splits)
  then show ?thesis
  proof cases
    case 1
    with x(2) have m: "merely_connected ?cl0 clx" by simp
    then have "cl_notify clx = cl_notify cl" by (auto simp: merely_connected_def)
    with merely_base [OF m plain, of L] drv m show ?thesis unfolding x(1) by (simp add: cl_inv_def)
  next
    case 2
    with base_notify_log [OF plain, of L] drv show ?thesis unfolding x(1) by (simp add: cl_inv_def)
  next
    case 3
    with op_win_inv [OF b, of i c c' op L E] o wf' ex fair rs x show ?thesis by simp
  qed
qed

section \<open>Reachable states\<close>

lemma base_fresh:
  assumes "cl_objs cl = Map.empty" "cl_notify cl = []" "cl_conn cl = None" "cl_pending cl = []" "cl_closing cl = []"
    "cl_he_addrs cl = []" "\<not> cl_resolving cl" "cc_auto_reconnect (cl_cfg cl)"
  shows "cl_base cl"
  using assms by (simp add: inv_defs)

text \<open>A client whose first name resolution is under way has nothing else.\<close>

definition awaiting :: "'m client \<Rightarrow> bool" where
  "awaiting cl \<longleftrightarrow> cl_resolving cl \<and> cl_objs cl = Map.empty \<and> cl_notify cl = [] \<and> cl_conn cl = None \<and> cl_pending cl = [] \<and>
     cl_closing cl = [] \<and> cl_he_addrs cl = [] \<and> cl_timers cl = [] \<and> cc_auto_reconnect (cl_cfg cl)"

lemma start_cases:
  assumes "client_start E c = (Inr (), cl)" "cl_conn c = None" "\<not> cl_resolving c" "cl_pending c = []" "cl_closing c = []"
    "f = c\<lparr>cl_group := cl_groups c, cl_groups := Suc (cl_groups c)\<rparr>"
  shows "cl = cl_say (ClResolve (connect_budget f)) ((set_state ClConnecting f)\<lparr>cl_resolving := True\<rparr>) \<or>
    (\<exists>as. cl = begin_connect E (f\<lparr>cl_addrs := as\<rparr>))"
  using assms(1) unfolding client_start_def Let_def assms(6) [symmetric]
  by (auto simp: assms(2-5) split: option.splits if_splits sum.splits)

lemma start_ok:
  fixes E :: "'m client_env" and cl :: "'m client"
  assumes "client_start E ((client_new cfg)\<lparr>cl_now := now, cl_deadline := d\<rparr>) = (Inr (), cl)"
    "kernel_fds E" "cc_auto_reconnect cfg"
  shows "awaiting cl \<or> cl_inv cl"
proof -
  define c :: "'m client" where "c = (client_new cfg)\<lparr>cl_now := now, cl_deadline := d\<rparr>"
  define f where "f = c\<lparr>cl_group := cl_groups c, cl_groups := Suc (cl_groups c)\<rparr>"
  have b: "cl_inv (begin_connect E (f\<lparr>cl_addrs := as\<rparr>))" for as
    by (rule begin_connect_inv [OF assms(2)])
      (use assms(3) in \<open>auto intro!: base_fresh simp: f_def c_def client_new_def\<close>)
  have "cl = cl_say (ClResolve (connect_budget f)) ((set_state ClConnecting f)\<lparr>cl_resolving := True\<rparr>) \<or>
      (\<exists>as. cl = begin_connect E (f\<lparr>cl_addrs := as\<rparr>))"
    by (rule start_cases [OF assms(1) [folded c_def] _ _ _ _ f_def]) (simp_all add: c_def client_new_def)
  then show ?thesis
  proof
    assume "cl = cl_say (ClResolve (connect_budget f)) ((set_state ClConnecting f)\<lparr>cl_resolving := True\<rparr>)"
    then have "awaiting cl" using assms(3) by (simp add: awaiting_def f_def c_def client_new_def)
    then show ?thesis by blast
  qed (use b in blast)
qed

lemma resolved_inv:
  assumes "awaiting cl" "kernel_fds E"
  shows "cl_inv (on_resolved E r cl)"
proof -
  have b: "cl_base (cl\<lparr>cl_resolving := False\<rparr>)" "\<And>as. cl_base (cl\<lparr>cl_resolving := False, cl_addrs := as\<rparr>)"
    using assms(1) by (auto intro!: base_fresh simp: awaiting_def)
  show ?thesis
  proof (cases r)
    case (Inl e)
    then show ?thesis by (simp add: on_resolved_def Let_def schedule_inv base_state base_say b(1))
  next
    case (Inr as)
    then show ?thesis
      using begin_connect_inv [OF assms(2) b(2), of as] assms(1) by (simp add: on_resolved_def awaiting_def)
  qed
qed

lemma client_step_ok:
  assumes "client_step E cl cl'" "awaiting cl \<or> cl_inv cl" "kernel_fds E"
  shows "awaiting cl' \<or> cl_inv cl'"
  using assms(1)
proof cases
  case (op i op)
  then show ?thesis using assms(2) op_inv [of cl E i op cl'] by (auto simp: awaiting_def client_op_def)
next
  case (notify i r ns)
  then show ?thesis using assms(2) gone_inv [OF assms(3)] by (auto simp: awaiting_def)
next
  case (timer t)
  then have "cl_inv cl" using assms(2) by (auto simp: awaiting_def)
  then show ?thesis using timer_inv [OF assms(3), of cl "fst (snd t)" "fst t" "snd (snd t)"] timer(1) by simp
next
  case (resolved r)
  then show ?thesis using assms(2) resolved_inv [OF _ assms(3)] by (auto simp: cl_inv_def cl_base_def)
next
  case (time d now)
  have "cl_base cl \<Longrightarrow> cl_base (cl\<lparr>cl_now := now, cl_deadline := d\<rparr>)" by (erule base_cong) simp_all
  with time assms(2) show ?thesis by (auto simp: awaiting_def cl_inv_def driven_def)
qed

lemma reach_ok:
  assumes "client_reach E cfg cl" "kernel_fds E" "cc_auto_reconnect cfg"
  shows "awaiting cl \<or> cl_inv cl"
  using assms(1) by induction (use start_ok assms(2,3) client_step_ok in blast)+

section \<open>Properties\<close>

text \<open>
  What will move the client on: the end of connection \<open>i\<close> is announced, a deadline bounds its
  connecting, or it is open.
\<close>

definition attended :: "'m client \<Rightarrow> nat \<Rightarrow> bool" where
  "attended cl i \<longleftrightarrow>
     (\<exists>he c. cl_objs cl i = Some (he, c) \<and>
        (if cn_state c = Closed then \<exists>r. (i, r) \<in> set (cl_notify cl)
         else if cn_state c = Connecting then armed cl (if he then THeDeadline else TConnectDeadline i)
         else True))"

lemma base_attended: "cl_base cl \<Longrightarrow> tracked cl i \<Longrightarrow> attended cl i"
  using base_tracked [of cl i] base_waits [of cl i] unfolding attended_def by fastforce

text \<open>
  C6: A client with automatic reconnection never gets stuck. In every state it can reach, whatever
  sockets fail, connections drop and timers fire in whatever order, it is resolving its target, has
  a reconnect timer armed, or has a connection or attempt; and each of those is open, or has its
  connect bounded by an armed deadline, or has the notification of its end queued.
\<close>

theorem client_never_stuck:
  assumes "client_reach E cfg cl" "kernel_fds E" "cc_auto_reconnect cfg"
  shows "(cl_resolving cl \<or> armed cl TReconnect \<or> (\<exists>i. tracked cl i)) \<and> (\<forall>i. tracked cl i \<longrightarrow> attended cl i)"
proof -
  have "awaiting cl \<or> cl_inv cl" by (rule reach_ok [OF assms])
  then show ?thesis using base_attended by (auto simp: awaiting_def cl_inv_def driven_def tracked_def)
qed


text \<open>
  C28: The reconnect delays. The n-th failure in a row waits for the initial delay doubled n times
  and capped at the maximum, and a draw within the jitter moves that by no more than the jitter's
  share (and less than a nanosecond for the truncation).
\<close>

theorem reconnect_delays:
  assumes "0 < bo_initial b" "bo_initial b \<le> bo_max b" "0 \<le> j" "j \<le> 1" "1 - j \<le> u" "u \<le> 1 + j"
  shows "let d = fst (backoff_next (backoff_after n b)) in
     d = min (bo_initial b * 2 ^ n) (bo_max b) \<and>
     real_of_int d * (1 - j) - 1 < real_of_int (jittered j u d) \<and> real_of_int (jittered j u d) \<le> real_of_int d * (1 + j)"
proof -
  let ?d = "fst (backoff_next (backoff_after n b))"
  have d: "?d = min (bo_initial b * 2 ^ n) (bo_max b)" by (rule backoff_delay [OF assms(1,2)])
  then have "0 \<le> ?d" using assms(1,2) by simp
  with jittered_bounds [OF this assms(3-6)] d show ?thesis by (simp add: Let_def)
qed

text \<open>
  The order of the Happy Eyeballs attempts. The candidates are exactly the resolved addresses,
  each family keeps its order, and as long as both families last they alternate, an IPv6 address
  first.
\<close>

theorem he_order_alternates:
  assumes "i < length (filter (\<lambda>a. sa_family a = AF_INET6) addrs)" "i < length (filter (\<lambda>a. sa_family a \<noteq> AF_INET6) addrs)"
  shows "mset (he_order addrs) = mset addrs \<and>
    filter (\<lambda>a. sa_family a = AF_INET6) (he_order addrs) = filter (\<lambda>a. sa_family a = AF_INET6) addrs \<and>
    filter (\<lambda>a. sa_family a \<noteq> AF_INET6) (he_order addrs) = filter (\<lambda>a. sa_family a \<noteq> AF_INET6) addrs \<and>
    sa_family (he_order addrs ! (2 * i)) = AF_INET6 \<and> sa_family (he_order addrs ! (2 * i + 1)) \<noteq> AF_INET6"
proof -
  let ?P = "\<lambda>a. sa_family a = AF_INET6"
  let ?v6 = "filter ?P addrs" and ?v4 = "filter (\<lambda>a. \<not> ?P a) addrs"
  have m: "mset (he_order addrs) = mset addrs"
    by (simp add: he_order_def he_interleave_mset flip: multiset_partition)
  have f: "filter ?P (he_order addrs) = ?v6 \<and> filter (\<lambda>a. \<not> ?P a) (he_order addrs) = ?v4"
    unfolding he_order_def by (rule he_interleave_filter) (auto simp: list_all_iff)
  have "he_order addrs ! (2 * i) = ?v6 ! i \<and> he_order addrs ! (2 * i + 1) = ?v4 ! i"
    unfolding he_order_def by (rule he_interleave_nth) (use assms in simp)
  moreover have "?P (?v6 ! i)" "\<not> ?P (?v4 ! i)"
    using nth_mem [OF assms(1)] nth_mem [OF assms(2)] by auto
  ultimately show ?thesis using m f by simp
qed

text \<open>
  C37: The loser of a Happy Eyeballs race makes the client reconnect although it is connected. Two
  attempts are in flight and the first one wins: the client is connected and the loser's end is
  queued. Delivering that notification moves the client to \<open>ReconnectWait\<close> and arms the reconnect
  timer, while the winner is still its live connection.
\<close>

theorem race_loser_schedules_reconnect:
  assumes "cl_pending cl = [w, l]" "w \<noteq> l" "\<not> cl_he_won cl" "cl_notify cl = []" "cc_auto_reconnect (cl_cfg cl)"
    "cl_objs cl w = Some (True, c)" "cl_objs cl l = Some (True, k)" "conn_wf k" "cn_state k \<noteq> Closed"
  shows "let cl1 = he_win E w cl; cl2 = on_conn_gone E l LocalClose (cl1\<lparr>cl_notify := []\<rparr>) in
     cl_state cl1 = Connected \<and> cl_notify cl1 = [(l, LocalClose)] \<and>
     cl_state cl2 = ReconnectWait \<and> armed cl2 TReconnect \<and> cl_conn cl2 = Some w \<and> cl_objs cl2 w = Some (True, c)"
proof -
  define cl0 where "cl0 = cl\<lparr>cl_he_won := True, cl_conn := Some w, cl_pending := [], cl_closing := cl_closing cl @ [l]\<rparr>"
  have k: "cl_objs cl0 l = Some (True, k)" by (simp add: cl0_def assms(7))
  obtain L k' where close: "cl_close E LocalClose l cl0 =
      cl0\<lparr>cl_objs := (cl_objs cl0)(l \<mapsto> (True, k')), cl_notify := cl_notify cl0 @ [(l, LocalClose)], cl_log := L\<rparr>"
    by (rule cl_close_open [OF k assms(8,9)])
  define cl1 where "cl1 = he_win E w cl"
  have f: "cl_state cl1 = Connected" "cl_notify cl1 = [(l, LocalClose)]" "cl_conn cl1 = Some w" "cl_pending cl1 = []"
    "l \<in> set (cl_closing cl1)" "cl_objs cl1 w = Some (True, c)" "cc_auto_reconnect (cl_cfg cl1)"
    using assms(1-6) close
    by (auto simp: cl1_def he_win_def Let_def he_lose_def cl0_def on_connected_def cl_cancel_group_def split: option.splits)
  define cl3 where "cl3 = (cl_destroy l (cl1\<lparr>cl_notify := []\<rparr>))\<lparr>cl_closing := remove1 l (cl_closing cl1)\<rparr>"
  have "on_conn_gone E l LocalClose (cl1\<lparr>cl_notify := []\<rparr>) = schedule_reconnect E cl3"
    using f assms(2) by (simp add: on_conn_gone_def reclaim_attempt_def cl3_def) (simp add: cl_destroy_def)
  moreover obtain d g b n where "schedule_reconnect E cl3 = cl_after d TReconnect g
      ((set_state ReconnectWait cl3)\<lparr>cl_cfg := (cl_cfg (set_state ReconnectWait cl3))\<lparr>cc_reconnect := b\<rparr>, cl_draws := n\<rparr>)"
    using schedule_eq [of cl3 E] f(7) by (auto simp: cl3_def cl_destroy_def)
  moreover have "cl_conn cl3 = Some w" "cl_objs cl3 w = Some (True, c)"
    using f assms(2) by (simp_all add: cl3_def cl_destroy_def)
  ultimately show ?thesis using f unfolding cl1_def [symmetric] Let_def by simp
qed

text \<open>
  Calling \<open>start\<close> again is not a no-op while the client waits to reconnect. It connects at once
  and leaves the reconnect timer armed; when that timer fires, it closes the connection that was
  opened in the meantime.
\<close>

theorem start_in_backoff_kills_connection:
  assumes "cl_conn cl = None" "\<not> cl_resolving cl" "cl_pending cl = []" "cl_closing cl = []" "armed cl TReconnect"
    and "cc_unix_target (cl_cfg cl) = None" "ce_parse E = Some a" "\<And>n. ce_create E n a = Inr fd" "\<And>n. ce_pool E n"
    and "conn_wf c" "cn_state c = Established"
  shows "let i = cl_next_id cl; cl1 = snd (client_start E cl);
           cl2 = fire E TReconnect (cl1\<lparr>cl_objs := (cl_objs cl1)(i \<mapsto> (False, c))\<rparr>) in
     cl_conn cl1 = Some i \<and> cl_state cl1 = ClConnecting \<and> armed cl1 TReconnect \<and>
     (i, LocalClose) \<in> set (cl_notify cl2) \<and> cl_objs cl2 i = None \<and> cl_conn cl2 = Some (Suc i)"
proof -
  let ?i = "cl_next_id cl"
  define f where "f = cl\<lparr>cl_group := cl_groups cl, cl_groups := Suc (cl_groups cl), cl_addrs := [a]\<rparr>"
  define cl1 where "cl1 = snd (client_start E cl)"
  have c: "begin_connect E x = connect_fd E (cl_tries x) fd a (x\<lparr>cl_addr_idx := 1, cl_tries := Suc (cl_tries x)\<rparr>)"
    if "cl_addrs x = [a]" for x :: "'a client"
    using that by (simp add: begin_connect_def connect_next.simps assms(8) Let_def)
  have "cl1 = begin_connect E f" using assms(1-7) by (simp add: cl1_def client_start_def f_def)
  also have "\<dots> = connect_fd E (cl_tries f) fd a (f\<lparr>cl_addr_idx := 1, cl_tries := Suc (cl_tries f)\<rparr>)"
    by (rule c) (simp add: f_def)
  finally have cl1: "cl_conn cl1 = Some ?i" "cl_state cl1 = ClConnecting" "armed cl1 TReconnect"
    "cl_addrs cl1 = [a]" "cl_next_id cl1 = Suc ?i"
    using assms(1,5,9) by (simp_all add: connect_fd_def f_def cl_construct_def Let_def)
  define y where "y = cl1\<lparr>cl_objs := (cl_objs cl1)(?i \<mapsto> (False, c)), cl_addr_idx := 1, cl_tries := Suc (cl_tries cl1)\<rparr>"
  have o: "cl_objs y ?i = Some (False, c)" "cn_state c \<noteq> Closed" using assms(11) by (simp_all add: y_def)
  obtain L c' where close: "cl_close E LocalClose ?i y =
      y\<lparr>cl_objs := (cl_objs y)(?i \<mapsto> (False, c')), cl_notify := cl_notify y @ [(?i, LocalClose)], cl_log := L\<rparr>"
    by (rule cl_close_open [OF o(1) assms(10) o(2)])
  have "fire E TReconnect (cl1\<lparr>cl_objs := (cl_objs cl1)(?i \<mapsto> (False, c))\<rparr>) = connect_fd E (cl_tries cl1) fd a y"
    using c [of "cl1\<lparr>cl_objs := (cl_objs cl1)(?i \<mapsto> (False, c))\<rparr>"] cl1(4) by (simp add: y_def)
  moreover have "cl_conn y = Some ?i" "cl_next_id y = Suc ?i" using cl1 by (simp_all add: y_def)
  ultimately show ?thesis
    using cl1 close unfolding cl1_def [symmetric] Let_def
    by (simp add: connect_fd_def Let_def assms(9) cl_construct_def cl_destroy_def)
qed

section \<open>Concrete inputs\<close>

definition sample_addr :: sock_addr where
  "sample_addr = \<lparr>sa_family = 2, sa_bytes = [127, 0, 0, 1]\<rparr>"

definition sample_addr6 :: sock_addr where
  "sample_addr6 = \<lparr>sa_family = 10, sa_bytes = [1]\<rparr>"

definition sample_backoff :: backoff where
  "sample_backoff = \<lparr>bo_initial = 100, bo_max = 30000, bo_jitter = 1 / 5, bo_current = 0\<rparr>"

definition sample_env :: "byte list client_env" where
  "sample_env = \<lparr>ce_handlers = plain_handlers, ce_on_shutdown = False, ce_parse = Some sample_addr, ce_getaddrinfo = None,
     ce_create = (\<lambda>_ _. Inr 3), ce_pool = (\<lambda>_. True), ce_jitter = (\<lambda>_. 1)\<rparr>"

definition sample_config :: client_config where
  "sample_config = \<lparr>cc_connect_timeout = 5000, cc_reconnect = sample_backoff, cc_auto_reconnect = True,
     cc_happy_eyeballs = True, cc_he_stagger = 250, cc_resolver = False, cc_unix_target = None, cc_params = plain_params\<rparr>"

definition sample_started :: "byte list client" where
  "sample_started = snd (client_start sample_env ((client_new sample_config)\<lparr>cl_now := 0, cl_deadline := dl_none\<rparr>))"

lemma sample_reach: "client_reach sample_env sample_config sample_started"
proof (rule client_reach.start)
  show "client_start sample_env ((client_new sample_config)\<lparr>cl_now := 0, cl_deadline := dl_none\<rparr>) = (Inr (), sample_started)"
    by (simp add: sample_started_def client_start_def client_new_def sample_config_def sample_env_def)
qed

lemma sample_fields:
  "cl_conn sample_started = Some 0" "\<not> he_mode sample_started" "cl_addrs sample_started = [sample_addr]"
  "cl_objs sample_started 0 = Some (False, conn_new 3 plain_params True)"
  by (simp_all add: sample_started_def client_start_def client_new_def sample_config_def sample_env_def begin_connect_def
      connect_next.simps connect_fd_def Let_def cl_construct_def he_mode_def)

lemma sample_kernel: "kernel_fds sample_env" "cc_auto_reconnect sample_config"
  by (simp_all add: kernel_fds_def sample_env_def sample_config_def)

theorem client_never_stuck_witness:
  "tracked sample_started 0 \<and> attended sample_started 0"
  using client_never_stuck [OF sample_reach sample_kernel] sample_fields(1) by (simp add: tracked_def)


theorem reconnect_delays_witness:
  "fst (backoff_next (backoff_after 3 sample_backoff)) = 800"
  using reconnect_delays [of sample_backoff "1 / 5" 1 3] by (simp add: sample_backoff_def Let_def)

theorem he_order_alternates_witness:
  "sa_family (he_order [sample_addr, sample_addr6] ! 0) = AF_INET6"
  using he_order_alternates [of 0 "[sample_addr, sample_addr6]"]
  by (simp add: sample_addr_def sample_addr6_def AF_INET6_def)

definition sample_race :: "byte list client" where
  "sample_race = (client_new sample_config)\<lparr>cl_pending := [0, 1], cl_state := ClConnecting,
     cl_objs := [0 \<mapsto> (True, conn_new 3 plain_params True), 1 \<mapsto> (True, conn_new 4 plain_params True)]\<rparr>"

theorem race_loser_schedules_reconnect_witness:
  "cl_state (on_conn_gone sample_env 1 LocalClose ((he_win sample_env 0 sample_race)\<lparr>cl_notify := []\<rparr>)) = ReconnectWait"
  using race_loser_schedules_reconnect [of sample_race 0 1 "conn_new 3 plain_params True" "conn_new 4 plain_params True" sample_env]
  by (simp add: sample_race_def client_new_def sample_config_def conn_new_wf Let_def)

definition sample_waiting :: "byte list client" where
  "sample_waiting = cl_after 100 TReconnect 1 ((client_new sample_config)\<lparr>cl_state := ReconnectWait\<rparr>)"

theorem start_in_backoff_kills_connection_witness:
  "cl_conn (snd (client_start sample_env sample_waiting)) = Some 0 \<and>
   armed (snd (client_start sample_env sample_waiting)) TReconnect"
proof -
  let ?c = "(conn_new 3 plain_params True :: byte list conn)\<lparr>cn_state := Established\<rparr>"
  have "conn_wf ?c" using conn_new_wf [of 3 plain_params True] by (simp add: conn_wf_def conn_new_def)
  then show ?thesis
    using start_in_backoff_kills_connection [of sample_waiting sample_env sample_addr 3 ?c]
    by (simp add: sample_waiting_def client_new_def sample_config_def sample_env_def Let_def)
qed

end
