(* ===== verification/Tcp_Server.thy ===== *)
theory Tcp_Server
  imports Conn_Owner
begin

text \<open>
  The TCP server (\<^verbatim>\<open>include/afx/net/tcp_server.hpp\<close>): opening the listener, the accept
  pipeline, the table of connections, the drain hooks and the destructor. The table is an
  association list from connection number to connection; what a connection closes and whom it
  notifies is read off its log. System calls and the pool are parameters (\<open>server_env\<close>); the
  kernel's side of the pipeline is the flag \<open>sv_accepting\<close>, an accept the kernel has yet to
  complete.
\<close>

record server_config =
  sc_bind :: sock_addr
  sc_unix_path :: string
  sc_max_connections :: nat
  sc_params :: conn_params

text \<open>\<open>se_submit n\<close> is the outcome of the \<open>n\<close>-th accept handed to the back end.\<close>

record 'm server_env =
  se_handlers :: "'m handlers"
  se_on_shutdown :: bool
  se_create :: "int result"
  se_bind :: "unit result"
  se_listen :: "unit result"
  se_local_addr :: "(sock_addr \<times> string) option"
  se_submit :: "nat \<Rightarrow> unit result"
  se_apply :: "int \<Rightarrow> bool"
  se_pool :: "nat \<Rightarrow> bool"

datatype server_call =
  SvUnlink string | SvCloseListen int | SvCancelAccept | SvDetach int | SvSubmitAccept int | SvReleaseSink
| SvAccepted int | SvCloseFd int | SvOnShutdown nat

record 'm server =
  sv_cfg :: server_config
  sv_listen_fd :: int
  sv_bound :: "(sock_addr \<times> string) option"
  sv_sink :: bool
  sv_conns :: "(nat \<times> 'm conn) list"
  sv_next_id :: nat
  sv_submits :: nat
  sv_accepting :: bool
  sv_internal_errors :: nat
  sv_accepts :: nat
  sv_conns_opened :: nat
  sv_notify :: "(nat \<times> close_reason) list"
  sv_log :: "server_call list"

definition server_new :: "server_config \<Rightarrow> 'm server" where
  "server_new cfg =
     \<lparr>sv_cfg = cfg, sv_listen_fd = - 1, sv_bound = None, sv_sink = False, sv_conns = [], sv_next_id = 0, sv_submits = 0,
      sv_accepting = False, sv_internal_errors = 0, sv_accepts = 0, sv_conns_opened = 0, sv_notify = [], sv_log = []\<rparr>"

definition sv_say :: "server_call \<Rightarrow> 'm server \<Rightarrow> 'm server" where
  "sv_say e sv = sv\<lparr>sv_log := sv_log sv @ [e]\<rparr>"

section \<open>Opening the listener\<close>

definition unlink_path :: "string \<Rightarrow> 'm server \<Rightarrow> 'm server" where
  "unlink_path p sv = (if p \<noteq> [] then sv_say (SvUnlink p) sv else sv)"

definition server_fail :: "error \<Rightarrow> 'm server \<Rightarrow> unit result \<times> 'm server" where
  "server_fail e sv =
     (Inl e, if 0 \<le> sv_listen_fd sv then (sv_say (SvCloseListen (sv_listen_fd sv)) sv)\<lparr>sv_listen_fd := - 1\<rparr> else sv)"

definition submit_accept :: "'m server_env \<Rightarrow> 'm server \<Rightarrow> unit result \<times> 'm server" where
  "submit_accept E sv =
     (let sv' = sv\<lparr>sv_submits := Suc (sv_submits sv)\<rparr> in
      case se_submit E (sv_submits sv) of
        Inl e \<Rightarrow> (Inl e, sv')
      | Inr _ \<Rightarrow> (Inr (), (sv_say (SvSubmitAccept (sv_listen_fd sv)) sv')\<lparr>sv_accepting := True\<rparr>))"

definition server_open :: "'m server_env \<Rightarrow> 'm server \<Rightarrow> unit result \<times> 'm server" where
  "server_open E sv =
     (case se_create E of
        Inl e \<Rightarrow> (Inl e, sv)
      | Inr fd \<Rightarrow>
          let sv = sv\<lparr>sv_listen_fd := fd\<rparr>;
              sv = (if sa_family (sc_bind (sv_cfg sv)) = AF_UNIX then unlink_path (sc_unix_path (sv_cfg sv)) sv else sv)
          in case se_bind E of
               Inl e \<Rightarrow> server_fail e sv
             | Inr _ \<Rightarrow>
                 (case se_listen E of
                    Inl e \<Rightarrow> server_fail e sv
                  | Inr _ \<Rightarrow> submit_accept E (sv\<lparr>sv_bound := se_local_addr E, sv_sink := True\<rparr>)))"

section \<open>Connections\<close>

text \<open>The calls of a connection that reach the server, and the descriptors it closes.\<close>

definition sv_call :: "nat \<Rightarrow> 'm conn_event \<Rightarrow> 'm server \<Rightarrow> 'm server" where
  "sv_call i e sv =
     (case e of
        EvNotify r d \<Rightarrow> sv\<lparr>sv_notify := sv_notify sv @ [(i, r)]\<rparr>
      | EvCloseFd fd \<Rightarrow> sv_say (SvCloseFd fd) sv
      | _ \<Rightarrow> sv)"

definition sv_update :: "nat \<Rightarrow> 'm conn \<Rightarrow> 'm conn \<Rightarrow> 'm server \<Rightarrow> 'm server" where
  "sv_update i c c' sv = fold (sv_call i) (new_events c c') (sv\<lparr>sv_conns := AList.update i c' (sv_conns sv)\<rparr>)"

definition close_conn :: "'m server_env \<Rightarrow> nat \<Rightarrow> close_reason \<Rightarrow> 'm server \<Rightarrow> 'm server" where
  "close_conn E i r sv =
     (case map_of (sv_conns sv) i of
        None \<Rightarrow> sv
      | Some c \<Rightarrow> sv_update i c (conn_close (se_handlers E) r c) sv)"

definition sv_destroy :: "nat \<Rightarrow> 'm conn \<Rightarrow> 'm server \<Rightarrow> 'm server" where
  "sv_destroy i c sv = fold (sv_call i) (new_events c (conn_destroy c)) sv"

definition sv_conn_gone :: "nat \<Rightarrow> 'm server \<Rightarrow> 'm server" where
  "sv_conn_gone i sv =
     (case map_of (sv_conns sv) i of
        None \<Rightarrow> sv
      | Some c \<Rightarrow> sv_destroy i c (sv\<lparr>sv_conns := AList.delete i (sv_conns sv)\<rparr>))"

definition sv_op :: "'m server_env \<Rightarrow> nat \<Rightarrow> conn_op \<Rightarrow> 'm server \<Rightarrow> 'm server option" where
  "sv_op E i op sv =
     (case map_of (sv_conns sv) i of
        None \<Rightarrow> Some sv
      | Some c \<Rightarrow> map_option (\<lambda>c'. sv_update i c c' sv) (conn_step (se_handlers E) op c))"

section \<open>Accepting\<close>

definition close_accepted :: "int \<Rightarrow> 'm server \<Rightarrow> 'm server" where
  "close_accepted cfd sv = sv_say (SvCloseFd cfd) sv"

definition adopt :: "'m server_env \<Rightarrow> int \<Rightarrow> 'm server \<Rightarrow> 'm server option" where
  "adopt E cfd sv =
     (let i = sv_next_id sv;
          c = conn_new cfd (sc_params (sv_cfg sv)) True;
          sv = sv\<lparr>sv_next_id := Suc i, sv_conns := sv_conns sv @ [(i, c)], sv_conns_opened := Suc (sv_conns_opened sv)\<rparr>
      in map_option (\<lambda>c'. sv_update i c c' sv) (conn_start (se_handlers E) c))"

definition on_accept :: "'m server_env \<Rightarrow> bool \<Rightarrow> int \<Rightarrow> 'm server \<Rightarrow> 'm server option" where
  "on_accept E multi res sv =
     (let sv = (if \<not> multi \<and> res \<noteq> - ECANCELED then snd (submit_accept E sv) else sv) in
      if res < 0
      then Some (if res \<noteq> - ECANCELED then sv\<lparr>sv_internal_errors := Suc (sv_internal_errors sv)\<rparr> else sv)
      else
        let sv = sv_say (SvAccepted res) (sv\<lparr>sv_accepts := Suc (sv_accepts sv)\<rparr>) in
        if sc_max_connections (sv_cfg sv) \<le> length (sv_conns sv) then Some (close_accepted res sv)
        else if \<not> se_apply E res then Some (close_accepted res sv)
        else if \<not> se_pool E (sv_next_id sv) then Some (close_accepted res sv)
        else adopt E res sv)"

definition dispatch_accept :: "'m server_env \<Rightarrow> op_kind \<Rightarrow> bool \<Rightarrow> int \<Rightarrow> 'm server \<Rightarrow> 'm server option" where
  "dispatch_accept E kind multi res sv = (if kind = KAccept then on_accept E multi res sv else Some sv)"

section \<open>Draining and destruction\<close>

definition stop_accepting :: "'m server \<Rightarrow> 'm server" where
  "stop_accepting sv =
     (if sv_listen_fd sv < 0 then sv
      else let sv = (sv_say (SvCloseListen (sv_listen_fd sv))
                       (sv_say (SvDetach (sv_listen_fd sv)) (sv_say SvCancelAccept sv)))\<lparr>sv_listen_fd := - 1\<rparr>
           in case sv_bound sv of
                Some (a, p) \<Rightarrow> if sa_family a = AF_UNIX then unlink_path p sv else sv
              | None \<Rightarrow> sv)"

definition notify_shutdown :: "'m server_env \<Rightarrow> 'm server \<Rightarrow> 'm server" where
  "notify_shutdown E sv =
     (if \<not> se_on_shutdown E then sv else fold (\<lambda>p. sv_say (SvOnShutdown (fst p))) (sv_conns sv) sv)"

definition drained :: "'m server \<Rightarrow> bool" where
  "drained sv \<longleftrightarrow> list_all (\<lambda>p. ib_size (cn_write_buf (snd p)) = 0) (sv_conns sv)"

definition half_close :: "nat \<Rightarrow> 'm server \<Rightarrow> 'm server" where
  "half_close i sv =
     (case map_of (sv_conns sv) i of None \<Rightarrow> sv | Some c \<Rightarrow> sv_update i c (shutdown_write c) sv)"

definition half_close_all :: "'m server \<Rightarrow> 'm server" where
  "half_close_all sv = fold half_close (map fst (sv_conns sv)) sv"

text \<open>
  The destructor works on a detached copy of the table, so the notifications that a stopped event
  manager delivers at once find nothing to erase.
\<close>

definition close_and_destroy :: "'m server_env \<Rightarrow> nat \<times> 'm conn \<Rightarrow> 'm server \<Rightarrow> 'm server" where
  "close_and_destroy E p sv =
     (let c = snd p;
          c' = conn_close (se_handlers E) ShutdownClose c
      in sv_destroy (fst p) c' (fold (sv_call (fst p)) (new_events c c') sv))"

definition server_destroy :: "'m server_env \<Rightarrow> 'm server \<Rightarrow> 'm server" where
  "server_destroy E sv =
     (let conns = sv_conns sv;
          sv = fold (close_and_destroy E) conns (sv\<lparr>sv_conns := []\<rparr>);
          sv = stop_accepting sv
      in if sv_sink sv then (sv_say SvReleaseSink sv)\<lparr>sv_sink := False\<rparr> else sv)"

definition sv_enumerate :: "'m server \<Rightarrow> (nat \<times> conn_state \<times> nat) list" where
  "sv_enumerate sv = map (\<lambda>(i, c). (i, cn_state c, ib_size (cn_write_buf c))) (sv_conns sv)"

section \<open>Runs\<close>

text \<open>
  A step of a server that is open. A terminal accept completion uses up the outstanding accept, and
  the kernel reports a cancelled one only once the listener is gone.
\<close>

inductive server_step :: "'m server_env \<Rightarrow> 'm server \<Rightarrow> 'm server \<Rightarrow> bool" for E where
  accept: "sv_accepting sv \<Longrightarrow> res = - ECANCELED \<longrightarrow> sv_listen_fd sv < 0 \<Longrightarrow>
           dispatch_accept E KAccept multi res (sv\<lparr>sv_accepting := multi\<rparr>) = Some sv' \<Longrightarrow> server_step E sv sv'"
| op: "sv_op E i op sv = Some sv' \<Longrightarrow> no_fds op \<Longrightarrow> server_step E sv sv'"
| notify: "sv_notify sv = (i, r) # ns \<Longrightarrow> server_step E sv (sv_conn_gone i (sv\<lparr>sv_notify := ns\<rparr>))"
| close: "server_step E sv (close_conn E i r sv)"
| stop: "server_step E sv (stop_accepting sv)"
| tell: "server_step E sv (notify_shutdown E sv)"
| half_close: "server_step E sv (half_close_all sv)"

inductive server_reach :: "'m server_env \<Rightarrow> server_config \<Rightarrow> 'm server \<Rightarrow> bool" for E cfg where
  opened: "server_open E (server_new cfg) = (Inr (), sv) \<Longrightarrow> server_reach E cfg sv"
| step: "server_reach E cfg sv \<Longrightarrow> server_step E sv sv' \<Longrightarrow> server_reach E cfg sv'"

end
