(* ===== verification/Server_Runs.thy ===== *)
theory Server_Runs
  imports Tcp_Server
begin

text \<open>
  Runs of a server: the table stays within its bound, every accepted descriptor is held by exactly
  one open connection or has been closed exactly once, and the accept pipeline stays armed.
\<close>

section \<open>Descriptors\<close>

fun sv_accepted :: "server_call list \<Rightarrow> int list" where
  "sv_accepted [] = []"
| "sv_accepted (SvAccepted fd # es) = fd # sv_accepted es"
| "sv_accepted (e # es) = sv_accepted es"

fun sv_returned :: "server_call list \<Rightarrow> int list" where
  "sv_returned [] = []"
| "sv_returned (SvCloseFd fd # es) = fd # sv_returned es"
| "sv_returned (e # es) = sv_returned es"

lemma sv_accepted_append [simp]: "sv_accepted (es @ fs) = sv_accepted es @ sv_accepted fs"
  by (induction es rule: sv_accepted.induct) simp_all

lemma sv_returned_append [simp]: "sv_returned (es @ fs) = sv_returned es @ sv_returned fs"
  by (induction es rule: sv_returned.induct) simp_all

abbreviation sv_held :: "(nat \<times> 'm conn) list \<Rightarrow> int multiset" where
  "sv_held cs \<equiv> held (\<lambda>c. cn_state c = Closed) cn_fd cs"

definition sv_inv :: "'m server \<Rightarrow> bool" where
  "sv_inv sv \<longleftrightarrow>
     distinct (map fst (sv_conns sv)) \<and> (\<forall>i c. (i, c) \<in> set (sv_conns sv) \<longrightarrow> i < sv_next_id sv \<and> conn_wf c) \<and>
     length (sv_conns sv) \<le> sc_max_connections (sv_cfg sv) \<and>
     mset (sv_accepted (sv_log sv)) = mset (sv_returned (sv_log sv)) + sv_held (sv_conns sv)"

lemma fold_sv_call:
  "\<exists>n L. fold (sv_call i) es sv = sv\<lparr>sv_notify := n, sv_log := L\<rparr> \<and> sv_accepted L = sv_accepted (sv_log sv) \<and>
     sv_returned L = sv_returned (sv_log sv) @ closed_fds es"
proof (induction es arbitrary: sv)
  case Nil
  show ?case by (intro exI [of _ "sv_notify sv"] exI [of _ "sv_log sv"]) simp
next
  case (Cons e es)
  have "\<exists>n L. sv_call i e sv = sv\<lparr>sv_notify := n, sv_log := L\<rparr> \<and> sv_accepted L = sv_accepted (sv_log sv) \<and>
      sv_returned L = sv_returned (sv_log sv) @ closed_fds [e]"
    by (rule exI [of _ "sv_notify (sv_call i e sv)"], rule exI [of _ "sv_log (sv_call i e sv)"])
      (cases e; simp add: sv_call_def sv_say_def)
  then obtain n L where 1: "sv_call i e sv = sv\<lparr>sv_notify := n, sv_log := L\<rparr>" "sv_accepted L = sv_accepted (sv_log sv)"
    "sv_returned L = sv_returned (sv_log sv) @ closed_fds [e]" by blast
  obtain n' L' where 2: "fold (sv_call i) es (sv_call i e sv) = (sv_call i e sv)\<lparr>sv_notify := n', sv_log := L'\<rparr>"
    "sv_accepted L' = sv_accepted (sv_log (sv_call i e sv))"
    "sv_returned L' = sv_returned (sv_log (sv_call i e sv)) @ closed_fds es" using Cons.IH by blast
  have "closed_fds (e # es) = closed_fds [e] @ closed_fds es" using closed_fds_append [of "[e]" es] by simp
  with 1 2 show ?case by (intro exI [of _ n'] exI [of _ L']) simp
qed

lemma update_keys: "map_of cs i = Some c \<Longrightarrow> map fst (AList.update i c' cs) = map fst cs"
  by (induction cs) (auto split: if_splits)

lemma update_set: "(j, d) \<in> set (AList.update i c' cs) \<Longrightarrow> (j, d) \<in> set cs \<or> j = i \<and> d = c'"
  by (induction cs) (auto split: if_splits)

lemma update_length: "map_of cs i = Some c \<Longrightarrow> length (AList.update i c' cs) = length cs"
  using arg_cong [OF update_keys, of cs i c length c'] by simp

lemma sv_update_fields:
  "\<exists>n L. sv_update i c c' sv = sv\<lparr>sv_conns := AList.update i c' (sv_conns sv), sv_notify := n, sv_log := L\<rparr> \<and>
     sv_accepted L = sv_accepted (sv_log sv) \<and> sv_returned L = sv_returned (sv_log sv) @ closed_fds (new_events c c')"
  using fold_sv_call [of i "new_events c c'" "sv\<lparr>sv_conns := AList.update i c' (sv_conns sv)\<rparr>"]
  by (auto simp: sv_update_def)

lemma sv_update_inv:
  assumes "sv_inv sv" "map_of (sv_conns sv) i = Some c" "step c c'"
  shows "sv_inv (sv_update i c c' sv)"
proof -
  obtain n L where f: "sv_update i c c' sv = sv\<lparr>sv_conns := AList.update i c' (sv_conns sv), sv_notify := n, sv_log := L\<rparr>"
    "sv_accepted L = sv_accepted (sv_log sv)" "sv_returned L = sv_returned (sv_log sv) @ closed_fds (new_events c c')"
    using sv_update_fields [of i c c' sv] by blast
  have m: "(i, c) \<in> set (sv_conns sv)" by (rule map_of_SomeD [OF assms(2)])
  then have wf: "conn_wf c" "i < sv_next_id sv" using assms(1) by (auto simp: sv_inv_def)
  have "conn_wf c'" by (rule conn_fds.keeps_ok [OF assms(3) wf(1)])
  moreover have "sv_held (sv_conns sv) = mset (closed_fds (new_events c c')) + sv_held (AList.update i c' (sv_conns sv))"
    by (rule conn_fds.held_update [OF assms(3) wf(1) assms(2)])
  ultimately show ?thesis
    using assms(1) wf(2) unfolding f(1) sv_inv_def
    by (auto simp: f(2,3) update_keys [OF assms(2)] update_length [OF assms(2)] ac_simps dest!: update_set)
qed

text \<open>Destroying a connection that is still open gives its descriptor back, too.\<close>

lemma destroy_fds:
  assumes "conn_wf c"
  shows "closed_fds (new_events c (conn_destroy c)) = (if cn_state c = Closed then [] else [cn_fd c])"
  using assms by (auto simp: conn_destroy_def release_group_def release_fd_def emit_def new_events_def conn_wf_def)

lemma delete_held:
  "map_of cs i = Some c \<Longrightarrow> distinct (map fst cs) \<Longrightarrow>
   sv_held cs = (if cn_state c = Closed then {#} else {#cn_fd c#}) + sv_held (AList.delete i cs)"
proof (induction cs)
  case (Cons p cs)
  have "filter (\<lambda>(k', _). i \<noteq> k') cs = cs" if "i \<notin> fst ` set cs" using that by (intro filter_True) force
  with Cons show ?case by (cases p) (auto split: if_splits simp: AList.delete_eq)
qed simp

lemma gone_sv_inv:
  assumes "sv_inv sv"
  shows "sv_inv (sv_conn_gone i sv)"
proof (cases "map_of (sv_conns sv) i")
  case None
  with assms show ?thesis by (simp add: sv_conn_gone_def)
next
  case (Some c)
  have c: "conn_wf c" using assms map_of_SomeD [OF Some] by (auto simp: sv_inv_def)
  have d: "distinct (map fst (sv_conns sv))" using assms by (simp add: sv_inv_def)
  obtain n L where f: "sv_conn_gone i sv = sv\<lparr>sv_conns := AList.delete i (sv_conns sv), sv_notify := n, sv_log := L\<rparr>"
    "sv_accepted L = sv_accepted (sv_log sv)"
    "sv_returned L = sv_returned (sv_log sv) @ closed_fds (new_events c (conn_destroy c))"
    using fold_sv_call [of i "new_events c (conn_destroy c)" "sv\<lparr>sv_conns := AList.delete i (sv_conns sv)\<rparr>"]
    by (auto simp: sv_conn_gone_def sv_destroy_def Some)
  show ?thesis
    using assms delete_held [OF Some d] distinct_delete [OF d, of i] unfolding f(1) sv_inv_def
    by (auto simp: f(2,3) destroy_fds [OF c] AList.delete_eq intro: le_trans [OF length_filter_le] split: if_splits)
qed

lemma say_inv:
  assumes "sv_inv sv" "sv_accepted [e] = []" "sv_returned [e] = []"
  shows "sv_inv (sv_say e sv)"
  using assms by (simp add: sv_inv_def sv_say_def)

lemma stop_inv: "sv_inv sv \<Longrightarrow> sv_inv (stop_accepting sv)"
  by (simp add: stop_accepting_def unlink_path_def sv_inv_def sv_say_def Let_def split: option.splits prod.splits)

lemma notify_shutdown_inv: "sv_inv sv \<Longrightarrow> sv_inv (notify_shutdown E sv)"
proof -
  have "sv_inv sv \<Longrightarrow> sv_inv (fold (\<lambda>p. sv_say (SvOnShutdown (fst p))) ps sv)" for ps :: "(nat \<times> 'a conn) list" and sv :: "'a server"
    by (induction ps arbitrary: sv) (simp_all add: say_inv)
  then show "sv_inv sv \<Longrightarrow> sv_inv (notify_shutdown E sv)" by (simp add: notify_shutdown_def)
qed

lemma half_close_inv: "sv_inv sv \<Longrightarrow> sv_inv (half_close_all sv)"
proof -
  have "sv_inv sv \<Longrightarrow> sv_inv (half_close i sv)" for i and sv :: "'a server"
    by (auto simp: half_close_def intro: sv_update_inv step_shutdown_write split: option.splits)
  then have "sv_inv sv \<Longrightarrow> sv_inv (fold half_close is sv)" for "is" and sv :: "'a server"
    by (induction "is" arbitrary: sv) simp_all
  then show "sv_inv sv \<Longrightarrow> sv_inv (half_close_all sv)" by (simp add: half_close_all_def)
qed

lemma close_conn_inv: "sv_inv sv \<Longrightarrow> sv_inv (close_conn E i r sv)"
  by (auto simp: close_conn_def intro: sv_update_inv step_close split: option.splits)

lemma op_sv_inv: "sv_inv sv \<Longrightarrow> sv_op E i op sv = Some sv' \<Longrightarrow> no_fds op \<Longrightarrow> sv_inv sv'"
  by (auto simp: sv_op_def intro!: sv_update_inv elim: step_conn_step split: option.splits)

section \<open>Accepting\<close>

lemma submit_inv: "sv_inv sv \<Longrightarrow> sv_inv (snd (submit_accept E sv))"
  by (simp add: submit_accept_def sv_inv_def sv_say_def Let_def split: sum.splits)

lemma refuse_inv:
  assumes "sv_inv sv"
  shows "sv_inv (close_accepted fd (sv_say (SvAccepted fd) sv))"
  using assms by (simp add: sv_inv_def close_accepted_def sv_say_def)

lemma adopt_inv:
  fixes sv :: "'m server"
  assumes "sv_inv sv" "0 \<le> fd" "length (sv_conns sv) < sc_max_connections (sv_cfg sv)"
    "adopt E fd (sv_say (SvAccepted fd) sv) = Some sv'"
  shows "sv_inv sv'"
proof -
  let ?i = "sv_next_id sv" and ?c = "conn_new fd (sc_params (sv_cfg sv)) True :: 'm conn"
  define sv1 where "sv1 = (sv_say (SvAccepted fd) sv)\<lparr>sv_next_id := Suc ?i, sv_conns := sv_conns sv @ [(?i, ?c)],
     sv_conns_opened := Suc (sv_conns_opened sv)\<rparr>"
  have c: "conn_wf ?c" "cn_state ?c = Connecting" "cn_fd ?c = fd"
    by (simp_all add: conn_new_wf assms(2)) (simp_all add: conn_new_def)
  have new: "?i \<notin> fst ` set (sv_conns sv)" using assms(1) by (fastforce simp: sv_inv_def)
  then have n: "map_of (sv_conns sv) ?i = None" by (simp add: map_of_eq_None_iff)
  have "sv_inv sv1"
    using new assms(1,3) c by (auto simp: sv_inv_def sv1_def sv_say_def less_Suc_eq)
  moreover have "map_of (sv_conns sv1) ?i = Some ?c"
    by (simp add: sv1_def map_add_def n)
  moreover obtain c' where c': "conn_start (se_handlers E) ?c = Some c'" "sv' = sv_update ?i ?c c' sv1"
    using assms(4) by (auto simp: adopt_def Let_def sv1_def sv_say_def)
  moreover have "step ?c c'" by (rule step_start [OF c'(1) c(2)])
  ultimately show ?thesis using sv_update_inv by blast
qed

lemma accept_inv:
  assumes "sv_inv sv" "on_accept E multi res sv = Some sv'"
  shows "sv_inv sv'"
proof -
  define sv1 where "sv1 = (if \<not> multi \<and> res \<noteq> - ECANCELED then snd (submit_accept E sv) else sv)"
  have 1: "sv_inv sv1" using assms(1) submit_inv [OF assms(1), of E] by (simp add: sv1_def)
  define sv2 where "sv2 = sv1\<lparr>sv_accepts := Suc (sv_accepts sv1)\<rparr>"
  have 2: "sv_inv sv2" using 1 by (simp add: sv_inv_def sv2_def)
  show ?thesis
  proof (cases "res < 0")
    case True
    then show ?thesis
      using assms(2) 1 unfolding on_accept_def Let_def sv1_def [symmetric] by (auto simp: sv_inv_def split: if_splits)
  next
    case False
    then show ?thesis
      using assms(2) refuse_inv [OF 2, of res] adopt_inv [OF 2, of res E sv']
      unfolding on_accept_def Let_def sv1_def [symmetric] sv2_def [symmetric] by (auto simp: sv_say_def split: if_splits)
  qed
qed

lemma open_inv: "server_open E (server_new cfg) = (Inr (), sv) \<Longrightarrow> sv_inv sv \<and> sv_cfg sv = cfg"
  by (auto simp: server_open_def server_fail_def submit_accept_def unlink_path_def server_new_def sv_say_def sv_inv_def Let_def
      split: sum.splits if_splits)

lemma step_sv_inv: "server_step E sv sv' \<Longrightarrow> sv_inv sv \<Longrightarrow> sv_inv sv'"
proof (induction rule: server_step.induct)
  case (accept sv res multi sv')
  then have "sv_inv (sv\<lparr>sv_accepting := multi\<rparr>)" by (simp add: sv_inv_def)
  with accept show ?case using accept_inv by (simp add: dispatch_accept_def)
next
  case (notify sv i r ns)
  then have "sv_inv (sv\<lparr>sv_notify := ns\<rparr>)" by (simp add: sv_inv_def)
  then show ?case by (rule gone_sv_inv)
qed (simp_all add: op_sv_inv close_conn_inv stop_inv notify_shutdown_inv half_close_inv)

lemma reach_sv_inv: "server_reach E cfg sv \<Longrightarrow> sv_inv sv"
  by (induction rule: server_reach.induct) (use open_inv step_sv_inv in blast)+

section \<open>The accept pipeline\<close>

definition listening :: "'m server \<Rightarrow> bool" where
  "listening sv \<longleftrightarrow> sv_listen_fd sv < 0 \<or> sv_accepting sv"

lemma sv_update_listening [simp]:
  "sv_listen_fd (sv_update i c c' sv) = sv_listen_fd sv" "sv_accepting (sv_update i c c' sv) = sv_accepting sv"
  using sv_update_fields [of i c c' sv] by auto

lemma submit_listening: "se_submit E = (\<lambda>_. Inr ()) \<Longrightarrow> sv_accepting (snd (submit_accept E sv))"
  by (simp add: submit_accept_def Let_def)

lemma gone_listening: "listening (sv_conn_gone i sv) = listening sv"
proof (cases "map_of (sv_conns sv) i")
  case (Some c)
  show ?thesis
    using fold_sv_call [of i "new_events c (conn_destroy c)" "sv\<lparr>sv_conns := AList.delete i (sv_conns sv)\<rparr>"]
    by (auto simp: sv_conn_gone_def sv_destroy_def Some listening_def)
qed (simp add: sv_conn_gone_def)

lemma accept_listening:
  assumes "se_submit E = (\<lambda>_. Inr ())" "on_accept E multi res (sv\<lparr>sv_accepting := multi\<rparr>) = Some sv'"
    "res = - ECANCELED \<longrightarrow> sv_listen_fd sv < 0"
  shows "listening sv'"
proof -
  define sv1 where "sv1 = (if \<not> multi \<and> res \<noteq> - ECANCELED then snd (submit_accept E (sv\<lparr>sv_accepting := multi\<rparr>))
    else sv\<lparr>sv_accepting := multi\<rparr>)"
  have 1: "listening sv1"
    using submit_listening [OF assms(1), of "sv\<lparr>sv_accepting := multi\<rparr>"] assms(3) by (auto simp: sv1_def listening_def)
  show ?thesis
    using assms(2) 1 unfolding on_accept_def Let_def sv1_def [symmetric]
    by (auto simp: close_accepted_def sv_say_def adopt_def Let_def listening_def split: if_splits)
qed

lemma half_close_listening: "listening (half_close_all sv) = listening sv"
proof -
  have "listening (half_close i sv) = listening sv" for i and sv :: "'a server"
    by (auto simp: half_close_def listening_def split: option.splits)
  then have "listening (fold half_close is sv) = listening sv" for "is" and sv :: "'a server"
    by (induction "is" arbitrary: sv) simp_all
  then show ?thesis by (simp add: half_close_all_def)
qed

lemma notify_listening: "listening (notify_shutdown E sv) = listening sv"
proof -
  have "listening (fold (\<lambda>p. sv_say (SvOnShutdown (fst p))) ps sv) = listening sv" for ps :: "(nat \<times> 'a conn) list" and sv :: "'a server"
    by (induction ps arbitrary: sv) (simp_all add: listening_def sv_say_def)
  then show ?thesis by (simp add: notify_shutdown_def)
qed

lemma step_listening:
  "server_step E sv sv' \<Longrightarrow> se_submit E = (\<lambda>_. Inr ()) \<Longrightarrow> listening sv \<Longrightarrow> listening sv'"
proof (induction rule: server_step.induct)
  case (accept sv res multi sv')
  then show ?case using accept_listening by (simp add: dispatch_accept_def)
next
  case (op i op sv sv')
  then show ?case by (auto simp: sv_op_def listening_def split: option.splits)
next
  case (notify sv i r ns)
  then show ?case by (simp add: gone_listening) (simp add: listening_def)
next
  case (close sv i r)
  then show ?case by (auto simp: close_conn_def listening_def split: option.splits)
next
  case (stop sv)
  then show ?case by (simp add: stop_accepting_def unlink_path_def listening_def sv_say_def Let_def split: option.splits prod.splits)
qed (simp_all add: half_close_listening notify_listening)

section \<open>Properties\<close>

text \<open>
  C7: Descriptors are conserved and the table is bounded. In every reachable state of a server the
  descriptors accepted so far are exactly those closed so far together with those of its open
  connections, counted with multiplicity: none is lost, none is closed twice and none is closed
  while its connection uses it. The table never exceeds the configured maximum.
\<close>

theorem server_conserves_descriptors:
  assumes "server_reach E cfg sv"
  shows "mset (sv_accepted (sv_log sv)) =
           mset (sv_returned (sv_log sv)) + sv_held (sv_conns sv) \<and>
         length (sv_conns sv) \<le> sc_max_connections (sv_cfg sv)"
  using reach_sv_inv [OF assms] by (simp add: sv_inv_def)


lemma close_and_destroy_fds:
  assumes "conn_wf c"
  shows "\<exists>n L. close_and_destroy E (i, c) sv = sv\<lparr>sv_notify := n, sv_log := L\<rparr> \<and> sv_accepted L = sv_accepted (sv_log sv) \<and>
     mset (sv_returned L) = mset (sv_returned (sv_log sv)) + sv_held [(i, c)]"
proof -
  let ?c = "conn_close (se_handlers E) ShutdownClose c"
  have wf: "conn_wf ?c" "cn_state ?c = Closed"
  proof -
    show "conn_wf ?c" using step_close [of c] assms by (simp add: step_def)
    show "cn_state ?c = Closed"
      using assms by (cases "cn_state c = Closed") (auto simp: conn_close_closed elim: conn_close_open [of c "se_handlers E" ShutdownClose])
  qed
  have f: "mset (closed_fds (new_events c ?c)) = sv_held [(i, c)]"
    using conn_fds.one_step [where i = i, OF step_close [of c "se_handlers E" ShutdownClose] assms] wf by simp
  obtain n L where 1: "fold (sv_call i) (new_events c ?c) sv = sv\<lparr>sv_notify := n, sv_log := L\<rparr>"
    "sv_accepted L = sv_accepted (sv_log sv)" "sv_returned L = sv_returned (sv_log sv) @ closed_fds (new_events c ?c)"
    using fold_sv_call by blast
  obtain n' L' where 2: "sv_destroy i ?c (sv\<lparr>sv_notify := n, sv_log := L\<rparr>) = sv\<lparr>sv_notify := n', sv_log := L'\<rparr>"
    "sv_accepted L' = sv_accepted L" "sv_returned L' = sv_returned L"
    using fold_sv_call [of i "new_events ?c (conn_destroy ?c)" "sv\<lparr>sv_notify := n, sv_log := L\<rparr>"] destroy_fds [OF wf(1)] wf(2)
    by (auto simp: sv_destroy_def)
  show ?thesis
    by (rule exI [of _ n'], rule exI [of _ L']) (use 1 2 f in \<open>simp add: close_and_destroy_def Let_def\<close>)
qed

lemma destroy_conns_fds:
  "(\<And>i c. (i, c) \<in> set ps \<Longrightarrow> conn_wf c) \<Longrightarrow>
   \<exists>n L. fold (close_and_destroy E) ps sv = sv\<lparr>sv_notify := n, sv_log := L\<rparr> \<and> sv_accepted L = sv_accepted (sv_log sv) \<and>
     mset (sv_returned L) = mset (sv_returned (sv_log sv)) + sv_held ps"
proof (induction ps arbitrary: sv)
  case Nil
  show ?case by (intro exI [of _ "sv_notify sv"] exI [of _ "sv_log sv"]) simp
next
  case (Cons p ps)
  obtain i c where p: "p = (i, c)" by (cases p)
  have wf: "conn_wf c" using Cons.prems [of i c] p by simp
  obtain n L where 1: "close_and_destroy E (i, c) sv = sv\<lparr>sv_notify := n, sv_log := L\<rparr>" "sv_accepted L = sv_accepted (sv_log sv)"
    "mset (sv_returned L) = mset (sv_returned (sv_log sv)) + sv_held [(i, c)]"
    using close_and_destroy_fds [OF wf] by blast
  obtain n' L' where "fold (close_and_destroy E) ps (sv\<lparr>sv_notify := n, sv_log := L\<rparr>) = sv\<lparr>sv_notify := n', sv_log := L'\<rparr>"
      "sv_accepted L' = sv_accepted L" "mset (sv_returned L') = mset (sv_returned L) + sv_held ps"
    using Cons.IH [of "sv\<lparr>sv_notify := n, sv_log := L\<rparr>"] Cons.prems by auto
  with 1 show ?case by (intro exI [of _ n'] exI [of _ L']) (simp add: p)
qed

text \<open>
  The destructor returns every descriptor. Destroying a server in any reachable state leaves an
  empty table, no open listener, and exactly the accepted descriptors closed, once each.
\<close>

theorem server_destroy_returns_descriptors:
  assumes "server_reach E cfg sv"
  shows "let sv' = server_destroy E sv in
     sv_conns sv' = [] \<and> sv_listen_fd sv' < 0 \<and> \<not> sv_sink sv' \<and>
     mset (sv_returned (sv_log sv')) = mset (sv_accepted (sv_log sv'))"
proof -
  have inv: "sv_inv sv" by (rule reach_sv_inv [OF assms])
  then have "\<And>i c. (i, c) \<in> set (sv_conns sv) \<Longrightarrow> conn_wf c" by (auto simp: sv_inv_def)
  then obtain n L where f: "fold (close_and_destroy E) (sv_conns sv) (sv\<lparr>sv_conns := []\<rparr>) = sv\<lparr>sv_conns := [], sv_notify := n, sv_log := L\<rparr>"
    "sv_accepted L = sv_accepted (sv_log sv)" "mset (sv_returned L) = mset (sv_returned (sv_log sv)) + sv_held (sv_conns sv)"
    using destroy_conns_fds [of "sv_conns sv" E "sv\<lparr>sv_conns := []\<rparr>"] by auto
  then have "mset (sv_returned L) = mset (sv_accepted L)" using inv by (simp add: sv_inv_def)
  then show ?thesis
    by (simp add: server_destroy_def f(1) stop_accepting_def unlink_path_def sv_say_def Let_def split: option.splits prod.splits)
qed

section \<open>Concrete inputs\<close>

definition sample_server_env :: "byte list server_env" where
  "sample_server_env = \<lparr>se_handlers = plain_handlers, se_on_shutdown = False, se_create = Inr 3, se_bind = Inr (), se_listen = Inr (),
     se_local_addr = None, se_submit = (\<lambda>_. Inr ()), se_apply = (\<lambda>_. False), se_pool = (\<lambda>_. True)\<rparr>"

definition sample_server_config :: server_config where
  "sample_server_config = \<lparr>sc_bind = \<lparr>sa_family = 2, sa_bytes = []\<rparr>, sc_unix_path = [], sc_max_connections = 8,
     sc_params = plain_params\<rparr>"

definition sample_opened :: "byte list server" where
  "sample_opened = snd (server_open sample_server_env (server_new sample_server_config))"

definition sample_refused :: "byte list server" where
  "sample_refused = the (dispatch_accept sample_server_env KAccept False 7 (sample_opened\<lparr>sv_accepting := False\<rparr>))"

lemmas sample_server_defs = sample_refused_def sample_opened_def sample_server_env_def sample_server_config_def server_open_def
  server_new_def submit_accept_def sv_say_def dispatch_accept_def on_accept_def close_accepted_def AF_UNIX_def ECANCELED_def

lemma sample_server_reach: "server_reach sample_server_env sample_server_config sample_refused"
proof (rule server_reach.step)
  show "server_reach sample_server_env sample_server_config sample_opened"
    by (rule server_reach.opened) (simp add: sample_server_defs)
  show "server_step sample_server_env sample_opened sample_refused"
    by (rule server_step.accept [of _ 7 _ False]) (simp_all add: sample_server_defs)
qed

lemma sample_refused_log:
  "sv_log sample_refused = [SvSubmitAccept 3, SvSubmitAccept 3, SvAccepted 7, SvCloseFd 7]" "sv_conns sample_refused = []"
  "sv_listen_fd sample_refused = 3"
  by (simp_all add: sample_server_defs)

theorem server_conserves_descriptors_witness:
  "mset (sv_accepted (sv_log sample_refused)) = mset (sv_returned (sv_log sample_refused)) \<and> sv_accepted (sv_log sample_refused) = [7]"
  using server_conserves_descriptors [OF sample_server_reach] by (simp add: sample_refused_log)


theorem server_destroy_returns_descriptors_witness:
  "sv_listen_fd (server_destroy sample_server_env sample_refused) < 0"
  using server_destroy_returns_descriptors [OF sample_server_reach] by (simp add: Let_def)

end
