(* ===== verification/Sim_Backend.thy ===== *)
theory Sim_Backend
  imports Backend_Api Conn_Owner
begin

text \<open>
  The simulated back end (\<^verbatim>\<open>include/afx/backend/sim.hpp\<close>, \<^verbatim>\<open>src/backend/sim.cpp\<close>) on its own:
  one record per descriptor, completions in a queue. A receive buffer is the room it has; the bytes
  copied into it are kept with the completion (\<open>sc_data\<close>) and in the log \<open>bk_copied\<close>. The map of
  descriptors is an association list in the order of first use, which stands for the iteration order
  of the hash map. The calls into the network fabric are in \<^verbatim>\<open>Sim_World\<close>.
\<close>

unbundle bit_operations_syntax

record fd_state =
  fs_interest :: u32
  fs_watch_ud :: u64
  fs_recv :: "(u64 \<times> nat) option"
  fs_accept :: "u64 option"
  fs_inbound :: "byte list"
  fs_outbound :: "byte list"
  fs_peer_closed :: bool
  fs_peer_err :: int
  fs_connect :: "u64 option"

record sim_completion =
  sc_user :: u64
  sc_result :: int
  sc_data :: "byte list"

record sim_backend =
  bk_fds :: "(int \<times> fd_state) list"
  bk_ready :: "sim_completion list"
  bk_next_fd :: int
  bk_wakes :: nat
  bk_copied :: "(int \<times> byte list) list"

definition fd_new :: fd_state where
  "fd_new = \<lparr>fs_interest = i_none, fs_watch_ud = 0, fs_recv = None, fs_accept = None, fs_inbound = [], fs_outbound = [],
     fs_peer_closed = False, fs_peer_err = 0, fs_connect = None\<rparr>"

definition bk_new :: sim_backend where
  "bk_new = \<lparr>bk_fds = [], bk_ready = [], bk_next_fd = 1000, bk_wakes = 0, bk_copied = []\<rparr>"

text \<open>\<^verbatim>\<open>fds_[fd]\<close>: the entry, a fresh one when there is none.\<close>

definition fd_at :: "int \<Rightarrow> sim_backend \<Rightarrow> fd_state" where
  "fd_at fd b = (case map_of (bk_fds b) fd of Some s \<Rightarrow> s | None \<Rightarrow> fd_new)"

definition put_fd :: "int \<Rightarrow> fd_state \<Rightarrow> sim_backend \<Rightarrow> sim_backend" where
  "put_fd fd s b = b\<lparr>bk_fds := AList.update fd s (bk_fds b)\<rparr>"

definition sb_push :: "u64 \<Rightarrow> int \<Rightarrow> byte list \<Rightarrow> sim_backend \<Rightarrow> sim_backend" where
  "sb_push u res d b = b\<lparr>bk_ready := bk_ready b @ [\<lparr>sc_user = u, sc_result = res, sc_data = d\<rparr>]\<rparr>"

definition pump_recv :: "int \<Rightarrow> sim_backend \<Rightarrow> sim_backend" where
  "pump_recv fd b =
     (let s = fd_at fd b in
      case fs_recv s of
        None \<Rightarrow> b
      | Some (u, room) \<Rightarrow>
          if fs_peer_err s \<noteq> 0 then sb_push u (- fs_peer_err s) [] (put_fd fd (s\<lparr>fs_recv := None\<rparr>) b)
          else if fs_inbound s = []
          then (if fs_peer_closed s then sb_push u 0 [] (put_fd fd (s\<lparr>fs_recv := None\<rparr>) b) else b)
          else let n = min (length (fs_inbound s)) room;
                   d = take n (fs_inbound s)
               in sb_push u (res32 n) d
                    ((put_fd fd (s\<lparr>fs_inbound := drop n (fs_inbound s), fs_recv := None\<rparr>) b)
                       \<lparr>bk_copied := bk_copied b @ [(fd, d)]\<rparr>))"

section \<open>The back end's interface\<close>

definition sb_attach :: "int \<Rightarrow> u32 \<Rightarrow> u64 \<Rightarrow> sim_backend \<Rightarrow> sim_backend" where
  "sb_attach fd i u b = put_fd fd ((fd_at fd b)\<lparr>fs_interest := i, fs_watch_ud := u\<rparr>) b"

definition sb_modify :: "int \<Rightarrow> u32 \<Rightarrow> u64 \<Rightarrow> sim_backend \<Rightarrow> sim_backend" where
  "sb_modify fd i u b = sb_attach fd i u b"

definition sb_forget :: "int \<Rightarrow> sim_backend \<Rightarrow> sim_backend" where
  "sb_forget fd b = b\<lparr>bk_fds := AList.delete fd (bk_fds b)\<rparr>"

definition sb_submit_recv :: "u64 \<Rightarrow> int \<Rightarrow> nat \<Rightarrow> sim_backend \<Rightarrow> sim_backend" where
  "sb_submit_recv u fd room b = pump_recv fd (put_fd fd ((fd_at fd b)\<lparr>fs_recv := Some (u, room)\<rparr>) b)"

definition sb_record_send :: "u64 \<Rightarrow> int \<Rightarrow> byte list list \<Rightarrow> sim_backend \<Rightarrow> sim_backend" where
  "sb_record_send u fd iov b =
     (let s = fd_at fd b
      in sb_push u (res32 (length (concat iov))) [] (put_fd fd (s\<lparr>fs_outbound := fs_outbound s @ concat iov\<rparr>) b))"

definition sb_arm_accept :: "u64 \<Rightarrow> int \<Rightarrow> sim_backend \<Rightarrow> sim_backend" where
  "sb_arm_accept u fd b = put_fd fd ((fd_at fd b)\<lparr>fs_accept := Some u\<rparr>) b"

definition sb_arm_connect :: "u64 \<Rightarrow> int \<Rightarrow> sim_backend \<Rightarrow> sim_backend" where
  "sb_arm_connect u fd b = put_fd fd ((fd_at fd b)\<lparr>fs_connect := Some u\<rparr>) b"

text \<open>Without a fabric a connect succeeds at once.\<close>

definition sb_connect_standalone :: "u64 \<Rightarrow> int \<Rightarrow> sim_backend \<Rightarrow> sim_backend" where
  "sb_connect_standalone u fd b = sb_push u 0 [] (put_fd fd (fd_at fd b) b)"

text \<open>The entry exists when \<^verbatim>\<open>cancel\<close> visits it.\<close>

definition sb_cancel_fd :: "u64 \<Rightarrow> int \<Rightarrow> sim_backend \<Rightarrow> sim_backend" where
  "sb_cancel_fd u fd b =
     (let b = (case fs_recv (fd_at fd b) of
                 Some (v, _) \<Rightarrow> if v = u then sb_push u (- ECANCELED) [] (put_fd fd ((fd_at fd b)\<lparr>fs_recv := None\<rparr>) b) else b
               | None \<Rightarrow> b);
          b = (if fs_accept (fd_at fd b) = Some u
               then sb_push u (- ECANCELED) [] (put_fd fd ((fd_at fd b)\<lparr>fs_accept := None\<rparr>) b) else b)
      in if fs_connect (fd_at fd b) = Some u
         then sb_push u (- ECANCELED) [] (put_fd fd ((fd_at fd b)\<lparr>fs_connect := None\<rparr>) b) else b)"

definition sb_cancel :: "u64 \<Rightarrow> sim_backend \<Rightarrow> sim_backend" where
  "sb_cancel u b = fold (sb_cancel_fd u) (map fst (bk_fds b)) b"

definition sb_wait :: "nat \<Rightarrow> sim_backend \<Rightarrow> sim_completion list \<times> sim_backend" where
  "sb_wait n b = (take n (bk_ready b), b\<lparr>bk_ready := drop n (bk_ready b)\<rparr>)"

definition sb_wake :: "sim_backend \<Rightarrow> sim_backend" where
  "sb_wake b = b\<lparr>bk_wakes := Suc (bk_wakes b)\<rparr>"

section \<open>Deliveries\<close>

text \<open>\<open>sock\<close> is what the socket call returns; without a socket the number is a virtual one.\<close>

definition sb_add_fd :: "int \<Rightarrow> sim_backend \<Rightarrow> int \<times> sim_backend" where
  "sb_add_fd sock b =
     (if 0 \<le> sock then (sock, put_fd sock (fd_at sock b) b)
      else let fd = bk_next_fd b in (fd, put_fd fd (fd_at fd b) (b\<lparr>bk_next_fd := fd + 1\<rparr>)))"

definition deliver_connect :: "int \<Rightarrow> u64 \<Rightarrow> int \<Rightarrow> sim_backend \<Rightarrow> sim_backend" where
  "deliver_connect fd u res b =
     (let s = fd_at fd b
      in if fs_connect s \<noteq> Some u then put_fd fd s b
         else sb_push u res [] (put_fd fd (s\<lparr>fs_connect := None\<rparr>) b))"

definition sb_feed :: "int \<Rightarrow> byte list \<Rightarrow> sim_backend \<Rightarrow> sim_backend" where
  "sb_feed fd bs b =
     (let s = fd_at fd b in pump_recv fd (put_fd fd (s\<lparr>fs_inbound := fs_inbound s @ bs\<rparr>) b))"

definition close_peer :: "int \<Rightarrow> sim_backend \<Rightarrow> sim_backend" where
  "close_peer fd b = pump_recv fd (put_fd fd ((fd_at fd b)\<lparr>fs_peer_closed := True\<rparr>) b)"

definition fail_peer :: "int \<Rightarrow> int \<Rightarrow> sim_backend \<Rightarrow> sim_backend" where
  "fail_peer fd err b = pump_recv fd (put_fd fd ((fd_at fd b)\<lparr>fs_peer_err := err\<rparr>) b)"

definition deliver_accept :: "int \<Rightarrow> int \<Rightarrow> sim_backend \<Rightarrow> sim_backend" where
  "deliver_accept listen_fd peer_fd b =
     (let b = put_fd listen_fd (fd_at listen_fd b) b;
          b = put_fd peer_fd (fd_at peer_fd b) b;
          s = fd_at listen_fd b
      in case fs_accept s of
           None \<Rightarrow> b
         | Some u \<Rightarrow> sb_push u peer_fd [] (put_fd listen_fd (s\<lparr>fs_accept := None\<rparr>) b))"

definition deliver_watch :: "int \<Rightarrow> u32 \<Rightarrow> sim_backend \<Rightarrow> sim_backend" where
  "deliver_watch fd ready b =
     (case map_of (bk_fds b) fd of
        None \<Rightarrow> b
      | Some s \<Rightarrow> sb_push (fs_watch_ud s)
          (uint ((if i_has ready i_readable then ready_read else 0) OR
                 (if i_has ready i_writable then ready_write else 0))) [] b)"

definition sb_sent :: "int \<Rightarrow> sim_backend \<Rightarrow> byte list" where
  "sb_sent fd b = (case map_of (bk_fds b) fd of None \<Rightarrow> [] | Some s \<Rightarrow> fs_outbound s)"

definition recv_pending :: "int \<Rightarrow> sim_backend \<Rightarrow> bool" where
  "recv_pending fd b = (case map_of (bk_fds b) fd of None \<Rightarrow> False | Some s \<Rightarrow> fs_recv s \<noteq> None)"

end
