(* ===== verification/Sim_Net.thy ===== *)
theory Sim_Net
  imports Sim_Backend Complex_Main
begin

text \<open>
  The simulated network (\<^verbatim>\<open>include/afx/sim/net.hpp\<close>, \<^verbatim>\<open>src/sim/net.cpp\<close>): links between
  descriptors of back ends, scheduled events ordered by due time and sequence number, and the fault
  profile. A back end is named by its number. The stream of random draws is a parameter of the
  operations that draw, indexed by the number of draws made so far; a \<^verbatim>\<open>double\<close> is a real.
\<close>

section \<open>Events and the queue\<close>

record fault_profile =
  fp_packet_loss :: real
  fp_partial_reads :: bool
  fp_slow_peer :: real
  fp_reset_chance :: real
  fp_partition_chance :: real
  fp_window_lo :: int
  fp_window_hi :: int
  fp_min_latency :: int
  fp_max_latency :: int
  fp_slow_latency :: int

datatype sim_kind = SBytes | SAccept | SConnectDone | SPeerFin | SPeerReset | SPartitionEnd | SPost

record 't sim_event =
  ev_due :: int
  ev_seq :: nat
  ev_kind :: sim_kind
  ev_dst :: nat
  ev_fd :: int
  ev_aux :: int
  ev_ud :: u64
  ev_bytes :: "byte list"
  ev_shard :: nat
  ev_task :: "'t option"

record link =
  lk_a :: nat
  lk_a_fd :: int
  lk_b :: nat
  lk_b_fd :: int
  lk_partitioned :: bool
  lk_free_ab :: int
  lk_free_ba :: int

record 't sim_net =
  nt_q :: "'t sim_event list"
  nt_fd_link :: "int \<rightharpoonup> nat"
  nt_listeners :: "u16 \<rightharpoonup> nat \<times> int"
  nt_links :: "link list"
  nt_faults :: fault_profile
  nt_draws :: nat
  nt_seq :: nat
  nt_dropped :: nat
  nt_now :: int

definition no_faults :: fault_profile where
  "no_faults = \<lparr>fp_packet_loss = 0, fp_partial_reads = False, fp_slow_peer = 0, fp_reset_chance = 0, fp_partition_chance = 0,
     fp_window_lo = 0, fp_window_hi = 0, fp_min_latency = 0, fp_max_latency = 0, fp_slow_latency = 0\<rparr>"

definition net_new :: "'t sim_net" where
  "net_new = \<lparr>nt_q = [], nt_fd_link = Map.empty, nt_listeners = Map.empty, nt_links = [], nt_faults = no_faults, nt_draws = 0,
     nt_seq = 0, nt_dropped = 0, nt_now = 0\<rparr>"

definition set_faults :: "fault_profile \<Rightarrow> 't sim_net \<Rightarrow> 't sim_net" where
  "set_faults f n = n\<lparr>nt_faults := f\<rparr>"

definition set_now :: "int \<Rightarrow> 't sim_net \<Rightarrow> 't sim_net" where
  "set_now t n = n\<lparr>nt_now := t\<rparr>"

definition ev_none :: "'t sim_event" where
  "ev_none = \<lparr>ev_due = 0, ev_seq = 0, ev_kind = SBytes, ev_dst = 0, ev_fd = - 1, ev_aux = 0, ev_ud = 0, ev_bytes = [],
     ev_shard = 2 ^ 64 - 1, ev_task = None\<rparr>"

text \<open>The comparison of the priority queue; the queue itself is kept in the order it is popped.\<close>

definition later :: "'t sim_event \<Rightarrow> 't sim_event \<Rightarrow> bool" where
  "later a b = (if ev_due a \<noteq> ev_due b then ev_due b < ev_due a else ev_seq b < ev_seq a)"

fun pq_push :: "'t sim_event \<Rightarrow> 't sim_event list \<Rightarrow> 't sim_event list" where
  "pq_push e [] = [e]"
| "pq_push e (x # xs) = (if later x e then e # x # xs else x # pq_push e xs)"

definition net_push :: "'t sim_event \<Rightarrow> 't sim_net \<Rightarrow> 't sim_net" where
  "net_push e n = n\<lparr>nt_q := pq_push (e\<lparr>ev_seq := nt_seq n\<rparr>) (nt_q n), nt_seq := Suc (nt_seq n)\<rparr>"

definition due_next :: "int \<Rightarrow> 't sim_net \<Rightarrow> bool" where
  "due_next t n = (case nt_q n of [] \<Rightarrow> False | e # _ \<Rightarrow> ev_due e \<le> t)"

definition net_pop :: "'t sim_net \<Rightarrow> ('t sim_event \<times> 't sim_net) option" where
  "net_pop n = (case nt_q n of [] \<Rightarrow> None | e # q \<Rightarrow> Some (e, n\<lparr>nt_q := q\<rparr>))"

text \<open>\<open>None\<close> is \<^verbatim>\<open>TimePoint::max()\<close>.\<close>

definition next_due :: "'t sim_net \<Rightarrow> int option" where
  "next_due n = (case nt_q n of [] \<Rightarrow> None | e # _ \<Rightarrow> Some (ev_due e))"

section \<open>Draws\<close>

definition draw :: "(nat \<Rightarrow> real) \<Rightarrow> 't sim_net \<Rightarrow> real \<times> 't sim_net" where
  "draw rng n = (rng (nt_draws n), n\<lparr>nt_draws := Suc (nt_draws n)\<rparr>)"

definition latency :: "(nat \<Rightarrow> real) \<Rightarrow> 't sim_net \<Rightarrow> int \<times> 't sim_net" where
  "latency rng n =
     (let lo = fp_min_latency (nt_faults n); hi = fp_max_latency (nt_faults n)
      in if hi \<le> lo then (lo, n) else let (u, n) = draw rng n in (lo + \<lfloor>u * real_of_int (hi - lo)\<rfloor>, n))"

text \<open>A draw that is made only when the chance is positive, against it.\<close>

definition chance :: "(nat \<Rightarrow> real) \<Rightarrow> real \<Rightarrow> 't sim_net \<Rightarrow> bool \<times> 't sim_net" where
  "chance rng p n = (if 0 < p then let (u, n) = draw rng n in (u < p, n) else (False, n))"

section \<open>Listening and connecting\<close>

text \<open>\<open>port\<close> is the port the kernel reports for the listening socket, 0 when it reports none.\<close>

definition net_listen :: "u16 \<Rightarrow> nat \<Rightarrow> int \<Rightarrow> 't sim_net \<Rightarrow> 't sim_net" where
  "net_listen port b listen_fd n =
     (if port \<noteq> 0 then n\<lparr>nt_listeners := (nt_listeners n)(port \<mapsto> (b, listen_fd))\<rparr> else n)"

definition ECONNREFUSED :: int where
  "ECONNREFUSED = 111"

definition ECONNRESET :: int where
  "ECONNRESET = 104"

definition net_refuse :: "(nat \<Rightarrow> real) \<Rightarrow> nat \<Rightarrow> int \<Rightarrow> u64 \<Rightarrow> 't sim_net \<Rightarrow> 't sim_net" where
  "net_refuse rng src fd u n =
     (let (d, n) = latency rng n
      in net_push (ev_none\<lparr>ev_due := nt_now n + d, ev_kind := SConnectDone, ev_dst := src, ev_fd := fd, ev_ud := u,
                      ev_aux := - ECONNREFUSED\<rparr>) n)"

text \<open>\<open>peer_fd\<close> is the descriptor the listener's back end hands out for the server side.\<close>

definition net_wire :: "(nat \<Rightarrow> real) \<Rightarrow> nat \<Rightarrow> int \<Rightarrow> u64 \<Rightarrow> nat \<Rightarrow> int \<Rightarrow> int \<Rightarrow> 't sim_net \<Rightarrow> 't sim_net" where
  "net_wire rng src fd u srv listen_fd peer_fd n =
     (let k = length (nt_links n);
          l = \<lparr>lk_a = src, lk_a_fd = fd, lk_b = srv, lk_b_fd = peer_fd, lk_partitioned = False, lk_free_ab = 0, lk_free_ba = 0\<rparr>;
          n = n\<lparr>nt_links := nt_links n @ [l], nt_fd_link := (nt_fd_link n)(fd \<mapsto> k, peer_fd \<mapsto> k)\<rparr>;
          (half, n) = latency rng n;
          n = net_push (ev_none\<lparr>ev_due := nt_now n + half, ev_kind := SConnectDone, ev_dst := src, ev_fd := fd, ev_ud := u,
                           ev_aux := 0\<rparr>) n
      in net_push (ev_none\<lparr>ev_due := nt_now n + half, ev_kind := SAccept, ev_dst := srv, ev_fd := listen_fd,
                      ev_aux := peer_fd\<rparr>) n)"

section \<open>Sending\<close>

text \<open>The link of a descriptor, its far end, and whether the descriptor is the link's first end.\<close>

definition link_for :: "nat \<Rightarrow> int \<Rightarrow> 't sim_net \<Rightarrow> (nat \<times> nat \<times> int \<times> bool) option" where
  "link_for src fd n =
     (case nt_fd_link n fd of
        None \<Rightarrow> None
      | Some k \<Rightarrow>
          let l = nt_links n ! k
          in if lk_a l = src \<and> lk_a_fd l = fd then Some (k, lk_b l, lk_b_fd l, True)
             else Some (k, lk_a l, lk_a_fd l, False))"

definition erase_links :: "int \<Rightarrow> int \<Rightarrow> 't sim_net \<Rightarrow> 't sim_net" where
  "erase_links fd dst_fd n = n\<lparr>nt_fd_link := (nt_fd_link n)(fd := None, dst_fd := None)\<rparr>"

definition net_drop :: "'t sim_net \<Rightarrow> 't sim_net" where
  "net_drop n = n\<lparr>nt_dropped := Suc (nt_dropped n)\<rparr>"

definition push_reset :: "(nat \<Rightarrow> real) \<Rightarrow> nat \<Rightarrow> int \<Rightarrow> 't sim_net \<Rightarrow> 't sim_net" where
  "push_reset rng dst fd n =
     (let (d, n) = latency rng n
      in net_push (ev_none\<lparr>ev_due := nt_now n + d, ev_kind := SPeerReset, ev_dst := dst, ev_fd := fd, ev_aux := ECONNRESET\<rparr>) n)"

definition set_partitioned :: "nat \<Rightarrow> bool \<Rightarrow> 't sim_net \<Rightarrow> 't sim_net" where
  "set_partitioned k p n = n\<lparr>nt_links := (nt_links n)[k := (nt_links n ! k)\<lparr>lk_partitioned := p\<rparr>]\<rparr>"

text \<open>A conversion to an integer truncates towards zero.\<close>

definition to_i64 :: "real \<Rightarrow> int" where
  "to_i64 x = (if 0 \<le> x then \<lfloor>x\<rfloor> else \<lceil>x\<rceil>)"

definition start_partition :: "(nat \<Rightarrow> real) \<Rightarrow> nat \<Rightarrow> 't sim_net \<Rightarrow> 't sim_net" where
  "start_partition rng k n =
     (let n = set_partitioned k True n;
          lo = fp_window_lo (nt_faults n); hi = fp_window_hi (nt_faults n);
          (u, n) = draw rng n
      in net_drop (net_push (ev_none\<lparr>ev_kind := SPartitionEnd, ev_aux := int k,
                      ev_due := nt_now n + (lo + to_i64 (u * real_of_int (hi - lo)))\<rparr>) n))"

text \<open>
  The pieces of a fragmented delivery: \<open>m\<close> pieces at most, all but the last of a drawn size. With
  them comes the number of draws made.
\<close>

fun fragments :: "(nat \<Rightarrow> real) \<Rightarrow> nat \<Rightarrow> nat \<Rightarrow> byte list \<Rightarrow> byte list list \<times> nat" where
  "fragments rng k 0 xs = ([], k)"
| "fragments rng k (Suc m) xs =
     (if xs = [] then ([], k)
      else if m = 0 then ([xs], k)
      else let n = 1 + nat \<lfloor>rng k * real (length xs)\<rfloor>;
               (ps, k') = fragments rng (Suc k) m (drop n xs)
           in (take n xs # ps, k'))"

text \<open>One event per piece, one instant apart.\<close>

fun push_pieces :: "int \<Rightarrow> nat \<Rightarrow> int \<Rightarrow> byte list list \<Rightarrow> 't sim_net \<Rightarrow> 't sim_net" where
  "push_pieces due dst fd [] n = n"
| "push_pieces due dst fd (p # ps) n =
     push_pieces (due + 1) dst fd ps
       (net_push (ev_none\<lparr>ev_due := due, ev_kind := SBytes, ev_dst := dst, ev_fd := fd, ev_bytes := p\<rparr>) n)"

definition link_free :: "bool \<Rightarrow> link \<Rightarrow> int" where
  "link_free ab l = (if ab then lk_free_ab l else lk_free_ba l)"

definition set_free :: "nat \<Rightarrow> bool \<Rightarrow> int \<Rightarrow> 't sim_net \<Rightarrow> 't sim_net" where
  "set_free k ab t n =
     n\<lparr>nt_links := (nt_links n)[k := if ab then (nt_links n ! k)\<lparr>lk_free_ab := t\<rparr> else (nt_links n ! k)\<lparr>lk_free_ba := t\<rparr>]\<rparr>"

definition schedule_bytes :: "(nat \<Rightarrow> real) \<Rightarrow> nat \<Rightarrow> bool \<Rightarrow> nat \<Rightarrow> int \<Rightarrow> byte list \<Rightarrow> 't sim_net \<Rightarrow> 't sim_net" where
  "schedule_bytes rng k ab dst dst_fd bs n =
     (let (d, n) = latency rng n;
          (slow, n) = chance rng (fp_slow_peer (nt_faults n)) n;
          d = (if slow then d + fp_slow_latency (nt_faults n) else d);
          due = max (nt_now n + d) (link_free ab (nt_links n ! k))
      in if fp_partial_reads (nt_faults n) \<and> 1 < length bs
         then let (u, n) = draw rng n;
                  (ps, r) = fragments rng (nt_draws n) (2 + nat \<lfloor>u * 3\<rfloor>) bs;
                  n = push_pieces due dst dst_fd ps (n\<lparr>nt_draws := r\<rparr>)
              in set_free k ab (due + int (length ps)) n
         else set_free k ab (due + 1) (push_pieces due dst dst_fd [bs] n))"

definition deliver_bytes :: "(nat \<Rightarrow> real) \<Rightarrow> nat \<Rightarrow> int \<Rightarrow> byte list list \<Rightarrow> 't sim_net \<Rightarrow> 't sim_net" where
  "deliver_bytes rng src fd iov n =
     (case link_for src fd n of
        None \<Rightarrow> n
      | Some (k, dst, dst_fd, ab) \<Rightarrow>
          if lk_partitioned (nt_links n ! k) then net_drop n
          else
            let (lost, n) = chance rng (fp_packet_loss (nt_faults n)) n in
            if lost then net_drop n
            else
              let (reset, n) = chance rng (fp_reset_chance (nt_faults n)) n in
              if reset then erase_links fd dst_fd (push_reset rng src fd (push_reset rng dst dst_fd n))
              else
                let (cut, n) = (if 0 < fp_window_hi (nt_faults n) then chance rng (fp_partition_chance (nt_faults n)) n
                                else (False, n)) in
                if cut then start_partition rng k n
                else schedule_bytes rng k ab dst dst_fd (concat iov) n)"

section \<open>Detaching, posting, partitions\<close>

definition unlisten :: "nat \<Rightarrow> int \<Rightarrow> 't sim_net \<Rightarrow> 't sim_net" where
  "unlisten src fd n =
     n\<lparr>nt_listeners := (\<lambda>p. if nt_listeners n p = Some (src, fd) then None else nt_listeners n p)\<rparr>"

definition net_detach :: "(nat \<Rightarrow> real) \<Rightarrow> nat \<Rightarrow> int \<Rightarrow> 't sim_net \<Rightarrow> 't sim_net" where
  "net_detach rng src fd n =
     (let n = unlisten src fd n in
      case link_for src fd n of
        None \<Rightarrow> n
      | Some (k, dst, dst_fd, _) \<Rightarrow>
          let n = erase_links fd dst_fd n in
          if lk_partitioned (nt_links n ! k) then n
          else let (d, n) = latency rng n
               in net_push (ev_none\<lparr>ev_due := nt_now n + d, ev_kind := SPeerFin, ev_dst := dst, ev_fd := dst_fd\<rparr>) n)"

definition net_post :: "nat \<Rightarrow> 't \<Rightarrow> int \<Rightarrow> 't sim_net \<Rightarrow> 't sim_net" where
  "net_post shard fn delay n =
     net_push (ev_none\<lparr>ev_due := nt_now n + delay, ev_kind := SPost, ev_shard := shard, ev_task := Some fn\<rparr>) n"

definition net_partition :: "nat \<Rightarrow> int \<Rightarrow> 't sim_net \<Rightarrow> 't sim_net" where
  "net_partition k window n =
     (if length (nt_links n) \<le> k then n
      else net_push (ev_none\<lparr>ev_due := nt_now n + window, ev_kind := SPartitionEnd, ev_aux := int k\<rparr>) (set_partitioned k True n))"

definition lift_partition :: "int \<Rightarrow> 't sim_net \<Rightarrow> 't sim_net" where
  "lift_partition aux n =
     (if 0 \<le> aux \<and> nat aux < length (nt_links n) then set_partitioned (nat aux) False n else n)"

end
