(* ===== verification/Sim_World.thy ===== *)
theory Sim_World
  imports Sim_Net
begin

text \<open>
  Back ends attached to one network: the submits that go through the fabric, and the application of
  its events to the back ends (\<^verbatim>\<open>SimBackend\<close> in \<^verbatim>\<open>src/backend/sim.cpp\<close> and
  \<^verbatim>\<open>SimNet::connect\<close>, \<^verbatim>\<open>SimNet::apply\<close> in \<^verbatim>\<open>src/sim/net.cpp\<close>).
\<close>

record 't world =
  wd_net :: "'t sim_net"
  wd_backends :: "nat \<Rightarrow> sim_backend"

definition on_backend :: "nat \<Rightarrow> (sim_backend \<Rightarrow> sim_backend) \<Rightarrow> 't world \<Rightarrow> 't world" where
  "on_backend b f w = w\<lparr>wd_backends := (wd_backends w)(b := f (wd_backends w b))\<rparr>"

definition on_net :: "('t sim_net \<Rightarrow> 't sim_net) \<Rightarrow> 't world \<Rightarrow> 't world" where
  "on_net f w = w\<lparr>wd_net := f (wd_net w)\<rparr>"

section \<open>Submits through the fabric\<close>

definition w_submit_sendv :: "(nat \<Rightarrow> real) \<Rightarrow> nat \<Rightarrow> u64 \<Rightarrow> int \<Rightarrow> byte list list \<Rightarrow> 't world \<Rightarrow> 't world" where
  "w_submit_sendv rng b u fd iov w =
     (let w = on_backend b (sb_record_send u fd iov) w
      in if concat iov \<noteq> [] then on_net (deliver_bytes rng b fd iov) w else w)"

definition w_submit_send :: "(nat \<Rightarrow> real) \<Rightarrow> nat \<Rightarrow> u64 \<Rightarrow> int \<Rightarrow> byte list \<Rightarrow> 't world \<Rightarrow> 't world" where
  "w_submit_send rng b u fd bs w = w_submit_sendv rng b u fd [bs] w"

definition w_submit_recv :: "nat \<Rightarrow> u64 \<Rightarrow> int \<Rightarrow> nat \<Rightarrow> 't world \<Rightarrow> 't world" where
  "w_submit_recv b u fd room w = on_backend b (sb_submit_recv u fd room) w"

definition w_submit_accept :: "nat \<Rightarrow> u64 \<Rightarrow> u16 \<Rightarrow> int \<Rightarrow> 't world \<Rightarrow> 't world" where
  "w_submit_accept b u port fd w = on_net (net_listen port b fd) (on_backend b (sb_arm_accept u fd) w)"

text \<open>\<open>sock\<close> is the socket the listener's back end gets for the server side.\<close>

definition w_submit_connect :: "(nat \<Rightarrow> real) \<Rightarrow> nat \<Rightarrow> u64 \<Rightarrow> int \<Rightarrow> u16 \<Rightarrow> int \<Rightarrow> 't world \<Rightarrow> 't world" where
  "w_submit_connect rng b u fd port sock w =
     (let w = on_backend b (sb_arm_connect u fd) w in
      case nt_listeners (wd_net w) port of
        None \<Rightarrow> on_net (net_refuse rng b fd u) w
      | Some (srv, listen_fd) \<Rightarrow>
          let (peer_fd, bk) = sb_add_fd sock (wd_backends w srv)
          in on_net (net_wire rng b fd u srv listen_fd peer_fd) (on_backend srv (\<lambda>_. bk) w))"

definition w_detach :: "(nat \<Rightarrow> real) \<Rightarrow> nat \<Rightarrow> int \<Rightarrow> 't world \<Rightarrow> 't world" where
  "w_detach rng b fd w = on_backend b (sb_forget fd) (on_net (net_detach rng b fd) w)"

definition w_cancel :: "nat \<Rightarrow> u64 \<Rightarrow> 't world \<Rightarrow> 't world" where
  "w_cancel b u w = on_backend b (sb_cancel u) w"

definition w_wait :: "nat \<Rightarrow> nat \<Rightarrow> 't world \<Rightarrow> 't world" where
  "w_wait b n w = on_backend b (\<lambda>k. snd (sb_wait n k)) w"

section \<open>Applying events\<close>

definition w_apply :: "'t sim_event \<Rightarrow> 't world \<Rightarrow> 't world" where
  "w_apply e w =
     (case ev_kind e of
        SBytes \<Rightarrow> on_backend (ev_dst e) (sb_feed (ev_fd e) (ev_bytes e)) w
      | SAccept \<Rightarrow> on_backend (ev_dst e) (deliver_accept (ev_fd e) (ev_aux e)) w
      | SConnectDone \<Rightarrow> on_backend (ev_dst e) (deliver_connect (ev_fd e) (ev_ud e) (ev_aux e)) w
      | SPeerFin \<Rightarrow> on_backend (ev_dst e) (close_peer (ev_fd e)) w
      | SPeerReset \<Rightarrow> on_backend (ev_dst e) (fail_peer (ev_fd e) (ev_aux e)) w
      | SPartitionEnd \<Rightarrow> on_net (lift_partition (ev_aux e)) w
      | SPost \<Rightarrow> w)"

text \<open>The next event that is due, popped and applied.\<close>

definition w_next :: "'t world \<Rightarrow> 't world" where
  "w_next w =
     (if due_next (nt_now (wd_net w)) (wd_net w)
      then (case net_pop (wd_net w) of Some (e, n) \<Rightarrow> w_apply e (w\<lparr>wd_net := n\<rparr>) | None \<Rightarrow> w)
      else w)"

section \<open>The bytes at a descriptor\<close>

text \<open>The bytes handed to the application and those waiting for it.\<close>

definition arrived :: "int \<Rightarrow> sim_backend \<Rightarrow> byte list" where
  "arrived fd b = concat (map snd (filter (\<lambda>p. fst p = fd) (bk_copied b))) @ fs_inbound (fd_at fd b)"

lemma fd_at_put [simp]: "fd_at fd (put_fd fd' s b) = (if fd = fd' then s else fd_at fd b)"
  by (simp add: fd_at_def put_fd_def update_conv')

lemma put_fd_copied [simp]: "bk_copied (put_fd fd s b) = bk_copied b" "bk_ready (put_fd fd s b) = bk_ready b"
  by (simp_all add: put_fd_def)

lemma push_fields [simp]: "bk_copied (sb_push u r d b) = bk_copied b" "fd_at fd (sb_push u r d b) = fd_at fd b"
  by (simp_all add: sb_push_def fd_at_def)

lemma fd_at_fields [simp]:
  "fd_at fd (b\<lparr>bk_copied := c\<rparr>) = fd_at fd b" "fd_at fd (b\<lparr>bk_ready := r\<rparr>) = fd_at fd b"
  by (simp_all add: fd_at_def)

lemma pump_arrived [simp]:
  "arrived fd (pump_recv fd' b) = arrived fd b" "fs_outbound (fd_at fd (pump_recv fd' b)) = fs_outbound (fd_at fd b)"
  by (auto simp: arrived_def pump_recv_def Let_def split: option.splits)

lemma put_arrived:
  "fs_inbound s = fs_inbound (fd_at fd' b) \<Longrightarrow> arrived fd (put_fd fd' s b) = arrived fd b"
  by (simp add: arrived_def)

lemma push_arrived [simp]:
  "arrived fd (sb_push u r d b) = arrived fd b" "arrived fd (b\<lparr>bk_ready := q\<rparr>) = arrived fd b"
  by (simp_all add: arrived_def)

lemma feed_arrived: "arrived fd (sb_feed fd' bs b) = (if fd = fd' then arrived fd b @ bs else arrived fd b)"
  by (simp add: sb_feed_def Let_def) (simp add: arrived_def)

text \<open>Everything else leaves the bytes of every descriptor alone.\<close>

lemma cancel_fd_keeps:
  "arrived fd (sb_cancel_fd u fd' b) = arrived fd b \<and> fs_outbound (fd_at fd (sb_cancel_fd u fd' b)) = fs_outbound (fd_at fd b)"
  by (auto simp: sb_cancel_fd_def Let_def put_arrived split: option.splits)

lemma cancel_keeps:
  "arrived fd (sb_cancel u b) = arrived fd b" "fs_outbound (fd_at fd (sb_cancel u b)) = fs_outbound (fd_at fd b)"
proof -
  have "arrived fd (fold (sb_cancel_fd u) fds b) = arrived fd b \<and>
      fs_outbound (fd_at fd (fold (sb_cancel_fd u) fds b)) = fs_outbound (fd_at fd b)" for fds
    by (induction fds arbitrary: b) (simp_all add: cancel_fd_keeps)
  then show "arrived fd (sb_cancel u b) = arrived fd b" "fs_outbound (fd_at fd (sb_cancel u b)) = fs_outbound (fd_at fd b)"
    by (simp_all add: sb_cancel_def)
qed

lemma quiet_keeps [simp]:
  "arrived fd (sb_submit_recv u fd' r b) = arrived fd b"
  "fs_outbound (fd_at fd (sb_submit_recv u fd' r b)) = fs_outbound (fd_at fd b)"
  "arrived fd (deliver_connect fd' u i b) = arrived fd b"
  "fs_outbound (fd_at fd (deliver_connect fd' u i b)) = fs_outbound (fd_at fd b)"
  "arrived fd (close_peer fd' b) = arrived fd b" "fs_outbound (fd_at fd (close_peer fd' b)) = fs_outbound (fd_at fd b)"
  "arrived fd (fail_peer fd' i b) = arrived fd b" "fs_outbound (fd_at fd (fail_peer fd' i b)) = fs_outbound (fd_at fd b)"
  "arrived fd (deliver_accept fd' p b) = arrived fd b"
  "fs_outbound (fd_at fd (deliver_accept fd' p b)) = fs_outbound (fd_at fd b)"
  "arrived fd (snd (sb_wait n b)) = arrived fd b" "fs_outbound (fd_at fd (snd (sb_wait n b))) = fs_outbound (fd_at fd b)"
  "fs_outbound (fd_at fd (sb_feed fd' bs b)) = fs_outbound (fd_at fd b)"
  "arrived fd (sb_record_send u fd' iov b) = arrived fd b"
  by (auto simp: sb_submit_recv_def deliver_connect_def close_peer_def fail_peer_def deliver_accept_def sb_wait_def sb_feed_def
      sb_record_send_def Let_def put_arrived
      split: option.splits)

lemma send_outbound:
  "fs_outbound (fd_at fd (sb_record_send u fd' iov b)) =
     (if fd = fd' then fs_outbound (fd_at fd b) @ concat iov else fs_outbound (fd_at fd b))"
  by (simp add: sb_record_send_def Let_def)

end
