(* ===== verification/Sim_Queue.thy ===== *)
theory Sim_Queue
  imports Sim_World
begin

text \<open>
  The event queue of the simulated network: it stays sorted, an event that is due no earlier than
  the others of its kind goes behind them, and the pieces of a delivery go behind everything that is
  in flight to the same descriptor.
\<close>

section \<open>The order of the queue\<close>

definition in_order :: "'t sim_net \<Rightarrow> bool" where
  "in_order n \<longleftrightarrow> sorted_wrt (\<lambda>x y. later y x) (nt_q n) \<and> (\<forall>e\<in>set (nt_q n). ev_seq e < nt_seq n)"

lemma later_trans: "later x y \<Longrightarrow> later y z \<Longrightarrow> later x z"
  by (auto simp: later_def split: if_splits)

lemma set_pq_push [simp]: "set (pq_push e q) = insert e (set q)"
  by (induction q) auto

lemma length_pq_push [simp]: "length (pq_push e q) = Suc (length q)"
  by (induction q) auto

lemma pq_push_sorted:
  "sorted_wrt (\<lambda>x y. later y x) q \<Longrightarrow> (\<And>x. x \<in> set q \<Longrightarrow> ev_seq x < ev_seq e) \<Longrightarrow>
   sorted_wrt (\<lambda>x y. later y x) (pq_push e q)"
proof (induction q)
  case (Cons x q)
  have "ev_seq x < ev_seq e" using Cons.prems(2) by simp
  then have tot: "later x e \<or> later e x" by (auto simp: later_def)
  show ?case
  proof (cases "later x e")
    case True
    with Cons.prems(1) show ?thesis by (auto intro: later_trans)
  next
    case False
    with tot Cons show ?thesis by auto
  qed
qed simp

text \<open>An event goes behind those of its class that are not due later.\<close>

lemma filter_pq_push:
  "sorted_wrt (\<lambda>x y. later y x) q \<Longrightarrow> (\<And>x. x \<in> set q \<Longrightarrow> P x \<Longrightarrow> \<not> later x e) \<Longrightarrow>
   filter P (pq_push e q) = filter P q @ (if P e then [e] else [])"
proof (induction q)
  case (Cons x q)
  show ?case
  proof (cases "later x e")
    case True
    have none: "\<not> P y" if "y \<in> set (x # q)" for y
    proof
      assume "P y"
      then have "\<not> later y e" using Cons.prems(2) that by blast
      moreover have "y = x \<or> later y x" using Cons.prems(1) that by auto
      ultimately show False using True later_trans by blast
    qed
    then have "filter P q = []" "\<not> P x" by (auto simp: filter_empty_conv)
    then show ?thesis using True by simp
  next
    case False
    then show ?thesis using Cons by simp
  qed
qed simp

lemma filter_pq_push_other: "\<not> P e \<Longrightarrow> filter P (pq_push e q) = filter P q"
  by (induction q) auto

lemma net_push_in_order [intro]: "in_order n \<Longrightarrow> in_order (net_push e n)"
  unfolding in_order_def net_push_def by (auto intro!: pq_push_sorted simp: less_SucI)

lemma net_push_fields [simp]:
  "nt_fd_link (net_push e n) = nt_fd_link n" "nt_links (net_push e n) = nt_links n" "nt_faults (net_push e n) = nt_faults n"
  "nt_now (net_push e n) = nt_now n" "set (nt_q (net_push e n)) = insert (e\<lparr>ev_seq := nt_seq n\<rparr>) (set (nt_q n))"
  by (simp_all add: net_push_def)

lemma net_pop_in_order: "in_order n \<Longrightarrow> net_pop n = Some (e, n') \<Longrightarrow> in_order n'"
  by (auto simp: in_order_def net_pop_def split: list.splits)

section \<open>The bytes in flight to a descriptor\<close>

definition bytes_to :: "nat \<Rightarrow> int \<Rightarrow> 't sim_event \<Rightarrow> bool" where
  "bytes_to dst fd e \<longleftrightarrow> ev_kind e = SBytes \<and> ev_dst e = dst \<and> ev_fd e = fd"

definition in_flight :: "nat \<Rightarrow> int \<Rightarrow> 't sim_net \<Rightarrow> byte list" where
  "in_flight dst fd n = concat (map ev_bytes (filter (bytes_to dst fd) (nt_q n)))"

text \<open>Everything in flight to the descriptor is due before \<open>t\<close>.\<close>

definition due_before :: "int \<Rightarrow> nat \<Rightarrow> int \<Rightarrow> 't sim_net \<Rightarrow> bool" where
  "due_before t dst fd n \<longleftrightarrow> (\<forall>e\<in>set (nt_q n). bytes_to dst fd e \<longrightarrow> ev_due e < t)"

lemma push_other:
  assumes "\<not> bytes_to dst fd e"
  shows "in_flight dst fd (net_push e n) = in_flight dst fd n" "due_before t dst fd (net_push e n) = due_before t dst fd n"
proof -
  have "\<not> bytes_to dst fd (e\<lparr>ev_seq := nt_seq n\<rparr>)" using assms by (simp add: bytes_to_def)
  then show "in_flight dst fd (net_push e n) = in_flight dst fd n" "due_before t dst fd (net_push e n) = due_before t dst fd n"
    by (auto simp: in_flight_def due_before_def net_push_def filter_pq_push_other)
qed

lemma push_bytes:
  assumes "in_order n" "due_before t dst fd n" "t \<le> ev_due e" "bytes_to dst fd e"
  shows "in_flight dst fd (net_push e n) = in_flight dst fd n @ ev_bytes e" "due_before (ev_due e + 1) dst fd (net_push e n)"
proof -
  let ?e = "e\<lparr>ev_seq := nt_seq n\<rparr>"
  have "filter (bytes_to dst fd) (pq_push ?e (nt_q n)) = filter (bytes_to dst fd) (nt_q n) @ (if bytes_to dst fd ?e then [?e] else [])"
    using assms by (intro filter_pq_push) (auto simp: in_order_def due_before_def later_def)
  moreover have "bytes_to dst fd ?e" using assms(4) by (simp add: bytes_to_def)
  ultimately show "in_flight dst fd (net_push e n) = in_flight dst fd n @ ev_bytes e"
    by (simp add: in_flight_def net_push_def)
  show "due_before (ev_due e + 1) dst fd (net_push e n)" using assms(2,3) by (auto simp: due_before_def)
qed

section \<open>Pieces\<close>

lemma push_pieces_fields [simp]:
  "nt_fd_link (push_pieces t d f ps n) = nt_fd_link n" "nt_links (push_pieces t d f ps n) = nt_links n"
  "nt_faults (push_pieces t d f ps n) = nt_faults n" "nt_now (push_pieces t d f ps n) = nt_now n"
  by (induction t d f ps n rule: push_pieces.induct) simp_all

lemma push_pieces_in_order: "in_order n \<Longrightarrow> in_order (push_pieces t d f ps n)"
  by (induction t d f ps n rule: push_pieces.induct) auto

lemma push_pieces_other:
  "(d, f) \<noteq> (dst, fd) \<Longrightarrow> in_flight dst fd (push_pieces t d f ps n) = in_flight dst fd n \<and>
     due_before t' dst fd (push_pieces t d f ps n) = due_before t' dst fd n"
  by (induction t d f ps n rule: push_pieces.induct) (auto simp: push_other bytes_to_def)

lemma push_pieces_bytes:
  "in_order n \<Longrightarrow> due_before t dst fd n \<Longrightarrow>
   in_flight dst fd (push_pieces t dst fd ps n) = in_flight dst fd n @ concat ps \<and>
     due_before (t + int (length ps)) dst fd (push_pieces t dst fd ps n)"
proof (induction t dst fd ps n rule: push_pieces.induct)
  case (2 t dst fd p ps n)
  let ?e = "ev_none\<lparr>ev_due := t, ev_kind := SBytes, ev_dst := dst, ev_fd := fd, ev_bytes := p\<rparr>"
  note pb = push_bytes [OF 2(2,3), of ?e, simplified bytes_to_def]
  show ?case using 2(1) 2(2) pb by (simp add: net_push_in_order algebra_simps)
qed simp

lemma fragments_concat: "0 < m \<Longrightarrow> concat (fst (fragments rng k m xs)) = xs"
proof (induction rng k m xs rule: fragments.induct)
  case (2 rng k m xs)
  then show ?case by (simp add: Let_def split: prod.splits) (metis append_take_drop_id fst_conv neq0_conv)
qed simp

end
