(* ===== verification/Sim_Stream.thy ===== *)
theory Sim_Stream
  imports Sim_Queue
begin

text \<open>
  The stream across a link: in a network without loss, resets and partitions, the bytes sent at one
  end are, at every moment, the bytes that have arrived at the other followed by those in flight,
  whatever the latencies, the fragmentation and the traffic of other connections.
\<close>

section \<open>Traffic\<close>

datatype 't traffic =
    TSendv nat u64 int "byte list list"
  | TRecv nat u64 int nat
  | TAccept nat u64 u16 int
  | TConnect nat u64 int u16 int
  | TDetach nat int
  | TCancel nat u64
  | TWait nat nat
  | TPost nat 't int
  | TTime int
  | TNext

fun do_traffic :: "(nat \<Rightarrow> real) \<Rightarrow> 't traffic \<Rightarrow> 't world \<Rightarrow> 't world" where
  "do_traffic rng (TSendv b u fd iov) w = w_submit_sendv rng b u fd iov w"
| "do_traffic rng (TRecv b u fd room) w = w_submit_recv b u fd room w"
| "do_traffic rng (TAccept b u port fd) w = w_submit_accept b u port fd w"
| "do_traffic rng (TConnect b u fd port sock) w = w_submit_connect rng b u fd port sock w"
| "do_traffic rng (TDetach b fd) w = w_detach rng b fd w"
| "do_traffic rng (TCancel b u) w = w_cancel b u w"
| "do_traffic rng (TWait b n) w = w_wait b n w"
| "do_traffic rng (TPost s fn d) w = on_net (net_post s fn d) w"
| "do_traffic rng (TTime t) w = on_net (set_now t) w"
| "do_traffic rng TNext w = w_next w"

text \<open>
  Descriptors are unique in the process: a descriptor of the link is used by the back end that owns
  it, and a new connection gets others.
\<close>

fun owned :: "nat \<Rightarrow> int \<Rightarrow> nat \<Rightarrow> int \<Rightarrow> 't traffic \<Rightarrow> bool" where
  "owned a fa b fb (TSendv x _ fd _) \<longleftrightarrow> (fd = fa \<longrightarrow> x = a) \<and> (fd = fb \<longrightarrow> x = b)"
| "owned a fa b fb (TConnect _ _ fd _ sock) \<longleftrightarrow> fd \<notin> {fa, fb} \<and> 0 \<le> sock \<and> sock \<notin> {fa, fb}"
| "owned a fa b fb (TDetach _ fd) \<longleftrightarrow> fd \<notin> {fa, fb}"
| "owned a fa b fb _ \<longleftrightarrow> True"

definition gentle :: "fault_profile \<Rightarrow> bool" where
  "gentle f \<longleftrightarrow> fp_packet_loss f \<le> 0 \<and> fp_reset_chance f \<le> 0 \<and> fp_partition_chance f \<le> 0"

section \<open>The link\<close>

text \<open>The link is in place, and no other descriptor leads to it or to its ends.\<close>

definition linked :: "nat \<Rightarrow> nat \<Rightarrow> int \<Rightarrow> nat \<Rightarrow> int \<Rightarrow> 't sim_net \<Rightarrow> bool" where
  "linked k a fa b fb n \<longleftrightarrow>
     k < length (nt_links n) \<and> lk_a (nt_links n ! k) = a \<and> lk_a_fd (nt_links n ! k) = fa \<and> lk_b (nt_links n ! k) = b \<and>
     lk_b_fd (nt_links n ! k) = fb \<and> \<not> lk_partitioned (nt_links n ! k) \<and> nt_fd_link n fa = Some k \<and> nt_fd_link n fb = Some k \<and>
     (\<forall>fd j. nt_fd_link n fd = Some j \<and> fd \<notin> {fa, fb} \<longrightarrow>
        j < length (nt_links n) \<and> j \<noteq> k \<and> lk_a_fd (nt_links n ! j) \<notin> {fa, fb} \<and> lk_b_fd (nt_links n ! j) \<notin> {fa, fb})"

definition streams_to :: "bool \<Rightarrow> nat \<Rightarrow> int \<Rightarrow> nat \<Rightarrow> int \<Rightarrow> nat \<Rightarrow> 't world \<Rightarrow> bool" where
  "streams_to ab a fa b fb k w \<longleftrightarrow>
     due_before (link_free ab (nt_links (wd_net w) ! k)) b fb (wd_net w) \<and>
     fs_outbound (fd_at fa (wd_backends w a)) = arrived fb (wd_backends w b) @ in_flight b fb (wd_net w)"

definition duplex :: "nat \<Rightarrow> nat \<Rightarrow> int \<Rightarrow> nat \<Rightarrow> int \<Rightarrow> 't world \<Rightarrow> bool" where
  "duplex k a fa b fb w \<longleftrightarrow>
     fa \<noteq> fb \<and> in_order (wd_net w) \<and> gentle (nt_faults (wd_net w)) \<and> linked k a fa b fb (wd_net w) \<and>
     streams_to True a fa b fb k w \<and> streams_to False b fb a fa k w"

lemma link_for_ends:
  assumes "linked k a fa b fb n" "fa \<noteq> fb"
  shows "link_for a fa n = Some (k, b, fb, True)" "link_for b fb n = Some (k, a, fa, False)"
  using assms by (auto simp: linked_def link_for_def Let_def)

lemma link_for_other:
  assumes "linked k a fa b fb n" "fd \<notin> {fa, fb}" "link_for x fd n = Some (j, d, df, s)"
  shows "j < length (nt_links n)" "j \<noteq> k" "df \<notin> {fa, fb}"
  using assms by (auto simp: linked_def link_for_def Let_def split: option.splits if_splits)

section \<open>Back-end operations\<close>

lemma on_simps [simp]:
  "wd_net (on_backend x g w) = wd_net w" "wd_backends (on_net h w) = wd_backends w" "wd_net (on_net h w) = h (wd_net w)"
  "wd_backends (on_backend x g w) y = (if y = x then g (wd_backends w x) else wd_backends w y)"
  by (simp_all add: on_backend_def on_net_def)

text \<open>An operation of one back end that leaves the bytes of the two ends alone.\<close>

lemma quiet_duplex:
  assumes "duplex k a fa b fb w"
    and "\<And>fd. fd \<in> {fa, fb} \<Longrightarrow> arrived fd (g (wd_backends w x)) = arrived fd (wd_backends w x) \<and>
           fs_outbound (fd_at fd (g (wd_backends w x))) = fs_outbound (fd_at fd (wd_backends w x))"
  shows "duplex k a fa b fb (on_backend x g w)"
  using assms by (auto simp: duplex_def streams_to_def)

lemma forget_keeps:
  "fd \<noteq> f \<Longrightarrow> arrived fd (sb_forget f c) = arrived fd c \<and> fs_outbound (fd_at fd (sb_forget f c)) = fs_outbound (fd_at fd c)"
  by (simp add: arrived_def sb_forget_def fd_at_def delete_conv')

lemma arm_keeps:
  "arrived fd (sb_arm_accept u f c) = arrived fd c" "fs_outbound (fd_at fd (sb_arm_accept u f c)) = fs_outbound (fd_at fd c)"
  "arrived fd (sb_arm_connect u f c) = arrived fd c" "fs_outbound (fd_at fd (sb_arm_connect u f c)) = fs_outbound (fd_at fd c)"
  "0 \<le> s \<Longrightarrow> arrived fd (snd (sb_add_fd s c)) = arrived fd c"
  "0 \<le> s \<Longrightarrow> fs_outbound (fd_at fd (snd (sb_add_fd s c))) = fs_outbound (fd_at fd c)"
  by (simp_all add: sb_arm_accept_def sb_arm_connect_def sb_add_fd_def put_arrived)

section \<open>Network operations\<close>

text \<open>An operation of the network that only pushes events other than bytes.\<close>

definition calm :: "'t sim_net \<Rightarrow> 't sim_net \<Rightarrow> bool" where
  "calm n n' \<longleftrightarrow> (in_order n \<longrightarrow> in_order n') \<and> nt_faults n' = nt_faults n \<and> nt_links n' = nt_links n \<and>
     (\<forall>d fd. in_flight d fd n' = in_flight d fd n) \<and> (\<forall>t d fd. due_before t d fd n' = due_before t d fd n)"

lemma calm_trans: "calm n n' \<Longrightarrow> calm n' n'' \<Longrightarrow> calm n n''"
  by (simp add: calm_def)

lemma calm_same_queue:
  "nt_q n' = nt_q n \<Longrightarrow> nt_seq n' = nt_seq n \<Longrightarrow> nt_faults n' = nt_faults n \<Longrightarrow> nt_links n' = nt_links n \<Longrightarrow> calm n n'"
  by (simp add: calm_def in_order_def in_flight_def due_before_def)

lemma calm_push: "ev_kind e \<noteq> SBytes \<Longrightarrow> calm n (net_push e n)"
  by (auto simp: calm_def push_other bytes_to_def)

lemma latency_calm: "calm n (snd (latency rng n))" "nt_fd_link (snd (latency rng n)) = nt_fd_link n"
  by (auto simp: latency_def draw_def Let_def intro!: calm_same_queue)

lemma linkedI:
  assumes "k < length (nt_links n)"
    and "lk_a (nt_links n ! k) = a \<and> lk_a_fd (nt_links n ! k) = fa \<and> lk_b (nt_links n ! k) = b \<and> lk_b_fd (nt_links n ! k) = fb \<and>
           \<not> lk_partitioned (nt_links n ! k)"
    and "nt_fd_link n fa = Some k" "nt_fd_link n fb = Some k"
    and "\<And>fd j. nt_fd_link n fd = Some j \<Longrightarrow> fd \<notin> {fa, fb} \<Longrightarrow>
           j < length (nt_links n) \<and> j \<noteq> k \<and> lk_a_fd (nt_links n ! j) \<notin> {fa, fb} \<and> lk_b_fd (nt_links n ! j) \<notin> {fa, fb}"
  shows "linked k a fa b fb n"
  unfolding linked_def using assms by blast

lemma linked_mono:
  assumes "linked k a fa b fb n" "nt_links n' = nt_links n" "nt_fd_link n' fa = Some k" "nt_fd_link n' fb = Some k"
    and "\<And>fd j. nt_fd_link n' fd = Some j \<Longrightarrow> nt_fd_link n fd = Some j"
  shows "linked k a fa b fb n'"
proof (rule linkedI)
  fix fd j
  assume "nt_fd_link n' fd = Some j" "fd \<notin> {fa, fb}"
  then have "nt_fd_link n fd = Some j \<and> fd \<notin> {fa, fb}" using assms(5) by blast
  then show "j < length (nt_links n') \<and> j \<noteq> k \<and> lk_a_fd (nt_links n' ! j) \<notin> {fa, fb} \<and> lk_b_fd (nt_links n' ! j) \<notin> {fa, fb}"
    unfolding assms(2) using assms(1) unfolding linked_def by blast
qed (use assms in \<open>simp_all add: linked_def\<close>)

lemma calm_duplex:
  assumes "duplex k a fa b fb w" "calm (wd_net w) (h (wd_net w))"
    and "nt_fd_link (h (wd_net w)) fa = Some k" "nt_fd_link (h (wd_net w)) fb = Some k"
    and "\<And>fd j. nt_fd_link (h (wd_net w)) fd = Some j \<Longrightarrow> nt_fd_link (wd_net w) fd = Some j"
  shows "duplex k a fa b fb (on_net h w)"
proof -
  have "linked k a fa b fb (h (wd_net w))"
    using linked_mono [OF _ _ assms(3,4,5)] assms(1,2) unfolding duplex_def calm_def by blast
  then show ?thesis using assms(1,2) by (simp add: duplex_def streams_to_def calm_def)
qed

section \<open>Sending\<close>

lemma latency_shape: obtains x m where "latency rng n = (x, n\<lparr>nt_draws := m\<rparr>)"
proof (cases "fp_max_latency (nt_faults n) \<le> fp_min_latency (nt_faults n)")
  case True
  then show thesis using that [of "fp_min_latency (nt_faults n)" "nt_draws n"] by (simp add: latency_def)
qed (use that in \<open>auto simp: latency_def draw_def Let_def\<close>)

lemma chance_shape: obtains q m where "chance rng p n = (q, n\<lparr>nt_draws := m\<rparr>)"
proof (cases "0 < p")
  case False
  then show thesis using that [of False "nt_draws n"] by (simp add: chance_def)
qed (use that in \<open>auto simp: chance_def draw_def Let_def\<close>)

lemma schedule_shape:
  obtains t m ps where "schedule_bytes rng j s d f bs n = set_free j s (t + int (length ps)) (push_pieces t d f ps (n\<lparr>nt_draws := m\<rparr>))"
    and "concat ps = bs" and "link_free s (nt_links n ! j) \<le> t"
proof -
  obtain x m1 where lat: "latency rng n = (x, n\<lparr>nt_draws := m1\<rparr>)" by (rule latency_shape)
  obtain q m2 where ch: "chance rng (fp_slow_peer (nt_faults n)) (n\<lparr>nt_draws := m1\<rparr>) = (q, n\<lparr>nt_draws := m2\<rparr>)"
    using chance_shape [of rng _ "n\<lparr>nt_draws := m1\<rparr>"] by auto
  define t where "t = max (nt_now n + (if q then x + fp_slow_latency (nt_faults n) else x)) (link_free s (nt_links n ! j))"
  have "link_free s (nt_links n ! j) \<le> t" by (simp add: t_def)
  show thesis
  proof (cases "fp_partial_reads (nt_faults n) \<and> 1 < length bs")
    case True
    obtain ps r where fr: "fragments rng (Suc m2) (2 + nat \<lfloor>rng m2 * 3\<rfloor>) bs = (ps, r)" by fastforce
    have "concat ps = bs" using fragments_concat [of "2 + nat \<lfloor>rng m2 * 3\<rfloor>" rng "Suc m2" bs] fr by simp
    moreover have "schedule_bytes rng j s d f bs n = set_free j s (t + int (length ps)) (push_pieces t d f ps (n\<lparr>nt_draws := r\<rparr>))"
      using True fr by (simp add: schedule_bytes_def lat ch draw_def t_def Let_def del: fragments.simps)
    ultimately show thesis using that \<open>_ \<le> t\<close> by blast
  next
    case False
    then have "schedule_bytes rng j s d f bs n = set_free j s (t + int (length [bs])) (push_pieces t d f [bs] (n\<lparr>nt_draws := m2\<rparr>))"
      by (cases "fp_partial_reads (nt_faults n)") (simp_all add: schedule_bytes_def lat ch t_def Let_def del: fragments.simps)
    moreover have "concat [bs] = bs" by simp
    ultimately show thesis using that \<open>_ \<le> t\<close> by blast
  qed
qed

lemma gentle_deliver:
  assumes "gentle (nt_faults n)" "link_for x fd n = Some (j, d, f, s)" "\<not> lk_partitioned (nt_links n ! j)"
  shows "deliver_bytes rng x fd iov n = schedule_bytes rng j s d f (concat iov) n"
  using assms by (simp add: deliver_bytes_def gentle_def chance_def Let_def)

lemma deliver_cases:
  assumes "gentle (nt_faults n)"
  obtains "deliver_bytes rng x fd iov n = n" | "deliver_bytes rng x fd iov n = net_drop n"
  | j d f s t ps m where "link_for x fd n = Some (j, d, f, s)" "concat ps = concat iov" "link_free s (nt_links n ! j) \<le> t"
      "deliver_bytes rng x fd iov n = set_free j s (t + int (length ps)) (push_pieces t d f ps (n\<lparr>nt_draws := m\<rparr>))"
proof (cases "link_for x fd n")
  case None
  then show thesis using that(1) by (simp add: deliver_bytes_def)
next
  case (Some l)
  obtain j d f s where l: "l = (j, d, f, s)" by (cases l)
  show thesis
  proof (cases "lk_partitioned (nt_links n ! j)")
    case True
    then show thesis using that(2) Some l by (simp add: deliver_bytes_def)
  next
    case False
    obtain t m ps where "schedule_bytes rng j s d f (concat iov) n = set_free j s (t + int (length ps)) (push_pieces t d f ps (n\<lparr>nt_draws := m\<rparr>))"
      "concat ps = concat iov" "link_free s (nt_links n ! j) \<le> t" by (rule schedule_shape)
    then show thesis using that(3) [of j d f s ps t m] gentle_deliver [OF assms] False Some l by simp
  qed
qed

lemma set_free_queue [simp]:
  "nt_q (set_free j s t n) = nt_q n" "nt_seq (set_free j s t n) = nt_seq n" "nt_faults (set_free j s t n) = nt_faults n"
  "nt_fd_link (set_free j s t n) = nt_fd_link n" "length (nt_links (set_free j s t n)) = length (nt_links n)"
  by (simp_all add: set_free_def)

lemma set_free_views [simp]:
  "in_order (set_free j s t n) = in_order n" "in_flight d f (set_free j s t n) = in_flight d f n"
  "due_before u d f (set_free j s t n) = due_before u d f n"
  "in_order (n\<lparr>nt_draws := m\<rparr>) = in_order n" "in_flight d f (n\<lparr>nt_draws := m\<rparr>) = in_flight d f n"
  "due_before u d f (n\<lparr>nt_draws := m\<rparr>) = due_before u d f n"
  by (simp_all add: in_order_def in_flight_def due_before_def)

lemma set_free_link:
  "i < length (nt_links n) \<Longrightarrow>
   link_free ab (nt_links (set_free j s t n) ! i) = (if (j, s) = (i, ab) then t else link_free ab (nt_links n ! i))"
  by (cases "j = i") (auto simp: set_free_def link_free_def)

text \<open>A change of a link that keeps its ends and does not partition it.\<close>

definition same_ends :: "link \<Rightarrow> link \<Rightarrow> bool" where
  "same_ends l l' \<longleftrightarrow> lk_a l' = lk_a l \<and> lk_b l' = lk_b l \<and> lk_a_fd l' = lk_a_fd l \<and> lk_b_fd l' = lk_b_fd l \<and>
     (lk_partitioned l' \<longrightarrow> lk_partitioned l)"

lemma linked_update:
  assumes "linked k a fa b fb n" "same_ends (nt_links n ! j) l"
  shows "linked k a fa b fb (n\<lparr>nt_links := (nt_links n)[j := l]\<rparr>)"
proof -
  let ?n = "n\<lparr>nt_links := (nt_links n)[j := l]\<rparr>"
  have same: "same_ends (nt_links n ! i) (nt_links ?n ! i)" if "i < length (nt_links n)" for i
    using that assms(2) by (cases "j = i") (simp_all add: same_ends_def)
  have others: "i < length (nt_links n) \<and> i \<noteq> k \<and> lk_a_fd (nt_links n ! i) \<notin> {fa, fb} \<and> lk_b_fd (nt_links n ! i) \<notin> {fa, fb}"
    if "nt_fd_link n g = Some i" "g \<notin> {fa, fb}" for g i
    using assms(1) that unfolding linked_def by blast
  have kl: "k < length (nt_links n)" using assms(1) by (simp add: linked_def)
  show ?thesis
  proof (rule linkedI)
    fix g i
    assume "nt_fd_link ?n g = Some i" "g \<notin> {fa, fb}"
    then have "i < length (nt_links n) \<and> i \<noteq> k \<and> lk_a_fd (nt_links n ! i) \<notin> {fa, fb} \<and> lk_b_fd (nt_links n ! i) \<notin> {fa, fb}"
      using others by simp
    then show "i < length (nt_links ?n) \<and> i \<noteq> k \<and> lk_a_fd (nt_links ?n ! i) \<notin> {fa, fb} \<and> lk_b_fd (nt_links ?n ! i) \<notin> {fa, fb}"
      using same [of i] by (simp add: same_ends_def)
  qed (use assms(1) kl same [OF kl] in \<open>auto simp: linked_def same_ends_def\<close>)
qed

lemma linked_set_free: "linked k a fa b fb n \<Longrightarrow> linked k a fa b fb (set_free j s t n)"
  unfolding set_free_def by (rule linked_update) (simp_all add: same_ends_def)

text \<open>What a delivery does to the bytes in flight to one descriptor.\<close>

lemma deliver_flow:
  assumes "in_order n" "k < length (nt_links n)" "due_before (link_free ab (nt_links n ! k)) b fb n"
    and "link_free s (nt_links n ! j) \<le> t" "(j, s) = (k, ab) \<longleftrightarrow> (d, f) = (b, fb)"
    and n': "n' = set_free j s (t + int (length ps)) (push_pieces t d f ps (n\<lparr>nt_draws := m\<rparr>))"
  shows "due_before (link_free ab (nt_links n' ! k)) b fb n'"
    and "in_flight b fb n' = in_flight b fb n @ (if (d, f) = (b, fb) then concat ps else [])"
proof -
  let ?n = "n\<lparr>nt_draws := m\<rparr>"
  have "due_before (link_free ab (nt_links n' ! k)) b fb n' \<and>
      in_flight b fb n' = in_flight b fb n @ (if (d, f) = (b, fb) then concat ps else [])"
  proof (cases "(d, f) = (b, fb)")
    case True
    have "due_before t b fb ?n" using assms(3,4,5) True by (auto simp: due_before_def)
    then show ?thesis using push_pieces_bytes [of ?n t b fb ps] assms(1,2,5) True by (simp add: n' set_free_link)
  next
    case False
    then have "(j, s) \<noteq> (k, ab)" using assms(5) by blast
    then have "link_free ab (nt_links n' ! k) = link_free ab (nt_links n ! k)" using assms(2) by (auto simp: n' set_free_link)
    with False show ?thesis using push_pieces_other [OF False, of t ps ?n] assms(3) by (auto simp: n')
  qed
  then show "due_before (link_free ab (nt_links n' ! k)) b fb n'"
    and "in_flight b fb n' = in_flight b fb n @ (if (d, f) = (b, fb) then concat ps else [])" by blast+
qed

lemma linked_draws: "linked k a fa b fb (push_pieces t d f ps (n\<lparr>nt_draws := m\<rparr>)) = linked k a fa b fb n"
  by (simp add: linked_def)

lemma duplexD:
  assumes "duplex k a fa b fb w"
  shows "fa \<noteq> fb" "in_order (wd_net w)" "gentle (nt_faults (wd_net w))" "linked k a fa b fb (wd_net w)"
    "streams_to True a fa b fb k w" "streams_to False b fb a fa k w"
  using assms by (simp_all add: duplex_def)

text \<open>The network after bytes \<open>fab\<close> were sent from the first end and bytes \<open>fba\<close> from the second.\<close>

definition carried :: "nat \<Rightarrow> nat \<Rightarrow> int \<Rightarrow> nat \<Rightarrow> int \<Rightarrow> byte list \<Rightarrow> byte list \<Rightarrow> 't sim_net \<Rightarrow> 't sim_net \<Rightarrow> bool" where
  "carried k a fa b fb fab fba n n' \<longleftrightarrow>
     in_order n' \<and> gentle (nt_faults n') \<and> linked k a fa b fb n' \<and>
     due_before (link_free True (nt_links n' ! k)) b fb n' \<and> due_before (link_free False (nt_links n' ! k)) a fa n' \<and>
     in_flight b fb n' = in_flight b fb n @ fab \<and> in_flight a fa n' = in_flight a fa n @ fba"

lemma carried_none:
  assumes "duplex k a fa b fb w"
  shows "carried k a fa b fb [] [] (wd_net w) (wd_net w)" "carried k a fa b fb [] [] (wd_net w) (net_drop (wd_net w))"
  using assms by (simp_all add: carried_def duplex_def streams_to_def net_drop_def linked_def in_order_def in_flight_def due_before_def)

lemma carried_delivery:
  assumes "duplex k a fa b fb w" "link_free s (nt_links (wd_net w) ! j) \<le> t"
    and "(j, s) = (k, True) \<longleftrightarrow> (d, f) = (b, fb)" "(j, s) = (k, False) \<longleftrightarrow> (d, f) = (a, fa)"
    and n': "n' = set_free j s (t + int (length ps)) (push_pieces t d f ps ((wd_net w)\<lparr>nt_draws := m\<rparr>))"
  shows "carried k a fa b fb (if (d, f) = (b, fb) then concat ps else []) (if (d, f) = (a, fa) then concat ps else []) (wd_net w) n'"
proof -
  note dx = duplexD [OF assms(1)]
  have kl: "k < length (nt_links (wd_net w))" using dx(4) by (simp add: linked_def)
  have "linked k a fa b fb n'" unfolding n' using dx(4) by (intro linked_set_free) (simp add: linked_draws)
  moreover have "in_order n'" unfolding n' using dx(2) by (simp add: push_pieces_in_order)
  moreover have "gentle (nt_faults n')" unfolding n' using dx(3) by simp
  moreover note deliver_flow [OF dx(2) kl _ assms(2,3) n'] deliver_flow [OF dx(2) kl _ assms(2,4) n']
  ultimately show ?thesis unfolding carried_def using dx(5,6) by (simp add: streams_to_def)
qed

lemma carried_send:
  assumes "duplex k a fa b fb w" "owned a fa b fb (TSendv x u fd iov)"
  shows "carried k a fa b fb (if fd = fa then concat iov else []) (if fd = fb then concat iov else []) (wd_net w)
           (deliver_bytes rng x fd iov (wd_net w))"
proof -
  note dx = duplexD [OF assms(1)]
  have up: "\<not> lk_partitioned (nt_links (wd_net w) ! k)" using dx(4) by (simp add: linked_def)
  consider "fd = fa" | "fd = fb" | "fd \<notin> {fa, fb}" by blast
  then show ?thesis
  proof cases
    case 1
    then have l: "link_for x fd (wd_net w) = Some (k, b, fb, True)" using assms(2) link_for_ends [OF dx(4,1)] by simp
    obtain t m ps where "schedule_bytes rng k True b fb (concat iov) (wd_net w) = set_free k True (t + int (length ps))
        (push_pieces t b fb ps ((wd_net w)\<lparr>nt_draws := m\<rparr>))" "concat ps = concat iov" "link_free True (nt_links (wd_net w) ! k) \<le> t"
      by (rule schedule_shape)
    then show ?thesis
      using carried_delivery [OF assms(1), of True k t b fb _ ps m] gentle_deliver [OF dx(3) l up] dx(1) 1 by simp
  next
    case 2
    then have l: "link_for x fd (wd_net w) = Some (k, a, fa, False)" using assms(2) link_for_ends [OF dx(4,1)] by simp
    obtain t m ps where "schedule_bytes rng k False a fa (concat iov) (wd_net w) = set_free k False (t + int (length ps))
        (push_pieces t a fa ps ((wd_net w)\<lparr>nt_draws := m\<rparr>))" "concat ps = concat iov" "link_free False (nt_links (wd_net w) ! k) \<le> t"
      by (rule schedule_shape)
    then show ?thesis
      using carried_delivery [OF assms(1), of False k t a fa _ ps m] gentle_deliver [OF dx(3) l up] dx(1) 2 by simp
  next
    case 3
    then show ?thesis
    proof (cases rule: deliver_cases [OF dx(3), of rng x fd iov])
      case (3 j d f s t ps m)
      with \<open>fd \<notin> {fa, fb}\<close> link_for_other [OF dx(4)] have "j \<noteq> k" "f \<notin> {fa, fb}" by blast+
      with 3 \<open>fd \<notin> {fa, fb}\<close> carried_delivery [OF assms(1), of s j t d f _ ps m] show ?thesis by auto
    qed (use carried_none [OF assms(1)] in auto)
  qed
qed

lemma send_duplex:
  assumes "duplex k a fa b fb w" "owned a fa b fb (TSendv x u fd iov)"
  shows "duplex k a fa b fb (w_submit_sendv rng x u fd iov w)"
proof -
  note dx = duplexD [OF assms(1)]
  define n' where "n' = (if concat iov = [] then wd_net w else deliver_bytes rng x fd iov (wd_net w))"
  have "carried k a fa b fb (if fd = fa then concat iov else []) (if fd = fb then concat iov else []) (wd_net w) n'"
    using carried_none(1) [OF assms(1)] carried_send [OF assms] by (cases "concat iov = []") (simp_all only: n'_def if_True if_False if_cancel simp_thms)
  moreover have "w_submit_sendv rng x u fd iov w = (on_backend x (sb_record_send u fd iov) w)\<lparr>wd_net := n'\<rparr>"
    by (simp add: w_submit_sendv_def n'_def Let_def on_net_def)
  moreover let ?b = "wd_backends (on_backend x (sb_record_send u fd iov) w)"
  have "fs_outbound (fd_at fa (?b a)) = fs_outbound (fd_at fa (wd_backends w a)) @ (if fd = fa then concat iov else [])"
    "fs_outbound (fd_at fb (?b b)) = fs_outbound (fd_at fb (wd_backends w b)) @ (if fd = fb then concat iov else [])"
    using assms(2) by (auto simp: send_outbound)
  moreover have "arrived f (?b c) = arrived f (wd_backends w c)" for f c by simp
  ultimately show ?thesis using dx(1,5,6) by (simp add: duplex_def streams_to_def carried_def del: on_simps)
qed

section \<open>Other connections\<close>

lemma refuse_duplex:
  assumes "duplex k a fa b fb w"
  shows "duplex k a fa b fb (on_net (net_refuse rng x fd u) w)"
proof (rule calm_duplex [OF assms])
  obtain d m where l: "latency rng (wd_net w) = (d, (wd_net w)\<lparr>nt_draws := m\<rparr>)" by (rule latency_shape)
  have "calm (wd_net w) ((wd_net w)\<lparr>nt_draws := m\<rparr>)" by (rule calm_same_queue) simp_all
  then show "calm (wd_net w) (net_refuse rng x fd u (wd_net w))"
    by (simp add: net_refuse_def l) (rule calm_trans, assumption, rule calm_push, simp)
  show "nt_fd_link (net_refuse rng x fd u (wd_net w)) fa = Some k" "nt_fd_link (net_refuse rng x fd u (wd_net w)) fb = Some k"
    using assms by (simp_all add: net_refuse_def l duplex_def linked_def)
  show "nt_fd_link (wd_net w) fd' = Some j" if "nt_fd_link (net_refuse rng x fd u (wd_net w)) fd' = Some j" for fd' j
    using that by (simp add: net_refuse_def l)
qed

lemma push_duplex:
  assumes "duplex k a fa b fb w" "ev_kind e \<noteq> SBytes"
  shows "duplex k a fa b fb (w\<lparr>wd_net := net_push e (wd_net w)\<rparr>)"
proof -
  have "duplex k a fa b fb (on_net (net_push e) w)"
    by (rule calm_duplex [OF assms(1)]) (use calm_push [OF assms(2)] assms(1) in \<open>simp_all add: duplex_def linked_def\<close>)
  then show ?thesis by (simp add: on_net_def)
qed

lemma same_net_duplex:
  assumes "duplex k a fa b fb w" "nt_q n = nt_q (wd_net w)" "nt_seq n = nt_seq (wd_net w)" "nt_faults n = nt_faults (wd_net w)"
    "nt_links n = nt_links (wd_net w)" "nt_fd_link n = nt_fd_link (wd_net w)"
  shows "duplex k a fa b fb (w\<lparr>wd_net := n\<rparr>)"
  using assms by (simp add: duplex_def streams_to_def linked_def in_order_def in_flight_def due_before_def)

lemma draws_duplex: "duplex k a fa b fb w \<Longrightarrow> duplex k a fa b fb (w\<lparr>wd_net := (wd_net w)\<lparr>nt_draws := m\<rparr>\<rparr>)"
  by (rule same_net_duplex) simp_all

text \<open>A new link between descriptors other than the two ends.\<close>

lemma link_duplex:
  assumes "duplex k a fa b fb w" "fd \<notin> {fa, fb}" "sock \<notin> {fa, fb}" "lk_a_fd l = fd" "lk_b_fd l = sock"
  shows "duplex k a fa b fb (w\<lparr>wd_net := (wd_net w)\<lparr>nt_links := nt_links (wd_net w) @ [l],
           nt_fd_link := (nt_fd_link (wd_net w))(fd \<mapsto> length (nt_links (wd_net w)), sock \<mapsto> length (nt_links (wd_net w)))\<rparr>\<rparr>)"
proof -
  note dx = duplexD [OF assms(1)]
  let ?n = "wd_net w"
  let ?n' = "?n\<lparr>nt_links := nt_links ?n @ [l], nt_fd_link := (nt_fd_link ?n)(fd \<mapsto> length (nt_links ?n), sock \<mapsto> length (nt_links ?n))\<rparr>"
  have kl: "k < length (nt_links ?n)" using dx(4) by (simp add: linked_def)
  then have same: "nt_links ?n' ! k = nt_links ?n ! k" by (simp add: nth_append)
  have others: "j < length (nt_links ?n') \<and> j \<noteq> k \<and> lk_a_fd (nt_links ?n' ! j) \<notin> {fa, fb} \<and> lk_b_fd (nt_links ?n' ! j) \<notin> {fa, fb}"
    if j: "nt_fd_link ?n' g = Some j" "g \<notin> {fa, fb}" for g j
  proof (cases "g \<in> {fd, sock}")
    case True
    then have "j = length (nt_links ?n)" using j(1) by (auto split: if_splits)
    then show ?thesis using kl assms(2-5) by simp
  next
    case False
    then have "nt_fd_link ?n g = Some j" using j(1) by simp
    then have "j < length (nt_links ?n) \<and> j \<noteq> k \<and> lk_a_fd (nt_links ?n ! j) \<notin> {fa, fb} \<and> lk_b_fd (nt_links ?n ! j) \<notin> {fa, fb}"
      using dx(4) j(2) unfolding linked_def by blast
    then show ?thesis by (simp add: nth_append)
  qed
  have "linked k a fa b fb ?n'"
    by (rule linkedI [OF _ _ _ _ others]) (use dx(4) kl same assms(2,3) in \<open>simp_all add: linked_def\<close>)
  then show ?thesis using dx kl same by (simp add: duplex_def streams_to_def in_order_def in_flight_def due_before_def)
qed

lemma wire_duplex:
  assumes "duplex k a fa b fb w" "fd \<notin> {fa, fb}" "sock \<notin> {fa, fb}"
  shows "duplex k a fa b fb (on_net (net_wire rng x fd u srv lfd sock) w)"
proof -
  let ?i = "length (nt_links (wd_net w))"
  let ?l = "\<lparr>lk_a = x, lk_a_fd = fd, lk_b = srv, lk_b_fd = sock, lk_partitioned = False, lk_free_ab = 0, lk_free_ba = 0\<rparr>"
  define n1 where "n1 = (wd_net w)\<lparr>nt_links := nt_links (wd_net w) @ [?l], nt_fd_link := (nt_fd_link (wd_net w))(fd \<mapsto> ?i, sock \<mapsto> ?i)\<rparr>"
  obtain d m where l: "latency rng n1 = (d, n1\<lparr>nt_draws := m\<rparr>)" by (rule latency_shape)
  have "duplex k a fa b fb (w\<lparr>wd_net := n1\<rparr>)" unfolding n1_def using assms by (intro link_duplex) simp_all
  from draws_duplex [OF this, of m] have "duplex k a fa b fb (w\<lparr>wd_net := n1\<lparr>nt_draws := m\<rparr>\<rparr>)" by simp
  from push_duplex [OF push_duplex [OF this]] show ?thesis
    by (simp add: net_wire_def on_net_def Let_def n1_def [symmetric] l)
qed

lemma connect_duplex:
  assumes "duplex k a fa b fb w" "owned a fa b fb (TConnect x u fd port sock)"
  shows "duplex k a fa b fb (w_submit_connect rng x u fd port sock w)"
proof -
  let ?w = "on_backend x (sb_arm_connect u fd) w"
  have w: "duplex k a fa b fb ?w" by (rule quiet_duplex [OF assms(1)]) (simp add: arm_keeps)
  show ?thesis
  proof (cases "nt_listeners (wd_net ?w) port")
    case None
    then show ?thesis using refuse_duplex [OF w] by (simp add: w_submit_connect_def Let_def)
  next
    case (Some p)
    obtain srv lfd where p: "p = (srv, lfd)" by fastforce
    obtain bk where bk: "sb_add_fd sock (wd_backends ?w srv) = (sock, bk)" using assms(2) by (simp add: sb_add_fd_def)
    then have "bk = snd (sb_add_fd sock (wd_backends ?w srv))" by simp
    then have "duplex k a fa b fb (on_backend srv (\<lambda>_. bk) ?w)"
      using assms(2) by (intro quiet_duplex [OF w]) (simp add: arm_keeps)
    then have "duplex k a fa b fb (on_net (net_wire rng x fd u srv lfd sock) (on_backend srv (\<lambda>_. bk) ?w))"
      using assms(2) by (intro wire_duplex) simp_all
    then show ?thesis using Some p bk by (simp add: w_submit_connect_def Let_def)
  qed
qed

lemma detach_duplex:
  assumes "duplex k a fa b fb w" "fd \<notin> {fa, fb}"
  shows "duplex k a fa b fb (w_detach rng x fd w)"
proof -
  note dx = duplexD [OF assms(1)]
  have u: "duplex k a fa b fb (on_net (unlisten x fd) w)"
    by (rule calm_duplex [OF assms(1)]) (use dx(4) in \<open>auto simp: unlisten_def linked_def intro!: calm_same_queue\<close>)
  have "duplex k a fa b fb (on_net (net_detach rng x fd) w)"
  proof (cases "link_for x fd (unlisten x fd (wd_net w))")
    case None
    then show ?thesis using u by (simp add: net_detach_def on_net_def Let_def)
  next
    case (Some p)
    obtain j d f s where p: "p = (j, d, f, s)" by (cases p)
    define n1 where "n1 = erase_links fd f (unlisten x fd (wd_net w))"
    obtain t m where l: "latency rng n1 = (t, n1\<lparr>nt_draws := m\<rparr>)" by (rule latency_shape)
    have "f \<notin> {fa, fb}" using link_for_other [OF duplexD(4) [OF u] assms(2)] Some p by simp
    then have "duplex k a fa b fb (on_net (erase_links fd f) (on_net (unlisten x fd) w))"
      by (intro calm_duplex [OF u])
        (use assms(2) duplexD(4) [OF u] in \<open>auto simp: erase_links_def linked_def intro!: calm_same_queue split: if_splits\<close>)
    then have n1: "duplex k a fa b fb (w\<lparr>wd_net := n1\<rparr>)" by (simp add: n1_def on_net_def)
    then have "duplex k a fa b fb (w\<lparr>wd_net := n1\<lparr>nt_draws := m\<rparr>\<rparr>)" using draws_duplex [OF n1, of m] by simp
    from push_duplex [OF this] n1 show ?thesis
      by (simp add: net_detach_def on_net_def Let_def Some p l n1_def [symmetric])
  qed
  then show ?thesis unfolding w_detach_def
    by (rule quiet_duplex) (use assms(2) forget_keeps in auto)
qed

section \<open>The next event\<close>

lemma pop_flow:
  assumes "nt_q n = e # q"
  shows "in_flight d f n = (if bytes_to d f e then ev_bytes e else []) @ in_flight d f (n\<lparr>nt_q := q\<rparr>)"
    "due_before t d f n \<Longrightarrow> due_before t d f (n\<lparr>nt_q := q\<rparr>)"
  using assms by (auto simp: in_flight_def due_before_def)

lemma lift_duplex:
  assumes "duplex k a fa b fb w"
  shows "duplex k a fa b fb (on_net (lift_partition i) w)"
proof (cases "0 \<le> i \<and> nat i < length (nt_links (wd_net w))")
  case True
  note dx = duplexD [OF assms]
  let ?n = "set_partitioned (nat i) False (wd_net w)"
  have "linked k a fa b fb ?n" unfolding set_partitioned_def using dx(4) by (rule linked_update) (simp add: same_ends_def)
  moreover have "link_free ab (nt_links ?n ! k) = link_free ab (nt_links (wd_net w) ! k)" for ab
    using True by (cases "nat i = k") (simp_all add: set_partitioned_def link_free_def)
  moreover have "in_order ?n = in_order (wd_net w)" "in_flight d f ?n = in_flight d f (wd_net w)"
    "due_before t d f ?n = due_before t d f (wd_net w)" "nt_faults ?n = nt_faults (wd_net w)" for d f t
    by (simp_all add: set_partitioned_def in_order_def in_flight_def due_before_def)
  ultimately show ?thesis using True dx(1,2,3,5,6) by (simp add: duplex_def streams_to_def lift_partition_def)
next
  case False
  then have "on_net (lift_partition i) w = w" unfolding lift_partition_def on_net_def if_not_P [OF False] by simp
  then show ?thesis using assms by simp
qed

lemma next_duplex:
  assumes "duplex k a fa b fb w"
  shows "duplex k a fa b fb (w_next w)"
proof (cases "nt_q (wd_net w)")
  case Nil
  then show ?thesis using assms by (simp add: w_next_def due_next_def)
next
  case (Cons e q)
  note dx = duplexD [OF assms]
  let ?n = "(wd_net w)\<lparr>nt_q := q\<rparr>"
  have net: "in_order ?n" "gentle (nt_faults ?n)" "linked k a fa b fb ?n"
    using dx Cons by (auto simp: in_order_def linked_def)
  have fl: "due_before (link_free True (nt_links ?n ! k)) b fb ?n" "due_before (link_free False (nt_links ?n ! k)) a fa ?n"
    using dx(5,6) pop_flow(2) [OF Cons] by (simp_all add: streams_to_def)
  have eqs: "fs_outbound (fd_at fa (wd_backends w a)) = arrived fb (wd_backends w b) @ (if bytes_to b fb e then ev_bytes e else []) @ in_flight b fb ?n"
    "fs_outbound (fd_at fb (wd_backends w b)) = arrived fa (wd_backends w a) @ (if bytes_to a fa e then ev_bytes e else []) @ in_flight a fa ?n"
    using dx(5,6) pop_flow(1) [OF Cons] by (simp_all add: streams_to_def)
  have bytes: "duplex k a fa b fb (on_backend (ev_dst e) (sb_feed (ev_fd e) (ev_bytes e)) (w\<lparr>wd_net := ?n\<rparr>))" if "ev_kind e = SBytes"
  proof -
    let ?b = "wd_backends (on_backend (ev_dst e) (sb_feed (ev_fd e) (ev_bytes e)) (w\<lparr>wd_net := ?n\<rparr>))"
    have "arrived f (?b c) = arrived f (wd_backends w c) @ (if bytes_to c f e then ev_bytes e else [])" for f c
      using that by (auto simp: feed_arrived bytes_to_def)
    moreover have "fs_outbound (fd_at f (?b c)) = fs_outbound (fd_at f (wd_backends w c))" for f c by simp
    ultimately show ?thesis using dx(1) net fl eqs by (simp add: duplex_def streams_to_def del: on_simps(4))
  qed
  have other: "duplex k a fa b fb (w\<lparr>wd_net := ?n\<rparr>)" if "ev_kind e \<noteq> SBytes"
    using dx(1) net fl eqs that by (simp add: duplex_def streams_to_def bytes_to_def)
  have "duplex k a fa b fb (w_apply e (w\<lparr>wd_net := ?n\<rparr>))"
  proof (cases "ev_kind e")
    case SBytes
    then show ?thesis using bytes by (simp add: w_apply_def)
  next
    case SPartitionEnd
    then show ?thesis using lift_duplex [OF other] by (simp add: w_apply_def)
  qed (use other in \<open>simp_all add: w_apply_def quiet_duplex\<close>)
  then show ?thesis using Cons assms by (simp add: w_next_def net_pop_def)
qed

section \<open>Runs\<close>

lemma traffic_duplex:
  assumes "duplex k a fa b fb w" "owned a fa b fb op"
  shows "duplex k a fa b fb (do_traffic rng op w)"
proof (cases op)
  case (TSendv x u fd iov)
  then show ?thesis using send_duplex [OF assms(1)] assms(2) by simp
next
  case (TRecv x u fd r)
  then show ?thesis by (simp add: w_submit_recv_def quiet_duplex [OF assms(1)])
next
  case (TAccept x u port fd)
  have "duplex k a fa b fb (on_backend x (sb_arm_accept u fd) w)" by (rule quiet_duplex [OF assms(1)]) (simp add: arm_keeps)
  then have "duplex k a fa b fb (on_net (net_listen port x fd) (on_backend x (sb_arm_accept u fd) w))"
    unfolding on_net_def by (rule same_net_duplex) (simp_all add: net_listen_def)
  then show ?thesis by (simp add: TAccept w_submit_accept_def)
next
  case (TConnect x u fd port sock)
  then show ?thesis using connect_duplex [OF assms(1)] assms(2) by simp
next
  case (TDetach x fd)
  then show ?thesis using detach_duplex [OF assms(1)] assms(2) by simp
next
  case (TCancel x u)
  then show ?thesis by (simp add: w_cancel_def quiet_duplex [OF assms(1)] cancel_keeps)
next
  case (TWait x n)
  then show ?thesis by (simp add: w_wait_def quiet_duplex [OF assms(1)])
next
  case (TPost i fn d)
  then show ?thesis using push_duplex [OF assms(1)] by (simp add: net_post_def on_net_def)
next
  case (TTime t)
  have "duplex k a fa b fb (on_net (set_now t) w)"
    unfolding on_net_def by (rule same_net_duplex [OF assms(1)]) (simp_all add: set_now_def)
  then show ?thesis by (simp add: TTime)
next
  case TNext
  then show ?thesis using next_duplex [OF assms(1)] by simp
qed

end
