(* ===== verification/Sim_Runs.thy ===== *)
theory Sim_Runs
  imports Sim_Stream
begin

text \<open>
  Runs of two connected back ends: the streams between them arrive complete and in order, and
  everything sent arrives once the network is left to settle. Closing is different: the end of the
  stream does not wait for the bytes, and a descriptor number that is used again inherits the bytes
  still in flight to its predecessor.
\<close>

section \<open>A connection\<close>

definition world_new :: "fault_profile \<Rightarrow> 't world" where
  "world_new f = \<lparr>wd_net = set_faults f net_new, wd_backends = (\<lambda>_. bk_new)\<rparr>"

text \<open>Back end \<open>b\<close> listens and back end \<open>a\<close> connects from \<open>fa\<close>; \<open>fb\<close> is the server-side socket.\<close>

definition dialled :: "(nat \<Rightarrow> real) \<Rightarrow> fault_profile \<Rightarrow> u16 \<Rightarrow> int \<Rightarrow> nat \<Rightarrow> int \<Rightarrow> nat \<Rightarrow> int \<Rightarrow> 't world" where
  "dialled rng f port lfd a fa b fb =
     w_submit_connect rng a 2 fa port fb (w_submit_accept b 1 port lfd (world_new f))"

lemma dialled_duplex:
  assumes "gentle f" "port \<noteq> 0" "0 \<le> fb" "fa \<noteq> fb"
  shows "duplex 0 a fa b fb (dialled rng f port lfd a fa b fb :: 't world)"
proof -
  let ?l = "\<lparr>lk_a = a, lk_a_fd = fa, lk_b = b, lk_b_fd = fb, lk_partitioned = False, lk_free_ab = 0, lk_free_ba = 0\<rparr>"
  define w where "w = on_backend a (sb_arm_connect 2 fa) (w_submit_accept b 1 port lfd (world_new f) :: 't world)"
  define n1 where "n1 = (wd_net w)\<lparr>nt_links := [?l], nt_fd_link := [fa \<mapsto> 0, fb \<mapsto> 0]\<rparr>"
  define bk where "bk = put_fd fb (fd_at fb (wd_backends w b)) (wd_backends w b)"
  have net: "nt_q (wd_net w) = []" "nt_links (wd_net w) = []" "nt_fd_link (wd_net w) = Map.empty" "nt_faults (wd_net w) = f"
    "nt_listeners (wd_net w) port = Some (b, lfd)"
    using assms(2) by (simp_all add: w_def w_submit_accept_def net_listen_def world_new_def set_faults_def net_new_def)
  have empty: "arrived g (wd_backends w c) = []" "fs_outbound (fd_at g (wd_backends w c)) = []" for g c
    by (simp_all add: w_def w_submit_accept_def arm_keeps world_new_def)
      (simp_all add: arrived_def bk_new_def fd_at_def fd_new_def)
  let ?w1 = "(on_backend b (\<lambda>_. bk) w)\<lparr>wd_net := n1\<rparr>"
  have "arrived g (wd_backends ?w1 c) = []" "fs_outbound (fd_at g (wd_backends ?w1 c)) = []" for g c
    by (simp_all add: bk_def put_arrived empty)
  moreover have "linked 0 a fa b fb n1" using net by (intro linkedI) (auto simp: n1_def split: if_splits)
  moreover have "in_order n1" "in_flight d g n1 = []" "due_before t d g n1" for d g t
    by (simp_all add: n1_def in_order_def in_flight_def due_before_def net)
  moreover have "gentle (nt_faults n1)" using assms(1) by (simp add: n1_def net)
  ultimately have "duplex 0 a fa b fb ?w1" using assms(4) by (simp add: duplex_def streams_to_def del: on_simps)
  obtain d m where l: "latency rng n1 = (d, n1\<lparr>nt_draws := m\<rparr>)" by (rule latency_shape)
  from draws_duplex [OF \<open>duplex 0 a fa b fb ?w1\<close>, of m] have "duplex 0 a fa b fb (?w1\<lparr>wd_net := n1\<lparr>nt_draws := m\<rparr>\<rparr>)" by simp
  from push_duplex [OF push_duplex [OF this]] show ?thesis
    using net assms(3) unfolding dialled_def w_submit_connect_def w_def [symmetric] Let_def
    by (simp add: sb_add_fd_def net_wire_def on_net_def Let_def n1_def [symmetric] bk_def [symmetric] l)
qed

lemma run_duplex:
  assumes "duplex k a fa b fb w" "list_all (owned a fa b fb) ops"
  shows "duplex k a fa b fb (fold (do_traffic rng) ops w)"
  using assms by (induction ops arbitrary: w) (simp_all add: traffic_duplex)

lemma sent_outbound: "sb_sent fd b = fs_outbound (fd_at fd b)"
  by (simp add: sb_sent_def fd_at_def fd_new_def split: option.splits)

text \<open>
  C3: Between two connected back ends of a network without loss, resets and partitions, after any
  traffic (sends on any connection, receives, accepts, connects, detaches, cancels, waits, posts,
  passing time, applied events), with any latencies, slow deliveries and fragmentation, the bytes sent at
  an end are the bytes that have arrived at the other end followed by the bytes in flight, in order, in
  both directions. The descriptors of the connection are used by their owners only.
\<close>

theorem sim_streams_in_order:
  fixes rng :: "nat \<Rightarrow> real" and lfd :: int
  assumes "gentle f" "port \<noteq> 0" "0 \<le> fb" "fa \<noteq> fb" "list_all (owned a fa b fb) ops"
  defines "w \<equiv> fold (do_traffic rng) ops (dialled rng f port lfd a fa b fb)"
  shows "sb_sent fa (wd_backends w a) = arrived fb (wd_backends w b) @ in_flight b fb (wd_net w) \<and>
    sb_sent fb (wd_backends w b) = arrived fa (wd_backends w a) @ in_flight a fa (wd_net w)"
  using run_duplex [OF dialled_duplex [OF assms(1-4)] assms(5)]
  by (simp add: w_def sent_outbound duplex_def streams_to_def)

section \<open>Settling\<close>

text \<open>Time passes until every event is due, and the events are applied.\<close>

definition settle :: "'t world \<Rightarrow> 't traffic list" where
  "settle w = TTime (fold max (map ev_due (nt_q (wd_net w))) (nt_now (wd_net w))) # replicate (length (nt_q (wd_net w))) TNext"

lemma fold_max_ge: "x \<in> set xs \<Longrightarrow> x \<le> fold max xs (m :: int)"
  by (simp add: Max.set_eq_fold [symmetric])

lemma apply_net: "nt_q (wd_net (w_apply e w)) = nt_q (wd_net w)" "nt_now (wd_net (w_apply e w)) = nt_now (wd_net w)"
  by (cases "ev_kind e"; simp add: w_apply_def lift_partition_def set_partitioned_def)+

lemma next_pops:
  assumes "nt_q (wd_net w) = e # q" "ev_due e \<le> nt_now (wd_net w)"
  shows "nt_q (wd_net (w_next w)) = q" "nt_now (wd_net (w_next w)) = nt_now (wd_net w)"
  using assms by (simp_all add: w_next_def due_next_def net_pop_def apply_net)

lemma nexts_drain:
  "\<forall>e\<in>set (nt_q (wd_net w)). ev_due e \<le> nt_now (wd_net w) \<Longrightarrow> m = length (nt_q (wd_net w)) \<Longrightarrow>
   nt_q (wd_net (fold (do_traffic rng) (replicate m TNext) w)) = []"
proof (induction m arbitrary: w)
  case (Suc m)
  then obtain e q where q: "nt_q (wd_net w) = e # q" by (cases "nt_q (wd_net w)") auto
  with Suc.prems have "ev_due e \<le> nt_now (wd_net w)" by simp
  note n = next_pops [OF q this]
  show ?case using Suc.IH [of "w_next w"] Suc.prems n q by simp
qed simp

lemma settle_drains: "nt_q (wd_net (fold (do_traffic rng) (settle w) w)) = []"
  unfolding settle_def fold_simps do_traffic.simps by (rule nexts_drain) (simp_all add: set_now_def fold_max_ge)

lemma apply_outbound: "fs_outbound (fd_at f (wd_backends (w_apply e w) c)) = fs_outbound (fd_at f (wd_backends w c))"
  by (cases "ev_kind e") (auto simp: w_apply_def)

lemma next_sent: "sb_sent f (wd_backends (w_next w) c) = sb_sent f (wd_backends w c)"
  by (auto simp: sent_outbound w_next_def apply_outbound split: option.splits prod.splits)

lemma nexts_sent:
  "sb_sent f (wd_backends (fold (do_traffic rng) (replicate m TNext) w) c) = sb_sent f (wd_backends w c)"
  by (induction m arbitrary: w) (simp_all add: next_sent)

lemma settle_sent: "sb_sent f (wd_backends (fold (do_traffic rng) (settle w) w) c) = sb_sent f (wd_backends w c)"
  unfolding settle_def fold_simps do_traffic.simps nexts_sent by simp

lemma settled_arrives:
  assumes "duplex 0 a fa b fb w"
  shows "arrived fb (wd_backends (fold (do_traffic rng) (settle w) w) b) = sb_sent fa (wd_backends w a)"
    "arrived fa (wd_backends (fold (do_traffic rng) (settle w) w) a) = sb_sent fb (wd_backends w b)"
proof -
  define w' where "w' = fold (do_traffic rng) (settle w) w"
  have "duplex 0 a fa b fb w'" unfolding w'_def by (rule run_duplex [OF assms]) (simp add: settle_def list_all_iff)
  moreover have "in_flight d g (wd_net w') = []" for d g by (simp add: in_flight_def w'_def settle_drains)
  ultimately show "arrived fb (wd_backends w' b) = sb_sent fa (wd_backends w a)" "arrived fa (wd_backends w' a) = sb_sent fb (wd_backends w b)"
    using settle_sent [of fa rng w a] settle_sent [of fb rng w b] by (simp_all add: duplex_def streams_to_def sent_outbound w'_def)
qed


section \<open>Closing\<close>

lemma push_first: "\<forall>x\<in>set q. ev_due e < ev_due x \<Longrightarrow> pq_push e q = e # q"
  by (cases q) (auto simp: later_def)

lemma latency_cong:
  "nt_faults n = nt_faults n' \<Longrightarrow> nt_draws n = nt_draws n' \<Longrightarrow> fst (latency rng n) = fst (latency rng n')"
  by (simp add: latency_def draw_def Let_def)

lemma detach_queue:
  fixes n :: "'t sim_net"
  assumes "link_for a fa n = Some (k, b, fb, ab)" "\<not> lk_partitioned (nt_links n ! k)"
    and "\<forall>e\<in>set (nt_q n). nt_now n + fst (latency rng n) < ev_due e"
  shows "nt_q (net_detach rng a fa n) =
    ev_none\<lparr>ev_due := nt_now n + fst (latency rng n), ev_kind := SPeerFin, ev_dst := b, ev_fd := fb, ev_seq := nt_seq n\<rparr> # nt_q n"
proof -
  define n1 where "n1 = erase_links fa fb (unlisten a fa n)"
  have same: "nt_q n1 = nt_q n" "nt_seq n1 = nt_seq n" "nt_now n1 = nt_now n" "nt_links n1 = nt_links n"
    "nt_faults n1 = nt_faults n" "nt_draws n1 = nt_draws n"
    by (simp_all add: n1_def erase_links_def unlisten_def)
  obtain d m where l: "latency rng n1 = (d, n1\<lparr>nt_draws := m\<rparr>)" by (rule latency_shape)
  then have d: "fst (latency rng n) = d" using latency_cong [of n1 n rng] same by simp
  have "link_for a fa (unlisten a fa n) = Some (k, b, fb, ab)" using assms(1) by (simp add: link_for_def unlisten_def Let_def cong: option.case_cong)
  then have "net_detach rng a fa n =
      net_push (ev_none\<lparr>ev_due := nt_now n + d, ev_kind := SPeerFin, ev_dst := b, ev_fd := fb\<rparr>) (n1\<lparr>nt_draws := m\<rparr>)"
    using assms(2) by (simp add: net_detach_def Let_def n1_def [symmetric] same l)
  then show ?thesis using assms(3) by (simp add: net_push_def same d push_first)
qed

text \<open>
  C40: The end of a stream overtakes its bytes. A detach schedules the FIN one latency from now, whatever
  is in flight on the link: when that is before everything queued, the reader's pending receive completes
  with 0, the end of the stream, while every byte in flight is still on its way.
\<close>

theorem fin_overtakes_bytes:
  fixes rng :: "nat \<Rightarrow> real" and w :: "'t world"
  assumes "link_for a fa (wd_net w) = Some (k, b, fb, ab)" "\<not> lk_partitioned (nt_links (wd_net w) ! k)" "fa \<noteq> fb"
    and "\<forall>e\<in>set (nt_q (wd_net w)). nt_now (wd_net w) + fst (latency rng (wd_net w)) < ev_due e"
    and "fs_recv (fd_at fb (wd_backends w b)) = Some (u, room)" "fs_inbound (fd_at fb (wd_backends w b)) = []"
    and "fs_peer_err (fd_at fb (wd_backends w b)) = 0"
  defines "w' \<equiv> fold (do_traffic rng) [TDetach a fa, TTime (nt_now (wd_net w) + fst (latency rng (wd_net w))), TNext] w"
  shows "last (bk_ready (wd_backends w' b)) = \<lparr>sc_user = u, sc_result = 0, sc_data = []\<rparr> \<and>
    in_flight b fb (wd_net w') = in_flight b fb (wd_net w)"
proof -
  let ?t = "nt_now (wd_net w) + fst (latency rng (wd_net w))"
  let ?w = "on_net (set_now ?t) (w_detach rng a fa w)"
  have q: "nt_q (wd_net ?w) =
      ev_none\<lparr>ev_due := ?t, ev_kind := SPeerFin, ev_dst := b, ev_fd := fb, ev_seq := nt_seq (wd_net w)\<rparr> # nt_q (wd_net w)"
    using detach_queue [OF assms(1,2,4)] by (simp add: w_detach_def set_now_def)
  have now: "nt_now (wd_net ?w) = ?t" by (simp add: set_now_def)
  have keep: "fd_at fb (wd_backends ?w b) = fd_at fb (wd_backends w b)"
    using assms(3) by (simp add: w_detach_def sb_forget_def fd_at_def delete_conv')
  have "w' = w_apply (hd (nt_q (wd_net ?w))) (?w\<lparr>wd_net := (wd_net ?w)\<lparr>nt_q := nt_q (wd_net w)\<rparr>\<rparr>)"
    by (simp add: w'_def w_next_def due_next_def net_pop_def q now del: on_simps)
  then have "wd_backends w' b = close_peer fb (wd_backends ?w b)" "nt_q (wd_net w') = nt_q (wd_net w)"
    by (simp_all add: q w_apply_def del: on_simps(2,3))
  then show ?thesis using assms(5-7) keep
    by (simp add: close_peer_def pump_recv_def in_flight_def sb_push_def Let_def)
qed

text \<open>
  A descriptor number that is used again inherits bytes: bytes that arrive after the descriptor was
  detached make a new entry for it, and the first receive of the next connection that gets the number
  returns them.
\<close>

theorem reused_descriptor_reads_old_bytes:
  fixes b :: sim_backend and u :: u64
  assumes "0 \<le> fd" "bs \<noteq> []" "0 < room"
  defines "b' \<equiv> sb_submit_recv u fd room (snd (sb_add_fd fd (sb_feed fd bs (sb_forget fd b))))"
  shows "last (bk_ready b') = \<lparr>sc_user = u, sc_result = res32 (min (length bs) room), sc_data = take room bs\<rparr>"
proof -
  have "fd_at fd (sb_forget fd b) = fd_new" by (simp add: fd_at_def sb_forget_def delete_conv')
  then have "fd_at fd (sb_feed fd bs (sb_forget fd b)) = fd_new\<lparr>fs_inbound := bs\<rparr>"
    by (simp add: sb_feed_def pump_recv_def Let_def) (simp add: fd_new_def)
  then show ?thesis using assms(1,2)
    by (simp add: b'_def sb_submit_recv_def sb_add_fd_def pump_recv_def Let_def sb_push_def fd_new_def min_def)
qed

section \<open>Witnesses\<close>

definition sample_faults :: fault_profile where
  "sample_faults = no_faults\<lparr>fp_partial_reads := True, fp_max_latency := 10\<rparr>"

text \<open>Two sends, one split in pieces and the other not, and receives at the far end.\<close>

definition sample_traffic :: "unit traffic list" where
  "sample_traffic = [TSendv 0 3 7 [[1, 2], [3, 4, 5]], TSendv 0 4 7 [[6]], TRecv 1 5 9 3, TSendv 1 6 9 [[8, 8]],
     TTime 20, TNext, TNext, TNext, TNext]"

lemma sample_gentle: "gentle sample_faults"
  by (simp add: gentle_def sample_faults_def no_faults_def)

lemma sample_owned: "list_all (owned 0 7 1 9) sample_traffic"
  by (simp add: sample_traffic_def)

theorem sim_streams_in_order_witness:
  "let w = fold (do_traffic (\<lambda>_. 1 / 2)) sample_traffic (dialled (\<lambda>_. 1 / 2) sample_faults 80 5 0 7 1 9)
   in sb_sent 7 (wd_backends w 0) = arrived 9 (wd_backends w 1) @ in_flight 1 9 (wd_net w) \<and>
      sb_sent 9 (wd_backends w 1) = arrived 7 (wd_backends w 0) @ in_flight 0 7 (wd_net w)"
  unfolding Let_def by (rule sim_streams_in_order) (fact sample_gentle sample_owned | simp)+


theorem reused_descriptor_reads_old_bytes_witness:
  "last (bk_ready (sb_submit_recv 3 9 2 (snd (sb_add_fd 9 (sb_feed 9 [1, 2, 3] (sb_forget 9 bk_new)))))) =
     \<lparr>sc_user = 3, sc_result = 2, sc_data = [1, 2]\<rparr>"
  using reused_descriptor_reads_old_bytes [of 9 "[1, 2, 3]" 2 3 bk_new] by (simp add: res32_def)

text \<open>A slow delivery, and a detach after it.\<close>

definition sample_world :: "unit world" where
  "sample_world = fold (do_traffic (\<lambda>_. 0)) [TTime 0, TNext, TNext, TRecv 1 5 9 3, TSendv 0 3 7 [[1, 2]]]
     (dialled (\<lambda>_. 0) (no_faults\<lparr>fp_slow_peer := 1, fp_slow_latency := 9\<rparr>) 80 5 0 7 1 9)"

lemmas sample_eval = dialled_def w_submit_connect_def w_submit_accept_def net_wire_def Let_def world_new_def net_listen_def
  set_faults_def net_new_def on_backend_def on_net_def sb_add_fd_def latency_def no_faults_def net_push_def later_def ev_none_def
  set_now_def w_next_def due_next_def net_pop_def w_apply_def w_submit_recv_def w_submit_sendv_def deliver_bytes_def link_for_def
  chance_def draw_def schedule_bytes_def sb_arm_accept_def set_free_def link_free_def

lemma sample_world_facts:
  "link_for 0 7 (wd_net sample_world) = Some (0, 1, 9, True)" "\<not> lk_partitioned (nt_links (wd_net sample_world) ! 0)"
  "map ev_due (nt_q (wd_net sample_world)) = [9]" "nt_now (wd_net sample_world) = 0" "fst (latency rng (wd_net sample_world)) = 0"
  "in_flight 1 9 (wd_net sample_world) = [1, 2]"
  "fs_recv (fd_at 9 (wd_backends sample_world 1)) = Some (5, 3)" "fs_inbound (fd_at 9 (wd_backends sample_world 1)) = []"
  "fs_peer_err (fd_at 9 (wd_backends sample_world 1)) = 0"
  by (simp_all add: sample_world_def sample_eval in_flight_def bytes_to_def sb_submit_recv_def deliver_accept_def pump_recv_def)
    (simp_all add: fd_at_def bk_new_def fd_new_def)

theorem fin_overtakes_bytes_witness:
  "let w = fold (do_traffic (\<lambda>_. 0)) [TDetach 0 7, TTime 0, TNext] sample_world
   in last (bk_ready (wd_backends w 1)) = \<lparr>sc_user = 5, sc_result = 0, sc_data = []\<rparr> \<and> in_flight 1 9 (wd_net w) = [1, 2]"
proof -
  have "ev_due e = 9" if "e \<in> set (nt_q (wd_net sample_world))" for e
    using that arg_cong [OF sample_world_facts(3), of set] by auto
  then have late: "\<forall>e\<in>set (nt_q (wd_net sample_world)). nt_now (wd_net sample_world) + fst (latency (\<lambda>_. 0) (wd_net sample_world)) < ev_due e"
    by (simp add: sample_world_facts(4,5))
  show ?thesis
    using fin_overtakes_bytes [OF sample_world_facts(1,2) _ late sample_world_facts(7-9)]
    by (simp add: sample_world_facts(4,5,6) Let_def del: One_nat_def do_traffic.simps)
qed

end
