(* ===== verification/Epoll_Backend.thy ===== *)
theory Epoll_Backend
  imports Backend_Api Conn_Owner "HOL-Library.Monad_Syntax"
begin

text \<open>
  The epoll back end (\<^verbatim>\<open>include/afx/backend/epoll.hpp\<close>, \<^verbatim>\<open>src/backend/epoll.cpp\<close>): submits are
  recorded per descriptor, and readiness makes the back end perform the call and produce a completion.
  The kernel is a record of answers, one per call, asked with the number of the call; what the calls
  did is kept in a log. A receive buffer is its room. A loop that the kernel can keep going, by
  interrupting it for ever, is a partial function. The cycle counter of a completion is left out.
\<close>

unbundle bit_operations_syntax

section \<open>The kernel\<close>

definition EINTR :: int where "EINTR = 4"
definition EINPROGRESS :: int where "EINPROGRESS = 115"

definition EPOLLIN :: u32 where "EPOLLIN = 1"
definition EPOLLOUT :: u32 where "EPOLLOUT = 4"
definition EPOLLERR :: u32 where "EPOLLERR = 8"
definition EPOLLHUP :: u32 where "EPOLLHUP = 16"
definition EPOLLRDHUP :: u32 where "EPOLLRDHUP = 8192"
definition EPOLLET :: u32 where "EPOLLET = 2147483648"

text \<open>A received message: bytes, time stamp messages, whether control data was cut, and the rights messages.\<close>

record rx_msg =
  rx_bytes :: "byte list"
  rx_cmsgs :: "cmsg list"
  rx_ctrunc :: bool
  rx_rights :: "int list list"

text \<open>
  A negative answer of \<open>ke_send\<close>, \<open>ke_accept\<close> and \<open>ke_connect\<close> is an error number; \<open>Inl\<close> is an error
  number; \<open>ke_add\<close> and \<open>ke_sockerr\<close> answer 0 or an error number.
\<close>

record kernel =
  ke_send :: "nat \<Rightarrow> int \<Rightarrow> byte list \<Rightarrow> int"
  ke_recv :: "nat \<Rightarrow> int \<Rightarrow> nat \<Rightarrow> int + rx_msg"
  ke_accept :: "nat \<Rightarrow> int \<Rightarrow> int"
  ke_connect :: "nat \<Rightarrow> int \<Rightarrow> int"
  ke_sockerr :: "nat \<Rightarrow> int \<Rightarrow> int"
  ke_add :: "nat \<Rightarrow> int \<Rightarrow> int"
  ke_poll :: "nat \<Rightarrow> int + (int \<times> u32) list"
  ke_stamping :: bool

datatype ep_call =
    CtlAdd int
  | CtlMod int u32
  | CtlDel int
  | SentBytes int "byte list"
  | GotBytes int "byte list"
  | GotFds int "int list"
  | CloseFd int
  | Polled int
  | WakeRead
  | WakeWrite

section \<open>State\<close>

record send_req =
  rq_ud :: u64
  rq_bytes :: "byte list"
  rq_off :: nat

text \<open>An inbox is its capacity; one that is registered has a counter.\<close>

record ep_fd =
  ef_registered :: bool
  ef_interest :: u32
  ef_watch_ud :: u64
  ef_recv_armed :: bool
  ef_recv_ud :: u64
  ef_recv_room :: nat
  ef_timestamping :: bool
  ef_inbox :: "nat option"
  ef_sendq :: "send_req list"
  ef_accept_armed :: bool
  ef_accept_ud :: u64
  ef_connect_pending :: bool
  ef_connect_ud :: u64

text \<open>\<open>ep_out\<close> and \<open>ep_cap\<close> are the completions a wait has produced and how many it may produce.\<close>

record epoll =
  ep_wake_fd :: int
  ep_fds :: "(int \<times> ep_fd) list"
  ep_ready :: "completion list"
  ep_pending :: "(int \<times> u32) list"
  ep_out :: "completion list"
  ep_cap :: nat
  ep_calls :: "ep_call list"
  ep_n :: nat

definition ef_new :: ep_fd where
  "ef_new = \<lparr>ef_registered = False, ef_interest = i_none, ef_watch_ud = 0, ef_recv_armed = False, ef_recv_ud = 0,
     ef_recv_room = 0, ef_timestamping = False, ef_inbox = None, ef_sendq = [], ef_accept_armed = False, ef_accept_ud = 0,
     ef_connect_pending = False, ef_connect_ud = 0\<rparr>"

definition ep_new :: "int \<Rightarrow> epoll" where
  "ep_new wfd = \<lparr>ep_wake_fd = wfd, ep_fds = [], ep_ready = [], ep_pending = [], ep_out = [], ep_cap = 0,
     ep_calls = [CtlAdd wfd], ep_n = 0\<rparr>"

definition ef_at :: "int \<Rightarrow> epoll \<Rightarrow> ep_fd" where
  "ef_at fd b = (case map_of (ep_fds b) fd of Some s \<Rightarrow> s | None \<Rightarrow> ef_new)"

definition ef_put :: "int \<Rightarrow> ep_fd \<Rightarrow> epoll \<Rightarrow> epoll" where
  "ef_put fd s b = b\<lparr>ep_fds := AList.update fd s (ep_fds b)\<rparr>"

text \<open>A call is logged and the next one has the next number.\<close>

definition ep_say :: "ep_call list \<Rightarrow> epoll \<Rightarrow> epoll" where
  "ep_say cs b = b\<lparr>ep_calls := ep_calls b @ cs, ep_n := Suc (ep_n b)\<rparr>"

section \<open>Registration\<close>

definition to_epoll :: "u32 \<Rightarrow> u32" where
  "to_epoll i = (if i_has i i_readable then EPOLLIN else 0) OR (if i_has i i_writable then EPOLLOUT else 0)"

definition ev_wanted :: "ep_fd \<Rightarrow> u32" where
  "ev_wanted s = EPOLLET OR EPOLLRDHUP OR to_epoll (ef_interest s)
     OR (if ef_recv_armed s \<or> ef_accept_armed s then EPOLLIN else 0)
     OR (if ef_sendq s \<noteq> [] \<or> ef_connect_pending s then EPOLLOUT else 0)"

definition update_events :: "int \<Rightarrow> epoll \<Rightarrow> epoll" where
  "update_events fd b =
     (if ef_registered (ef_at fd b) then ep_say [CtlMod fd (ev_wanted (ef_at fd b))] b else b)"

text \<open>\<open>None\<close> is success, \<open>Some e\<close> the error number.\<close>

definition ensure_registered :: "kernel \<Rightarrow> int \<Rightarrow> epoll \<Rightarrow> int option \<times> epoll" where
  "ensure_registered K fd b =
     (let e = ke_add K (ep_n b) fd;
          b = ep_say [CtlAdd fd] b
      in if e \<noteq> 0 then (Some e, b) else (None, ef_put fd ((ef_at fd b)\<lparr>ef_registered := True\<rparr>) b))"

datatype ep_result = EpOk | EpSys int | EpInvalid | EpNotFound

text \<open>The end of most submits: register when needed, then announce the wanted events.\<close>

definition register_update :: "kernel \<Rightarrow> int \<Rightarrow> epoll \<Rightarrow> ep_result \<times> epoll" where
  "register_update K fd b =
     (let (r, b) = (if ef_registered (ef_at fd b) then (None, b) else ensure_registered K fd b)
      in case r of Some e \<Rightarrow> (EpSys e, b) | None \<Rightarrow> (EpOk, update_events fd b))"

definition queue_completion :: "u64 \<Rightarrow> int \<Rightarrow> epoll \<Rightarrow> epoll" where
  "queue_completion u res b = b\<lparr>ep_ready := ep_ready b @ [cp_empty\<lparr>cp_user := u, cp_result := res\<rparr>]\<rparr>"

definition ep_attach :: "kernel \<Rightarrow> int \<Rightarrow> u32 \<Rightarrow> u64 \<Rightarrow> epoll \<Rightarrow> ep_result \<times> epoll" where
  "ep_attach K fd i u b = register_update K fd (ef_put fd ((ef_at fd b)\<lparr>ef_interest := i, ef_watch_ud := u\<rparr>) b)"

definition ep_modify :: "int \<Rightarrow> u32 \<Rightarrow> u64 \<Rightarrow> epoll \<Rightarrow> ep_result \<times> epoll" where
  "ep_modify fd i u b =
     (case map_of (ep_fds b) fd of
        None \<Rightarrow> (EpNotFound, b)
      | Some s \<Rightarrow> (EpOk, update_events fd (ef_put fd (s\<lparr>ef_interest := i, ef_watch_ud := u\<rparr>) b)))"

definition ep_detach :: "int \<Rightarrow> epoll \<Rightarrow> epoll" where
  "ep_detach fd b =
     (case map_of (ep_fds b) fd of
        None \<Rightarrow> b
      | Some s \<Rightarrow> (if ef_registered s then ep_say [CtlDel fd] b else b)\<lparr>ep_fds := AList.delete fd (ep_fds b)\<rparr>)"

section \<open>Submits\<close>

definition ep_submit_recv :: "kernel \<Rightarrow> u64 \<Rightarrow> int \<Rightarrow> nat \<Rightarrow> epoll \<Rightarrow> ep_result \<times> epoll" where
  "ep_submit_recv K u fd room b =
     (let s = ef_at fd b in
      if ef_recv_armed s then (EpInvalid, ef_put fd s b)
      else register_update K fd (ef_put fd (s\<lparr>ef_recv_armed := True, ef_recv_ud := u, ef_recv_room := room\<rparr>) b))"

text \<open>What is left of the parts after the first \<open>skip\<close> bytes, part by part.\<close>

fun send_tail :: "nat \<Rightarrow> byte list list \<Rightarrow> byte list" where
  "send_tail skip [] = []"
| "send_tail skip (p # ps) =
     (if length p \<le> skip then send_tail (skip - length p) ps else drop skip p @ send_tail 0 ps)"

definition push_send :: "u64 \<Rightarrow> int \<Rightarrow> byte list \<Rightarrow> epoll \<Rightarrow> epoll" where
  "push_send u fd bs b =
     ef_put fd ((ef_at fd b)\<lparr>ef_sendq := ef_sendq (ef_at fd b) @ [\<lparr>rq_ud = u, rq_bytes = bs, rq_off = 0\<rparr>]\<rparr>) b"

text \<open>A send call: what the kernel answers, and the bytes it took.\<close>

definition call_send :: "kernel \<Rightarrow> int \<Rightarrow> byte list \<Rightarrow> epoll \<Rightarrow> int \<times> epoll" where
  "call_send K fd bs b =
     (let w = ke_send K (ep_n b) fd bs in (w, ep_say (if 0 \<le> w then [SentBytes fd (take (nat w) bs)] else []) b))"

definition ep_submit_sendv :: "kernel \<Rightarrow> u64 \<Rightarrow> int \<Rightarrow> byte list list \<Rightarrow> epoll \<Rightarrow> ep_result \<times> epoll" where
  "ep_submit_sendv K u fd iov b =
     (let total = length (concat iov);
          b = ef_put fd (ef_at fd b) b in
      if ef_sendq (ef_at fd b) \<noteq> [] then (EpOk, update_events fd (push_send u fd (concat iov) b))
      else
        let (w, b) = call_send K fd (concat (take 64 iov)) b in
        if w < 0 \<and> w \<noteq> - EAGAIN then (EpOk, queue_completion u w b)
        else
          let sent = (if w < 0 then 0 else nat w) in
          if sent = total then (EpOk, queue_completion u (res32 sent) b)
          else register_update K fd (push_send u fd (send_tail sent iov) b))"

definition ep_submit_send :: "kernel \<Rightarrow> u64 \<Rightarrow> int \<Rightarrow> byte list \<Rightarrow> epoll \<Rightarrow> ep_result \<times> epoll" where
  "ep_submit_send K u fd bs b = ep_submit_sendv K u fd [bs] b"

definition ep_submit_accept :: "kernel \<Rightarrow> u64 \<Rightarrow> int \<Rightarrow> epoll \<Rightarrow> ep_result \<times> epoll" where
  "ep_submit_accept K u fd b = register_update K fd (ef_put fd ((ef_at fd b)\<lparr>ef_accept_armed := True, ef_accept_ud := u\<rparr>) b)"

definition ep_submit_connect :: "kernel \<Rightarrow> u64 \<Rightarrow> int \<Rightarrow> epoll \<Rightarrow> ep_result \<times> epoll" where
  "ep_submit_connect K u fd b =
     (let b = ef_put fd (ef_at fd b) b;
          r = ke_connect K (ep_n b) fd;
          b = ep_say [] b in
      if r = 0 then (EpOk, queue_completion u 0 b)
      else if r \<noteq> - EINPROGRESS then (EpOk, queue_completion u r b)
      else register_update K fd (ef_put fd ((ef_at fd b)\<lparr>ef_connect_pending := True, ef_connect_ud := u\<rparr>) b))"

definition ep_set_timestamping :: "int \<Rightarrow> bool \<Rightarrow> epoll \<Rightarrow> epoll" where
  "ep_set_timestamping fd v b = ef_put fd ((ef_at fd b)\<lparr>ef_timestamping := v\<rparr>) b"

definition ep_set_fd_inbox :: "int \<Rightarrow> nat option \<Rightarrow> epoll \<Rightarrow> epoll" where
  "ep_set_fd_inbox fd i b = ef_put fd ((ef_at fd b)\<lparr>ef_inbox := i\<rparr>) b"

text \<open>Cancellation at one descriptor, and at all of them in the order of the table.\<close>

definition cancel_at :: "u64 \<Rightarrow> int \<Rightarrow> epoll \<Rightarrow> epoll" where
  "cancel_at u fd b =
     (let s = ef_at fd b;
          r = ef_recv_armed s \<and> ef_recv_ud s = u;
          k = length (filter (\<lambda>q. rq_ud q = u) (ef_sendq s));
          a = ef_accept_armed s \<and> ef_accept_ud s = u;
          c = ef_connect_pending s \<and> ef_connect_ud s = u;
          n = of_bool r + k + of_bool a + of_bool c;
          b = (queue_completion u (- ECANCELED) ^^ n) b;
          b = ef_put fd (s\<lparr>ef_recv_armed := ef_recv_armed s \<and> \<not> r, ef_sendq := filter (\<lambda>q. rq_ud q \<noteq> u) (ef_sendq s),
                ef_accept_armed := ef_accept_armed s \<and> \<not> a, ef_connect_pending := ef_connect_pending s \<and> \<not> c\<rparr>) b
      in if n \<noteq> 0 then update_events fd b else b)"

definition ep_cancel :: "u64 \<Rightarrow> epoll \<Rightarrow> epoll" where
  "ep_cancel u b = fold (cancel_at u) (map fst (ep_fds b)) b"

section \<open>Readiness\<close>

text \<open>A completion goes to the caller's span when it has room; otherwise the event is kept for the next wait.\<close>

definition give :: "int \<Rightarrow> u32 \<Rightarrow> completion \<Rightarrow> epoll \<Rightarrow> epoll" where
  "give fd ev c b =
     (if length (ep_out b) < ep_cap b then b\<lparr>ep_out := ep_out b @ [c]\<rparr>
      else b\<lparr>ep_pending := ep_pending b @ [(fd, ev)]\<rparr>)"

fun accept_loop :: "kernel \<Rightarrow> int \<Rightarrow> nat \<Rightarrow> epoll \<Rightarrow> epoll" where
  "accept_loop K fd 0 b = b"
| "accept_loop K fd (Suc i) b =
     (let cfd = ke_accept K (ep_n b) fd;
          b = ep_say [] b in
      if cfd < 0 then b
      else
        let c = cp_empty\<lparr>cp_user := ef_accept_ud (ef_at fd b), cp_result := cfd\<rparr> in
        if length (ep_out b) < ep_cap b then accept_loop K fd i (give fd EPOLLIN c b)
        else ep_say [CloseFd cfd] (give fd EPOLLIN c b))"

text \<open>What a drain has read so far.\<close>

record rx_acc =
  ra_total :: nat
  ra_stamps :: timestamps
  ra_flags :: u32
  ra_fds :: "int list"
  ra_trunc :: bool

definition ra_new :: rx_acc where
  "ra_new = \<lparr>ra_total = 0, ra_stamps = cp_stamps cp_empty, ra_flags = 0, ra_fds = [], ra_trunc = False\<rparr>"

text \<open>The descriptors of a message: those the inbox has room for, the others to be closed, and whether any were lost.\<close>

definition collect_rights :: "rx_msg \<Rightarrow> nat \<Rightarrow> int list \<Rightarrow> int list \<times> int list \<times> bool" where
  "collect_rights m cap have =
     (let fds = concat (rx_rights m); room = cap - length have
      in (have @ take room fds, drop room fds, rx_ctrunc m \<or> room < length fds))"

definition take_ancillary :: "kernel \<Rightarrow> int \<Rightarrow> rx_msg \<Rightarrow> rx_acc \<Rightarrow> epoll \<Rightarrow> rx_acc \<times> epoll" where
  "take_ancillary K fd m a b =
     (let s = ef_at fd b;
          a = (if ke_stamping K \<and> ef_timestamping s
               then let (st, fl) = parse_rx_timestamping (rx_cmsgs m) (ra_stamps a)
                    in a\<lparr>ra_stamps := st, ra_flags := ra_flags a OR fl\<rparr>
               else a)
      in case ef_inbox s of
           None \<Rightarrow> (a, b)
         | Some cap \<Rightarrow>
             let (kept, closed, lost) = collect_rights m cap (ra_fds a)
             in (a\<lparr>ra_fds := kept, ra_trunc := ra_trunc a \<or> lost\<rparr>, ep_say (map CloseFd closed) b))"

definition want_msg :: "kernel \<Rightarrow> ep_fd \<Rightarrow> bool" where
  "want_msg K s \<longleftrightarrow> ef_inbox s \<noteq> None \<or> (ke_stamping K \<and> ef_timestamping s)"

partial_function (option) recv_loop :: "kernel \<Rightarrow> int \<Rightarrow> rx_acc \<Rightarrow> epoll \<Rightarrow> (int \<times> rx_acc \<times> epoll) option" where
  "recv_loop K fd a b =
     (let s = ef_at fd b; rem = ef_recv_room s - ra_total a in
      if rem = 0 then Some (res32 (ra_total a), a, b)
      else
        case ke_recv K (ep_n b) fd rem of
          Inr m \<Rightarrow>
            let got = take rem (rx_bytes m);
                b = ep_say [GotBytes fd got] b in
            if got = [] then Some (if ra_total a \<noteq> 0 then res32 (ra_total a) else 0, a, b)
            else
              let (a, b) = (if want_msg K s then take_ancillary K fd m a b else (a, b))
              in recv_loop K fd (a\<lparr>ra_total := ra_total a + length got\<rparr>) b
        | Inl e \<Rightarrow>
            let b = ep_say [] b in
            if e = EAGAIN then Some (if ra_total a \<noteq> 0 then res32 (ra_total a) else - EAGAIN, a, b)
            else if e = EINTR then recv_loop K fd a b
            else Some (- e, a, b))"

definition finish_recv :: "int \<Rightarrow> int \<Rightarrow> rx_acc \<Rightarrow> epoll \<Rightarrow> epoll" where
  "finish_recv fd result a b =
     (let b = update_events fd (ef_put fd ((ef_at fd b)\<lparr>ef_recv_armed := False\<rparr>) b);
          b = (if ef_inbox (ef_at fd b) \<noteq> None then ep_say [GotFds fd (ra_fds a)] b else b);
          fl = ra_flags a OR (if ra_fds a \<noteq> [] then has_fds else 0) OR (if ra_trunc a then fd_trunc else 0);
          c = cp_empty\<lparr>cp_user := ef_recv_ud (ef_at fd b), cp_result := result, cp_flags := fl, cp_stamps := ra_stamps a\<rparr>;
          b' = give fd EPOLLIN c b
      in if length (ep_out b) < ep_cap b then b'
         else update_events fd (ef_put fd ((ef_at fd b')\<lparr>ef_recv_armed := True\<rparr>) b'))"

definition ep_on_readable :: "kernel \<Rightarrow> int \<Rightarrow> epoll \<Rightarrow> epoll option" where
  "ep_on_readable K fd b =
     (let s = ef_at fd b;
          b = (if i_has (ef_interest s) i_readable
               then give fd EPOLLIN (cp_empty\<lparr>cp_user := ef_watch_ud s, cp_result := uint ready_read\<rparr>) b else b) in
      if ef_accept_armed s then Some (accept_loop K fd 32 b)
      else if \<not> ef_recv_armed s then Some b
      else do {
        (result, a, b) \<leftarrow> recv_loop K fd ra_new b;
        Some (if result = - EAGAIN \<and> ra_fds a = [] then b else finish_recv fd result a b) })"

section \<open>Writing\<close>

definition finish_connect :: "kernel \<Rightarrow> int \<Rightarrow> epoll \<Rightarrow> epoll" where
  "finish_connect K fd b =
     (let s = ef_at fd b;
          b = ef_put fd (s\<lparr>ef_connect_pending := False\<rparr>) b;
          err = ke_sockerr K (ep_n b) fd;
          b = update_events fd (ep_say [] b)
      in give fd EPOLLOUT (cp_empty\<lparr>cp_user := ef_connect_ud s, cp_result := - err\<rparr>) b)"

text \<open>The send at the head of the queue is over: its completion is given or, without room, lost.\<close>

definition finish_send :: "int \<Rightarrow> int \<Rightarrow> epoll \<Rightarrow> epoll" where
  "finish_send fd result b =
     (let s = ef_at fd b;
          c = cp_empty\<lparr>cp_user := rq_ud (hd (ef_sendq s)), cp_result := result\<rparr>
      in give fd EPOLLOUT c (update_events fd (ef_put fd (s\<lparr>ef_sendq := tl (ef_sendq s)\<rparr>) b)))"

partial_function (option) send_loop :: "kernel \<Rightarrow> int \<Rightarrow> epoll \<Rightarrow> epoll option" where
  "send_loop K fd b =
     (let s = ef_at fd b in
      case ef_sendq s of
        [] \<Rightarrow> Some b
      | q # qs \<Rightarrow>
          let (w, b) = call_send K fd (drop (rq_off q) (rq_bytes q)) b in
          if w < 0 then
            (if w = - EINTR then send_loop K fd b
             else if w = - EAGAIN then Some b
             else send_loop K fd (finish_send fd w b))
          else
            let q' = q\<lparr>rq_off := rq_off q + nat w\<rparr>;
                b = ef_put fd ((ef_at fd b)\<lparr>ef_sendq := q' # qs\<rparr>) b in
            if rq_off q' = length (rq_bytes q') then send_loop K fd (finish_send fd (res32 (length (rq_bytes q'))) b)
            else send_loop K fd b)"

definition ep_on_writable :: "kernel \<Rightarrow> int \<Rightarrow> epoll \<Rightarrow> epoll option" where
  "ep_on_writable K fd b = do {
     b \<leftarrow> send_loop K fd (if ef_connect_pending (ef_at fd b) then finish_connect K fd b else b);
     let s = ef_at fd b;
     Some (if i_has (ef_interest s) i_writable
           then give fd EPOLLOUT (cp_empty\<lparr>cp_user := ef_watch_ud s, cp_result := uint ready_write\<rparr>) b else b) }"

section \<open>Errors and hangups\<close>

definition ep_on_errorish :: "kernel \<Rightarrow> int \<Rightarrow> u32 \<Rightarrow> epoll \<Rightarrow> epoll" where
  "ep_on_errorish K fd ev b =
     (let s = ef_at fd b in
      if ef_recv_armed s then
        let b = ef_put fd (s\<lparr>ef_recv_armed := False\<rparr>) b;
            err = ke_sockerr K (ep_n b) fd;
            b = update_events fd (ep_say [] b);
            b' = give fd ev (cp_empty\<lparr>cp_user := ef_recv_ud s, cp_result := - err\<rparr>) b
        in if length (ep_out b) < ep_cap b then b'
           else update_events fd (ef_put fd ((ef_at fd b')\<lparr>ef_recv_armed := True\<rparr>) b')
      else if ef_interest s \<noteq> i_none then
        give fd ev (cp_empty\<lparr>cp_user := ef_watch_ud s,
          cp_result := uint ((if ev AND EPOLLERR \<noteq> 0 then ready_err else 0) OR
                             (if ev AND (EPOLLHUP OR EPOLLRDHUP) \<noteq> 0 then ready_hangup else 0))\<rparr>) b
      else b)"

definition dispatch_event :: "kernel \<Rightarrow> int \<Rightarrow> u32 \<Rightarrow> epoll \<Rightarrow> epoll option" where
  "dispatch_event K fd ev b = do {
     let b = (if ev AND (EPOLLERR OR EPOLLHUP OR EPOLLRDHUP) \<noteq> 0 then ep_on_errorish K fd ev b else b);
     b \<leftarrow> (if ev AND EPOLLIN \<noteq> 0 then ep_on_readable K fd b else Some b);
     (if ev AND EPOLLOUT \<noteq> 0 then ep_on_writable K fd b else Some b) }"

section \<open>Waiting\<close>

partial_function (option) pending_loop :: "kernel \<Rightarrow> epoll \<Rightarrow> epoll option" where
  "pending_loop K b =
     (if length (ep_out b) < ep_cap b then
        case ep_pending b of
          [] \<Rightarrow> Some b
        | (fd, ev) # rest \<Rightarrow>
            let b = b\<lparr>ep_pending := rest\<rparr> in
            if map_of (ep_fds b) fd = None then pending_loop K b
            else Option.bind (dispatch_event K fd ev b) (pending_loop K)
      else Some b)"

partial_function (option) poll_loop :: "kernel \<Rightarrow> int \<Rightarrow> epoll \<Rightarrow> ((int \<times> u32) list option \<times> epoll) option" where
  "poll_loop K timeout b =
     (let r = ke_poll K (ep_n b); b = ep_say [Polled timeout] b in
      case r of
        Inl e \<Rightarrow> if e = EINTR then poll_loop K timeout b else Some (None, b)
      | Inr evs \<Rightarrow> Some (Some (take 64 evs), b))"

fun events_loop :: "kernel \<Rightarrow> (int \<times> u32) list \<Rightarrow> epoll \<Rightarrow> epoll option" where
  "events_loop K [] b = Some b"
| "events_loop K ((fd, ev) # evs) b =
     (if fd = ep_wake_fd b then events_loop K evs (ep_say [WakeRead] b)
      else if map_of (ep_fds b) fd = None then events_loop K evs b
      else if length (ep_out b) < ep_cap b
      then Option.bind (dispatch_event K fd ev b) (events_loop K evs)
      else events_loop K evs (b\<lparr>ep_pending := ep_pending b @ [(fd, ev)]\<rparr>))"

definition ep_wait :: "kernel \<Rightarrow> nat \<Rightarrow> int \<Rightarrow> epoll \<Rightarrow> epoll option" where
  "ep_wait K cap timeout b =
     (let b = b\<lparr>ep_cap := cap, ep_out := take cap (ep_ready b), ep_ready := drop cap (ep_ready b)\<rparr> in
      if length (ep_out b) = cap then Some b
      else do {
        b \<leftarrow> pending_loop K b;
        (if length (ep_out b) = cap then Some b
         else do {
           (r, b) \<leftarrow> poll_loop K (if ep_ready b \<noteq> [] \<or> ep_out b \<noteq> [] \<or> timeout \<le> 0 then 0 else timeout) b;
           (case r of None \<Rightarrow> Some b | Some evs \<Rightarrow> events_loop K evs b) }) })"

definition ep_wake :: "epoll \<Rightarrow> epoll" where
  "ep_wake b = ep_say [WakeWrite] b"

end
