(* ===== verification/Epoll_Stream.thy ===== *)
theory Epoll_Stream
  imports Epoll_Backend
begin

text \<open>
  The sending side of the epoll back end: the bytes submitted on a descriptor reach the kernel once
  and in order, across immediate sends, queued sends and partial writes.
\<close>

section \<open>Views\<close>

definition sq :: "int \<Rightarrow> epoll \<Rightarrow> send_req list" where
  "sq fd b = ef_sendq (ef_at fd b)"

fun sent_on :: "int \<Rightarrow> ep_call \<Rightarrow> byte list" where
  "sent_on fd (SentBytes g bs) = (if g = fd then bs else [])"
| "sent_on fd _ = []"

text \<open>What the kernel took on a descriptor, and what is still queued for it.\<close>

definition wire :: "int \<Rightarrow> epoll \<Rightarrow> byte list" where
  "wire fd b = concat (map (sent_on fd) (ep_calls b))"

definition unsent :: "send_req \<Rightarrow> byte list" where
  "unsent q = drop (rq_off q) (rq_bytes q)"

definition queued :: "int \<Rightarrow> epoll \<Rightarrow> byte list" where
  "queued fd b = concat (map unsent (sq fd b))"

lemma ef_at_put [simp]: "ef_at fd (ef_put g s b) = (if fd = g then s else ef_at fd b)"
  by (simp add: ef_at_def ef_put_def update_conv')

lemma ef_put_fields [simp]:
  "ep_calls (ef_put g s b) = ep_calls b" "ep_n (ef_put g s b) = ep_n b" "ep_out (ef_put g s b) = ep_out b"
  "ep_cap (ef_put g s b) = ep_cap b" "ep_pending (ef_put g s b) = ep_pending b" "ep_ready (ef_put g s b) = ep_ready b"
  "ep_wake_fd (ef_put g s b) = ep_wake_fd b"
  by (simp_all add: ef_put_def)

lemma ef_at_fields [simp]:
  "ef_at fd (ep_say cs b) = ef_at fd b" "ef_at fd (queue_completion u r b) = ef_at fd b" "ef_at fd (give g ev c b) = ef_at fd b"
  "ef_at fd (b\<lparr>ep_pending := p\<rparr>) = ef_at fd b" "ef_at fd (b\<lparr>ep_out := os\<rparr>) = ef_at fd b" "ef_at fd (b\<lparr>ep_ready := rs\<rparr>) = ef_at fd b"
  "ef_at fd (b\<lparr>ep_cap := n\<rparr>) = ef_at fd b" "ef_at fd (update_events g b) = ef_at fd b"
  by (simp_all add: ef_at_def ep_say_def queue_completion_def give_def update_events_def)

lemma sq_simps [simp]:
  "sq fd (ep_say cs b) = sq fd b" "sq fd (queue_completion u r b) = sq fd b" "sq fd (give g ev c b) = sq fd b"
  "sq fd (b\<lparr>ep_pending := p\<rparr>) = sq fd b" "sq fd (b\<lparr>ep_out := os\<rparr>) = sq fd b" "sq fd (b\<lparr>ep_ready := rs\<rparr>) = sq fd b"
  "sq fd (b\<lparr>ep_cap := n\<rparr>) = sq fd b" "sq fd (update_events g b) = sq fd b"
  "sq fd (ef_put g s b) = (if fd = g then ef_sendq s else sq fd b)"
  by (simp_all add: sq_def)

lemma wire_simps [simp]:
  "wire fd (ep_say cs b) = wire fd b @ concat (map (sent_on fd) cs)" "wire fd (queue_completion u r b) = wire fd b"
  "wire fd (give g ev c b) = wire fd b" "wire fd (b\<lparr>ep_pending := p\<rparr>) = wire fd b" "wire fd (b\<lparr>ep_out := os\<rparr>) = wire fd b"
  "wire fd (b\<lparr>ep_ready := rs\<rparr>) = wire fd b" "wire fd (b\<lparr>ep_cap := n\<rparr>) = wire fd b" "wire fd (ef_put g s b) = wire fd b"
  by (simp_all add: wire_def ep_say_def queue_completion_def give_def)

lemma wire_update [simp]: "wire fd (update_events g b) = wire fd b"
  by (simp add: update_events_def)

section \<open>Steps that leave a stream alone\<close>

definition still :: "int \<Rightarrow> epoll \<Rightarrow> epoll \<Rightarrow> bool" where
  "still fd b b' \<longleftrightarrow> wire fd b' = wire fd b \<and> sq fd b' = sq fd b"

lemma still_refl [simp]: "still fd b b"
  by (simp add: still_def)

lemma still_trans: "still fd b b' \<Longrightarrow> still fd b' b'' \<Longrightarrow> still fd b b''"
  by (simp add: still_def)

lemma still_register: "still fd b (snd (register_update K g b))"
  by (auto simp: still_def register_update_def ensure_registered_def Let_def sq_def split: option.splits)

lemma still_accept: "still fd b (accept_loop K g i b)"
proof (induction K g i b rule: accept_loop.induct)
  case (2 K g i b)
  then show ?case by (auto simp: Let_def still_def)
qed simp

text \<open>Calls were made, none of them a send.\<close>

definition called :: "epoll \<Rightarrow> epoll \<Rightarrow> bool" where
  "called b b' \<longleftrightarrow> (\<exists>cs n. b' = b\<lparr>ep_calls := ep_calls b @ cs, ep_n := n\<rparr> \<and> (\<forall>fd. \<forall>c\<in>set cs. sent_on fd c = []))"

lemma called_refl [simp]: "called b b"
  unfolding called_def by (rule exI [of _ "[]"], rule exI [of _ "ep_n b"]) simp

lemma called_trans:
  assumes "called b b'" "called b' b''"
  shows "called b b''"
proof -
  obtain cs n where 1: "b' = b\<lparr>ep_calls := ep_calls b @ cs, ep_n := n\<rparr>" "\<forall>fd. \<forall>c\<in>set cs. sent_on fd c = []"
    using assms(1) by (auto simp: called_def)
  obtain ds m where 2: "b'' = b'\<lparr>ep_calls := ep_calls b' @ ds, ep_n := m\<rparr>" "\<forall>fd. \<forall>c\<in>set ds. sent_on fd c = []"
    using assms(2) by (auto simp: called_def)
  have "b'' = b\<lparr>ep_calls := ep_calls b @ cs @ ds, ep_n := m\<rparr>" by (simp add: 1(1) 2(1))
  moreover have "\<forall>fd. \<forall>c\<in>set (cs @ ds). sent_on fd c = []" using 1(2) 2(2) by auto
  ultimately show ?thesis unfolding called_def by blast
qed

lemma called_say: "\<forall>fd. \<forall>c\<in>set cs. sent_on fd c = [] \<Longrightarrow> called b (ep_say cs b)"
  unfolding called_def by (rule exI [of _ cs], rule exI [of _ "Suc (ep_n b)"]) (simp add: ep_say_def)

lemma called_fields:
  assumes "called b b'"
  shows "ep_fds b' = ep_fds b" "ep_out b' = ep_out b" "ep_cap b' = ep_cap b" "ep_pending b' = ep_pending b" "ep_ready b' = ep_ready b"
    "ep_wake_fd b' = ep_wake_fd b" "still fd b b'" "ef_at fd b' = ef_at fd b"
  using assms by (auto simp: called_def still_def wire_def sq_def ef_at_def)

lemma called_ancillary: "called b (snd (take_ancillary K g m a b))"
  by (auto simp: take_ancillary_def Let_def intro!: called_say split: option.splits prod.splits)

lemma called_recv:
  assumes "recv_loop K g a b = Some x"
  shows "called b (snd (snd x))"
proof (rule recv_loop.raw_induct [of "\<lambda>K g a b x. called b (snd (snd x))", OF _ assms])
  fix f K g a b x
  assume IH: "\<And>K g a b x. f K g a b = Some x \<Longrightarrow> called b (snd (snd x))"
    and x: "(let s = ef_at g b; rem = ef_recv_room s - ra_total a in
      if rem = 0 then Some (res32 (ra_total a), a, b)
      else
        case ke_recv K (ep_n b) g rem of
          Inl e \<Rightarrow>
            let b = ep_say [] b in
            if e = EAGAIN then Some (if ra_total a \<noteq> 0 then res32 (ra_total a) else - EAGAIN, a, b)
            else if e = EINTR then f K g a b
            else Some (- e, a, b)
        | Inr m \<Rightarrow>
            let got = take rem (rx_bytes m);
                b = ep_say [GotBytes g got] b in
            if got = [] then Some (if ra_total a \<noteq> 0 then res32 (ra_total a) else 0, a, b)
            else
              let (a, b) = (if want_msg K s then take_ancillary K g m a b else (a, b))
              in f K g (a\<lparr>ra_total := ra_total a + length got\<rparr>) b) = Some x"
  have say: "called b (ep_say [] b)" "called b (ep_say [GotBytes g got] b)" for got by (simp_all add: called_say)
  show "called b (snd (snd x))"
  proof (cases "ke_recv K (ep_n b) g (ef_recv_room (ef_at g b) - ra_total a)")
    case (Inl e)
    with x show ?thesis
      by (auto simp: Let_def say(1) split: if_splits intro: called_trans [OF say(1) IH])
  next
    case (Inr m)
    let ?b = "ep_say [GotBytes g (take (ef_recv_room (ef_at g b) - ra_total a) (rx_bytes m))] b"
    let ?s = "if want_msg K (ef_at g b) then take_ancillary K g m a ?b else (a, ?b)"
    have "called b (snd ?s)" using called_trans [OF say(2) called_ancillary] say(2) by simp
    moreover have "called (snd ?s) (snd (snd x))" if "f K g a' (snd ?s) = Some x" for a' using IH that by blast
    ultimately show ?thesis using x Inr
      by (auto simp: Let_def say split_def split: if_splits intro: called_trans [OF say(2) IH] called_trans [OF say(2) called_trans [OF called_ancillary IH]])
  qed
qed

lemma still_on_readable:
  assumes "ep_on_readable K g b = Some b'"
  shows "still fd b b'"
proof -
  let ?b = "if i_has (ef_interest (ef_at g b)) i_readable
    then give g EPOLLIN (cp_empty\<lparr>cp_user := ef_watch_ud (ef_at g b), cp_result := uint ready_read\<rparr>) b else b"
  have b: "still fd b ?b" by (simp add: still_def)
  have fin: "still fd c (finish_recv g r a c)" for c r a
    by (auto simp: finish_recv_def Let_def still_def sq_def)
  consider "b' = accept_loop K g 32 ?b" | "b' = ?b"
    | r a c where "recv_loop K g ra_new ?b = Some (r, a, c)" "b' = c \<or> b' = finish_recv g r a c"
    using assms by (auto simp: ep_on_readable_def Let_def split: if_splits bind_splits)
  then show ?thesis
  proof cases
    case 3
    then have "still fd b c" using called_fields(7) [OF called_recv [OF 3(1)]] still_trans [OF b] by simp
    then show ?thesis using 3(2) still_trans [OF _ fin] by blast
  qed (use b still_trans [OF b still_accept] in simp_all)
qed

lemma still_on_errorish: "still fd b (ep_on_errorish K g ev b)"
  by (auto simp: ep_on_errorish_def Let_def still_def sq_def)

lemma still_finish_connect: "still fd b (finish_connect K g b)"
  by (simp add: finish_connect_def Let_def still_def sq_def)

section \<open>The stream of a descriptor\<close>

definition stream :: "int \<Rightarrow> epoll \<Rightarrow> byte list" where
  "stream fd b = wire fd b @ queued fd b"

text \<open>The stream is as it was, and no send of another owner was queued.\<close>

definition flowing :: "int \<Rightarrow> epoll \<Rightarrow> epoll \<Rightarrow> bool" where
  "flowing fd b b' \<longleftrightarrow> stream fd b' = stream fd b \<and> rq_ud ` set (sq fd b') \<subseteq> rq_ud ` set (sq fd b)"

text \<open>A kernel that takes at most what it is offered and reports no error but that it is full.\<close>

definition calm_kernel :: "kernel \<Rightarrow> int \<Rightarrow> bool" where
  "calm_kernel K fd \<longleftrightarrow>
     (\<forall>i bs. ke_send K i fd bs \<le> int (length bs) \<and> (ke_send K i fd bs < 0 \<longrightarrow> ke_send K i fd bs = - EAGAIN))"

lemma still_flowing: "still fd b b' \<Longrightarrow> flowing fd b b'"
  by (simp add: still_def flowing_def stream_def queued_def)

lemma flowing_trans: "flowing fd b b' \<Longrightarrow> flowing fd b' b'' \<Longrightarrow> flowing fd b b''"
  unfolding flowing_def by (elim conjE, intro conjI) (simp, erule (1) subset_trans)

lemma flowing_refl [simp]: "flowing fd b b"
  by (simp add: flowing_def)

lemma still_finish_send: "g \<noteq> fd \<Longrightarrow> still fd b (finish_send g r b)"
  by (auto simp: finish_send_def Let_def still_def)

lemma flowing_finish_send:
  assumes "sq g b = q # qs" "unsent q = []"
  shows "flowing fd b (finish_send g r b)"
proof (cases "g = fd")
  case True
  have "sq fd (finish_send g r b) = qs" "wire fd (finish_send g r b) = wire fd b"
    using assms(1) True by (simp_all add: finish_send_def Let_def sq_def)
  then show ?thesis using assms True by (auto simp: flowing_def stream_def queued_def)
qed (simp add: still_finish_send still_flowing)

text \<open>One send call on the head of the queue, with the offset moved.\<close>

lemma flowing_call:
  assumes "sq g b = q # qs" "call_send K g (unsent q) b = (w, b1)" "0 \<le> w" "g = fd \<Longrightarrow> w \<le> int (length (unsent q))"
  shows "flowing fd b (ef_put g ((ef_at g b1)\<lparr>ef_sendq := q\<lparr>rq_off := rq_off q + nat w\<rparr> # qs\<rparr>) b1)"
proof -
  have b1: "b1 = ep_say [SentBytes g (take (nat w) (unsent q))] b" using assms(2,3) by (auto simp: call_send_def Let_def)
  have u: "unsent (q\<lparr>rq_off := rq_off q + nat w\<rparr>) = drop (nat w) (unsent q)" by (simp add: unsent_def add.commute)
  show ?thesis
  proof (cases "g = fd")
    case True
    then show ?thesis using assms(1) u by (auto simp: b1 flowing_def stream_def queued_def)
  next
    case False
    then have "still fd b (ef_put g ((ef_at g b1)\<lparr>ef_sendq := q\<lparr>rq_off := rq_off q + nat w\<rparr> # qs\<rparr>) b1)"
      by (auto simp: b1 still_def)
    then show ?thesis by (rule still_flowing)
  qed
qed

lemma flowing_send_loop:
  assumes "send_loop K g b = Some b'" "calm_kernel K fd"
  shows "flowing fd b b'"
proof (rule mp [OF _ assms(2)], rule send_loop.raw_induct [of "\<lambda>K g b b'. calm_kernel K fd \<longrightarrow> flowing fd b b'", OF _ assms(1)], rule impI)
  fix f K g b b'
  assume IH: "\<And>K g b b'. f K g b = Some b' \<Longrightarrow> calm_kernel K fd \<longrightarrow> flowing fd b b'"
    and x: "(let s = ef_at g b in
      case ef_sendq s of
        [] \<Rightarrow> Some b
      | q # qs \<Rightarrow>
          let (w, b) = call_send K g (drop (rq_off q) (rq_bytes q)) b in
          if w < 0 then
            (if w = - EINTR then f K g b
             else if w = - EAGAIN then Some b
             else f K g (finish_send g w b))
          else
            let q' = q\<lparr>rq_off := rq_off q + nat w\<rparr>;
                b = ef_put g ((ef_at g b)\<lparr>ef_sendq := q' # qs\<rparr>) b in
            if rq_off q' = length (rq_bytes q') then f K g (finish_send g (res32 (length (rq_bytes q'))) b)
            else f K g b) = Some b'"
    and calm: "calm_kernel K fd"
  show "flowing fd b b'"
  proof (cases "sq g b")
    case Nil
    with x show ?thesis by (simp add: sq_def)
  next
    case (Cons q qs)
    obtain w b1 where w: "call_send K g (unsent q) b = (w, b1)" by fastforce
    have wk: "w = ke_send K (ep_n b) g (unsent q)" using w by (simp add: call_send_def Let_def)
    show ?thesis
    proof (cases "w < 0")
      case True
      then have b1: "b1 = ep_say [] b" using w by (simp add: call_send_def Let_def split: if_splits)
      then have s: "flowing fd b b1" by (intro still_flowing) (simp add: still_def)
      have "w = - EAGAIN" if "g = fd" using calm that True wk by (simp add: calm_kernel_def)
      then have "f K g b1 = Some b' \<or> b' = b1 \<or> (g \<noteq> fd \<and> f K g (finish_send g w b1) = Some b')"
        using x Cons w True by (auto simp: sq_def unsent_def Let_def split: if_splits)
      then show ?thesis
      proof (elim disjE conjE)
        assume "f K g b1 = Some b'"
        then show ?thesis using IH calm flowing_trans [OF s] by blast
      next
        assume "g \<noteq> fd" "f K g (finish_send g w b1) = Some b'"
        then show ?thesis using IH calm flowing_trans [OF s flowing_trans [OF still_flowing [OF still_finish_send]]] by blast
      qed (use s in simp)
    next
      case False
      define q' where "q' = q\<lparr>rq_off := rq_off q + nat w\<rparr>"
      define b2 where "b2 = ef_put g ((ef_at g b1)\<lparr>ef_sendq := q' # qs\<rparr>) b1"
      have "w \<le> int (length (unsent q))" if "g = fd" using calm that wk by (simp add: calm_kernel_def)
      then have s: "flowing fd b b2" unfolding b2_def q'_def using flowing_call [OF Cons w] False by simp
      have "f K g b2 = Some b' \<or> (unsent q' = [] \<and> (\<exists>r. f K g (finish_send g r b2) = Some b'))"
        using x Cons w False by (auto simp: sq_def unsent_def Let_def q'_def b2_def split: if_splits)
      moreover have "sq g b2 = q' # qs" by (simp add: b2_def)
      ultimately show ?thesis
        using IH calm flowing_trans [OF s] flowing_trans [OF s flowing_trans [OF flowing_finish_send]] by blast
    qed
  qed
qed

section \<open>Dispatch and wait\<close>

lemma flowing_on_writable:
  assumes "ep_on_writable K g b = Some b'" "calm_kernel K fd"
  shows "flowing fd b b'"
proof -
  let ?b = "if ef_connect_pending (ef_at g b) then finish_connect K g b else b"
  obtain c where c: "send_loop K g ?b = Some c" "b' = c \<or> (\<exists>x. b' = give g EPOLLOUT x c)"
    using assms(1) by (auto simp: ep_on_writable_def Let_def split: bind_splits if_splits)
  have "flowing fd b ?b" using still_flowing [OF still_finish_connect] by simp
  moreover have "flowing fd ?b c" by (rule flowing_send_loop [OF c(1) assms(2)])
  moreover have "flowing fd c b'" using c(2) by (auto intro!: still_flowing simp: still_def)
  ultimately show ?thesis using flowing_trans by blast
qed

lemma flowing_dispatch:
  assumes "dispatch_event K g ev b = Some b'" "calm_kernel K fd"
  shows "flowing fd b b'"
proof -
  let ?b = "if ev AND (EPOLLERR OR EPOLLHUP OR EPOLLRDHUP) \<noteq> 0 then ep_on_errorish K g ev b else b"
  obtain c where c: "(if ev AND EPOLLIN \<noteq> 0 then ep_on_readable K g ?b else Some ?b) = Some c"
      "(if ev AND EPOLLOUT \<noteq> 0 then ep_on_writable K g c else Some c) = Some b'"
    using assms(1) by (auto simp: dispatch_event_def Let_def split: bind_splits)
  have "flowing fd b ?b" using still_flowing [OF still_on_errorish] by simp
  moreover have "flowing fd ?b c" using c(1) still_flowing [OF still_on_readable] by (auto split: if_splits)
  moreover have "flowing fd c b'" using c(2) flowing_on_writable [OF _ assms(2)] by (auto split: if_splits)
  ultimately show ?thesis using flowing_trans by blast
qed

lemma flowing_pending:
  assumes "pending_loop K b = Some b'" "calm_kernel K fd"
  shows "flowing fd b b'"
proof (rule mp [OF _ assms(2)], rule pending_loop.raw_induct [of "\<lambda>K b b'. calm_kernel K fd \<longrightarrow> flowing fd b b'", OF _ assms(1)], rule impI)
  fix f K b b'
  assume IH: "\<And>K b b'. f K b = Some b' \<Longrightarrow> calm_kernel K fd \<longrightarrow> flowing fd b b'"
    and x: "(if length (ep_out b) < ep_cap b then
        case ep_pending b of
          [] \<Rightarrow> Some b
        | x # rest \<Rightarrow> (case x of (fd, ev) \<Rightarrow>
            let b = b\<lparr>ep_pending := rest\<rparr> in
            if map_of (ep_fds b) fd = None then f K b
            else Option.bind (dispatch_event K fd ev b) (f K))
      else Some b) = Some b'"
    and calm: "calm_kernel K fd"
  show "flowing fd b b'"
  proof (cases "length (ep_out b) < ep_cap b \<and> ep_pending b \<noteq> []")
    case False
    with x show ?thesis by (auto split: if_splits)
  next
    case True
    then obtain g ev rest where p: "ep_pending b = (g, ev) # rest" by (cases "ep_pending b") auto
    let ?b = "b\<lparr>ep_pending := rest\<rparr>"
    have s: "flowing fd b ?b" by (rule still_flowing) (simp add: still_def)
    have "f K ?b = Some b' \<or> (\<exists>c. dispatch_event K g ev ?b = Some c \<and> f K c = Some b')"
      using x True p by (auto simp: Let_def split: if_splits bind_splits)
    then show ?thesis using IH calm flowing_trans [OF s] flowing_trans [OF s flowing_trans [OF flowing_dispatch [OF _ calm]]] by blast
  qed
qed

lemma called_poll:
  assumes "poll_loop K t b = Some x"
  shows "called b (snd x)"
proof (rule poll_loop.raw_induct [of "\<lambda>K t b x. called b (snd x)", OF _ assms])
  fix f K t b x
  assume IH: "\<And>K t b x. f K t b = Some x \<Longrightarrow> called b (snd x)"
    and x: "(let r = ke_poll K (ep_n b); b = ep_say [Polled t] b in
      case r of
        Inl e \<Rightarrow> if e = EINTR then f K t b else Some (None, b)
      | Inr evs \<Rightarrow> Some (Some (take 64 evs), b)) = Some x"
  have say: "called b (ep_say [Polled t] b)" by (simp add: called_say)
  show "called b (snd x)"
    using x by (auto simp: Let_def say split: sum.splits if_splits intro: called_trans [OF say IH])
qed

lemma flowing_events:
  "events_loop K evs b = Some b' \<Longrightarrow> calm_kernel K fd \<Longrightarrow> flowing fd b b'"
proof (induction K evs b arbitrary: b' rule: events_loop.induct)
  case (2 K g ev evs b)
  have s: "flowing fd b (ep_say [WakeRead] b)" "flowing fd b (b\<lparr>ep_pending := ep_pending b @ [(g, ev)]\<rparr>)"
    by (auto intro!: still_flowing simp: still_def)
  show ?case
  proof (cases "g = ep_wake_fd b")
    case True
    with 2 s(1) show ?thesis by (auto intro: flowing_trans)
  next
    case False
    show ?thesis
    proof (cases "map_of (ep_fds b) g = None \<or> \<not> length (ep_out b) < ep_cap b")
      case True
      with False 2 s(2) show ?thesis by (auto split: if_splits intro: flowing_trans)
    next
      case room: False
      with False 2(5) obtain c where c: "dispatch_event K g ev b = Some c" "events_loop K evs c = Some b'"
        by (auto split: bind_splits)
      have "flowing fd c b'" using 2(3) [OF False _ _ c(1) c(2) 2(6)] room by simp
      then show ?thesis using flowing_trans [OF flowing_dispatch [OF c(1) 2(6)]] by blast
    qed
  qed
qed simp

text \<open>A wait starts with what is ready.\<close>

definition wait_start :: "nat \<Rightarrow> epoll \<Rightarrow> epoll" where
  "wait_start cap b = b\<lparr>ep_cap := cap, ep_out := take cap (ep_ready b), ep_ready := drop cap (ep_ready b)\<rparr>"

definition poll_timeout :: "int \<Rightarrow> epoll \<Rightarrow> int" where
  "poll_timeout t b = (if ep_ready b \<noteq> [] \<or> ep_out b \<noteq> [] \<or> t \<le> 0 then 0 else t)"

lemma wait_eq:
  "ep_wait K cap t b =
     (if length (ep_out (wait_start cap b)) = cap then Some (wait_start cap b)
      else Option.bind (pending_loop K (wait_start cap b)) (\<lambda>c.
        if length (ep_out c) = cap then Some c
        else Option.bind (poll_loop K (poll_timeout t c) c) (\<lambda>(r, d).
          case r of None \<Rightarrow> Some d | Some evs \<Rightarrow> events_loop K evs d)))"
  unfolding ep_wait_def wait_start_def poll_timeout_def Let_def by (rule refl)

lemma wait_cases:
  assumes "ep_wait K cap t b = Some b'"
  obtains "b' = wait_start cap b" | "pending_loop K (wait_start cap b) = Some b'"
  | c d where "pending_loop K (wait_start cap b) = Some c" "poll_loop K (poll_timeout t c) c = Some (None, d)" "b' = d"
  | c d evs where "pending_loop K (wait_start cap b) = Some c" "poll_loop K (poll_timeout t c) c = Some (Some evs, d)"
      "events_loop K evs d = Some b'"
proof (cases "length (ep_out (wait_start cap b)) = cap")
  case True
  then show thesis using assms that(1) by (simp add: wait_eq)
next
  case False
  then obtain c where c: "pending_loop K (wait_start cap b) = Some c" using assms by (auto simp: wait_eq split: bind_splits)
  show thesis
  proof (cases "length (ep_out c) = cap")
    case True
    then show thesis using assms False c that(2) by (simp add: wait_eq)
  next
    case room: False
    then obtain r d where d: "poll_loop K (poll_timeout t c) c = Some (r, d)" using assms False c by (auto simp: wait_eq split: bind_splits)
    show thesis
    proof (cases r)
      case None
      then show thesis using assms False c room d that(3) by (simp add: wait_eq)
    next
      case (Some evs)
      then show thesis using assms False c room d that(4) by (simp add: wait_eq)
    qed
  qed
qed

lemma flowing_wait:
  assumes "ep_wait K cap t b = Some b'" "calm_kernel K fd"
  shows "flowing fd b b'"
  using assms(1)
proof (cases rule: wait_cases)
  case 1
  have "flowing fd b (wait_start cap b)" by (rule still_flowing) (simp add: still_def wait_start_def)
  with 1 show ?thesis by simp
next
  case 2
  have "flowing fd b (wait_start cap b)" by (rule still_flowing) (simp add: still_def wait_start_def)
  then show ?thesis using flowing_trans flowing_pending [OF 2 assms(2)] by blast
next
  case (3 c d)
  have "flowing fd b (wait_start cap b)" by (rule still_flowing) (simp add: still_def wait_start_def)
  moreover have "flowing fd c d" using called_fields(7) [OF called_poll [OF 3(2)]] by (simp add: still_flowing)
  ultimately show ?thesis using flowing_trans flowing_pending [OF 3(1) assms(2)] 3(3) by blast
next
  case (4 c d evs)
  have "flowing fd b (wait_start cap b)" by (rule still_flowing) (simp add: still_def wait_start_def)
  moreover have "flowing fd c d" using called_fields(7) [OF called_poll [OF 4(2)]] by (simp add: still_flowing)
  ultimately show ?thesis using flowing_trans flowing_pending [OF 4(1) assms(2)] flowing_events [OF 4(3) assms(2)] by blast
qed

section \<open>Submitting\<close>

lemma send_tail_drop: "send_tail k iov = drop k (concat iov)"
  by (induction k iov rule: send_tail.induct) simp_all

lemma push_send_stream:
  "stream fd (push_send u g bs b) = stream fd b @ (if g = fd then bs else [])"
  "rq_ud ` set (sq fd (push_send u g bs b)) \<subseteq> (if g = fd then {u} else {}) \<union> rq_ud ` set (sq fd b)"
  by (auto simp: push_send_def stream_def queued_def unsent_def sq_def)

lemma prefix_taken:
  assumes "w \<le> length (concat (take n iov))"
  shows "take w (concat (take n iov)) = take w (concat iov)"
proof -
  have "concat iov = concat (take n iov) @ concat (drop n iov)" by (metis append_take_drop_id concat_append)
  with assms show ?thesis by simp
qed

text \<open>The stream and the owners of the queue after a submit.\<close>

definition submitted :: "int \<Rightarrow> u64 set \<Rightarrow> byte list \<Rightarrow> epoll \<Rightarrow> epoll \<Rightarrow> bool" where
  "submitted fd us bs b b' \<longleftrightarrow> stream fd b' = stream fd b @ bs \<and> rq_ud ` set (sq fd b') \<subseteq> us \<union> rq_ud ` set (sq fd b)"

lemma submitted_flowing: "submitted fd us bs b b' \<Longrightarrow> flowing fd b' b'' \<Longrightarrow> submitted fd us bs b b''"
  unfolding submitted_def flowing_def by (elim conjE, intro conjI) (simp, erule (1) subset_trans)

lemma submit_sends:
  assumes "calm_kernel K fd"
  shows "submitted fd (if g = fd then {u} else {}) (if g = fd then concat iov else []) b (snd (ep_submit_sendv K u g iov b))"
proof -
  define b0 where "b0 = ef_put g (ef_at g b) b"
  have same: "wire fd b0 = wire fd b" "sq fd b0 = sq fd b" "sq g b0 = sq g b" by (simp_all add: b0_def sq_def)
  show ?thesis
  proof (cases "sq g b = []")
    case False
    then have "snd (ep_submit_sendv K u g iov b) = update_events g (push_send u g (concat iov) b0)"
      using same(3) by (simp add: ep_submit_sendv_def Let_def b0_def [symmetric] sq_def)
    then have "flowing fd (push_send u g (concat iov) b0) (snd (ep_submit_sendv K u g iov b))"
      by (simp add: still_flowing still_def)
    moreover have "submitted fd (if g = fd then {u} else {}) (if g = fd then concat iov else []) b (push_send u g (concat iov) b0)"
      using push_send_stream [of fd u g "concat iov" b0] same by (simp add: submitted_def stream_def queued_def)
    ultimately show ?thesis using submitted_flowing by blast
  next
    case True
    let ?offer = "concat (take 64 iov)"
    define w where "w = ke_send K (ep_n b) g ?offer"
    define k where "k = (if w < 0 then 0 else nat w)"
    define b1 where "b1 = ep_say (if 0 \<le> w then [SentBytes g (take (nat w) ?offer)] else []) b0"
    have call: "call_send K g ?offer b0 = (w, b1)" by (simp add: call_send_def w_def b1_def b0_def Let_def)
    have calm: "w \<le> int (length ?offer)" "w < 0 \<Longrightarrow> w = - EAGAIN" if "g = fd"
      using assms that by (simp_all add: calm_kernel_def w_def)
    have took: "wire fd b1 = wire fd b @ (if g = fd then take k (concat iov) else [])"
      using calm(1) prefix_taken [of "nat w" 64 iov] by (auto simp: b1_def same k_def)
    have sq1: "sq fd b1 = sq fd b" by (simp add: b1_def same)
    have eq: "snd (ep_submit_sendv K u g iov b) =
        (if w < 0 \<and> w \<noteq> - EAGAIN then queue_completion u w b1
         else if k = length (concat iov) then queue_completion u (res32 k) b1
         else snd (register_update K g (push_send u g (send_tail k iov) b1)))"
      using True same(3) unfolding ep_submit_sendv_def Let_def b0_def [symmetric] call
      by (simp add: sq_def k_def [symmetric] del: length_concat)
    consider (failed) "w < 0" "w \<noteq> - EAGAIN" | (all) "w < 0 \<longrightarrow> w = - EAGAIN" "k = length (concat iov)"
      | (part) "w < 0 \<longrightarrow> w = - EAGAIN" "k \<noteq> length (concat iov)" by blast
    then show ?thesis
    proof cases
      case failed
      then have "g \<noteq> fd" using calm(2) by blast
      then show ?thesis using failed eq took sq1 by (auto simp: submitted_def stream_def queued_def)
    next
      case all
      then have "snd (ep_submit_sendv K u g iov b) = queue_completion u (res32 k) b1" using eq by auto
      then show ?thesis using all(2) took sq1 True by (auto simp: submitted_def stream_def queued_def simp del: length_concat)
    next
      case part
      have "submitted fd (if g = fd then {u} else {}) (if g = fd then concat iov else []) b (push_send u g (send_tail k iov) b1)"
        using push_send_stream [of fd u g "send_tail k iov" b1] took sq1 True
        by (auto simp: submitted_def stream_def queued_def send_tail_drop)
      then show ?thesis using part eq submitted_flowing [OF _ still_flowing [OF still_register]] by auto
    qed
  qed
qed

end
