(* ===== verification/Epoll_Ends.thy ===== *)
theory Epoll_Ends
  imports Epoll_Stream
begin

text \<open>
  A wait of the epoll back end ends, with at most as many completions as asked for, when the kernel
  does not interrupt its calls for ever.
\<close>

section \<open>The span and the kept events\<close>

definition grows :: "epoll \<Rightarrow> epoll \<Rightarrow> bool" where
  "grows b b' \<longleftrightarrow> ep_cap b' = ep_cap b \<and> length (ep_out b) \<le> length (ep_out b') \<and>
     (ep_pending b' = ep_pending b \<or> ep_cap b \<le> length (ep_out b')) \<and>
     (length (ep_out b) \<le> ep_cap b \<longrightarrow> length (ep_out b') \<le> ep_cap b)"

lemma grows_refl [simp]: "grows b b"
  by (simp add: grows_def)

lemma grows_trans: "grows b b' \<Longrightarrow> grows b' b'' \<Longrightarrow> grows b b''"
  by (auto simp: grows_def)

lemma ep_say_fields [simp]:
  "ep_out (ep_say cs b) = ep_out b" "ep_cap (ep_say cs b) = ep_cap b" "ep_pending (ep_say cs b) = ep_pending b"
  "ep_ready (ep_say cs b) = ep_ready b" "ep_fds (ep_say cs b) = ep_fds b"
  by (simp_all add: ep_say_def)

lemma update_fields [simp]:
  "ep_out (update_events g b) = ep_out b" "ep_cap (update_events g b) = ep_cap b" "ep_pending (update_events g b) = ep_pending b"
  by (simp_all add: update_events_def)

lemma grows_same:
  "ep_out b' = ep_out b \<Longrightarrow> ep_cap b' = ep_cap b \<Longrightarrow> ep_pending b' = ep_pending b \<Longrightarrow> grows b b'"
  by (simp add: grows_def)

lemma give_fields [simp]:
  "ep_out (give g ev c b) = (if length (ep_out b) < ep_cap b then ep_out b @ [c] else ep_out b)" "ep_cap (give g ev c b) = ep_cap b"
  "ep_pending (give g ev c b) = (if length (ep_out b) < ep_cap b then ep_pending b else ep_pending b @ [(g, ev)])"
  by (simp_all add: give_def)

lemma grows_give: "grows b (give g ev c b)"
  by (auto simp: grows_def)

lemma grows_called: "called b b' \<Longrightarrow> grows b b'"
  by (rule grows_same) (simp_all add: called_fields)

lemma grows_accept: "grows b (accept_loop K g i b)"
proof (induction i arbitrary: b)
  case (Suc i)
  have s: "grows b (ep_say [] b)" by (rule grows_same) simp_all
  have c: "grows b (ep_say [CloseFd x] (give g EPOLLIN y (ep_say [] b)))" for x y by (auto simp: grows_def)
  show ?case using s c grows_trans [OF s grows_trans [OF grows_give Suc.IH]] by (auto simp: Let_def)
qed simp

lemma grows_finish_recv: "grows b (finish_recv g r a b)"
  by (auto simp: finish_recv_def Let_def grows_def)

lemma grows_on_readable:
  assumes "ep_on_readable K g b = Some b'"
  shows "grows b b'"
proof -
  let ?b = "if i_has (ef_interest (ef_at g b)) i_readable
    then give g EPOLLIN (cp_empty\<lparr>cp_user := ef_watch_ud (ef_at g b), cp_result := uint ready_read\<rparr>) b else b"
  have b: "grows b ?b" by (simp add: grows_give)
  consider "b' = accept_loop K g 32 ?b" | "b' = ?b"
    | r a c where "recv_loop K g ra_new ?b = Some (r, a, c)" "b' = c \<or> b' = finish_recv g r a c"
    using assms by (auto simp: ep_on_readable_def Let_def split: if_splits bind_splits)
  then show ?thesis
  proof cases
    case 3
    then have "grows b c" using grows_called [OF called_recv [OF 3(1)]] grows_trans [OF b] by simp
    then show ?thesis using 3(2) grows_trans [OF _ grows_finish_recv] by blast
  qed (use b grows_trans [OF b grows_accept] in simp_all)
qed

lemma grows_on_errorish: "grows b (ep_on_errorish K g ev b)"
  by (auto simp: ep_on_errorish_def Let_def grows_def)

lemma grows_finish:
  "grows b (finish_connect K g b)" "grows b (finish_send g r b)"
  by (auto simp: finish_connect_def finish_send_def Let_def grows_def)

lemma grows_call: "call_send K g bs b = (w, b1) \<Longrightarrow> grows b b1"
  by (auto simp: call_send_def Let_def intro!: grows_same)

section \<open>The send loop\<close>

text \<open>
  A kernel that does not interrupt, takes at most what it is offered, and of a nonempty offer something
  or answers with an error.
\<close>

definition prompt :: "kernel \<Rightarrow> bool" where
  "prompt K \<longleftrightarrow>
     (\<forall>i fd bs. ke_send K i fd bs \<le> int (length bs) \<and> ke_send K i fd bs \<noteq> - EINTR \<and> (ke_send K i fd bs = 0 \<longrightarrow> bs = [])) \<and>
     (\<forall>i fd n. ke_recv K i fd n \<noteq> Inl EINTR) \<and> (\<forall>i. ke_poll K i \<noteq> Inl EINTR)"

definition offsets_ok :: "epoll \<Rightarrow> bool" where
  "offsets_ok b \<longleftrightarrow> (\<forall>fd. \<forall>q\<in>set (sq fd b). rq_off q \<le> length (rq_bytes q))"

definition work :: "send_req list \<Rightarrow> nat" where
  "work qs = sum_list (map (\<lambda>q. Suc (length (unsent q))) qs)"

lemma offsets_still: "offsets_ok b \<Longrightarrow> (\<And>fd. still fd b b') \<Longrightarrow> offsets_ok b'"
  by (simp add: offsets_ok_def still_def)

lemma offsets_finish: "offsets_ok b \<Longrightarrow> offsets_ok (finish_send g r b)"
proof -
  assume "offsets_ok b"
  moreover have "set (sq fd (finish_send g r b)) \<subseteq> set (sq fd b)" for fd
    by (cases "sq g b") (auto simp: finish_send_def Let_def sq_def)
  ultimately show ?thesis unfolding offsets_ok_def by blast
qed

lemma send_loop_ends:
  assumes "prompt K" "offsets_ok b"
  shows "\<exists>b'. send_loop K g b = Some b' \<and> grows b b' \<and> offsets_ok b'"
  using assms(2)
proof (induction "work (sq g b)" arbitrary: b rule: less_induct)
  case less
  show ?case
  proof (cases "sq g b")
    case Nil
    then have "send_loop K g b = Some b" by (subst send_loop.simps) (simp add: sq_def)
    then show ?thesis using less.prems by simp
  next
    case (Cons q qs)
    obtain w b1 where w: "call_send K g (unsent q) b = (w, b1)" by fastforce
    have wk: "w \<le> int (length (unsent q))" "w \<noteq> - EINTR" "w = 0 \<longrightarrow> unsent q = []"
      using w assms(1) by (auto simp: prompt_def call_send_def Let_def)
    have b1: "sq fd b1 = sq fd b" "ef_at fd b1 = ef_at fd b" for fd using w by (auto simp: call_send_def Let_def)
    have g1: "grows b b1" by (rule grows_call [OF w])
    have off1: "offsets_ok b1" using less.prems b1 by (simp add: offsets_ok_def)
    have go: ?thesis if eq: "send_loop K g b = send_loop K g c" and c: "grows b1 c" "offsets_ok c" "work (sq g c) < work (sq g b)" for c
      using less.hyps [OF c(3) c(2)] grows_trans [OF grows_trans [OF g1 c(1)]] by (auto simp: eq)
    have fin: "grows c (finish_send g r c)" "sq g (finish_send g r c) = tl (sq g c)" for r c
      by (simp add: grows_finish) (simp add: finish_send_def Let_def sq_def)
    show ?thesis
    proof (cases "w < 0")
      case True
      show ?thesis
      proof (cases "w = - EAGAIN")
        case True
        then have "send_loop K g b = Some b1" using Cons w by (subst send_loop.simps) (simp add: sq_def unsent_def EAGAIN_def EINTR_def)
        then show ?thesis using g1 off1 by simp
      next
        case False
        with True Cons w wk(2) have "send_loop K g b = send_loop K g (finish_send g w b1)"
          by (subst send_loop.simps) (simp add: sq_def unsent_def)
        then show ?thesis
          using fin off1 Cons b1(1) by (intro go [of "finish_send g w b1"]) (simp_all add: offsets_finish work_def)
      qed
    next
      case False
      define q' where "q' = q\<lparr>rq_off := rq_off q + nat w\<rparr>"
      define b2 where "b2 = ef_put g ((ef_at g b1)\<lparr>ef_sendq := q' # qs\<rparr>) b1"
      have q': "unsent q' = drop (nat w) (unsent q)" by (simp add: q'_def unsent_def add.commute)
      have all: "\<forall>r\<in>set (q # qs). rq_off r \<le> length (rq_bytes r)" using less.prems Cons unfolding offsets_ok_def by metis
      then have "rq_off q \<le> length (rq_bytes q)" by simp
      then have "rq_off q' \<le> length (rq_bytes q')" using wk(1) False by (simp add: q'_def unsent_def)
      then have b2: "offsets_ok b2" "grows b1 b2" "sq g b2 = q' # qs"
        using off1 all by (auto simp: b2_def offsets_ok_def intro: grows_same)
      have step: "send_loop K g b =
          (if rq_off q' = length (rq_bytes q') then send_loop K g (finish_send g (res32 (length (rq_bytes q'))) b2) else send_loop K g b2)"
        using Cons w False by (subst send_loop.simps) (simp add: sq_def unsent_def q'_def b2_def Let_def)
      show ?thesis
      proof (cases "rq_off q' = length (rq_bytes q')")
        case True
        then show ?thesis using step b2 fin Cons grows_trans [OF b2(2) fin(1)]
          by (intro go [of "finish_send g (res32 (length (rq_bytes q'))) b2"]) (simp_all add: offsets_finish work_def)
      next
        case more: False
        have "w \<noteq> 0" using more wk(3) \<open>rq_off q \<le> _\<close> by (auto simp: q'_def unsent_def)
        then have "length (unsent q') < length (unsent q)" using q' wk(1) False by simp
        then show ?thesis using step more b2 Cons by (intro go [of b2]) (simp_all add: work_def)
      qed
    qed
  qed
qed

section \<open>The other loops\<close>

lemma recv_loop_ends:
  assumes "prompt K"
  shows "\<exists>x. recv_loop K g a b = Some x"
proof (induction "ef_recv_room (ef_at g b) - ra_total a" arbitrary: a b rule: less_induct)
  case less
  let ?rem = "ef_recv_room (ef_at g b) - ra_total a"
  show ?case
  proof (cases "?rem = 0")
    case True
    then show ?thesis by (subst recv_loop.simps) simp
  next
    case False
    show ?thesis
    proof (cases "ke_recv K (ep_n b) g ?rem")
      case (Inl e)
      then have "e \<noteq> EINTR" using assms by (auto simp: prompt_def)
      with Inl False show ?thesis by (subst recv_loop.simps) (simp add: Let_def)
    next
      case (Inr m)
      let ?got = "take ?rem (rx_bytes m)"
      let ?s = "if want_msg K (ef_at g b) then take_ancillary K g m a (ep_say [GotBytes g ?got] b) else (a, ep_say [GotBytes g ?got] b)"
      obtain a1 b1 where s: "?s = (a1, b1)" by fastforce
      have "ra_total a1 = ra_total a" using s
        by (auto simp: take_ancillary_def Let_def split: if_splits option.splits prod.splits)
      moreover have "ef_at g b1 = ef_at g b"
        using s called_fields(8) [OF called_ancillary, of g K g m a "ep_say [GotBytes g ?got] b"] by (auto split: if_splits)
      ultimately have "\<exists>x. recv_loop K g (a1\<lparr>ra_total := ra_total a1 + length ?got\<rparr>) b1 = Some x" if "?got \<noteq> []"
        using that False by (intro less) (cases "rx_bytes m", auto)
      with Inr False s show ?thesis by (subst recv_loop.simps) (simp add: Let_def)
    qed
  qed
qed

section \<open>A wait\<close>

definition ends_well :: "epoll \<Rightarrow> epoll option \<Rightarrow> bool" where
  "ends_well b x \<longleftrightarrow> (\<exists>b'. x = Some b' \<and> grows b b' \<and> offsets_ok b')"

lemma ends_wellI: "grows b b' \<Longrightarrow> offsets_ok b' \<Longrightarrow> ends_well b (Some b')"
  by (simp add: ends_well_def)

lemma ends_well_trans: "grows b c \<Longrightarrow> ends_well c x \<Longrightarrow> ends_well b x"
  unfolding ends_well_def using grows_trans by blast

lemma ends_well_bind:
  assumes "ends_well b x" "\<And>c. grows b c \<Longrightarrow> offsets_ok c \<Longrightarrow> ends_well c (f c)"
  shows "ends_well b (Option.bind x f)"
proof -
  obtain c where c: "x = Some c" "grows b c" "offsets_ok c" using assms(1) by (auto simp: ends_well_def)
  then show ?thesis using ends_well_trans [OF c(2) assms(2) [OF c(2,3)]] by simp
qed

lemma on_readable_ends:
  assumes "prompt K" "offsets_ok b"
  shows "ends_well b (ep_on_readable K g b)"
proof -
  have "\<exists>b'. ep_on_readable K g b = Some b'"
  proof -
    let ?b = "if i_has (ef_interest (ef_at g b)) i_readable
      then give g EPOLLIN (cp_empty\<lparr>cp_user := ef_watch_ud (ef_at g b), cp_result := uint ready_read\<rparr>) b else b"
    obtain r a c where "recv_loop K g ra_new ?b = Some (r, a, c)" using recv_loop_ends [OF assms(1), of g ra_new ?b] by auto
    then show ?thesis by (simp add: ep_on_readable_def Let_def)
  qed
  then obtain b' where b': "ep_on_readable K g b = Some b'" by blast
  then show ?thesis
    using grows_on_readable [OF b'] offsets_still [OF assms(2) still_on_readable [OF b']] by (simp add: ends_well_def)
qed

lemma on_writable_ends:
  assumes "prompt K" "offsets_ok b"
  shows "ends_well b (ep_on_writable K g b)"
proof -
  let ?b = "if ef_connect_pending (ef_at g b) then finish_connect K g b else b"
  have "grows b ?b" "offsets_ok ?b" using assms(2) grows_finish(1) offsets_still [OF assms(2) still_finish_connect] by auto
  have "ends_well ?b (send_loop K g ?b)" using send_loop_ends [OF assms(1) \<open>offsets_ok ?b\<close>] by (simp add: ends_well_def)
  then have "ends_well ?b (Option.bind (send_loop K g ?b) (\<lambda>c. Some (if i_has (ef_interest (ef_at g c)) i_writable
      then give g EPOLLOUT (cp_empty\<lparr>cp_user := ef_watch_ud (ef_at g c), cp_result := uint ready_write\<rparr>) c else c)))"
    by (rule ends_well_bind) (simp add: ends_wellI grows_give offsets_ok_def)
  from ends_well_trans [OF \<open>grows b ?b\<close> this] show ?thesis by (simp add: ep_on_writable_def Let_def)
qed

lemma dispatch_ends:
  assumes "prompt K" "offsets_ok b"
  shows "ends_well b (dispatch_event K g ev b)"
proof -
  let ?b = "if ev AND (EPOLLERR OR EPOLLHUP OR EPOLLRDHUP) \<noteq> 0 then ep_on_errorish K g ev b else b"
  have b: "grows b ?b" "offsets_ok ?b" using assms(2) grows_on_errorish offsets_still [OF assms(2) still_on_errorish] by auto
  have "ends_well ?b (if ev AND EPOLLIN \<noteq> 0 then ep_on_readable K g ?b else Some ?b)"
    using on_readable_ends [OF assms(1) b(2)] ends_wellI [OF grows_refl b(2)] by simp
  then have "ends_well ?b (Option.bind (if ev AND EPOLLIN \<noteq> 0 then ep_on_readable K g ?b else Some ?b)
      (\<lambda>c. if ev AND EPOLLOUT \<noteq> 0 then ep_on_writable K g c else Some c))"
    by (rule ends_well_bind) (simp add: on_writable_ends [OF assms(1)] ends_wellI)
  from ends_well_trans [OF b(1) this] show ?thesis by (simp add: dispatch_event_def Let_def)
qed

lemma pending_ends:
  assumes "prompt K" "offsets_ok b" "length (ep_out b) \<le> ep_cap b"
  shows "\<exists>b'. pending_loop K b = Some b' \<and> offsets_ok b' \<and> ep_cap b' = ep_cap b \<and> length (ep_out b') \<le> ep_cap b"
  using assms(2,3)
proof (induction "length (ep_pending b)" arbitrary: b rule: less_induct)
  case less
  show ?case
  proof (cases "length (ep_out b) < ep_cap b \<and> ep_pending b \<noteq> []")
    case False
    then have "pending_loop K b = Some b" by (subst pending_loop.simps) auto
    then show ?thesis using less.prems by simp
  next
    case True
    then obtain g ev rest where p: "ep_pending b = (g, ev) # rest" by (cases "ep_pending b") auto
    let ?b = "b\<lparr>ep_pending := rest\<rparr>"
    have off: "offsets_ok ?b" using less.prems(1) by (simp add: offsets_ok_def)
    show ?thesis
    proof (cases "map_of (ep_fds ?b) g = None")
      case none: True
      with True p have "pending_loop K b = pending_loop K ?b" by (subst pending_loop.simps) simp
      with less(1) [of ?b] off less.prems(2) p show ?thesis by simp
    next
      case False
      obtain c where c: "dispatch_event K g ev ?b = Some c" "grows ?b c" "offsets_ok c"
        using dispatch_ends [OF assms(1) off] by (auto simp: ends_well_def)
      then have eq: "pending_loop K b = pending_loop K c" using True p False by (subst pending_loop.simps) (auto simp: Let_def)
      have cc: "ep_cap c = ep_cap b" "length (ep_out c) \<le> ep_cap b" using c(2) less.prems(2) by (auto simp: grows_def)
      show ?thesis
      proof (cases "length (ep_out c) < ep_cap c")
        case room: True
        then have "ep_pending c = rest" using c(2) cc by (auto simp: grows_def)
        with less(1) [of c] c(3) cc p eq show ?thesis by simp
      next
        case full: False
        then have "pending_loop K c = Some c" by (subst pending_loop.simps) simp
        with eq c(3) cc show ?thesis by simp
      qed
    qed
  qed
qed

lemma poll_ends: "prompt K \<Longrightarrow> \<exists>x. poll_loop K t b = Some x"
  by (subst poll_loop.simps) (auto simp: prompt_def Let_def split: sum.splits)

lemma events_ends:
  assumes "prompt K"
  shows "offsets_ok b \<Longrightarrow> length (ep_out b) \<le> ep_cap b \<Longrightarrow>
    \<exists>b'. events_loop K evs b = Some b' \<and> offsets_ok b' \<and> ep_cap b' = ep_cap b \<and> length (ep_out b') \<le> ep_cap b"
proof (induction evs arbitrary: b)
  case (Cons x evs)
  obtain g ev where x: "x = (g, ev)" by fastforce
  have same: "offsets_ok (ep_say [WakeRead] b)" "offsets_ok (b\<lparr>ep_pending := p\<rparr>)" for p
    using Cons.prems(1) by (simp_all add: offsets_ok_def)
  obtain c where c: "dispatch_event K g ev b = Some c" "grows b c" "offsets_ok c"
    using dispatch_ends [OF assms Cons.prems(1)] by (auto simp: ends_well_def)
  have "length (ep_out c) \<le> ep_cap c" "ep_cap c = ep_cap b" using c(2) Cons.prems(2) by (auto simp: grows_def)
  with Cons.IH [of c] Cons.IH [of "ep_say [WakeRead] b"] Cons.IH [of b] Cons.IH [of "b\<lparr>ep_pending := ep_pending b @ [(g, ev)]\<rparr>"]
    same Cons.prems c show ?case by (simp add: x)
qed simp

lemma wait_ends:
  assumes "prompt K" "offsets_ok b"
  shows "\<exists>b'. ep_wait K cap t b = Some b' \<and> offsets_ok b' \<and> ep_cap b' = cap \<and> length (ep_out b') \<le> cap"
proof -
  have s: "offsets_ok (wait_start cap b)" "length (ep_out (wait_start cap b)) \<le> ep_cap (wait_start cap b)" "ep_cap (wait_start cap b) = cap"
    using assms(2) by (simp_all add: wait_start_def offsets_ok_def)
  obtain c where c: "pending_loop K (wait_start cap b) = Some c" "offsets_ok c" "ep_cap c = cap" "length (ep_out c) \<le> cap"
    using pending_ends [OF assms(1) s(1,2)] s(3) by auto
  obtain r d where d: "poll_loop K (poll_timeout t c) c = Some (r, d)" using poll_ends [OF assms(1), of "poll_timeout t c" c] by auto
  note cd = called_fields [OF called_poll [OF d]]
  have d': "offsets_ok d" "ep_cap d = cap" "length (ep_out d) \<le> cap"
    using cd(2,3) c offsets_still [OF c(2), of d] cd(7) by simp_all
  have "\<exists>b'. (case r of None \<Rightarrow> Some d | Some evs \<Rightarrow> events_loop K evs d) = Some b' \<and> offsets_ok b' \<and> ep_cap b' = cap \<and>
      length (ep_out b') \<le> cap"
    using events_ends [OF assms(1), of d] d' by (cases r) auto
  then show ?thesis using s c d by (simp add: wait_eq)
qed

end
