(* ===== verification/Epoll_Runs.thy ===== *)
theory Epoll_Runs
  imports Epoll_Ends Conn_Writes
begin

text \<open>
  Runs of the epoll back end: the order of the bytes on the wire, the end of a wait, and what the
  emulation loses: the length of a partial send, bytes behind a hangup, completions without room.
\<close>

section \<open>Operations\<close>

datatype ep_op =
    PAttach int u32 u64
  | PModify int u32 u64
  | PDetach int
  | PRecv u64 int nat
  | PSendv u64 int "byte list list"
  | PAccept u64 int
  | PConnect u64 int
  | PCancel u64
  | PStamping int bool
  | PInbox int "nat option"
  | PWait nat int
  | PWake

fun ep_step :: "kernel \<Rightarrow> ep_op \<Rightarrow> epoll \<Rightarrow> epoll option" where
  "ep_step K (PAttach fd i u) b = Some (snd (ep_attach K fd i u b))"
| "ep_step K (PModify fd i u) b = Some (snd (ep_modify fd i u b))"
| "ep_step K (PDetach fd) b = Some (ep_detach fd b)"
| "ep_step K (PRecv u fd room) b = Some (snd (ep_submit_recv K u fd room b))"
| "ep_step K (PSendv u fd iov) b = Some (snd (ep_submit_sendv K u fd iov b))"
| "ep_step K (PAccept u fd) b = Some (snd (ep_submit_accept K u fd b))"
| "ep_step K (PConnect u fd) b = Some (snd (ep_submit_connect K u fd b))"
| "ep_step K (PCancel u) b = Some (ep_cancel u b)"
| "ep_step K (PStamping fd v) b = Some (ep_set_timestamping fd v b)"
| "ep_step K (PInbox fd i) b = Some (ep_set_fd_inbox fd i b)"
| "ep_step K (PWait cap t) b = ep_wait K cap t b"
| "ep_step K PWake b = Some (ep_wake b)"

fun ep_run :: "kernel \<Rightarrow> ep_op list \<Rightarrow> epoll \<Rightarrow> epoll option" where
  "ep_run K [] b = Some b"
| "ep_run K (op # ops) b = Option.bind (ep_step K op b) (ep_run K ops)"

fun submits :: "int \<Rightarrow> ep_op \<Rightarrow> byte list" where
  "submits fd (PSendv u g iov) = (if g = fd then concat iov else [])"
| "submits fd _ = []"

text \<open>The sends on the descriptor carry the tag \<open>u\<close>, and neither the tag is cancelled nor the descriptor detached.\<close>

fun undisturbed :: "u64 \<Rightarrow> int \<Rightarrow> ep_op \<Rightarrow> bool" where
  "undisturbed u fd (PSendv v g _) \<longleftrightarrow> (g = fd \<longrightarrow> v = u)"
| "undisturbed u fd (PCancel v) \<longleftrightarrow> v \<noteq> u"
| "undisturbed u fd (PDetach g) \<longleftrightarrow> g \<noteq> fd"
| "undisturbed u fd _ \<longleftrightarrow> True"

definition tagged :: "u64 \<Rightarrow> int \<Rightarrow> epoll \<Rightarrow> bool" where
  "tagged u fd b \<longleftrightarrow> rq_ud ` set (sq fd b) \<subseteq> {u}"

lemma queue_completions:
  "(queue_completion v r ^^ n) b = b\<lparr>ep_ready := ep_ready b @ replicate n (cp_empty\<lparr>cp_user := v, cp_result := r\<rparr>)\<rparr>"
  by (induction n arbitrary: b) (simp_all add: queue_completion_def replicate_append_same)

lemma still_cancel_at:
  assumes "tagged u fd b" "v \<noteq> u"
  shows "still fd b (cancel_at v g b)"
proof -
  have "filter (\<lambda>q. rq_ud q \<noteq> v) (sq fd b) = sq fd b" using assms by (auto simp: tagged_def filter_id_conv)
  then show ?thesis by (auto simp: cancel_at_def Let_def still_def queue_completions sq_def)
qed

lemma still_cancel:
  assumes "tagged u fd b" "v \<noteq> u"
  shows "still fd b (ep_cancel v b)"
proof -
  have "still fd c (fold (cancel_at v) gs c)" if "tagged u fd c" for gs c
    using that
  proof (induction gs arbitrary: c)
    case (Cons g gs)
    have s: "still fd c (cancel_at v g c)" by (rule still_cancel_at [OF Cons.prems assms(2)])
    then have "tagged u fd (cancel_at v g c)" using Cons.prems by (simp add: tagged_def still_def)
    then show ?case using still_trans [OF s Cons.IH] by simp
  qed simp
  then show ?thesis using assms(1) by (simp add: ep_cancel_def)
qed

lemma still_detach: "g \<noteq> fd \<Longrightarrow> still fd b (ep_detach g b)"
  by (auto simp: ep_detach_def still_def wire_def sq_def ef_at_def delete_conv' ep_say_def split: option.splits)

lemma still_submits:
  "still fd b (snd (ep_attach K g i u b))" "still fd b (snd (ep_modify g i u b))" "still fd b (snd (ep_submit_recv K u g room b))"
  "still fd b (snd (ep_submit_accept K u g b))" "still fd b (snd (ep_submit_connect K u g b))"
  "still fd b (ep_set_timestamping g v b)" "still fd b (ep_set_fd_inbox g x b)" "still fd b (ep_wake b)"
proof -
  have put: "still fd b (ef_put g s b)" if "ef_sendq s = ef_sendq (ef_at g b)" for s b
    using that by (auto simp: still_def sq_def)
  have reg: "still fd b (snd (register_update K g (ef_put g s b)))" if "ef_sendq s = ef_sendq (ef_at g b)" for s b
    using still_trans [OF put [OF that] still_register] .
  show "still fd b (snd (ep_attach K g i u b))" "still fd b (snd (ep_submit_accept K u g b))"
    by (simp_all add: ep_attach_def ep_submit_accept_def reg)
  show "still fd b (snd (ep_submit_recv K u g room b))" by (simp add: ep_submit_recv_def Let_def reg put)
  show "still fd b (ep_set_timestamping g v b)" "still fd b (ep_set_fd_inbox g x b)"
    by (simp_all add: ep_set_timestamping_def ep_set_fd_inbox_def put)
  show "still fd b (ep_wake b)" by (simp add: ep_wake_def still_def)
  show "still fd b (snd (ep_modify g i u b))"
    by (auto simp: ep_modify_def still_def sq_def ef_at_def [of g b] split: option.splits)
  let ?b = "ep_say [] (ef_put g (ef_at g b) b)"
  have "still fd b ?b" by (simp add: still_def sq_def)
  moreover have "still fd ?b (snd (ep_submit_connect K u g b))"
    using reg [of "(ef_at g ?b)\<lparr>ef_connect_pending := True, ef_connect_ud := u\<rparr>" ?b]
    by (auto simp: ep_submit_connect_def Let_def still_def)
  ultimately show "still fd b (snd (ep_submit_connect K u g b))" by (rule still_trans)
qed

lemma step_stream:
  assumes "ep_step K op b = Some b'" "calm_kernel K fd" "tagged u fd b" "undisturbed u fd op"
  shows "stream fd b' = stream fd b @ submits fd op \<and> tagged u fd b'"
proof -
  have fl: ?thesis if "flowing fd b b'" "submits fd op = []"
    using that assms(3) unfolding flowing_def tagged_def by (elim conjE, intro conjI) (simp, erule (1) subset_trans)
  show ?thesis
  proof (cases op)
    case (PSendv v g iov)
    then have "submitted fd (if g = fd then {v} else {}) (submits fd op) b b'"
      using assms(1) submit_sends [OF assms(2), of g v iov b] by simp
    then show ?thesis using assms(3,4) PSendv by (cases "g = fd") (simp_all add: submitted_def tagged_def, blast+)
  next
    case (PWait cap t)
    then show ?thesis using fl flowing_wait assms(1,2) by simp
  next
    case (PDetach g)
    then show ?thesis using fl still_flowing [OF still_detach] assms(1,4) by auto
  next
    case (PCancel v)
    then show ?thesis using fl still_flowing [OF still_cancel [OF assms(3)]] assms(1,4) by auto
  qed (use fl still_flowing [OF still_submits(1)] still_flowing [OF still_submits(2)] still_flowing [OF still_submits(3)]
        still_flowing [OF still_submits(4)] still_flowing [OF still_submits(5)] still_flowing [OF still_submits(6)]
        still_flowing [OF still_submits(7)] still_flowing [OF still_submits(8)] assms(1) in auto)
qed


section \<open>Every run returns\<close>

definition sound :: "epoll \<Rightarrow> bool" where
  "sound b \<longleftrightarrow> offsets_ok b \<and> length (ep_out b) \<le> ep_cap b"

definition same_span :: "epoll \<Rightarrow> epoll \<Rightarrow> bool" where
  "same_span b b' \<longleftrightarrow> ep_out b' = ep_out b \<and> ep_cap b' = ep_cap b"

lemma register_span: "same_span b (snd (register_update K g b))"
  by (auto simp: same_span_def register_update_def ensure_registered_def Let_def split: option.splits)

lemma submit_span:
  "same_span b (snd (ep_attach K g i u b))" "same_span b (snd (ep_modify g i u b))" "same_span b (ep_detach g b)"
  "same_span b (snd (ep_submit_recv K u g room b))" "same_span b (snd (ep_submit_accept K u g b))"
  "same_span b (snd (ep_submit_connect K u g b))" "same_span b (ep_set_timestamping g v b)" "same_span b (ep_set_fd_inbox g x b)"
  "same_span b (ep_wake b)" "same_span b (snd (ep_submit_sendv K u g iov b))"
  using register_span [of _ K g]
  by (auto simp: ep_attach_def ep_modify_def ep_detach_def ep_submit_recv_def ep_submit_accept_def ep_submit_connect_def
      ep_set_timestamping_def ep_set_fd_inbox_def ep_wake_def ep_submit_sendv_def call_send_def push_send_def queue_completion_def
      Let_def same_span_def split: option.splits)

lemma cancel_span: "same_span b (ep_cancel u b)"
proof -
  have "same_span c (fold (cancel_at u) gs c)" for gs c
    by (induction gs arbitrary: c) (simp_all add: same_span_def cancel_at_def Let_def queue_completions)
  then show ?thesis by (simp add: ep_cancel_def)
qed

text \<open>What a submit, a cancel and a detach do to the queues.\<close>

lemma sendv_offsets:
  assumes "offsets_ok b"
  shows "offsets_ok (snd (ep_submit_sendv K u g iov b))"
proof -
  have push: "offsets_ok (push_send u g bs c)" if "offsets_ok c" for bs c
    using that by (auto simp: offsets_ok_def push_send_def sq_def)
  have upd: "offsets_ok (update_events g c)" "offsets_ok (queue_completion v r c)" "offsets_ok (ep_say cs c)" "offsets_ok (ef_put g (ef_at g c) c)"
    if "offsets_ok c" for c v r cs
    using that by (simp_all add: offsets_ok_def sq_def)
  have reg: "offsets_ok (snd (register_update K g c))" if "offsets_ok c" for c
    by (rule offsets_still [OF that still_register])
  show ?thesis using assms by (simp add: ep_submit_sendv_def Let_def call_send_def push upd reg)
qed

lemma cancel_offsets: "offsets_ok b \<Longrightarrow> offsets_ok (ep_cancel u b)"
proof -
  have one: "offsets_ok (cancel_at u g c)" if "offsets_ok c" for g c
    using that by (auto simp: offsets_ok_def cancel_at_def Let_def queue_completions sq_def)
  have "offsets_ok (fold (cancel_at u) gs c)" if "offsets_ok c" for gs c
    using that by (induction gs arbitrary: c) (simp_all add: one)
  then show "offsets_ok b \<Longrightarrow> offsets_ok (ep_cancel u b)" by (simp add: ep_cancel_def)
qed

lemma detach_offsets: "offsets_ok b \<Longrightarrow> offsets_ok (ep_detach g b)"
  by (auto simp: offsets_ok_def ep_detach_def sq_def ef_at_def delete_conv' ef_new_def split: option.splits if_splits)

lemma step_sound:
  assumes "prompt K" "sound b"
  shows "\<exists>b'. ep_step K op b = Some b' \<and> sound b'"
proof -
  have keep: "sound b'" if "same_span b b'" "offsets_ok b'" for b' using that assms(2) by (simp add: sound_def same_span_def)
  have off: "offsets_ok b" using assms(2) by (simp add: sound_def)
  note still = offsets_still [OF off]
  show ?thesis
  proof (cases op)
    case (PWait cap t)
    obtain b' where "ep_wait K cap t b = Some b'" "offsets_ok b'" "ep_cap b' = cap" "length (ep_out b') \<le> cap"
      using wait_ends [OF assms(1) off] by blast
    then show ?thesis using PWait by (simp add: sound_def)
  qed (simp_all add: keep submit_span cancel_span sendv_offsets [OF off] cancel_offsets [OF off] detach_offsets [OF off]
      still [OF still_submits(1)] still [OF still_submits(2)] still [OF still_submits(3)] still [OF still_submits(4)]
      still [OF still_submits(5)] still [OF still_submits(6)] still [OF still_submits(7)] still [OF still_submits(8)])
qed

lemma run_sound:
  assumes "prompt K"
  shows "sound b \<Longrightarrow> \<exists>b'. ep_run K ops b = Some b' \<and> sound b'"
proof (induction ops arbitrary: b)
  case (Cons op ops)
  obtain d where "ep_step K op b = Some d" "sound d" using step_sound [OF assms Cons.prems] by blast
  then show ?case using Cons.IH by simp
qed simp

lemma sound_new: "sound (ep_new wfd)"
  by (simp add: sound_def offsets_ok_def sq_def ef_at_def ep_new_def ef_new_def)


section \<open>What the emulation loses\<close>

lemma res32_small: "n < 2 ^ 31 \<Longrightarrow> res32 n = int n"
  by (simp add: res32_def signed_of_nat signed_take_bit_int_eq_self)

text \<open>
  C38: A send that the kernel takes in two parts is reported with the length of its second part, so the
  connection sends its last bytes again. When the first attempt takes \<open>w\<close> bytes and the next readiness
  takes the rest, every byte is on the wire, the completion carries the length less \<open>w\<close>, and the
  connection that receives it keeps the last \<open>w\<close> bytes, already sent, in its queue.
\<close>

theorem epoll_partial_send_repeats:
  assumes "sq fd b = []" "ef_registered (ef_at fd b)" "\<not> ef_connect_pending (ef_at fd b)" "ef_interest (ef_at fd b) = i_none"
    and "length (ep_out b) < ep_cap b" "0 < w" "w < length bs" "length bs < 2 ^ 31"
    and "ke_send K (ep_n b) fd bs = int w" "\<forall>i. ke_send K i fd (drop w bs) = int (length (drop w bs))"
    and "conn_wf c" "wq c = bs" "on_writable H = None" "cn_coro c = no_coro" "on_sent H (int (length bs - w)) c = Some c'"
  shows "\<exists>b1 b2. ep_submit_send K u fd bs b = (EpOk, b1) \<and> ep_on_writable K fd b1 = Some b2 \<and> wire fd b2 = wire fd b @ bs \<and>
    ep_out b2 = ep_out b @ [cp_empty\<lparr>cp_user := u, cp_result := int (length bs - w)\<rparr>] \<and>
    wq c' = drop (length bs - w) bs \<and> wq c' \<noteq> []"
proof -
  define s where "s = ef_at fd b"
  define q where "q = \<lparr>rq_ud = u, rq_bytes = drop w bs, rq_off = 0\<rparr>"
  let ?b0 = "ep_say [SentBytes fd (take w bs)] (ef_put fd s b)"
  define b1 where "b1 = update_events fd (ef_put fd (s\<lparr>ef_sendq := [q]\<rparr>) ?b0)"
  have s: "ef_sendq s = []" "ef_registered s" "\<not> ef_connect_pending s" "ef_interest s = i_none"
    using assms(1-4) by (simp_all add: s_def sq_def)
  have submit: "ep_submit_send K u fd bs b = (EpOk, b1)"
    using s assms(6,7,9) by (simp add: ep_submit_send_def ep_submit_sendv_def call_send_def register_update_def push_send_def
        Let_def s_def [symmetric] b1_def q_def)
  have b1: "ef_at fd b1 = s\<lparr>ef_sendq := [q]\<rparr>" "ep_out b1 = ep_out b" "ep_cap b1 = ep_cap b" "wire fd b1 = wire fd b @ take w bs"
    by (simp_all add: b1_def)
  define b2 where "b2 = ef_put fd (s\<lparr>ef_sendq := [q\<lparr>rq_off := length bs - w\<rparr>]\<rparr>) (ep_say [SentBytes fd (drop w bs)] b1)"
  let ?b3 = "finish_send fd (res32 (length bs - w)) b2"
  have b2: "ef_at fd b2 = s\<lparr>ef_sendq := [q\<lparr>rq_off := length bs - w\<rparr>]\<rparr>" by (simp add: b2_def)
  have empty: "send_loop K fd ?b3 = Some ?b3" by (subst send_loop.simps) (simp add: finish_send_def Let_def b2)
  have "send_loop K fd b1 = Some ?b3"
    using assms(10) empty by (subst send_loop.simps) (simp add: b1 q_def call_send_def Let_def b2_def)
  then have "ep_on_writable K fd b1 = Some ?b3"
    using s b1(1) by (simp add: ep_on_writable_def Let_def finish_send_def b2 i_has_def i_none_def)
  moreover have "wire fd ?b3 = wire fd b @ bs" using b1(4) by (simp add: finish_send_def Let_def b2_def)
  moreover have "ep_out ?b3 = ep_out b @ [cp_empty\<lparr>cp_user := u, cp_result := int (length bs - w)\<rparr>]"
    using assms(5,8) b1(2,3) by (simp add: finish_send_def Let_def b2 b2_def q_def res32_small)
  moreover have "wq c' = drop (length bs - w) bs" "wq c' \<noteq> []"
    using on_sent_queue(1) [OF assms(15,13,14,11)] assms(6,7,12) by simp_all
  ultimately show ?thesis using submit by blast
qed

text \<open>What was read from a descriptor.\<close>

fun got_on :: "int \<Rightarrow> ep_call \<Rightarrow> byte list" where
  "got_on fd (GotBytes g bs) = (if g = fd then bs else [])"
| "got_on fd _ = []"

definition received :: "int \<Rightarrow> epoll \<Rightarrow> byte list" where
  "received fd b = concat (map (got_on fd) (ep_calls b))"

text \<open>
  Bytes that arrive together with the end of the stream are not read. When an event says both that
  there is something to read and that the peer has closed, the pending receive is completed with 0, the end
  of the stream, and nothing is read.
\<close>

theorem hangup_discards_unread:
  assumes "ef_recv_armed (ef_at fd b)" "\<not> ef_accept_armed (ef_at fd b)" "ef_interest (ef_at fd b) = i_none"
    and "ke_sockerr K (ep_n b) fd = 0" "length (ep_out b) < ep_cap b"
  shows "\<exists>b'. dispatch_event K fd (EPOLLIN OR EPOLLRDHUP) b = Some b' \<and> received fd b' = received fd b \<and>
    ep_out b' = ep_out b @ [cp_empty\<lparr>cp_user := ef_recv_ud (ef_at fd b), cp_result := 0\<rparr>]"
proof -
  let ?b = "ep_on_errorish K fd (EPOLLIN OR EPOLLRDHUP) b"
  have bits: "(EPOLLIN OR EPOLLRDHUP) AND (EPOLLERR OR EPOLLHUP OR EPOLLRDHUP) \<noteq> 0" "(EPOLLIN OR EPOLLRDHUP) AND EPOLLIN \<noteq> 0"
    "(EPOLLIN OR EPOLLRDHUP) AND EPOLLOUT = 0"
    by (simp_all add: EPOLLIN_def EPOLLRDHUP_def EPOLLERR_def EPOLLHUP_def EPOLLOUT_def)
  have "ep_on_readable K fd ?b = Some ?b"
    using assms by (simp add: ep_on_readable_def ep_on_errorish_def Let_def i_has_def i_none_def)
  then have "dispatch_event K fd (EPOLLIN OR EPOLLRDHUP) b = Some ?b" using bits by (simp add: dispatch_event_def)
  moreover have "received fd ?b = received fd b"
    using assms(1) by (simp add: ep_on_errorish_def Let_def received_def give_def update_events_def ep_say_def)
  moreover have "ep_out ?b = ep_out b @ [cp_empty\<lparr>cp_user := ef_recv_ud (ef_at fd b), cp_result := 0\<rparr>]"
    using assms by (simp add: ep_on_errorish_def Let_def)
  ultimately show ?thesis by blast
qed

text \<open>
  A completion without room is lost. When a descriptor is both readable and writable and the span has
  one place left, the receive takes it; the send that finishes in the same event is taken off its queue
  and reported neither in the span nor among the completions kept for the next wait.
\<close>

theorem full_span_loses_send:
  assumes "ef_recv_armed (ef_at fd b)" "\<not> ef_accept_armed (ef_at fd b)" "ef_interest (ef_at fd b) = i_none"
    and "\<not> ef_connect_pending (ef_at fd b)" "\<not> want_msg K (ef_at fd b)" "sq fd b = [q]" "rq_off q = 0"
    and "ke_recv K (ep_n b) fd (ef_recv_room (ef_at fd b)) = Inr m" "length (rx_bytes m) = ef_recv_room (ef_at fd b)" "rx_bytes m \<noteq> []"
    and "ef_recv_room (ef_at fd b) < 2 ^ 31"
    and "\<forall>i. ke_send K i fd (rq_bytes q) = int (length (rq_bytes q))" "Suc (length (ep_out b)) = ep_cap b"
  shows "\<exists>b'. dispatch_event K fd (EPOLLIN OR EPOLLOUT) b = Some b' \<and> sq fd b' = [] \<and> ep_ready b' = ep_ready b \<and>
    ep_out b' = ep_out b @ [cp_empty\<lparr>cp_user := ef_recv_ud (ef_at fd b), cp_result := int (ef_recv_room (ef_at fd b))\<rparr>]"
proof -
  define s where "s = ef_at fd b"
  define r where "r = ef_recv_room s"
  let ?a = "ra_new\<lparr>ra_total := r\<rparr>"
  let ?b1 = "ep_say [GotBytes fd (rx_bytes m)] b"
  let ?b2 = "finish_recv fd (int r) ?a ?b1"
  have s: "ef_recv_armed s" "\<not> ef_accept_armed s" "ef_interest s = i_none" "\<not> ef_connect_pending s" "ef_sendq s = [q]" "ef_inbox s = None"
    using assms(1-6) by (simp_all add: s_def sq_def want_msg_def)
  have r: "length (rx_bytes m) = r" "r < 2 ^ 31" using assms(9,11) by (simp_all add: r_def s_def)
  have "0 < r" using r(1) assms(10) by (metis length_greater_0_conv)
  have full: "recv_loop K fd ?a ?b1 = Some (int r, ?a, ?b1)"
    using r(2) by (subst recv_loop.simps) (simp add: r_def s_def res32_small Let_def)
  have "recv_loop K fd ra_new b = Some (int r, ?a, ?b1)"
    using assms(5,8,10) r \<open>0 < r\<close> full by (subst recv_loop.simps) (simp add: s_def [symmetric] r_def [symmetric] Let_def ra_new_def)
  then have readable: "ep_on_readable K fd b = Some ?b2"
    using s \<open>0 < r\<close> by (simp add: ep_on_readable_def Let_def s_def [symmetric] i_has_def i_none_def EAGAIN_def)
  have b2: "ef_at fd ?b2 = s\<lparr>ef_recv_armed := False\<rparr>" "ep_cap ?b2 = ep_cap b" "ep_ready ?b2 = ep_ready b"
    "ep_out ?b2 = ep_out b @ [cp_empty\<lparr>cp_user := ef_recv_ud s, cp_result := int r\<rparr>]"
    using assms(13) s(6) by (simp_all add: finish_recv_def Let_def s_def [symmetric] ra_new_def cp_empty_def update_events_def give_def)
  define b3 where "b3 = ef_put fd (s\<lparr>ef_recv_armed := False, ef_sendq := [q\<lparr>rq_off := length (rq_bytes q)\<rparr>]\<rparr>)
    (ep_say [SentBytes fd (rq_bytes q)] ?b2)"
  let ?b4 = "finish_send fd (res32 (length (rq_bytes q))) b3"
  have b3: "ef_at fd b3 = s\<lparr>ef_recv_armed := False, ef_sendq := [q\<lparr>rq_off := length (rq_bytes q)\<rparr>]\<rparr>" by (simp add: b3_def)
  have b4: "sq fd ?b4 = []" "ef_interest (ef_at fd ?b4) = i_none" by (simp_all add: finish_send_def Let_def b3 s(3))
  then have empty: "send_loop K fd ?b4 = Some ?b4" by (subst send_loop.simps) (simp add: sq_def)
  have "send_loop K fd ?b2 = Some ?b4"
    using assms(7,12) empty s(5) by (subst send_loop.simps) (simp add: b2(1) call_send_def Let_def b3_def)
  then have writable: "ep_on_writable K fd ?b2 = Some ?b4"
    using s(4) b2(1) b4(2) by (simp add: ep_on_writable_def Let_def i_has_def i_none_def)
  have "(EPOLLIN OR EPOLLOUT) AND (EPOLLERR OR EPOLLHUP OR EPOLLRDHUP) = 0" "(EPOLLIN OR EPOLLOUT) AND EPOLLIN \<noteq> 0"
    "(EPOLLIN OR EPOLLOUT) AND EPOLLOUT \<noteq> 0"
    by (simp_all add: EPOLLIN_def EPOLLRDHUP_def EPOLLERR_def EPOLLHUP_def EPOLLOUT_def)
  then have "dispatch_event K fd (EPOLLIN OR EPOLLOUT) b = Some ?b4"
    using readable writable by (simp add: dispatch_event_def)
  moreover have "ep_ready ?b4 = ep_ready b" "ep_out ?b4 = ep_out ?b2"
    using assms(13) b2 by (simp_all add: finish_send_def Let_def b3_def update_events_def give_def)
  ultimately show ?thesis using b2(4) b4(1) by (simp add: s_def r_def)
qed

text \<open>
  An event kept for a descriptor outlives it: a hangup that found no room is delivered to the receive of
  the next user of the number, which sees the end of its stream.
\<close>

theorem kept_event_ends_new_stream:
  assumes "ep_pending b = [(fd, EPOLLHUP)]" "ep_ready b = []" "0 < cap" "\<forall>i. ke_add K i fd = 0" "\<forall>i. ke_sockerr K i fd = 0"
  shows "\<exists>b'. pending_loop K (wait_start cap (snd (ep_submit_recv K u fd room (ep_detach fd b)))) = Some b' \<and>
    ep_out b' = [cp_empty\<lparr>cp_user := u, cp_result := 0\<rparr>]"
proof -
  define d where "d = ep_detach fd b"
  have d: "ef_at fd d = ef_new" "ep_pending d = [(fd, EPOLLHUP)]" "ep_ready d = []"
    using assms(1,2) by (auto simp: d_def ep_detach_def ef_at_def delete_conv' split: option.splits)
  define b1 where "b1 = wait_start cap (snd (ep_submit_recv K u fd room d))"
  have b1: "ef_at fd b1 = ef_new\<lparr>ef_recv_armed := True, ef_recv_ud := u, ef_recv_room := room, ef_registered := True\<rparr>"
    "ep_pending b1 = [(fd, EPOLLHUP)]" "ep_out b1 = []" "ep_cap b1 = cap"
    using d assms(4) by (simp_all add: b1_def wait_start_def ep_submit_recv_def register_update_def ensure_registered_def Let_def
        ef_new_def update_events_def)
  then have known: "map_of (ep_fds b1) fd \<noteq> None" by (auto simp: ef_at_def ef_new_def split: option.splits)
  let ?b = "b1\<lparr>ep_pending := []\<rparr>"
  let ?e = "ep_on_errorish K fd EPOLLHUP ?b"
  have e: "ep_out ?e = [cp_empty\<lparr>cp_user := u, cp_result := 0\<rparr>]" "ep_pending ?e = []"
    using b1 assms(3,5) by (simp_all add: ep_on_errorish_def Let_def)
  have "EPOLLHUP AND (EPOLLERR OR EPOLLHUP OR EPOLLRDHUP) \<noteq> 0" "EPOLLHUP AND EPOLLIN = 0" "EPOLLHUP AND EPOLLOUT = 0"
    by (simp_all add: EPOLLIN_def EPOLLRDHUP_def EPOLLERR_def EPOLLHUP_def EPOLLOUT_def)
  then have "dispatch_event K fd EPOLLHUP ?b = Some ?e" by (simp add: dispatch_event_def)
  moreover have "pending_loop K ?e = Some ?e" using e by (subst pending_loop.simps) simp
  ultimately have "pending_loop K b1 = Some ?e" using b1 assms(3) known by (subst pending_loop.simps) (auto simp: Let_def)
  then show ?thesis using e(1) unfolding b1_def d_def by blast
qed

section \<open>Witnesses\<close>

text \<open>A kernel that takes everything, and one that takes two bytes of a longer first offer.\<close>

definition full_kernel :: kernel where
  "full_kernel = \<lparr>ke_send = (\<lambda>_ _ bs. int (length bs)), ke_recv = (\<lambda>_ _ _. Inl EAGAIN), ke_accept = (\<lambda>_ _. - EAGAIN),
     ke_connect = (\<lambda>_ _. 0), ke_sockerr = (\<lambda>_ _. 0), ke_add = (\<lambda>_ _. 0), ke_poll = (\<lambda>_. Inr [(4, EPOLLOUT)]), ke_stamping = False\<rparr>"

definition slow_kernel :: kernel where
  "slow_kernel = full_kernel\<lparr>ke_send := (\<lambda>_ _ bs. if 3 \<le> length bs then 2 else int (length bs))\<rparr>"

definition sample_ops :: "ep_op list" where
  "sample_ops = [PSendv 7 4 [[1, 2], [3]], PSendv 7 4 [[4]], PWait 8 0, PSendv 7 4 [[5, 6]]]"

lemma sample_calm: "calm_kernel slow_kernel 4" "prompt slow_kernel"
  by (simp_all add: calm_kernel_def prompt_def slow_kernel_def full_kernel_def EAGAIN_def EINTR_def)



definition sample_epoll :: epoll where
  "sample_epoll = (ef_put 4 (ef_new\<lparr>ef_registered := True\<rparr>) (ep_new 3))\<lparr>ep_cap := 1\<rparr>"

theorem epoll_partial_send_repeats_witness:
  "\<exists>b1 b2 c'. ep_submit_send slow_kernel 7 4 [1, 2, 3] sample_epoll = (EpOk, b1) \<and> ep_on_writable slow_kernel 4 b1 = Some b2 \<and>
     wire 4 b2 = [1, 2, 3] \<and> ep_out b2 = [cp_empty\<lparr>cp_user := 7, cp_result := 1\<rparr>] \<and>
     on_sent plain_handlers 1 ((sample_conn DropNewest [1, 2, 3])\<lparr>cn_write_inflight := 3\<rparr>) = Some c' \<and> wq c' = [2, 3]"
proof -
  let ?c = "(sample_conn DropNewest [1, 2, 3])\<lparr>cn_write_inflight := 3\<rparr>"
  have wf: "conn_wf ?c" using sample_conn_wf [of "[1, 2, 3]" DropNewest] by (simp add: conn_wf_def)
  have "on_sent plain_handlers 1 ?c \<noteq> None" by (simp add: on_sent_def write_drained_def sample_defs Let_def)
  then obtain c' where c': "on_sent plain_handlers 1 ?c = Some c'" by blast
  let ?bs = "[1, 2, 3] :: byte list"
  have "\<exists>b1 b2. ep_submit_send slow_kernel 7 4 ?bs sample_epoll = (EpOk, b1) \<and> ep_on_writable slow_kernel 4 b1 = Some b2 \<and>
      wire 4 b2 = wire 4 sample_epoll @ ?bs \<and> ep_out b2 = ep_out sample_epoll @ [cp_empty\<lparr>cp_user := 7, cp_result := int (length ?bs - 2)\<rparr>] \<and>
      wq c' = drop (length ?bs - 2) ?bs \<and> wq c' \<noteq> []"
    by (rule epoll_partial_send_repeats [where w = 2 and H = plain_handlers and c = ?c])
      (use wf c' in \<open>simp_all add: sample_epoll_def sq_def ef_new_def ep_new_def slow_kernel_def full_kernel_def sample_defs\<close>)
  moreover have "wire 4 sample_epoll = []" "ep_out sample_epoll = []" by (simp_all add: sample_epoll_def wire_def ep_new_def)
  ultimately show ?thesis using c' by auto
qed

theorem hangup_discards_unread_witness:
  "\<exists>b'. dispatch_event full_kernel 4 (EPOLLIN OR EPOLLRDHUP)
       ((ef_put 4 (ef_new\<lparr>ef_registered := True, ef_recv_armed := True, ef_recv_ud := 9\<rparr>) (ep_new 3))\<lparr>ep_cap := 1\<rparr>) = Some b' \<and>
     received 4 b' = [] \<and> ep_out b' = [cp_empty\<lparr>cp_user := 9, cp_result := 0\<rparr>]"
proof -
  let ?b = "(ef_put 4 (ef_new\<lparr>ef_registered := True, ef_recv_armed := True, ef_recv_ud := 9\<rparr>) (ep_new 3))\<lparr>ep_cap := 1\<rparr>"
  have "received 4 ?b = []" "ep_out ?b = []" by (simp_all add: received_def ep_new_def)
  then show ?thesis using hangup_discards_unread [of 4 ?b full_kernel] by (simp add: ef_new_def full_kernel_def ep_new_def)
qed

definition reading_kernel :: kernel where
  "reading_kernel = full_kernel\<lparr>ke_recv := (\<lambda>_ _ n. Inr \<lparr>rx_bytes = replicate n 1, rx_cmsgs = [], rx_ctrunc = False, rx_rights = []\<rparr>)\<rparr>"

theorem full_span_loses_send_witness:
  "\<exists>b'. dispatch_event reading_kernel 4 (EPOLLIN OR EPOLLOUT)
       ((ef_put 4 (ef_new\<lparr>ef_registered := True, ef_recv_armed := True, ef_recv_ud := 9, ef_recv_room := 2,
            ef_sendq := [\<lparr>rq_ud = 7, rq_bytes = [5], rq_off = 0\<rparr>]\<rparr>) (ep_new 3))\<lparr>ep_cap := 1\<rparr>) = Some b' \<and>
     sq 4 b' = [] \<and> ep_ready b' = [] \<and> ep_out b' = [cp_empty\<lparr>cp_user := 9, cp_result := 2\<rparr>]"
proof -
  let ?b = "(ef_put 4 (ef_new\<lparr>ef_registered := True, ef_recv_armed := True, ef_recv_ud := 9, ef_recv_room := 2,
            ef_sendq := [\<lparr>rq_ud = 7, rq_bytes = [5], rq_off = 0\<rparr>]\<rparr>) (ep_new 3))\<lparr>ep_cap := 1\<rparr>"
  have "ep_ready ?b = []" "ep_out ?b = []" "replicate 2 (1 :: byte) = [1, 1]" by (simp_all add: ep_new_def numeral_2_eq_2)
  then show ?thesis
    using full_span_loses_send [of 4 ?b reading_kernel "\<lparr>rq_ud = 7, rq_bytes = [5], rq_off = 0\<rparr>"
        "\<lparr>rx_bytes = [1, 1], rx_cmsgs = [], rx_ctrunc = False, rx_rights = []\<rparr>"]
    by (simp add: ef_new_def reading_kernel_def full_kernel_def ep_new_def sq_def want_msg_def)
qed

end
