(* ===== verification/Coro_Combine.thy ===== *)
theory Coro_Combine
  imports Work_Context
begin

text \<open>
  The task combinators of \<open>include/afx/coro/combine.hpp\<close> over the promise of
  \<open>include/afx/coro/task.hpp\<close>: \<open>when_all\<close>, \<open>when_any\<close> and \<open>with_timeout\<close>.  A child coroutine is
  the part of its promise the combinators read and write, together with what its body does the
  first time it is resumed.  A combinator object lives in the frame of the awaiting coroutine:
  when the parent is resumed it evaluates \<open>await_resume\<close> and drops the object at the end of the
  full expression, so \<open>fa_alive\<close> becomes false there, and a later access to a member through the
  stale pointer has the value \<^const>\<open>None\<close>.
\<close>

section \<open>Children\<close>

text \<open>What a child leaves in its \<open>TaskStorage\<close>: the returned value or the stored exception.\<close>

datatype 'v co_outcome = Value 'v | Threw

text \<open>
  The \<open>cancel_fn\<close> of the awaiter a child is parked at: none, one that resumes the child so that
  it runs to its final suspension with the given outcome, or one after which it stays parked.
\<close>

datatype 'v thunk = NoThunk | Unwinds "'v co_outcome" | Keeps

record 'v child =
  ch_ctx :: context_t
  ch_stopped :: bool
  ch_started :: bool
  ch_thunk :: "'v thunk"
  ch_result :: "'v co_outcome option"
  ch_runs :: "bool \<Rightarrow> 'v co_outcome + 'v thunk"

definition fresh_child :: "'v child \<Rightarrow> bool" where
  "fresh_child c \<longleftrightarrow> \<not> ch_started c \<and> ch_thunk c = NoThunk \<and> ch_result c = None"

definition child_done :: "'v child \<Rightarrow> bool" where
  "child_done c \<longleftrightarrow> ch_result c \<noteq> None"

text \<open>\<open>PromiseBase::request_stop\<close> up to the call of the thunk, and a child's final suspension.\<close>

definition mark_stopped :: "'v child \<Rightarrow> 'v child" where
  "mark_stopped c = c\<lparr>ch_stopped := True, ch_thunk := NoThunk\<rparr>"

definition finish_with :: "'v co_outcome \<Rightarrow> 'v child \<Rightarrow> 'v child" where
  "finish_with r c = c\<lparr>ch_thunk := NoThunk, ch_result := Some r\<rparr>"

text \<open>The inheritance of the parent's context, the same lines in the three combinators.\<close>

definition inherit :: "context_t \<Rightarrow> context_t \<Rightarrow> context_t" where
  "inherit parent own =
     own\<lparr>cx_trace := cx_trace parent,
         cx_deadline := earliest_of (cx_deadline parent) (cx_deadline own),
         cx_stop := (if cx_stop parent \<noteq> None then cx_stop parent else cx_stop own)\<rparr>"

definition adopt_child :: "context_t \<Rightarrow> bool \<Rightarrow> 'v child \<Rightarrow> 'v child" where
  "adopt_child ctx stopped c =
     c\<lparr>ch_ctx := inherit ctx (ch_ctx c), ch_stopped := ch_stopped c \<or> stopped, ch_started := True\<rparr>"

section \<open>The object shared by when\_all and when\_any\<close>

datatype 'v awaited = Cancelled | Expired | Rethrown | Collected "'v list" | Winner nat 'v

text \<open>
  \<open>fa_returned\<close> lists what \<open>await_resume\<close> gave the parent, one entry per resumption;
  \<open>fa_parent_cancel\<close> tells whether the parent's \<open>cancel_fn\<close> points to this object.
\<close>

record 'v fan_op =
  fa_tasks :: "'v child list"
  fa_ctx :: context_t
  fa_flags :: stop_flags
  fa_parent_stopped :: bool
  fa_parent_cancel :: bool
  fa_suspended :: bool
  fa_wake :: bool
  fa_dead :: bool
  fa_alive :: bool
  fa_returned :: "'v awaited list"

record 'v when_all_op = "'v fan_op" +
  wa_remaining :: nat

record 'v when_any_op = "'v fan_op" +
  wn_winner :: nat
  wn_won :: bool

definition on_child :: "nat \<Rightarrow> ('v child \<Rightarrow> 'v child) \<Rightarrow> ('v, 'a) fan_op_scheme \<Rightarrow> ('v, 'a) fan_op_scheme" where
  "on_child i f s = s\<lparr>fa_tasks := (fa_tasks s)[i := f (fa_tasks s ! i)]\<rparr>"

definition parent_stop_requested :: "('v, 'a) fan_op_scheme \<Rightarrow> bool" where
  "parent_stop_requested s \<longleftrightarrow> fa_parent_stopped s \<or> stop_requested (fa_flags s) (cx_stop (fa_ctx s))"

text \<open>
  \<open>request_stop\<close> on child \<open>i\<close>: reaching the child reads \<open>tasks_\<close>.  The argument is the
  combinator's \<open>done_fn\<close>, called when the child unwinds to its final suspension.
\<close>

definition request_stop ::
  "(nat \<Rightarrow> ('v, 'a) fan_op_scheme \<Rightarrow> ('v, 'a) fan_op_scheme option) \<Rightarrow> nat \<Rightarrow> ('v, 'a) fan_op_scheme \<Rightarrow> ('v, 'a) fan_op_scheme option" where
  "request_stop done_fn i s =
     (if \<not> fa_alive s then None
      else case ch_thunk (fa_tasks s ! i) of
          Unwinds r \<Rightarrow> done_fn i (on_child i (\<lambda>c. finish_with r (mark_stopped c)) s)
        | _ \<Rightarrow> Some (on_child i mark_stopped s))"

fun request_stops ::
  "(nat \<Rightarrow> ('v, 'a) fan_op_scheme \<Rightarrow> ('v, 'a) fan_op_scheme option) \<Rightarrow> nat list \<Rightarrow> ('v, 'a) fan_op_scheme \<Rightarrow> ('v, 'a) fan_op_scheme option" where
  "request_stops done_fn [] s = Some s"
| "request_stops done_fn (i # is) s = Option.bind (request_stop done_fn i s) (request_stops done_fn is)"

definition cancel_children ::
  "(nat \<Rightarrow> ('v, 'a) fan_op_scheme \<Rightarrow> ('v, 'a) fan_op_scheme option) \<Rightarrow> ('v, 'a) fan_op_scheme \<Rightarrow> ('v, 'a) fan_op_scheme option" where
  "cancel_children done_fn s = request_stops done_fn [0..<length (fa_tasks s)] s"

text \<open>
  The done thunks return at once under \<open>dead_\<close>, and that of \<open>when_any\<close> also once there is a
  winner; the calls made in such a state are given this function.
\<close>

definition silent :: "nat \<Rightarrow> ('v, 'a) fan_op_scheme \<Rightarrow> ('v, 'a) fan_op_scheme option" where
  "silent i s = Some s"

definition fan_destroy :: "('v, 'a) fan_op_scheme \<Rightarrow> ('v, 'a) fan_op_scheme option" where
  "fan_destroy s = map_option (fa_alive_update (\<lambda>_. False)) (cancel_children silent (s\<lparr>fa_dead := True\<rparr>))"

text \<open>The parent goes on: \<open>await_resume\<close>, then the end of the full expression.\<close>

definition resume_awaiting ::
  "(('v, 'a) fan_op_scheme \<Rightarrow> 'v awaited) \<Rightarrow> ('v, 'a) fan_op_scheme \<Rightarrow> ('v, 'a) fan_op_scheme option" where
  "resume_awaiting await_resume s =
     fan_destroy (s\<lparr>fa_parent_cancel := False, fa_returned := fa_returned s @ [await_resume s]\<rparr>)"

definition start_one ::
  "(nat \<Rightarrow> ('v, 'a) fan_op_scheme \<Rightarrow> ('v, 'a) fan_op_scheme option) \<Rightarrow> nat \<Rightarrow> ('v, 'a) fan_op_scheme \<Rightarrow> ('v, 'a) fan_op_scheme option" where
  "start_one done_fn i s =
     (if \<not> fa_alive s then None
      else let s1 = on_child i (adopt_child (fa_ctx s) (fa_parent_stopped s)) s; c = fa_tasks s1 ! i in
        case ch_runs c (ch_stopped c \<or> stop_requested (fa_flags s) (cx_stop (ch_ctx c))) of
          Inl r \<Rightarrow> done_fn i (on_child i (finish_with r) s1)
        | Inr th \<Rightarrow> Some (on_child i (ch_thunk_update (\<lambda>_. th)) s1))"

fun start_all ::
  "(nat \<Rightarrow> ('v, 'a) fan_op_scheme \<Rightarrow> ('v, 'a) fan_op_scheme option) \<Rightarrow> nat list \<Rightarrow> ('v, 'a) fan_op_scheme \<Rightarrow> ('v, 'a) fan_op_scheme option" where
  "start_all done_fn [] s = Some s"
| "start_all done_fn (i # is) s = Option.bind (start_one done_fn i s) (start_all done_fn is)"

definition fan_suspend ::
  "(nat \<Rightarrow> ('v, 'a) fan_op_scheme \<Rightarrow> ('v, 'a) fan_op_scheme option) \<Rightarrow> (('v, 'a) fan_op_scheme \<Rightarrow> 'v awaited)
    \<Rightarrow> ('v, 'a) fan_op_scheme \<Rightarrow> ('v, 'a) fan_op_scheme option" where
  "fan_suspend done_fn await_resume s =
     Option.bind (start_all done_fn [0..<length (fa_tasks s)] (s\<lparr>fa_parent_cancel := True\<rparr>))
       (\<lambda>s. if fa_wake s then resume_awaiting await_resume s else Some (s\<lparr>fa_suspended := True\<rparr>))"

section \<open>when\_all\<close>

text \<open>\<open>take\<close> gives the stored value or rethrows; the tuple is built from left to right.\<close>

fun taken :: "'v co_outcome option \<Rightarrow> 'v option" where
  "taken (Some (Value v)) = Some v"
| "taken _ = None"

definition collect :: "'v co_outcome option list \<Rightarrow> 'v awaited" where
  "collect rs = (case those (map taken rs) of Some vs \<Rightarrow> Collected vs | None \<Rightarrow> Rethrown)"

definition wa_await_resume :: "('v, 'a) fan_op_scheme \<Rightarrow> 'v awaited" where
  "wa_await_resume s = (if parent_stop_requested s then Cancelled else collect (map ch_result (fa_tasks s)))"

definition wa_done :: "nat \<Rightarrow> 'v when_all_op \<Rightarrow> 'v when_all_op option" where
  "wa_done i s =
     (if fa_dead s then Some s
      else let s1 = s\<lparr>wa_remaining := wa_remaining s - 1\<rparr> in
        if wa_remaining s1 = 0
        then if fa_suspended s1 then resume_awaiting wa_await_resume s1 else Some (s1\<lparr>fa_wake := True\<rparr>)
        else Some s1)"

definition wa_new :: "context_t \<Rightarrow> stop_flags \<Rightarrow> bool \<Rightarrow> 'v child list \<Rightarrow> 'v when_all_op" where
  "wa_new ctx fl stopped cs =
     \<lparr>fa_tasks = cs, fa_ctx = ctx, fa_flags = fl, fa_parent_stopped = stopped, fa_parent_cancel = False,
      fa_suspended = False, fa_wake = False, fa_dead = False, fa_alive = True, fa_returned = [],
      wa_remaining = length cs\<rparr>"

text \<open>\<open>await_ready\<close> is true for no children: the parent is not suspended.\<close>

definition wa_await :: "'v when_all_op \<Rightarrow> 'v when_all_op option" where
  "wa_await s =
     (if fa_tasks s = [] then fan_destroy (s\<lparr>fa_returned := fa_returned s @ [Collected []]\<rparr>)
      else fan_suspend wa_done wa_await_resume s)"

section \<open>when\_any\<close>

definition cancel_others :: "nat \<Rightarrow> 'v when_any_op \<Rightarrow> 'v when_any_op option" where
  "cancel_others except s = request_stops silent (filter (\<lambda>j. j \<noteq> except) [0..<length (fa_tasks s)]) s"

definition wn_await_resume :: "'v when_any_op \<Rightarrow> 'v awaited" where
  "wn_await_resume s =
     (if parent_stop_requested s \<and> \<not> wn_won s then Cancelled
      else case taken (ch_result (fa_tasks s ! wn_winner s)) of
          Some v \<Rightarrow> Winner (wn_winner s) v
        | None \<Rightarrow> Rethrown)"

definition wn_done :: "nat \<Rightarrow> 'v when_any_op \<Rightarrow> 'v when_any_op option" where
  "wn_done i s =
     (if fa_dead s then Some s
      else if wn_won s then Some s
      else Option.bind (cancel_others i (s\<lparr>wn_won := True, wn_winner := i\<rparr>))
        (\<lambda>s. if fa_suspended s then resume_awaiting wn_await_resume s else Some (s\<lparr>fa_wake := True\<rparr>)))"

definition wn_new :: "context_t \<Rightarrow> stop_flags \<Rightarrow> bool \<Rightarrow> 'v child list \<Rightarrow> 'v when_any_op" where
  "wn_new ctx fl stopped cs =
     \<lparr>fa_tasks = cs, fa_ctx = ctx, fa_flags = fl, fa_parent_stopped = stopped, fa_parent_cancel = False,
      fa_suspended = False, fa_wake = False, fa_dead = False, fa_alive = True, fa_returned = [],
      wn_winner = length cs, wn_won = False\<rparr>"

definition wn_await :: "'v when_any_op \<Rightarrow> 'v when_any_op option" where
  "wn_await s = fan_suspend wn_done wn_await_resume s"

section \<open>What happens to a suspended combinator\<close>

text \<open>
  A running child reaches its final suspension or parks at another awaiter; the parent's promise
  gets \<open>request_stop\<close>; a stop source is requested; or the parent's frame is destroyed.
\<close>

datatype 'v coro_event =
    ChildDone nat "'v co_outcome" | ChildParks nat "'v thunk" | ParentStop | SourceStop nat | ParentDropped

definition runnable :: "nat \<Rightarrow> ('v, 'a) fan_op_scheme \<Rightarrow> bool" where
  "runnable i s \<longleftrightarrow> fa_alive s \<and> fa_suspended s \<and> i < length (fa_tasks s) \<and> \<not> child_done (fa_tasks s ! i)"

fun fan_step ::
  "(nat \<Rightarrow> ('v, 'a) fan_op_scheme \<Rightarrow> ('v, 'a) fan_op_scheme option) \<Rightarrow> 'v coro_event \<Rightarrow> ('v, 'a) fan_op_scheme \<Rightarrow> ('v, 'a) fan_op_scheme option" where
  "fan_step done_fn (ChildDone i r) s =
     (if runnable i s then done_fn i (on_child i (finish_with r) s) else Some s)"
| "fan_step done_fn (ChildParks i th) s =
     (if runnable i s then Some (on_child i (ch_thunk_update (\<lambda>_. th)) s) else Some s)"
| "fan_step done_fn ParentStop s =
     (if fa_parent_cancel s
      then cancel_children done_fn (s\<lparr>fa_parent_stopped := True, fa_parent_cancel := False\<rparr>)
      else Some (s\<lparr>fa_parent_stopped := True\<rparr>))"
| "fan_step done_fn (SourceStop a) s = Some (s\<lparr>fa_flags := stop_source_request a (fa_flags s)\<rparr>)"
| "fan_step done_fn ParentDropped s = (if fa_alive s then fan_destroy (s\<lparr>fa_parent_cancel := False\<rparr>) else Some s)"

fun fan_run ::
  "(nat \<Rightarrow> ('v, 'a) fan_op_scheme \<Rightarrow> ('v, 'a) fan_op_scheme option) \<Rightarrow> 'v coro_event list \<Rightarrow> ('v, 'a) fan_op_scheme \<Rightarrow> ('v, 'a) fan_op_scheme option" where
  "fan_run done_fn [] s = Some s"
| "fan_run done_fn (e # es) s = Option.bind (fan_step done_fn e s) (fan_run done_fn es)"

section \<open>with\_timeout\<close>

text \<open>\<open>wt_pending\<close> tells whether the engine's timer of \<open>token_\<close> can still fire.\<close>

record 'v timeout_op =
  wt_child :: "'v child"
  wt_ctx :: context_t
  wt_flags :: stop_flags
  wt_parent_stopped :: bool
  wt_parent_cancel :: bool
  wt_pending :: bool
  wt_err :: "'v awaited option"
  wt_armed :: bool
  wt_timed_out :: bool
  wt_child_done :: bool
  wt_suspended :: bool
  wt_resumed :: bool
  wt_dead :: bool
  wt_alive :: bool
  wt_returned :: "'v awaited list"

definition wt_new :: "context_t \<Rightarrow> stop_flags \<Rightarrow> bool \<Rightarrow> 'v child \<Rightarrow> 'v timeout_op" where
  "wt_new ctx fl stopped c =
     \<lparr>wt_child = c, wt_ctx = ctx, wt_flags = fl, wt_parent_stopped = stopped, wt_parent_cancel = False,
      wt_pending = False, wt_err = None, wt_armed = False, wt_timed_out = False, wt_child_done = False,
      wt_suspended = False, wt_resumed = False, wt_dead = False, wt_alive = True, wt_returned = []\<rparr>"

definition wt_on_child :: "('v child \<Rightarrow> 'v child) \<Rightarrow> 'v timeout_op \<Rightarrow> 'v timeout_op" where
  "wt_on_child f s = s\<lparr>wt_child := f (wt_child s)\<rparr>"

definition wt_disarm :: "'v timeout_op \<Rightarrow> 'v timeout_op" where
  "wt_disarm s = (if wt_armed s then s\<lparr>wt_pending := False, wt_armed := False\<rparr> else s)"

text \<open>
  The destructor; a child that unwinds here runs \<open>child_thunk\<close>, whose \<open>resume_parent\<close> returns
  because of \<open>dead_\<close>.
\<close>

definition wt_destroy :: "'v timeout_op \<Rightarrow> 'v timeout_op" where
  "wt_destroy s =
     (let s1 = (if wt_armed s then s\<lparr>wt_dead := True, wt_pending := False\<rparr> else s\<lparr>wt_dead := True\<rparr>);
          s2 = (if wt_child_done s1 then s1
            else case ch_thunk (wt_child s1) of
                Unwinds r \<Rightarrow>
                  (let s' = (wt_on_child (\<lambda>c. finish_with r (mark_stopped c)) s1)\<lparr>wt_child_done := True\<rparr> in
                   if wt_timed_out s' then s' else wt_disarm s')
              | _ \<Rightarrow> wt_on_child mark_stopped s1)
      in s2\<lparr>wt_alive := False\<rparr>)"

definition wt_await_resume :: "'v timeout_op \<Rightarrow> 'v awaited" where
  "wt_await_resume s =
     (case wt_err s of
        Some e \<Rightarrow> e
      | None \<Rightarrow> if wt_timed_out s then Expired else collect [ch_result (wt_child s)])"

definition wt_resume_awaiting :: "'v timeout_op \<Rightarrow> 'v timeout_op" where
  "wt_resume_awaiting s =
     wt_destroy (s\<lparr>wt_parent_cancel := False, wt_returned := wt_returned s @ [wt_await_resume s]\<rparr>)"

definition wt_resume_parent :: "'v timeout_op \<Rightarrow> 'v timeout_op option" where
  "wt_resume_parent s =
     (if \<not> wt_alive s then None
      else if wt_resumed s \<or> wt_dead s then Some s
      else let s1 = s\<lparr>wt_resumed := True\<rparr> in
        Some (if wt_suspended s1 then wt_resume_awaiting s1 else s1))"

definition wt_child_thunk :: "'v timeout_op \<Rightarrow> 'v timeout_op option" where
  "wt_child_thunk s =
     (if \<not> wt_alive s then None
      else let s1 = s\<lparr>wt_child_done := True\<rparr> in
        if wt_timed_out s1 then Some s1 else wt_resume_parent (wt_disarm s1))"

definition wt_request_stop :: "'v timeout_op \<Rightarrow> 'v timeout_op option" where
  "wt_request_stop s =
     (if \<not> wt_alive s then None
      else case ch_thunk (wt_child s) of
          Unwinds r \<Rightarrow> wt_child_thunk (wt_on_child (\<lambda>c. finish_with r (mark_stopped c)) s)
        | _ \<Rightarrow> Some (wt_on_child mark_stopped s))"

definition wt_timer_thunk :: "'v timeout_op \<Rightarrow> 'v timeout_op option" where
  "wt_timer_thunk s =
     (if \<not> wt_alive s then None
      else Option.bind (wt_request_stop (s\<lparr>wt_armed := False, wt_timed_out := True, wt_err := Some Expired\<rparr>))
        wt_resume_parent)"

definition wt_cancel_thunk :: "'v timeout_op \<Rightarrow> 'v timeout_op option" where
  "wt_cancel_thunk s =
     (if \<not> wt_alive s then None
      else Option.bind (wt_request_stop ((wt_disarm s)\<lparr>wt_err := Some Cancelled\<rparr>)) wt_resume_parent)"

definition wt_await :: "'v timeout_op \<Rightarrow> 'v timeout_op option" where
  "wt_await s =
     (if wt_parent_stopped s \<or> stop_requested (wt_flags s) (cx_stop (wt_ctx s))
      then Some (wt_resume_awaiting (s\<lparr>wt_err := Some Cancelled\<rparr>))
      else let s1 = (wt_on_child (adopt_child (wt_ctx s) False) s)
                    \<lparr>wt_parent_cancel := True, wt_armed := True, wt_pending := True\<rparr>;
               c = wt_child s1
        in Option.bind
          (case ch_runs c (ch_stopped c \<or> stop_requested (wt_flags s) (cx_stop (ch_ctx c))) of
             Inl r \<Rightarrow> wt_child_thunk (wt_on_child (finish_with r) s1)
           | Inr th \<Rightarrow> Some (wt_on_child (ch_thunk_update (\<lambda>_. th)) s1))
          (\<lambda>s. if wt_child_done s then Some (wt_resume_awaiting s) else Some (s\<lparr>wt_suspended := True\<rparr>)))"

datatype 'v timeout_event = TimerFires | Happens "'v coro_event"

definition wt_runnable :: "'v timeout_op \<Rightarrow> bool" where
  "wt_runnable s \<longleftrightarrow> wt_alive s \<and> wt_suspended s \<and> \<not> child_done (wt_child s)"

fun wt_step :: "'v timeout_event \<Rightarrow> 'v timeout_op \<Rightarrow> 'v timeout_op option" where
  "wt_step TimerFires s = (if wt_pending s then wt_timer_thunk (s\<lparr>wt_pending := False\<rparr>) else Some s)"
| "wt_step (Happens (ChildDone i r)) s =
     (if wt_runnable s then wt_child_thunk (wt_on_child (finish_with r) s) else Some s)"
| "wt_step (Happens (ChildParks i th)) s =
     (if wt_runnable s then Some (wt_on_child (ch_thunk_update (\<lambda>_. th)) s) else Some s)"
| "wt_step (Happens ParentStop) s =
     (if wt_parent_cancel s then wt_cancel_thunk (s\<lparr>wt_parent_stopped := True, wt_parent_cancel := False\<rparr>)
      else Some (s\<lparr>wt_parent_stopped := True\<rparr>))"
| "wt_step (Happens (SourceStop a)) s = Some (s\<lparr>wt_flags := stop_source_request a (wt_flags s)\<rparr>)"
| "wt_step (Happens ParentDropped) s =
     (if wt_alive s then Some (wt_destroy (s\<lparr>wt_parent_cancel := False\<rparr>)) else Some s)"

fun wt_run :: "'v timeout_event list \<Rightarrow> 'v timeout_op \<Rightarrow> 'v timeout_op option" where
  "wt_run [] s = Some s"
| "wt_run (e # es) s = Option.bind (wt_step e s) (wt_run es)"

end
