(* ===== verification/Coro_Runs.thy ===== *)
theory Coro_Runs
  imports Coro_Combine
begin

text \<open>
  What the combinators give the awaiting coroutine.  For each of them a specification reads only
  the events, and the object of \<open>combine.hpp\<close> is shown to hand the parent exactly the
  specified results, at most one, without touching a destroyed object, as long as the parent
  itself gets no stop request.  The last section gives what a stop request of the parent does.
\<close>

section \<open>Frames\<close>

definition unwound :: "'v child \<Rightarrow> 'v child" where
  "unwound c = (case ch_thunk c of Unwinds r \<Rightarrow> finish_with r (mark_stopped c) | _ \<Rightarrow> mark_stopped c)"

lemma on_child_fields [simp]:
  "fa_ctx (on_child i f s) = fa_ctx s" "fa_flags (on_child i f s) = fa_flags s"
  "fa_parent_stopped (on_child i f s) = fa_parent_stopped s"
  "fa_parent_cancel (on_child i f s) = fa_parent_cancel s"
  "fa_suspended (on_child i f s) = fa_suspended s" "fa_wake (on_child i f s) = fa_wake s"
  "fa_dead (on_child i f s) = fa_dead s" "fa_alive (on_child i f s) = fa_alive s"
  "fa_returned (on_child i f s) = fa_returned s"
  "fa_tasks (on_child i f s) = (fa_tasks s)[i := f (fa_tasks s ! i)]"
  "wa_remaining (on_child i f w) = wa_remaining w"
  "wn_won (on_child i f n) = wn_won n" "wn_winner (on_child i f n) = wn_winner n"
  by (simp_all add: on_child_def)

lemma child_fields [simp]:
  "ch_result (mark_stopped c) = ch_result c" "ch_stopped (mark_stopped c)"
  "ch_thunk (mark_stopped c) = NoThunk"
  "ch_result (finish_with r c) = Some r" "ch_thunk (finish_with r c) = NoThunk"
  "ch_stopped (finish_with r c) = ch_stopped c"
  "ch_result (adopt_child ctx b c) = ch_result c" "ch_thunk (adopt_child ctx b c) = ch_thunk c"
  "ch_runs (adopt_child ctx b c) = ch_runs c" "ch_stopped (adopt_child ctx b c) \<longleftrightarrow> ch_stopped c \<or> b"
  "ch_ctx (adopt_child ctx b c) = inherit ctx (ch_ctx c)"
  "ch_stopped (unwound c)" "ch_thunk (unwound c) = NoThunk"
  by (auto simp: mark_stopped_def finish_with_def adopt_child_def unwound_def split: thunk.splits)

lemma parked_result [simp]:
  "n < length cs \<Longrightarrow> ch_result (cs[i := (cs ! i)\<lparr>ch_thunk := th\<rparr>] ! n) = ch_result (cs ! n)"
  by (cases "n = i") auto

text \<open>Two states of an object that differ in its children only.\<close>

definition same_op :: "('v, 'a) fan_op_scheme \<Rightarrow> ('v, 'a) fan_op_scheme \<Rightarrow> bool" where
  "same_op s s' \<longleftrightarrow> (\<exists>cs. s' = s\<lparr>fa_tasks := cs\<rparr> \<and> length cs = length (fa_tasks s))"

lemma same_op_refl [simp]: "same_op s s"
  unfolding same_op_def by (rule exI [of _ "fa_tasks s"]) simp

lemma same_op_trans: "same_op s s' \<Longrightarrow> same_op s' s'' \<Longrightarrow> same_op s s''"
  unfolding same_op_def by auto

lemma same_op_on_child [simp]: "same_op s (on_child i f s)"
  by (auto simp: same_op_def on_child_def)

lemma same_opD:
  assumes "same_op s s'"
  shows "fa_ctx s' = fa_ctx s" "fa_flags s' = fa_flags s" "fa_parent_stopped s' = fa_parent_stopped s"
    "fa_parent_cancel s' = fa_parent_cancel s" "fa_suspended s' = fa_suspended s" "fa_wake s' = fa_wake s"
    "fa_dead s' = fa_dead s" "fa_alive s' = fa_alive s" "fa_returned s' = fa_returned s"
    "length (fa_tasks s') = length (fa_tasks s)"
  using assms by (auto simp: same_op_def)

lemma same_op_wa: "same_op s s' \<Longrightarrow> wa_remaining s' = wa_remaining s"
  by (auto simp: same_op_def)

lemma same_op_wn: "same_op s s' \<Longrightarrow> wn_won s' = wn_won s" "same_op s s' \<Longrightarrow> wn_winner s' = wn_winner s"
  by (auto simp: same_op_def)

section \<open>Silent stop requests and the destructor\<close>

lemma request_stop_silent: "fa_alive s \<Longrightarrow> request_stop silent i s = Some (on_child i unwound s)"
  by (auto simp: request_stop_def silent_def unwound_def on_child_def split: thunk.splits)

lemma request_stops_silent:
  "fa_alive s \<Longrightarrow> \<exists>s'. request_stops silent is s = Some s' \<and> same_op s s'
     \<and> (\<forall>j < length (fa_tasks s). if j \<in> set is then ch_stopped (fa_tasks s' ! j) \<and> (ch_thunk (fa_tasks s ! j) = NoThunk \<longrightarrow> ch_result (fa_tasks s' ! j) = ch_result (fa_tasks s ! j)) else fa_tasks s' ! j = fa_tasks s ! j)"
proof (induction "is" arbitrary: s)
  case (Cons i "is")
  let ?s = "on_child i unwound s"
  obtain s' where s': "request_stops silent is ?s = Some s'" "same_op ?s s'"
    and ch: "\<forall>j < length (fa_tasks ?s). if j \<in> set is then ch_stopped (fa_tasks s' ! j) \<and> (ch_thunk (fa_tasks ?s ! j) = NoThunk \<longrightarrow> ch_result (fa_tasks s' ! j) = ch_result (fa_tasks ?s ! j)) else fa_tasks s' ! j = fa_tasks ?s ! j"
    using Cons.IH [of ?s] Cons.prems by auto
  have one: "ch_thunk c = NoThunk \<Longrightarrow> ch_result (unwound c) = ch_result c" for c :: "'a child"
    by (simp add: unwound_def)
  have "request_stops silent (i # is) s = Some s'"
    using s' Cons.prems by (simp add: request_stop_silent)
  moreover have "same_op s s'"
    using s'(2) same_op_trans same_op_on_child by blast
  moreover have "if j \<in> set (i # is) then ch_stopped (fa_tasks s' ! j) \<and> (ch_thunk (fa_tasks s ! j) = NoThunk \<longrightarrow> ch_result (fa_tasks s' ! j) = ch_result (fa_tasks s ! j)) else fa_tasks s' ! j = fa_tasks s ! j"
    if "j < length (fa_tasks s)" for j
    using spec [OF ch, of j] that one [of "fa_tasks s ! j"] by (cases "j = i") (auto split: if_splits)
  ultimately show ?case
    by blast
qed simp

lemma fan_destroy_ok:
  assumes "fa_alive s"
  obtains s' where "fan_destroy s = Some s'" "\<not> fa_alive s'" "fa_returned s' = fa_returned s"
    "fa_parent_cancel s' = fa_parent_cancel s" "list_all ch_stopped (fa_tasks s')"
proof -
  let ?s = "s\<lparr>fa_dead := True\<rparr>"
  obtain s' where s': "request_stops silent [0..<length (fa_tasks s)] ?s = Some s'" "same_op ?s s'"
    and st: "\<forall>j < length (fa_tasks s). ch_stopped (fa_tasks s' ! j)"
    using request_stops_silent [of ?s "[0..<length (fa_tasks s)]"] assms by auto
  show thesis
    by (rule that [of "s'\<lparr>fa_alive := False\<rparr>"])
      (use s' st same_opD [OF s'(2)] in \<open>auto simp: fan_destroy_def cancel_children_def list_all_length\<close>)
qed

lemma resume_awaiting_ok:
  assumes "fa_alive s"
  obtains s' where "resume_awaiting aw s = Some s'" "\<not> fa_alive s'" "fa_returned s' = fa_returned s @ [aw s]"
    "\<not> fa_parent_cancel s'" "list_all ch_stopped (fa_tasks s')"
  unfolding resume_awaiting_def
  by (rule fan_destroy_ok [of "s\<lparr>fa_parent_cancel := False, fa_returned := fa_returned s @ [aw s]\<rparr>"])
    (use assms in auto)

text \<open>Once the object is gone nothing more reaches it.\<close>

lemma gone_step:
  "\<not> fa_alive s \<Longrightarrow> \<not> fa_parent_cancel s \<Longrightarrow>
    \<exists>s'. fan_step d e s = Some s' \<and> \<not> fa_alive s' \<and> \<not> fa_parent_cancel s' \<and> fa_returned s' = fa_returned s \<and> fa_tasks s' = fa_tasks s"
  by (cases e) (auto simp: runnable_def)

lemma gone_run:
  "\<not> fa_alive s \<Longrightarrow> \<not> fa_parent_cancel s \<Longrightarrow>
    \<exists>s'. fan_run d es s = Some s' \<and> \<not> fa_alive s' \<and> fa_returned s' = fa_returned s \<and> fa_tasks s' = fa_tasks s"
proof (induction es arbitrary: s)
  case (Cons e es)
  then show ?case
    using gone_step [of s d e] by fastforce
qed simp

section \<open>Starting a child\<close>

text \<open>What child \<open>c\<close> does when the object \<open>s\<close> starts it: it is done at once, or parks.\<close>

definition at_start :: "('v, 'a) fan_op_scheme \<Rightarrow> 'v child \<Rightarrow> 'v co_outcome option" where
  "at_start s c =
     (case ch_runs c ((ch_stopped c \<or> fa_parent_stopped s) \<or> stop_requested (fa_flags s) (cx_stop (inherit (fa_ctx s) (ch_ctx c)))) of
        Inl r \<Rightarrow> Some r | Inr _ \<Rightarrow> None)"

lemma at_start_same: "same_op s s' \<Longrightarrow> at_start s' c = at_start s c"
  by (simp add: at_start_def same_opD)

lemma start_one_cases:
  assumes "fa_alive s" "i < length (fa_tasks s)"
  obtains (parks) f where "at_start s (fa_tasks s ! i) = None" "start_one d i s = Some (on_child i f s)"
      "ch_result (f (fa_tasks s ! i)) = ch_result (fa_tasks s ! i)"
  | (ends) r f where "at_start s (fa_tasks s ! i) = Some r" "start_one d i s = d i (on_child i f s)"
      "ch_result (f (fa_tasks s ! i)) = Some r" "ch_thunk (f (fa_tasks s ! i)) = NoThunk"
proof (cases "ch_runs (fa_tasks s ! i) ((ch_stopped (fa_tasks s ! i) \<or> fa_parent_stopped s) \<or>
    stop_requested (fa_flags s) (cx_stop (inherit (fa_ctx s) (ch_ctx (fa_tasks s ! i)))))")
  case (Inl r)
  show thesis
    by (rule ends [of r "\<lambda>c. finish_with r (adopt_child (fa_ctx s) (fa_parent_stopped s) c)"])
      (use assms Inl in \<open>auto simp: at_start_def start_one_def Let_def on_child_def\<close>)
next
  case (Inr th)
  show thesis
    by (rule parks [of "\<lambda>c. (adopt_child (fa_ctx s) (fa_parent_stopped s) c)\<lparr>ch_thunk := th\<rparr>"])
      (use assms Inr in \<open>auto simp: at_start_def start_one_def Let_def on_child_def fresh_child_def\<close>)
qed

text \<open>What the child does when \<open>with_timeout\<close> starts it; its own stop flag is all it inherits.\<close>

definition wt_at_start :: "context_t \<Rightarrow> stop_flags \<Rightarrow> 'v child \<Rightarrow> 'v co_outcome option" where
  "wt_at_start ctx fl c =
     (case ch_runs c (ch_stopped c \<or> stop_requested fl (cx_stop (inherit ctx (ch_ctx c)))) of
        Inl r \<Rightarrow> Some r | Inr _ \<Rightarrow> None)"

text \<open>The child parks at an awaiter whose thunk is \<open>th\<close> when the object starts it.\<close>

definition parks_at :: "('v, 'a) fan_op_scheme \<Rightarrow> 'v thunk \<Rightarrow> 'v child \<Rightarrow> bool" where
  "parks_at s th c \<longleftrightarrow>
     ch_runs c ((ch_stopped c \<or> fa_parent_stopped s) \<or> stop_requested (fa_flags s) (cx_stop (inherit (fa_ctx s) (ch_ctx c)))) = Inr th"

text \<open>Two children for the concrete runs: one done at once, one that sleeps and unwinds when stopped.\<close>

definition ready_child :: "nat \<Rightarrow> nat child" where
  "ready_child v =
     \<lparr>ch_ctx = cx_empty, ch_stopped = False, ch_started = False, ch_thunk = NoThunk, ch_result = None,
      ch_runs = (\<lambda>_. Inl (Value v))\<rparr>"

definition sleeping_child :: "nat child" where
  "sleeping_child =
     \<lparr>ch_ctx = cx_empty, ch_stopped = False, ch_started = False, ch_thunk = NoThunk, ch_result = None,
      ch_runs = (\<lambda>_. Inr (Unwinds (Value 0)))\<rparr>"

lemma sample_children [simp]:
  "fresh_child (ready_child v)" "fresh_child sleeping_child"
  "at_start s (ready_child v) = Some (Value v)" "at_start s sleeping_child = None"
  "wt_at_start ctx fl sleeping_child = None"
  "parks_at s (Unwinds (Value 0)) sleeping_child"
  "ch_runs sleeping_child b = Inr (Unwinds (Value 0))"
  by (simp_all add: ready_child_def sleeping_child_def fresh_child_def at_start_def wt_at_start_def parks_at_def)

section \<open>when\_all against its specification\<close>

text \<open>
  The specification: outcomes are collected by child; with the last one the parent gets the
  tuple, an exception, or the cancellation that its stop token shows at that moment.
\<close>

definition wa_verdict :: "bool \<Rightarrow> stop_token \<Rightarrow> stop_flags \<Rightarrow> 'v co_outcome option list \<Rightarrow> 'v awaited" where
  "wa_verdict b tok fl rs = (if b \<or> stop_requested fl tok then Cancelled else collect rs)"

fun wa_spec :: "bool \<Rightarrow> stop_token \<Rightarrow> stop_flags \<Rightarrow> 'v co_outcome option list \<Rightarrow> 'v coro_event list \<Rightarrow> 'v awaited list" where
  "wa_spec b tok fl rs [] = []"
| "wa_spec b tok fl rs (ChildDone i r # es) =
     (if i < length rs \<and> rs ! i = None
      then (if None \<in> set (rs[i := Some r]) then wa_spec b tok fl (rs[i := Some r]) es
            else [wa_verdict b tok fl (rs[i := Some r])])
      else wa_spec b tok fl rs es)"
| "wa_spec b tok fl rs (SourceStop a # es) = wa_spec b tok (stop_source_request a fl) rs es"
| "wa_spec b tok fl rs (ChildParks i th # es) = wa_spec b tok fl rs es"
| "wa_spec b tok fl rs (_ # es) = []"

lemma count_done:
  "i < length rs \<Longrightarrow> rs ! i = None \<Longrightarrow> count_list (rs[i := Some r]) None = count_list rs None - 1 \<and> 0 < count_list rs None"
proof (induction rs arbitrary: i)
  case (Cons x rs)
  then show ?case
    by (cases i) (auto simp: count_list_0_iff)
qed simp

definition wa_going :: "'v when_all_op \<Rightarrow> 'v co_outcome option list \<Rightarrow> bool" where
  "wa_going s rs \<longleftrightarrow> fa_alive s \<and> \<not> fa_dead s \<and> fa_returned s = [] \<and> map ch_result (fa_tasks s) = rs
     \<and> wa_remaining s = count_list rs None"

lemma wa_done_going:
  assumes "wa_going s rs" "i < length rs" "rs ! i = None" "ch_result (f (fa_tasks s ! i)) = Some r"
  defines "s1 \<equiv> (on_child i f s)\<lparr>wa_remaining := wa_remaining s - 1\<rparr>"
  shows "wa_going s1 (rs[i := Some r])"
    and "wa_done i (on_child i f s) =
      (if None \<in> set (rs[i := Some r]) then Some s1
       else if fa_suspended s then resume_awaiting wa_await_resume s1 else Some (s1\<lparr>fa_wake := True\<rparr>))"
proof -
  show g: "wa_going s1 (rs[i := Some r])"
    using assms count_done [OF assms(2,3), of r] by (auto simp: wa_going_def map_update)
  show "wa_done i (on_child i f s) =
      (if None \<in> set (rs[i := Some r]) then Some s1
       else if fa_suspended s then resume_awaiting wa_await_resume s1 else Some (s1\<lparr>fa_wake := True\<rparr>))"
    using g assms(1) count_list_0_iff [of "rs[i := Some r]" None]
    by (auto simp: wa_done_def Let_def s1_def wa_going_def)
qed

lemma wa_start_one:
  assumes "wa_going s rs" "\<not> fa_suspended s" "fa_wake s \<longleftrightarrow> None \<notin> set rs"
    "i < length (fa_tasks s)" "fresh_child (fa_tasks s ! i)"
  obtains s' c where "start_one wa_done i s = Some s'" "wa_going s' (rs[i := at_start s (fa_tasks s ! i)])"
    "fa_tasks s' = (fa_tasks s)[i := c]" "\<not> fa_suspended s'" "fa_wake s' \<longleftrightarrow> None \<notin> set (rs[i := at_start s (fa_tasks s ! i)])"
    "fa_ctx s' = fa_ctx s" "fa_flags s' = fa_flags s" "fa_parent_stopped s' = fa_parent_stopped s"
proof -
  have i: "i < length rs" "rs ! i = None" and al: "fa_alive s"
    using assms by (auto simp: wa_going_def fresh_child_def)
  from al assms(4) show thesis
  proof (cases rule: start_one_cases [where d = wa_done])
    case (parks f)
    have "rs[i := None] = rs"
      using i by (metis list_update_id)
    then show thesis
      by (intro that [of "on_child i f s" "f (fa_tasks s ! i)"])
        (use parks assms in \<open>auto simp: wa_going_def map_update fresh_child_def\<close>)
  next
    case (ends r f)
    let ?s = "(on_child i f s)\<lparr>wa_remaining := wa_remaining s - 1\<rparr>"
    note d = wa_done_going [where f = f, OF assms(1) i ends(3)]
    have w: "None \<in> set rs"
      using i by (metis nth_mem)
    show thesis
      by (rule that [of "if None \<in> set (rs[i := Some r]) then ?s else ?s\<lparr>fa_wake := True\<rparr>" "f (fa_tasks s ! i)"])
        (use d ends assms w in \<open>auto simp: wa_going_def\<close>)
  qed
qed

lemma wa_start_all:
  assumes "wa_going s rs" "\<not> fa_suspended s" "fa_wake s \<longleftrightarrow> None \<notin> set rs"
    "distinct is" "\<forall>i \<in> set is. i < length (fa_tasks s) \<and> fresh_child (fa_tasks s ! i)"
  shows "\<exists>s' rs'. start_all wa_done is s = Some s' \<and> wa_going s' rs' \<and> \<not> fa_suspended s' \<and> (fa_wake s' \<longleftrightarrow> None \<notin> set rs')
    \<and> length rs' = length rs \<and> (\<forall>j < length rs. rs' ! j = (if j \<in> set is then at_start s (fa_tasks s ! j) else rs ! j))
    \<and> fa_ctx s' = fa_ctx s \<and> fa_flags s' = fa_flags s \<and> fa_parent_stopped s' = fa_parent_stopped s"
  using assms
proof (induction "is" arbitrary: s rs)
  case (Cons i "is")
  let ?rs = "rs[i := at_start s (fa_tasks s ! i)]"
  obtain s1 c where s1: "start_one wa_done i s = Some s1" "wa_going s1 ?rs"
      "fa_tasks s1 = (fa_tasks s)[i := c]" "\<not> fa_suspended s1" "fa_wake s1 \<longleftrightarrow> None \<notin> set ?rs"
      "fa_ctx s1 = fa_ctx s" "fa_flags s1 = fa_flags s" "fa_parent_stopped s1 = fa_parent_stopped s"
    using wa_start_one [OF Cons.prems(1-3), of i] Cons.prems by auto
  have at: "at_start s1 c = at_start s c" for c :: "'a child"
    using s1 by (simp add: at_start_def)
  have i: "i \<notin> set is" "\<forall>j \<in> set is. fa_tasks s1 ! j = fa_tasks s ! j"
    using Cons.prems(4) s1(3) by (auto intro!: nth_list_update_neq)
  have pre: "\<forall>j \<in> set is. j < length (fa_tasks s1) \<and> fresh_child (fa_tasks s1 ! j)" and dist: "distinct is"
    using Cons.prems(4,5) i s1(3) by auto
  obtain s' rs' where s': "start_all wa_done is s1 = Some s'" "wa_going s' rs'" "\<not> fa_suspended s'" "fa_wake s' \<longleftrightarrow> None \<notin> set rs'"
      "length rs' = length rs" "\<forall>j < length rs. rs' ! j = (if j \<in> set is then at_start s (fa_tasks s1 ! j) else ?rs ! j)"
      "fa_ctx s' = fa_ctx s" "fa_flags s' = fa_flags s" "fa_parent_stopped s' = fa_parent_stopped s"
    using Cons.IH [OF s1(2,4,5) dist pre] unfolding at s1(6-8) length_list_update by blast
  have "rs' ! j = (if j \<in> set (i # is) then at_start s (fa_tasks s ! j) else rs ! j)" if "j < length rs" for j
    using s'(6) that i by (auto simp: nth_list_update)
  then show ?case
    using s1(1) s' by auto
qed auto

lemma wa_last_done:
  assumes "wa_going s rs" "fa_suspended s" "i < length rs" "rs ! i = None" "None \<notin> set (rs[i := Some r])"
  shows "\<exists>s'. wa_done i (on_child i (finish_with r) s) = Some s' \<and> \<not> fa_alive s' \<and> \<not> fa_parent_cancel s' \<and>
    fa_returned s' = [wa_verdict (fa_parent_stopped s) (cx_stop (fa_ctx s)) (fa_flags s) (rs[i := Some r])]"
proof -
  let ?s = "(on_child i (finish_with r) s)\<lparr>wa_remaining := wa_remaining s - 1\<rparr>"
  note d = wa_done_going [OF assms(1,3,4), where f = "finish_with r" and r = r]
  have g: "wa_going ?s (rs[i := Some r])" and fin: "wa_done i (on_child i (finish_with r) s) = resume_awaiting wa_await_resume ?s"
    using d assms(2,5) by auto
  obtain s' where s': "resume_awaiting wa_await_resume ?s = Some s'" "\<not> fa_alive s'"
      "fa_returned s' = [wa_await_resume ?s]" "\<not> fa_parent_cancel s'"
    by (rule resume_awaiting_ok [of ?s wa_await_resume]) (use g in \<open>auto simp: wa_going_def\<close>)
  have "wa_await_resume ?s = wa_verdict (fa_parent_stopped s) (cx_stop (fa_ctx s)) (fa_flags s) (rs[i := Some r])"
    using g by (auto simp: wa_going_def wa_await_resume_def wa_verdict_def parent_stop_requested_def)
  then show ?thesis
    using fin s' by simp
qed

lemma wa_run_spec:
  assumes "wa_going s rs" "fa_suspended s" "None \<in> set rs" "ParentStop \<notin> set es"
  shows "\<exists>s'. fan_run wa_done es s = Some s' \<and>
    fa_returned s' = wa_spec (fa_parent_stopped s) (cx_stop (fa_ctx s)) (fa_flags s) rs es"
  using assms
proof (induction es arbitrary: s rs)
  case Nil
  then show ?case by (simp add: wa_going_def)
next
  case (Cons e es)
  have al: "fa_alive s" and ret: "fa_returned s = []" and res: "map ch_result (fa_tasks s) = rs"
    using Cons.prems(1) by (auto simp: wa_going_def)
  show ?case
  proof (cases e)
    case (ChildDone i r)
    show ?thesis
    proof (cases "i < length rs \<and> rs ! i = None")
      case True
      have run: "runnable i s"
        using True al Cons.prems(2) res by (auto simp: runnable_def child_done_def)
      show ?thesis
      proof (cases "None \<in> set (rs[i := Some r])")
        case False
        obtain s' where s': "wa_done i (on_child i (finish_with r) s) = Some s'" "\<not> fa_alive s'" "\<not> fa_parent_cancel s'"
            "fa_returned s' = [wa_verdict (fa_parent_stopped s) (cx_stop (fa_ctx s)) (fa_flags s) (rs[i := Some r])]"
          using wa_last_done [OF Cons.prems(1,2) _ _ False] True by auto
        then show ?thesis
          using ChildDone True run False gone_run [OF s'(2,3), of wa_done es] by auto
      qed (use ChildDone True run wa_done_going [OF Cons.prems(1), where f = "finish_with r" and r = r and i = i]
          Cons.prems Cons.IH [of "(on_child i (finish_with r) s)\<lparr>wa_remaining := wa_remaining s - 1\<rparr>" "rs[i := Some r]"] in auto)
    next
      case False
      then have "\<not> runnable i s"
        using res by (auto simp: runnable_def child_done_def)
      then show ?thesis
        using ChildDone False Cons by auto
    qed
  next
    case (ChildParks i th)
    have "wa_going (on_child i (ch_thunk_update (\<lambda>_. th)) s) rs" if "i < length (fa_tasks s)"
      using Cons.prems(1) that by (auto simp: wa_going_def map_update list_update_same_conv)
    then show ?thesis
      using ChildParks Cons.prems Cons.IH [of s rs] Cons.IH [of "on_child i (ch_thunk_update (\<lambda>_. th)) s" rs]
      by (auto simp: runnable_def)
  next
    case (SourceStop a)
    then show ?thesis
      using Cons.prems Cons.IH [of "s\<lparr>fa_flags := stop_source_request a (fa_flags s)\<rparr>" rs] by (auto simp: wa_going_def)
  next
    case ParentDropped
    obtain s' where s': "fan_destroy (s\<lparr>fa_parent_cancel := False\<rparr>) = Some s'" "\<not> fa_alive s'"
        "fa_returned s' = []" "\<not> fa_parent_cancel s'"
      by (rule fan_destroy_ok [of "s\<lparr>fa_parent_cancel := False\<rparr>"]) (use al ret in auto)
    then show ?thesis
      using ParentDropped al gone_run [OF s'(2,4), of wa_done es] by auto
  qed (use Cons.prems in auto)
qed

text \<open>
  C11: \<open>when_all\<close> over at least one child: whatever the children do when started and whatever
  happens afterwards, short of a stop request to the parent itself, no destroyed object is
  touched and the parent gets exactly what the specification gives, at most one result, and that
  only when every child is done.
\<close>

theorem when_all_meets_spec:
  assumes "cs \<noteq> []" "list_all fresh_child cs" "ParentStop \<notin> set es"
  shows "map_option fa_returned (Option.bind (wa_await (wa_new ctx fl b cs)) (fan_run wa_done es)) =
    (let rs = map (at_start (wa_new ctx fl b cs)) cs in
     Some (if None \<in> set rs then wa_spec b (cx_stop ctx) fl rs es else [wa_verdict b (cx_stop ctx) fl rs]))"
proof -
  let ?n = "wa_new ctx fl b cs" and ?is = "[0..<length cs]"
  define rs where "rs = map (at_start ?n) cs"
  let ?s = "?n\<lparr>fa_parent_cancel := True\<rparr>"
  have nones: "map ch_result cs = map (\<lambda>_. None) cs"
    using assms(2) by (auto simp: list_all_iff fresh_child_def)
  have "count_list (map ch_result cs) None = length cs"
    unfolding nones by (induction cs) auto
  then have g: "wa_going ?s (map ch_result cs)"
    by (simp add: wa_going_def wa_new_def)
  have wk: "fa_wake ?s \<longleftrightarrow> None \<notin> set (map ch_result cs)"
    unfolding nones using assms(1) by (cases cs) (auto simp: wa_new_def)
  have at: "at_start ?s = at_start ?n"
    by (simp add: at_start_def fun_eq_iff)
  obtain s rs' where s: "start_all wa_done ?is ?s = Some s" "wa_going s rs'" "\<not> fa_suspended s" "fa_wake s \<longleftrightarrow> None \<notin> set rs'"
      "length rs' = length cs" "\<forall>j < length cs. rs' ! j = at_start ?n (cs ! j)"
      "fa_ctx s = ctx" "fa_flags s = fl" "fa_parent_stopped s = b"
    using wa_start_all [OF g _ wk, of ?is] assms(2) unfolding at by (auto simp: wa_new_def list_all_length)
  have rs: "rs' = rs"
    using s(5,6) by (auto simp: rs_def intro: nth_equalityI)
  have al: "fa_alive s" "fa_returned s = []" "map ch_result (fa_tasks s) = rs"
    using s(2) rs by (auto simp: wa_going_def)
  have aw: "wa_await ?n = (if None \<in> set rs then Some (s\<lparr>fa_suspended := True\<rparr>) else resume_awaiting wa_await_resume s)"
    using s(1,4) rs assms(1) by (simp add: wa_await_def fan_suspend_def) (simp add: wa_new_def)
  show ?thesis
  proof (cases "None \<in> set rs")
    case True
    have "wa_going (s\<lparr>fa_suspended := True\<rparr>) rs"
      using s(2) rs by (simp add: wa_going_def)
    then show ?thesis
      using aw True wa_run_spec [of "s\<lparr>fa_suspended := True\<rparr>" rs es] assms(3) s(7-9) by (auto simp: rs_def)
  next
    case False
    obtain s' where s': "resume_awaiting wa_await_resume s = Some s'" "\<not> fa_alive s'"
        "fa_returned s' = [wa_await_resume s]" "\<not> fa_parent_cancel s'"
      by (rule resume_awaiting_ok [of s wa_await_resume]) (use al in auto)
    have "wa_await_resume s = wa_verdict b (cx_stop ctx) fl rs"
      using al(3) s(7-9) by (auto simp: wa_await_resume_def wa_verdict_def parent_stop_requested_def)
    then show ?thesis
      using aw False s' gone_run [OF s'(2,4), of wa_done es] by (auto simp: rs_def)
  qed
qed

theorem when_all_meets_spec_witness:
  "map_option fa_returned (Option.bind (wa_await (wa_new cx_empty (\<lambda>_. False) False [sleeping_child, ready_child 7]))
     (fan_run wa_done [ChildParks 0 NoThunk, ChildDone 0 (Value 5), ParentDropped])) = Some [Collected [5, 7]]"
  using when_all_meets_spec [of "[sleeping_child, ready_child 7]"
      "[ChildParks 0 NoThunk, ChildDone 0 (Value 5), ParentDropped]" cx_empty "\<lambda>_. False" False]
  by (simp add: Let_def wa_verdict_def collect_def stop_requested_def cx_empty_def)

section \<open>when\_any against its specification\<close>

definition wn_value :: "nat \<Rightarrow> 'v co_outcome \<Rightarrow> 'v awaited" where
  "wn_value w r = (case r of Value v \<Rightarrow> Winner w v | Threw \<Rightarrow> Rethrown)"

text \<open>The specification: the first child that is done decides.\<close>

fun wn_spec :: "nat \<Rightarrow> 'v coro_event list \<Rightarrow> 'v awaited list" where
  "wn_spec n [] = []"
| "wn_spec n (ChildDone i r # es) = (if i < n then [wn_value i r] else wn_spec n es)"
| "wn_spec n (SourceStop a # es) = wn_spec n es"
| "wn_spec n (ChildParks i th # es) = wn_spec n es"
| "wn_spec n (_ # es) = []"

text \<open>Among children that are done when started, the first in order decides.\<close>

fun first_done :: "nat \<Rightarrow> 'v co_outcome option list \<Rightarrow> (nat \<times> 'v co_outcome) option" where
  "first_done k [] = None"
| "first_done k (Some r # rs) = Some (k, r)"
| "first_done k (None # rs) = first_done (Suc k) rs"

definition wn_open :: "'v when_any_op \<Rightarrow> bool" where
  "wn_open s \<longleftrightarrow> fa_alive s \<and> \<not> fa_dead s \<and> fa_returned s = [] \<and> \<not> wn_won s \<and> \<not> fa_wake s"

definition wn_decided :: "nat \<Rightarrow> 'v co_outcome \<Rightarrow> 'v when_any_op \<Rightarrow> bool" where
  "wn_decided w r s \<longleftrightarrow> fa_alive s \<and> \<not> fa_dead s \<and> fa_returned s = [] \<and> wn_won s \<and> wn_winner s = w
     \<and> w < length (fa_tasks s) \<and> ch_result (fa_tasks s ! w) = Some r"

lemma wn_await_resume_decided: "wn_decided w r s \<Longrightarrow> wn_await_resume s = wn_value w r"
  by (auto simp: wn_await_resume_def wn_decided_def wn_value_def split: co_outcome.splits)

lemma wn_done_open:
  assumes "wn_open s" "i < length (fa_tasks s)" "ch_result (f (fa_tasks s ! i)) = Some r"
  obtains s' where "wn_decided i r s'" "fa_suspended s' = fa_suspended s" "length (fa_tasks s') = length (fa_tasks s)"
    "wn_done i (on_child i f s) = (if fa_suspended s then resume_awaiting wn_await_resume s' else Some (s'\<lparr>fa_wake := True\<rparr>))"
proof -
  let ?s = "(on_child i f s)\<lparr>wn_won := True, wn_winner := i\<rparr>"
  let ?is = "filter (\<lambda>j. j \<noteq> i) [0..<length (fa_tasks s)]"
  obtain s' where s': "request_stops silent ?is ?s = Some s'" "same_op ?s s'" "fa_tasks s' ! i = f (fa_tasks s ! i)"
    using request_stops_silent [of ?s ?is] assms(1,2) by (auto simp: wn_open_def)
  show thesis
    by (rule that [of s'])
      (use s' assms same_opD [OF s'(2)] same_op_wn [OF s'(2)] in
        \<open>auto simp: wn_decided_def wn_open_def wn_done_def cancel_others_def\<close>)
qed

lemma wn_start_decided:
  "wn_decided w r s \<Longrightarrow> fa_wake s \<Longrightarrow> w \<notin> set is \<Longrightarrow> \<forall>i \<in> set is. i < length (fa_tasks s) \<Longrightarrow>
    \<exists>s'. start_all wn_done is s = Some s' \<and> wn_decided w r s' \<and> fa_wake s'"
proof (induction "is" arbitrary: s)
  case (Cons i "is")
  have won: "fa_alive s" "i < length (fa_tasks s)" "wn_won s"
    using Cons.prems by (auto simp: wn_decided_def)
  obtain f where f: "start_one wn_done i s = Some (on_child i f s)"
    using won(1,2) by (cases rule: start_one_cases [where d = wn_done]) (auto simp: wn_done_def won(3))
  have "wn_decided w r (on_child i f s)" "fa_wake (on_child i f s)"
    using Cons.prems by (auto simp: wn_decided_def)
  then show ?case
    using Cons.IH [of "on_child i f s"] Cons.prems(3,4) f by auto
qed auto

lemma wn_start_all:
  assumes "wn_open s" "\<not> fa_suspended s" "k \<le> length (fa_tasks s)"
  shows "\<exists>s'. start_all wn_done [k..<length (fa_tasks s)] s = Some s' \<and>
    (case first_done k (map (at_start s) (drop k (fa_tasks s))) of
       None \<Rightarrow> wn_open s' \<and> length (fa_tasks s') = length (fa_tasks s) \<and>
         (list_all (\<lambda>c. ch_result c = None) (fa_tasks s) \<longrightarrow> list_all (\<lambda>c. ch_result c = None) (fa_tasks s'))
     | Some (w, r) \<Rightarrow> wn_decided w r s' \<and> fa_wake s')"
  using assms
proof (induction "length (fa_tasks s) - k" arbitrary: s k)
  case (Suc n)
  then have k: "k < length (fa_tasks s)" and al: "fa_alive s"
    by (auto simp: wn_open_def)
  have up: "[k..<length (fa_tasks s)] = k # [Suc k..<length (fa_tasks s)]"
    and dr: "drop k (fa_tasks s) = (fa_tasks s ! k) # drop (Suc k) (fa_tasks s)"
    using k by (simp_all add: upt_conv_Cons Cons_nth_drop_Suc)
  from al k show ?case
  proof (cases rule: start_one_cases [where d = wn_done])
    case (parks f)
    let ?s = "on_child k f s"
    have "wn_open ?s" "at_start ?s = at_start s"
      using Suc.prems(1) by (auto simp: wn_open_def at_start_def)
    moreover have "list_all (\<lambda>c. ch_result c = None) (fa_tasks s) \<Longrightarrow> list_all (\<lambda>c. ch_result c = None) (fa_tasks ?s)"
      using parks(3) k by (auto simp: list_all_length nth_list_update)
    moreover have "n = length (fa_tasks ?s) - Suc k"
      using Suc.hyps(2) by simp
    ultimately show ?thesis
      using Suc.hyps(1) [of ?s "Suc k"] Suc.prems(2) k parks(1,2) by (auto simp: up dr split: option.splits)
  next
    case (ends r f)
    obtain s1 where s1: "wn_decided k r s1" "fa_suspended s1 = fa_suspended s" "length (fa_tasks s1) = length (fa_tasks s)"
        "wn_done k (on_child k f s) = Some (s1\<lparr>fa_wake := True\<rparr>)"
      using wn_done_open [where f = f, OF Suc.prems(1) k ends(3)] Suc.prems(2) by auto
    have "wn_decided k r (s1\<lparr>fa_wake := True\<rparr>)"
      using s1(1) by (simp add: wn_decided_def)
    then show ?thesis
      using wn_start_decided [of k r "s1\<lparr>fa_wake := True\<rparr>" "[Suc k..<length (fa_tasks s)]"] s1(3,4) ends(1,2)
      by (auto simp: up dr)
  qed
qed auto

lemma wn_run_spec:
  assumes "wn_open s" "fa_suspended s" "list_all (\<lambda>c. ch_result c = None) (fa_tasks s)" "ParentStop \<notin> set es"
  shows "\<exists>s'. fan_run wn_done es s = Some s' \<and> fa_returned s' = wn_spec (length (fa_tasks s)) es"
  using assms
proof (induction es arbitrary: s)
  case Nil
  then show ?case by (simp add: wn_open_def)
next
  case (Cons e es)
  have al: "fa_alive s" and ret: "fa_returned s = []"
    using Cons.prems(1) by (auto simp: wn_open_def)
  have run: "runnable i s \<longleftrightarrow> i < length (fa_tasks s)" for i
    using Cons.prems(2,3) al by (auto simp: runnable_def child_done_def list_all_length)
  show ?case
  proof (cases e)
    case (ChildDone i r)
    show ?thesis
    proof (cases "i < length (fa_tasks s)")
      case True
      obtain s1 where s1: "wn_decided i r s1"
          "wn_done i (on_child i (finish_with r) s) = resume_awaiting wn_await_resume s1"
        using wn_done_open [where f = "finish_with r" and r = r, OF Cons.prems(1) True] Cons.prems(2) by auto
      obtain s' where s': "resume_awaiting wn_await_resume s1 = Some s'" "\<not> fa_alive s'"
          "fa_returned s' = [wn_value i r]" "\<not> fa_parent_cancel s'"
        by (rule resume_awaiting_ok [of s1 wn_await_resume])
          (use s1(1) wn_await_resume_decided [OF s1(1)] in \<open>auto simp: wn_decided_def\<close>)
      then show ?thesis
        using ChildDone True run s1(2) gone_run [OF s'(2,4), of wn_done es] by auto
    qed (use ChildDone run Cons in auto)
  next
    case (ChildParks i th)
    have "wn_open (on_child i (ch_thunk_update (\<lambda>_. th)) s)"
      "list_all (\<lambda>c. ch_result c = None) (fa_tasks (on_child i (ch_thunk_update (\<lambda>_. th)) s))"
      using Cons.prems(1,3) by (auto simp: wn_open_def list_all_length)
    then show ?thesis
      using ChildParks Cons.prems Cons.IH [of s] Cons.IH [of "on_child i (ch_thunk_update (\<lambda>_. th)) s"] by auto
  next
    case (SourceStop a)
    then show ?thesis
      using Cons.prems Cons.IH [of "s\<lparr>fa_flags := stop_source_request a (fa_flags s)\<rparr>"] by (auto simp: wn_open_def)
  next
    case ParentDropped
    obtain s' where s': "fan_destroy (s\<lparr>fa_parent_cancel := False\<rparr>) = Some s'" "\<not> fa_alive s'"
        "fa_returned s' = []" "\<not> fa_parent_cancel s'"
      by (rule fan_destroy_ok [of "s\<lparr>fa_parent_cancel := False\<rparr>"]) (use al ret in auto)
    then show ?thesis
      using ParentDropped al gone_run [OF s'(2,4), of wn_done es] by auto
  qed (use Cons.prems in auto)
qed



section \<open>with\_timeout against its specification\<close>

definition wt_value :: "'v co_outcome \<Rightarrow> 'v awaited" where
  "wt_value r = (case r of Value v \<Rightarrow> Collected [v] | Threw \<Rightarrow> Rethrown)"

text \<open>The specification: the timer or the end of the child, whichever comes first.\<close>

fun wt_spec :: "'v timeout_event list \<Rightarrow> 'v awaited list" where
  "wt_spec [] = []"
| "wt_spec (TimerFires # es) = [Expired]"
| "wt_spec (Happens (ChildDone i r) # es) = [wt_value r]"
| "wt_spec (Happens (SourceStop a) # es) = wt_spec es"
| "wt_spec (Happens (ChildParks i th) # es) = wt_spec es"
| "wt_spec (Happens _ # es) = []"

definition wt_gone :: "'v timeout_op \<Rightarrow> bool" where
  "wt_gone s \<longleftrightarrow> \<not> wt_alive s \<and> \<not> wt_parent_cancel s \<and> \<not> wt_pending s"

definition wt_waits :: "'v timeout_op \<Rightarrow> bool" where
  "wt_waits s \<longleftrightarrow> wt_alive s \<and> wt_suspended s \<and> \<not> wt_dead s \<and> \<not> wt_resumed s \<and> wt_armed s \<and> wt_pending s
     \<and> \<not> wt_timed_out s \<and> \<not> wt_child_done s \<and> wt_err s = None \<and> ch_result (wt_child s) = None \<and> wt_returned s = []"

lemma wt_on_child_fields [simp]:
  "wt_child (wt_on_child f s) = f (wt_child s)" "wt_alive (wt_on_child f s) = wt_alive s"
  "wt_pending (wt_on_child f s) = wt_pending s" "wt_armed (wt_on_child f s) = wt_armed s"
  "wt_timed_out (wt_on_child f s) = wt_timed_out s" "wt_child_done (wt_on_child f s) = wt_child_done s"
  "wt_suspended (wt_on_child f s) = wt_suspended s" "wt_resumed (wt_on_child f s) = wt_resumed s"
  "wt_dead (wt_on_child f s) = wt_dead s" "wt_err (wt_on_child f s) = wt_err s"
  "wt_returned (wt_on_child f s) = wt_returned s" "wt_parent_cancel (wt_on_child f s) = wt_parent_cancel s"
  by (simp_all add: wt_on_child_def)

lemma wt_destroy_fields [simp]:
  "wt_returned (wt_destroy s) = wt_returned s" "\<not> wt_alive (wt_destroy s)"
  "wt_parent_cancel (wt_destroy s) = wt_parent_cancel s"
  "wt_pending (wt_destroy s) \<longleftrightarrow> wt_pending s \<and> \<not> wt_armed s"
  by (auto simp: wt_destroy_def wt_disarm_def Let_def split: thunk.splits)

lemma wt_resume_awaiting_fields [simp]:
  "wt_returned (wt_resume_awaiting s) = wt_returned s @ [wt_await_resume s]" "\<not> wt_alive (wt_resume_awaiting s)"
  "\<not> wt_parent_cancel (wt_resume_awaiting s)"
  "wt_pending (wt_resume_awaiting s) \<longleftrightarrow> wt_pending s \<and> \<not> wt_armed s"
  by (simp_all add: wt_resume_awaiting_def)

lemma wt_gone_step: "wt_gone s \<Longrightarrow> \<exists>s'. wt_step e s = Some s' \<and> wt_gone s' \<and> wt_returned s' = wt_returned s"
  by (cases "(e, s)" rule: wt_step.cases) (auto simp: wt_gone_def wt_runnable_def)

lemma wt_gone_run: "wt_gone s \<Longrightarrow> \<exists>s'. wt_run es s = Some s' \<and> wt_gone s' \<and> wt_returned s' = wt_returned s"
proof (induction es arbitrary: s)
  case (Cons e es)
  then show ?case
    using wt_gone_step [of s e] by fastforce
qed simp

lemma wt_child_waits:
  assumes "wt_waits s"
  shows "\<exists>s'. wt_child_thunk (wt_on_child (finish_with r) s) = Some s' \<and> wt_gone s' \<and> wt_returned s' = [wt_value r]"
  using assms
  by (auto simp: wt_child_thunk_def wt_waits_def Let_def wt_disarm_def wt_resume_parent_def wt_gone_def
      wt_await_resume_def collect_def wt_value_def split: co_outcome.splits)

lemma wt_timer_waits:
  assumes "wt_waits s"
  shows "\<exists>s'. wt_timer_thunk (s\<lparr>wt_pending := False\<rparr>) = Some s' \<and> wt_gone s' \<and> wt_returned s' = [Expired]"
  using assms
  by (auto simp: wt_timer_thunk_def wt_request_stop_def wt_child_thunk_def wt_waits_def Let_def wt_resume_parent_def
      wt_gone_def wt_await_resume_def split: thunk.splits)

lemma wt_run_spec:
  assumes "wt_waits s" "Happens ParentStop \<notin> set es"
  shows "\<exists>s'. wt_run es s = Some s' \<and> wt_returned s' = wt_spec es \<and> (wt_pending s' \<longrightarrow> wt_alive s')"
  using assms
proof (induction es arbitrary: s)
  case Nil
  then show ?case by (auto simp: wt_waits_def)
next
  case (Cons e es)
  have run: "wt_runnable s" and pend: "wt_pending s" "wt_alive s"
    using Cons.prems(1) by (auto simp: wt_waits_def wt_runnable_def child_done_def)
  have fin: "\<exists>s'. wt_run es s1 = Some s' \<and> wt_returned s' = v \<and> (wt_pending s' \<longrightarrow> wt_alive s')"
    if "wt_gone s1" "wt_returned s1 = v" for s1 v
    using wt_gone_run [OF that(1), of es] that(2) by (auto simp: wt_gone_def)
  show ?case
  proof (cases "(e, s)" rule: wt_step.cases)
    case 1
    then show ?thesis
      using wt_timer_waits [OF Cons.prems(1)] pend by (auto intro!: fin)
  next
    case (2 i r)
    then show ?thesis
      using wt_child_waits [OF Cons.prems(1), of r] run by (auto intro!: fin)
  next
    case (3 i th)
    have "wt_waits (wt_on_child (ch_thunk_update (\<lambda>_. th)) s)"
      using Cons.prems(1) by (simp add: wt_waits_def)
    then show ?thesis
      using 3 run Cons.IH Cons.prems(2) by auto
  next
    case (5 a)
    have "wt_waits (s\<lparr>wt_flags := stop_source_request a (wt_flags s)\<rparr>)"
      using Cons.prems(1) by (simp add: wt_waits_def)
    then show ?thesis
      using 5 Cons.IH Cons.prems(2) by auto
  next
    case 6
    have "wt_gone (wt_destroy (s\<lparr>wt_parent_cancel := False\<rparr>))" "wt_returned s = []"
      using Cons.prems(1) by (auto simp: wt_gone_def wt_waits_def)
    then show ?thesis
      using 6 pend(2) by (auto intro!: fin)
  qed (use Cons.prems in auto)
qed

lemma wt_await_cases:
  assumes "fresh_child c"
  shows "\<exists>s. wt_await (wt_new ctx fl b c) = Some s \<and>
    (if b \<or> stop_requested fl (cx_stop ctx) then wt_gone s \<and> wt_returned s = [Cancelled]
     else case wt_at_start ctx fl c of
         Some r \<Rightarrow> wt_gone s \<and> wt_returned s = [wt_value r]
       | None \<Rightarrow> wt_waits s)"
  using assms
  by (auto simp: wt_await_def wt_new_def Let_def wt_at_start_def wt_gone_def wt_waits_def wt_await_resume_def
      wt_child_thunk_def wt_disarm_def wt_resume_parent_def collect_def wt_value_def fresh_child_def
      split: sum.splits co_outcome.splits option.splits)



section \<open>A stop request to the parent\<close>

text \<open>When the child's awaiter does not resume it, the parent gets \<open>Cancelled\<close> once.\<close>

lemma with_timeout_stop_parked:
  assumes "wt_waits s" "wt_parent_cancel s" "\<And>r. ch_thunk (wt_child s) \<noteq> Unwinds r"
  shows "\<exists>s'. wt_step (Happens ParentStop) s = Some s' \<and> wt_gone s' \<and> wt_returned s' = [Cancelled]"
  using assms
  by (auto simp: wt_waits_def wt_cancel_thunk_def wt_disarm_def wt_request_stop_def wt_resume_parent_def Let_def
      wt_gone_def wt_await_resume_def split: thunk.splits)

text \<open>
  C39: \<open>with_timeout\<close> whose child is parked at an awaiter that a stop request unwinds: stopping the
  parent makes \<open>cancel_thunk\<close> call \<open>resume_parent\<close> on the object after \<open>child_thunk\<close> has resumed
  the parent and the parent has destroyed it.
\<close>

theorem with_timeout_stop_after_destruction:
  assumes "fresh_child c" "\<not> stop_requested fl (cx_stop ctx)"
    "ch_runs c (ch_stopped c \<or> stop_requested fl (cx_stop (inherit ctx (ch_ctx c)))) = Inr (Unwinds r)"
  shows "Option.bind (wt_await (wt_new ctx fl False c)) (wt_run [Happens ParentStop]) = None"
  using assms
  by (auto simp: wt_await_def wt_new_def Let_def wt_cancel_thunk_def wt_disarm_def wt_request_stop_def wt_child_thunk_def
      wt_resume_parent_def fresh_child_def)

theorem with_timeout_stop_after_destruction_witness:
  "Option.bind (wt_await (wt_new cx_empty (\<lambda>_. False) False sleeping_child)) (wt_run [Happens ParentStop]) = None"
  using with_timeout_stop_after_destruction [of sleeping_child "\<lambda>_. False" cx_empty "Value 0"]
  by (simp add: stop_requested_def cx_empty_def)

lemma two_list_simps: "[a, b] ! Suc 0 = b" "[a, b][0 := x] = [x, b]" "[a, b][Suc 0 := x] = [a, x]" "[0..<Suc (Suc 0)] = [0, Suc 0]"
  by (simp_all add: upt_rec)

text \<open>
  \<open>when_any\<close> over two parked children, the first at an awaiter that a stop request unwinds: stopping
  the parent makes \<open>cancel_children\<close> go on to the second task after the first one's end has
  resumed the parent and the parent has destroyed the tasks.
\<close>

theorem when_any_stop_after_destruction:
  assumes "fresh_child c" "fresh_child c'" "parks_at (wn_new ctx fl False [c, c']) (Unwinds r) c"
    "parks_at (wn_new ctx fl False [c, c']) th c'"
  shows "Option.bind (wn_await (wn_new ctx fl False [c, c'])) (fan_run wn_done [ParentStop]) = None"
proof -
  let ?n = "wn_new ctx fl False [c, c']"
  let ?s = "on_child 1 (\<lambda>c. (adopt_child ctx False c)\<lparr>ch_thunk := th\<rparr>)
    (on_child 0 (\<lambda>c. (adopt_child ctx False c)\<lparr>ch_thunk := Unwinds r\<rparr>) (?n\<lparr>fa_parent_cancel := True\<rparr>))"
  have aw: "wn_await ?n = Some (?s\<lparr>fa_suspended := True\<rparr>)"
    using assms
    by (auto simp: wn_await_def fan_suspend_def wn_new_def parks_at_def start_one_def two_list_simps on_child_def)
  let ?t = "on_child 0 (\<lambda>c. finish_with r (mark_stopped c))
    (?s\<lparr>fa_suspended := True, fa_parent_stopped := True, fa_parent_cancel := False\<rparr>)"
  obtain s1 where s1: "wn_decided 0 r s1" "wn_done 0 ?t = resume_awaiting wn_await_resume s1"
    using wn_done_open [of "?s\<lparr>fa_suspended := True, fa_parent_stopped := True, fa_parent_cancel := False\<rparr>" 0
        "\<lambda>c. finish_with r (mark_stopped c)" r]
    by (auto simp: wn_open_def wn_new_def)
  obtain s' where s': "resume_awaiting wn_await_resume s1 = Some s'" "\<not> fa_alive s'"
    by (rule resume_awaiting_ok [of s1 wn_await_resume]) (use s1(1) in \<open>auto simp: wn_decided_def\<close>)
  have "request_stop wn_done 0 (?s\<lparr>fa_suspended := True, fa_parent_stopped := True, fa_parent_cancel := False\<rparr>) = Some s'"
    using s1(2) s'(1) by (simp add: request_stop_def wn_new_def two_list_simps)
  moreover have "request_stop wn_done (Suc 0) s' = None"
    using s'(2) by (simp add: request_stop_def)
  ultimately show ?thesis
    by (simp add: aw cancel_children_def two_list_simps) (simp add: wn_new_def two_list_simps)
qed

theorem when_any_stop_after_destruction_witness:
  "Option.bind (wn_await (wn_new cx_empty (\<lambda>_. False) False [sleeping_child, sleeping_child]))
     (fan_run wn_done [ParentStop]) = None"
  using when_any_stop_after_destruction [of sleeping_child sleeping_child cx_empty "\<lambda>_. False" "Value 0" "Unwinds (Value 0)"]
  by simp

end
