(* ===== verification/Spec2Isabelle.thy ===== *)
theory Spec2Isabelle
  imports Handle_Table Io_Buffer Work_Context Observability Intrusive_List Timer_Heap Event_Loop Memory Channel Http Conn_Coro
    Client_Runs Server_Runs Sim_Runs Epoll_Runs Coro_Runs
begin

text \<open>
  A verification development for AffiniX, an event-loop library in C++ in which every connection,
  timer and coroutine belongs to one event manager on one thread, and threads talk through mailboxes.

  \<^bold>\<open>The program.\<close> An event manager (\<^verbatim>\<open>include/afx/core/event_manager.hpp\<close>) runs one loop: it takes
  posted work from its mailbox, fires the timers that are due, waits on a back end, dispatches
  completions to the sinks that asked for them, runs deferred work and flushes writes. Timers are kept
  in a hierarchical wheel and a heap, objects in generation-checked handle tables. A back end performs
  the I/O: epoll, io\_uring or kqueue, or a simulated one attached to a simulated network. Connections,
  clients and servers are sinks of an event manager. Coroutines run on top of timers, mailboxes and
  connections.

  \<^bold>\<open>How the code is modelled.\<close> A class is a record of its members, an operation a function on the
  record, in the order of the code and with its early returns. An outcome the code cannot recover from
  (an access outside an allocation, a null or destroyed object, \<^verbatim>\<open>std::terminate\<close>, a loop that does
  not end) is the value \<open>None\<close>, so a theorem that gives \<open>Some\<close> excludes it. Errors are values: results are
  sums with the error on the left. Counters, positions, generations and tags are words and wrap; times
  are integers in nanoseconds. What other code decides is a parameter: application callbacks as the
  calls they make, the kernel as its answers, random draws as a stream, memory from the system as
  fresh names. Threads are interleaved steps.

  \<^bold>\<open>Theories and sources\<close> (paths under \<^verbatim>\<open>include/afx\<close> and \<^verbatim>\<open>src\<close> of the repository).
    \<^item> \<open>Afx_Prelude\<close>: machine integers, time, shared lemmas.
    \<^item> \<open>Handle_Table\<close> (\<^verbatim>\<open>core/handle_table.hpp\<close>): slots with generations and deferred reuse. The locale \<open>slab\<close>
      is the contract its users rely on; a released handle never resolves again.
    \<^item> \<open>Io_Buffer\<close> (\<^verbatim>\<open>core/io_buffer.hpp\<close>): the byte buffer with headroom; it implements the locale
      \<open>byte_queue\<close>.
    \<^item> \<open>Work_Context\<close> (\<^verbatim>\<open>core/context.hpp\<close>): deadlines, traces, stop tokens, the ambient context.
    \<^item> \<open>Observability\<close> (\<^verbatim>\<open>core/stats.hpp\<close>, \<^verbatim>\<open>core/flight_recorder.hpp\<close>).
    \<^item> \<open>Timer_Wheel\<close>, \<open>Intrusive_List\<close>, \<open>Timer_Heap\<close> (\<^verbatim>\<open>core/timer_wheel.hpp\<close>): which timers fire on an
      advance, that the pointer lists implement the buckets, that the heap expires in deadline order.
      The locales \<open>wheel_client\<close> and \<open>heap_client\<close> say what a firing callback may do.
    \<^item> \<open>Backend_Api\<close> (\<^verbatim>\<open>backend/backend.hpp\<close>, \<^verbatim>\<open>sys/timestamping.hpp\<close>): tags, completions, time stamps.
    \<^item> \<open>Event_Manager\<close>, \<open>Em_Timers\<close>, \<open>Event_Loop\<close> (\<^verbatim>\<open>core/event_manager.hpp\<close>): state and operations, the
      invariant of the timers and that firing keeps it, the loop iteration, sleeping and shutdown.
    \<^item> \<open>Memory\<close> (\<^verbatim>\<open>core/arena.hpp\<close>, \<^verbatim>\<open>core/pool.hpp\<close>, \<^verbatim>\<open>coro/frame_cache.hpp\<close>): blocks do not overlap.
    \<^item> \<open>Itc_Rings\<close> (\<^verbatim>\<open>itc/spsc_ring.hpp\<close>, \<^verbatim>\<open>itc/mpsc_ring.hpp\<close>): sequential and interleaved, both against a
      bounded queue (locale \<open>ring_push\<close>). \<open>Mailbox\<close> and \<open>Channel\<close> (\<^verbatim>\<open>itc/mailbox.hpp\<close>, \<^verbatim>\<open>itc/channel.hpp\<close>,
      \<^verbatim>\<open>itc/fan.hpp\<close>, \<^verbatim>\<open>itc/barrier.hpp\<close>, \<^verbatim>\<open>itc/sharded.hpp\<close>): what a post answers, and the wake-up protocol
      with store buffers.
    \<^item> \<open>Sys_Base\<close> (\<^verbatim>\<open>sys/error.hpp\<close>, \<^verbatim>\<open>sys/result.hpp\<close>, \<^verbatim>\<open>sys/endian.hpp\<close>), \<open>Framing\<close> (\<^verbatim>\<open>net/protocol.hpp\<close>) and
      \<open>Http\<close> (\<^verbatim>\<open>admin/http.cpp\<close>): framers as the locales \<open>framer_base\<close> and \<open>framer\<close>, which give independence of
      segmentation; fixed-header protocols, lines and HTTP are interpretations.
    \<^item> \<open>Connection\<close>, \<open>Conn_Lifecycle\<close>, \<open>Conn_Streams\<close>, \<open>Conn_Writes\<close>, \<open>Conn_Coro\<close> (\<^verbatim>\<open>net/connection.hpp\<close>): all
      operations of a connection with the log of its calls; the invariant and the order of the teardown;
      the read stream as frames; the write queue against the wire; coroutine sessions.
    \<^item> \<open>Conn_Owner\<close>, \<open>Tcp_Client\<close>, \<open>Client_Inv\<close>, \<open>Client_Runs\<close> (\<^verbatim>\<open>net/tcp_client.hpp\<close>) and \<open>Tcp_Server\<close>,
      \<open>Server_Runs\<close> (\<^verbatim>\<open>net/tcp_server.hpp\<close>): step relations over connections. The locale \<open>fd_holder\<close> is what an
      owner knows of a connection. A client with reconnection never gets stuck; a server conserves
      descriptors and keeps its accept pipeline armed.
    \<^item> \<open>Sim_Backend\<close>, \<open>Sim_Net\<close>, \<open>Sim_World\<close>, \<open>Sim_Queue\<close>, \<open>Sim_Stream\<close>, \<open>Sim_Runs\<close> (\<^verbatim>\<open>backend/sim.cpp\<close>,
      \<^verbatim>\<open>sim/net.cpp\<close>): the simulated back end and network, and the streams across a link.
    \<^item> \<open>Epoll_Backend\<close>, \<open>Epoll_Stream\<close>, \<open>Epoll_Ends\<close>, \<open>Epoll_Runs\<close> (\<^verbatim>\<open>backend/epoll.cpp\<close>): the epoll back end
      over a kernel of answers; the order of the bytes on the wire and that a wait ends.
    \<^item> \<open>Coro_Combine\<close>, \<open>Coro_Runs\<close> (\<^verbatim>\<open>coro/combine.hpp\<close>, \<^verbatim>\<open>coro/task.hpp\<close>): \<open>when_all\<close>, \<open>when_any\<close> and
      \<open>with_timeout\<close> against specifications that read only the events, with the lifetime of the object.
    \<^item> This theory: messages from one application to another, across connection, framing, back end and
      network.

  \<^bold>\<open>Bounds.\<close> Loops of the code are recursive functions with a termination proof, or partial functions in
  \<open>option\<close> where their end depends on a callback or the kernel; there the theorems state that they return
  (\<open>timer_stage_ends\<close>, \<open>epoll_run_returns\<close>, \<open>connection_delivers_frames\<close>) under the condition on that
  callback or kernel, and no fuel is used. Times stay within 64 bits, sizes within memory; where a
  computation can wrap in a reachable state the definition wraps. The interleavings of the rings are
  sequentially consistent; those of the wake-up protocol have store buffers.

  \<^bold>\<open>What the code does not do.\<close> Some theorems give behaviour that differs from the documentation or
  intent: a timer that reschedules itself from its own callback stays in the heap with its slot released, a lost race of connection
  attempts schedules a reconnect, the end of a simulated stream overtakes its bytes, the epoll back end
  reports a partial send short and drops what is unread at a hangup, a session reads the bytes of an
  earlier read, and stopping the parent of a combinator uses it after its destruction.

  \<^bold>\<open>Not modelled.\<close> The io\_uring back end, whose rings are shared with the kernel and of whose protocol the
  sources hold one side only; the kqueue back end, the BSD twin of the epoll one; UDP sockets, name
  resolution, socket calls, clocks, thread placement and crash dumps, which are calls to the operating
  system; thread creation in the runtime; the text the admin server renders; coroutine scopes and the
  adapters between coroutines and connections, which need the heap of coroutine frames; benchmarks,
  examples and tools.
\<close>

section \<open>From one application to another\<close>

lemma echo_stream_parses:
  assumes "list_all (\<lambda>b. length b < 2 ^ 16) bodies"
  shows "parse_stream (fh_parse echo_proto) (concat (map echo_frame bodies)) = Some (map echo_message bodies, [], None)"
proof -
  have "parse_stream (fh_parse echo_proto) (concat (map (\<lambda>m. echo_frame (fv_body m)) (map echo_message bodies))) =
      Some (map echo_message bodies, [], None)"
    by (rule echo.encoded_frames) (use assms echo_frame_parses in \<open>auto simp: echo_message_def list_all_iff\<close>)
  then show ?thesis by (simp add: comp_def echo_message_def)
qed


text \<open>One frame of one byte, amid a send of another descriptor.\<close>

definition sample_echo :: "unit traffic list" where
  "sample_echo = [TSendv 0 3 7 [[0xA5, 0], [1, 1, 42]], TSendv 0 4 6 [[6]]]"

lemma sample_frame_sent:
  "sb_sent 7 (wd_backends (fold (do_traffic (\<lambda>_. 1 / 2)) sample_echo (dialled (\<lambda>_. 1 / 2) sample_faults 80 5 0 7 1 9)) 0) =
     concat (map echo_frame [[42]])"
proof -
  have "sb_sent 7 (wd_backends (dialled (\<lambda>_. 1 / 2) sample_faults 80 5 0 7 1 9 :: unit world) 0) = []"
    by (simp add: sent_outbound sample_eval arm_keeps) (simp add: fd_at_def bk_new_def fd_new_def)
  then have "sb_sent 7 (wd_backends (fold (do_traffic (\<lambda>_. 1 / 2)) sample_echo (dialled (\<lambda>_. 1 / 2) sample_faults 80 5 0 7 1 9)) 0) =
      [0xA5, 0, 1, 1, 42]"
    by (simp add: sample_echo_def w_submit_sendv_def sent_outbound send_outbound Let_def)
  then show ?thesis by (simp add: echo_frame_def store16_def be16_def byteswap16_def)
qed


end
